(* ===== verification/Prelude.thy ===== *)
theory Prelude
  imports Main "HOL-Library.AList" "HOL-Library.Multiset"
begin

text \<open>
  What every component of the development shares: the values a Go \<open>error\<close> takes in this
  program, the effect type of an operation that reads and writes a state and may return an
  error, the combinators that sequence such operations with Go's early returns, and generic
  lemmas on association lists and maps (Go maps) collected for the automation.
\<close>

section \<open>Collections of facts\<close>

named_theorems go_arith \<open>evaluation and bounds of Go machine arithmetic\<close>
named_theorems eff_simps \<open>unfolding of effectful operations\<close>
named_theorems gomap_simps \<open>lookups in updated Go maps\<close>

section \<open>Go errors\<close>

text \<open>
  An error is one of the sentinel values the code compares against with \<open>errors.Is\<close>, a
  message built by \<open>fmt.Errorf\<close> (kept as its format string and its arguments), or a message
  that wraps another error with \<open>%w\<close>.
\<close>

datatype fmt_arg = FInt int | FStr string

datatype go_error =
    ErrOwnershipFenceLost
  | ErrStaleShardCheckpoint
  | ErrNoRows
  | ContextCanceled
  | ErrExternal string
  | ErrMsg string "fmt_arg list"
  | ErrWrap string go_error

text \<open>\<open>errors.Is\<close>: the error itself, or one it wraps.\<close>

fun errors_is :: "go_error \<Rightarrow> go_error \<Rightarrow> bool" where
  "errors_is (ErrWrap m e) target = (ErrWrap m e = target \<or> errors_is e target)"
| "errors_is e target = (e = target)"

section \<open>Effects: state, result, early return\<close>

type_synonym ('s, 'a) eff = "'s \<Rightarrow> (go_error + 'a) \<times> 's"

definition ret :: "'a \<Rightarrow> ('s, 'a) eff" where
  "ret x = (\<lambda>s. (Inr x, s))"

definition throw :: "go_error \<Rightarrow> ('s, 'a) eff" where
  "throw e = (\<lambda>s. (Inl e, s))"

definition ebind :: "('s, 'a) eff \<Rightarrow> ('a \<Rightarrow> ('s, 'b) eff) \<Rightarrow> ('s, 'b) eff" where
  "ebind m f = (\<lambda>s. case m s of (Inl e, s') \<Rightarrow> (Inl e, s') | (Inr x, s') \<Rightarrow> f x s')"

text \<open>\<open>if err != nil { return fmt.Errorf("...: %w", err) }\<close>\<close>

definition wrap_err :: "string \<Rightarrow> ('s, 'a) eff \<Rightarrow> ('s, 'a) eff" where
  "wrap_err msg m = (\<lambda>s. case m s of (Inl e, s') \<Rightarrow> (Inl (ErrWrap msg e), s') | (Inr x, s') \<Rightarrow> (Inr x, s'))"

text \<open>A pure check that may return an error.\<close>

definition lift_res :: "go_error + 'a \<Rightarrow> ('s, 'a) eff" where
  "lift_res r = (\<lambda>s. (r, s))"

text \<open>A \<open>for\<close> loop over a slice whose body may return an error.\<close>

fun efor :: "'a list \<Rightarrow> ('a \<Rightarrow> ('s, unit) eff) \<Rightarrow> ('s, unit) eff" where
  "efor [] f = ret ()"
| "efor (x # xs) f = ebind (f x) (\<lambda>_. efor xs f)"

lemma ret_apply [simp, eff_simps]: "ret x s = (Inr x, s)"
  by (simp add: ret_def)

lemma throw_apply [simp, eff_simps]: "throw e s = (Inl e, s)"
  by (simp add: throw_def)

lemma lift_res_apply [simp, eff_simps]: "lift_res r s = (r, s)"
  by (simp add: lift_res_def)

lemma ebind_ret [simp]: "ebind (ret x) f = f x"
  by (simp add: ebind_def ret_def)

lemma ebind_throw [simp]: "ebind (throw e) f = throw e"
  by (simp add: ebind_def throw_def)

lemma ebind_assoc: "ebind (ebind m f) g = ebind m (\<lambda>x. ebind (f x) g)"
  by (auto simp: ebind_def fun_eq_iff split: prod.splits sum.splits)

lemma ebind_Inr_eq [simp]: "m s = (Inr x, s') \<Longrightarrow> ebind m f s = f x s'"
  by (simp add: ebind_def)

lemma ebind_Inl_eq [simp]: "m s = (Inl e, s') \<Longrightarrow> ebind m f s = (Inl e, s')"
  by (simp add: ebind_def)

lemma ebind_ok_iff:
  "ebind m f s = (Inr y, t) \<longleftrightarrow> (\<exists>x s'. m s = (Inr x, s') \<and> f x s' = (Inr y, t))"
  by (auto simp: ebind_def split: prod.splits sum.splits)

lemma ebind_err_iff:
  "ebind m f s = (Inl e, t) \<longleftrightarrow>
     m s = (Inl e, t) \<or> (\<exists>x s'. m s = (Inr x, s') \<and> f x s' = (Inl e, t))"
  by (auto simp: ebind_def split: prod.splits sum.splits)

lemma wrap_err_ok_iff [simp]: "wrap_err msg m s = (Inr x, t) \<longleftrightarrow> m s = (Inr x, t)"
  by (auto simp: wrap_err_def split: prod.splits sum.splits)

lemma wrap_err_err_iff:
  "wrap_err msg m s = (Inl e, t) \<longleftrightarrow> (\<exists>e'. e = ErrWrap msg e' \<and> m s = (Inl e', t))"
  by (auto simp: wrap_err_def split: prod.splits sum.splits)

lemma snd_wrap_err [simp]: "snd (wrap_err msg m s) = snd (m s)"
  by (auto simp: wrap_err_def split: prod.splits sum.splits)

lemma efor_append: "efor (xs @ ys) f = ebind (efor xs f) (\<lambda>_. efor ys f)"
  by (induction xs) (simp_all add: ebind_assoc)

text \<open>
  Invariants of effects: \<open>keeps P m\<close> says that \<open>m\<close> takes a state with \<open>P\<close> to a state with
  \<open>P\<close>, whatever its result.
\<close>

definition keeps :: "('s \<Rightarrow> bool) \<Rightarrow> ('s, 'a) eff \<Rightarrow> bool" where
  "keeps P m \<longleftrightarrow> (\<forall>s. P s \<longrightarrow> P (snd (m s)))"

lemma keepsI [intro?]: "(\<And>s. P s \<Longrightarrow> P (snd (m s))) \<Longrightarrow> keeps P m"
  by (simp add: keeps_def)

lemma keepsD: "keeps P m \<Longrightarrow> P s \<Longrightarrow> P (snd (m s))"
  by (simp add: keeps_def)

lemma keepsE: "keeps P m \<Longrightarrow> m s = (r, s') \<Longrightarrow> P s \<Longrightarrow> P s'"
  using keepsD[of P m s] by simp

lemma keeps_ret [simp, intro]: "keeps P (ret x)"
  by (simp add: keeps_def)

lemma keeps_throw [simp, intro]: "keeps P (throw e)"
  by (simp add: keeps_def)

lemma keeps_lift_res [simp, intro]: "keeps P (lift_res r)"
  by (simp add: keeps_def)

lemma keeps_ebind [intro]: "keeps P m \<Longrightarrow> (\<And>x. keeps P (f x)) \<Longrightarrow> keeps P (ebind m f)"
  unfolding keeps_def ebind_def by (auto split: prod.split sum.split)

lemma keeps_wrap_err [intro]: "keeps P m \<Longrightarrow> keeps P (wrap_err msg m)"
  by (simp add: keeps_def)

lemma keeps_efor: "(\<And>x. x \<in> set xs \<Longrightarrow> keeps P (f x)) \<Longrightarrow> keeps P (efor xs f)"
  by (induction xs) auto

section \<open>Go maps as association lists\<close>

text \<open>
  A Go map that the code ranges over is an association list with distinct keys; the list order
  stands for the unspecified order of \<open>range\<close>. A lookup is \<open>map_of\<close>, an assignment
  \<open>AList.update\<close>, \<open>delete\<close> is \<open>AList.delete\<close>.
\<close>

lemma map_of_AList_update [gomap_simps]:
  "map_of (AList.update k v m) k' = (if k' = k then Some v else map_of m k')"
  by (simp add: update_conv')

lemma map_of_AList_delete [gomap_simps]:
  "map_of (AList.delete k m) k' = (if k' = k then None else map_of m k')"
  by (simp add: delete_conv')

lemma distinct_fst_AList_update [gomap_simps]:
  "distinct (map fst m) \<Longrightarrow> distinct (map fst (AList.update k v m))"
  by (rule distinct_update)

lemma distinct_fst_AList_delete [gomap_simps]:
  "distinct (map fst m) \<Longrightarrow> distinct (map fst (AList.delete k m))"
  by (rule distinct_delete)

lemma set_alist_iff: "distinct (map fst m) \<Longrightarrow> (k, v) \<in> set m \<longleftrightarrow> map_of m k = Some v"
  by simp

end
