(* ===== verification/GoInt.thy ===== *)
theory GoInt
  imports Prelude "HOL-Library.Signed_Division" "HOL-Library.Log_Nat"
begin

text \<open>
  Go's machine arithmetic as far as the program uses it. Values of the Go types \<open>int\<close> and
  \<open>int64\<close> (64 bits on the platforms the program runs on) and \<open>int32\<close> are HOL integers, and
  every operation that can leave the range is written with its wrap-around (\<open>wrap64\<close>,
  \<open>wrap32\<close>, \<open>uwrap32\<close>). Division truncates towards zero. \<open>float64\<close> occurs only as a detour
  of integer computations (\<open>math.Abs\<close>, \<open>math.Sqrt\<close>, \<open>math.Ceil\<close>); it is modelled exactly, with
  IEEE rounding to 53 significant bits, ties to even.
\<close>

unbundle bit_operations_syntax

section \<open>Two's complement\<close>

definition wrap64 :: "int \<Rightarrow> int" where
  "wrap64 x = (x + 2 ^ 63) mod 2 ^ 64 - 2 ^ 63"

definition wrap32 :: "int \<Rightarrow> int" where
  "wrap32 x = (x + 2 ^ 31) mod 2 ^ 32 - 2 ^ 31"

definition uwrap32 :: "int \<Rightarrow> int" where
  "uwrap32 x = x mod 2 ^ 32"

definition in64 :: "int \<Rightarrow> bool" where
  "in64 x \<longleftrightarrow> - (2 ^ 63) \<le> x \<and> x < 2 ^ 63"

definition in32 :: "int \<Rightarrow> bool" where
  "in32 x \<longleftrightarrow> - (2 ^ 31) \<le> x \<and> x < 2 ^ 31"

lemma wrap64_id [simp, go_arith]: "in64 x \<Longrightarrow> wrap64 x = x"
  by (simp add: wrap64_def in64_def)

lemma wrap32_id [simp, go_arith]: "in32 x \<Longrightarrow> wrap32 x = x"
  by (simp add: wrap32_def in32_def)

lemma in64_wrap64 [simp, intro]: "in64 (wrap64 x)"
proof -
  have "0 \<le> (x + 2 ^ 63) mod 2 ^ 64" "(x + 2 ^ 63) mod 2 ^ 64 < (2::int) ^ 64"
    by simp_all
  then show ?thesis unfolding wrap64_def in64_def by simp
qed

lemma in32_wrap32 [simp, intro]: "in32 (wrap32 x)"
proof -
  have "0 \<le> (x + 2 ^ 31) mod 2 ^ 32" "(x + 2 ^ 31) mod 2 ^ 32 < (2::int) ^ 32"
    by simp_all
  then show ?thesis unfolding wrap32_def in32_def by simp
qed

lemma in32_in64: "in32 x \<Longrightarrow> in64 x"
  by (simp add: in32_def in64_def)

lemma wrap64_wrap32 [simp]: "wrap64 (wrap32 x) = wrap32 x"
  by (rule wrap64_id) (rule in32_in64, rule in32_wrap32)

lemma wrap64_cong_mod: "wrap64 x mod 2 ^ 64 = x mod 2 ^ 64"
proof -
  have "wrap64 x mod 2 ^ 64 = ((x + 2 ^ 63) - 2 ^ 63) mod 2 ^ 64"
    unfolding wrap64_def by (rule mod_diff_left_eq)
  then show ?thesis by simp
qed

section \<open>Truncating division\<close>

lemma div_le_self_int: "0 \<le> a \<Longrightarrow> 0 < b \<Longrightarrow> a div b \<le> (a::int)"
  using zdiv_mono2[of a 1 b] by simp

lemma div_nonneg_int: "0 \<le> a \<Longrightarrow> 0 < b \<Longrightarrow> 0 \<le> a div (b::int)"
  by (simp add: pos_imp_zdiv_nonneg_iff)

definition quot64 :: "int \<Rightarrow> int \<Rightarrow> int" where
  "quot64 a b = wrap64 (a sdiv b)"

lemma quot64_nonneg [go_arith]:
  assumes "0 \<le> a" "a < 2 ^ 63" "0 < b"
  shows "quot64 a b = a div b"
proof -
  have "0 \<le> a div b" "a div b \<le> a"
    using assms by (simp_all add: div_le_self_int div_nonneg_int)
  then have "in64 (a div b)"
    using assms by (simp add: in64_def)
  moreover have "a sdiv b = a div b"
    using assms by (cases "a = 0") (auto simp: signed_divide_int_def sgn_1_pos)
  ultimately show ?thesis by (simp add: quot64_def)
qed

lemma quot64_pos:
  assumes "in64 a" "0 < b"
  shows "quot64 a b = sgn a * (\<bar>a\<bar> div b)"
proof -
  have le: "\<bar>a\<bar> div b \<le> \<bar>a\<bar>"
    using assms(2) by (simp add: div_le_self_int)
  have eq: "a sdiv b = sgn a * (\<bar>a\<bar> div b)"
    using assms(2) by (simp add: signed_divide_int_def sgn_mult)
  have "in64 (sgn a * (\<bar>a\<bar> div b))"
  proof (cases "0 \<le> a")
    case True
    then have "0 \<le> a div b" "a div b \<le> a"
      using assms(2) le by (simp_all add: pos_imp_zdiv_nonneg_iff)
    with True assms(1) show ?thesis by (auto simp: in64_def sgn_if)
  next
    case False
    then have "0 \<le> (- a) div b" "(- a) div b \<le> - a"
      using assms(2) le by (simp_all add: pos_imp_zdiv_nonneg_iff)
    with False assms(1) show ?thesis by (auto simp: in64_def sgn_if)
  qed
  with eq show ?thesis by (simp add: quot64_def)
qed

section \<open>Integers through \<open>float64\<close>\<close>

text \<open>
  \<open>f64_of_int n\<close> is the integer value of \<open>float64(n)\<close>: \<open>n\<close> itself up to 53 significant bits,
  else rounded to a multiple of the last place, ties to even.
\<close>

definition f64_of_int :: "int \<Rightarrow> int" where
  "f64_of_int n =
     (let e = nat (bitlen \<bar>n\<bar> - 53) in
      if e = 0 then n
      else let p = 2 ^ e; q = \<bar>n\<bar> div p; r = \<bar>n\<bar> mod p;
               q' = (if 2 * r < p \<or> (2 * r = p \<and> even q) then q else q + 1)
           in sgn n * (q' * p))"

text \<open>
  \<open>int64(f)\<close> for an integral \<open>f\<close>. Go leaves the result of an out-of-range conversion to the
  implementation; the value below is that of amd64.
\<close>

definition int64_of_f64 :: "int \<Rightarrow> int" where
  "int64_of_f64 f = (if in64 f then f else - (2 ^ 63))"

text \<open>\<open>int64(math.Abs(float64(dx)) + math.Abs(float64(dy)))\<close>\<close>

definition manhattan64 :: "int \<Rightarrow> int \<Rightarrow> int" where
  "manhattan64 dx dy = int64_of_f64 (f64_of_int (\<bar>f64_of_int dx\<bar> + \<bar>f64_of_int dy\<bar>))"

lemma f64_of_int_exact [simp, go_arith]: "\<bar>n\<bar> < 2 ^ 53 \<Longrightarrow> f64_of_int n = n"
proof -
  assume "\<bar>n\<bar> < 2 ^ 53"
  then have "bitlen \<bar>n\<bar> \<le> 53"
    using bitlen_le_iff_power[of "\<bar>n\<bar>" 53] by simp
  then show ?thesis by (simp add: f64_of_int_def)
qed

lemma manhattan64_exact [go_arith]:
  assumes "\<bar>dx\<bar> < 2 ^ 52" "\<bar>dy\<bar> < 2 ^ 52"
  shows "manhattan64 dx dy = \<bar>dx\<bar> + \<bar>dy\<bar>"
proof -
  have "in64 (\<bar>dx\<bar> + \<bar>dy\<bar>)" "f64_of_int (\<bar>dx\<bar> + \<bar>dy\<bar>) = \<bar>dx\<bar> + \<bar>dy\<bar>"
    "f64_of_int dx = dx" "f64_of_int dy = dy"
    using assms by (simp_all add: in64_def)
  then show ?thesis by (simp add: manhattan64_def int64_of_f64_def)
qed

section \<open>\<open>int(math.Ceil(math.Sqrt(float64(n))))\<close>\<close>

text \<open>Integer square root, two bits at a time.\<close>

fun isqrt :: "nat \<Rightarrow> nat" where
  "isqrt n =
     (if n = 0 then 0
      else let r = 2 * isqrt (n div 4) in if (r + 1) * (r + 1) \<le> n then r + 1 else r)"

declare isqrt.simps [simp del]

lemma isqrt_bounds: "isqrt n * isqrt n \<le> n \<and> n < (isqrt n + 1) * (isqrt n + 1)"
proof (induction n rule: isqrt.induct)
  case (1 n)
  show ?case
  proof (cases "n = 0")
    case True
    then show ?thesis by (simp add: isqrt.simps)
  next
    case False
    let ?r = "isqrt (n div 4)"
    from "1.IH" False have IH: "?r * ?r \<le> n div 4" "n div 4 < (?r + 1) * (?r + 1)" by auto
    from IH(1) have lo: "(2 * ?r) * (2 * ?r) \<le> n" by linarith
    from IH(2) have "n div 4 + 1 \<le> (?r + 1) * (?r + 1)" by linarith
    then have "4 * (n div 4) + 4 \<le> 4 * ((?r + 1) * (?r + 1))" by linarith
    moreover have "n < 4 * (n div 4) + 4" by linarith
    ultimately have hi: "n < (2 * ?r + 2) * (2 * ?r + 2)" by (simp add: algebra_simps)
    show ?thesis
      using False lo hi by (auto simp: isqrt.simps[of n] Let_def)
  qed
qed

lemma isqrt_le_iff: "k \<le> isqrt n \<longleftrightarrow> k * k \<le> n"
proof
  assume "k \<le> isqrt n"
  then have "k * k \<le> isqrt n * isqrt n" by (simp add: mult_le_mono)
  then show "k * k \<le> n" using isqrt_bounds[of n] by linarith
next
  assume a: "k * k \<le> n"
  show "k \<le> isqrt n"
  proof (rule ccontr)
    assume "\<not> k \<le> isqrt n"
    then have "(isqrt n + 1) * (isqrt n + 1) \<le> k * k" by (intro mult_le_mono) simp_all
    then show False using a isqrt_bounds[of n] by linarith
  qed
qed

text \<open>
  The correctly rounded square root of \<open>m\<close> has \<open>t\<close> fractional bits, where its integer part
  takes the other \<open>53 - t\<close>: \<open>r\<close> is the root with one bit more, \<open>(r + 1) div 2\<close> rounds it (a
  tie would make \<open>m\<close> the square of a non-integral fraction), and the last step is the ceiling.
\<close>

definition go_sqrt_ceil :: "int \<Rightarrow> int" where
  "go_sqrt_ceil n =
     (let m = nat (f64_of_int n);
          t = nat (53 - bitlen (int (isqrt m)));
          r = isqrt (m * 4 ^ (t + 1))
      in int (((r + 1) div 2 + (2 ^ t - 1)) div 2 ^ t))"

definition ceil_sqrt :: "int \<Rightarrow> int" where
  "ceil_sqrt n = (let r = isqrt (nat n) in if r * r = nat n then int r else int r + 1)"

text \<open>\<open>ceil_sqrt n\<close> is the least integer whose square is at least \<open>n\<close>.\<close>

lemma ceil_sqrt_int: "ceil_sqrt (int N) = int (if isqrt N * isqrt N = N then isqrt N else isqrt N + 1)"
  by (simp add: ceil_sqrt_def Let_def)

lemma ceil_sqrt_le: "n \<le> ceil_sqrt n * ceil_sqrt n"
proof (cases n)
  case (nonneg N)
  have "N \<le> (if isqrt N * isqrt N = N then isqrt N else isqrt N + 1) *
             (if isqrt N * isqrt N = N then isqrt N else isqrt N + 1)"
    using isqrt_bounds[of N] by auto
  then show ?thesis unfolding nonneg ceil_sqrt_int by (metis of_nat_le_iff of_nat_mult)
next
  case (neg N)
  then show ?thesis using zero_le_square[of "ceil_sqrt n"] by linarith
qed

lemma ceil_sqrt_pos: "1 \<le> n \<Longrightarrow> 1 \<le> ceil_sqrt n"
proof -
  assume "1 \<le> n"
  then have "1 \<le> isqrt (nat n)" by (simp add: isqrt_le_iff)
  then show ?thesis by (simp add: ceil_sqrt_def Let_def)
qed

lemma ceil_sqrt_pred:
  assumes "1 \<le> n"
  shows "(ceil_sqrt n - 1) * (ceil_sqrt n - 1) < n"
proof -
  obtain N where n: "n = int N" using assms nonneg_int_cases[of n] by auto
  let ?r = "isqrt N"
  have r: "?r * ?r \<le> N" "1 \<le> ?r" using isqrt_bounds[of N] assms n by (simp_all add: isqrt_le_iff)
  show ?thesis
  proof (cases "?r * ?r = N")
    case True
    have "(?r - 1) * (?r - 1) < ?r * ?r" using r(2) by (intro mult_strict_mono) simp_all
    then have "int ((?r - 1) * (?r - 1)) < int N" unfolding True by (rule iffD2[OF of_nat_less_iff])
    then have "(int ?r - 1) * (int ?r - 1) < int N" unfolding of_nat_mult using r(2) by (simp only: of_nat_diff of_nat_1)
    then show ?thesis using True unfolding n ceil_sqrt_int by simp
  next
    case False
    have "?r * ?r < N" using r(1) False by (rule le_neq_trans)
    then have "int (?r * ?r) < int N" by (rule iffD2[OF of_nat_less_iff])
    then show ?thesis using False unfolding n ceil_sqrt_int by simp
  qed
qed

lemma ceil_sqrt_unique:
  fixes k n :: int
  assumes "1 \<le> k" "n \<le> k * k" "(k - 1) * (k - 1) < n"
  shows "ceil_sqrt n = k"
proof -
  have n: "1 \<le> n" using assms(3) zero_le_square[of "k - 1"] by linarith
  note c = ceil_sqrt_le[of n] ceil_sqrt_pos[OF n] ceil_sqrt_pred[OF n]
  show ?thesis
  proof (rule antisym)
    show "ceil_sqrt n \<le> k"
    proof (rule ccontr)
      assume "\<not> ceil_sqrt n \<le> k"
      then have "k * k \<le> (ceil_sqrt n - 1) * (ceil_sqrt n - 1)"
        using assms(1) by (intro mult_mono) simp_all
      then show False using c(3) assms(2) by linarith
    qed
    show "k \<le> ceil_sqrt n"
    proof (rule ccontr)
      assume "\<not> k \<le> ceil_sqrt n"
      then have "ceil_sqrt n * ceil_sqrt n \<le> (k - 1) * (k - 1)"
        using c(2) by (intro mult_mono) simp_all
      then show False using c(1) assms(3) by linarith
    qed
  qed
qed

lemma square_le_imp_le: "(a::nat) * a \<le> b * b \<Longrightarrow> a \<le> b"
proof (rule ccontr)
  assume a: "a * a \<le> b * b" and "\<not> a \<le> b"
  then have "b * b < a * a" by (intro mult_strict_mono) simp_all
  with a show False by simp
qed

lemma pow4: "(4::nat) ^ t = 2 ^ t * 2 ^ t"
  by (induction t) simp_all

text \<open>Rounding the root to \<open>t\<close> fractional bits does not move it across an integer.\<close>

lemma rounded_root_ceil:
  fixes N k t :: nat
  assumes k: "N \<le> k * k" "(k - 1) * (k - 1) < N" and t: "k \<le> 2 ^ t"
  shows "((isqrt (N * 4 ^ (t + 1)) + 1) div 2 + (2 ^ t - 1)) div 2 ^ t = k"
proof -
  let ?Q = "2 ^ t :: nat" and ?r = "isqrt (N * 4 ^ (t + 1))"
  have P: "(4::nat) ^ (t + 1) = (2 * ?Q) * (2 * ?Q)"
    using pow4[of t] by simp
  have Q: "1 \<le> ?Q" by simp
  have k1: "1 \<le> k" using k by (cases k) auto
  have "?r * ?r \<le> N * ((2 * ?Q) * (2 * ?Q))" using isqrt_bounds[of "N * 4 ^ (t + 1)"] P by metis
  also have "\<dots> \<le> (k * k) * ((2 * ?Q) * (2 * ?Q))" using k(1) by (rule mult_le_mono1)
  finally have "?r * ?r \<le> (k * (2 * ?Q)) * (k * (2 * ?Q))" by (simp only: ac_simps)
  then have up: "?r \<le> 2 * (k * ?Q)"
    by (drule_tac square_le_imp_le) (simp only: ac_simps)
  define j where "j = k - 1"
  have j: "j * j + 1 \<le> N" "j + 1 \<le> ?Q" using k(2) t k1 by (simp_all add: j_def)
  have "(j * (2 * ?Q) + 1) * (j * (2 * ?Q) + 1) = (j * j) * ((2 * ?Q) * (2 * ?Q)) + (4 * j * ?Q + 1)"
    by (simp add: algebra_simps)
  also have "4 * j * ?Q + 1 \<le> (2 * ?Q) * (2 * ?Q)"
  proof -
    have "4 * j * ?Q + 4 * ?Q \<le> (2 * ?Q) * (2 * ?Q)"
      using mult_le_mono1[OF j(2), of "4 * ?Q"] by (simp add: algebra_simps)
    then show ?thesis using Q by linarith
  qed
  finally have "(j * (2 * ?Q) + 1) * (j * (2 * ?Q) + 1) \<le> (j * j + 1) * ((2 * ?Q) * (2 * ?Q))"
    by (simp add: algebra_simps)
  also have "\<dots> \<le> N * ((2 * ?Q) * (2 * ?Q))" using j(1) by (rule mult_le_mono1)
  finally have lo: "j * (2 * ?Q) + 1 \<le> ?r" using P isqrt_le_iff by metis
  have M: "j * ?Q + 1 \<le> (?r + 1) div 2" "(?r + 1) div 2 \<le> k * ?Q" using lo up by linarith+
  have kQ: "k * ?Q = j * ?Q + ?Q" using k1 by (simp add: j_def algebra_simps mult_eq_if)
  show ?thesis
  proof (rule div_nat_eqI)
    show "?Q * k \<le> (?r + 1) div 2 + (?Q - 1)" using M(1) kQ Q by (simp add: mult.commute)
    have "(?r + 1) div 2 + (?Q - 1) < k * ?Q + ?Q" using M(2) Q by linarith
    then show "(?r + 1) div 2 + (?Q - 1) < ?Q * Suc k" 
      unfolding mult_Suc_right mult.commute[of "?Q" k] by linarith
  qed
qed

lemma go_sqrt_ceil_exact [go_arith]:
  assumes "1 \<le> n" "n \<le> 2 ^ 52"
  shows "go_sqrt_ceil n = ceil_sqrt n"
proof -
  obtain N where n: "n = int N" using assms nonneg_int_cases[of n] by auto
  define k where "k = nat (ceil_sqrt n)"
  have k: "int k = ceil_sqrt n" using ceil_sqrt_pos[OF assms(1)] by (simp add: k_def)
  have k1: "1 \<le> k" using k ceil_sqrt_pos[OF assms(1)] by linarith
  have kk: "N \<le> k * k" 
  proof -
    have "n \<le> int k * int k" using ceil_sqrt_le[of n] k by simp
    then show ?thesis unfolding n by (simp only: of_nat_le_iff flip: of_nat_mult)
  qed
  have "int (k - 1) * int (k - 1) < int N"
  proof -
    have "(int k - 1) * (int k - 1) < n" using ceil_sqrt_pred[OF assms(1)] k by simp
    then show ?thesis unfolding n using k1 by (simp only: of_nat_diff of_nat_1)
  qed
  then have kp: "(k - 1) * (k - 1) < N" by (simp only: of_nat_less_iff flip: of_nat_mult)
  have N: "N \<le> 2 ^ 26 * 2 ^ 26" using assms(2) n by simp
  have r: "isqrt N \<le> 2 ^ 26"
  proof (rule ccontr)
    assume "\<not> isqrt N \<le> 2 ^ 26"
    then have "(2 ^ 26 + 1) * (2 ^ 26 + 1) \<le> N" using isqrt_le_iff[of "2 ^ 26 + 1" N] by linarith
    then show False using N by simp
  qed
  have "bitlen (int (isqrt N)) \<le> 27" using r bitlen_le_iff_power[of "int (isqrt N)" 27] by simp
  then have t: "26 \<le> nat (53 - bitlen (int (isqrt N)))" by linarith
  have "k \<le> 2 ^ 26"
  proof (rule ccontr)
    assume "\<not> k \<le> 2 ^ 26"
    then have "2 ^ 26 * 2 ^ 26 \<le> (k - 1) * (k - 1)" by (intro mult_le_mono) simp_all
    then show False using kp N by linarith
  qed
  also have "(2::nat) ^ 26 \<le> 2 ^ nat (53 - bitlen (int (isqrt N)))" using t by (intro power_increasing) simp_all
  finally have kt: "k \<le> 2 ^ nat (53 - bitlen (int (isqrt N)))" .
  have f: "nat (f64_of_int n) = N" using assms n by simp
  show ?thesis
    unfolding go_sqrt_ceil_def Let_def f rounded_root_ceil[OF kk kp kt] k ..
qed

end
