(* ===== verification/Layout.thy ===== *)
theory Layout
  imports GoInt
begin

text \<open>
  The shard layout of \<open>internal/shard/layout.go\<close>: the square area is cut into cells, the cells
  are grouped into a grid of shards, and a coordinate is mapped to its shard and a shard to the
  shards around it.
\<close>

section \<open>The layout and its constructor\<close>

record layout =
  l_area_size :: int
  l_cell_size :: int
  l_shard_count :: int
  l_shard_cols :: int
  l_shard_rows :: int
  l_cells_per_axis :: int
  l_cells_per_shard_x :: int
  l_cells_per_shard_y :: int

definition clamp_int :: "int \<Rightarrow> int \<Rightarrow> int \<Rightarrow> int" where
  "clamp_int value min_value max_value =
     (if max_value < min_value then min_value
      else if value < min_value then min_value
      else if value > max_value then max_value
      else value)"

definition new_layout :: "int \<Rightarrow> int \<Rightarrow> int \<Rightarrow> layout" where
  "new_layout area_size cell_size shard_count =
     (let area = (if area_size \<le> 0 then 1 else area_size);
          cell = (if cell_size \<le> 0 then 1 else cell_size);
          count = (if shard_count \<le> 0 then 1 else shard_count);
          cols0 = go_sqrt_ceil count;
          cols = (if cols0 < 1 then 1 else cols0);
          rows = quot64 (wrap64 (count + cols - 1)) cols;
          axis = quot64 (wrap64 (area + cell - 1)) cell;
          per_x0 = quot64 (wrap64 (axis + cols - 1)) cols;
          per_y0 = quot64 (wrap64 (axis + rows - 1)) rows;
          per_x = (if per_x0 < 1 then 1 else per_x0);
          per_y = (if per_y0 < 1 then 1 else per_y0)
      in \<lparr>l_area_size = area, l_cell_size = cell, l_shard_count = count,
          l_shard_cols = cols, l_shard_rows = rows, l_cells_per_axis = axis,
          l_cells_per_shard_x = per_x, l_cells_per_shard_y = per_y\<rparr>)"

definition shard_id :: "layout \<Rightarrow> int \<Rightarrow> int \<Rightarrow> int" where
  "shard_id l x y =
     (let cell_x = clamp_int (quot64 x (l_cell_size l)) 0 (wrap64 (l_cells_per_axis l - 1));
          cell_y = clamp_int (quot64 y (l_cell_size l)) 0 (wrap64 (l_cells_per_axis l - 1));
          shard_x = clamp_int (quot64 cell_x (l_cells_per_shard_x l)) 0 (wrap64 (l_shard_cols l - 1));
          shard_y = clamp_int (quot64 cell_y (l_cells_per_shard_y l)) 0 (wrap64 (l_shard_rows l - 1));
          sid = wrap64 (wrap64 (shard_y * l_shard_cols l) + shard_x)
      in if sid \<ge> l_shard_count l then wrap64 (l_shard_count l - 1) else sid)"

text \<open>
  \<open>NeighborShardIDs\<close>: the two nested loops over the offsets, the skipped offsets and the
  skipped identifiers. A nil slice and an empty one are both \<open>[]\<close>.
\<close>

definition neighbor_at :: "layout \<Rightarrow> int \<Rightarrow> int \<Rightarrow> int list" where
  "neighbor_at l neighbor_x neighbor_y =
     (if neighbor_x < 0 \<or> neighbor_x \<ge> l_shard_cols l \<or> neighbor_y < 0 \<or> neighbor_y \<ge> l_shard_rows l
      then []
      else let sid = wrap64 (wrap64 (neighbor_y * l_shard_cols l) + neighbor_x)
           in if sid < l_shard_count l then [sid] else [])"

definition neighbor_shard_ids :: "layout \<Rightarrow> int \<Rightarrow> int list" where
  "neighbor_shard_ids l sid =
     (if sid < 0 \<or> sid \<ge> l_shard_count l then []
      else let shard_x = sid smod l_shard_cols l;
               shard_y = quot64 sid (l_shard_cols l)
           in concat (map (\<lambda>dy. concat (map (\<lambda>dx. neighbor_at l (wrap64 (shard_x + dx)) (wrap64 (shard_y + dy)))
                                          [-1, 0, 1]))
                        [-1, 0, 1]))"

section \<open>Well-formed layouts\<close>

text \<open>
  What the constructor establishes: all extents are positive, the shard grid holds all shards
  and its last row is not empty, and nothing is near the limits of 64 bits.
\<close>

definition layout_ok :: "layout \<Rightarrow> bool" where
  "layout_ok l \<longleftrightarrow>
     0 < l_cell_size l \<and> 0 < l_shard_count l \<and> 0 < l_shard_cols l \<and> 0 < l_shard_rows l \<and>
     0 < l_cells_per_axis l \<and> 0 < l_cells_per_shard_x l \<and> 0 < l_cells_per_shard_y l \<and>
     l_shard_count l \<le> l_shard_rows l * l_shard_cols l \<and>
     (l_shard_rows l - 1) * l_shard_cols l < l_shard_count l \<and>
     l_shard_cols l \<le> l_shard_count l \<and>
     l_shard_count l \<le> 2 ^ 52 \<and>
     l_cells_per_axis l < 2 ^ 63"

lemma ceil_sqrt_le_self: "1 \<le> n \<Longrightarrow> ceil_sqrt n \<le> n"
proof -
  assume n: "1 \<le> n"
  have "\<not> n < ceil_sqrt n"
  proof
    assume "n < ceil_sqrt n"
    then have "n * n \<le> (ceil_sqrt n - 1) * (ceil_sqrt n - 1)" using n by (intro mult_mono) simp_all
    moreover have "n * 1 \<le> n * n" using n by (intro mult_left_mono) simp_all
    ultimately show False using ceil_sqrt_pred[OF n] by simp
  qed
  then show ?thesis by simp
qed

lemma ceil_div_bounds:
  fixes a b :: int
  assumes "1 \<le> a" "1 \<le> b"
  shows "a \<le> ((a + b - 1) div b) * b" "((a + b - 1) div b - 1) * b < a"
    "1 \<le> (a + b - 1) div b" "(a + b - 1) div b \<le> a"
proof -
  let ?q = "(a + b - 1) div b"
  have m: "?q * b + (a + b - 1) mod b = a + b - 1" by simp
  have r: "0 \<le> (a + b - 1) mod b" "(a + b - 1) mod b < b" using assms by simp_all
  show "a \<le> ?q * b" using m r by linarith
  show "(?q - 1) * b < a" using m r unfolding left_diff_distrib by linarith
  have "0 < ?q" using assms by (simp add: pos_imp_zdiv_pos_iff)
  then show "1 \<le> ?q" by simp
  show "?q \<le> a"
  proof (rule ccontr)
    assume "\<not> ?q \<le> a"
    then have "a * 1 \<le> (?q - 1) * b" using assms by (intro mult_mono) simp_all
    with \<open>(?q - 1) * b < a\<close> show False by simp
  qed
qed

lemma quot64_ceil:
  assumes "1 \<le> a" "1 \<le> b" "a \<le> 2 ^ 62" "b \<le> 2 ^ 62"
  shows "quot64 (wrap64 (a + b - 1)) b = (a + b - 1) div b"
proof -
  have "in64 (a + b - 1)" using assms by (simp add: in64_def)
  then show ?thesis using assms by (simp add: quot64_nonneg)
qed

lemma new_layout_ok:
  assumes "area \<le> 2 ^ 62" "cell \<le> 2 ^ 62" "shards \<le> 2 ^ 52"
  shows "layout_ok (new_layout area cell shards)"
proof -
  define a where "a = (if area \<le> 0 then 1 else area)"
  define c where "c = (if cell \<le> 0 then 1 else cell)"
  define n where "n = (if shards \<le> 0 then 1 else shards)"
  define k where "k = ceil_sqrt n"
  define r where "r = (n + k - 1) div k"
  define x where "x = (a + c - 1) div c"
  have b: "1 \<le> a" "a \<le> 2 ^ 62" "1 \<le> c" "c \<le> 2 ^ 62" "1 \<le> n" "n \<le> 2 ^ 52"
    using assms by (simp_all add: a_def c_def n_def)
  have gk: "go_sqrt_ceil n = k" using b by (simp add: k_def go_sqrt_ceil_exact)
  have k: "1 \<le> k" "k \<le> n" using b ceil_sqrt_pos ceil_sqrt_le_self by (simp_all add: k_def)
  have k62: "k \<le> 2 ^ 62" using k b by simp
  have r: "n \<le> r * k" "(r - 1) * k < n" "1 \<le> r" "r \<le> n"
    using ceil_div_bounds[of n k] b k by (simp_all add: r_def)
  have x: "1 \<le> x" "x \<le> a" using ceil_div_bounds(3,4)[of a c] b by (simp_all add: x_def)
  have qr: "quot64 (wrap64 (n + k - 1)) k = r" using quot64_ceil[of n k] b k k62 by (simp add: r_def)
  have qx: "quot64 (wrap64 (a + c - 1)) c = x" using quot64_ceil[of a c] b by (simp add: x_def)
  have L: "new_layout area cell shards =
      \<lparr>l_area_size = a, l_cell_size = c, l_shard_count = n, l_shard_cols = k, l_shard_rows = r,
       l_cells_per_axis = x,
       l_cells_per_shard_x = (let p = quot64 (wrap64 (x + k - 1)) k in if p < 1 then 1 else p),
       l_cells_per_shard_y = (let p = quot64 (wrap64 (x + r - 1)) r in if p < 1 then 1 else p)\<rparr>"
    using k unfolding new_layout_def Let_def a_def[symmetric] c_def[symmetric] n_def[symmetric] gk
    by (simp add: qr qx)
  show ?thesis unfolding L layout_ok_def using b k r x by (simp add: Let_def)
qed

section \<open>Coordinates to shards\<close>

lemma clamp_int_bounds: "lo \<le> hi \<Longrightarrow> lo \<le> clamp_int v lo hi \<and> clamp_int v lo hi \<le> hi"
  by (simp add: clamp_int_def)

lemma clamp_int_id: "lo \<le> v \<Longrightarrow> v \<le> hi \<Longrightarrow> clamp_int v lo hi = v"
  by (simp add: clamp_int_def)

lemma clamp_int_step: "v \<le> w + d \<Longrightarrow> 0 \<le> d \<Longrightarrow> clamp_int v lo hi \<le> clamp_int w lo hi + d"
  by (simp add: clamp_int_def)

text \<open>The shard column and row a coordinate falls into, before they are combined.\<close>

definition shard_coord :: "int \<Rightarrow> int \<Rightarrow> int \<Rightarrow> int \<Rightarrow> int \<Rightarrow> int" where
  "shard_coord cell axis per n v =
     clamp_int (clamp_int (quot64 v cell) 0 (axis - 1) div per) 0 (n - 1)"

lemma shard_coord_bounds: "1 \<le> n \<Longrightarrow> 0 \<le> shard_coord cell axis per n v \<and> shard_coord cell axis per n v < n"
  using clamp_int_bounds[of 0 "n - 1"] by (simp add: shard_coord_def zle_diff1_eq[symmetric] del: zle_diff1_eq)

lemma grid_index_bounds:
  fixes i j n m :: int
  assumes "0 \<le> i" "i < n" "0 \<le> j" "j < m"
  shows "0 \<le> j * n + i" "j * n + i < m * n"
proof -
  show "0 \<le> j * n + i" using assms by simp
  have "(j + 1) * n \<le> m * n" using assms by (intro mult_right_mono) simp_all
  then show "j * n + i < m * n" using assms by (simp add: distrib_right)
qed

lemma grid_index_divmod:
  fixes i j n :: int
  assumes "0 \<le> i" "i < n"
  shows "(j * n + i) div n = j" "(j * n + i) mod n = i"
proof -
  have "i div n = 0" "i mod n = i" using assms by (simp_all add: div_pos_pos_trivial)
  then show "(j * n + i) div n = j" "(j * n + i) mod n = i"
    using assms by (simp_all add: div_mult_self3)
qed

lemma layout_ok_grid_small:
  assumes "layout_ok l"
  shows "l_shard_rows l * l_shard_cols l \<le> 2 ^ 53"
proof -
  have "(l_shard_rows l - 1) * l_shard_cols l < l_shard_count l" "l_shard_cols l \<le> l_shard_count l"
    "l_shard_count l \<le> 2 ^ 52" using assms by (simp_all add: layout_ok_def)
  then show ?thesis by (simp add: left_diff_distrib)
qed

lemma layout_ok_small:
  assumes "layout_ok l"
  shows "in64 (l_shard_cols l - 1)" "in64 (l_shard_rows l - 1)" "in64 (l_cells_per_axis l - 1)"
    "in64 (l_shard_count l - 1)"
proof -
  have rc: "l_shard_rows l * l_shard_cols l \<le> 2 ^ 53" by (rule layout_ok_grid_small[OF assms])
  have pos: "0 < l_shard_rows l" "0 < l_shard_cols l" using assms by (simp_all add: layout_ok_def)
  have "l_shard_rows l * 1 \<le> l_shard_rows l * l_shard_cols l" using pos by (intro mult_left_mono) simp_all
  moreover have "1 * l_shard_cols l \<le> l_shard_rows l * l_shard_cols l" using pos by (intro mult_right_mono) simp_all
  ultimately have "l_shard_cols l \<le> 2 ^ 53" "l_shard_rows l \<le> 2 ^ 53" using rc by linarith+
  then show "in64 (l_shard_cols l - 1)" "in64 (l_shard_rows l - 1)"
    using pos by (simp_all add: in64_def)
  show "in64 (l_cells_per_axis l - 1)" "in64 (l_shard_count l - 1)"
    using assms by (simp_all add: layout_ok_def in64_def)
qed

lemma shard_id_eq:
  assumes "layout_ok l"
  shows "shard_id l x y =
    (let sx = shard_coord (l_cell_size l) (l_cells_per_axis l) (l_cells_per_shard_x l) (l_shard_cols l) x;
         sy = shard_coord (l_cell_size l) (l_cells_per_axis l) (l_cells_per_shard_y l) (l_shard_rows l) y
     in min (sy * l_shard_cols l + sx) (l_shard_count l - 1))"
proof -
  note sm = layout_ok_small[OF assms]
  define cx where "cx = clamp_int (quot64 x (l_cell_size l)) 0 (l_cells_per_axis l - 1)"
  define cy where "cy = clamp_int (quot64 y (l_cell_size l)) 0 (l_cells_per_axis l - 1)"
  have c: "0 \<le> cx" "cx < 2 ^ 63" "0 \<le> cy" "cy < 2 ^ 63"
    using clamp_int_bounds[of 0 "l_cells_per_axis l - 1"] assms
    unfolding cx_def cy_def layout_ok_def by (smt (verit))+
  have q: "quot64 cx (l_cells_per_shard_x l) = cx div l_cells_per_shard_x l"
    "quot64 cy (l_cells_per_shard_y l) = cy div l_cells_per_shard_y l"
    using c assms by (simp_all add: quot64_nonneg layout_ok_def)
  define sx where "sx = shard_coord (l_cell_size l) (l_cells_per_axis l) (l_cells_per_shard_x l) (l_shard_cols l) x"
  define sy where "sy = shard_coord (l_cell_size l) (l_cells_per_axis l) (l_cells_per_shard_y l) (l_shard_rows l) y"
  have s: "0 \<le> sx" "sx < l_shard_cols l" "0 \<le> sy" "sy < l_shard_rows l"
    using shard_coord_bounds assms unfolding sx_def sy_def layout_ok_def by simp_all
  have g: "0 \<le> sy * l_shard_cols l + sx" "sy * l_shard_cols l + sx < l_shard_rows l * l_shard_cols l"
    by (rule grid_index_bounds[OF s])+
  have m: "0 \<le> sy * l_shard_cols l" "sy * l_shard_cols l \<le> sy * l_shard_cols l + sx" using s by simp_all
  have i: "in64 (sy * l_shard_cols l)" "in64 (sy * l_shard_cols l + sx)"
    using g m layout_ok_grid_small[OF assms] unfolding in64_def by simp_all
  show ?thesis
    unfolding shard_id_def Let_def wrap64_id[OF sm(1)] wrap64_id[OF sm(2)] wrap64_id[OF sm(3)] wrap64_id[OF sm(4)]
      cx_def[symmetric] cy_def[symmetric] q
    using i unfolding sx_def sy_def shard_coord_def cx_def cy_def by (simp add: min_def)
qed

lemma shard_id_range:
  assumes "layout_ok l"
  shows "0 \<le> shard_id l x y" "shard_id l x y < l_shard_count l"
proof -
  let ?sx = "shard_coord (l_cell_size l) (l_cells_per_axis l) (l_cells_per_shard_x l) (l_shard_cols l) x"
  let ?sy = "shard_coord (l_cell_size l) (l_cells_per_axis l) (l_cells_per_shard_y l) (l_shard_rows l) y"
  have "0 \<le> ?sx" "0 \<le> ?sy" "0 < l_shard_cols l" "0 < l_shard_count l"
    using shard_coord_bounds assms by (simp_all add: layout_ok_def)
  then show "0 \<le> shard_id l x y" "shard_id l x y < l_shard_count l"
    unfolding shard_id_eq[OF assms] Let_def by simp_all
qed

section \<open>Neighbouring shards\<close>

text \<open>
  A shard identifier is its row and column in the shard grid; two shards are neighbours when
  rows and columns differ by at most one.
\<close>

definition adjacent_shards :: "layout \<Rightarrow> int \<Rightarrow> int \<Rightarrow> bool" where
  "adjacent_shards l a b \<longleftrightarrow>
     \<bar>a mod l_shard_cols l - b mod l_shard_cols l\<bar> \<le> 1 \<and> \<bar>a div l_shard_cols l - b div l_shard_cols l\<bar> \<le> 1"

lemma shard_grid_pos:
  assumes "layout_ok l" "0 \<le> a" "a < l_shard_count l"
  shows "0 \<le> a mod l_shard_cols l" "a mod l_shard_cols l < l_shard_cols l"
    "0 \<le> a div l_shard_cols l" "a div l_shard_cols l < l_shard_rows l"
proof -
  have c: "0 < l_shard_cols l" using assms by (simp add: layout_ok_def)
  then show "0 \<le> a mod l_shard_cols l" "a mod l_shard_cols l < l_shard_cols l" by simp_all
  show "0 \<le> a div l_shard_cols l" using assms c by (simp add: div_nonneg_int)
  have "a < l_shard_rows l * l_shard_cols l" using assms by (simp add: layout_ok_def)
  moreover have "(a div l_shard_cols l) * l_shard_cols l \<le> a"
    using c by (simp add: pos_mod_sign minus_mod_eq_div_mult[symmetric])
  ultimately have "(a div l_shard_cols l) * l_shard_cols l < l_shard_rows l * l_shard_cols l" by linarith
  then show "a div l_shard_cols l < l_shard_rows l" using c by simp
qed

lemma smod_nonneg_eq: "0 \<le> a \<Longrightarrow> 0 < b \<Longrightarrow> a smod b = a mod (b::int)"
  by (cases "a = 0") (simp_all add: signed_modulo_int_def)

lemma neighbor_at_eq:
  assumes "layout_ok l"
  shows "neighbor_at l nx ny =
    (if 0 \<le> nx \<and> nx < l_shard_cols l \<and> 0 \<le> ny \<and> ny < l_shard_rows l \<and> ny * l_shard_cols l + nx < l_shard_count l
     then [ny * l_shard_cols l + nx] else [])"
proof (cases "0 \<le> nx \<and> nx < l_shard_cols l \<and> 0 \<le> ny \<and> ny < l_shard_rows l")
  case True
  then have s: "0 \<le> nx" "nx < l_shard_cols l" "0 \<le> ny" "ny < l_shard_rows l" by simp_all
  have g: "0 \<le> ny * l_shard_cols l + nx" "ny * l_shard_cols l + nx < l_shard_rows l * l_shard_cols l"
    by (rule grid_index_bounds[OF s])+
  have m: "0 \<le> ny * l_shard_cols l" "ny * l_shard_cols l \<le> ny * l_shard_cols l + nx" using s by simp_all
  have i: "in64 (ny * l_shard_cols l)" "in64 (ny * l_shard_cols l + nx)"
    using g m layout_ok_grid_small[OF assms] unfolding in64_def by simp_all
  then show ?thesis using True by (simp add: neighbor_at_def Let_def)
next
  case False
  then show ?thesis by (auto simp: neighbor_at_def)
qed

lemma neighbor_ids_eq:
  assumes ok: "layout_ok l" and r: "0 \<le> a" "a < l_shard_count l"
  shows "neighbor_shard_ids l a =
    concat (map (\<lambda>dy. concat (map (\<lambda>dx. neighbor_at l (a mod l_shard_cols l + dx) (a div l_shard_cols l + dy))
                              [-1, 0, 1])) [-1, 0, 1])"
proof -
  note p = shard_grid_pos[OF ok r]
  have c: "0 < l_shard_cols l" "l_shard_cols l \<le> 2 ^ 52" "a < 2 ^ 52" using ok r by (simp_all add: layout_ok_def)
  have q: "quot64 a (l_shard_cols l) = a div l_shard_cols l" using c r by (simp add: quot64_nonneg)
  have d: "a div l_shard_cols l \<le> a" using c r by (simp add: div_le_self_int)
  have "in64 (m + d)" if "d \<in> {-1, 0, 1}" "0 \<le> m" "m \<le> 2 ^ 52" for d m
    using that by (auto simp: in64_def)
  then have i: "in64 (a mod l_shard_cols l + d)" "in64 (a div l_shard_cols l + d)" if "d \<in> {-1, 0, 1}" for d
    using that p c d by (meson less_le_trans order_less_imp_le order_trans)+
  show ?thesis
    using r i[of "-1"] i[of 0] i[of 1] unfolding neighbor_shard_ids_def Let_def q smod_nonneg_eq[OF r(1) c(1)]
    by simp
qed

lemma in_neighbor_at:
  assumes ok: "layout_ok l"
  shows "b \<in> set (neighbor_at l nx ny) \<longleftrightarrow>
    0 \<le> b \<and> b < l_shard_count l \<and> b mod l_shard_cols l = nx \<and> b div l_shard_cols l = ny"
proof
  have c: "0 < l_shard_cols l" using ok by (simp add: layout_ok_def)
  show "0 \<le> b \<and> b < l_shard_count l \<and> b mod l_shard_cols l = nx \<and> b div l_shard_cols l = ny"
    if "b \<in> set (neighbor_at l nx ny)"
    using that c by (auto simp: neighbor_at_eq[OF ok] split: if_splits)
  show "b \<in> set (neighbor_at l nx ny)"
    if "0 \<le> b \<and> b < l_shard_count l \<and> b mod l_shard_cols l = nx \<and> b div l_shard_cols l = ny"
    using that shard_grid_pos[OF ok, of b] by (auto simp: neighbor_at_eq[OF ok])
qed

lemma set_neighbor_ids:
  assumes ok: "layout_ok l" and r: "0 \<le> a" "a < l_shard_count l"
  shows "set (neighbor_shard_ids l a) = {b. 0 \<le> b \<and> b < l_shard_count l \<and> adjacent_shards l a b}"
proof -
  have adj: "adjacent_shards l a b \<longleftrightarrow>
    (\<exists>dx\<in>{-1, 0, 1}. \<exists>dy\<in>{-1, 0, 1}. b mod l_shard_cols l = a mod l_shard_cols l + dx \<and>
      b div l_shard_cols l = a div l_shard_cols l + dy)" for b
    unfolding adjacent_shards_def by (simp; arith)
  show ?thesis unfolding neighbor_ids_eq[OF assms] adj by (auto simp: in_neighbor_at[OF ok])
qed

lemma neighbor_ids_out_of_range:
  "sid < 0 \<or> l_shard_count l \<le> sid \<Longrightarrow> neighbor_shard_ids l sid = []"
  by (auto simp: neighbor_shard_ids_def)

lemma adjacent_shards_refl [simp]: "adjacent_shards l a a"
  by (simp add: adjacent_shards_def)

lemma adjacent_shards_sym: "adjacent_shards l a b \<longleftrightarrow> adjacent_shards l b a"
  by (simp add: adjacent_shards_def abs_minus_commute)

lemma neighbor_at_disjoint:
  assumes ok: "layout_ok l" and ne: "nx \<noteq> nx' \<or> ny \<noteq> ny'"
  shows "set (neighbor_at l nx ny) \<inter> set (neighbor_at l nx' ny') = {}"
  using ne by (auto simp: in_neighbor_at[OF ok])

lemma neighbor_at_short: "distinct (neighbor_at l nx ny)" "length (neighbor_at l nx ny) \<le> 1"
  by (simp_all add: neighbor_at_def Let_def)

lemma neighbor_ids_distinct:
  assumes ok: "layout_ok l"
  shows "distinct (neighbor_shard_ids l a)" "length (neighbor_shard_ids l a) \<le> 9"
proof -
  have "distinct (neighbor_shard_ids l a) \<and> length (neighbor_shard_ids l a) \<le> 9"
  proof (cases "0 \<le> a \<and> a < l_shard_count l")
    case True
    let ?N = "\<lambda>dx dy. neighbor_at l (a mod l_shard_cols l + dx) (a div l_shard_cols l + dy)"
    have L: "neighbor_shard_ids l a = ?N (-1) (-1) @ ?N 0 (-1) @ ?N 1 (-1) @ ?N (-1) 0 @ ?N 0 0 @ ?N 1 0 @
        ?N (-1) 1 @ ?N 0 1 @ ?N 1 1"
      using neighbor_ids_eq[OF ok] True by simp
    have "length (?N dx dy) \<le> 1" for dx dy by (rule neighbor_at_short)
    from this[of "-1" "-1"] this[of 0 "-1"] this[of 1 "-1"] this[of "-1" 0] this[of 0 0] this[of 1 0]
      this[of "-1" 1] this[of 0 1] this[of 1 1]
    have "length (neighbor_shard_ids l a) \<le> 9" unfolding L by simp
    moreover have "distinct (neighbor_shard_ids l a)"
      unfolding L distinct_append set_append Int_Un_distrib Un_empty
      by (intro conjI neighbor_at_short neighbor_at_disjoint[OF ok]) simp_all
    ultimately show ?thesis by simp
  next
    case False
    then show ?thesis using neighbor_ids_out_of_range[of a l] by auto
  qed
  then show "distinct (neighbor_shard_ids l a)" "length (neighbor_shard_ids l a) \<le> 9" by simp_all
qed

text \<open>
  Where the shard grid has no holes, a shard's neighbours cover its surroundings: two
  coordinates whose cells are at most one shard extent apart lie in neighbouring shards.
\<close>

lemma shard_coord_near:
  assumes "1 \<le> n" "1 \<le> per" "0 \<le> axis"
    and near: "\<bar>quot64 v cell - quot64 w cell\<bar> \<le> per"
  shows "\<bar>shard_coord cell axis per n v - shard_coord cell axis per n w\<bar> \<le> 1"
proof -
  have step: "shard_coord cell axis per n v' \<le> shard_coord cell axis per n w' + 1"
    if "quot64 v' cell \<le> quot64 w' cell + per" for v' w'
  proof -
    let ?cv = "clamp_int (quot64 v' cell) 0 (axis - 1)" and ?cw = "clamp_int (quot64 w' cell) 0 (axis - 1)"
    have "?cv \<le> ?cw + per" using that assms(2) by (intro clamp_int_step) simp_all
    then have "?cv div per \<le> (?cw + per) div per" using assms(2) by (intro zdiv_mono1) simp_all
    also have "(?cw + per) div per = ?cw div per + 1" using assms(2) by simp
    finally have "?cv div per \<le> ?cw div per + 1" .
    then show ?thesis unfolding shard_coord_def by (intro clamp_int_step) simp_all
  qed
  have "quot64 v cell \<le> quot64 w cell + per" "quot64 w cell \<le> quot64 v cell + per" using near by linarith+
  then show ?thesis using step[of v w] step[of w v] by linarith
qed

lemma shard_id_near:
  assumes ok: "layout_ok l" and full: "l_shard_rows l * l_shard_cols l = l_shard_count l"
    and x: "\<bar>quot64 x (l_cell_size l) - quot64 x' (l_cell_size l)\<bar> \<le> l_cells_per_shard_x l"
    and y: "\<bar>quot64 y (l_cell_size l) - quot64 y' (l_cell_size l)\<bar> \<le> l_cells_per_shard_y l"
  shows "adjacent_shards l (shard_id l x y) (shard_id l x' y')"
proof -
  let ?sx = "shard_coord (l_cell_size l) (l_cells_per_axis l) (l_cells_per_shard_x l) (l_shard_cols l)"
  let ?sy = "shard_coord (l_cell_size l) (l_cells_per_axis l) (l_cells_per_shard_y l) (l_shard_rows l)"
  have b: "0 \<le> ?sx v \<and> ?sx v < l_shard_cols l" "0 \<le> ?sy v \<and> ?sy v < l_shard_rows l" for v
    using shard_coord_bounds ok by (simp_all add: layout_ok_def)
  have id: "shard_id l v w = ?sy w * l_shard_cols l + ?sx v" for v w
    using grid_index_bounds(2)[of "?sx v" "l_shard_cols l" "?sy w" "l_shard_rows l"] b full
    unfolding shard_id_eq[OF ok] Let_def by simp
  have "\<bar>?sx x - ?sx x'\<bar> \<le> 1" "\<bar>?sy y - ?sy y'\<bar> \<le> 1"
    using ok x y by (auto intro!: shard_coord_near simp: layout_ok_def)
  moreover have "shard_id l v w mod l_shard_cols l = ?sx v" "shard_id l v w div l_shard_cols l = ?sy w" for v w
    unfolding id using b[of v] by (simp_all only: grid_index_divmod)
  ultimately show ?thesis unfolding adjacent_shards_def by simp
qed

section \<open>The default layout\<close>

text \<open>
  The producer's defaults (\<open>internal/producerapp/app.go\<close>): an area of 100000, cells of 10000 and
  64 shards give a grid of 8 by 8 shards of 2 by 2 cells over only 10 by 10 cells.
\<close>

lemma default_layout_eq:
  "new_layout 100000 10000 64 =
    \<lparr>l_area_size = 100000, l_cell_size = 10000, l_shard_count = 64, l_shard_cols = 8, l_shard_rows = 8,
     l_cells_per_axis = 10, l_cells_per_shard_x = 2, l_cells_per_shard_y = 2\<rparr>"
proof -
  have "ceil_sqrt 64 = 8" by (rule ceil_sqrt_unique) simp_all
  then have "go_sqrt_ceil 64 = 8" by (simp add: go_sqrt_ceil_exact)
  then show ?thesis by (simp add: new_layout_def Let_def quot64_nonneg in64_def)
qed

lemma shard_coord_default:
  assumes "0 \<le> v" "v < 100000"
  shows "shard_coord 10000 10 2 8 v = v div 20000"
proof -
  have q: "quot64 v 10000 = v div 10000" using assms by (simp add: quot64_nonneg)
  have "0 \<le> v div 10000" "v div 10000 \<le> 9" using assms by simp_all
  then show ?thesis
    unfolding shard_coord_def q using assms by (simp add: clamp_int_id zdiv_zmult2_eq[symmetric])
qed

lemma shard_id_default:
  assumes "0 \<le> x" "x < 100000" "0 \<le> y" "y < 100000"
  shows "shard_id (new_layout 100000 10000 64) x y = 8 * (y div 20000) + x div 20000"
proof -
  have ok: "layout_ok (new_layout 100000 10000 64)" by (rule new_layout_ok) simp_all
  have "x div 20000 \<le> 4" "y div 20000 \<le> 4" using assms by simp_all
  then show ?thesis
    unfolding shard_id_eq[OF ok] Let_def unfolding default_layout_eq
    using assms by (simp add: shard_coord_default min_def)
qed

section \<open>Properties\<close>

text \<open>
  Property C37. Every coordinate pair, also a negative or out-of-area one, is mapped by a
  constructed layout to one of its shards.
\<close>

theorem shard_id_in_range:
  assumes "area \<le> 2 ^ 62" "cell \<le> 2 ^ 62" "shards \<le> 2 ^ 52"
  shows "0 \<le> shard_id (new_layout area cell shards) x y \<and>
         shard_id (new_layout area cell shards) x y < max 1 shards"
proof -
  note ok = new_layout_ok[OF assms]
  have "l_shard_count (new_layout area cell shards) = max 1 shards"
    by (simp add: new_layout_def Let_def)
  then show ?thesis using shard_id_range[OF ok, of x y] by simp
qed

theorem shard_id_in_range_witness:
  "0 \<le> shard_id (new_layout 100000 10000 64) (-7) 250000 \<and>
   shard_id (new_layout 100000 10000 64) (-7) 250000 < max 1 64"
  by (rule shard_id_in_range) simp_all

text \<open>
  The neighbour list of a shard holds, each once, exactly the existing shards whose
  row and column in the shard grid differ by at most one from its own (so itself too); being
  neighbours is symmetric, and an identifier out of range has no neighbours.
\<close>

theorem neighbor_shard_ids_correct:
  assumes "area \<le> 2 ^ 62" "cell \<le> 2 ^ 62" "shards \<le> 2 ^ 52" "l = new_layout area cell shards"
  shows "distinct (neighbor_shard_ids l a) \<and>
    set (neighbor_shard_ids l a) =
      (if 0 \<le> a \<and> a < l_shard_count l
       then {b. 0 \<le> b \<and> b < l_shard_count l \<and>
                \<bar>a mod l_shard_cols l - b mod l_shard_cols l\<bar> \<le> 1 \<and>
                \<bar>a div l_shard_cols l - b div l_shard_cols l\<bar> \<le> 1}
       else {}) \<and>
    (b \<in> set (neighbor_shard_ids l a) \<longleftrightarrow> a \<in> set (neighbor_shard_ids l b))"
proof -
  have ok: "layout_ok l" using new_layout_ok[OF assms(1-3)] assms(4) by simp
  have S: "set (neighbor_shard_ids l c) =
      (if 0 \<le> c \<and> c < l_shard_count l then {b. 0 \<le> b \<and> b < l_shard_count l \<and> adjacent_shards l c b} else {})" for c
    using set_neighbor_ids[OF ok, of c] neighbor_ids_out_of_range[of c l] by auto
  show ?thesis
    using neighbor_ids_distinct(1)[OF ok] adjacent_shards_sym[of l a b] unfolding S adjacent_shards_def by auto
qed

theorem neighbor_shard_ids_correct_witness:
  "9 \<in> set (neighbor_shard_ids (new_layout 100000 10000 64) 0) \<and>
   distinct (neighbor_shard_ids (new_layout 100000 10000 64) 0)"
  using neighbor_shard_ids_correct[of 100000 10000 64 "new_layout 100000 10000 64" 0]
  by (simp add: default_layout_eq)

text \<open>
  When the shard grid has no holes, looking at the neighbours of the home shard is
  enough: a point whose cell is at most one shard extent away from the cell of another lies
  in a neighbouring shard of it.
\<close>

theorem nearby_points_in_neighbor_shards:
  assumes "area \<le> 2 ^ 62" "cell \<le> 2 ^ 62" "shards \<le> 2 ^ 52" "l = new_layout area cell shards"
    and "l_shard_rows l * l_shard_cols l = l_shard_count l"
    and "\<bar>quot64 x (l_cell_size l) - quot64 x' (l_cell_size l)\<bar> \<le> l_cells_per_shard_x l"
    and "\<bar>quot64 y (l_cell_size l) - quot64 y' (l_cell_size l)\<bar> \<le> l_cells_per_shard_y l"
  shows "shard_id l x' y' \<in> set (neighbor_shard_ids l (shard_id l x y))"
proof -
  have ok: "layout_ok l" using new_layout_ok[OF assms(1-3)] assms(4) by simp
  show ?thesis
    using shard_id_near[OF ok assms(5-7)] shard_id_range[OF ok] by (simp add: set_neighbor_ids[OF ok])
qed

theorem nearby_points_in_neighbor_shards_witness:
  "shard_id (new_layout 100000 10000 64) 20500 0 \<in>
     set (neighbor_shard_ids (new_layout 100000 10000 64) (shard_id (new_layout 100000 10000 64) 500 0))"
  by (rule nearby_points_in_neighbor_shards[of 100000 10000 64 "new_layout 100000 10000 64"])
     (simp_all add: default_layout_eq quot64_nonneg)

text \<open>
  Under the producer's default layout the coordinates of the area reach exactly the
  25 shards with row and column below 5; the other 39 of the 64 shards never get an order.
\<close>

theorem default_layout_reaches_25_shards:
  "{shard_id (new_layout 100000 10000 64) x y | x y. x \<in> {0..<100000} \<and> y \<in> {0..<100000}} =
   {8 * r + c | r c. r \<in> {0..4} \<and> c \<in> {0..4}}"
proof (intro set_eqI iffI)
  fix s
  assume "s \<in> {shard_id (new_layout 100000 10000 64) x y | x y. x \<in> {0..<100000} \<and> y \<in> {0..<100000}}"
  then obtain x y where b: "0 \<le> x" "x < 100000" "0 \<le> y" "y < 100000"
    and s: "s = shard_id (new_layout 100000 10000 64) x y" by auto
  have "s = 8 * (y div 20000) + x div 20000" unfolding s by (rule shard_id_default[OF b])
  moreover have "x div 20000 \<in> {0..4}" "y div 20000 \<in> {0..4}" using b by (simp_all, linarith+)
  ultimately show "s \<in> {8 * r + c | r c. r \<in> {0..4} \<and> c \<in> {0..4}}" by blast
next
  fix s :: int
  assume "s \<in> {8 * r + c | r c. r \<in> {0..4} \<and> c \<in> {0..4}}"
  then obtain r c where s: "s = 8 * r + c" "0 \<le> r" "r \<le> 4" "0 \<le> c" "c \<le> 4" by auto
  then have "shard_id (new_layout 100000 10000 64) (20000 * c) (20000 * r) = s"
    by (subst shard_id_default) simp_all
  moreover have "20000 * c \<in> {0..<100000}" "20000 * r \<in> {0..<100000}" using s by simp_all
  ultimately show "s \<in> {shard_id (new_layout 100000 10000 64) x y | x y. x \<in> {0..<100000} \<and> y \<in> {0..<100000}}"
    by blast
qed

end
