(* ===== verification/Model.thy ===== *)
theory Model
  imports GoInt
begin

text \<open>
  The core objects of \<open>internal/model\<close>: events and their types, the payloads they carry, orders,
  riders, topics and consumer names. Byte slices and strings are HOL strings (one character per
  byte). Also here: the decimal formatting and parsing of integers (\<open>strconv.Itoa\<close>,
  \<open>fmt.Sprintf("%d")\<close>, \<open>strconv.Atoi\<close>) that event identifiers and storage keys are built with.
\<close>

section \<open>Events\<close>

definition EventOrderCreated :: string where "EventOrderCreated = ''order_created''"
definition EventOrderCancelled :: string where "EventOrderCancelled = ''order_cancelled''"
definition EventOrderRetryRequest :: string where "EventOrderRetryRequest = ''order_retry_request''"
definition EventOrderMatched :: string where "EventOrderMatched = ''order_matched''"
definition EventOrderMissed :: string where "EventOrderMissed = ''order_missed''"
definition EventMatchRequested :: string where "EventMatchRequested = ''match_requested''"

lemmas event_type_defs = EventOrderCreated_def EventOrderCancelled_def EventOrderRetryRequest_def
  EventOrderMatched_def EventOrderMissed_def EventMatchRequested_def

lemma event_types_distinct [simp]:
  "distinct [EventOrderCreated, EventOrderCancelled, EventOrderRetryRequest, EventOrderMatched,
             EventOrderMissed, EventMatchRequested]"
  by (simp add: event_type_defs)

lemma event_types_neq [simp]:
  "EventOrderCreated \<noteq> EventOrderCancelled" "EventOrderCreated \<noteq> EventOrderRetryRequest"
  "EventOrderCreated \<noteq> EventOrderMatched" "EventOrderCreated \<noteq> EventOrderMissed"
  "EventOrderCancelled \<noteq> EventOrderCreated" "EventOrderCancelled \<noteq> EventOrderRetryRequest"
  "EventOrderCancelled \<noteq> EventOrderMatched" "EventOrderCancelled \<noteq> EventOrderMissed"
  "EventOrderRetryRequest \<noteq> EventOrderCreated" "EventOrderRetryRequest \<noteq> EventOrderCancelled"
  "EventOrderRetryRequest \<noteq> EventOrderMatched" "EventOrderRetryRequest \<noteq> EventOrderMissed"
  "EventOrderMatched \<noteq> EventOrderCreated" "EventOrderMatched \<noteq> EventOrderCancelled"
  "EventOrderMatched \<noteq> EventOrderRetryRequest" "EventOrderMatched \<noteq> EventOrderMissed"
  "EventOrderMissed \<noteq> EventOrderCreated" "EventOrderMissed \<noteq> EventOrderCancelled"
  "EventOrderMissed \<noteq> EventOrderRetryRequest" "EventOrderMissed \<noteq> EventOrderMatched"
  "EventMatchRequested \<noteq> EventOrderCreated" "EventMatchRequested \<noteq> EventOrderRetryRequest"
  by (simp_all add: event_type_defs)

record event =
  ev_id :: string
  ev_type :: string
  ev_aggregate_type :: string
  ev_aggregate_id :: string
  ev_shard_id :: int
  ev_occurred_at :: int
  ev_payload :: string

section \<open>Payloads\<close>

record order_created =
  oc_order_id :: int
  oc_x :: int
  oc_y :: int

record order_cancelled =
  ocl_order_id :: int
  ocl_reason :: string

record order_matched =
  om_order_id :: int
  om_rider_id :: int
  om_score :: int

record order_missed =
  oms_order_id :: int
  oms_reason :: string

record order_retry_request =
  orr_order_id :: int
  orr_attempt :: int
  orr_reason :: string

record match_requested =
  mr_order_id :: int
  mr_x :: int
  mr_y :: int
  mr_attempt :: int

section \<open>Orders, riders, rider events\<close>

record order =
  o_id :: int
  o_x :: int
  o_y :: int

record rider =
  r_uid :: int
  r_x :: int
  r_y :: int
  r_online :: bool
  r_cell_id :: int
  r_count :: int

text \<open>\<open>RiderEventType\<close> is an \<open>int\<close> with \<open>iota + 1\<close> constants; any other value is possible.\<close>

definition RiderOnline :: int where "RiderOnline = 1"
definition RiderOffline :: int where "RiderOffline = 2"
definition RiderMove :: int where "RiderMove = 3"

lemmas rider_event_type_defs = RiderOnline_def RiderOffline_def RiderMove_def

record rider_event =
  re_type :: int
  re_uid :: int
  re_x :: int
  re_y :: int

section \<open>Topics and consumers\<close>

definition TopicOrderEvents :: string where "TopicOrderEvents = ''order-events''"
definition TopicRiderEvents :: string where "TopicRiderEvents = ''rider-events''"
definition TopicMatchRequests :: string where "TopicMatchRequests = ''match-requests''"
definition ConsumerOrderWorker :: string where "ConsumerOrderWorker = ''order-worker''"
definition ConsumerMatcherWorker :: string where "ConsumerMatcherWorker = ''matcher-worker''"

lemma consumers_neq [simp]:
  "ConsumerOrderWorker \<noteq> ConsumerMatcherWorker" "ConsumerMatcherWorker \<noteq> ConsumerOrderWorker"
  by (simp_all add: ConsumerOrderWorker_def ConsumerMatcherWorker_def)

section \<open>Decimal integers\<close>

definition digit_char :: "nat \<Rightarrow> char" where
  "digit_char d = char_of (48 + d)"

fun nat_digits :: "nat \<Rightarrow> string" where
  "nat_digits n = (if n < 10 then [digit_char n] else nat_digits (n div 10) @ [digit_char (n mod 10)])"

declare nat_digits.simps [simp del]

definition itoa :: "int \<Rightarrow> string" where
  "itoa i = (if i < 0 then CHR ''-'' # nat_digits (nat (- i)) else nat_digits (nat i))"

definition is_digit :: "char \<Rightarrow> bool" where
  "is_digit c \<longleftrightarrow> 48 \<le> (of_char c :: nat) \<and> (of_char c :: nat) \<le> 57"

definition digit_val :: "char \<Rightarrow> nat" where
  "digit_val c = of_char c - 48"

text \<open>\<open>strconv.Atoi\<close>: an optional sign, at least one digit, nothing else, and the value must fit.\<close>

definition atoi :: "string \<Rightarrow> go_error + int" where
  "atoi s =
     (let neg = (s \<noteq> [] \<and> hd s = CHR ''-'');
          ds = (if s \<noteq> [] \<and> (hd s = CHR ''-'' \<or> hd s = CHR ''+'') then tl s else s)
      in if ds = [] \<or> \<not> list_all is_digit ds then Inl (ErrMsg ''strconv.Atoi: parsing %q: invalid syntax'' [FStr s])
         else let v = int (foldl (\<lambda>a c. a * 10 + digit_val c) 0 ds); r = (if neg then - v else v)
              in if in64 r then Inr r
                 else Inl (ErrMsg ''strconv.Atoi: parsing %q: value out of range'' [FStr s]))"

lemma of_char_digit_char: "d < 10 \<Longrightarrow> (of_char (digit_char d) :: nat) = 48 + d"
  by (simp add: digit_char_def)

lemma is_digit_digit_char: "d < 10 \<Longrightarrow> is_digit (digit_char d)"
  by (simp add: is_digit_def of_char_digit_char)

lemma nat_digits_ok:
  "nat_digits n \<noteq> [] \<and> list_all is_digit (nat_digits n) \<and>
   foldl (\<lambda>a c. a * 10 + digit_val c) 0 (nat_digits n) = n"
proof (induction n rule: nat_digits.induct)
  case (1 n)
  show ?case
  proof (cases "n < 10")
    case True
    then show ?thesis
      by (simp add: nat_digits.simps[of n] is_digit_digit_char digit_val_def of_char_digit_char)
  next
    case False
    with 1 show ?thesis
      by (simp add: nat_digits.simps[of n] is_digit_digit_char digit_val_def of_char_digit_char)
  qed
qed

lemma nat_digits_hd: "is_digit (hd (nat_digits n))"
  using nat_digits_ok[of n] by (cases "nat_digits n") auto

lemma sign_not_digit: "\<not> is_digit (CHR ''-'')" "\<not> is_digit (CHR ''+'')"
  by (simp_all add: is_digit_def)

lemma atoi_itoa: "in64 i \<Longrightarrow> atoi (itoa i) = Inr i"
proof -
  assume i: "in64 i"
  have h: "hd (nat_digits n) \<noteq> CHR ''-''" "hd (nat_digits n) \<noteq> CHR ''+''" for n
    using nat_digits_hd[of n] sign_not_digit by metis+
  show ?thesis
    using i h nat_digits_ok[of "nat i"] nat_digits_ok[of "nat (- i)"]
    by (auto simp: atoi_def itoa_def Let_def)
qed

lemma nat_digits_inj: "nat_digits m = nat_digits n \<Longrightarrow> m = n"
  using nat_digits_ok[of m, THEN conjunct2, THEN conjunct2] nat_digits_ok[of n, THEN conjunct2, THEN conjunct2]
  by (metis (no_types))

lemma itoa_inj: "itoa i = itoa j \<Longrightarrow> i = j"
proof -
  assume eq: "itoa i = itoa j"
  have h: "hd (nat_digits n) \<noteq> CHR ''-''" "nat_digits n \<noteq> []" for n
    using nat_digits_hd[of n] sign_not_digit nat_digits_ok[of n] by metis+
  have c: "CHR ''-'' # ds \<noteq> nat_digits n" for ds n
    using h[of n] by (metis list.sel(1))
  show ?thesis
    using eq c by (auto simp: itoa_def split: if_splits dest!: nat_digits_inj dest: c[THEN notE, OF sym])
qed

end
