(* ===== verification/Grid.thy ===== *)
theory Grid
  imports Model
begin

text \<open>
  The spatial index of one shard (\<open>internal/matcher/grid.go\<close>) and the matcher around it
  (\<open>internal/matcher/matcher.go\<close>). Riders are shared by pointer between the grid, its cells and
  the candidate index of \<open>internal/matching\<close>, so they live in an explicit heap: a pointer is an
  index into a list of riders, and every operation takes the heap and returns it updated.
  The order in which Go ranges over a map is a parameter \<open>it\<close>, a function that permutes the
  entries. The mutexes are not modelled: every operation holds its lock from start to end.
\<close>

section \<open>Heap and grid\<close>

type_synonym ptr = nat
type_synonym heap = "rider list"
type_synonym ranging = "(int \<times> ptr) list \<Rightarrow> (int \<times> ptr) list"

record grid =
  g_cell_size :: int
  g_riders :: "(int \<times> ptr) list"
  g_cells :: "int \<rightharpoonup> (int \<times> ptr) list"

record candidate_info =
  c_rider :: ptr
  c_uid :: int
  c_x :: int
  c_y :: int
  c_count :: int

definition range_ok :: "ranging \<Rightarrow> bool" where
  "range_ok it \<longleftrightarrow> (\<forall>m. mset (it m) = mset m)"

definition cell_id_by_cell :: "int \<Rightarrow> int \<Rightarrow> int" where
  "cell_id_by_cell cell_x cell_y = wrap64 (push_bit 32 cell_x) OR uwrap32 cell_y"

definition g_cell_id :: "grid \<Rightarrow> int \<Rightarrow> int \<Rightarrow> int" where
  "g_cell_id g x y = cell_id_by_cell (quot64 x (g_cell_size g)) (quot64 y (g_cell_size g))"

definition cell_map :: "grid \<Rightarrow> int \<Rightarrow> (int \<times> ptr) list" where
  "cell_map g c = (case g_cells g c of None \<Rightarrow> [] | Some m \<Rightarrow> m)"

text \<open>\<open>delete(g.cells[cellID], uid)\<close>: on an absent (nil) inner map it does nothing.\<close>

definition cell_delete :: "int \<Rightarrow> int \<Rightarrow> grid \<Rightarrow> grid" where
  "cell_delete cid uid g =
     (case g_cells g cid of
        None \<Rightarrow> g
      | Some m \<Rightarrow> g\<lparr>g_cells := (g_cells g)(cid \<mapsto> AList.delete uid m)\<rparr>)"

definition add_rider_to_cell :: "int \<Rightarrow> ptr \<Rightarrow> int \<Rightarrow> grid \<Rightarrow> grid" where
  "add_rider_to_cell uid p cid g =
     (let g' = (if g_cells g cid = None then g\<lparr>g_cells := (g_cells g)(cid \<mapsto> [])\<rparr> else g)
      in g'\<lparr>g_cells := (g_cells g')(cid \<mapsto> AList.update uid p (cell_map g' cid))\<rparr>)"

section \<open>Operations of the grid\<close>

definition add_rider :: "ptr \<Rightarrow> heap \<Rightarrow> grid \<Rightarrow> heap \<times> grid" where
  "add_rider p h g =
     (let rider = h ! p in
      case map_of (g_riders g) (r_uid rider) of
        Some q \<Rightarrow>
          (let current = h ! q;
               g1 = cell_delete (r_cell_id current) (r_uid current) g;
               cid = g_cell_id g (r_x rider) (r_y rider);
               current' = current\<lparr>r_x := r_x rider, r_y := r_y rider, r_online := True, r_cell_id := cid\<rparr>
           in (h[q := current'], add_rider_to_cell (r_uid current) q cid g1))
      | None \<Rightarrow>
          (let cid = g_cell_id g (r_x rider) (r_y rider);
               rider' = rider\<lparr>r_cell_id := cid, r_online := True\<rparr>;
               g1 = g\<lparr>g_riders := AList.update (r_uid rider) p (g_riders g)\<rparr>
           in (h[p := rider'], add_rider_to_cell (r_uid rider) p cid g1)))"

fun add_riders :: "ptr list \<Rightarrow> heap \<Rightarrow> grid \<Rightarrow> heap \<times> grid" where
  "add_riders [] h g = (h, g)"
| "add_riders (p # ps) h g = (case add_rider p h g of (h', g') \<Rightarrow> add_riders ps h' g')"

definition new_grid_index :: "ptr list \<Rightarrow> int \<Rightarrow> heap \<Rightarrow> heap \<times> grid" where
  "new_grid_index riders cell_size h =
     add_riders riders h
       \<lparr>g_cell_size = (if cell_size \<le> 0 then 1 else cell_size), g_riders = [], g_cells = Map.empty\<rparr>"

text \<open>\<open>MoveRider\<close>, \<open>RemoveRider\<close> and \<open>DeleteRider\<close> read only the fields of their argument.\<close>

definition move_rider :: "rider \<Rightarrow> heap \<Rightarrow> grid \<Rightarrow> heap \<times> grid" where
  "move_rider rider h g =
     (case map_of (g_riders g) (r_uid rider) of
        None \<Rightarrow> (h, g)
      | Some q \<Rightarrow>
          (let current = h ! q in
           if \<not> r_online current then (h, g)
           else let old_cid = r_cell_id current;
                    new_cid = g_cell_id g (r_x rider) (r_y rider);
                    h' = h[q := current\<lparr>r_x := r_x rider, r_y := r_y rider, r_cell_id := new_cid\<rparr>]
                in if old_cid = new_cid then (h', g)
                   else (h', add_rider_to_cell (r_uid current) q new_cid
                               (cell_delete old_cid (r_uid current) g))))"

definition remove_rider :: "rider \<Rightarrow> heap \<Rightarrow> grid \<Rightarrow> heap \<times> grid" where
  "remove_rider rider h g =
     (case map_of (g_riders g) (r_uid rider) of
        None \<Rightarrow> (h, g)
      | Some q \<Rightarrow>
          (let current = h ! q in
           if \<not> r_online current then (h, g)
           else (h[q := current\<lparr>r_online := False\<rparr>], cell_delete (r_cell_id current) (r_uid current) g)))"

definition delete_rider :: "rider \<Rightarrow> heap \<Rightarrow> grid \<Rightarrow> heap \<times> grid" where
  "delete_rider rider h g =
     (case map_of (g_riders g) (r_uid rider) of
        None \<Rightarrow> (h, g)
      | Some q \<Rightarrow>
          (let current = h ! q; g1 = cell_delete (r_cell_id current) (r_uid current) g
           in (h[q := current\<lparr>r_online := False\<rparr>],
               g1\<lparr>g_riders := AList.delete (r_uid current) (g_riders g1)\<rparr>)))"

definition online_count :: "heap \<Rightarrow> grid \<Rightarrow> int" where
  "online_count h g = int (length (filter (\<lambda>(u, p). r_online (h ! p)) (g_riders g)))"

section \<open>Candidate search\<close>

definition abs_int :: "int \<Rightarrow> int" where
  "abs_int value = (if value < 0 then wrap64 (- value) else value)"

definition max_int :: "int \<Rightarrow> int \<Rightarrow> int" where
  "max_int left right = (if left > right then left else right)"

definition cell_candidates :: "ranging \<Rightarrow> heap \<Rightarrow> grid \<Rightarrow> int \<Rightarrow> candidate_info list" where
  "cell_candidates it h g cid =
     map (\<lambda>(u, p). \<lparr>c_rider = p, c_uid = r_uid (h ! p), c_x = r_x (h ! p), c_y = r_y (h ! p),
                    c_count = r_count (h ! p)\<rparr>)
         (it (cell_map g cid))"

text \<open>The cells the two nested loops visit: the square of the outer radius without the inner one.\<close>

definition ring_cells :: "int \<Rightarrow> int \<Rightarrow> int \<Rightarrow> int \<Rightarrow> int list" where
  "ring_cells cell_x cell_y inner outer =
     concat (map (\<lambda>dx. concat (map (\<lambda>dy.
        if max_int (abs_int dx) (abs_int dy) \<le> inner then []
        else [cell_id_by_cell (wrap64 (cell_x + dx)) (wrap64 (cell_y + dy))])
        [- outer..outer])) [- outer..outer])"

definition find_nearby_candidates_in_range ::
  "ranging \<Rightarrow> heap \<Rightarrow> grid \<Rightarrow> int \<Rightarrow> int \<Rightarrow> int \<Rightarrow> int \<Rightarrow> candidate_info list" where
  "find_nearby_candidates_in_range it h g x y inner outer =
     (if outer < 0 \<or> outer \<le> inner then []
      else concat (map (cell_candidates it h g)
             (ring_cells (quot64 x (g_cell_size g)) (quot64 y (g_cell_size g)) inner outer)))"

definition find_nearby_candidates ::
  "ranging \<Rightarrow> heap \<Rightarrow> grid \<Rightarrow> int \<Rightarrow> int \<Rightarrow> int \<Rightarrow> candidate_info list" where
  "find_nearby_candidates it h g x y radius = find_nearby_candidates_in_range it h g x y (-1) radius"

section \<open>The matcher\<close>

record matcher =
  m_grid :: grid
  m_load_weight :: int

definition new_matcher :: "ptr list \<Rightarrow> int \<Rightarrow> int \<Rightarrow> heap \<Rightarrow> heap \<times> matcher" where
  "new_matcher riders cell_size load_weight h =
     (case new_grid_index riders cell_size h of
        (h', g) \<Rightarrow> (h', \<lparr>m_grid = g, m_load_weight = load_weight\<rparr>))"

definition score_rider :: "matcher \<Rightarrow> order \<Rightarrow> rider \<Rightarrow> int" where
  "score_rider m ord rider =
     (let dx = wrap64 (o_x ord - r_x rider);
          dy = wrap64 (o_y ord - r_y rider);
          distance = manhattan64 dx dy;
          distance_score = quot64 distance (g_cell_size (m_grid m));
          load_score = wrap64 (r_count rider * m_load_weight m)
      in wrap64 (distance_score + load_score))"

definition max_int64 :: int where "max_int64 = 2 ^ 63 - 1"

text \<open>One pass of the innermost loop body: a strictly smaller score replaces the best so far.\<close>

definition keep_best :: "matcher \<Rightarrow> heap \<Rightarrow> order \<Rightarrow> ptr option \<times> int \<Rightarrow> ptr \<Rightarrow> ptr option \<times> int" where
  "keep_best m h ord bst p =
     (let score = score_rider m ord (h ! p) in if score < snd bst then (Some p, score) else bst)"

definition best_nearby_rider_in_range ::
  "ranging \<Rightarrow> heap \<Rightarrow> matcher \<Rightarrow> order \<Rightarrow> int \<Rightarrow> int \<Rightarrow> ptr option" where
  "best_nearby_rider_in_range it h m ord inner outer =
     (if outer < 0 \<or> outer \<le> inner then None
      else let g = m_grid m;
               cells = ring_cells (quot64 (o_x ord) (g_cell_size g)) (quot64 (o_y ord) (g_cell_size g)) inner outer
           in fst (foldl (keep_best m h ord) (None, max_int64)
                     (concat (map (\<lambda>cid. map snd (it (cell_map g cid))) cells))))"

definition better_rider :: "matcher \<Rightarrow> heap \<Rightarrow> order \<Rightarrow> ptr option \<Rightarrow> ptr option \<Rightarrow> ptr option" where
  "better_rider m h ord best cand =
     (case cand of
        None \<Rightarrow> best
      | Some c \<Rightarrow>
          (case best of
             None \<Rightarrow> cand
           | Some b \<Rightarrow> if score_rider m ord (h ! c) < score_rider m ord (h ! b) then cand else best))"


section \<open>The grid invariant\<close>

lemma g_cells_simps [simp]:
  "g_riders (cell_delete c u g) = g_riders g" "g_cell_size (cell_delete c u g) = g_cell_size g"
  "g_riders (add_rider_to_cell u p c g) = g_riders g"
  "g_cell_size (add_rider_to_cell u p c g) = g_cell_size g"
  by (simp_all add: cell_delete_def add_rider_to_cell_def Let_def split: option.split)

lemma cell_map_cell_delete [gomap_simps]:
  "cell_map (cell_delete c u g) c' =
     (if c' = c then AList.delete u (cell_map g c) else cell_map g c')"
  by (simp add: cell_delete_def cell_map_def split: option.split)

lemma cell_map_add_rider_to_cell [gomap_simps]:
  "cell_map (add_rider_to_cell u p c g) c' =
     (if c' = c then AList.update u p (cell_map g c) else cell_map g c')"
  by (simp add: add_rider_to_cell_def cell_map_def Let_def)

lemma g_cell_id_cong: "g_cell_size g = g_cell_size g' \<Longrightarrow> g_cell_id g = g_cell_id g'"
  by (simp add: g_cell_id_def fun_eq_iff)

lemma cell_map_g_riders_update [simp]: "cell_map (g\<lparr>g_riders := r\<rparr>) = cell_map g"
  by (simp add: cell_map_def fun_eq_iff)

text \<open>
  The structural part of the invariant: keys are distinct, every pointer of the grid is live and
  carries the key's identifier, and a rider stands in a cell exactly when it is a registered online
  rider whose \<open>CellID\<close> names that cell. It says nothing of coordinates: the caller may write
  \<open>X\<close> and \<open>Y\<close> of a registered rider before it calls \<open>AddRider\<close> (as \<open>applyOnline\<close> does).
\<close>

definition grid_struct :: "heap \<Rightarrow> grid \<Rightarrow> bool" where
  "grid_struct h g \<longleftrightarrow>
     0 < g_cell_size g \<and> distinct (map fst (g_riders g)) \<and>
     (\<forall>c. distinct (map fst (cell_map g c))) \<and>
     (\<forall>u p. map_of (g_riders g) u = Some p \<longrightarrow> p < length h \<and> r_uid (h ! p) = u) \<and>
     (\<forall>c u p. map_of (cell_map g c) u = Some p \<longleftrightarrow>
        map_of (g_riders g) u = Some p \<and> r_online (h ! p) \<and> r_cell_id (h ! p) = c)"

text \<open>Every online rider's \<open>CellID\<close> is the one of its coordinates.\<close>

definition grid_coherent :: "heap \<Rightarrow> grid \<Rightarrow> bool" where
  "grid_coherent h g \<longleftrightarrow>
     (\<forall>u p. map_of (g_riders g) u = Some p \<longrightarrow> r_online (h ! p) \<longrightarrow>
        r_cell_id (h ! p) = g_cell_id g (r_x (h ! p)) (r_y (h ! p)))"

definition grid_coherent_except :: "int \<Rightarrow> heap \<Rightarrow> grid \<Rightarrow> bool" where
  "grid_coherent_except v h g \<longleftrightarrow>
     (\<forall>u p. map_of (g_riders g) u = Some p \<longrightarrow> u \<noteq> v \<longrightarrow> r_online (h ! p) \<longrightarrow>
        r_cell_id (h ! p) = g_cell_id g (r_x (h ! p)) (r_y (h ! p)))"

definition grid_wf :: "heap \<Rightarrow> grid \<Rightarrow> bool" where
  "grid_wf h g \<longleftrightarrow> grid_struct h g \<and> grid_coherent h g"

text \<open>What the grid means: the coordinates of every online rider.\<close>

definition positions :: "heap \<Rightarrow> grid \<Rightarrow> int \<rightharpoonup> int \<times> int" where
  "positions h g u =
     (case map_of (g_riders g) u of
        Some p \<Rightarrow> if r_online (h ! p) then Some (r_x (h ! p), r_y (h ! p)) else None
      | None \<Rightarrow> None)"

lemma coherent_except: "grid_coherent h g \<Longrightarrow> grid_coherent_except v h g"
  by (simp add: grid_coherent_def grid_coherent_except_def)

lemma grid_structD:
  assumes "grid_struct h g"
  shows "0 < g_cell_size g" "distinct (map fst (g_riders g))" "distinct (map fst (cell_map g c))"
    "map_of (g_riders g) u = Some p \<Longrightarrow> p < length h"
    "map_of (g_riders g) u = Some p \<Longrightarrow> r_uid (h ! p) = u"
    "map_of (cell_map g c) u = Some p \<longleftrightarrow>
       map_of (g_riders g) u = Some p \<and> r_online (h ! p) \<and> r_cell_id (h ! p) = c"
  using assms by (auto simp: grid_struct_def)

lemma grid_struct_ptr_inj:
  "grid_struct h g \<Longrightarrow> map_of (g_riders g) u = Some p \<Longrightarrow> map_of (g_riders g) v = Some p \<Longrightarrow> u = v"
  using grid_structD(5) by metis

text \<open>The grid reads only the riders it holds.\<close>

lemma grid_frame:
  assumes "\<And>u p. map_of (g_riders g) u = Some p \<Longrightarrow> h' ! p = h ! p" "length h \<le> length h'"
  shows "grid_struct h g \<Longrightarrow> grid_struct h' g"
    "grid_coherent h g \<Longrightarrow> grid_coherent h' g"
    "grid_wf h g \<Longrightarrow> grid_wf h' g" "positions h' g = positions h g"
proof -
  show s: "grid_struct h g \<Longrightarrow> grid_struct h' g"
    unfolding grid_struct_def using assms by (smt (verit) order.strict_trans2)
  show c: "grid_coherent h g \<Longrightarrow> grid_coherent h' g"
    unfolding grid_coherent_def using assms by metis
  show "grid_wf h g \<Longrightarrow> grid_wf h' g" using s c by (simp add: grid_wf_def)
  show "positions h' g = positions h g"
    using assms(1) by (auto simp: positions_def fun_eq_iff split: option.split)
qed

text \<open>Writing one registered rider's record: what it takes to keep the structure.\<close>

lemma map_of_cell_delete [gomap_simps]:
  "map_of (cell_map (cell_delete c u g) c') v =
     (if c' = c \<and> v = u then None else map_of (cell_map g c') v)"
  by (simp add: gomap_simps)

lemma map_of_add_rider_to_cell [gomap_simps]:
  "map_of (cell_map (add_rider_to_cell u p c g) c') v =
     (if c' = c \<and> v = u then Some p else map_of (cell_map g c') v)"
  by (simp add: gomap_simps)

lemma distinct_cell_delete:
  "\<forall>c. distinct (map fst (cell_map g c)) \<Longrightarrow> distinct (map fst (cell_map (cell_delete c' u g) c))"
  by (simp add: cell_map_cell_delete distinct_fst_AList_delete)

lemma distinct_add_rider_to_cell:
  "\<forall>c. distinct (map fst (cell_map g c)) \<Longrightarrow>
   distinct (map fst (cell_map (add_rider_to_cell v p c' g) c))"
  by (simp add: cell_map_add_rider_to_cell distinct_fst_AList_update)

lemma grid_structI:
  assumes "0 < g_cell_size g" "distinct (map fst (g_riders g))"
    "\<And>c. distinct (map fst (cell_map g c))"
    "\<And>u p. map_of (g_riders g) u = Some p \<Longrightarrow> p < length h \<and> r_uid (h ! p) = u"
    "\<And>c u p. map_of (cell_map g c) u = Some p \<longleftrightarrow>
       map_of (g_riders g) u = Some p \<and> r_online (h ! p) \<and> r_cell_id (h ! p) = c"
  shows "grid_struct h g"
  using assms by (simp add: grid_struct_def)

lemma struct_delete_cell:
  assumes g: "grid_struct h g" and u: "map_of (g_riders g) u = Some q"
    and r: "r_uid rd = u" "\<not> r_online rd"
  shows "grid_struct (h[q := rd]) (cell_delete (r_cell_id (h ! q)) u g)"
proof (rule grid_structI)
  note D = grid_structD[OF g]
  have ne: "map_of (g_riders g) v = Some q \<longleftrightarrow> v = u" for v
    using grid_struct_ptr_inj[OF g u] u by metis
  show "distinct (map fst (cell_map (cell_delete (r_cell_id (h ! q)) u g) c))" for c
    by (rule distinct_cell_delete) (simp add: D)
  show "p < length (h[q := rd]) \<and> r_uid (h[q := rd] ! p) = v"
    if "map_of (g_riders (cell_delete (r_cell_id (h ! q)) u g)) v = Some p" for v p
    using that D(4,5)[of v p] r(1) ne[of v] by (cases "p = q") auto
  show "map_of (cell_map (cell_delete (r_cell_id (h ! q)) u g) c) v = Some p \<longleftrightarrow>
      map_of (g_riders (cell_delete (r_cell_id (h ! q)) u g)) v = Some p \<and>
      r_online (h[q := rd] ! p) \<and> r_cell_id (h[q := rd] ! p) = c" for c v p
    using r(2) D(4)[OF u] by (cases "p = q") (auto simp: map_of_cell_delete D(6) ne u
        simp del: map_of_eq_Some_iff)
qed (use grid_structD[OF g] in simp_all)

lemma struct_set_cell:
  assumes g: "grid_struct h g" and u: "map_of (g_riders g) u = Some q"
    and r: "r_uid rd = u" "r_online rd" "r_cell_id rd = c"
  shows "grid_struct (h[q := rd]) (add_rider_to_cell u q c (cell_delete (r_cell_id (h ! q)) u g))"
proof (rule grid_structI)
  note D = grid_structD[OF g]
  have ne: "map_of (g_riders g) v = Some q \<longleftrightarrow> v = u" for v
    using grid_struct_ptr_inj[OF g u] u by metis
  let ?g = "add_rider_to_cell u q c (cell_delete (r_cell_id (h ! q)) u g)"
  show "distinct (map fst (cell_map ?g c'))" for c'
    by (rule distinct_add_rider_to_cell) (simp add: distinct_cell_delete D)
  show "p < length (h[q := rd]) \<and> r_uid (h[q := rd] ! p) = v"
    if "map_of (g_riders ?g) v = Some p" for v p
    using that D(4,5)[of v p] r(1) ne[of v] by (cases "p = q") auto
  show "map_of (cell_map ?g c') v = Some p \<longleftrightarrow>
      map_of (g_riders ?g) v = Some p \<and> r_online (h[q := rd] ! p) \<and> r_cell_id (h[q := rd] ! p) = c'" for c' v p
    using r(2,3) D(4)[OF u]
    by (cases "p = q") (auto simp: map_of_cell_delete map_of_add_rider_to_cell D(6) ne u
        simp del: map_of_eq_Some_iff)
qed (use grid_structD[OF g] in simp_all)

lemma struct_new_rider:
  assumes g: "grid_struct h g" and u: "map_of (g_riders g) u = None" and p: "p < length h"
    and r: "r_uid rd = u" "r_online rd" "r_cell_id rd = c" and old: "r_uid (h ! p) = u"
  shows "grid_struct (h[p := rd]) (add_rider_to_cell u p c (g\<lparr>g_riders := AList.update u p (g_riders g)\<rparr>))"
    (is "grid_struct _ ?g")
proof (rule grid_structI)
  note D = grid_structD[OF g]
  have ne: "map_of (g_riders g) v \<noteq> Some p" for v
    using D(5) old u by fastforce
  show "distinct (map fst (cell_map ?g c'))" for c'
    by (rule distinct_add_rider_to_cell) (simp add: D)
  show "q < length (h[p := rd]) \<and> r_uid (h[p := rd] ! q) = v"
    if "map_of (g_riders ?g) v = Some q" for v q
    using that D(4,5)[of v q] r(1) ne[of v] p
    by (cases "q = p") (auto simp: map_of_AList_update simp del: map_of_eq_Some_iff split: if_splits)
  show "map_of (cell_map ?g c') v = Some q \<longleftrightarrow>
      map_of (g_riders ?g) v = Some q \<and> r_online (h[p := rd] ! q) \<and> r_cell_id (h[p := rd] ! q) = c'" for c' v q
    using u r(2,3) p ne
    by (cases "q = p") (auto simp: map_of_add_rider_to_cell map_of_AList_update D(6))
qed (use grid_structD[OF g] in \<open>simp_all add: distinct_fst_AList_update\<close>)

lemma struct_move_same_cell:
  assumes g: "grid_struct h g" and u: "map_of (g_riders g) u = Some q"
    and r: "r_uid rd = u" "r_online rd = r_online (h ! q)" "r_cell_id rd = r_cell_id (h ! q)"
  shows "grid_struct (h[q := rd]) g"
proof (rule grid_structI)
  note D = grid_structD[OF g]
  have ne: "map_of (g_riders g) v = Some q \<longleftrightarrow> v = u" for v
    using grid_struct_ptr_inj[OF g u] u by metis
  show "p < length (h[q := rd]) \<and> r_uid (h[q := rd] ! p) = v"
    if "map_of (g_riders g) v = Some p" for v p
    using that D(4,5)[of v p] r(1) ne[of v] by (cases "p = q") auto
  show "map_of (cell_map g c) v = Some p \<longleftrightarrow>
      map_of (g_riders g) v = Some p \<and> r_online (h[q := rd] ! p) \<and> r_cell_id (h[q := rd] ! p) = c" for c v p
    using r(2,3) D(4)[OF u] by (cases "p = q") (auto simp: D(6))
qed (use grid_structD[OF g] in simp_all)

lemma struct_forget_rider:
  assumes g: "grid_struct h g" and u: "map_of (g_riders g) u = Some q" "\<not> r_online (h ! q)"
  shows "grid_struct h (g\<lparr>g_riders := AList.delete u (g_riders g)\<rparr>)"
  using grid_structD[OF g] u
  by (intro grid_structI)
     (auto simp: map_of_AList_delete distinct_fst_AList_delete simp del: map_of_eq_Some_iff split: if_splits)

section \<open>The operations keep the invariant and implement a map of positions\<close>

text \<open>
  What an operation may change: nothing but the record of one rider, of which the identifier and
  the match count stay.
\<close>

definition touches_only :: "ptr set \<Rightarrow> heap \<Rightarrow> heap \<Rightarrow> bool" where
  "touches_only ps h h' \<longleftrightarrow>
     length h' = length h \<and> (\<forall>q. q \<notin> ps \<longrightarrow> h' ! q = h ! q) \<and>
     (\<forall>q < length h. r_uid (h' ! q) = r_uid (h ! q) \<and> r_count (h' ! q) = r_count (h ! q))"

lemma touches_only_refl [simp]: "touches_only ps h h"
  by (simp add: touches_only_def)

lemma touches_only_update [simp]:
  "p \<in> ps \<Longrightarrow> r_uid rd = r_uid (h ! p) \<Longrightarrow> r_count rd = r_count (h ! p) \<Longrightarrow> touches_only ps h (h[p := rd])"
  unfolding touches_only_def
  by (cases "p < length h") (auto simp: nth_list_update list_update_beyond)

lemma touches_only_mono: "touches_only ps h h' \<Longrightarrow> ps \<subseteq> ps' \<Longrightarrow> touches_only ps' h h'"
  unfolding touches_only_def by blast

lemma touches_only_trans: "touches_only ps h h' \<Longrightarrow> touches_only ps h' h'' \<Longrightarrow> touches_only ps h h''"
  unfolding touches_only_def by simp

lemma touches_onlyD:
  assumes "touches_only ps h h'"
  shows "length h' = length h" "q \<notin> ps \<Longrightarrow> h' ! q = h ! q"
    "q < length h \<Longrightarrow> r_uid (h' ! q) = r_uid (h ! q)" "q < length h \<Longrightarrow> r_count (h' ! q) = r_count (h ! q)"
  using assms by (simp_all add: touches_only_def)

lemma coherent_after_set:
  assumes "grid_coherent_except u h g" "grid_struct h g"
    and "\<And>v. v \<noteq> u \<Longrightarrow> map_of (g_riders g') v = map_of (g_riders g) v"
    and "map_of (g_riders g') u = Some q"  "q < length h" "\<And>v. v \<noteq> u \<Longrightarrow> map_of (g_riders g) v \<noteq> Some q"
    and "g_cell_size g' = g_cell_size g" "r_cell_id rd = g_cell_id g (r_x rd) (r_y rd)"
  shows "grid_coherent (h[q := rd]) g'"
    and "r_online rd \<Longrightarrow> positions (h[q := rd]) g' = (positions h g)(u \<mapsto> (r_x rd, r_y rd))"
proof -
  have c: "g_cell_id g' = g_cell_id g" using assms(7) by (rule g_cell_id_cong)
  show "grid_coherent (h[q := rd]) g'"
    unfolding grid_coherent_def
  proof (intro allI impI)
    fix v p assume v: "map_of (g_riders g') v = Some p" and o: "r_online (h[q := rd] ! p)"
    show "r_cell_id (h[q := rd] ! p) = g_cell_id g' (r_x (h[q := rd] ! p)) (r_y (h[q := rd] ! p))"
    proof (cases "v = u")
      case True
      then show ?thesis using v assms by (simp add: c)
    next
      case False
      then have "p \<noteq> q" "map_of (g_riders g) v = Some p" using v assms(3,6)[of v] by auto
      then show ?thesis using assms(1) o False unfolding grid_coherent_except_def c by simp
    qed
  qed
  show "positions (h[q := rd]) g' = (positions h g)(u \<mapsto> (r_x rd, r_y rd))" if "r_online rd"
  proof
    fix v
    show "positions (h[q := rd]) g' v = ((positions h g)(u \<mapsto> (r_x rd, r_y rd))) v"
      using that assms(3,6)[of v] assms(4,5)
      by (cases "v = u") (auto simp: positions_def nth_list_update split: option.split)
  qed
qed

lemma coherent_after_drop:
  assumes "grid_coherent h g" "grid_struct h g" "map_of (g_riders g) u = Some q" "\<not> r_online rd"
    and "g_riders g' = g_riders g \<or> g_riders g' = AList.delete u (g_riders g)" "g_cell_size g' = g_cell_size g"
  shows "grid_coherent (h[q := rd]) g'" "positions (h[q := rd]) g' = (positions h g)(u := None)"
proof -
  have c: "g_cell_id g' = g_cell_id g" using assms(6) by (rule g_cell_id_cong)
  have q: "q < length h" using grid_structD(4)[OF assms(2,3)] .
  have ne: "map_of (g_riders g) v = Some q \<longleftrightarrow> v = u" for v
    using grid_struct_ptr_inj[OF assms(2,3)] assms(3) by metis
  have r: "map_of (g_riders g') v = (if v = u then map_of (g_riders g') u else map_of (g_riders g) v)"
    "map_of (g_riders g') u = None \<or> map_of (g_riders g') u = Some q" for v
    using assms(5) assms(3) by (auto simp: map_of_AList_delete)
  show "grid_coherent (h[q := rd]) g'"
    unfolding grid_coherent_def
  proof (intro allI impI)
    fix v p assume v: "map_of (g_riders g') v = Some p" and o: "r_online (h[q := rd] ! p)"
    have pq: "p \<noteq> q" using o q assms(4) by auto
    then have vu: "v \<noteq> u" using v r(2) by auto
    then have "map_of (g_riders g) v = Some p" using v r(1)[of v] by simp
    then show "r_cell_id (h[q := rd] ! p) = g_cell_id g' (r_x (h[q := rd] ! p)) (r_y (h[q := rd] ! p))"
      using assms(1) o pq unfolding grid_coherent_def c by simp
  qed
  show "positions (h[q := rd]) g' = (positions h g)(u := None)"
  proof
    fix v
    show "positions (h[q := rd]) g' v = ((positions h g)(u := None)) v"
      using r(1)[of v] r(2) q assms(4) ne[of v]
      by (cases "v = u") (auto simp: positions_def nth_list_update split: option.split)
  qed
qed

lemma add_rider_spec:
  assumes g: "grid_struct h g" "grid_coherent_except (r_uid (h ! p)) h g" and p: "p < length h"
    and eq: "add_rider p h g = (h', g')"
  shows "grid_wf h' g'"
    and "positions h' g' = (positions h g)(r_uid (h ! p) \<mapsto> (r_x (h ! p), r_y (h ! p)))"
    and "g_cell_size g' = g_cell_size g"
    and "map_of (g_riders g') = (case map_of (g_riders g) (r_uid (h ! p)) of
           Some q \<Rightarrow> map_of (g_riders g) | None \<Rightarrow> (map_of (g_riders g))(r_uid (h ! p) \<mapsto> p))"
    and "touches_only {case map_of (g_riders g) (r_uid (h ! p)) of Some q \<Rightarrow> q | None \<Rightarrow> p} h h'"
proof -
  let ?u = "r_uid (h ! p)"
  have "grid_wf h' g' \<and> positions h' g' = (positions h g)(?u \<mapsto> (r_x (h ! p), r_y (h ! p))) \<and>
      g_cell_size g' = g_cell_size g \<and>
      map_of (g_riders g') = (case map_of (g_riders g) ?u of
           Some q \<Rightarrow> map_of (g_riders g) | None \<Rightarrow> (map_of (g_riders g))(?u \<mapsto> p)) \<and>
      touches_only {case map_of (g_riders g) ?u of Some q \<Rightarrow> q | None \<Rightarrow> p} h h'"
  proof (cases "map_of (g_riders g) ?u")
    case None
    let ?rd = "(h ! p)\<lparr>r_cell_id := g_cell_id g (r_x (h ! p)) (r_y (h ! p)), r_online := True\<rparr>"
    have e: "h' = h[p := ?rd]" "g' = add_rider_to_cell ?u p (g_cell_id g (r_x (h ! p)) (r_y (h ! p)))
        (g\<lparr>g_riders := AList.update ?u p (g_riders g)\<rparr>)"
      using eq None by (simp_all add: add_rider_def Let_def)
    have ne: "map_of (g_riders g) v \<noteq> Some p" for v
      using grid_structD(5)[OF g(1)] None by fastforce
    have s: "grid_struct h' g'"
      unfolding e by (rule struct_new_rider[OF g(1) None p]) simp_all
    have gr: "map_of (g_riders g') = (map_of (g_riders g))(?u \<mapsto> p)" "g_cell_size g' = g_cell_size g"
      unfolding e by (simp_all add: update_conv')
    have "grid_coherent h' g'"
      unfolding e(1) by (rule coherent_after_set(1)[OF g(2,1)]) (use gr ne p in simp_all)
    moreover have "positions h' g' = (positions h g)(?u \<mapsto> (r_x ?rd, r_y ?rd))"
      unfolding e(1) by (rule coherent_after_set(2)[OF g(2,1)]) (use gr ne p in simp_all)
    ultimately show ?thesis using s gr None e(1) by (simp add: grid_wf_def)
  next
    case (Some q)
    let ?c = "g_cell_id g (r_x (h ! p)) (r_y (h ! p))"
    let ?rd = "(h ! q)\<lparr>r_x := r_x (h ! p), r_y := r_y (h ! p), r_online := True, r_cell_id := ?c\<rparr>"
    have qu: "r_uid (h ! q) = ?u" "q < length h" using grid_structD(4,5)[OF g(1) Some] by simp_all
    have e: "h' = h[q := ?rd]" "g' = add_rider_to_cell ?u q ?c (cell_delete (r_cell_id (h ! q)) ?u g)"
      using eq Some qu by (simp_all add: add_rider_def Let_def)
    have ne: "map_of (g_riders g) v \<noteq> Some q" if "v \<noteq> ?u" for v
      using grid_struct_ptr_inj[OF g(1) Some] that by metis
    have s: "grid_struct h' g'"
      unfolding e by (rule struct_set_cell[OF g(1) Some]) (simp_all add: qu)
    have gr: "g_riders g' = g_riders g" "g_cell_size g' = g_cell_size g"
      unfolding e by simp_all
    have "grid_coherent h' g'"
      unfolding e(1) by (rule coherent_after_set(1)[OF g(2,1)]) (use gr ne qu Some in simp_all)
    moreover have "positions h' g' = (positions h g)(?u \<mapsto> (r_x ?rd, r_y ?rd))"
      unfolding e(1) by (rule coherent_after_set(2)[OF g(2,1)]) (use gr ne qu Some in simp_all)
    ultimately show ?thesis using s gr Some e(1) by (simp add: grid_wf_def)
  qed
  then show "grid_wf h' g'"
    and "positions h' g' = (positions h g)(r_uid (h ! p) \<mapsto> (r_x (h ! p), r_y (h ! p)))"
    and "g_cell_size g' = g_cell_size g"
    and "map_of (g_riders g') = (case map_of (g_riders g) (r_uid (h ! p)) of
           Some q \<Rightarrow> map_of (g_riders g) | None \<Rightarrow> (map_of (g_riders g))(r_uid (h ! p) \<mapsto> p))"
    and "touches_only {case map_of (g_riders g) (r_uid (h ! p)) of Some q \<Rightarrow> q | None \<Rightarrow> p} h h'"
    by simp_all
qed

lemma move_rider_spec:
  assumes g: "grid_wf h g" and eq: "move_rider rd h g = (h', g')"
  shows "grid_wf h' g'"
    and "positions h' g' =
      (if positions h g (r_uid rd) = None then positions h g else (positions h g)(r_uid rd \<mapsto> (r_x rd, r_y rd)))"
    and "g_cell_size g' = g_cell_size g" and "g_riders g' = g_riders g"
    and "touches_only {q. map_of (g_riders g) (r_uid rd) = Some q} h h'"
proof -
  let ?u = "r_uid rd"
  note s = g[unfolded grid_wf_def]
  have "grid_wf h' g' \<and>
      positions h' g' = (if positions h g ?u = None then positions h g
                         else (positions h g)(?u \<mapsto> (r_x rd, r_y rd))) \<and>
      g_cell_size g' = g_cell_size g \<and> g_riders g' = g_riders g \<and>
      touches_only {q. map_of (g_riders g) ?u = Some q} h h'"
  proof (cases "map_of (g_riders g) ?u")
    case None
    then show ?thesis using eq g by (auto simp: move_rider_def positions_def)
  next
    case (Some q)
    have qu: "r_uid (h ! q) = ?u" "q < length h" using grid_structD(4,5)[OF conjunct1[OF s] Some] by simp_all
    have ne: "map_of (g_riders g) v \<noteq> Some q" if "v \<noteq> ?u" for v
      using grid_struct_ptr_inj[OF conjunct1[OF s] Some] that by metis
    show ?thesis
    proof (cases "r_online (h ! q)")
      case False
      then show ?thesis using eq g Some by (auto simp: move_rider_def positions_def)
    next
      case True
      let ?c = "g_cell_id g (r_x rd) (r_y rd)"
      let ?rd = "(h ! q)\<lparr>r_x := r_x rd, r_y := r_y rd, r_cell_id := ?c\<rparr>"
      have e: "h' = h[q := ?rd]" "g' = (if r_cell_id (h ! q) = ?c then g
          else add_rider_to_cell ?u q ?c (cell_delete (r_cell_id (h ! q)) ?u g))"
        using eq Some True qu by (auto simp: move_rider_def Let_def split: if_splits)
      have st: "grid_struct h' g'"
      proof (cases "r_cell_id (h ! q) = ?c")
        case same: True
        have "grid_struct (h[q := ?rd]) g"
          by (rule struct_move_same_cell[OF conjunct1[OF s] Some]) (simp_all add: qu same)
        then show ?thesis using same by (simp add: e)
      next
        case False
        have "grid_struct (h[q := ?rd]) (add_rider_to_cell ?u q ?c (cell_delete (r_cell_id (h ! q)) ?u g))"
          by (rule struct_set_cell[OF conjunct1[OF s] Some]) (simp_all add: qu True)
        then show ?thesis using False by (simp add: e)
      qed
      have gr: "g_riders g' = g_riders g" "g_cell_size g' = g_cell_size g"
        unfolding e by simp_all
      note ca = coherent_after_set[OF coherent_except[OF conjunct2[OF s], of ?u] conjunct1[OF s], of g' q ?rd]
      have "grid_coherent h' g'" "positions h' g' = (positions h g)(?u \<mapsto> (r_x ?rd, r_y ?rd))"
        unfolding e(1) by (rule ca; use gr ne qu Some True in simp)+
      then show ?thesis using st gr Some e(1) True by (simp add: grid_wf_def positions_def)
    qed
  qed
  then show "grid_wf h' g'"
    and "positions h' g' =
      (if positions h g (r_uid rd) = None then positions h g else (positions h g)(r_uid rd \<mapsto> (r_x rd, r_y rd)))"
    and "g_cell_size g' = g_cell_size g" and "g_riders g' = g_riders g"
    and "touches_only {q. map_of (g_riders g) (r_uid rd) = Some q} h h'"
    by blast+
qed

lemma remove_rider_spec:
  assumes g: "grid_wf h g" and eq: "remove_rider rd h g = (h', g')"
  shows "grid_wf h' g'" and "positions h' g' = (positions h g)(r_uid rd := None)"
    and "g_cell_size g' = g_cell_size g" and "g_riders g' = g_riders g"
    and "touches_only {q. map_of (g_riders g) (r_uid rd) = Some q} h h'"
proof -
  let ?u = "r_uid rd"
  note s = g[unfolded grid_wf_def]
  have "grid_wf h' g' \<and> positions h' g' = (positions h g)(?u := None) \<and>
      g_cell_size g' = g_cell_size g \<and> g_riders g' = g_riders g \<and>
      touches_only {q. map_of (g_riders g) ?u = Some q} h h'"
  proof (cases "map_of (g_riders g) ?u")
    case None
    then show ?thesis using eq g by (auto simp: remove_rider_def positions_def fun_eq_iff)
  next
    case (Some q)
    have qu: "r_uid (h ! q) = ?u" "q < length h" using grid_structD(4,5)[OF conjunct1[OF s] Some] by simp_all
    show ?thesis
    proof (cases "r_online (h ! q)")
      case False
      then show ?thesis using eq g Some by (auto simp: remove_rider_def positions_def fun_eq_iff)
    next
      case True
      let ?rd = "(h ! q)\<lparr>r_online := False\<rparr>"
      have e: "h' = h[q := ?rd]" "g' = cell_delete (r_cell_id (h ! q)) ?u g"
        using eq Some True qu by (auto simp: remove_rider_def Let_def)
      have st: "grid_struct h' g'"
        unfolding e by (rule struct_delete_cell[OF conjunct1[OF s] Some]) (use qu in simp_all)
      note ca = coherent_after_drop[OF conjunct2[OF s] conjunct1[OF s] Some, of ?rd g']
      have "grid_coherent h' g'" "positions h' g' = (positions h g)(?u := None)"
        unfolding e(1) by (rule ca; use e in simp)+
      then show ?thesis using st Some e by (simp add: grid_wf_def)
    qed
  qed
  then show "grid_wf h' g'" and "positions h' g' = (positions h g)(r_uid rd := None)"
    and "g_cell_size g' = g_cell_size g" and "g_riders g' = g_riders g"
    and "touches_only {q. map_of (g_riders g) (r_uid rd) = Some q} h h'"
    by blast+
qed

lemma delete_rider_spec:
  assumes g: "grid_wf h g" and eq: "delete_rider rd h g = (h', g')"
  shows "grid_wf h' g'" and "positions h' g' = (positions h g)(r_uid rd := None)"
    and "g_cell_size g' = g_cell_size g"
    and "map_of (g_riders g') = (map_of (g_riders g))(r_uid rd := None)"
    and "touches_only {q. map_of (g_riders g) (r_uid rd) = Some q} h h'"
proof -
  let ?u = "r_uid rd"
  note s = g[unfolded grid_wf_def]
  have "grid_wf h' g' \<and> positions h' g' = (positions h g)(?u := None) \<and>
      g_cell_size g' = g_cell_size g \<and> map_of (g_riders g') = (map_of (g_riders g))(?u := None) \<and>
      touches_only {q. map_of (g_riders g) ?u = Some q} h h'"
  proof (cases "map_of (g_riders g) ?u")
    case None
    then show ?thesis using eq g by (auto simp: delete_rider_def positions_def fun_eq_iff)
  next
    case (Some q)
    have qu: "r_uid (h ! q) = ?u" "q < length h" using grid_structD(4,5)[OF conjunct1[OF s] Some] by simp_all
    let ?rd = "(h ! q)\<lparr>r_online := False\<rparr>"
    let ?g1 = "cell_delete (r_cell_id (h ! q)) ?u g"
    have e: "h' = h[q := ?rd]" "g' = ?g1\<lparr>g_riders := AList.delete ?u (g_riders ?g1)\<rparr>"
      using eq Some qu by (auto simp: delete_rider_def Let_def)
    have st1: "grid_struct h' ?g1"
      unfolding e by (rule struct_delete_cell[OF conjunct1[OF s] Some]) (use qu in simp_all)
    have "map_of (g_riders ?g1) ?u = Some q" "\<not> r_online (h' ! q)" using Some qu by (simp_all add: e(1))
    then have st: "grid_struct h' g'" unfolding e(2) by (rule struct_forget_rider[OF st1])
    note ca = coherent_after_drop[OF conjunct2[OF s] conjunct1[OF s] Some, of ?rd g']
    have "grid_coherent h' g'" "positions h' g' = (positions h g)(?u := None)"
      unfolding e(1) by (rule ca; use e in simp)+
    then show ?thesis using st Some e by (simp add: grid_wf_def delete_conv')
  qed
  then show "grid_wf h' g'" and "positions h' g' = (positions h g)(r_uid rd := None)"
    and "g_cell_size g' = g_cell_size g"
    and "map_of (g_riders g') = (map_of (g_riders g))(r_uid rd := None)"
    and "touches_only {q. map_of (g_riders g) (r_uid rd) = Some q} h h'"
    by blast+
qed

lemma empty_grid_wf:
  "0 < cs \<Longrightarrow> grid_wf h \<lparr>g_cell_size = cs, g_riders = [], g_cells = Map.empty\<rparr>"
  "positions h \<lparr>g_cell_size = cs, g_riders = [], g_cells = Map.empty\<rparr> = Map.empty"
  by (simp_all add: grid_wf_def grid_struct_def grid_coherent_def positions_def cell_map_def fun_eq_iff)

lemma add_riders_spec:
  assumes "grid_wf h g" "\<forall>p \<in> set ps. p < length h" "add_riders ps h g = (h', g')"
  shows "grid_wf h' g' \<and> g_cell_size g' = g_cell_size g \<and>
     dom (map_of (g_riders g')) = dom (map_of (g_riders g)) \<union> {r_uid (h ! p) |p. p \<in> set ps} \<and>
     ran (map_of (g_riders g')) \<subseteq> ran (map_of (g_riders g)) \<union> set ps \<and>
     touches_only (ran (map_of (g_riders g)) \<union> set ps) h h'"
  using assms
proof (induction ps arbitrary: h g)
  case Nil
  then show ?case by simp
next
  case (Cons p ps)
  obtain h1 g1 where 1: "add_rider p h g = (h1, g1)" by fastforce
  note A = add_rider_spec[OF _ _ _ 1]
  have pre: "grid_struct h g" "grid_coherent_except (r_uid (h ! p)) h g" "p < length h"
    using Cons.prems by (simp_all add: grid_wf_def coherent_except)
  have w1: "grid_wf h1 g1" "g_cell_size g1 = g_cell_size g"
    using A(1,3)[OF pre] by simp_all
  have d1: "dom (map_of (g_riders g1)) = insert (r_uid (h ! p)) (dom (map_of (g_riders g)))"
    using A(4)[OF pre] by (cases "map_of (g_riders g) (r_uid (h ! p))") auto
  have n1: "ran (map_of (g_riders g1)) \<subseteq> insert p (ran (map_of (g_riders g)))"
    using A(4)[OF pre] by (cases "map_of (g_riders g) (r_uid (h ! p))") (auto simp: ran_def)
  have t1: "touches_only (ran (map_of (g_riders g)) \<union> set (p # ps)) h h1"
    by (rule touches_only_mono[OF A(5)[OF pre]]) (auto split: option.split intro: ranI)
  note t1d = touches_onlyD[OF t1]
  have e: "add_riders ps h1 g1 = (h', g')" using Cons.prems(3) 1 by simp
  have l: "\<forall>p \<in> set ps. p < length h1" using Cons.prems(2) t1d(1) by simp
  note IH = Cons.IH[OF w1(1) l e]
  have u: "{r_uid (h1 ! p) |p. p \<in> set ps} = {r_uid (h ! p) |p. p \<in> set ps}"
    using t1d(3) Cons.prems(2) by (metis (no_types, lifting) list.set_intros(2))
  have t2: "touches_only (ran (map_of (g_riders g)) \<union> set (p # ps)) h1 h'"
    by (rule touches_only_mono[OF conjunct2[OF conjunct2[OF conjunct2[OF conjunct2[OF IH]]]]]) (use n1 in auto)
  show ?case
    using IH w1(2) d1 n1 u touches_only_trans[OF t1 t2] by auto
qed

lemma new_grid_index_spec:
  assumes "\<forall>p \<in> set ps. p < length h" "new_grid_index ps cs h = (h', g')"
  shows "grid_wf h' g'" "g_cell_size g' = (if cs \<le> 0 then 1 else cs)"
    "dom (map_of (g_riders g')) = {r_uid (h ! p) |p. p \<in> set ps}"
    "ran (map_of (g_riders g')) \<subseteq> set ps" "touches_only (set ps) h h'"
  using add_riders_spec[OF empty_grid_wf(1) assms(1) assms(2)[unfolded new_grid_index_def]]
  by (simp_all split: if_splits)


section \<open>Cell identifiers\<close>

lemma wrap64_push_bit_32: "wrap64 (push_bit 32 a) = push_bit 32 (wrap32 a)"
proof -
  have "(2 ^ 32 * (a + 2 ^ 31)) mod (2 ^ 32 * 2 ^ 32) = 2 ^ 32 * ((a + 2 ^ 31) mod 2 ^ 32)"
    by (rule mod_mult_mult1)
  then show ?thesis by (simp add: wrap64_def wrap32_def push_bit_eq_mult algebra_simps)
qed

lemma cell_id_by_cell_eq: "cell_id_by_cell a b = wrap32 a * 2 ^ 32 + b mod 2 ^ 32"
proof -
  have "cell_id_by_cell a b = concat_bit 32 b (wrap32 a)"
    by (simp add: cell_id_by_cell_def wrap64_push_bit_32 uwrap32_def concat_bit_def take_bit_eq_mod or.commute)
  also have "\<dots> = b mod 2 ^ 32 + wrap32 a * 2 ^ 32"
    by (simp add: concat_bit_eq take_bit_eq_mod push_bit_eq_mult)
  finally show ?thesis by simp
qed

lemma wrap32_mod: "wrap32 b mod 2 ^ 32 = b mod 2 ^ 32"
proof -
  have "wrap32 b mod 2 ^ 32 = ((b + 2 ^ 31) - 2 ^ 31) mod 2 ^ 32"
    unfolding wrap32_def by (rule mod_diff_left_eq)
  then show ?thesis by simp
qed

lemma wrap32_eq_iff: "wrap32 a = wrap32 b \<longleftrightarrow> a mod 2 ^ 32 = b mod 2 ^ 32"
proof
  assume "wrap32 a = wrap32 b"
  then show "a mod 2 ^ 32 = b mod 2 ^ 32" using wrap32_mod by metis
next
  assume "a mod 2 ^ 32 = b mod 2 ^ 32"
  then have "(a + 2 ^ 31) mod 2 ^ 32 = (b + 2 ^ 31) mod 2 ^ 32" by (metis mod_add_cong)
  then show "wrap32 a = wrap32 b" by (simp add: wrap32_def)
qed

lemma cell_id_by_cell_eq_iff:
  "cell_id_by_cell a b = cell_id_by_cell a' b' \<longleftrightarrow> wrap32 a = wrap32 a' \<and> wrap32 b = wrap32 b'"
proof -
  have m: "(k * 2 ^ 32 + r = k' * 2 ^ 32 + r') \<longleftrightarrow> k = k' \<and> r = r'"
    if "0 \<le> r" "r < 2 ^ 32" "0 \<le> r'" "r' < 2 ^ 32" for k k' r r' :: int
  proof
    assume eq: "k * 2 ^ 32 + r = k' * 2 ^ 32 + r'"
    have "(k * 2 ^ 32 + r) div 2 ^ 32 = k" "(k' * 2 ^ 32 + r') div 2 ^ 32 = k'"
      using that by simp_all
    then have "k = k'" using eq by metis
    then show "k = k' \<and> r = r'" using eq by simp
  qed simp
  show ?thesis
    unfolding cell_id_by_cell_eq wrap32_eq_iff[of b b'] by (rule m) simp_all
qed

lemma cell_id_by_cell_inj:
  "in32 a \<Longrightarrow> in32 b \<Longrightarrow> in32 a' \<Longrightarrow> in32 b' \<Longrightarrow>
   cell_id_by_cell a b = cell_id_by_cell a' b' \<longleftrightarrow> a = a' \<and> b = b'"
  by (simp add: cell_id_by_cell_eq_iff)

section \<open>What the search finds\<close>

text \<open>Chebyshev distance between the cell of a point and the cell of a query.\<close>

definition cell_distance :: "grid \<Rightarrow> int \<times> int \<Rightarrow> int \<times> int \<Rightarrow> int" where
  "cell_distance g a b =
     max \<bar>quot64 (fst a) (g_cell_size g) - quot64 (fst b) (g_cell_size g)\<bar>
         \<bar>quot64 (snd a) (g_cell_size g) - quot64 (snd b) (g_cell_size g)\<bar>"

definition cells_fit :: "heap \<Rightarrow> grid \<Rightarrow> int \<Rightarrow> int \<Rightarrow> int \<Rightarrow> bool" where
  "cells_fit h g x y outer \<longleftrightarrow>
     (let cx = quot64 x (g_cell_size g); cy = quot64 y (g_cell_size g)
      in in32 (cx - outer) \<and> in32 (cx + outer) \<and> in32 (cy - outer) \<and> in32 (cy + outer)) \<and>
     (\<forall>u a b. positions h g u = Some (a, b) \<longrightarrow>
        in32 (quot64 a (g_cell_size g)) \<and> in32 (quot64 b (g_cell_size g)))"

lemma concat_filter_product:
  "concat (map (\<lambda>a. concat (map (\<lambda>b. if P a b then [] else [f a b]) bs)) as) =
   map (case_prod f) (filter (\<lambda>(a, b). \<not> P a b) (List.product as bs))"
proof (induction as)
  case (Cons a as)
  have "concat (map (\<lambda>b. if P a b then [] else [f a b]) bs) =
      map (case_prod f) (filter (\<lambda>(a, b). \<not> P a b) (map (Pair a) bs))"
    by (induction bs) auto
  with Cons show ?case by simp
qed simp

definition ring_offsets :: "int \<Rightarrow> int \<Rightarrow> (int \<times> int) list" where
  "ring_offsets inner outer =
     filter (\<lambda>(dx, dy). \<not> max_int (abs_int dx) (abs_int dy) \<le> inner)
       (List.product [- outer..outer] [- outer..outer])"

lemma ring_cells_offsets:
  "ring_cells cx cy inner outer =
   map (\<lambda>(dx, dy). cell_id_by_cell (wrap64 (cx + dx)) (wrap64 (cy + dy))) (ring_offsets inner outer)"
  unfolding ring_cells_def ring_offsets_def by (rule concat_filter_product)

lemma abs_int_eq: "in64 (- v) \<Longrightarrow> abs_int v = \<bar>v\<bar>"
  by (simp add: abs_int_def)

lemma max_int_eq: "max_int a b = max a b"
  by (simp add: max_int_def max_def)

lemma set_ring_offsets:
  assumes "outer < 2 ^ 63"
  shows "set (ring_offsets inner outer) = {(dx, dy). \<bar>dx\<bar> \<le> outer \<and> \<bar>dy\<bar> \<le> outer \<and> inner < max \<bar>dx\<bar> \<bar>dy\<bar>}"
proof -
  have "abs_int d = \<bar>d\<bar>" if "- outer \<le> d" "d \<le> outer" for d
    using that assms by (intro abs_int_eq) (simp add: in64_def)
  then show ?thesis by (auto simp: ring_offsets_def max_int_eq)
qed

lemma distinct_ring_offsets: "distinct (ring_offsets inner outer)"
  by (simp add: ring_offsets_def distinct_product)

text \<open>The riders in the cells of the ring, as pointers, in the order the loops meet them.\<close>

definition ring_riders :: "ranging \<Rightarrow> grid \<Rightarrow> int \<Rightarrow> int \<Rightarrow> int \<Rightarrow> int \<Rightarrow> (int \<times> ptr) list" where
  "ring_riders it g x y inner outer =
     concat (map (\<lambda>cid. it (cell_map g cid))
       (ring_cells (quot64 x (g_cell_size g)) (quot64 y (g_cell_size g)) inner outer))"

lemma ranging_set [simp]: "range_ok it \<Longrightarrow> set (it m) = set m"
  unfolding range_ok_def by (metis set_mset_mset)

lemma ranging_distinct [simp]: "range_ok it \<Longrightarrow> distinct (map fst (it m)) = distinct (map fst m)"
  unfolding range_ok_def by (metis mset_eq_imp_distinct_iff mset_map)

lemma cells_fitD:
  assumes "cells_fit h g x y outer"
  shows "\<bar>d\<bar> \<le> outer \<Longrightarrow> in32 (quot64 x (g_cell_size g) + d)"
    "\<bar>d\<bar> \<le> outer \<Longrightarrow> in32 (quot64 y (g_cell_size g) + d)"
    "positions h g u = Some (a, b) \<Longrightarrow> in32 (quot64 a (g_cell_size g)) \<and> in32 (quot64 b (g_cell_size g))"
    "outer < 2 ^ 63"
  using assms unfolding cells_fit_def in32_def Let_def by (simp_all, linarith+)

text \<open>In range, the ring visits every cell of the ring once.\<close>

lemma ring_cells_ok:
  assumes fit: "cells_fit h g x y outer"
  defines "cx \<equiv> quot64 x (g_cell_size g)" and "cy \<equiv> quot64 y (g_cell_size g)"
  shows "distinct (ring_cells cx cy inner outer)"
    and "set (ring_cells cx cy inner outer) =
      {cell_id_by_cell a b |a b. in32 a \<and> in32 b \<and>
         inner < max \<bar>a - cx\<bar> \<bar>b - cy\<bar> \<and> max \<bar>a - cx\<bar> \<bar>b - cy\<bar> \<le> outer}" (is "_ = ?cells")
proof -
  let ?cell = "\<lambda>(dx, dy). cell_id_by_cell (wrap64 (cx + dx)) (wrap64 (cy + dy))"
  let ?O = "{(dx, dy). \<bar>dx\<bar> \<le> outer \<and> \<bar>dy\<bar> \<le> outer \<and> inner < max \<bar>dx\<bar> \<bar>dy\<bar>}"
  note near = cells_fitD(1,2)[OF fit, folded cx_def cy_def] and O = set_ring_offsets[OF cells_fitD(4)[OF fit]]
  have cell: "?cell (dx, dy) = cell_id_by_cell (cx + dx) (cy + dy)" if "(dx, dy) \<in> ?O" for dx dy
    using that near[of dx] near[of dy] by (simp add: in32_in64)
  have "inj_on ?cell ?O"
  proof (rule inj_onI, clarify)
    fix a b c d
    assume ab: "\<bar>a\<bar> \<le> outer" "\<bar>b\<bar> \<le> outer" "\<bar>c\<bar> \<le> outer" "\<bar>d\<bar> \<le> outer"
      and eq: "cell_id_by_cell (wrap64 (cx + a)) (wrap64 (cy + b)) =
           cell_id_by_cell (wrap64 (cx + c)) (wrap64 (cy + d))"
    have "cell_id_by_cell (cx + a) (cy + b) = cell_id_by_cell (cx + c) (cy + d)"
      using eq near ab by (simp add: in32_in64)
    then show "a = c \<and> b = d" using near ab by (simp add: cell_id_by_cell_inj)
  qed
  then show "distinct (ring_cells cx cy inner outer)"
    unfolding ring_cells_offsets by (simp add: distinct_map distinct_ring_offsets O)
  have "set (ring_cells cx cy inner outer) = ?cell ` ?O"
    unfolding ring_cells_offsets by (simp add: O)
  also have "\<dots> = ?cells"
  proof (intro equalityI subsetI)
    fix c assume "c \<in> ?cell ` ?O"
    then obtain dx dy where d: "(dx, dy) \<in> ?O" and c: "c = cell_id_by_cell (cx + dx) (cy + dy)"
      using cell by auto
    have "in32 (cx + dx)" "in32 (cy + dy)" using near d by auto
    moreover have "inner < max \<bar>(cx + dx) - cx\<bar> \<bar>(cy + dy) - cy\<bar>"
      "max \<bar>(cx + dx) - cx\<bar> \<bar>(cy + dy) - cy\<bar> \<le> outer" using d by simp_all
    ultimately show "c \<in> ?cells" using c by blast
  next
    fix c assume "c \<in> ?cells"
    then obtain a b where c: "c = cell_id_by_cell a b"
      and "inner < max \<bar>a - cx\<bar> \<bar>b - cy\<bar>" "max \<bar>a - cx\<bar> \<bar>b - cy\<bar> \<le> outer" by blast
    then have "(a - cx, b - cy) \<in> ?O" by auto
    then show "c \<in> ?cell ` ?O" using cell[of "a - cx" "b - cy"] c by (intro image_eqI[of _ _ "(a - cx, b - cy)"]) auto
  qed
  finally show "set (ring_cells cx cy inner outer) = ?cells" .
qed

lemma distinct_concat_cells:
  assumes "grid_struct h g" "range_ok it" "distinct cs"
  shows "distinct (map fst (concat (map (\<lambda>c. it (cell_map g c)) cs)))"
  using assms(3)
proof (induction cs)
  case (Cons c cs)
  have "u \<noteq> v" if "(u, p) \<in> set (cell_map g c)" "(v, p') \<in> set (cell_map g c')" "c' \<in> set cs" for u v p p' c'
    using that grid_structD(3,6)[OF assms(1)] Cons.prems by (metis distinct.simps(2) map_of_eq_Some_iff option.inject)
  then have "set (map fst (it (cell_map g c))) \<inter> set (map fst (concat (map (\<lambda>c. it (cell_map g c)) cs))) = {}"
    using assms(2) by fastforce
  then show ?case using Cons assms grid_structD(3)[OF assms(1)] by simp
qed simp

lemma ring_riders_ok:
  assumes g: "grid_wf h g" and it: "range_ok it" and fit: "cells_fit h g x y outer"
  shows "distinct (map fst (ring_riders it g x y inner outer))"
    and "(u, p) \<in> set (ring_riders it g x y inner outer) \<longleftrightarrow>
      map_of (g_riders g) u = Some p \<and> r_online (h ! p) \<and>
      inner < cell_distance g (r_x (h ! p), r_y (h ! p)) (x, y) \<and>
      cell_distance g (r_x (h ! p), r_y (h ! p)) (x, y) \<le> outer"
proof -
  let ?q = "\<lambda>v. quot64 v (g_cell_size g)"
  note s = conjunct1[OF g[unfolded grid_wf_def]] and c = conjunct2[OF g[unfolded grid_wf_def]]
  show "distinct (map fst (ring_riders it g x y inner outer))"
    unfolding ring_riders_def by (rule distinct_concat_cells[OF s it ring_cells_ok(1)[OF fit]])
  have mem: "(u, p) \<in> set (ring_riders it g x y inner outer) \<longleftrightarrow>
      map_of (g_riders g) u = Some p \<and> r_online (h ! p) \<and>
      r_cell_id (h ! p) \<in> set (ring_cells (?q x) (?q y) inner outer)"
  proof -
    have "(u, p) \<in> set (ring_riders it g x y inner outer) \<longleftrightarrow>
        (\<exists>c \<in> set (ring_cells (?q x) (?q y) inner outer). (u, p) \<in> set (cell_map g c))"
      unfolding ring_riders_def using it by simp
    also have "\<dots> \<longleftrightarrow> (\<exists>c \<in> set (ring_cells (?q x) (?q y) inner outer). map_of (cell_map g c) u = Some p)"
      using grid_structD(3)[OF s] by simp
    finally show ?thesis unfolding grid_structD(6)[OF s] by blast
  qed
  show "(u, p) \<in> set (ring_riders it g x y inner outer) \<longleftrightarrow>
      map_of (g_riders g) u = Some p \<and> r_online (h ! p) \<and>
      inner < cell_distance g (r_x (h ! p), r_y (h ! p)) (x, y) \<and>
      cell_distance g (r_x (h ! p), r_y (h ! p)) (x, y) \<le> outer"
  proof (cases "map_of (g_riders g) u = Some p \<and> r_online (h ! p)")
    case True
    let ?a = "?q (r_x (h ! p))" and ?b = "?q (r_y (h ! p))"
    have "positions h g u = Some (r_x (h ! p), r_y (h ! p))" using True by (simp add: positions_def)
    note f = cells_fitD(3)[OF fit this]
    have "r_cell_id (h ! p) = cell_id_by_cell ?a ?b"
      using c True by (auto simp: grid_coherent_def g_cell_id_def)
    then have "r_cell_id (h ! p) \<in> set (ring_cells (?q x) (?q y) inner outer) \<longleftrightarrow>
        inner < max \<bar>?a - ?q x\<bar> \<bar>?b - ?q y\<bar> \<and> max \<bar>?a - ?q x\<bar> \<bar>?b - ?q y\<bar> \<le> outer"
      unfolding ring_cells_ok(2)[OF fit] using f cell_id_by_cell_inj[of ?a ?b] by auto
    then show ?thesis using mem True by (simp add: cell_distance_def)
  qed (use mem in blast)
qed

lemma find_nearby_ring:
  "find_nearby_candidates_in_range it h g x y inner outer =
     (if outer < 0 \<or> outer \<le> inner then []
      else map (\<lambda>(u, p). \<lparr>c_rider = p, c_uid = r_uid (h ! p), c_x = r_x (h ! p), c_y = r_y (h ! p),
                          c_count = r_count (h ! p)\<rparr>) (ring_riders it g x y inner outer))"
  by (simp add: find_nearby_candidates_in_range_def ring_riders_def cell_candidates_def[abs_def] map_concat comp_def)

lemma keep_best_fold:
  "(case foldl (keep_best m h ord) (b, s) ps of (b', s') \<Rightarrow>
      s' \<le> s \<and> (\<forall>p \<in> set ps. s' \<le> score_rider m ord (h ! p)) \<and>
      ((b', s') = (b, s) \<or> (\<exists>p \<in> set ps. b' = Some p \<and> s' = score_rider m ord (h ! p))))"
proof (induction ps arbitrary: b s)
  case (Cons p ps)
  have k: "keep_best m h ord (b, s) p =
      (if score_rider m ord (h ! p) < s then (Some p, score_rider m ord (h ! p)) else (b, s))"
    by (simp add: keep_best_def Let_def)
  show ?case
    using Cons.IH[where b = "Some p" and s = "score_rider m ord (h ! p)"] Cons.IH[where b = b and s = s]
    by (auto simp: k split: prod.splits)
qed simp

lemma best_nearby_ring:
  "best_nearby_rider_in_range it h m ord inner outer =
     (if outer < 0 \<or> outer \<le> inner then None
      else fst (foldl (keep_best m h ord) (None, max_int64)
             (map snd (ring_riders it (m_grid m) (o_x ord) (o_y ord) inner outer))))"
  by (simp add: best_nearby_rider_in_range_def ring_riders_def map_concat comp_def Let_def)

lemma cell_distance_nonneg: "0 \<le> cell_distance g a b"
  by (simp add: cell_distance_def le_max_iff_disj)

section \<open>Properties\<close>

text \<open>
  Property C24. The grid implements a map from rider identifiers to positions. From any grid that
  satisfies the invariant, \<open>AddRider\<close> puts the rider at its coordinates, \<open>MoveRider\<close> moves a rider
  that is on line and ignores any other, \<open>RemoveRider\<close> and \<open>DeleteRider\<close> take it out; no other
  rider's position changes, and the invariant (each online rider in exactly the cell of its
  coordinates, nothing else in any cell) is kept by all four.
\<close>

theorem grid_operations_refine_positions:
  assumes "grid_wf h g" "p < length h"
  shows "(let (h', g') = add_rider p h g
            in grid_wf h' g' \<and> positions h' g' = (positions h g)(r_uid (h ! p) \<mapsto> (r_x (h ! p), r_y (h ! p)))) \<and>
         (let (h', g') = move_rider rd h g
            in grid_wf h' g' \<and> positions h' g' =
                 (if positions h g (r_uid rd) = None then positions h g
                  else (positions h g)(r_uid rd \<mapsto> (r_x rd, r_y rd)))) \<and>
         (let (h', g') = remove_rider rd h g
            in grid_wf h' g' \<and> positions h' g' = (positions h g)(r_uid rd := None)) \<and>
         (let (h', g') = delete_rider rd h g
            in grid_wf h' g' \<and> positions h' g' = (positions h g)(r_uid rd := None))"
  using assms add_rider_spec(1,2)[where h = h and p = p and g = g] move_rider_spec(1,2)[of h g rd]
    remove_rider_spec(1,2)[of h g rd] delete_rider_spec(1,2)[of h g rd]
  by (auto simp: grid_wf_def coherent_except Let_def split: prod.split)

text \<open>
  Property C25. The candidate search is exact: when the cells involved fit in 32 bits, the result
  holds each online rider whose cell lies in the ring (Chebyshev distance above the inner and at
  most the outer radius) once and no other, with its coordinates and match count, whatever order
  Go ranges over the cells' maps in.
\<close>

theorem find_nearby_exact:
  assumes "grid_wf h g" "range_ok it" "cells_fit h g x y outer"
  shows "distinct (map c_uid (find_nearby_candidates_in_range it h g x y inner outer)) \<and>
     (\<lambda>c. (c_uid c, c_x c, c_y c)) ` set (find_nearby_candidates_in_range it h g x y inner outer) =
       {(u, a, b). positions h g u = Some (a, b) \<and>
                   inner < cell_distance g (a, b) (x, y) \<and> cell_distance g (a, b) (x, y) \<le> outer}"
proof (cases "outer < 0 \<or> outer \<le> inner")
  case True
  then have "\<not> (inner < cell_distance g a b \<and> cell_distance g a b \<le> outer)" for a b
    using cell_distance_nonneg[of g a b] by linarith
  then show ?thesis using True by (auto simp: find_nearby_ring)
next
  case False
  note R = ring_riders_ok[OF assms]
  have uid: "r_uid (h ! p) = u" if "(u, p) \<in> set (ring_riders it g x y inner outer)" for u p
    using that R(2) assms(1) grid_structD(5) by (metis grid_wf_def)
  have "map c_uid (find_nearby_candidates_in_range it h g x y inner outer) =
      map fst (ring_riders it g x y inner outer)"
    using False uid by (auto simp: find_nearby_ring)
  moreover have "(\<lambda>c. (c_uid c, c_x c, c_y c)) ` set (find_nearby_candidates_in_range it h g x y inner outer) =
      {(u, a, b). \<exists>p. (u, p) \<in> set (ring_riders it g x y inner outer) \<and> a = r_x (h ! p) \<and> b = r_y (h ! p)}"
    using False uid by (force simp: find_nearby_ring image_iff)
  ultimately show ?thesis
    using R by (auto simp: positions_def split: option.splits if_splits)
qed

text \<open>
  \<open>BestNearbyRiderInRange\<close> returns a rider of the ring whose score no rider of the
  ring beats, and nothing only when no rider of the ring scores below the largest \<open>int64\<close>; in
  particular the score of the answer does not depend on the order of Go's map iteration.
\<close>

theorem best_nearby_rider_minimal:
  assumes "grid_wf h (m_grid m)" "range_ok it" "cells_fit h (m_grid m) (o_x ord) (o_y ord) outer"
  shows "let near = {p. \<exists>u. map_of (g_riders (m_grid m)) u = Some p \<and> r_online (h ! p) \<and>
                        inner < cell_distance (m_grid m) (r_x (h ! p), r_y (h ! p)) (o_x ord, o_y ord) \<and>
                        cell_distance (m_grid m) (r_x (h ! p), r_y (h ! p)) (o_x ord, o_y ord) \<le> outer}
         in case best_nearby_rider_in_range it h m ord inner outer of
              Some b \<Rightarrow> b \<in> near \<and> (\<forall>p \<in> near. score_rider m ord (h ! b) \<le> score_rider m ord (h ! p))
            | None \<Rightarrow> \<forall>p \<in> near. max_int64 \<le> score_rider m ord (h ! p)"
proof (cases "outer < 0 \<or> outer \<le> inner")
  case True
  then have "\<not> (inner < cell_distance (m_grid m) a b \<and> cell_distance (m_grid m) a b \<le> outer)" for a b
    using cell_distance_nonneg[of "m_grid m" a b] by linarith
  then show ?thesis using True by (auto simp: best_nearby_ring Let_def)
next
  case False
  let ?ps = "map snd (ring_riders it (m_grid m) (o_x ord) (o_y ord) inner outer)"
  obtain b s where f: "foldl (keep_best m h ord) (None, max_int64) ?ps = (b, s)" by fastforce
  have best: "best_nearby_rider_in_range it h m ord inner outer = b"
    using False f by (simp add: best_nearby_ring)
  have near: "set ?ps = {p. \<exists>u. map_of (g_riders (m_grid m)) u = Some p \<and> r_online (h ! p) \<and>
                        inner < cell_distance (m_grid m) (r_x (h ! p), r_y (h ! p)) (o_x ord, o_y ord) \<and>
                        cell_distance (m_grid m) (r_x (h ! p), r_y (h ! p)) (o_x ord, o_y ord) \<le> outer}"
    using ring_riders_ok(2)[OF assms] by (force simp: image_iff)
  show ?thesis
    using keep_best_fold[where m = m and h = h and ord = ord and b = None and s = max_int64 and ps = ?ps] unfolding f best near[symmetric] Let_def
    by (auto split: option.split)
qed

section \<open>Witnesses\<close>

definition example_rider :: "int \<Rightarrow> int \<Rightarrow> int \<Rightarrow> rider" where
  "example_rider u x y = \<lparr>r_uid = u, r_x = x, r_y = y, r_online = False, r_cell_id = 0, r_count = 0\<rparr>"

definition example_heap :: heap where
  "example_heap = fst (new_grid_index [0, 1] 10 [example_rider 7 12 25, example_rider 9 31 48])"

definition example_grid :: grid where
  "example_grid = snd (new_grid_index [0, 1] 10 [example_rider 7 12 25, example_rider 9 31 48])"

lemma example_heap_eq:
  "example_heap = [(example_rider 7 12 25)\<lparr>r_online := True, r_cell_id := 4294967298\<rparr>,
                   (example_rider 9 31 48)\<lparr>r_online := True, r_cell_id := 12884901892\<rparr>]"
  by code_simp

lemma example_rider_fields [simp]:
  "r_uid (example_rider u x y) = u" "r_x (example_rider u x y) = x" "r_y (example_rider u x y) = y"
  by (simp_all add: example_rider_def)

lemma length_example_heap: "length example_heap = 2"
  by (simp add: example_heap_eq)

lemma example_grid_fields:
  "g_cell_size example_grid = 10" "g_riders example_grid = [(7, 0), (9, 1)]"
  by code_simp+

lemma example_grid_wf: "grid_wf example_heap example_grid"
  unfolding example_heap_def example_grid_def by (rule new_grid_index_spec(1)) auto

lemma example_positions: "positions example_heap example_grid = [7 \<mapsto> (12, 25), 9 \<mapsto> (31, 48)]"
  by (simp add: positions_def example_grid_fields example_heap_eq example_rider_def fun_eq_iff)

lemma quot64_10: "quot64 12 10 = 1" "quot64 25 10 = 2" "quot64 31 10 = 3" "quot64 48 10 = 4"
  by code_simp+

lemma example_cells_fit: "cells_fit example_heap example_grid 12 25 3"
  by (simp add: cells_fit_def example_positions example_grid_fields quot64_10 in32_def)

theorem grid_operations_refine_positions_witness:
  "positions example_heap example_grid = [7 \<mapsto> (12, 25), 9 \<mapsto> (31, 48)] \<and>
   (let (h', g') = move_rider (example_rider 9 5 6) example_heap example_grid
    in grid_wf h' g' \<and> positions h' g' = [7 \<mapsto> (12, 25), 9 \<mapsto> (5, 6)]) \<and>
   (let (h', g') = delete_rider (example_rider 9 5 6) example_heap example_grid
    in grid_wf h' g' \<and> positions h' g' = [7 \<mapsto> (12, 25)])"
  using grid_operations_refine_positions
    [OF example_grid_wf, of 0 "example_rider 9 5 6", unfolded example_positions]
  by (auto simp: example_positions length_example_heap fun_upd_twist)

theorem find_nearby_exact_witness:
  "(\<lambda>c. (c_uid c, c_x c, c_y c)) ` set (find_nearby_candidates_in_range id example_heap example_grid 12 25 0 3) =
     {(9, 31, 48)}"
  using find_nearby_exact[OF example_grid_wf _ example_cells_fit, of id 0]
  by (auto simp: range_ok_def example_positions cell_distance_def example_grid_fields quot64_10 split: if_splits)

theorem best_nearby_rider_minimal_witness:
  "let m = \<lparr>m_grid = example_grid, m_load_weight = 2\<rparr>; ord = \<lparr>o_id = 1, o_x = 12, o_y = 25\<rparr>
   in best_nearby_rider_in_range rev example_heap m ord (-1) 3 = Some 0 \<and>
      score_rider m ord (example_heap ! 0) \<le> score_rider m ord (example_heap ! 1)"
proof -
  let ?m = "\<lparr>m_grid = example_grid, m_load_weight = 2\<rparr>" and ?o = "\<lparr>o_id = 1, o_x = 12, o_y = 25\<rparr> :: order"
  have b: "best_nearby_rider_in_range rev example_heap ?m ?o (-1) 3 = Some 0"
    by code_simp
  have fit: "cells_fit example_heap (m_grid ?m) (o_x ?o) (o_y ?o) 3" using example_cells_fit by simp
  have wf: "grid_wf example_heap (m_grid ?m)" using example_grid_wf by simp
  have it: "range_ok rev" by (simp add: range_ok_def)
  have n: "map_of (g_riders (m_grid ?m)) 9 = Some 1 \<and> r_online (example_heap ! 1) \<and>
      - 1 < cell_distance (m_grid ?m) (r_x (example_heap ! 1), r_y (example_heap ! 1)) (o_x ?o, o_y ?o) \<and>
      cell_distance (m_grid ?m) (r_x (example_heap ! 1), r_y (example_heap ! 1)) (o_x ?o, o_y ?o) \<le> 3"
    by (simp add: example_grid_fields example_heap_eq cell_distance_def quot64_10)
  show ?thesis
    using best_nearby_rider_minimal[OF wf it fit, of "-1"] n b unfolding Let_def
    by (simp only: option.case) blast
qed

end
