(* ===== verification/MatchIndex.thy ===== *)
theory MatchIndex
  imports Grid Layout "HOL-Library.Product_Lexorder" "HOL-Library.Monad_Syntax"
begin

text \<open>
  The candidate index of the matcher worker (\<open>internal/matching/index.go\<close>): one matcher per
  shard, the riders they share by pointer, and the search for the best riders for an order. Each
  operation works on the heap of riders and the index; \<open>None\<close> is a Go panic (a nil rider, a
  matcher out of range, a division by zero).
\<close>

section \<open>The index\<close>

record candidate =
  cd_rider_id :: int
  cd_score :: int

record index =
  ix_layout :: layout
  ix_matchers :: "matcher list"
  ix_active_shards :: "bool list"
  ix_riders :: "int \<rightharpoonup> ptr"
  ix_rider_shards :: "int \<rightharpoonup> int"
  ix_cell_size :: int
  ix_load_weight :: int

type_synonym istate = "heap \<times> index"

definition empty_matcher :: "int \<Rightarrow> int \<Rightarrow> matcher" where
  "empty_matcher cell_size load_weight = snd (new_matcher [] cell_size load_weight [])"

definition new_index :: "int \<Rightarrow> int \<Rightarrow> int \<Rightarrow> int \<Rightarrow> index" where
  "new_index shard_count cell_size area_size load_weight =
     (let n = (if shard_count \<le> 0 then 1 else shard_count)
      in \<lparr>ix_layout = new_layout area_size cell_size n,
          ix_matchers = replicate (nat n) (empty_matcher cell_size load_weight),
          ix_active_shards = replicate (nat n) False,
          ix_riders = Map.empty, ix_rider_shards = Map.empty,
          ix_cell_size = cell_size, ix_load_weight = load_weight\<rparr>)"

definition valid_shard :: "index \<Rightarrow> int \<Rightarrow> bool" where
  "valid_shard i s \<longleftrightarrow> 0 \<le> s \<and> s < int (length (ix_matchers i))"

text \<open>\<open>i.matchers[shardID]\<close> handed to an operation of the grid.\<close>

definition at_matcher :: "int \<Rightarrow> (heap \<Rightarrow> grid \<Rightarrow> heap \<times> grid) \<Rightarrow> istate \<Rightarrow> istate option" where
  "at_matcher s f st =
     (case st of (h, i) \<Rightarrow>
        if \<not> valid_shard i s then None
        else let m = ix_matchers i ! nat s in
             (case f h (m_grid m) of
                (h', g') \<Rightarrow> Some (h', i\<lparr>ix_matchers := (ix_matchers i)[nat s := m\<lparr>m_grid := g'\<rparr>]\<rparr>)))"

text \<open>The loops that forget the riders of a shard: \<open>delete\<close> during \<open>range\<close> over \<open>riderShards\<close>.\<close>

definition forget_shard :: "int \<Rightarrow> index \<Rightarrow> index" where
  "forget_shard s i =
     i\<lparr>ix_riders := (\<lambda>u. if ix_rider_shards i u = Some s then None else ix_riders i u),
       ix_rider_shards := (\<lambda>u. if ix_rider_shards i u = Some s then None else ix_rider_shards i u)\<rparr>"

fun register_riders :: "heap \<Rightarrow> int \<Rightarrow> ptr list \<Rightarrow> index \<Rightarrow> index" where
  "register_riders h s [] i = i"
| "register_riders h s (p # ps) i =
     register_riders h s ps
       (i\<lparr>ix_riders := (ix_riders i)(r_uid (h ! p) \<mapsto> p),
          ix_rider_shards := (ix_rider_shards i)(r_uid (h ! p) \<mapsto> s)\<rparr>)"

definition replace_shard :: "int \<Rightarrow> ptr list \<Rightarrow> istate \<Rightarrow> istate" where
  "replace_shard s riders st =
     (case st of (h, i) \<Rightarrow>
        if \<not> valid_shard i s then (h, i)
        else let i1 = forget_shard s i in
             (case new_matcher riders (ix_cell_size i1) (ix_load_weight i1) h of
                (h', m) \<Rightarrow>
                  (h', register_riders h' s riders
                         (i1\<lparr>ix_matchers := (ix_matchers i1)[nat s := m],
                             ix_active_shards := (ix_active_shards i1)[nat s := True]\<rparr>))))"

definition remove_shard :: "int \<Rightarrow> istate \<Rightarrow> istate" where
  "remove_shard s st =
     (case st of (h, i) \<Rightarrow>
        if \<not> valid_shard i s then (h, i)
        else (h, forget_shard s
                   (i\<lparr>ix_active_shards := (ix_active_shards i)[nat s := False],
                      ix_matchers := (ix_matchers i)[nat s := empty_matcher (ix_cell_size i) (ix_load_weight i)]\<rparr>)))"

section \<open>Rider events\<close>

definition set_xy :: "ptr \<Rightarrow> int \<Rightarrow> int \<Rightarrow> istate \<Rightarrow> istate" where
  "set_xy p x y st = (case st of (h, i) \<Rightarrow> (h[p := (h ! p)\<lparr>r_x := x, r_y := y\<rparr>], i))"

definition set_rider_shard :: "int \<Rightarrow> int \<Rightarrow> istate \<Rightarrow> istate" where
  "set_rider_shard u s st = (case st of (h, i) \<Rightarrow> (h, i\<lparr>ix_rider_shards := (ix_rider_shards i)(u \<mapsto> s)\<rparr>))"

definition new_rider :: "int \<Rightarrow> rider" where
  "new_rider u = \<lparr>r_uid = u, r_x = 0, r_y = 0, r_online = False, r_cell_id = 0, r_count = 0\<rparr>"

text \<open>\<open>rider := i.riders[uid]; if rider == nil { rider = &Rider{UID: uid}; i.riders[uid] = rider }\<close>\<close>

definition ensure_rider :: "int \<Rightarrow> istate \<Rightarrow> ptr \<times> istate" where
  "ensure_rider u st =
     (case st of (h, i) \<Rightarrow>
        (case ix_riders i u of
           Some p \<Rightarrow> (p, (h, i))
         | None \<Rightarrow> (length h, (h @ [new_rider u], i\<lparr>ix_riders := (ix_riders i)(u \<mapsto> length h)\<rparr>))))"

definition delete_at :: "int \<Rightarrow> ptr \<Rightarrow> istate \<Rightarrow> istate option" where
  "delete_at s p st = at_matcher s (delete_rider (fst st ! p)) st"

definition apply_online :: "rider_event \<Rightarrow> istate \<Rightarrow> istate option" where
  "apply_online ev st =
     (case ensure_rider (re_uid ev) st of (p, st1) \<Rightarrow>
        (let new_s = shard_id (ix_layout (snd st1)) (re_x ev) (re_y ev) in
         do {
           st2 \<leftarrow> (case ix_rider_shards (snd st1) (re_uid ev) of
                    Some old_s \<Rightarrow> if old_s \<noteq> new_s then delete_at old_s p st1 else Some st1
                  | None \<Rightarrow> Some st1);
           st3 \<leftarrow> at_matcher new_s (add_rider p) (set_xy p (re_x ev) (re_y ev) st2);
           Some (set_rider_shard (re_uid ev) new_s st3)
         }))"

definition apply_move :: "rider_event \<Rightarrow> istate \<Rightarrow> istate option" where
  "apply_move ev st =
     (case ix_rider_shards (snd st) (re_uid ev) of
        None \<Rightarrow> Some st
      | Some old_s \<Rightarrow>
          (let new_s = shard_id (ix_layout (snd st)) (re_x ev) (re_y ev) in
           if old_s = new_s
           then at_matcher old_s (move_rider ((new_rider (re_uid ev))\<lparr>r_x := re_x ev, r_y := re_y ev\<rparr>)) st
           else do {
             p \<leftarrow> ix_riders (snd st) (re_uid ev);
             st2 \<leftarrow> delete_at old_s p st;
             st3 \<leftarrow> at_matcher new_s (add_rider p) (set_xy p (re_x ev) (re_y ev) st2);
             Some (set_rider_shard (re_uid ev) new_s st3)
           }))"

definition forget_rider :: "int \<Rightarrow> istate \<Rightarrow> istate" where
  "forget_rider u st =
     (case st of (h, i) \<Rightarrow>
        (h, i\<lparr>ix_riders := (ix_riders i)(u := None), ix_rider_shards := (ix_rider_shards i)(u := None)\<rparr>))"

definition apply_offline :: "rider_event \<Rightarrow> istate \<Rightarrow> istate option" where
  "apply_offline ev st =
     (case ix_rider_shards (snd st) (re_uid ev) of
        None \<Rightarrow> Some st
      | Some s \<Rightarrow> do {
          p \<leftarrow> ix_riders (snd st) (re_uid ev);
          st1 \<leftarrow> delete_at s p st;
          Some (forget_rider (re_uid ev) st1)
        })"

definition apply_rider_event :: "rider_event \<Rightarrow> istate \<Rightarrow> istate option" where
  "apply_rider_event ev st =
     (if re_type ev = RiderOnline then apply_online ev st
      else if re_type ev = RiderMove then apply_move ev st
      else if re_type ev = RiderOffline then apply_offline ev st
      else Some st)"

text \<open>\<open>SetRiderCount\<close> stores the number of orders of a rider.\<close>

definition set_rider_count :: "int \<Rightarrow> int \<Rightarrow> istate \<Rightarrow> istate" where
  "set_rider_count u n st =
     (case st of (h, i) \<Rightarrow>
        (case ix_riders i u of
           None \<Rightarrow> (h, i)
         | Some p \<Rightarrow> (h[p := (h ! p)\<lparr>r_count := n\<rparr>], i)))"

section \<open>The search\<close>

definition active_shard :: "index \<Rightarrow> int \<Rightarrow> bool" where
  "active_shard i s \<longleftrightarrow> valid_shard i s \<and> ix_active_shards i ! nat s"

definition collect :: "ranging \<Rightarrow> istate \<Rightarrow> int list \<Rightarrow> order \<Rightarrow> int \<Rightarrow> int \<Rightarrow> candidate_info list" where
  "collect it st shard_ids ord inner outer =
     (case st of (h, i) \<Rightarrow>
        concat (map (\<lambda>s. if active_shard i s
                         then find_nearby_candidates_in_range it h (m_grid (ix_matchers i ! nat s))
                                (o_x ord) (o_y ord) inner outer
                         else []) shard_ids))"

definition ix_neighbor_shard_ids :: "index \<Rightarrow> int \<Rightarrow> int list" where
  "ix_neighbor_shard_ids i home = filter (\<lambda>s. s \<noteq> home) (neighbor_shard_ids (ix_layout i) home)"

definition other_shard_ids :: "index \<Rightarrow> int \<Rightarrow> int list" where
  "other_shard_ids i home =
     filter (\<lambda>s. s \<noteq> home \<and> s \<notin> set (ix_neighbor_shard_ids i home)) [0..int (length (ix_matchers i)) - 1]"

definition candidate_of :: "order \<Rightarrow> int \<Rightarrow> int \<Rightarrow> candidate_info \<Rightarrow> candidate" where
  "candidate_of ord cell_size load_weight c =
     (let distance = manhattan64 (wrap64 (o_x ord - c_x c)) (wrap64 (o_y ord - c_y c))
      in \<lparr>cd_rider_id = c_uid c,
          cd_score = wrap64 (quot64 distance cell_size + wrap64 (c_count c * load_weight))\<rparr>)"

definition cd_key :: "candidate \<Rightarrow> int \<times> int" where
  "cd_key c = (cd_score c, cd_rider_id c)"

text \<open>
  The scores are divided by the cell size as it was given, so a zero panics as soon as there is an
  item. \<open>sort.Slice\<close> is not stable, but two candidates the comparison does not tell apart are equal.
\<close>

definition best_candidates :: "candidate_info list \<Rightarrow> order \<Rightarrow> int \<Rightarrow> int \<Rightarrow> int \<Rightarrow> candidate list option" where
  "best_candidates items ord cell_size load_weight limit =
     (if cell_size = 0 \<and> items \<noteq> [] then None
      else let result = sort_key cd_key (map (candidate_of ord cell_size load_weight) items)
           in Some (if int (length result) > limit then take (nat limit) result else result))"

text \<open>The loop over the radii 1, 3 and 8 for one group of shards: the first non-empty ring.\<close>

fun first_ring :: "ranging \<Rightarrow> istate \<Rightarrow> int list \<Rightarrow> order \<Rightarrow> int \<Rightarrow> int list \<Rightarrow> candidate_info list" where
  "first_ring it st shard_ids ord inner [] = []"
| "first_ring it st shard_ids ord inner (outer # radii) =
     (let cs = collect it st shard_ids ord inner outer
      in if cs \<noteq> [] then cs else first_ring it st shard_ids ord outer radii)"

fun search_groups :: "ranging \<Rightarrow> istate \<Rightarrow> order \<Rightarrow> int \<Rightarrow> int list list \<Rightarrow> candidate list option" where
  "search_groups it st ord limit [] = Some []"
| "search_groups it st ord limit (g # gs) =
     (let cs = first_ring it st g ord (-1) [1, 3, 8]
      in if cs \<noteq> [] then best_candidates cs ord (ix_cell_size (snd st)) (ix_load_weight (snd st)) limit
         else search_groups it st ord limit gs)"

definition find_candidates :: "ranging \<Rightarrow> istate \<Rightarrow> order \<Rightarrow> int \<Rightarrow> candidate list option" where
  "find_candidates it st ord limit =
     (if limit \<le> 0 then Some []
      else let i = snd st; home = shard_id (ix_layout i) (o_x ord) (o_y ord)
           in search_groups it st ord limit
                [[home], ix_neighbor_shard_ids i home, other_shard_ids i home])"


section \<open>The invariant of the index\<close>

definition shard_grid :: "index \<Rightarrow> int \<Rightarrow> grid" where
  "shard_grid i s = m_grid (ix_matchers i ! nat s)"

definition idx_shape :: "index \<Rightarrow> bool" where
  "idx_shape i \<longleftrightarrow> layout_ok (ix_layout i) \<and> l_shard_count (ix_layout i) = int (length (ix_matchers i)) \<and>
     length (ix_active_shards i) = length (ix_matchers i)"

text \<open>
  A registered rider is live, on line and in one shard, and the grid of that shard, and no other,
  holds it under the same pointer.
\<close>

definition idx_wf :: "istate \<Rightarrow> bool" where
  "idx_wf st \<longleftrightarrow> (case st of (h, i) \<Rightarrow>
     idx_shape i \<and>
     (\<forall>u p. ix_riders i u = Some p \<longrightarrow> p < length h \<and> r_uid (h ! p) = u \<and> r_online (h ! p)) \<and>
     (\<forall>u. ix_riders i u = None \<longleftrightarrow> ix_rider_shards i u = None) \<and>
     (\<forall>u s. ix_rider_shards i u = Some s \<longrightarrow> valid_shard i s) \<and>
     (\<forall>s. valid_shard i s \<longrightarrow> grid_wf h (shard_grid i s) \<and>
        (\<forall>u. map_of (g_riders (shard_grid i s)) u =
               (if ix_rider_shards i u = Some s then ix_riders i u else None))))"

text \<open>
  The same but for rider \<open>u\<close> at pointer \<open>p\<close>, which is being moved into shard \<open>s\<close>: only the
  grid of \<open>s\<close> may still hold it, and its coordinates may be new.
\<close>

definition idx_detached :: "int \<Rightarrow> ptr \<Rightarrow> int \<Rightarrow> istate \<Rightarrow> bool" where
  "idx_detached u p s st \<longleftrightarrow> (case st of (h, i) \<Rightarrow>
     idx_shape i \<and> ix_riders i u = Some p \<and>
     (\<forall>v q. ix_riders i v = Some q \<longrightarrow> q < length h \<and> r_uid (h ! q) = v \<and> (v \<noteq> u \<longrightarrow> r_online (h ! q))) \<and>
     (\<forall>v. v \<noteq> u \<longrightarrow> (ix_riders i v = None \<longleftrightarrow> ix_rider_shards i v = None)) \<and>
     (\<forall>v t. v \<noteq> u \<longrightarrow> ix_rider_shards i v = Some t \<longrightarrow> valid_shard i t) \<and>
     (\<forall>t. valid_shard i t \<longrightarrow> grid_struct h (shard_grid i t) \<and> grid_coherent_except u h (shard_grid i t) \<and>
        (\<forall>v. v \<noteq> u \<longrightarrow> map_of (g_riders (shard_grid i t)) v =
               (if ix_rider_shards i v = Some t then ix_riders i v else None)) \<and>
        (map_of (g_riders (shard_grid i t)) u = None \<or>
         (t = s \<and> map_of (g_riders (shard_grid i t)) u = Some p))))"

text \<open>What the index means: the shard, the coordinates and the number of orders of each rider.\<close>

definition idx_view :: "istate \<Rightarrow> int \<rightharpoonup> int \<times> int \<times> int \<times> int" where
  "idx_view st u = (case st of (h, i) \<Rightarrow>
     (case ix_rider_shards i u of None \<Rightarrow> None
      | Some s \<Rightarrow> (case ix_riders i u of None \<Rightarrow> None
                  | Some p \<Rightarrow> Some (s, r_x (h ! p), r_y (h ! p), r_count (h ! p)))))"

text \<open>The parts of the index an event does not change.\<close>

definition same_config :: "index \<Rightarrow> index \<Rightarrow> bool" where
  "same_config i i' \<longleftrightarrow> ix_layout i' = ix_layout i \<and> ix_active_shards i' = ix_active_shards i \<and>
     length (ix_matchers i') = length (ix_matchers i) \<and> ix_cell_size i' = ix_cell_size i \<and>
     ix_load_weight i' = ix_load_weight i \<and>
     (\<forall>s. valid_shard i s \<longrightarrow> g_cell_size (shard_grid i' s) = g_cell_size (shard_grid i s))"

lemma same_config_refl [simp]: "same_config i i"
  by (simp add: same_config_def)

lemma same_config_trans: "same_config i j \<Longrightarrow> same_config j k \<Longrightarrow> same_config i k"
  by (simp add: same_config_def valid_shard_def)

lemma same_config_valid: "same_config i i' \<Longrightarrow> valid_shard i' s = valid_shard i s"
  by (simp add: same_config_def valid_shard_def)

lemma idx_wfD:
  assumes "idx_wf (h, i)"
  shows "idx_shape i"
    "ix_riders i u = Some p \<Longrightarrow> p < length h" "ix_riders i u = Some p \<Longrightarrow> r_uid (h ! p) = u"
    "ix_riders i u = Some p \<Longrightarrow> r_online (h ! p)"
    "ix_riders i u = None \<longleftrightarrow> ix_rider_shards i u = None"
    "ix_rider_shards i u = Some s \<Longrightarrow> valid_shard i s"
    "valid_shard i s \<Longrightarrow> grid_wf h (shard_grid i s)"
    "valid_shard i s \<Longrightarrow> map_of (g_riders (shard_grid i s)) u =
       (if ix_rider_shards i u = Some s then ix_riders i u else None)"
  using assms by (simp_all add: idx_wf_def)

lemma idx_detachedD:
  assumes "idx_detached u p s (h, i)"
  shows "idx_shape i" "ix_riders i u = Some p"
    "ix_riders i v = Some q \<Longrightarrow> q < length h" "ix_riders i v = Some q \<Longrightarrow> r_uid (h ! q) = v"
    "ix_riders i v = Some q \<Longrightarrow> v \<noteq> u \<Longrightarrow> r_online (h ! q)"
    "v \<noteq> u \<Longrightarrow> ix_riders i v = None \<longleftrightarrow> ix_rider_shards i v = None"
    "v \<noteq> u \<Longrightarrow> ix_rider_shards i v = Some t \<Longrightarrow> valid_shard i t"
    "valid_shard i t \<Longrightarrow> grid_struct h (shard_grid i t)"
    "valid_shard i t \<Longrightarrow> grid_coherent_except u h (shard_grid i t)"
    "valid_shard i t \<Longrightarrow> v \<noteq> u \<Longrightarrow> map_of (g_riders (shard_grid i t)) v =
               (if ix_rider_shards i v = Some t then ix_riders i v else None)"
    "valid_shard i t \<Longrightarrow> map_of (g_riders (shard_grid i t)) u = None \<or>
         (t = s \<and> map_of (g_riders (shard_grid i t)) u = Some p)"
  using assms by (simp_all add: idx_detached_def)

lemma valid_shard_id: "idx_shape i \<Longrightarrow> valid_shard i (shard_id (ix_layout i) x y)"
  using shard_id_range[of "ix_layout i" x y] by (simp add: idx_shape_def valid_shard_def)

lemma at_matcher_eq:
  assumes "valid_shard i s" "f h (shard_grid i s) = (h', g')"
  obtains i' where "at_matcher s f (h, i) = Some (h', i')"
    "ix_riders i' = ix_riders i" "ix_rider_shards i' = ix_rider_shards i"
    "\<And>t. valid_shard i t \<Longrightarrow> shard_grid i' t = (if t = s then g' else shard_grid i t)"
    "g_cell_size g' = g_cell_size (shard_grid i s) \<Longrightarrow> same_config i i'"
    "idx_shape i' = idx_shape i" "\<And>t. valid_shard i' t = valid_shard i t" "ix_layout i' = ix_layout i"
proof
  let ?i = "i\<lparr>ix_matchers := (ix_matchers i)[nat s := (ix_matchers i ! nat s)\<lparr>m_grid := g'\<rparr>]\<rparr>"
  show "at_matcher s f (h, i) = Some (h', ?i)"
    using assms by (simp add: at_matcher_def shard_grid_def Let_def)
  show g: "shard_grid ?i t = (if t = s then g' else shard_grid i t)" if "valid_shard i t" for t
    using assms(1) that by (auto simp: shard_grid_def valid_shard_def nth_list_update)
  show "same_config i ?i" if "g_cell_size g' = g_cell_size (shard_grid i s)"
    using that g by (auto simp: same_config_def)
qed (simp_all add: idx_shape_def valid_shard_def)

lemma coherent_of_except:
  "grid_coherent_except u h g \<Longrightarrow> map_of (g_riders g) u = None \<Longrightarrow> grid_coherent h g"
  unfolding grid_coherent_except_def grid_coherent_def by (metis option.distinct(1))

text \<open>The last two steps of a (re)registration: into the grid of the shard, and into \<open>riderShards\<close>.\<close>

lemma attach_rider:
  assumes d: "idx_detached u p s (h, i)" and s: "valid_shard i s"
  obtains h' i' where "at_matcher s (add_rider p) (h, i) = Some (h', i')"
    "idx_wf (set_rider_shard u s (h', i'))" "same_config i i'"
    "idx_view (set_rider_shard u s (h', i')) = (idx_view (h, i))(u \<mapsto> (s, r_x (h ! p), r_y (h ! p), r_count (h ! p)))"
proof -
  note D = idx_detachedD[OF d]
  have pu: "r_uid (h ! p) = u" "p < length h" using D(2,3,4) by simp_all
  obtain h' g' where 1: "add_rider p h (shard_grid i s) = (h', g')" by fastforce
  note A = add_rider_spec[OF D(8)[OF s] _ pu(2) 1, unfolded pu, OF D(9)[OF s]]
  obtain i' where i': "at_matcher s (add_rider p) (h, i) = Some (h', i')"
    "ix_riders i' = ix_riders i" "ix_rider_shards i' = ix_rider_shards i"
    "\<And>t. valid_shard i t \<Longrightarrow> shard_grid i' t = (if t = s then g' else shard_grid i t)"
    "same_config i i'" "idx_shape i' = idx_shape i" "\<And>t. valid_shard i' t = valid_shard i t"
    using at_matcher_eq[of i s "add_rider p" h h' g', OF s 1] A(3) by metis
  have m: "map_of (g_riders g') = (map_of (g_riders (shard_grid i s)))(u \<mapsto> p)"
    and t: "touches_only {p} h h'"
    using A(4,5) D(11)[OF s] by (auto simp: fun_upd_idem)
  note T = touches_onlyD[OF t]
  have pos: "positions h' g' u = Some (r_x (h ! p), r_y (h ! p))" using A(2) by simp
  then have p': "r_online (h' ! p)" "r_x (h' ! p) = r_x (h ! p)" "r_y (h' ! p) = r_y (h ! p)"
    using m by (auto simp: positions_def split: if_splits)
  have other: "h' ! q = h ! q" if "ix_riders i v = Some q" "v \<noteq> u" for v q
    using T(2)[of q] D(4)[OF that(1)] that(2) pu by auto
  have g: "grid_wf h' (shard_grid i' t)" if t: "valid_shard i t" for t
  proof (cases "t = s")
    case True
    then show ?thesis using A(1) i'(4)[OF s] by simp
  next
    case False
    then have n: "map_of (g_riders (shard_grid i t)) u = None" using D(11)[OF t] by auto
    then have "grid_wf h (shard_grid i t)"
      using D(8,9)[OF t] coherent_of_except by (simp add: grid_wf_def)
    moreover have "h' ! q = h ! q" if "map_of (g_riders (shard_grid i t)) v = Some q" for v q
      using T(2)[of q] grid_structD(5)[OF D(8)[OF t] that] pu that n by (cases "q = p") auto
    ultimately show ?thesis using grid_frame(3) T(1) i'(4)[OF t] False by simp
  qed
  have mm: "map_of (g_riders (shard_grid i' t)) v =
      (if ((ix_rider_shards i)(u \<mapsto> s)) v = Some t then ix_riders i v else None)" if t: "valid_shard i t" for t v
    using i'(4)[OF t] D(2) D(10)[OF t, of v] D(11)[OF t] m by (cases "v = u"; cases "t = s") auto
  let ?i = "i'\<lparr>ix_rider_shards := (ix_rider_shards i')(u \<mapsto> s)\<rparr>"
  have f: "ix_riders ?i = ix_riders i" "ix_rider_shards ?i = (ix_rider_shards i)(u \<mapsto> s)"
    "shard_grid ?i = shard_grid i'" "valid_shard ?i = valid_shard i" "idx_shape ?i = idx_shape i"
    using i'(2,3,6,7) by (simp_all add: shard_grid_def valid_shard_def idx_shape_def fun_eq_iff)
  have r: "q < length h' \<and> r_uid (h' ! q) = v \<and> r_online (h' ! q)" if "ix_riders i v = Some q" for v q
    using that D(2) D(3,4,5)[OF that] T(1,3) p'(1) other[OF that] by (cases "v = u") auto
  have n: "ix_riders i v = None \<longleftrightarrow> ((ix_rider_shards i)(u \<mapsto> s)) v = None" for v
    using D(2) D(6)[of v] by simp
  have vs: "valid_shard i t" if "((ix_rider_shards i)(u \<mapsto> s)) v = Some t" for v t
    using that s D(7)[of v t] by (cases "v = u") auto
  have "idx_wf (h', ?i)"
    unfolding idx_wf_def prod.case f using D(1) r n vs g mm by blast
  then have w: "idx_wf (set_rider_shard u s (h', i'))" by (simp add: set_rider_shard_def)
  have "idx_view (h', ?i) v = ((idx_view (h, i))(u \<mapsto> (s, r_x (h ! p), r_y (h ! p), r_count (h ! p)))) v" for v
    using D(2) p' T(4)[OF pu(2)] other[of v] unfolding idx_view_def prod.case f
    by (cases "v = u") (auto split: option.split)
  then have v: "idx_view (set_rider_shard u s (h', i')) =
      (idx_view (h, i))(u \<mapsto> (s, r_x (h ! p), r_y (h ! p), r_count (h ! p)))"
    by (simp add: set_rider_shard_def fun_eq_iff)
  show ?thesis using that[OF i'(1) w i'(5) v] .
qed

lemma wf_detached:
  assumes w: "idx_wf (h, i)" and p: "ix_riders i u = Some p" and s: "ix_rider_shards i u = Some s"
  shows "idx_detached u p s (h, i)"
  using w p s unfolding idx_wf_def idx_detached_def grid_wf_def
  by (simp add: coherent_except)

lemma detached_set_xy:
  assumes d: "idx_detached u p s (h, i)"
  shows "idx_detached u p s (set_xy p x y (h, i))"
proof -
  note D = idx_detachedD[OF d]
  let ?h = "h[p := (h ! p)\<lparr>r_x := x, r_y := y\<rparr>]"
  have pu: "r_uid (h ! p) = u" "p < length h" using D(2,3,4) by simp_all
  have g: "grid_struct ?h (shard_grid i t) \<and> grid_coherent_except u ?h (shard_grid i t)" if t: "valid_shard i t" for t
  proof
    have e: "r_uid (?h ! q) = r_uid (h ! q)" "r_online (?h ! q) = r_online (h ! q)"
        "r_cell_id (?h ! q) = r_cell_id (h ! q)" for q
      using pu by (cases "q = p"; simp)+
    show "grid_struct ?h (shard_grid i t)"
      using D(8)[OF t] unfolding grid_struct_def length_list_update e .
    have "h[p := (h ! p)\<lparr>r_x := x, r_y := y\<rparr>] ! q = h ! q"
      if "map_of (g_riders (shard_grid i t)) v = Some q" "v \<noteq> u" for v q
      using grid_structD(5)[OF D(8)[OF t] that(1)] that(2) pu by (cases "q = p") auto
    then show "grid_coherent_except u ?h (shard_grid i t)"
      using D(9)[OF t] unfolding grid_coherent_except_def by metis
  qed
  have r: "q < length ?h \<and> r_uid (?h ! q) = v \<and> (v \<noteq> u \<longrightarrow> r_online (?h ! q))" if "ix_riders i v = Some q" for v q
    using D(3,4,5)[OF that] pu by (cases "q = p") auto
  show ?thesis using D g r by (simp add: idx_detached_def set_xy_def)
qed

lemma delete_at_ok:
  assumes w: "idx_wf (h, i)" and p: "ix_riders i u = Some p" and s: "ix_rider_shards i u = Some s"
  obtains h' i' where "delete_at s p (h, i) = Some (h', i')" "idx_detached u p t (h', i')"
    "same_config i i'" "r_count (h' ! p) = r_count (h ! p)"
    "ix_riders i' = ix_riders i" "ix_rider_shards i' = ix_rider_shards i"
    "\<And>v. v \<noteq> u \<Longrightarrow> idx_view (h', i') v = idx_view (h, i) v"
proof -
  note W = idx_wfD[OF w]
  have sv: "valid_shard i s" using W(6) s .
  have pu: "r_uid (h ! p) = u" "p < length h" using W(2,3)[OF p] by simp_all
  have mp: "map_of (g_riders (shard_grid i s)) u = Some p" using W(8)[OF sv, of u] s p by simp
  obtain h' g' where 1: "delete_rider (h ! p) h (shard_grid i s) = (h', g')" by fastforce
  note A = delete_rider_spec[OF W(7)[OF sv] 1, unfolded pu]
  obtain i' where i': "at_matcher s (delete_rider (h ! p)) (h, i) = Some (h', i')"
    "ix_riders i' = ix_riders i" "ix_rider_shards i' = ix_rider_shards i"
    "\<And>t. valid_shard i t \<Longrightarrow> shard_grid i' t = (if t = s then g' else shard_grid i t)"
    "same_config i i'" "idx_shape i' = idx_shape i" "\<And>t. valid_shard i' t = valid_shard i t"
    using at_matcher_eq[of i s "delete_rider (h ! p)" h h' g', OF sv 1] A(3) by metis
  have t: "touches_only {p} h h'" using A(5) mp by (auto elim: touches_only_mono)
  note T = touches_onlyD[OF t]
  have other: "h' ! q = h ! q" if "ix_riders i v = Some q" "v \<noteq> u" for v q
    using T(2)[of q] W(3)[OF that(1)] that(2) pu by auto
  have mm: "map_of (g_riders (shard_grid i' t)) v =
      (if v \<noteq> u \<and> ix_rider_shards i v = Some t then ix_riders i v else None)" if t: "valid_shard i t" for t v
    using i'(4)[OF t] W(8)[OF t, of v] A(4) s by (cases "t = s") auto
  have g: "grid_wf h' (shard_grid i' t)" if t: "valid_shard i t" for t
  proof (cases "t = s")
    case True
    then show ?thesis using A(1) i'(4)[OF sv] by simp
  next
    case False
    have "h' ! q = h ! q" if "map_of (g_riders (shard_grid i t)) v = Some q" for v q
      using that W(8)[OF t, of v] other[of v q] s False
      by (cases "v = u") (auto split: if_splits)
    then show ?thesis using W(7)[OF t] grid_frame(3) T(1) i'(4)[OF t] False by simp
  qed
  have r: "q < length h' \<and> r_uid (h' ! q) = v \<and> (v \<noteq> u \<longrightarrow> r_online (h' ! q))" if "ix_riders i v = Some q" for v q
    using W(2,3,4)[OF that] T(1,3) other[OF that] by simp
  have gg: "grid_struct h' (shard_grid i' t)" "grid_coherent_except u h' (shard_grid i' t)" if "valid_shard i t" for t
    using g[OF that] by (simp_all add: grid_wf_def coherent_except)
  have d: "idx_detached u p t (h', i')"
    unfolding idx_detached_def using W(1,5,6) i'(2,3,6,7) p r gg mm by simp
  have v: "idx_view (h', i') v = idx_view (h, i) v" if "v \<noteq> u" for v
    using i'(2,3) other[OF _ that] by (auto simp: idx_view_def split: option.split)
  show ?thesis
    using that[of h' i'] i'(1,2,3,5) d T(4)[OF pu(2)] v by (simp add: delete_at_def)
qed

lemma ensure_new_rider:
  assumes w: "idx_wf (h, i)" and n: "ix_riders i u = None"
  obtains i' where "ensure_rider u (h, i) = (length h, (h @ [new_rider u], i'))"
    "idx_detached u (length h) s (h @ [new_rider u], i')" "same_config i i'"
    "ix_rider_shards i' = ix_rider_shards i"
    "idx_view (h @ [new_rider u], i') = idx_view (h, i)"
proof -
  let ?i = "i\<lparr>ix_riders := (ix_riders i)(u \<mapsto> length h)\<rparr>" and ?h = "h @ [new_rider u]"
  note W = idx_wfD[OF w]
  have ns: "ix_rider_shards i u = None" using W(5) n by simp
  have sg: "shard_grid ?i = shard_grid i" "valid_shard ?i = valid_shard i" "idx_shape ?i = idx_shape i"
    by (simp_all add: shard_grid_def valid_shard_def idx_shape_def fun_eq_iff)
  have g: "grid_struct ?h (shard_grid i t)" "grid_coherent_except u ?h (shard_grid i t)" if "valid_shard i t" for t
  proof -
    have "?h ! q = h ! q" if "map_of (g_riders (shard_grid i t)) v = Some q" for v q
      using grid_structD(4)[OF _ that] W(7)[OF \<open>valid_shard i t\<close>] by (simp add: grid_wf_def nth_append)
    then have "grid_wf ?h (shard_grid i t)" using grid_frame(3)[OF _ _ W(7)[OF that]] by simp
    then show "grid_struct ?h (shard_grid i t)" "grid_coherent_except u ?h (shard_grid i t)"
      by (simp_all add: grid_wf_def coherent_except)
  qed
  have r: "q < length ?h \<and> r_uid (?h ! q) = v \<and> (v \<noteq> u \<longrightarrow> r_online (?h ! q))"
    if "ix_riders ?i v = Some q" for v q
    using that W(2,3,4)[of v q] by (auto simp: nth_append new_rider_def split: if_splits)
  have m: "map_of (g_riders (shard_grid i t)) u = None" if "valid_shard i t" for t
    using W(8)[OF that, of u] ns by simp
  have d: "idx_detached u (length h) s (?h, ?i)"
    unfolding idx_detached_def prod.case sg using W(1,5,6,8) r g m by simp
  have v: "idx_view (?h, ?i) = idx_view (h, i)"
    using W(2) ns by (auto simp: idx_view_def fun_eq_iff nth_append split: option.split)
  have c: "same_config i ?i" by (simp add: same_config_def sg)
  show ?thesis using that[of ?i] n d v c by (simp add: ensure_rider_def)
qed

lemma set_xy_attach:
  assumes d: "idx_detached u p s (h, i)" and s: "valid_shard i s"
  obtains h' i' where "at_matcher s (add_rider p) (set_xy p x y (h, i)) = Some (h', i')"
    "idx_wf (set_rider_shard u s (h', i'))" "same_config i i'"
    "idx_view (set_rider_shard u s (h', i')) = (idx_view (h, i))(u \<mapsto> (s, x, y, r_count (h ! p)))"
proof -
  let ?h = "h[p := (h ! p)\<lparr>r_x := x, r_y := y\<rparr>]"
  note D = idx_detachedD[OF d]
  have p: "p < length h" "r_uid (h ! p) = u" using D(2,3,4) by simp_all
  have d': "idx_detached u p s (?h, i)" using detached_set_xy[OF d, of x y] by (simp add: set_xy_def)
  obtain h' i' where A: "at_matcher s (add_rider p) (?h, i) = Some (h', i')"
    "idx_wf (set_rider_shard u s (h', i'))" "same_config i i'"
    "idx_view (set_rider_shard u s (h', i')) = (idx_view (?h, i))(u \<mapsto> (s, r_x (?h ! p), r_y (?h ! p), r_count (?h ! p)))"
    using attach_rider[OF d' s] by metis
  have "?h ! q = h ! q" if "ix_riders i v = Some q" "v \<noteq> u" for v q
    using D(4)[OF that(1)] that(2) p by (cases "q = p") auto
  then have "idx_view (?h, i) v = idx_view (h, i) v" if "v \<noteq> u" for v
    using that by (auto simp: idx_view_def split: option.split)
  then have "(idx_view (?h, i))(u \<mapsto> z) = (idx_view (h, i))(u \<mapsto> z)" for z by (simp add: fun_eq_iff)
  then show ?thesis using that[of h' i'] A p by (simp add: set_xy_def)
qed

lemma snd_set_rider_shard [simp]:
  "snd (set_rider_shard u s (h, i)) = i\<lparr>ix_rider_shards := (ix_rider_shards i)(u \<mapsto> s)\<rparr>"
  by (simp add: set_rider_shard_def)

lemma same_config_maps [simp]:
  "same_config i (j\<lparr>ix_rider_shards := r\<rparr>) = same_config i j" "same_config i (j\<lparr>ix_riders := q\<rparr>) = same_config i j"
  by (simp_all add: same_config_def shard_grid_def)

definition view_count :: "(int \<times> int \<times> int \<times> int) option \<Rightarrow> int" where
  "view_count v = (case v of None \<Rightarrow> 0 | Some (s, x, y, n) \<Rightarrow> n)"

lemma apply_online_ok:
  assumes w: "idx_wf (h, i)" and t_def: "t = shard_id (ix_layout i) (re_x ev) (re_y ev)"
  shows "\<exists>st'. apply_online ev (h, i) = Some st' \<and> idx_wf st' \<and> same_config i (snd st') \<and>
     idx_view st' = (idx_view (h, i))(re_uid ev \<mapsto> (t, re_x ev, re_y ev, view_count (idx_view (h, i) (re_uid ev))))"
proof -
  let ?u = "re_uid ev"
  note W = idx_wfD[OF w]
  have t: "valid_shard i t" unfolding t_def by (rule valid_shard_id[OF W(1)])
  show ?thesis
  proof (cases "ix_riders i ?u")
    case None
    obtain i1 where e: "ensure_rider ?u (h, i) = (length h, (h @ [new_rider ?u], i1))"
      "idx_detached ?u (length h) t (h @ [new_rider ?u], i1)" "same_config i i1"
      "ix_rider_shards i1 = ix_rider_shards i" "idx_view (h @ [new_rider ?u], i1) = idx_view (h, i)"
      using ensure_new_rider[OF w None] by metis
    have t1: "valid_shard i1 t" "shard_id (ix_layout i1) (re_x ev) (re_y ev) = t"
      using t e(3) unfolding t_def by (simp_all add: same_config_valid) (simp add: same_config_def)
    obtain h' i' where A: "at_matcher t (add_rider (length h)) (set_xy (length h) (re_x ev) (re_y ev) (h @ [new_rider ?u], i1)) = Some (h', i')"
      "idx_wf (set_rider_shard ?u t (h', i'))" "same_config i1 i'"
      "idx_view (set_rider_shard ?u t (h', i')) =
       (idx_view (h, i))(?u \<mapsto> (t, re_x ev, re_y ev, r_count ((h @ [new_rider ?u]) ! length h)))"
      using set_xy_attach[OF e(2) t1(1)] e(5) by metis
    have n: "ix_rider_shards i ?u = None" using W(5) None by simp
    then have v: "view_count (idx_view (h, i) ?u) = 0" by (simp add: idx_view_def view_count_def)
    have "apply_online ev (h, i) = Some (set_rider_shard ?u t (h', i'))"
      using e(1,4) n A(1) t1(2) by (simp add: apply_online_def Let_def)
    then show ?thesis
      using A(2,4) same_config_trans[OF e(3) A(3)] v by (simp add: new_rider_def)
  next
    case (Some p)
    obtain s where s: "ix_rider_shards i ?u = Some s" using W(5)[of ?u] Some by auto
    have v: "view_count (idx_view (h, i) ?u) = r_count (h ! p)"
      using s Some by (simp add: idx_view_def view_count_def)
    obtain h1 i1 where S: "(if s \<noteq> t then delete_at s p (h, i) else Some (h, i)) = Some (h1, i1)"
      "idx_detached ?u p t (h1, i1)" "same_config i i1" "r_count (h1 ! p) = r_count (h ! p)"
      "\<And>v. v \<noteq> ?u \<Longrightarrow> idx_view (h1, i1) v = idx_view (h, i) v"
    proof (cases "s = t")
      case True
      then show ?thesis using that[of h i] wf_detached[OF w Some] s by simp
    next
      case False
      show ?thesis using delete_at_ok[OF w Some s, of t] that False by (metis (no_types, lifting))
    qed
    have t1: "valid_shard i1 t" using t S(3) by (simp add: same_config_valid)
    obtain h' i' where A: "at_matcher t (add_rider p) (set_xy p (re_x ev) (re_y ev) (h1, i1)) = Some (h', i')"
      "idx_wf (set_rider_shard ?u t (h', i'))" "same_config i1 i'"
      "idx_view (set_rider_shard ?u t (h', i')) =
       (idx_view (h1, i1))(?u \<mapsto> (t, re_x ev, re_y ev, r_count (h1 ! p)))"
      using set_xy_attach[OF S(2) t1] by metis
    have "apply_online ev (h, i) = Some (set_rider_shard ?u t (h', i'))"
      using Some s S(1) A(1) by (simp add: apply_online_def ensure_rider_def Let_def t_def[symmetric])
    moreover have "(idx_view (h1, i1))(?u \<mapsto> z) = (idx_view (h, i))(?u \<mapsto> z)" for z
      using S(5) by (simp add: fun_eq_iff)
    ultimately show ?thesis using A(2,4) same_config_trans[OF S(3) A(3)] v S(4) by simp
  qed
qed

lemma apply_offline_ok:
  assumes w: "idx_wf (h, i)"
  shows "\<exists>st'. apply_offline ev (h, i) = Some st' \<and> idx_wf st' \<and> same_config i (snd st') \<and>
     idx_view st' = (idx_view (h, i))(re_uid ev := None)"
proof -
  let ?u = "re_uid ev"
  note W = idx_wfD[OF w]
  show ?thesis
  proof (cases "ix_rider_shards i ?u")
    case None
    then show ?thesis using w by (auto simp: apply_offline_def idx_view_def fun_eq_iff)
  next
    case (Some s)
    obtain p where p: "ix_riders i ?u = Some p" using W(5)[of ?u] Some by fastforce
    have "\<not> valid_shard i (- 1)" by (simp add: valid_shard_def)
    obtain h1 i1 where S: "delete_at s p (h, i) = Some (h1, i1)" "idx_detached ?u p (- 1) (h1, i1)"
      "same_config i i1" "\<And>v. v \<noteq> ?u \<Longrightarrow> idx_view (h1, i1) v = idx_view (h, i) v"
      using delete_at_ok[OF w p Some, of "- 1"] by metis
    note D = idx_detachedD[OF S(2)]
    let ?i = "i1\<lparr>ix_riders := (ix_riders i1)(?u := None), ix_rider_shards := (ix_rider_shards i1)(?u := None)\<rparr>"
    have f: "shard_grid ?i = shard_grid i1" "valid_shard ?i = valid_shard i1" "idx_shape ?i = idx_shape i1"
      by (simp_all add: shard_grid_def valid_shard_def idx_shape_def fun_eq_iff)
    have nu: "map_of (g_riders (shard_grid i1 t)) ?u = None" if "valid_shard i1 t" for t
      using D(11)[OF that] that by (auto simp: valid_shard_def)
    have g: "grid_wf h1 (shard_grid i1 t)" if "valid_shard i1 t" for t
      using D(8,9)[OF that] nu[OF that] coherent_of_except by (simp add: grid_wf_def)
    have r: "q < length h1 \<and> r_uid (h1 ! q) = v \<and> r_online (h1 ! q)" if "ix_riders ?i v = Some q" for v q
      using that D(3,4,5)[of v q] by (simp split: if_splits)
    have m: "map_of (g_riders (shard_grid i1 t)) v =
        (if ix_rider_shards ?i v = Some t then ix_riders ?i v else None)" if "valid_shard i1 t" for t v
      using nu[OF that] D(10)[OF that, of v] by (cases "v = ?u") auto
    have n: "ix_riders ?i v = None \<longleftrightarrow> ix_rider_shards ?i v = None" for v using D(6)[of v] by simp
    have vs: "valid_shard i1 t" if "ix_rider_shards ?i v = Some t" for v t
      using that D(7)[of v t] by (simp split: if_splits)
    have "idx_wf (h1, ?i)"
      unfolding idx_wf_def prod.case f using D(1) r n vs g m by blast
    moreover have "idx_view (h1, ?i) v = ((idx_view (h, i))(?u := None)) v" for v
      using S(4)[of v] by (cases "v = ?u") (simp_all add: idx_view_def cong: option.case_cong)
    moreover have "apply_offline ev (h, i) = Some (h1, ?i)"
      using Some p S(1) by (simp add: apply_offline_def forget_rider_def)
    ultimately show ?thesis using S(3) by (auto simp: fun_eq_iff)
  qed
qed

lemma apply_move_ok:
  assumes w: "idx_wf (h, i)" and t_def: "t = shard_id (ix_layout i) (re_x ev) (re_y ev)"
  shows "\<exists>st'. apply_move ev (h, i) = Some st' \<and> idx_wf st' \<and> same_config i (snd st') \<and>
     idx_view st' = (if idx_view (h, i) (re_uid ev) = None then idx_view (h, i)
       else (idx_view (h, i))(re_uid ev \<mapsto> (t, re_x ev, re_y ev, view_count (idx_view (h, i) (re_uid ev)))))"
proof -
  let ?u = "re_uid ev"
  note W = idx_wfD[OF w]
  show ?thesis
  proof (cases "ix_rider_shards i ?u")
    case None
    then show ?thesis using w by (auto simp: apply_move_def idx_view_def)
  next
    case (Some s)
    obtain p where p: "ix_riders i ?u = Some p" using W(5)[of ?u] Some by fastforce
    have v: "view_count (idx_view (h, i) ?u) = r_count (h ! p)" "idx_view (h, i) ?u \<noteq> None"
      using Some p by (simp_all add: idx_view_def view_count_def)
    have pu: "p < length h" "r_uid (h ! p) = ?u" using W(2,3)[OF p] by simp_all
    have t: "valid_shard i t" unfolding t_def by (rule valid_shard_id[OF W(1)])
    show ?thesis
    proof (cases "s = t")
      case True
      let ?rd = "(new_rider ?u)\<lparr>r_x := re_x ev, r_y := re_y ev\<rparr>"
      have ru: "r_uid ?rd = ?u" "r_x ?rd = re_x ev" "r_y ?rd = re_y ev" by (simp_all add: new_rider_def)
      obtain h' g' where 1: "move_rider ?rd h (shard_grid i t) = (h', g')" by fastforce
      note A = move_rider_spec[OF W(7)[OF t] 1, unfolded ru]
      obtain i' where i': "at_matcher t (move_rider ?rd) (h, i) = Some (h', i')"
        "ix_riders i' = ix_riders i" "ix_rider_shards i' = ix_rider_shards i"
        "\<And>t'. valid_shard i t' \<Longrightarrow> shard_grid i' t' = (if t' = t then g' else shard_grid i t')"
        "same_config i i'" "idx_shape i' = idx_shape i" "\<And>t'. valid_shard i' t' = valid_shard i t'"
        using at_matcher_eq[of i t "move_rider ?rd" h h' g', OF t 1] A(3) by metis
      have mp: "map_of (g_riders (shard_grid i t)) ?u = Some p" using W(8)[OF t, of ?u] Some True p by simp
      have to: "touches_only {p} h h'" using A(5) mp by (auto elim: touches_only_mono)
      note T = touches_onlyD[OF to]
      have other: "h' ! q = h ! q" if "ix_riders i v = Some q" "v \<noteq> ?u" for v q
        using T(2)[of q] W(3)[OF that(1)] that(2) pu by auto
      have "positions h (shard_grid i t) ?u \<noteq> None" using mp W(4)[OF p] by (simp add: positions_def)
      then have "positions h' g' ?u = Some (re_x ev, re_y ev)" using A(2) by simp
      then have p': "r_online (h' ! p)" "r_x (h' ! p) = re_x ev" "r_y (h' ! p) = re_y ev"
        using mp A(4) by (auto simp: positions_def split: if_splits)
      have g: "grid_wf h' (shard_grid i' t')" if t': "valid_shard i t'" for t'
      proof (cases "t' = t")
        case True
        then show ?thesis using A(1) i'(4)[OF t] by simp
      next
        case False
        have "h' ! q = h ! q" if "map_of (g_riders (shard_grid i t')) v = Some q" for v q
          using that W(8)[OF t', of v] other[of v q] Some \<open>s = t\<close> False
          by (cases "v = ?u") (auto split: if_splits)
        then show ?thesis using W(7)[OF t'] grid_frame(3) T(1) i'(4)[OF t'] False by simp
      qed
      have r: "q < length h' \<and> r_uid (h' ! q) = v \<and> r_online (h' ! q)" if "ix_riders i v = Some q" for v q
        using that W(2,3,4)[OF that] T(1,3) p p'(1) other[OF that] by (cases "v = ?u") auto
      have m: "map_of (g_riders (shard_grid i' t')) v =
          (if ix_rider_shards i v = Some t' then ix_riders i v else None)" if "valid_shard i t'" for t' v
        using i'(4)[OF that] W(8)[OF that, of v] A(4) by (cases "t' = t") auto
      have "idx_wf (h', i')"
        unfolding idx_wf_def prod.case i'(2,3,6,7) using W(1,5,6) r g m by blast
      moreover have "idx_view (h', i') v = ((idx_view (h, i))(?u \<mapsto> (t, re_x ev, re_y ev, r_count (h ! p)))) v" for v
        using i'(2,3) Some True p p' T(4)[OF pu(1)] other[of v]
        by (cases "v = ?u") (auto simp: idx_view_def split: option.split)
      ultimately show ?thesis
        using Some True i'(1,5) v by (simp add: apply_move_def t_def[symmetric] Let_def fun_eq_iff)
    next
      case False
      obtain h1 i1 where S: "delete_at s p (h, i) = Some (h1, i1)" "idx_detached ?u p t (h1, i1)"
        "same_config i i1" "r_count (h1 ! p) = r_count (h ! p)"
        "\<And>v. v \<noteq> ?u \<Longrightarrow> idx_view (h1, i1) v = idx_view (h, i) v"
        using delete_at_ok[OF w p Some, of t] by metis
      have t1: "valid_shard i1 t" using t S(3) by (simp add: same_config_valid)
      obtain h' i' where A: "at_matcher t (add_rider p) (set_xy p (re_x ev) (re_y ev) (h1, i1)) = Some (h', i')"
        "idx_wf (set_rider_shard ?u t (h', i'))" "same_config i1 i'"
        "idx_view (set_rider_shard ?u t (h', i')) =
         (idx_view (h1, i1))(?u \<mapsto> (t, re_x ev, re_y ev, r_count (h1 ! p)))"
        using set_xy_attach[OF S(2) t1] by metis
      have "apply_move ev (h, i) = Some (set_rider_shard ?u t (h', i'))"
        using Some p False S(1) A(1) by (simp add: apply_move_def Let_def t_def[symmetric])
      moreover have "(idx_view (h1, i1))(?u \<mapsto> z) = (idx_view (h, i))(?u \<mapsto> z)" for z
        using S(5) by (simp add: fun_eq_iff)
      ultimately show ?thesis using A(2,4) same_config_trans[OF S(3) A(3)] v S(4) by auto
    qed
  qed
qed

lemma empty_matcher_grid:
  "grid_wf h (m_grid (empty_matcher cs w))" "g_riders (m_grid (empty_matcher cs w)) = []"
  using empty_grid_wf(1)[of "if cs \<le> 0 then 1 else cs" h]
  by (simp_all add: empty_matcher_def new_matcher_def new_grid_index_def)

lemma new_index_wf:
  assumes "shards \<le> 2 ^ 52" "cell \<le> 2 ^ 62" "area \<le> 2 ^ 62"
  shows "idx_wf (h, new_index shards cell area w)"
proof -
  have "l_shard_count (new_layout area cell n) = n" if "0 < n" for n
    using that by (simp add: new_layout_def Let_def)
  then show ?thesis
    using new_layout_ok[of area cell "if shards \<le> 0 then 1 else shards"] assms
    by (auto simp: idx_wf_def new_index_def idx_shape_def valid_shard_def shard_grid_def Let_def
        empty_matcher_grid)
qed

lemma forget_shard_fields [simp]:
  "ix_layout (forget_shard s i) = ix_layout i" "ix_matchers (forget_shard s i) = ix_matchers i"
  "ix_active_shards (forget_shard s i) = ix_active_shards i" "ix_cell_size (forget_shard s i) = ix_cell_size i"
  "ix_load_weight (forget_shard s i) = ix_load_weight i"
  by (simp_all add: forget_shard_def)

lemma remove_shard_ok:
  assumes w: "idx_wf (h, i)" and s: "valid_shard i s"
  shows "idx_wf (remove_shard s (h, i))"
    "idx_view (remove_shard s (h, i)) u =
       (if ix_rider_shards i u = Some s then None else idx_view (h, i) u)"
    "\<not> active_shard (snd (remove_shard s (h, i))) s"
proof -
  note W = idx_wfD[OF w]
  let ?i = "snd (remove_shard s (h, i))"
  have e: "remove_shard s (h, i) = (h, ?i)" using s by (simp add: remove_shard_def)
  have f: "valid_shard ?i = valid_shard i" "idx_shape ?i = idx_shape i"
    "ix_riders ?i = (\<lambda>u. if ix_rider_shards i u = Some s then None else ix_riders i u)"
    "ix_rider_shards ?i = (\<lambda>u. if ix_rider_shards i u = Some s then None else ix_rider_shards i u)"
    using s by (simp_all add: remove_shard_def forget_shard_def valid_shard_def idx_shape_def fun_eq_iff)
  have g: "shard_grid ?i t = (if t = s then m_grid (empty_matcher (ix_cell_size i) (ix_load_weight i)) else shard_grid i t)"
    if "valid_shard i t" for t
    using that s by (auto simp: remove_shard_def shard_grid_def valid_shard_def nth_list_update)
  have "idx_wf (h, ?i)"
    unfolding idx_wf_def prod.case f
    using W by (auto simp: g empty_matcher_grid split: if_splits)
  then show "idx_wf (remove_shard s (h, i))" using e by simp
  have "idx_view (h, ?i) u = (if ix_rider_shards i u = Some s then None else idx_view (h, i) u)"
    unfolding idx_view_def prod.case f by (auto split: option.split)
  then show "idx_view (remove_shard s (h, i)) u =
       (if ix_rider_shards i u = Some s then None else idx_view (h, i) u)" using e by simp
  show "\<not> active_shard ?i s"
    using s W(1) by (auto simp: active_shard_def remove_shard_def idx_shape_def valid_shard_def nat_less_iff)
qed

lemma map_of_rev_distinct: "distinct (map fst xs) \<Longrightarrow> map_of (rev xs) = map_of xs"
proof (induction xs)
  case (Cons x xs)
  then have "map_of (rev xs) (fst x) = None" by (simp add: map_of_eq_None_iff)
  then show ?case using Cons by (cases x) (simp add: map_of_append map_add_def fun_eq_iff split: option.split)
qed simp

lemma map_of_by_uid: "map_of (map (\<lambda>p. (r_uid (h ! p), f p)) ps) u = map_option f (map_of (map (\<lambda>p. (r_uid (h ! p), p)) ps) u)"
  by (induction ps) auto

lemma map_of_rev_by_uid:
  "distinct (map (\<lambda>p. r_uid (h ! p)) ps) \<Longrightarrow>
   map_of (rev (map (\<lambda>p. (r_uid (h ! p), f p)) ps)) = map_of (map (\<lambda>p. (r_uid (h ! p), f p)) ps)"
  by (rule map_of_rev_distinct) (simp add: comp_def)

lemma not_in_dom_by_uid:
  "distinct (map (\<lambda>p. r_uid (h ! p)) (p # ps)) \<Longrightarrow>
   r_uid (h ! p) \<notin> dom (map_of (map (\<lambda>q. (r_uid (h ! q), f q)) ps))"
  by (auto simp: dom_map_of_conv_image_fst)

lemma add_riders_distinct:
  assumes "grid_wf h g" "\<forall>p \<in> set ps. p < length h" "distinct (map (\<lambda>p. r_uid (h ! p)) ps)"
    and "\<forall>p \<in> set ps. map_of (g_riders g) (r_uid (h ! p)) = None" "add_riders ps h g = (h', g')"
  shows "grid_wf h' g' \<and> g_cell_size g' = g_cell_size g \<and> touches_only (set ps) h h' \<and>
     map_of (g_riders g') = map_of (g_riders g) ++ map_of (map (\<lambda>p. (r_uid (h ! p), p)) ps) \<and>
     positions h' g' = positions h g ++ map_of (map (\<lambda>p. (r_uid (h ! p), (r_x (h ! p), r_y (h ! p)))) ps)"
  using assms
proof (induction ps arbitrary: h g)
  case (Cons p ps)
  obtain h1 g1 where 1: "add_rider p h g = (h1, g1)" by fastforce
  have pre: "grid_struct h g" "grid_coherent_except (r_uid (h ! p)) h g" "p < length h"
    and n: "map_of (g_riders g) (r_uid (h ! p)) = None"
    using Cons.prems by (simp_all add: grid_wf_def coherent_except)
  note A = add_rider_spec[OF pre 1, unfolded n option.case]
  note T = touches_onlyD[OF A(5)]
  have same: "h1 ! q = h ! q" if "q \<in> set ps" for q
    using T(2)[of q] that Cons.prems(3) by (metis distinct.simps(2) image_eqI list.simps(9) set_map singletonD)
  have prem: "\<forall>q \<in> set ps. q < length h1" "map (\<lambda>q. r_uid (h1 ! q)) ps = map (\<lambda>q. r_uid (h ! q)) ps"
    "map (\<lambda>q. (r_uid (h1 ! q), q)) ps = map (\<lambda>q. (r_uid (h ! q), q)) ps"
    "map (\<lambda>q. (r_uid (h1 ! q), (r_x (h1 ! q), r_y (h1 ! q)))) ps =
     map (\<lambda>q. (r_uid (h ! q), (r_x (h ! q), r_y (h ! q)))) ps"
    using Cons.prems(2) T(1) same by simp_all
  have d: "distinct (map (\<lambda>q. r_uid (h1 ! q)) ps)" unfolding prem(2) using Cons.prems(3) by simp
  have nn: "\<forall>q \<in> set ps. map_of (g_riders g1) (r_uid (h1 ! q)) = None"
  proof
    fix q assume q: "q \<in> set ps"
    then have "r_uid (h ! q) \<noteq> r_uid (h ! p)" using Cons.prems(3) by (auto simp: image_iff)
    then show "map_of (g_riders g1) (r_uid (h1 ! q)) = None" using A(4) Cons.prems(4) same[OF q] q by simp
  qed
  have e: "add_riders ps h1 g1 = (h', g')" using Cons.prems(5) 1 by simp
  note IH = Cons.IH[OF A(1) prem(1) d nn e, unfolded prem(3,4)]
  note k = not_in_dom_by_uid[OF Cons.prems(3)]
  have "touches_only (set (p # ps)) h h'"
    using touches_only_mono[OF A(5), of "set (p # ps)"] touches_only_mono[of "set ps" h1 h' "set (p # ps)"] IH
      touches_only_trans by (metis (no_types, lifting) empty_subsetI insert_subset list.set_intros(1) set_subset_Cons)
  then show ?case
    using IH A(2,3,4) k[of "\<lambda>q. q"] k[of "\<lambda>q. (r_x (h ! q), r_y (h ! q))"]
    by (auto simp: map_add_def fun_eq_iff dom_def split: option.split)
qed simp

lemma register_riders_maps:
  "ix_riders (register_riders h s ps i) = ix_riders i ++ map_of (rev (map (\<lambda>p. (r_uid (h ! p), p)) ps))"
  "ix_rider_shards (register_riders h s ps i) = ix_rider_shards i ++ map_of (rev (map (\<lambda>p. (r_uid (h ! p), s)) ps))"
  "ix_layout (register_riders h s ps i) = ix_layout i" "ix_matchers (register_riders h s ps i) = ix_matchers i"
  "ix_active_shards (register_riders h s ps i) = ix_active_shards i"
  "ix_cell_size (register_riders h s ps i) = ix_cell_size i"
  "ix_load_weight (register_riders h s ps i) = ix_load_weight i"
  by (induction ps arbitrary: i) (simp_all add: map_of_append map_add_assoc[symmetric] map_add_def fun_eq_iff split: option.split)

text \<open>
  \<open>ReplaceShard\<close> with distinct riders none of which another shard holds: the shard's riders are
  exactly these, on line at their coordinates; the other shards are as before.
\<close>

lemma replace_shard_ok:
  assumes w: "idx_wf (h, i)" and s: "valid_shard i s"
    and ps: "\<forall>p \<in> set ps. p < length h" "distinct (map (\<lambda>p. r_uid (h ! p)) ps)"
    and free: "\<forall>p \<in> set ps. ix_rider_shards i (r_uid (h ! p)) \<in> {None, Some s}"
  shows "idx_wf (replace_shard s ps (h, i))"
    "idx_view (replace_shard s ps (h, i)) =
       (\<lambda>u. if ix_rider_shards i u = Some s then None else idx_view (h, i) u) ++
       map_of (map (\<lambda>p. (r_uid (h ! p), (s, r_x (h ! p), r_y (h ! p), r_count (h ! p)))) ps)"
    "active_shard (snd (replace_shard s ps (h, i))) s"
proof -
  note W = idx_wfD[OF w]
  let ?st = "replace_shard s ps (h, i)"
  let ?i = "snd ?st"
  obtain h' g' where n: "new_grid_index ps (ix_cell_size i) h = (h', g')" by fastforce
  have e: "?st = (h', ?i)" using s n by (simp add: replace_shard_def new_matcher_def Let_def)
  let ?g0 = "\<lparr>g_cell_size = (if ix_cell_size i \<le> 0 then 1 else ix_cell_size i), g_riders = [], g_cells = Map.empty\<rparr>"
  have a: "add_riders ps h ?g0 = (h', g')" using n by (simp add: new_grid_index_def)
  have g0: "grid_wf h ?g0" by (rule empty_grid_wf) simp
  note A = add_riders_distinct[OF g0 ps _ a, simplified, unfolded empty_grid_wf(2), simplified]
  have T: "touches_only (set ps) h h'" and gw: "grid_wf h' g'" using A by simp_all
  note T = touches_onlyD[OF T]
  let ?M = "map_of (map (\<lambda>p. (r_uid (h ! p), p)) ps)"
  let ?S = "\<lambda>u. if ix_rider_shards i u = Some s then None else ix_rider_shards i u"
  let ?R = "\<lambda>u. if ix_rider_shards i u = Some s then None else ix_riders i u"
  have uid: "map (\<lambda>p. (r_uid (h' ! p), p)) ps = map (\<lambda>p. (r_uid (h ! p), p)) ps"
    "map (\<lambda>p. (r_uid (h' ! p), s)) ps = map (\<lambda>p. (r_uid (h ! p), s)) ps"
    using T(3) ps(1) by simp_all
  note rv = map_of_rev_by_uid[OF ps(2)] and vs = map_of_by_uid[of h]
  have mem: "?M u = Some p \<longleftrightarrow> p \<in> set ps \<and> r_uid (h ! p) = u" for u p
    using ps(2) by (auto simp: map_of_eq_Some_iff comp_def)
  have shp: "ix_layout ?i = ix_layout i" "length (ix_matchers ?i) = length (ix_matchers i)"
    "length (ix_active_shards ?i) = length (ix_active_shards i)"
    using s n by (simp_all add: replace_shard_def new_matcher_def Let_def register_riders_maps)
  have "valid_shard ?i = valid_shard i" by (simp add: valid_shard_def shp fun_eq_iff)
  moreover have "idx_shape ?i = idx_shape i" by (simp add: idx_shape_def shp)
  moreover have "ix_riders ?i = ?R ++ ?M" "ix_rider_shards ?i = ?S ++ (\<lambda>u. map_option (\<lambda>p. s) (?M u))"
    using s n vs[of "\<lambda>p. s" ps]
    by (simp_all add: replace_shard_def new_matcher_def Let_def register_riders_maps uid rv)
       (simp_all add: forget_shard_def fun_eq_iff map_add_def)
  ultimately have f: "valid_shard ?i = valid_shard i" "idx_shape ?i = idx_shape i"
    "ix_riders ?i = ?R ++ ?M" "ix_rider_shards ?i = ?S ++ (\<lambda>u. map_option (\<lambda>p. s) (?M u))"
    by blast+
  have g: "shard_grid ?i t = (if t = s then g' else shard_grid i t)" if "valid_shard i t" for t
    using that s n by (auto simp: replace_shard_def new_matcher_def Let_def register_riders_maps
        shard_grid_def valid_shard_def nth_list_update)
  have keep: "h' ! q = h ! q" if "ix_riders i v = Some q" "ix_rider_shards i v \<noteq> Some s" for v q
    using T(2)[of q] free W(3)[OF that(1)] W(5)[of v] that by force
  have on: "r_online (h' ! p) \<and> r_x (h' ! p) = r_x (h ! p) \<and> r_y (h' ! p) = r_y (h ! p)" if "p \<in> set ps" for p
  proof -
    have m: "?M (r_uid (h ! p)) = Some p" using mem that by simp
    then have "positions h' g' (r_uid (h ! p)) = Some (r_x (h ! p), r_y (h ! p))"
      using A vs[of "\<lambda>p. (r_x (h ! p), r_y (h ! p))" ps] by simp
    moreover have "map_of (g_riders g') (r_uid (h ! p)) = Some p" using A m by simp
    ultimately show ?thesis unfolding positions_def by (simp split: if_splits)
  qed
  have gg: "grid_wf h' (shard_grid ?i t)" if t: "valid_shard i t" for t
  proof (cases "t = s")
    case True
    then show ?thesis using gw g[OF t] by simp
  next
    case False
    have "h' ! q = h ! q" if "map_of (g_riders (shard_grid i t)) v = Some q" for v q
      using that W(8)[OF t, of v] keep[of v q] False by (auto split: if_splits)
    then show ?thesis using W(7)[OF t] grid_frame(3) T(1) g[OF t] False by simp
  qed
  have r: "q < length h' \<and> r_uid (h' ! q) = v \<and> r_online (h' ! q)" if "(?R ++ ?M) v = Some q" for v q
    using that mem[of v] on W(2,3,4)[of v q] keep[of v q] T(1,3) ps(1)
    by (auto simp: map_add_Some_iff split: if_splits)
  have nn: "(?R ++ ?M) v = None \<longleftrightarrow> (?S ++ (\<lambda>u. map_option (\<lambda>p. s) (?M u))) v = None" for v
    using W(5)[of v] by (auto simp: map_add_def split: option.split)
  have vv: "valid_shard i t" if "(?S ++ (\<lambda>u. map_option (\<lambda>p. s) (?M u))) v = Some t" for v t
    using that s W(6)[of v t] by (auto simp: map_add_def split: option.splits if_splits)
  have fr: "?M v = None" if "ix_rider_shards i v = Some t" "t \<noteq> s" for v t
    using mem[of v "the (?M v)"] free that by (cases "?M v") auto
  have mm: "map_of (g_riders (shard_grid ?i t)) v =
      (if (?S ++ (\<lambda>u. map_option (\<lambda>p. s) (?M u))) v = Some t then (?R ++ ?M) v else None)" if t: "valid_shard i t" for t v
  proof (cases "t = s")
    case True
    have "map_of (g_riders (shard_grid ?i t)) v = ?M v" using A g[OF t] True by simp
    then show ?thesis using True by (cases "?M v") (simp_all add: map_add_def)
  next
    case False
    have "map_of (g_riders (shard_grid ?i t)) v = (if ix_rider_shards i v = Some t then ix_riders i v else None)"
      using g[OF t] W(8)[OF t, of v] False by simp
    then show ?thesis using False fr[of v t] by (cases "?M v") (auto simp: map_add_def)
  qed
  have "idx_wf (h', ?i)"
    unfolding idx_wf_def prod.case f using W(1) r nn vv gg mm by blast
  then show "idx_wf ?st" using e by simp
  have "idx_view (h', ?i) u = ((\<lambda>u. if ix_rider_shards i u = Some s then None else idx_view (h, i) u) ++
       map_of (map (\<lambda>p. (r_uid (h ! p), (s, r_x (h ! p), r_y (h ! p), r_count (h ! p)))) ps)) u" for u
  proof (cases "?M u")
    case None
    then have "(?R ++ ?M) u = ?R u" "(?S ++ (\<lambda>u. map_option (\<lambda>p. s) (?M u))) u = ?S u"
      by (simp_all add: map_add_def)
    then show ?thesis
      using keep[of u] None unfolding idx_view_def prod.case f map_add_def vs[where f = "\<lambda>p. (s, r_x (h ! p), r_y (h ! p), r_count (h ! p))"]
      by (auto split: option.split)
  next
    case (Some p)
    then have "(?R ++ ?M) u = Some p" "(?S ++ (\<lambda>u. map_option (\<lambda>p. s) (?M u))) u = Some s"
      by (simp_all add: map_add_def)
    moreover have p: "p \<in> set ps" "p < length h" using mem[of u p] Some ps(1) by auto
    ultimately show ?thesis
      using on[OF p(1)] T(4)[OF p(2)] Some
      unfolding idx_view_def prod.case f map_add_def vs[where f = "\<lambda>p. (s, r_x (h ! p), r_y (h ! p), r_count (h ! p))"]
      by simp
  qed
  then show "idx_view ?st = (\<lambda>u. if ix_rider_shards i u = Some s then None else idx_view (h, i) u) ++
       map_of (map (\<lambda>p. (r_uid (h ! p), (s, r_x (h ! p), r_y (h ! p), r_count (h ! p)))) ps)"
    using e by (simp add: fun_eq_iff)
  show "active_shard ?i s"
    using s W(1) f(1) n by (simp add: active_shard_def replace_shard_def new_matcher_def Let_def
        register_riders_maps idx_shape_def valid_shard_def nat_less_iff)
qed

section \<open>What the search returns\<close>

lemma valid_shard_nat: "valid_shard i s \<Longrightarrow> nat s < length (ix_matchers i)"
  by (auto simp: valid_shard_def nat_less_iff)

text \<open>
  The riders a stage of the search may return: those of the active shards of a group whose cell
  lies in the ring around the cell of the order.
\<close>

definition in_stage :: "istate \<Rightarrow> order \<Rightarrow> int list \<Rightarrow> int \<Rightarrow> int \<Rightarrow> int \<Rightarrow> bool" where
  "in_stage st ord gr inner outer u \<longleftrightarrow>
     (\<exists>s x y n. idx_view st u = Some (s, x, y, n) \<and> s \<in> set gr \<and> active_shard (snd st) s \<and>
        inner < cell_distance (shard_grid (snd st) s) (x, y) (o_x ord, o_y ord) \<and>
        cell_distance (shard_grid (snd st) s) (x, y) (o_x ord, o_y ord) \<le> outer)"

definition order_score :: "istate \<Rightarrow> order \<Rightarrow> int \<Rightarrow> int" where
  "order_score st ord u =
     (case idx_view st u of None \<Rightarrow> 0
      | Some (s, x, y, n) \<Rightarrow>
          wrap64 (quot64 (manhattan64 (wrap64 (o_x ord - x)) (wrap64 (o_y ord - y))) (ix_cell_size (snd st)) +
                  wrap64 (n * ix_load_weight (snd st))))"

definition idx_fits :: "istate \<Rightarrow> order \<Rightarrow> bool" where
  "idx_fits st ord \<longleftrightarrow>
     (\<forall>s. valid_shard (snd st) s \<longrightarrow> cells_fit (fst st) (shard_grid (snd st) s) (o_x ord) (o_y ord) 8)"

lemma cells_fit_mono: "cells_fit h g x y outer \<Longrightarrow> 0 \<le> r \<Longrightarrow> r \<le> outer \<Longrightarrow> cells_fit h g x y r"
  by (auto simp: cells_fit_def in32_def Let_def)

lemma idx_view_positions:
  assumes w: "idx_wf (h, i)" and s: "valid_shard i s"
  shows "positions h (shard_grid i s) u = Some (x, y) \<longleftrightarrow> (\<exists>n. idx_view (h, i) u = Some (s, x, y, n))"
  using idx_wfD(8)[OF w s, of u] idx_wfD(4)[OF w, of u]
  by (auto simp: positions_def idx_view_def split: option.splits if_splits)

text \<open>The candidates a grid reports, by rider.\<close>

definition info_of :: "istate \<Rightarrow> candidate_info \<Rightarrow> bool" where
  "info_of st c \<longleftrightarrow> (\<exists>s. idx_view st (c_uid c) = Some (s, c_x c, c_y c, c_count c))"

lemma collect_shard:
  assumes w: "idx_wf (h, i)" and it: "range_ok it" and s: "valid_shard i s"
    and fit: "cells_fit h (shard_grid i s) (o_x ord) (o_y ord) outer"
    and cs_def: "cs = find_nearby_candidates_in_range it h (shard_grid i s) (o_x ord) (o_y ord) inner outer"
  shows "distinct (map c_uid cs)"
    "c_uid ` set cs = {u. \<exists>x y n. idx_view (h, i) u = Some (s, x, y, n) \<and>
        inner < cell_distance (shard_grid i s) (x, y) (o_x ord, o_y ord) \<and>
        cell_distance (shard_grid i s) (x, y) (o_x ord, o_y ord) \<le> outer}"
    "c \<in> set cs \<Longrightarrow> info_of (h, i) c"
proof -
  note R = ring_riders_ok[OF idx_wfD(7)[OF w s] it fit]
  let ?ps = "ring_riders it (shard_grid i s) (o_x ord) (o_y ord) inner outer"
  have v: "idx_view (h, i) u = Some (s, r_x (h ! p), r_y (h ! p), r_count (h ! p)) \<and> r_uid (h ! p) = u"
    if "(u, p) \<in> set ?ps" for u p
    using R(2) that idx_wfD(8)[OF w s, of u] idx_wfD(3)[OF w, of u] by (auto simp: idx_view_def split: if_splits)
  show "info_of (h, i) c" if "c \<in> set cs"
    using that v unfolding cs_def find_nearby_ring info_of_def by (auto split: if_splits)
  have eq: "map c_uid cs = (if outer < 0 \<or> outer \<le> inner then [] else map fst ?ps)"
    using v unfolding cs_def find_nearby_ring by auto
  show "distinct (map c_uid cs)" using eq R(1) by simp
  have "c_uid ` set cs = (if outer < 0 \<or> outer \<le> inner then {} else fst ` set ?ps)"
    using eq by (metis (no_types) list.set_map set_empty)
  also have "\<dots> = {u. \<exists>x y n. idx_view (h, i) u = Some (s, x, y, n) \<and>
        inner < cell_distance (shard_grid i s) (x, y) (o_x ord, o_y ord) \<and>
        cell_distance (shard_grid i s) (x, y) (o_x ord, o_y ord) \<le> outer}" (is "_ = ?S")
  proof (cases "outer < 0 \<or> outer \<le> inner")
    case True
    have "\<not> (inner < d \<and> d \<le> outer)" if "0 \<le> d" for d using True that by linarith
    then show ?thesis using True cell_distance_nonneg by auto
  next
    case False
    have "u \<in> fst ` set ?ps \<longleftrightarrow> u \<in> ?S" for u
    proof
      assume "u \<in> fst ` set ?ps"
      then obtain p where "(u, p) \<in> set ?ps" by auto
      then show "u \<in> ?S" using v R(2) by blast
    next
      assume "u \<in> ?S"
      then obtain x y n where S: "idx_view (h, i) u = Some (s, x, y, n)"
        "inner < cell_distance (shard_grid i s) (x, y) (o_x ord, o_y ord)"
        "cell_distance (shard_grid i s) (x, y) (o_x ord, o_y ord) \<le> outer" by blast
      then obtain p where p: "ix_riders i u = Some p" "ix_rider_shards i u = Some s" "x = r_x (h ! p)" "y = r_y (h ! p)"
        by (auto simp: idx_view_def split: option.splits)
      then have "(u, p) \<in> set ?ps" using S R(2) idx_wfD(8)[OF w s, of u] idx_wfD(4)[OF w p(1)] by simp
      then show "u \<in> fst ` set ?ps" by force
    qed
    then have "fst ` set ?ps = ?S" by (rule set_eqI)
    then show ?thesis using False by simp
  qed
  finally show "c_uid ` set cs = ?S" .
qed

lemma collect_ok:
  assumes w: "idx_wf (h, i)" and it: "range_ok it" and fit: "idx_fits (h, i) ord" and r: "0 \<le> outer" "outer \<le> 8"
    and d: "distinct gr"
  shows "distinct (map c_uid (collect it (h, i) gr ord inner outer))"
    "c_uid ` set (collect it (h, i) gr ord inner outer) = {u. in_stage (h, i) ord gr inner outer u}"
    "c \<in> set (collect it (h, i) gr ord inner outer) \<Longrightarrow> info_of (h, i) c"
proof -
  let ?f = "\<lambda>s. if active_shard i s then find_nearby_candidates_in_range it h (shard_grid i s) (o_x ord) (o_y ord) inner outer else []"
  have c: "collect it (h, i) gs ord inner outer = concat (map ?f gs)" for gs
    unfolding collect_def shard_grid_def prod.case ..
  have F: "distinct (map c_uid (?f s))" "c_uid ` set (?f s) = {u. in_stage (h, i) ord [s] inner outer u}"
    "c \<in> set (?f s) \<Longrightarrow> info_of (h, i) c" for s c
  proof -
    have fs: "cells_fit h (shard_grid i s) (o_x ord) (o_y ord) outer" if "valid_shard i s"
      using fit that r cells_fit_mono[of h "shard_grid i s" "o_x ord" "o_y ord" 8 outer] by (simp add: idx_fits_def)
    note C = collect_shard[where s = s, OF w it _ fs refl]
    show "distinct (map c_uid (?f s))" using C(1) by (simp add: active_shard_def)
    show "c_uid ` set (?f s) = {u. in_stage (h, i) ord [s] inner outer u}"
    proof (cases "active_shard i s")
      case True
      then have "valid_shard i s" by (simp add: active_shard_def)
      from C(2)[OF this this, of inner] show ?thesis using True by (simp add: in_stage_def)
    qed (simp add: in_stage_def)
    show "info_of (h, i) c" if "c \<in> set (?f s)"
      using C(3)[of c inner] that by (simp add: active_shard_def split: if_splits)
  qed
  show "info_of (h, i) c" if "c \<in> set (collect it (h, i) gr ord inner outer)"
    using that F(3) unfolding c by auto
  have U: "c_uid ` set (concat (map ?f gs)) = {u. in_stage (h, i) ord gs inner outer u}" for gs
  proof (induction gs)
    case Nil
    then show ?case by (simp add: in_stage_def)
  next
    case (Cons s gs)
    have "c_uid ` set (concat (map ?f (s # gs))) = c_uid ` set (?f s) \<union> c_uid ` set (concat (map ?f gs))" by (simp add: image_Un)
    also have "\<dots> = {u. in_stage (h, i) ord (s # gs) inner outer u}"
      unfolding Cons F(2) by (auto simp: in_stage_def)
    finally show ?case .
  qed
  show "c_uid ` set (collect it (h, i) gr ord inner outer) = {u. in_stage (h, i) ord gr inner outer u}"
    unfolding c by (rule U)
  show "distinct (map c_uid (collect it (h, i) gr ord inner outer))"
    unfolding c using d
  proof (induction gr)
    case (Cons s gs)
    have "c_uid ` set (?f s) \<inter> c_uid ` set (concat (map ?f gs)) = {}"
      unfolding U F(2) using Cons.prems by (auto simp: in_stage_def)
    then show ?case using Cons F(1)[of s] by simp
  qed simp
qed

lemma ring_of_radii: "0 \<le> (1::int)" "(1::int) \<le> 8" "0 \<le> (3::int)" "(3::int) \<le> 8" "0 \<le> (8::int)" "(8::int) \<le> 8"
  by simp_all

definition mk_candidate :: "int \<times> int \<Rightarrow> candidate" where
  "mk_candidate k = \<lparr>cd_rider_id = snd k, cd_score = fst k\<rparr>"

definition keyed :: "istate \<Rightarrow> order \<Rightarrow> int set \<Rightarrow> (int \<times> int) set" where
  "keyed st ord S = (\<lambda>u. (order_score st ord u, u)) ` S"

lemma sort_key_by_cd_key:
  assumes "distinct (map cd_key xs)"
  shows "sort_key cd_key xs = map mk_candidate (sorted_list_of_set (cd_key ` set xs))"
proof -
  have m: "mset (sort_key cd_key xs) = mset xs" by simp
  have "map cd_key (sort_key cd_key xs) = sorted_list_of_set (cd_key ` set xs)"
  proof (rule sorted_distinct_set_unique)
    show "distinct (map cd_key (sort_key cd_key xs))"
      using assms m by (metis mset_eq_imp_distinct_iff mset_map)
  qed simp_all
  then have "map mk_candidate (map cd_key (sort_key cd_key xs)) = map mk_candidate (sorted_list_of_set (cd_key ` set xs))"
    by simp
  moreover have "map mk_candidate (map cd_key zs) = zs" for zs
    by (induction zs) (simp_all add: mk_candidate_def cd_key_def)
  ultimately show ?thesis by metis
qed

lemma best_candidates_ok:
  assumes "\<And>c. c \<in> set cs \<Longrightarrow> info_of st c" "distinct (map c_uid cs)" "c_uid ` set cs = S"
    and "ix_cell_size (snd st) \<noteq> 0" "0 < limit"
  shows "best_candidates cs ord (ix_cell_size (snd st)) (ix_load_weight (snd st)) limit =
     Some (map mk_candidate (take (nat limit) (sorted_list_of_set (keyed st ord S))))"
proof -
  let ?xs = "map (candidate_of ord (ix_cell_size (snd st)) (ix_load_weight (snd st))) cs"
  have k: "cd_key (candidate_of ord (ix_cell_size (snd st)) (ix_load_weight (snd st)) c) =
      (order_score st ord (c_uid c), c_uid c)" if "c \<in> set cs" for c
    using assms(1)[OF that] by (auto simp: info_of_def candidate_of_def cd_key_def order_score_def Let_def)
  have e: "map cd_key ?xs = map (\<lambda>u. (order_score st ord u, u)) (map c_uid cs)" using k by simp
  have "distinct (map cd_key ?xs)" unfolding e using assms(2) by (simp add: distinct_map inj_on_def)
  moreover have "cd_key ` set ?xs = keyed st ord S"
    using arg_cong[OF e, of set] assms(3) by (simp only: keyed_def set_map)
  ultimately have "sort_key cd_key ?xs = map mk_candidate (sorted_list_of_set (keyed st ord S))"
    using sort_key_by_cd_key by metis
  moreover have "(if int (length r) > limit then take (nat limit) r else r) = take (nat limit) r" for r :: "candidate list"
    by auto
  ultimately show ?thesis using assms(4) by (simp add: best_candidates_def Let_def take_map)
qed

text \<open>The stages of the search in order: home shard, its neighbours, the rest; in each three rings.\<close>

definition stages :: "index \<Rightarrow> order \<Rightarrow> (int list \<times> int \<times> int) list" where
  "stages i ord =
     (let home = shard_id (ix_layout i) (o_x ord) (o_y ord)
      in concat (map (\<lambda>gr. [(gr, -1, 1), (gr, 1, 3), (gr, 3, 8)])
           [[home], ix_neighbor_shard_ids i home, other_shard_ids i home]))"

definition stage_riders :: "istate \<Rightarrow> order \<Rightarrow> (int list \<times> int \<times> int) \<Rightarrow> int set" where
  "stage_riders st ord stg = (case stg of (gr, inner, outer) \<Rightarrow> {u. in_stage st ord gr inner outer u})"

fun first_nonempty :: "'a set list \<Rightarrow> 'a set" where
  "first_nonempty [] = {}"
| "first_nonempty (s # ss) = (if s \<noteq> {} then s else first_nonempty ss)"

definition nearest_riders :: "istate \<Rightarrow> order \<Rightarrow> int set" where
  "nearest_riders st ord = first_nonempty (map (stage_riders st ord) (stages (snd st) ord))"

lemma first_nonempty_append:
  "first_nonempty (xs @ ys) = (if first_nonempty xs \<noteq> {} then first_nonempty xs else first_nonempty ys)"
  by (induction xs) auto

lemma first_ring_ok:
  assumes w: "idx_wf (h, i)" and it: "range_ok it" and fit: "idx_fits (h, i) ord" and d: "distinct gr"
  defines "cs \<equiv> first_ring it (h, i) gr ord (-1) [1, 3, 8]"
    and "S \<equiv> first_nonempty (map (stage_riders (h, i) ord) [(gr, -1, 1), (gr, 1, 3), (gr, 3, 8)])"
  shows "c_uid ` set cs = S" "distinct (map c_uid cs)" "c \<in> set cs \<Longrightarrow> info_of (h, i) c"
proof -
  note C = collect_ok[OF w it fit _ _ d]
  have e: "collect it (h, i) gr ord inner outer = [] \<longleftrightarrow> {u. in_stage (h, i) ord gr inner outer u} = {}"
    if "0 \<le> outer" "outer \<le> 8" for inner outer
    using C(2)[OF that, of inner] by (metis (no_types, lifting) image_is_empty set_empty)
  show "c_uid ` set cs = S"
    unfolding cs_def S_def stage_riders_def using C(2) e by (auto simp: Let_def)
  show "distinct (map c_uid cs)" "c \<in> set cs \<Longrightarrow> info_of (h, i) c"
    unfolding cs_def
    using C(1) C(3)[where inner = "-1" and outer = 1] C(3)[where inner = 1 and outer = 3] C(3)[where inner = 3 and outer = 8]
    by (auto simp: Let_def split: if_splits)
qed

lemma groups_distinct:
  assumes "idx_shape i"
  shows "distinct (ix_neighbor_shard_ids i home)" "distinct (other_shard_ids i home)"
  using neighbor_ids_distinct(1)[of "ix_layout i" home] assms
  by (simp_all add: ix_neighbor_shard_ids_def other_shard_ids_def idx_shape_def)

lemma search_groups_ok:
  assumes w: "idx_wf (h, i)" and it: "range_ok it" and fit: "idx_fits (h, i) ord"
    and cs: "ix_cell_size i \<noteq> 0" and l: "0 < limit" and d: "\<forall>gr \<in> set grs. distinct gr"
  shows "search_groups it (h, i) ord limit grs =
     Some (map mk_candidate (take (nat limit) (sorted_list_of_set (keyed (h, i) ord
       (first_nonempty (map (stage_riders (h, i) ord)
          (concat (map (\<lambda>gr. [(gr, -1, 1), (gr, 1, 3), (gr, 3, 8)]) grs))))))))"
  using d
proof (induction grs)
  case Nil
  then show ?case by (simp add: keyed_def)
next
  case (Cons gr grs)
  let ?cs = "first_ring it (h, i) gr ord (-1) [1, 3, 8]"
  let ?S = "first_nonempty (map (stage_riders (h, i) ord) [(gr, -1, 1), (gr, 1, 3), (gr, 3, 8)])"
  have dg: "distinct gr" using Cons.prems by simp
  note F = first_ring_ok[OF w it fit dg]
  have b: "best_candidates ?cs ord (ix_cell_size i) (ix_load_weight i) limit =
      Some (map mk_candidate (take (nat limit) (sorted_list_of_set (keyed (h, i) ord ?S))))"
    using best_candidates_ok[OF F(3) F(2) F(1), of limit ord] cs l by simp
  have e: "?cs = [] \<longleftrightarrow> ?S = {}" using F(1) by (metis image_is_empty set_empty)
  have s: "first_nonempty (map (stage_riders (h, i) ord)
          (concat (map (\<lambda>gr. [(gr, -1, 1), (gr, 1, 3), (gr, 3, 8)]) (gr # grs)))) =
      (if ?S \<noteq> {} then ?S else first_nonempty (map (stage_riders (h, i) ord)
          (concat (map (\<lambda>gr. [(gr, -1, 1), (gr, 1, 3), (gr, 3, 8)]) grs))))"
    unfolding first_nonempty_append[symmetric] map_append[symmetric] by simp
  have u: "search_groups it (h, i) ord limit (gr # grs) =
      (if ?cs \<noteq> [] then best_candidates ?cs ord (ix_cell_size i) (ix_load_weight i) limit
       else search_groups it (h, i) ord limit grs)" by (simp add: Let_def del: first_ring.simps)
  show ?case
    unfolding u s b e using Cons by simp
qed

lemma find_candidates_ok:
  assumes w: "idx_wf st" and it: "range_ok it" and fit: "idx_fits st ord"
    and cs: "ix_cell_size (snd st) \<noteq> 0" and l: "0 < limit"
  shows "find_candidates it st ord limit =
     Some (map mk_candidate (take (nat limit) (sorted_list_of_set (keyed st ord (nearest_riders st ord)))))"
proof -
  obtain h i where st: "st = (h, i)" by fastforce
  have "idx_shape i" using w unfolding st by (rule idx_wfD)
  note g = groups_distinct[OF this]
  show ?thesis
    using l search_groups_ok[OF w[unfolded st] it fit[unfolded st] _ l,
        of "[[shard_id (ix_layout i) (o_x ord) (o_y ord)],
            ix_neighbor_shard_ids i (shard_id (ix_layout i) (o_x ord) (o_y ord)),
            other_shard_ids i (shard_id (ix_layout i) (o_x ord) (o_y ord))]"] cs g
    unfolding st by (simp add: find_candidates_def nearest_riders_def stages_def Let_def
        del: concat.simps list.map search_groups.simps first_nonempty.simps)
qed

lemma quot64_small: "in64 a \<Longrightarrow> 0 < c \<Longrightarrow> \<bar>quot64 a c\<bar> \<le> \<bar>a\<bar>"
  using quot64_pos[of a c] div_le_self_int[of "\<bar>a\<bar>" c] div_nonneg_int[of "\<bar>a\<bar>" c]
  by (auto simp: abs_mult sgn_if)

text \<open>Coordinates below \<open>2 ^ 30\<close> are enough for the 32-bit cell identifiers.\<close>

lemma idx_fits_small:
  assumes w: "idx_wf st" and o: "\<bar>o_x ord\<bar> < 2 ^ 30" "\<bar>o_y ord\<bar> < 2 ^ 30"
    and v: "\<And>u s x y n. idx_view st u = Some (s, x, y, n) \<Longrightarrow> \<bar>x\<bar> < 2 ^ 30 \<and> \<bar>y\<bar> < 2 ^ 30"
  shows "idx_fits st ord"
proof -
  obtain h i where st: "st = (h, i)" by fastforce
  have q: "in32 (quot64 a c + d)" if "\<bar>a\<bar> < 2 ^ 30" "0 < c" "\<bar>d\<bar> \<le> 8" for a c d :: int
  proof -
    have "- (2 ^ 63) \<le> a" "a < 2 ^ 63" using that by simp_all
    then have "\<bar>quot64 a c\<bar> \<le> \<bar>a\<bar>" using quot64_small[of a c] that(2) by (simp add: in64_def)
    then show ?thesis using that unfolding in32_def abs_le_iff abs_less_iff by (intro conjI; simp; linarith)
  qed
  have "cells_fit h (shard_grid i s) (o_x ord) (o_y ord) 8" if s: "valid_shard i s" for s
  proof -
    have c: "0 < g_cell_size (shard_grid i s)"
      using idx_wfD(7)[OF w[unfolded st] s] grid_structD(1) by (auto simp: grid_wf_def)
    have "in32 (quot64 x (g_cell_size (shard_grid i s))) \<and> in32 (quot64 y (g_cell_size (shard_grid i s)))"
      if p: "positions h (shard_grid i s) u = Some (x, y)" for u x y
      using p v[of u s x y, unfolded st] q[of x _ 0, OF _ c] q[of y _ 0, OF _ c]
      unfolding idx_view_positions[OF w[unfolded st] s] by auto
    then show ?thesis
      unfolding cells_fit_def Let_def
      using q[OF o(1) c, of 8] q[OF o(1) c, of "-8"] q[OF o(2) c, of 8] q[OF o(2) c, of "-8"] by simp
  qed
  then show ?thesis by (simp add: idx_fits_def st)
qed

section \<open>Properties\<close>

text \<open>What a rider event means for the riders of the index, whatever grids they stand in.\<close>

definition view_after :: "layout \<Rightarrow> rider_event \<Rightarrow> (int \<rightharpoonup> int \<times> int \<times> int \<times> int) \<Rightarrow> (int \<rightharpoonup> int \<times> int \<times> int \<times> int)" where
  "view_after l ev v =
     (let u = re_uid ev; placed = v(u \<mapsto> (shard_id l (re_x ev) (re_y ev), re_x ev, re_y ev, view_count (v u)))
      in if re_type ev = RiderOnline then placed
         else if re_type ev = RiderMove then (if v u = None then v else placed)
         else if re_type ev = RiderOffline then v(u := None)
         else v)"

text \<open>
  Property C23. Rider events are applied correctly and never panic: from a consistent index every
  event (of any type number) returns, keeps the index consistent (each rider in exactly the grid of
  its one shard, under one pointer, on line), and has the effect of the abstract event: coming on
  line places the rider in the shard of its coordinates and keeps its order count, a move of a
  known rider does the same, going off line forgets it, anything else changes nothing.
\<close>

theorem apply_rider_event_refines:
  assumes "idx_wf st"
  shows "\<exists>st'. apply_rider_event ev st = Some st' \<and> idx_wf st' \<and> same_config (snd st) (snd st') \<and>
     idx_view st' = view_after (ix_layout (snd st)) ev (idx_view st)"
proof -
  obtain h i where st: "st = (h, i)" by fastforce
  note w = assms[unfolded st]
  show ?thesis
    using apply_online_ok[OF w refl, of ev] apply_move_ok[OF w refl, of ev] apply_offline_ok[OF w, of ev] w
    unfolding st by (auto simp: apply_rider_event_def view_after_def Let_def rider_event_type_defs)
qed

text \<open>
  Property C26. Handing a shard over: after \<open>ReplaceShard\<close> with distinct riders that no other shard
  holds, the shard is active and holds exactly these riders at their coordinates, and the riders of
  the other shards are as before; after \<open>RemoveShard\<close> the shard is inactive and its riders are
  gone. Both keep the index consistent.
\<close>

theorem shard_handover:
  assumes "idx_wf (h, i)" "valid_shard i s" "\<forall>p \<in> set ps. p < length h" "distinct (map (\<lambda>p. r_uid (h ! p)) ps)"
    and "\<forall>p \<in> set ps. ix_rider_shards i (r_uid (h ! p)) \<in> {None, Some s}"
  shows "(let st' = replace_shard s ps (h, i) in idx_wf st' \<and> active_shard (snd st') s \<and>
            idx_view st' = (\<lambda>u. if ix_rider_shards i u = Some s then None else idx_view (h, i) u) ++
              map_of (map (\<lambda>p. (r_uid (h ! p), (s, r_x (h ! p), r_y (h ! p), r_count (h ! p)))) ps)) \<and>
         (let st' = remove_shard s (h, i) in idx_wf st' \<and> \<not> active_shard (snd st') s \<and>
            idx_view st' = (\<lambda>u. if ix_rider_shards i u = Some s then None else idx_view (h, i) u))"
  using replace_shard_ok[OF assms] remove_shard_ok[OF assms(1,2)] by (simp add: Let_def fun_eq_iff)

text \<open>
  Property C22. The search returns exactly the best candidates of the first stage that has any.
  The stages are the home shard, its neighbours and the remaining shards, each with the rings up
  to cell distance 1, 3 and 8; the result lists the first \<open>limit\<close> riders of that stage by score
  and then identifier, each once, and does not depend on the order of Go's map iteration.
\<close>

theorem find_candidates_exact:
  assumes "idx_wf st" "range_ok it" "idx_fits st ord" "ix_cell_size (snd st) \<noteq> 0" "0 < limit"
  shows "find_candidates it st ord limit =
     Some (map mk_candidate (take (nat limit) (sorted_list_of_set (keyed st ord (nearest_riders st ord)))))"
  using assms by (rule find_candidates_ok)

section \<open>Witnesses\<close>

definition example_riders :: heap where
  "example_riders = [example_rider 1 12 12, example_rider 2 31 12, example_rider 3 72 12]"

definition example_empty :: istate where
  "example_empty = (example_riders, new_index 4 10 100 1000)"

definition example_index :: istate where
  "example_index = replace_shard 0 [0, 1] example_empty"

lemma example_empty_ok:
  "idx_wf (example_riders, new_index 4 10 100 1000)" "valid_shard (new_index 4 10 100 1000) 0"
  "ix_rider_shards (new_index 4 10 100 1000) = Map.empty"
  "idx_view (example_riders, new_index 4 10 100 1000) = Map.empty"
proof -
  show "idx_wf (example_riders, new_index 4 10 100 1000)" by (rule new_index_wf) simp_all
qed (simp_all add: valid_shard_def new_index_def Let_def idx_view_def fun_eq_iff)

lemma example_riders_nth [simp]:
  "length example_riders = 3" "example_riders ! 0 = example_rider 1 12 12"
  "example_riders ! Suc 0 = example_rider 2 31 12" "r_count (example_rider u x y) = 0"
  by (simp_all add: example_riders_def example_rider_def)

lemma example_riders_distinct: "distinct (map (\<lambda>p. r_uid (example_riders ! p)) [0, 1])"
  by simp

lemma example_index_ok:
  "idx_wf example_index" "idx_view example_index = [1 \<mapsto> (0, 12, 12, 0), 2 \<mapsto> (0, 31, 12, 0)]"
  using replace_shard_ok(1,2)[OF example_empty_ok(1,2) _ example_riders_distinct]
  by (simp_all add: example_index_def example_empty_def example_empty_ok(3,4) map_add_def fun_eq_iff)

lemma example_index_fields: "ix_cell_size (snd example_index) = 10" "ix_layout (snd example_index) =
    \<lparr>l_area_size = 100, l_cell_size = 10, l_shard_count = 4, l_shard_cols = 2, l_shard_rows = 2,
     l_cells_per_axis = 10, l_cells_per_shard_x = 5, l_cells_per_shard_y = 5\<rparr>"
proof -
  have "ceil_sqrt 4 = 2" by (rule ceil_sqrt_unique) simp_all
  then have "go_sqrt_ceil 4 = 2" by (simp add: go_sqrt_ceil_exact)
  then show "ix_cell_size (snd example_index) = 10" "ix_layout (snd example_index) =
    \<lparr>l_area_size = 100, l_cell_size = 10, l_shard_count = 4, l_shard_cols = 2, l_shard_rows = 2,
     l_cells_per_axis = 10, l_cells_per_shard_x = 5, l_cells_per_shard_y = 5\<rparr>"
    by (simp_all add: example_index_def example_empty_def replace_shard_def example_empty_ok(2) Let_def
        register_riders_maps new_index_def new_layout_def quot64_nonneg in64_def split: prod.split)
qed

lemma example_shard_id:
  "0 \<le> x \<Longrightarrow> x < 100 \<Longrightarrow> 0 \<le> y \<Longrightarrow> y < 100 \<Longrightarrow>
   shard_id (ix_layout (snd example_index)) x y = 2 * (y div 50) + x div 50"
proof -
  assume a: "0 \<le> x" "x < 100" "0 \<le> y" "y < 100"
  have q: "quot64 x 10 = x div 10" "quot64 y 10 = y div 10" using a by (simp_all add: quot64_nonneg)
  have b: "x div 10 \<le> 9" "y div 10 \<le> 9" "0 \<le> x div 10" "0 \<le> y div 10" using a by simp_all
  have q5: "quot64 (x div 10) 5 = x div 50" "quot64 (y div 10) 5 = y div 50"
    using b by (simp_all add: quot64_nonneg zdiv_zmult2_eq[symmetric])
  have c: "x div 50 \<le> 1" "y div 50 \<le> 1" "0 \<le> x div 50" "0 \<le> y div 50" using a by simp_all
  have "in64 (y div 50 * 2)" "in64 (y div 50 * 2 + x div 50)" using c by (simp_all add: in64_def)
  then show ?thesis
    using b c by (simp add: example_index_fields(2) shard_id_def Let_def q q5 clamp_int_id in64_def)
qed

theorem apply_rider_event_refines_witness:
  "\<exists>st'. apply_rider_event \<lparr>re_type = RiderMove, re_uid = 2, re_x = 80, re_y = 60\<rparr> example_index = Some st' \<and>
     idx_wf st' \<and> idx_view st' = [1 \<mapsto> (0, 12, 12, 0), 2 \<mapsto> (3, 80, 60, 0)]"
  using apply_rider_event_refines[OF example_index_ok(1), of "\<lparr>re_type = RiderMove, re_uid = 2, re_x = 80, re_y = 60\<rparr>"]
  by (auto simp: view_after_def Let_def rider_event_type_defs example_index_ok(2) example_shard_id view_count_def)

theorem shard_handover_witness:
  "idx_wf (replace_shard 0 [0, 1] example_empty) \<and>
   idx_view (replace_shard 0 [0, 1] example_empty) = [1 \<mapsto> (0, 12, 12, 0), 2 \<mapsto> (0, 31, 12, 0)]"
  using shard_handover[OF example_empty_ok(1,2) _ example_riders_distinct]
  by (simp add: example_empty_def example_empty_ok(3,4) Let_def map_add_def fun_eq_iff)

theorem find_candidates_exact_witness:
  "find_candidates rev example_index \<lparr>o_id = 5, o_x = 20, o_y = 10\<rparr> 3 =
     Some (map mk_candidate (take 3 (sorted_list_of_set
       (keyed example_index \<lparr>o_id = 5, o_x = 20, o_y = 10\<rparr> (nearest_riders example_index \<lparr>o_id = 5, o_x = 20, o_y = 10\<rparr>)))))"
proof -
  have "idx_fits example_index \<lparr>o_id = 5, o_x = 20, o_y = 10\<rparr>"
    by (rule idx_fits_small[OF example_index_ok(1)]) (auto simp: example_index_ok(2) split: if_splits)
  then show ?thesis
    using find_candidates_exact[OF example_index_ok(1), of rev "\<lparr>o_id = 5, o_x = 20, o_y = 10\<rparr>" 3]
    by (simp add: range_ok_def example_index_fields(1))
qed

end
