(* ===== verification/HashRing.thy ===== *)
theory HashRing
  imports Model
begin

text \<open>
  The consistent-hash ring of \<open>internal/tools/consistenthash.go\<close> with its default hash function
  (\<open>crc32.ChecksumIEEE\<close>), and the two places that choose a node for a shard with it:
  \<open>TargetNodeID\<close> of \<open>internal/cluster/rebalance\<close> and \<open>chooseFailoverTarget\<close> of
  \<open>internal/cluster/failover\<close>.
\<close>

section \<open>CRC-32\<close>

text \<open>One bit, one byte, then the whole string, with the reflected IEEE polynomial.\<close>

definition crc32_bit :: "int \<Rightarrow> int" where
  "crc32_bit c = (if odd c then (c div 2) XOR 3988292384 else c div 2)"

definition crc32_byte :: "int \<Rightarrow> char \<Rightarrow> int" where
  "crc32_byte c b = (crc32_bit ^^ 8) (c XOR of_char b)"

definition crc32_ieee :: "string \<Rightarrow> int" where
  "crc32_ieee s = foldl crc32_byte 4294967295 s XOR 4294967295"

lemma crc32_check: "crc32_ieee ''123456789'' = 3421780262"
  by code_simp

section \<open>The ring\<close>

record hash_ring =
  hr_hash :: "string \<Rightarrow> int"
  hr_replicas :: int
  hr_keys :: "int list"
  hr_hash_map :: "int \<rightharpoonup> string"

definition new_consistent_hash :: "int \<Rightarrow> (string \<Rightarrow> int) option \<Rightarrow> hash_ring" where
  "new_consistent_hash replicas fn =
     \<lparr>hr_hash = (case fn of None \<Rightarrow> crc32_ieee | Some f \<Rightarrow> f), hr_replicas = replicas,
      hr_keys = [], hr_hash_map = Map.empty\<rparr>"

definition replica_hash :: "hash_ring \<Rightarrow> string \<Rightarrow> int \<Rightarrow> int" where
  "replica_hash m key i = hr_hash m (itoa i @ key)"

definition add_point :: "string \<Rightarrow> hash_ring \<Rightarrow> int \<Rightarrow> hash_ring" where
  "add_point key m i =
     m\<lparr>hr_keys := hr_keys m @ [replica_hash m key i],
       hr_hash_map := (hr_hash_map m)(replica_hash m key i \<mapsto> key)\<rparr>"

definition ring_add_key :: "hash_ring \<Rightarrow> string \<Rightarrow> hash_ring" where
  "ring_add_key m key = foldl (add_point key) m [0..hr_replicas m - 1]"

definition ring_add :: "string list \<Rightarrow> hash_ring \<Rightarrow> hash_ring" where
  "ring_add keys m = (let m' = foldl ring_add_key m keys in m'\<lparr>hr_keys := sort (hr_keys m')\<rparr>)"

text \<open>\<open>sort.Search\<close> and \<open>sort.SearchInts\<close> on an ascending slice: the first index at or above.\<close>

definition search_ints :: "int list \<Rightarrow> int \<Rightarrow> nat" where
  "search_ints keys h = length (takeWhile (\<lambda>k. k < h) keys)"

definition remove_point :: "string \<Rightarrow> hash_ring \<Rightarrow> int \<Rightarrow> hash_ring" where
  "remove_point key m i =
     (let h = replica_hash m key i; idx = search_ints (hr_keys m) h
      in if idx < length (hr_keys m) \<and> hr_keys m ! idx = h
         then m\<lparr>hr_keys := take idx (hr_keys m) @ drop (Suc idx) (hr_keys m),
                hr_hash_map := (hr_hash_map m)(h := None)\<rparr>
         else m)"

definition ring_remove :: "string list \<Rightarrow> hash_ring \<Rightarrow> hash_ring" where
  "ring_remove keys m = foldl (\<lambda>m key. foldl (remove_point key) m [0..hr_replicas m - 1]) m keys"

text \<open>An absent map entry reads as the empty string.\<close>

definition ring_get :: "hash_ring \<Rightarrow> string \<Rightarrow> string" where
  "ring_get m key =
     (if hr_keys m = [] then []
      else let idx = search_ints (hr_keys m) (hr_hash m key)
           in case hr_hash_map m (hr_keys m ! (idx mod length (hr_keys m))) of None \<Rightarrow> [] | Some k \<Rightarrow> k)"

section \<open>Choosing the node of a shard\<close>

definition failoverHashReplicas :: int where "failoverHashReplicas = 32"
definition defaultHashReplicas :: int where "defaultHashReplicas = 32"

definition choose_failover_target :: "int list \<Rightarrow> int \<Rightarrow> go_error + int" where
  "choose_failover_target alive_nodes shard =
     (if alive_nodes = [] then Inl (ErrMsg ''alive nodes must not be empty'' [])
      else let ring = foldl (\<lambda>m n. ring_add [itoa n] m) (new_consistent_hash failoverHashReplicas None) alive_nodes;
               target_text = ring_get ring (itoa shard)
           in case atoi target_text of
                Inl e \<Rightarrow> Inl (ErrWrap ''parse target node id %q: %w'' e)
              | Inr n \<Rightarrow> Inr n)"

text \<open>The validating loop over the nodes: what it has seen and the ring it builds.\<close>

fun build_ring :: "int list \<Rightarrow> int set \<Rightarrow> hash_ring \<Rightarrow> go_error + hash_ring" where
  "build_ring [] seen m = Inr m"
| "build_ring (n # ns) seen m =
     (if n \<le> 0 then Inl (ErrMsg ''node id must be > 0: %d'' [FInt n])
      else if n \<in> seen then Inl (ErrMsg ''duplicate node id: %d'' [FInt n])
      else build_ring ns (insert n seen) (ring_add [itoa n] m))"

definition target_node_id :: "int list \<Rightarrow> int \<Rightarrow> go_error + int" where
  "target_node_id nodes shard =
     (if nodes = [] then Inl (ErrMsg ''node ids must not be empty'' [])
      else if shard < 0 then Inl (ErrMsg ''shard id must be >= 0: %d'' [FInt shard])
      else case build_ring nodes {} (new_consistent_hash defaultHashReplicas None) of
             Inl e \<Rightarrow> Inl e
           | Inr ring \<Rightarrow>
               (case atoi (ring_get ring (itoa shard)) of
                  Inl e \<Rightarrow> Inl (ErrWrap ''parse target node : %w'' e)
                | Inr n \<Rightarrow> Inr n))"

section \<open>The ring invariant\<close>

text \<open>The keys ascend and every key has an owner among the nodes added.\<close>

definition ring_wf :: "string set \<Rightarrow> hash_ring \<Rightarrow> bool" where
  "ring_wf ks m \<longleftrightarrow> sorted (hr_keys m) \<and> set (hr_keys m) = dom (hr_hash_map m) \<and> ran (hr_hash_map m) \<subseteq> ks"

text \<open>Between sorts the keys are in any order.\<close>

definition ring_wf' :: "string set \<Rightarrow> hash_ring \<Rightarrow> bool" where
  "ring_wf' ks m \<longleftrightarrow> set (hr_keys m) = dom (hr_hash_map m) \<and> ran (hr_hash_map m) \<subseteq> ks"

lemma replica_hash_cong: "hr_hash m = hr_hash m' \<Longrightarrow> replica_hash m = replica_hash m'"
  by (simp add: replica_hash_def fun_eq_iff)

lemma add_points_fields:
  "hr_hash (foldl (add_point key) m is) = hr_hash m \<and>
   hr_replicas (foldl (add_point key) m is) = hr_replicas m \<and>
   hr_keys (foldl (add_point key) m is) = hr_keys m @ map (replica_hash m key) is \<and>
   hr_hash_map (foldl (add_point key) m is) =
     (\<lambda>h. if h \<in> replica_hash m key ` set is then Some key else hr_hash_map m h)"
proof (induction "is" arbitrary: m)
  case (Cons i "is")
  have "replica_hash (add_point key m i) = replica_hash m"
    by (rule replica_hash_cong) (simp add: add_point_def)
  then show ?case using Cons[of "add_point key m i"] by (auto simp: add_point_def fun_eq_iff)
qed simp

definition key_points :: "hash_ring \<Rightarrow> string \<Rightarrow> int set" where
  "key_points m key = replica_hash m key ` {0..<hr_replicas m}"

lemma ring_add_one_fields:
  "hr_hash (ring_add [key] m) = hr_hash m" "hr_replicas (ring_add [key] m) = hr_replicas m"
  "sorted (hr_keys (ring_add [key] m))"
  "set (hr_keys (ring_add [key] m)) = set (hr_keys m) \<union> key_points m key"
  "hr_hash_map (ring_add [key] m) h = (if h \<in> key_points m key then Some key else hr_hash_map m h)"
proof -
  have s: "set [0..hr_replicas m - 1] = {0..<hr_replicas m}" by auto
  show "hr_hash (ring_add [key] m) = hr_hash m" "hr_replicas (ring_add [key] m) = hr_replicas m"
    "sorted (hr_keys (ring_add [key] m))"
    "set (hr_keys (ring_add [key] m)) = set (hr_keys m) \<union> key_points m key"
    "hr_hash_map (ring_add [key] m) h = (if h \<in> key_points m key then Some key else hr_hash_map m h)"
    using add_points_fields[of key m "[0..hr_replicas m - 1]"]
    by (simp_all add: ring_add_def ring_add_key_def Let_def key_points_def del: set_upto add: s)
qed

lemma ring_wf_add: "ring_wf ks m \<Longrightarrow> ring_wf (insert key ks) (ring_add [key] m)"
  by (auto simp: ring_wf_def ring_add_one_fields ran_def dom_def split: if_splits)

lemma ring_wf_new: "ring_wf {} (new_consistent_hash r f)"
  by (simp add: ring_wf_def new_consistent_hash_def)

lemma ring_wf_nodes:
  "ring_wf ks m \<Longrightarrow> ring_wf (ks \<union> itoa ` set ns) (foldl (\<lambda>m n. ring_add [itoa n] m) m ns)"
proof (induction ns arbitrary: m ks)
  case (Cons n ns)
  then show ?case using Cons.IH[OF ring_wf_add[OF Cons.prems, of "itoa n"]] by simp
qed simp

lemma foldl_ring_fields:
  "hr_hash (foldl (\<lambda>m n. ring_add [itoa n] m) m ns) = hr_hash m"
  "hr_replicas (foldl (\<lambda>m n. ring_add [itoa n] m) m ns) = hr_replicas m"
  by (induction ns arbitrary: m) (simp_all add: ring_add_one_fields)

lemma foldl_ring_nonempty:
  "ns \<noteq> [] \<Longrightarrow> 0 < hr_replicas m \<Longrightarrow> hr_keys (foldl (\<lambda>m n. ring_add [itoa n] m) m ns) \<noteq> []"
proof (induction ns rule: rev_induct)
  case (snoc n ns)
  let ?m = "foldl (\<lambda>m n. ring_add [itoa n] m) m ns"
  have "key_points ?m (itoa n) \<noteq> {}" using snoc.prems by (simp add: key_points_def foldl_ring_fields)
  then have "set (hr_keys (ring_add [itoa n] ?m)) \<noteq> {}" by (simp add: ring_add_one_fields)
  then show ?case by simp
qed simp

lemma ring_get_member:
  assumes "ring_wf ks m" "hr_keys m \<noteq> []"
  shows "ring_get m key \<in> ks"
proof -
  let ?h = "hr_keys m ! (search_ints (hr_keys m) (hr_hash m key) mod length (hr_keys m))"
  have "?h \<in> set (hr_keys m)" using assms(2) by simp
  then obtain k where "hr_hash_map m ?h = Some k" using assms(1) by (auto simp: ring_wf_def)
  then show ?thesis using assms by (auto simp: ring_get_def ring_wf_def Let_def ran_def)
qed

lemma choose_failover_target_ok:
  assumes "nodes \<noteq> []" "\<forall>n \<in> set nodes. in64 n"
  obtains n where "choose_failover_target nodes s = Inr n" "n \<in> set nodes"
proof -
  let ?r = "foldl (\<lambda>m n. ring_add [itoa n] m) (new_consistent_hash failoverHashReplicas None) nodes"
  have "ring_wf ({} \<union> itoa ` set nodes) ?r" by (rule ring_wf_nodes[OF ring_wf_new])
  moreover have "hr_keys ?r \<noteq> []"
    by (rule foldl_ring_nonempty[OF assms(1)]) (simp add: new_consistent_hash_def failoverHashReplicas_def)
  ultimately have "ring_get ?r (itoa s) \<in> itoa ` set nodes" using ring_get_member by fastforce
  then obtain n where "n \<in> set nodes" "ring_get ?r (itoa s) = itoa n" by auto
  then show ?thesis using that[of n] assms by (simp add: choose_failover_target_def atoi_itoa)
qed

lemma build_ring_ok:
  assumes "\<forall>n \<in> set ns. 0 < n" "distinct ns" "set ns \<inter> seen = {}"
  shows "build_ring ns seen m = Inr (foldl (\<lambda>m n. ring_add [itoa n] m) m ns)"
  using assms by (induction ns arbitrary: seen m) auto

lemma build_ring_Inr:
  "build_ring ns seen m = Inr r \<Longrightarrow> (\<forall>n \<in> set ns. 0 < n) \<and> distinct ns \<and> set ns \<inter> seen = {}"
  by (induction ns arbitrary: seen m) (auto split: if_splits)

lemma build_ring_err: "\<not> ((\<forall>n \<in> set ns. 0 < n) \<and> distinct ns \<and> set ns \<inter> seen = {}) \<Longrightarrow>
   \<exists>e. build_ring ns seen m = Inl e"
  using build_ring_Inr[of ns seen m] by (cases "build_ring ns seen m") auto

lemma target_node_id_eq:
  assumes "nodes \<noteq> []" "\<forall>n \<in> set nodes. 0 < n" "distinct nodes" "0 \<le> s"
  shows "target_node_id nodes s =
     (case atoi (ring_get (foldl (\<lambda>m n. ring_add [itoa n] m) (new_consistent_hash defaultHashReplicas None) nodes) (itoa s)) of
        Inl e \<Rightarrow> Inl (ErrWrap ''parse target node : %w'' e) | Inr n \<Rightarrow> Inr n)"
  using assms build_ring_ok[of nodes "{}"] by (simp add: target_node_id_def)

lemma target_node_id_ok:
  assumes "nodes \<noteq> []" "\<forall>n \<in> set nodes. 0 < n \<and> in64 n" "distinct nodes" "0 \<le> s"
  obtains n where "target_node_id nodes s = Inr n" "n \<in> set nodes"
    "itoa n = ring_get (foldl (\<lambda>m n. ring_add [itoa n] m) (new_consistent_hash defaultHashReplicas None) nodes) (itoa s)"
proof -
  let ?r = "foldl (\<lambda>m n. ring_add [itoa n] m) (new_consistent_hash defaultHashReplicas None) nodes"
  have "ring_wf ({} \<union> itoa ` set nodes) ?r" by (rule ring_wf_nodes[OF ring_wf_new])
  moreover have "hr_keys ?r \<noteq> []"
    by (rule foldl_ring_nonempty[OF assms(1)]) (simp add: new_consistent_hash_def defaultHashReplicas_def)
  ultimately have "ring_get ?r (itoa s) \<in> itoa ` set nodes" using ring_get_member by fastforce
  then obtain n where n: "n \<in> set nodes" "ring_get ?r (itoa s) = itoa n" by auto
  then have "target_node_id nodes s = Inr n"
    using target_node_id_eq[OF assms(1) _ assms(3,4)] assms(2) by (simp add: atoi_itoa)
  then show ?thesis using that n by simp
qed

lemma target_node_id_err:
  assumes "nodes = [] \<or> s < 0 \<or> (\<exists>n \<in> set nodes. n \<le> 0) \<or> \<not> distinct nodes"
  shows "\<exists>e. target_node_id nodes s = Inl e"
proof (cases "nodes = [] \<or> s < 0")
  case True
  then show ?thesis by (auto simp: target_node_id_def)
next
  case False
  then have "\<not> ((\<forall>n \<in> set nodes. 0 < n) \<and> distinct nodes \<and> set nodes \<inter> {} = {})" using assms by force
  from build_ring_err[OF this, of "new_consistent_hash defaultHashReplicas None"]
  obtain e where "build_ring nodes {} (new_consistent_hash defaultHashReplicas None) = Inl e" by blast
  then show ?thesis using False by (auto simp: target_node_id_def)
qed

section \<open>The node of a point\<close>

text \<open>The first ring key at or after a hash, or the smallest one: what \<open>Get\<close> looks up.\<close>

definition successor :: "int set \<Rightarrow> int \<Rightarrow> int" where
  "successor K h = (if \<exists>k \<in> K. h \<le> k then Min {k \<in> K. h \<le> k} else Min K)"

lemma length_takeWhile_less: "\<exists>x \<in> set xs. \<not> P x \<Longrightarrow> length (takeWhile P xs) < length xs"
  by (induction xs) auto

lemma search_successor:
  assumes "sorted ks" "ks \<noteq> []"
  shows "ks ! (search_ints ks h mod length ks) = successor (set ks) h"
proof (cases "\<exists>k \<in> set ks. h \<le> k")
  case True
  let ?i = "search_ints ks h"
  have i: "?i < length ks"
    unfolding search_ints_def using True
    by (intro length_takeWhile_less) (simp add: not_less)
  have up: "h \<le> ks ! ?i" using nth_length_takeWhile[of "\<lambda>k. k < h" ks] i by (simp add: search_ints_def)
  have "Min {k \<in> set ks. h \<le> k} = ks ! ?i"
  proof (rule Min_eqI)
    show "ks ! ?i \<in> {k \<in> set ks. h \<le> k}" using i up by simp
    fix k assume k: "k \<in> {k \<in> set ks. h \<le> k}"
    then obtain j where j: "j < length ks" "ks ! j = k" by (auto simp: in_set_conv_nth)
    have "\<not> j < ?i"
    proof
      assume "j < ?i"
      then have "ks ! j < h" unfolding search_ints_def
        by (metis nth_mem set_takeWhileD takeWhile_nth)
      then show False using j k by simp
    qed
    then show "ks ! ?i \<le> k" using j assms(1) sorted_nth_mono[of ks ?i j] by simp
  qed simp
  then show ?thesis using True i by (simp add: successor_def)
next
  case False
  then have "takeWhile (\<lambda>k. k < h) ks = ks" by (intro takeWhile_eq_all_conv[THEN iffD2]) auto
  then have "search_ints ks h = length ks" unfolding search_ints_def by (rule arg_cong)
  moreover have "Min (set ks) = ks ! 0"
  proof (rule Min_eqI)
    show "ks ! 0 \<le> y" if "y \<in> set ks" for y
      using that assms sorted_nth_mono[OF assms(1), of 0] by (auto simp: in_set_conv_nth)
  qed (use assms(2) in simp_all)
  ultimately show ?thesis using False assms(2) by (simp add: successor_def)
qed

lemma ring_get_successor:
  assumes "ring_wf ks m" "hr_keys m \<noteq> []"
  shows "hr_hash_map m (successor (set (hr_keys m)) (hr_hash m key)) = Some (ring_get m key)"
proof -
  have s: "sorted (hr_keys m)" using assms(1) by (simp add: ring_wf_def)
  have "successor (set (hr_keys m)) (hr_hash m key) \<in> set (hr_keys m)"
    using search_successor[OF s assms(2), of "hr_hash m key"] assms(2)
    by (metis length_greater_0_conv mod_less_divisor nth_mem)
  then obtain k where "hr_hash_map m (successor (set (hr_keys m)) (hr_hash m key)) = Some k"
    using assms(1) by (auto simp: ring_wf_def)
  then show ?thesis using assms(2) search_successor[OF s assms(2)] by (simp add: ring_get_def Let_def)
qed

lemma successor_mem: "finite K \<Longrightarrow> K \<noteq> {} \<Longrightarrow> successor K h \<in> K"
proof -
  assume f: "finite K" "K \<noteq> {}"
  have "Min {k \<in> K. h \<le> k} \<in> {k \<in> K. h \<le> k}" if "\<exists>k \<in> K. h \<le> k"
    using f that by (intro Min_in) auto
  then show ?thesis using f by (auto simp: successor_def)
qed

lemma successor_Un_mem:
  assumes "finite K" "finite L" "K \<noteq> {}" and m: "successor (K \<union> L) h \<in> K"
  shows "successor (K \<union> L) h = successor K h"
proof -
  let ?s = "successor (K \<union> L) h"
  show ?thesis
  proof (cases "\<exists>k \<in> K \<union> L. h \<le> k")
    case True
    have f: "finite {k \<in> K \<union> L. h \<le> k}" using assms by simp
    have e: "?s = Min {k \<in> K \<union> L. h \<le> k}" using True by (simp add: successor_def)
    have "?s \<in> {k \<in> K \<union> L. h \<le> k}" unfolding e using True f by (intro Min_in) auto
    then have s: "h \<le> ?s" by simp
    have "Min {k \<in> K. h \<le> k} = ?s"
      by (rule Min_eqI) (use assms(1) m s e f in \<open>auto intro: Min_le\<close>)
    then show ?thesis using m s by (auto simp: successor_def)
  next
    case False
    then have "?s = Min (K \<union> L)" "successor K h = Min K" by (auto simp: successor_def)
    moreover have "Min K = Min (K \<union> L)"
      by (rule Min_eqI) (use assms m calculation in \<open>auto intro: Min_le\<close>)
    ultimately show ?thesis by simp
  qed
qed

text \<open>
  Two rings of which the second has one more node: it has the points \<open>K\<close> in addition, and any
  point whose owner differs belongs to the new node.
\<close>

definition ring_ext :: "int set \<Rightarrow> string \<Rightarrow> hash_ring \<Rightarrow> hash_ring \<Rightarrow> bool" where
  "ring_ext K new m m' \<longleftrightarrow>
     hr_hash m' = hr_hash m \<and> hr_replicas m' = hr_replicas m \<and> finite K \<and>
     set (hr_keys m') = set (hr_keys m) \<union> K \<and>
     (\<forall>h. hr_hash_map m' h = hr_hash_map m h \<or> (h \<in> K \<and> hr_hash_map m' h = Some new))"

lemma ring_ext_new: "ring_ext (key_points m new) new m (ring_add [new] m)"
  by (simp add: ring_ext_def ring_add_one_fields) (simp add: key_points_def)

lemma ring_ext_add: "ring_ext K new m m' \<Longrightarrow> ring_ext K new (ring_add [y] m) (ring_add [y] m')"
proof -
  assume e: "ring_ext K new m m'"
  then have "replica_hash m' = replica_hash m" by (intro replica_hash_cong) (simp add: ring_ext_def)
  then have "key_points m' y = key_points m y" using e by (simp add: key_points_def ring_ext_def)
  then show ?thesis using e by (auto simp: ring_ext_def ring_add_one_fields)
qed

lemma ring_ext_nodes:
  "ring_ext K new m m' \<Longrightarrow>
   ring_ext K new (foldl (\<lambda>m n. ring_add [itoa n] m) m ns) (foldl (\<lambda>m n. ring_add [itoa n] m) m' ns)"
  by (induction ns arbitrary: m m') (simp_all add: ring_ext_add)

text \<open>A lookup in the larger ring moves only to the new node.\<close>

lemma ring_get_ext:
  assumes e: "ring_ext K new m m'" and w: "ring_wf ks m" "ring_wf ks' m'" and ne: "hr_keys m \<noteq> []"
  shows "ring_get m' key \<in> {ring_get m key, new}"
proof -
  let ?h = "hr_hash m key"
  have k: "set (hr_keys m') = set (hr_keys m) \<union> K" "hr_hash m' = hr_hash m" "finite K"
    using e by (simp_all add: ring_ext_def)
  then have ne': "hr_keys m' \<noteq> []" using ne by auto
  let ?s = "successor (set (hr_keys m) \<union> K) ?h"
  have g: "hr_hash_map m' ?s = Some (ring_get m' key)"
    using ring_get_successor[OF w(2) ne', of key] unfolding k(1,2) .
  have o: "hr_hash_map m' ?s = hr_hash_map m ?s \<or> (?s \<in> K \<and> hr_hash_map m' ?s = Some new)"
    using e by (simp add: ring_ext_def)
  show ?thesis
  proof (cases "hr_hash_map m' ?s = Some new")
    case True
    then show ?thesis using g by simp
  next
    case False
    then have same: "hr_hash_map m ?s = Some (ring_get m' key)" using o g by simp
    then have "?s \<in> set (hr_keys m)" using w(1) by (auto simp: ring_wf_def)
    then have "?s = successor (set (hr_keys m)) ?h"
      by (intro successor_Un_mem) (use k ne in simp_all)
    then show ?thesis using ring_get_successor[OF w(1) ne] same by simp
  qed
qed

section \<open>Properties\<close>

text \<open>
  \<open>TargetNodeID\<close> is total and sound: for a non-negative shard and a non-empty list of
  distinct positive node identifiers it returns one of them, and for any other input an error.
\<close>

theorem target_node_id_total:
  assumes "\<forall>n \<in> set nodes. in64 n"
  shows "(nodes \<noteq> [] \<and> (\<forall>n \<in> set nodes. 0 < n) \<and> distinct nodes \<and> 0 \<le> s \<longrightarrow>
            (\<exists>n \<in> set nodes. target_node_id nodes s = Inr n)) \<and>
         (\<not> (nodes \<noteq> [] \<and> (\<forall>n \<in> set nodes. 0 < n) \<and> distinct nodes \<and> 0 \<le> s) \<longrightarrow>
            (\<exists>e. target_node_id nodes s = Inl e))"
proof (intro conjI impI)
  assume "nodes \<noteq> [] \<and> (\<forall>n \<in> set nodes. 0 < n) \<and> distinct nodes \<and> 0 \<le> s"
  then have "nodes \<noteq> []" "\<forall>n \<in> set nodes. 0 < n \<and> in64 n" "distinct nodes" "0 \<le> s" using assms by simp_all
  from target_node_id_ok[OF this] show "\<exists>n \<in> set nodes. target_node_id nodes s = Inr n" by metis
next
  assume "\<not> (nodes \<noteq> [] \<and> (\<forall>n \<in> set nodes. 0 < n) \<and> distinct nodes \<and> 0 \<le> s)"
  then show "\<exists>e. target_node_id nodes s = Inl e" by (intro target_node_id_err) force
qed

theorem target_node_id_total_witness:
  "(\<exists>n \<in> set [3, 1, 2]. target_node_id [3, 1, 2] 17 = Inr n) \<and> (\<exists>e. target_node_id [1, 1] 17 = Inl e)"
  using target_node_id_total[of "[3, 1, 2]" 17] target_node_id_total[of "[1, 1]" 17]
  by (auto simp: in64_def)

text \<open>
  Consistent hashing: when a node joins, at any place of the (sorted) node list, a shard
  either keeps its node or moves to the new one; and when a node leaves, only its own shards move.
  No membership change moves a shard between two nodes that stay.
\<close>

theorem membership_change_moves_minimally:
  assumes "xs @ ys \<noteq> []" "\<forall>n \<in> set (xs @ new # ys). 0 < n \<and> in64 n" "distinct (xs @ new # ys)" "0 \<le> s"
  shows "target_node_id (xs @ new # ys) s \<in> {target_node_id (xs @ ys) s, Inr new} \<and>
    (target_node_id (xs @ new # ys) s \<noteq> Inr new \<longrightarrow>
       target_node_id (xs @ ys) s = target_node_id (xs @ new # ys) s)"
proof -
  let ?add = "foldl (\<lambda>m n. ring_add [itoa n] m)" and ?start = "new_consistent_hash defaultHashReplicas None"
  have a: "\<forall>n \<in> set (xs @ ys). 0 < n \<and> in64 n" "distinct (xs @ ys)" "xs @ new # ys \<noteq> []" using assms by auto
  obtain n where n: "target_node_id (xs @ ys) s = Inr n" "itoa n = ring_get (?add ?start (xs @ ys)) (itoa s)"
    by (rule target_node_id_ok[OF assms(1) a(1,2) assms(4)])
  obtain n' where n': "target_node_id (xs @ new # ys) s = Inr n'"
    "itoa n' = ring_get (?add ?start (xs @ new # ys)) (itoa s)"
    by (rule target_node_id_ok[OF a(3) assms(2-4)])
  have e: "ring_ext (key_points (?add ?start xs) (itoa new)) (itoa new) (?add ?start (xs @ ys)) (?add ?start (xs @ new # ys))"
    using ring_ext_nodes[OF ring_ext_new] by simp
  note w = ring_wf_nodes[OF ring_wf_new]
  have ne: "hr_keys (?add ?start (xs @ ys)) \<noteq> []"
    by (rule foldl_ring_nonempty[OF assms(1)]) (simp add: new_consistent_hash_def defaultHashReplicas_def)
  have "itoa n' \<in> {itoa n, itoa new}"
    using ring_get_ext[OF e w w ne, of "itoa s"] n(2) n'(2) by simp
  then show ?thesis using n n' itoa_inj by auto
qed

theorem membership_change_moves_minimally_witness:
  "target_node_id ([2] @ 5 # [9]) 40 \<in> {target_node_id ([2] @ [9]) 40, Inr 5}"
  using membership_change_moves_minimally[of "[2]" "[9]" 5 40] by (simp add: in64_def)

text \<open>
  The ring is not independent of the order the nodes are added in, whatever the hash
  function: the name of a point is the replica number followed by the node number, so point 11 of
  node 1 and point 1 of node 11 are the same point, and it belongs to whichever node came last.
\<close>

theorem ring_depends_on_add_order:
  "hr_hash_map (ring_add [itoa 11] (ring_add [itoa 1] (new_consistent_hash 32 f))) \<noteq>
   hr_hash_map (ring_add [itoa 1] (ring_add [itoa 11] (new_consistent_hash 32 f)))"
proof -
  let ?m = "new_consistent_hash 32 f"
  have n: "itoa 11 @ itoa 1 = itoa 1 @ itoa 11" "itoa 1 \<noteq> itoa 11" by code_simp+
  have "replica_hash m (itoa 1) 11 = replica_hash m (itoa 11) 1" for m
    using n(1) by (simp add: replica_hash_def)
  then have "replica_hash m (itoa 1) 11 \<in> key_points m (itoa 1) \<inter> key_points m (itoa 11)"
    if "hr_replicas m = 32" for m
    using that by (auto simp: key_points_def intro: image_eqI[of _ _ 1] image_eqI[of _ _ 11])
  moreover have "hr_replicas ?m = 32" by (simp add: new_consistent_hash_def)
  moreover have "key_points (ring_add [k] ?m) = key_points ?m" for k
    by (simp add: key_points_def fun_eq_iff ring_add_one_fields(1,2) replica_hash_cong[of "ring_add [k] ?m" ?m])
  ultimately have
    "hr_hash_map (ring_add [itoa 11] (ring_add [itoa 1] ?m)) (replica_hash ?m (itoa 1) 11) = Some (itoa 11)"
    "hr_hash_map (ring_add [itoa 1] (ring_add [itoa 11] ?m)) (replica_hash ?m (itoa 1) 11) = Some (itoa 1)"
    by (simp_all add: ring_add_one_fields(5))
  then show ?thesis using n(2) by (metis option.inject)
qed

end
