(* ===== verification/Ownership.thy ===== *)
theory Ownership
  imports Model "HOL-Library.Sublist"
begin

text \<open>
  Which node owns which shard (\<open>internal/cluster/ownership\<close>): the ownership record, the interface
  \<open>OwnershipStore\<close> with \<open>OwnershipLister\<close> as a record of operations, its contract as a locale, the
  in-memory store of \<open>benchmark/distributed\<close>, and the etcd store over an abstract etcd client.
  The fields of the etcd client are what etcd does: they are parameters, and \<open>etcd_laws\<close> states the
  documented behaviour the store relies on.
\<close>

section \<open>The interface\<close>

record ownership =
  ow_shard_id :: int
  ow_node_id :: int
  ow_epoch :: int

text \<open>\<open>(Ownership{}, false, nil)\<close> is \<open>None\<close>.\<close>

record 's store_ops =
  so_owner_of :: "int \<Rightarrow> ('s, ownership option) eff"
  so_shards_for_node :: "int \<Rightarrow> ('s, ownership list) eff"
  so_assign :: "int \<Rightarrow> int \<Rightarrow> ('s, unit) eff"
  so_all_ownerships :: "('s, ownership list) eff"

text \<open>
  What every store promises, over the map \<open>view s\<close> from shards to owners that its state stands for:
  reading changes nothing and returns the map's answer; assigning replaces one owner and never reuses
  the epoch of the previous one; an assignment that reports an error may or may not have happened.
\<close>

definition assigned :: "int \<Rightarrow> int \<Rightarrow> (int \<rightharpoonup> ownership) \<Rightarrow> (int \<rightharpoonup> ownership) \<Rightarrow> bool" where
  "assigned k n v v' \<longleftrightarrow>
     (\<exists>ep. v' = v(k \<mapsto> \<lparr>ow_shard_id = k, ow_node_id = n, ow_epoch = ep\<rparr>) \<and>
           (\<forall>o1. v k = Some o1 \<longrightarrow> ow_epoch o1 \<noteq> ep \<and> (ow_epoch o1 < 2 ^ 63 - 1 \<longrightarrow> ow_epoch o1 < ep)))"

locale ownership_store =
  fixes ops :: "'s store_ops" and view :: "'s \<Rightarrow> int \<rightharpoonup> ownership" and ok :: "'s \<Rightarrow> bool"
  assumes owner_of: "ok s \<Longrightarrow> so_owner_of ops k s = (Inr r, s') \<Longrightarrow> ok s' \<and> view s' = view s \<and> r = view s k"
    and owner_of_err: "ok s \<Longrightarrow> so_owner_of ops k s = (Inl e, s') \<Longrightarrow> ok s' \<and> view s' = view s"
    and shards_for_node: "ok s \<Longrightarrow> so_shards_for_node ops n s = (Inr os, s') \<Longrightarrow>
      ok s' \<and> view s' = view s \<and> sorted (map ow_shard_id os) \<and> distinct (map ow_shard_id os) \<and>
      set os = {x. \<exists>k. view s k = Some x \<and> ow_node_id x = n}"
    and shards_for_node_err: "ok s \<Longrightarrow> so_shards_for_node ops n s = (Inl e, s') \<Longrightarrow> ok s' \<and> view s' = view s"
    and assign: "in64 k \<Longrightarrow> in64 n \<Longrightarrow> ok s \<Longrightarrow> so_assign ops k n s = (Inr u, s') \<Longrightarrow> ok s' \<and> assigned k n (view s) (view s')"
    and assign_err: "in64 k \<Longrightarrow> in64 n \<Longrightarrow> ok s \<Longrightarrow> so_assign ops k n s = (Inl e, s') \<Longrightarrow>
      ok s' \<and> (view s' = view s \<or> assigned k n (view s) (view s'))"
    and view_shard: "ok s \<Longrightarrow> view s k = Some x \<Longrightarrow> ow_shard_id x = k"
begin

lemma assign_owner: "in64 k \<Longrightarrow> in64 n \<Longrightarrow> ok s \<Longrightarrow> so_assign ops k n s = (Inr u, s') \<Longrightarrow>
    (\<exists>x. view s' k = Some x \<and> ow_node_id x = n) \<and> (\<forall>j. j \<noteq> k \<longrightarrow> view s' j = view s j)"
  using assign[where s = s and k = k and n = n and u = u and s' = s'] by (auto simp: assigned_def)

text \<open>An assignment is visible to a fence check: whoever compares node and epoch sees a difference.\<close>

lemma assign_breaks_fence:
  "in64 k \<Longrightarrow> in64 n \<Longrightarrow> ok s \<Longrightarrow> view s k = Some x \<Longrightarrow> so_assign ops k n s = (Inr u, s') \<Longrightarrow>
   \<exists>y. view s' k = Some y \<and> ow_epoch y \<noteq> ow_epoch x"
  using assign[where s = s and k = k and n = n and u = u and s' = s'] by (auto simp: assigned_def)

lemma assign_fresh_owner:
  "in64 k \<Longrightarrow> in64 n \<Longrightarrow> ok s \<Longrightarrow> view s k = None \<Longrightarrow> so_assign ops k n s = (Inr u, s') \<Longrightarrow> dom (view s') = insert k (dom (view s))"
  using assign[where s = s and k = k and n = n and u = u and s' = s'] by (auto simp: assigned_def)

end

locale ownership_lister = ownership_store +
  assumes all_ownerships: "ok s \<Longrightarrow> so_all_ownerships ops s = (Inr os, s') \<Longrightarrow>
      ok s' \<and> view s' = view s \<and> sorted (map ow_shard_id os) \<and> distinct (map ow_shard_id os) \<and>
      set os = ran (view s)"
    and all_ownerships_err: "ok s \<Longrightarrow> so_all_ownerships ops s = (Inl e, s') \<Longrightarrow> ok s' \<and> view s' = view s"
begin

lemma all_ownerships_nodes:
  "ok s \<Longrightarrow> so_all_ownerships ops s = (Inr os, s') \<Longrightarrow> k \<in> ow_shard_id ` set os \<longleftrightarrow> view s k \<noteq> None"
  using all_ownerships[of s os s'] view_shard[of s] by (fastforce simp: ran_def image_iff)

end

section \<open>The in-memory store of the benchmark\<close>

type_synonym bench_store = "(int \<times> ownership) list"

definition bench_owner_of :: "int \<Rightarrow> (bench_store, ownership option) eff" where
  "bench_owner_of k = (\<lambda>s. (Inr (map_of s k), s))"

definition bench_shards_for_node :: "int \<Rightarrow> (bench_store, ownership list) eff" where
  "bench_shards_for_node n = (\<lambda>s. (Inr (sort_key ow_shard_id (filter (\<lambda>x. ow_node_id x = n) (map snd s))), s))"

definition bench_assign :: "int \<Rightarrow> int \<Rightarrow> (bench_store, unit) eff" where
  "bench_assign k n = (\<lambda>s.
     let current = (case map_of s k of Some x \<Rightarrow> x | None \<Rightarrow> \<lparr>ow_shard_id = 0, ow_node_id = 0, ow_epoch = 0\<rparr>);
         epoch = wrap64 (ow_epoch current + 1);
         epoch' = (if epoch = 0 then 1 else epoch)
     in (Inr (), AList.update k \<lparr>ow_shard_id = k, ow_node_id = n, ow_epoch = epoch'\<rparr> s))"

text \<open>The benchmark's store has no \<open>AllOwnerships\<close>; the type assertion to \<open>OwnershipLister\<close> fails.\<close>

definition bench_ops :: "bench_store store_ops" where
  "bench_ops = \<lparr>so_owner_of = bench_owner_of, so_shards_for_node = bench_shards_for_node,
     so_assign = bench_assign,
     so_all_ownerships = throw (ErrMsg ''ownership store cannot list all ownerships'' [])\<rparr>"

lemma wrap64_succ: "in64 x \<Longrightarrow> wrap64 (x + 1) = (if x = 2 ^ 63 - 1 then - (2 ^ 63) else x + 1)"
  by (auto simp: in64_def wrap64_def)

definition bench_wf :: "bench_store \<Rightarrow> bool" where
  "bench_wf s \<longleftrightarrow> distinct (map fst s) \<and> (\<forall>(k, x) \<in> set s. ow_shard_id x = k \<and> in64 (ow_epoch x))"

lemma bench_wf_map_of: "bench_wf s \<Longrightarrow> map_of s k = Some x \<Longrightarrow> ow_shard_id x = k \<and> in64 (ow_epoch x)"
  unfolding bench_wf_def by (fastforce dest: map_of_SomeD)

lemma bench_values:
  assumes "bench_wf s"
  shows "distinct (map ow_shard_id (map snd s))" "set (map snd s) = ran (map_of s)"
proof -
  have "map ow_shard_id (map snd s) = map fst s" using assms by (auto simp: bench_wf_def)
  moreover have "distinct (map fst s)" using assms by (simp add: bench_wf_def)
  ultimately show "distinct (map ow_shard_id (map snd s))" by metis
  show "set (map snd s) = ran (map_of s)" using assms by (simp add: bench_wf_def ran_distinct)
qed

lemma distinct_sort_filter:
  "distinct (map f xs) \<Longrightarrow> distinct (map f (sort_key f (filter P xs)))"
proof -
  assume "distinct (map f xs)"
  then have "distinct (map f (filter P xs))" by (rule distinct_map_filter)
  moreover have "mset (map f (sort_key f (filter P xs))) = mset (map f (filter P xs))" by simp
  ultimately show ?thesis using mset_eq_imp_distinct_iff by blast
qed

interpretation bench: ownership_store bench_ops map_of bench_wf
proof
  fix s s' :: bench_store and k n :: int and u :: unit
  show "bench_wf s' \<and> assigned k n (map_of s) (map_of s')"
    if w: "bench_wf s" and a: "so_assign bench_ops k n s = (Inr u, s')"
  proof -
    define cur where "cur = (case map_of s k of Some x \<Rightarrow> x | None \<Rightarrow> \<lparr>ow_shard_id = 0, ow_node_id = 0, ow_epoch = 0\<rparr>)"
    define ep where "ep = (if wrap64 (ow_epoch cur + 1) = 0 then 1 else wrap64 (ow_epoch cur + 1))"
    have s': "s' = AList.update k \<lparr>ow_shard_id = k, ow_node_id = n, ow_epoch = ep\<rparr> s"
      using a unfolding bench_ops_def bench_assign_def Let_def cur_def ep_def
      by (simp only: store_ops.simps Pair_inject) (rule sym, blast)
    have c: "in64 (ow_epoch cur)" using bench_wf_map_of[OF w, of k] by (auto simp: cur_def in64_def split: option.split)
    have e: "in64 ep" "ep \<noteq> ow_epoch cur" "ow_epoch cur < 2 ^ 63 - 1 \<longrightarrow> ow_epoch cur < ep"
      using wrap64_succ[OF c] c by (auto simp: ep_def in64_def)
    have "distinct (map fst s')" using w by (simp add: s' bench_wf_def distinct_update)
    moreover have "ow_shard_id x = j \<and> in64 (ow_epoch x)" if "map_of s' j = Some x" for j x
      using that bench_wf_map_of[OF w, of j x] e(1) by (auto simp: s' update_conv' split: if_splits)
    ultimately have "bench_wf s'" by (auto simp: bench_wf_def)
    moreover have "assigned k n (map_of s) (map_of s')"
      unfolding assigned_def s' using e by (auto simp: update_conv' cur_def intro!: exI[of _ ep])
    ultimately show ?thesis by simp
  qed
next
  fix s s' :: bench_store and n :: int and os
  show "bench_wf s' \<and> map_of s' = map_of s \<and> sorted (map ow_shard_id os) \<and> distinct (map ow_shard_id os) \<and>
      set os = {x. \<exists>k. map_of s k = Some x \<and> ow_node_id x = n}"
    if w: "bench_wf s" and a: "so_shards_for_node bench_ops n s = (Inr os, s')"
    using a bench_values[OF w] w distinct_sort_filter[of ow_shard_id "map snd s"]
    by (auto simp: bench_ops_def bench_shards_for_node_def ran_def)
qed (auto simp: bench_ops_def bench_owner_of_def bench_shards_for_node_def bench_assign_def Let_def dest: bench_wf_map_of)

section \<open>The etcd store\<close>

text \<open>
  The etcd client as the store uses it: read a key (its value and modification revision), read the
  values under a prefix, and a transaction that puts a value if the key is absent (\<open>None\<close>, the
  comparison \<open>CreateRevision = 0\<close>) or still at a revision (\<open>Some r\<close>, \<open>ModRevision = r\<close>).
\<close>

record 's etcd_client =
  kv_get :: "string \<Rightarrow> ('s, (string \<times> int) option) eff"
  kv_get_prefix :: "string \<Rightarrow> ('s, string list) eff"
  kv_txn_put :: "string \<Rightarrow> int option \<Rightarrow> string \<Rightarrow> ('s, bool) eff"

text \<open>\<open>encoding/json\<close> on \<open>Ownership\<close>; the parser is a parameter.\<close>

definition marshal_ownership :: "ownership \<Rightarrow> string" where
  "marshal_ownership x =
     ''{'' @ [CHR 0x22] @ ''ShardID'' @ [CHR 0x22] @ '':'' @ itoa (ow_shard_id x) @ '','' @
     [CHR 0x22] @ ''NodeID'' @ [CHR 0x22] @ '':'' @ itoa (ow_node_id x) @ '','' @
     [CHR 0x22] @ ''Epoch'' @ [CHR 0x22] @ '':'' @ itoa (ow_epoch x) @ ''}''"

type_synonym ownership_parser = "string \<Rightarrow> go_error + ownership"

definition decode_ownership :: "ownership_parser \<Rightarrow> string \<Rightarrow> go_error + ownership" where
  "decode_ownership parse data =
     (case parse data of Inl e \<Rightarrow> Inl (ErrWrap ''decode ownership: %w'' e) | Inr x \<Rightarrow> Inr x)"

text \<open>The prefix \<open>pre\<close> is a cleaned absolute path (\<open>CleanEtcdPrefix\<close>), so \<open>path.Join\<close> only concatenates.\<close>

definition shards_prefix :: "string \<Rightarrow> string" where
  "shards_prefix pre = (if pre = ''/'' then [] else pre) @ ''/ownership/shards/''"

definition shard_key :: "string \<Rightarrow> int \<Rightarrow> string" where
  "shard_key pre k = shards_prefix pre @ itoa k"

fun decode_all :: "ownership_parser \<Rightarrow> string list \<Rightarrow> go_error + ownership list" where
  "decode_all parse [] = Inr []"
| "decode_all parse (v # vs) =
     (case decode_ownership parse v of
        Inl e \<Rightarrow> Inl e
      | Inr x \<Rightarrow> (case decode_all parse vs of Inl e \<Rightarrow> Inl e | Inr xs \<Rightarrow> Inr (x # xs)))"

definition etcd_owner_of :: "'s etcd_client \<Rightarrow> ownership_parser \<Rightarrow> string \<Rightarrow> int \<Rightarrow> ('s, ownership option) eff" where
  "etcd_owner_of cl parse pre k =
     (if k < 0 then throw (ErrMsg ''shard id must be >= 0: %d'' [FInt k])
      else ebind (wrap_err ''get ownership from etcd: %w'' (kv_get cl (shard_key pre k)))
        (\<lambda>r. case r of
               None \<Rightarrow> ret None
             | Some (v, mrev) \<Rightarrow>
                 (case decode_ownership parse v of
                    Inl e \<Rightarrow> throw e
                  | Inr x \<Rightarrow> ret (Some (x\<lparr>ow_shard_id := k\<rparr>)))))"

definition etcd_all_ownerships :: "'s etcd_client \<Rightarrow> ownership_parser \<Rightarrow> string \<Rightarrow> ('s, ownership list) eff" where
  "etcd_all_ownerships cl parse pre =
     ebind (wrap_err ''list ownership from etcd: %w'' (kv_get_prefix cl (shards_prefix pre)))
       (\<lambda>vs. ebind (lift_res (decode_all parse vs)) (\<lambda>xs. ret (sort_key ow_shard_id xs)))"

definition etcd_shards_for_node ::
  "'s etcd_client \<Rightarrow> ownership_parser \<Rightarrow> string \<Rightarrow> int \<Rightarrow> ('s, ownership list) eff" where
  "etcd_shards_for_node cl parse pre n =
     (if n \<le> 0 then throw (ErrMsg ''node id must be > 0: %d'' [FInt n])
      else ebind (wrap_err ''list ownership from etcd: %w'' (kv_get_prefix cl (shards_prefix pre)))
        (\<lambda>vs. ebind (lift_res (decode_all parse vs))
          (\<lambda>xs. ret (sort_key ow_shard_id (filter (\<lambda>x. ow_node_id x = n) xs)))))"

text \<open>The record an assignment writes: epoch 1 for a shard without owner, else one more.\<close>

definition next_ownership :: "int \<Rightarrow> int \<Rightarrow> ownership option \<Rightarrow> ownership" where
  "next_ownership k n current =
     \<lparr>ow_shard_id = k, ow_node_id = n,
      ow_epoch = (case current of None \<Rightarrow> 1 | Some x \<Rightarrow> wrap64 (ow_epoch x + 1))\<rparr>"

definition try_assign ::
  "'s etcd_client \<Rightarrow> ownership_parser \<Rightarrow> string \<Rightarrow> int \<Rightarrow> int \<Rightarrow> ('s, bool) eff" where
  "try_assign cl parse key k n =
     ebind (wrap_err ''get ownership before assign: %w'' (kv_get cl key))
       (\<lambda>r. case r of
              None \<Rightarrow> wrap_err ''assign ownership in etcd: %w''
                 (kv_txn_put cl key None (marshal_ownership (next_ownership k n None)))
            | Some (v, mrev) \<Rightarrow>
                (case decode_ownership parse v of
                   Inl e \<Rightarrow> throw e
                 | Inr current \<Rightarrow> wrap_err ''assign ownership in etcd: %w''
                     (kv_txn_put cl key (Some mrev)
                        (marshal_ownership (next_ownership k n (Some current))))))"

definition maxEtcdAssignRetries :: nat where "maxEtcdAssignRetries = 8"

fun assign_attempts ::
  "'s etcd_client \<Rightarrow> ownership_parser \<Rightarrow> string \<Rightarrow> int \<Rightarrow> int \<Rightarrow> nat \<Rightarrow> ('s, unit) eff" where
  "assign_attempts cl parse key k n 0 =
     throw (ErrMsg ''assign shard %d to node %d failed after retries'' [FInt k, FInt n])"
| "assign_attempts cl parse key k n (Suc m) =
     ebind (try_assign cl parse key k n)
       (\<lambda>won. if won then ret () else assign_attempts cl parse key k n m)"

definition etcd_assign :: "'s etcd_client \<Rightarrow> ownership_parser \<Rightarrow> string \<Rightarrow> int \<Rightarrow> int \<Rightarrow> ('s, unit) eff" where
  "etcd_assign cl parse pre k n =
     (if k < 0 then throw (ErrMsg ''shard id must be >= 0: %d'' [FInt k])
      else if n \<le> 0 then throw (ErrMsg ''node id must be > 0: %d'' [FInt n])
      else assign_attempts cl parse (shard_key pre k) k n maxEtcdAssignRetries)"

definition etcd_ops :: "'s etcd_client \<Rightarrow> ownership_parser \<Rightarrow> string \<Rightarrow> 's store_ops" where
  "etcd_ops cl parse pre =
     \<lparr>so_owner_of = etcd_owner_of cl parse pre, so_shards_for_node = etcd_shards_for_node cl parse pre,
      so_assign = etcd_assign cl parse pre, so_all_ownerships = etcd_all_ownerships cl parse pre\<rparr>"

section \<open>What the store relies on, and that it keeps the contract\<close>

text \<open>
  The documented behaviour of etcd, for a client that no other writer disturbs: reads return what is
  stored and change nothing; a prefix read returns every matching value once; the transaction puts
  the value exactly when its comparison holds; a transaction whose reply is lost may have done so.
\<close>

definition txn_holds :: "(string \<times> int) option \<Rightarrow> int option \<Rightarrow> bool" where
  "txn_holds cur cmp = (case cmp of None \<Rightarrow> cur = None | Some r \<Rightarrow> (\<exists>v. cur = Some (v, r)))"

definition etcd_laws :: "'s etcd_client \<Rightarrow> ('s \<Rightarrow> string \<rightharpoonup> string \<times> int) \<Rightarrow> bool" where
  "etcd_laws cl kv \<longleftrightarrow>
     (\<forall>s k. case kv_get cl k s of
        (Inr r, s') \<Rightarrow> kv s' = kv s \<and> r = kv s k | (Inl e, s') \<Rightarrow> kv s' = kv s) \<and>
     (\<forall>s p. case kv_get_prefix cl p s of
        (Inr vs, s') \<Rightarrow> kv s' = kv s \<and>
          (\<exists>ks. distinct ks \<and> set ks = {k \<in> dom (kv s). prefix p k} \<and> vs = map (\<lambda>k. fst (the (kv s k))) ks)
      | (Inl e, s') \<Rightarrow> kv s' = kv s) \<and>
     (\<forall>s k cmp v. case kv_txn_put cl k cmp v s of
        (Inr won, s') \<Rightarrow> won = txn_holds (kv s k) cmp \<and>
          (if won then \<exists>r. kv s' = (kv s)(k \<mapsto> (v, r)) else kv s' = kv s)
      | (Inl e, s') \<Rightarrow> kv s' = kv s \<or> (txn_holds (kv s k) cmp \<and> (\<exists>r. kv s' = (kv s)(k \<mapsto> (v, r)))))"

definition parser_ok :: "ownership_parser \<Rightarrow> bool" where
  "parser_ok parse \<longleftrightarrow>
     (\<forall>x. in64 (ow_shard_id x) \<and> in64 (ow_node_id x) \<and> in64 (ow_epoch x) \<longrightarrow> parse (marshal_ownership x) = Inr x)"

text \<open>Under the store's prefix etcd holds only what the store wrote.\<close>

definition owners_wf :: "string \<Rightarrow> (string \<rightharpoonup> string \<times> int) \<Rightarrow> bool" where
  "owners_wf pre m \<longleftrightarrow>
     (\<forall>key v r. m key = Some (v, r) \<longrightarrow> prefix (shards_prefix pre) key \<longrightarrow>
        (\<exists>x. key = shard_key pre (ow_shard_id x) \<and> v = marshal_ownership x \<and> 0 \<le> ow_shard_id x \<and>
             in64 (ow_shard_id x) \<and> in64 (ow_node_id x) \<and> in64 (ow_epoch x)))"

definition etcd_view :: "ownership_parser \<Rightarrow> string \<Rightarrow> (string \<rightharpoonup> string \<times> int) \<Rightarrow> int \<rightharpoonup> ownership" where
  "etcd_view parse pre m k =
     (if k < 0 then None
      else case m (shard_key pre k) of
             None \<Rightarrow> None
           | Some (v, r) \<Rightarrow> (case parse v of Inl e \<Rightarrow> None | Inr x \<Rightarrow> Some (x\<lparr>ow_shard_id := k\<rparr>)))"

lemma etcd_lawsD:
  assumes "etcd_laws cl kv"
  shows "kv_get cl k s = (Inr r, s') \<Longrightarrow> kv s' = kv s \<and> r = kv s k"
    "kv_get cl k s = (Inl e, s') \<Longrightarrow> kv s' = kv s"
    "kv_get_prefix cl p s = (Inr vs, s') \<Longrightarrow> kv s' = kv s \<and>
       (\<exists>ks. distinct ks \<and> set ks = {k \<in> dom (kv s). prefix p k} \<and> vs = map (\<lambda>k. fst (the (kv s k))) ks)"
    "kv_get_prefix cl p s = (Inl e, s') \<Longrightarrow> kv s' = kv s"
    "kv_txn_put cl k cmp v s = (Inr won, s') \<Longrightarrow> won = txn_holds (kv s k) cmp \<and>
       (if won then \<exists>r. kv s' = (kv s)(k \<mapsto> (v, r)) else kv s' = kv s)"
    "kv_txn_put cl k cmp v s = (Inl e, s') \<Longrightarrow>
       kv s' = kv s \<or> (txn_holds (kv s k) cmp \<and> (\<exists>r. kv s' = (kv s)(k \<mapsto> (v, r))))"
proof -
  note L = assms[unfolded etcd_laws_def]
  note G = L[THEN conjunct1, THEN spec, THEN spec, of s k]
  note P = L[THEN conjunct2, THEN conjunct1, THEN spec, THEN spec, of s p]
  note T = L[THEN conjunct2, THEN conjunct2, THEN spec, THEN spec, THEN spec, THEN spec, of s k cmp v]
  show "kv_get cl k s = (Inr r, s') \<Longrightarrow> kv s' = kv s \<and> r = kv s k"
    "kv_get cl k s = (Inl e, s') \<Longrightarrow> kv s' = kv s" using G by simp_all
  show "kv_get_prefix cl p s = (Inr vs, s') \<Longrightarrow> kv s' = kv s \<and>
       (\<exists>ks. distinct ks \<and> set ks = {k \<in> dom (kv s). prefix p k} \<and> vs = map (\<lambda>k. fst (the (kv s k))) ks)"
    "kv_get_prefix cl p s = (Inl e, s') \<Longrightarrow> kv s' = kv s" using P by simp_all
  show "kv_txn_put cl k cmp v s = (Inr won, s') \<Longrightarrow> won = txn_holds (kv s k) cmp \<and>
       (if won then \<exists>r. kv s' = (kv s)(k \<mapsto> (v, r)) else kv s' = kv s)"
    "kv_txn_put cl k cmp v s = (Inl e, s') \<Longrightarrow>
       kv s' = kv s \<or> (txn_holds (kv s k) cmp \<and> (\<exists>r. kv s' = (kv s)(k \<mapsto> (v, r))))" using T by simp_all
qed

lemma shard_key_inj: "shard_key pre j = shard_key pre k \<Longrightarrow> j = k"
  by (auto simp: shard_key_def dest: itoa_inj)

lemma prefix_shard_key [simp]: "prefix (shards_prefix pre) (shard_key pre k)"
  by (simp add: shard_key_def)

lemma owners_wf_key:
  assumes w: "owners_wf pre m" and k: "m (shard_key pre k) = Some (v, r)"
  obtains n e where "v = marshal_ownership \<lparr>ow_shard_id = k, ow_node_id = n, ow_epoch = e\<rparr>"
    "0 \<le> k" "in64 k" "in64 n" "in64 e"
proof -
  obtain x where x: "shard_key pre k = shard_key pre (ow_shard_id x)" "v = marshal_ownership x" "0 \<le> ow_shard_id x"
    "in64 (ow_shard_id x)" "in64 (ow_node_id x)" "in64 (ow_epoch x)"
    using w k unfolding owners_wf_def by (metis prefix_shard_key)
  obtain j n e where X: "x = \<lparr>ow_shard_id = j, ow_node_id = n, ow_epoch = e\<rparr>" by (cases x) blast
  have "j = k" using shard_key_inj[OF x(1)] X by simp
  then show ?thesis using that[of n e] x(2-6) X by simp
qed

lemma etcd_view_eq:
  assumes w: "owners_wf pre m" and p: "parser_ok parse"
  shows "etcd_view parse pre m k = Some x \<longleftrightarrow>
    (\<exists>r. m (shard_key pre k) = Some (marshal_ownership x, r) \<and> ow_shard_id x = k \<and> 0 \<le> k \<and>
         in64 k \<and> in64 (ow_node_id x) \<and> in64 (ow_epoch x))"
proof
  assume v: "etcd_view parse pre m k = Some x"
  then obtain d r where d: "m (shard_key pre k) = Some (d, r)" by (auto simp: etcd_view_def split: if_splits option.splits)
  obtain n e where D: "d = marshal_ownership \<lparr>ow_shard_id = k, ow_node_id = n, ow_epoch = e\<rparr>"
    "0 \<le> k" "in64 k" "in64 n" "in64 e" by (rule owners_wf_key[OF w d])
  have "parse d = Inr \<lparr>ow_shard_id = k, ow_node_id = n, ow_epoch = e\<rparr>" using p D by (simp add: parser_ok_def)
  then show "\<exists>r. m (shard_key pre k) = Some (marshal_ownership x, r) \<and> ow_shard_id x = k \<and> 0 \<le> k \<and>
         in64 k \<and> in64 (ow_node_id x) \<and> in64 (ow_epoch x)" using v d D by (auto simp: etcd_view_def)
next
  assume "\<exists>r. m (shard_key pre k) = Some (marshal_ownership x, r) \<and> ow_shard_id x = k \<and> 0 \<le> k \<and>
         in64 k \<and> in64 (ow_node_id x) \<and> in64 (ow_epoch x)"
  then show "etcd_view parse pre m k = Some x" using p by (auto simp: etcd_view_def parser_ok_def)
qed

lemma etcd_view_None:
  assumes w: "owners_wf pre m" and p: "parser_ok parse" and k: "0 \<le> k"
  shows "etcd_view parse pre m k = None \<longleftrightarrow> m (shard_key pre k) = None"
proof (cases "m (shard_key pre k)")
  case (Some z)
  obtain d r where z: "z = (d, r)" by fastforce
  obtain n e where D: "d = marshal_ownership \<lparr>ow_shard_id = k, ow_node_id = n, ow_epoch = e\<rparr>"
    "0 \<le> k" "in64 k" "in64 n" "in64 e" by (rule owners_wf_key[OF w Some[unfolded z]])
  have "parse d = Inr \<lparr>ow_shard_id = k, ow_node_id = n, ow_epoch = e\<rparr>" using p D by (simp add: parser_ok_def)
  then show ?thesis using Some z k by (simp add: etcd_view_def)
qed (use k in \<open>simp add: etcd_view_def\<close>)

lemma decode_all_ok:
  "parser_ok parse \<Longrightarrow> \<forall>x \<in> set xs. in64 (ow_shard_id x) \<and> in64 (ow_node_id x) \<and> in64 (ow_epoch x) \<Longrightarrow>
   decode_all parse (map marshal_ownership xs) = Inr xs"
  by (induction xs) (simp_all add: decode_ownership_def parser_ok_def)

text \<open>What a prefix read decodes to: every owner once.\<close>

lemma etcd_list_ok:
  assumes w: "owners_wf pre m" and p: "parser_ok parse"
    and ks: "distinct ks" "set ks = {k \<in> dom m. prefix (shards_prefix pre) k}"
    and vs: "vs = map (\<lambda>k. fst (the (m k))) ks"
  obtains xs where "decode_all parse vs = Inr xs" "distinct (map ow_shard_id xs)" "set xs = ran (etcd_view parse pre m)"
proof -
  define own where "own = (\<lambda>key. SOME x. key = shard_key pre (ow_shard_id x) \<and> fst (the (m key)) = marshal_ownership x \<and>
      0 \<le> ow_shard_id x \<and> in64 (ow_shard_id x) \<and> in64 (ow_node_id x) \<and> in64 (ow_epoch x))"
  have own: "key = shard_key pre (ow_shard_id (own key)) \<and> fst (the (m key)) = marshal_ownership (own key) \<and>
      0 \<le> ow_shard_id (own key) \<and> in64 (ow_shard_id (own key)) \<and> in64 (ow_node_id (own key)) \<and> in64 (ow_epoch (own key))"
    if mem: "key \<in> set ks" for key
  proof -
    obtain v r where "m key = Some (v, r)" using mem ks(2) by auto
    moreover have "prefix (shards_prefix pre) key" using mem ks(2) by simp
    ultimately have "\<exists>x. key = shard_key pre (ow_shard_id x) \<and> fst (the (m key)) = marshal_ownership x \<and>
      0 \<le> ow_shard_id x \<and> in64 (ow_shard_id x) \<and> in64 (ow_node_id x) \<and> in64 (ow_epoch x)"
      using w unfolding owners_wf_def by (metis fst_conv option.sel)
    from someI_ex[OF this] show ?thesis unfolding own_def .
  qed
  let ?xs = "map own ks"
  have "vs = map marshal_ownership ?xs" unfolding vs using own by simp
  then have d: "decode_all parse vs = Inr ?xs" using decode_all_ok[OF p, of ?xs] own by auto
  have "inj_on (\<lambda>key. ow_shard_id (own key)) (set ks)" by (rule inj_onI) (metis own)
  then have "distinct (map ow_shard_id ?xs)" using ks(1) by (simp add: distinct_map comp_inj_on comp_def)
  moreover have "set ?xs = ran (etcd_view parse pre m)"
  proof (intro equalityI subsetI)
    fix x assume "x \<in> set ?xs"
    then obtain key where key: "key \<in> set ks" "x = own key" by auto
    obtain v r where m: "m key = Some (v, r)" using key ks(2) by auto
    have "m (shard_key pre (ow_shard_id x)) = Some (marshal_ownership x, r)"
      using own[OF key(1)] m key(2) by (metis fst_conv option.sel)
    then have "etcd_view parse pre m (ow_shard_id x) = Some x"
      using own[OF key(1)] key(2) by (simp add: etcd_view_eq[OF w p])
    then show "x \<in> ran (etcd_view parse pre m)" by (rule ranI)
  next
    fix x assume "x \<in> ran (etcd_view parse pre m)"
    then obtain k r where k: "m (shard_key pre k) = Some (marshal_ownership x, r)" "ow_shard_id x = k"
      "in64 k" "in64 (ow_node_id x)" "in64 (ow_epoch x)"
      by (auto simp: ran_def etcd_view_eq[OF w p])
    then have mem: "shard_key pre k \<in> set ks" using ks(2) by auto
    from own[OF this] have "marshal_ownership (own (shard_key pre k)) = marshal_ownership x" "in64 (ow_shard_id (own (shard_key pre k)))"
      "in64 (ow_node_id (own (shard_key pre k)))" "in64 (ow_epoch (own (shard_key pre k)))"
      using k(1) by simp_all
    then have "own (shard_key pre k) = x" using p k unfolding parser_ok_def by (metis sum.inject(2))
    then show "x \<in> set ?xs" using mem by force
  qed
  ultimately show ?thesis using that d by blast
qed

lemma assigned_step:
  assumes w: "owners_wf pre m" and p: "parser_ok parse" and k: "0 \<le> k" "in64 k" "in64 n" "in64 ep"
    and ep: "\<And>x. etcd_view parse pre m k = Some x \<Longrightarrow>
      ow_epoch x \<noteq> ep \<and> (ow_epoch x < 2 ^ 63 - 1 \<longrightarrow> ow_epoch x < ep)"
    and m': "m' = m(shard_key pre k \<mapsto> (marshal_ownership \<lparr>ow_shard_id = k, ow_node_id = n, ow_epoch = ep\<rparr>, r))"
  shows "owners_wf pre m'" "assigned k n (etcd_view parse pre m) (etcd_view parse pre m')"
proof -
  let ?x = "\<lparr>ow_shard_id = k, ow_node_id = n, ow_epoch = ep\<rparr>"
  show "owners_wf pre m'"
    unfolding owners_wf_def
  proof (intro allI impI)
    fix key v r'
    assume a: "m' key = Some (v, r')" "prefix (shards_prefix pre) key"
    show "\<exists>x. key = shard_key pre (ow_shard_id x) \<and> v = marshal_ownership x \<and> 0 \<le> ow_shard_id x \<and>
             in64 (ow_shard_id x) \<and> in64 (ow_node_id x) \<and> in64 (ow_epoch x)"
    proof (cases "key = shard_key pre k")
      case True
      then show ?thesis using a m' k by (intro exI[of _ ?x]) simp
    next
      case False
      then show ?thesis using a m' w unfolding owners_wf_def by simp
    qed
  qed
  have "parse (marshal_ownership ?x) = Inr ?x" using p k by (simp add: parser_ok_def)
  then have "etcd_view parse pre m' j = ((etcd_view parse pre m)(k \<mapsto> ?x)) j" for j
    using k by (auto simp: etcd_view_def m' dest: shard_key_inj)
  then show "assigned k n (etcd_view parse pre m) (etcd_view parse pre m')"
    unfolding assigned_def using ep by (intro exI[of _ ep]) (auto simp: fun_eq_iff)
qed

lemma try_assign_ok:
  assumes L: "etcd_laws cl kv" and w: "owners_wf pre (kv s)" and p: "parser_ok parse"
    and k: "0 \<le> k" "in64 k" "in64 n" and e: "try_assign cl parse (shard_key pre k) k n s = (r, s')"
  shows "owners_wf pre (kv s')"
    "r = Inr won \<Longrightarrow> won \<and> assigned k n (etcd_view parse pre (kv s)) (etcd_view parse pre (kv s'))"
    "r = Inl err \<Longrightarrow> kv s' = kv s \<or> assigned k n (etcd_view parse pre (kv s)) (etcd_view parse pre (kv s'))"
proof -
  note D = etcd_lawsD[OF L]
  let ?key = "shard_key pre k"
  have one: "in64 1" by (simp add: in64_def)
  have "owners_wf pre (kv s') \<and>
    (\<forall>won. r = Inr won \<longrightarrow> won \<and> assigned k n (etcd_view parse pre (kv s)) (etcd_view parse pre (kv s'))) \<and>
    (\<forall>err. r = Inl err \<longrightarrow> kv s' = kv s \<or> assigned k n (etcd_view parse pre (kv s)) (etcd_view parse pre (kv s')))"
  proof (cases "kv_get cl ?key s")
    case (Pair g s1)
    show ?thesis
    proof (cases g)
      case (Inl err)
      then have "r = Inl (ErrWrap ''get ownership before assign: %w'' err)" "s' = s1"
        using e Pair by (simp_all add: try_assign_def ebind_def wrap_err_def)
      then show ?thesis using D(2)[of ?key s err s1] Pair Inl w by simp
    next
      case (Inr cur)
      have g: "kv s1 = kv s" "cur = kv s ?key" using D(1)[of ?key s cur s1] Pair Inr by simp_all
      define ep where "ep = (case cur of None \<Rightarrow> 1 | Some (v, mrev) \<Rightarrow>
         (case parse v of Inl e \<Rightarrow> 0 | Inr x \<Rightarrow> wrap64 (ow_epoch x + 1)))"
      define cmp where "cmp = map_option snd cur"
      let ?val = "marshal_ownership \<lparr>ow_shard_id = k, ow_node_id = n, ow_epoch = ep\<rparr>"
      have P: "cur \<noteq> None \<Longrightarrow> \<exists>x r. cur = Some (marshal_ownership x, r) \<and> parse (marshal_ownership x) = Inr x \<and>
          in64 (ow_epoch x) \<and> etcd_view parse pre (kv s) k = Some x"
      proof -
        assume "cur \<noteq> None"
        then obtain v mrev where c: "kv s ?key = Some (v, mrev)" using g(2) by auto
        obtain n' e' where X: "v = marshal_ownership \<lparr>ow_shard_id = k, ow_node_id = n', ow_epoch = e'\<rparr>"
          "in64 k" "in64 n'" "in64 e'" by (rule owners_wf_key[OF w c])
        then have "parse v = Inr \<lparr>ow_shard_id = k, ow_node_id = n', ow_epoch = e'\<rparr>" using p by (simp add: parser_ok_def)
        then show ?thesis using c g(2) X k by (auto simp: etcd_view_def)
      qed
      have run: "try_assign cl parse ?key k n s = wrap_err ''assign ownership in etcd: %w'' (kv_txn_put cl ?key cmp ?val) s1"
        using Pair Inr P unfolding try_assign_def
        by (cases cur) (auto simp: ebind_def wrap_err_def ep_def cmp_def decode_ownership_def next_ownership_def split: prod.splits sum.splits)
      have holds: "txn_holds (kv s1 ?key) cmp"
      proof -
        have "kv s1 ?key = cur" using g by simp
        then show ?thesis by (cases cur) (auto simp: txn_holds_def cmp_def)
      qed
      have ep: "in64 ep" using P one by (cases cur) (auto simp: ep_def)
      have fresh: "ow_epoch x \<noteq> ep \<and> (ow_epoch x < 2 ^ 63 - 1 \<longrightarrow> ow_epoch x < ep)"
        if "etcd_view parse pre (kv s) k = Some x" for x
      proof -
        have "cur \<noteq> None" using that g(2) by (auto simp: etcd_view_def simp flip: g(2) split: if_splits option.splits)
        then obtain y r where y: "cur = Some (marshal_ownership y, r)" "parse (marshal_ownership y) = Inr y"
          "in64 (ow_epoch y)" "etcd_view parse pre (kv s) k = Some y" using P by blast
        then have "ep = wrap64 (ow_epoch x + 1)" "in64 (ow_epoch x)" using that by (simp_all add: ep_def)
        then show ?thesis using wrap64_succ[of "ow_epoch x"] by (auto simp: in64_def)
      qed
      note A = assigned_step[OF w p k ep fresh]
      obtain t s2 where T: "kv_txn_put cl ?key cmp ?val s1 = (t, s2)" by fastforce
      show ?thesis
      proof (cases t)
        case (Inl err)
        then have r: "r = Inl (ErrWrap ''assign ownership in etcd: %w'' err)" "s' = s2"
          using e run T by (simp_all add: wrap_err_def)
        have "kv s2 = kv s \<or> (\<exists>r. kv s2 = (kv s)(?key \<mapsto> (?val, r)))"
          using D(6)[of ?key cmp ?val s1 err s2] T Inl g(1) by auto
        then show ?thesis using A[of "kv s2"] r w by auto
      next
        case (Inr won)
        then have r: "r = Inr won" "s' = s2" using e run T by (simp_all add: wrap_err_def)
        have "won \<and> (\<exists>r. kv s2 = (kv s)(?key \<mapsto> (?val, r)))"
          using D(5)[of ?key cmp ?val s1 won s2] T Inr g(1) holds by (auto split: if_splits)
        then show ?thesis using A[of "kv s2"] r w by auto
      qed
    qed
  qed
  then show "owners_wf pre (kv s')"
    "r = Inr won \<Longrightarrow> won \<and> assigned k n (etcd_view parse pre (kv s)) (etcd_view parse pre (kv s'))"
    "r = Inl err \<Longrightarrow> kv s' = kv s \<or> assigned k n (etcd_view parse pre (kv s)) (etcd_view parse pre (kv s'))"
    by simp_all
qed

lemma assign_attempts_ok:
  assumes L: "etcd_laws cl kv" and p: "parser_ok parse" and k: "0 \<le> k" "in64 k" "in64 n"
    and w: "owners_wf pre (kv s)" and e: "assign_attempts cl parse (shard_key pre k) k n (Suc m) s = (r, s')"
  shows "owners_wf pre (kv s')"
    "r = Inr u \<Longrightarrow> assigned k n (etcd_view parse pre (kv s)) (etcd_view parse pre (kv s'))"
    "r = Inl err \<Longrightarrow> kv s' = kv s \<or> assigned k n (etcd_view parse pre (kv s)) (etcd_view parse pre (kv s'))"
proof -
  obtain t s1 where t: "try_assign cl parse (shard_key pre k) k n s = (t, s1)" by fastforce
  note T = try_assign_ok[OF L w p k t]
  have "(case t of Inr won \<Rightarrow> r = Inr () \<and> won | Inl e \<Rightarrow> r = Inl e) \<and> s' = s1"
    using e t T(2) by (cases t) (auto simp: ebind_def)
  then show "owners_wf pre (kv s')"
    "r = Inr u \<Longrightarrow> assigned k n (etcd_view parse pre (kv s)) (etcd_view parse pre (kv s'))"
    "r = Inl err \<Longrightarrow> kv s' = kv s \<or> assigned k n (etcd_view parse pre (kv s)) (etcd_view parse pre (kv s'))"
    using T by (auto split: sum.splits)
qed

lemma list_reads:
  assumes L: "etcd_laws cl kv" and p: "parser_ok parse" and w: "owners_wf pre (kv s)"
    and e: "ebind (wrap_err msg (kv_get_prefix cl (shards_prefix pre)))
              (\<lambda>vs. ebind (lift_res (decode_all parse vs)) (\<lambda>xs. ret (f xs))) s = (r, s')"
  shows "kv s' = kv s"
    "r = Inr ys \<Longrightarrow> \<exists>xs. ys = f xs \<and> distinct (map ow_shard_id xs) \<and> set xs = ran (etcd_view parse pre (kv s))"
proof -
  obtain g s1 where g: "kv_get_prefix cl (shards_prefix pre) s = (g, s1)" by fastforce
  have "kv s' = kv s \<and> (\<forall>ys. r = Inr ys \<longrightarrow>
      (\<exists>xs. ys = f xs \<and> distinct (map ow_shard_id xs) \<and> set xs = ran (etcd_view parse pre (kv s))))"
  proof (cases g)
    case (Inl err)
    then show ?thesis using e g etcd_lawsD(4)[OF L, of "shards_prefix pre" s err s1] by (auto simp: ebind_def wrap_err_def)
  next
    case (Inr vs)
    obtain ks where k: "kv s1 = kv s" "distinct ks" "set ks = {k \<in> dom (kv s). prefix (shards_prefix pre) k}"
      "vs = map (\<lambda>k. fst (the (kv s k))) ks"
      using etcd_lawsD(3)[OF L, of "shards_prefix pre" s vs s1] g Inr by auto
    obtain xs where x: "decode_all parse vs = Inr xs" "distinct (map ow_shard_id xs)" "set xs = ran (etcd_view parse pre (kv s))"
      by (rule etcd_list_ok[OF w p k(2-4)])
    then show ?thesis using e g Inr k(1) by (auto simp: ebind_def wrap_err_def)
  qed
  then show "kv s' = kv s"
    "r = Inr ys \<Longrightarrow> \<exists>xs. ys = f xs \<and> distinct (map ow_shard_id xs) \<and> set xs = ran (etcd_view parse pre (kv s))"
    by simp_all
qed

text \<open>The etcd store keeps the contract of the interface.\<close>

lemma etcd_store_contract:
  assumes L: "etcd_laws cl kv" and p: "parser_ok parse"
  shows "ownership_lister (etcd_ops cl parse pre) (\<lambda>s. etcd_view parse pre (kv s)) (\<lambda>s. owners_wf pre (kv s))"
proof (unfold_locales, goal_cases)
  case (1 s k r s')
  then have o: "etcd_owner_of cl parse pre k s = (Inr r, s')" and w: "owners_wf pre (kv s)" by (simp_all add: etcd_ops_def)
  then have k: "0 \<le> k" by (auto simp: etcd_owner_of_def split: if_splits)
  obtain g s1 where g: "kv_get cl (shard_key pre k) s = (g, s1)" by fastforce
  then obtain cur where c: "g = Inr cur" using o k by (cases g) (auto simp: etcd_owner_of_def ebind_def wrap_err_def)
  have G: "kv s1 = kv s" "cur = kv s (shard_key pre k)"
    using etcd_lawsD(1)[OF L, of "shard_key pre k" s cur s1] g c by simp_all
  have "s' = s1 \<and> r = etcd_view parse pre (kv s) k"
  proof (cases cur)
    case None
    then show ?thesis using o k g c G(2) by (simp add: etcd_owner_of_def ebind_def wrap_err_def etcd_view_def)
  next
    case (Some z)
    then show ?thesis using o k g c G(2)
      by (cases z) (auto simp: etcd_owner_of_def ebind_def wrap_err_def etcd_view_def decode_ownership_def split: sum.splits)
  qed
  then show ?case using G w by simp
next
  case (2 s k e s')
  then have o: "etcd_owner_of cl parse pre k s = (Inl e, s')" and w: "owners_wf pre (kv s)" by (simp_all add: etcd_ops_def)
  obtain g s1 where g: "kv_get cl (shard_key pre k) s = (g, s1)" by fastforce
  have "kv s1 = kv s" using etcd_lawsD(1,2)[OF L, of "shard_key pre k" s _ s1] g by (cases g) auto
  moreover have "s' = s \<or> s' = s1"
    using o g by (auto simp: etcd_owner_of_def ebind_def wrap_err_def decode_ownership_def split: if_splits sum.splits option.splits)
  ultimately show ?case using w by auto
next
  case (3 s n os s')
  then have o: "etcd_shards_for_node cl parse pre n s = (Inr os, s')" and w: "owners_wf pre (kv s)" by (simp_all add: etcd_ops_def)
  then have n: "0 < n" by (auto simp: etcd_shards_for_node_def split: if_splits)
  have o': "ebind (wrap_err ''list ownership from etcd: %w'' (kv_get_prefix cl (shards_prefix pre)))
        (\<lambda>vs. ebind (lift_res (decode_all parse vs))
          (\<lambda>xs. ret (sort_key ow_shard_id (filter (\<lambda>x. ow_node_id x = n) xs)))) s = (Inr os, s')"
    using o n by (simp add: etcd_shards_for_node_def)
  obtain xs where x: "kv s' = kv s" "os = sort_key ow_shard_id (filter (\<lambda>x. ow_node_id x = n) xs)"
    "distinct (map ow_shard_id xs)" "set xs = ran (etcd_view parse pre (kv s))"
    using list_reads(1)[OF L p w o'] list_reads(2)[OF L p w o', of os] by auto
  show ?case
    using x w distinct_sort_filter[OF x(3), of "\<lambda>x. ow_node_id x = n"] by (auto simp: ran_def)
next
  case (4 s n e s')
  then have o: "etcd_shards_for_node cl parse pre n s = (Inl e, s')" and w: "owners_wf pre (kv s)" by (simp_all add: etcd_ops_def)
  show ?case
  proof (cases "n \<le> 0")
    case False
    then have o': "ebind (wrap_err ''list ownership from etcd: %w'' (kv_get_prefix cl (shards_prefix pre)))
        (\<lambda>vs. ebind (lift_res (decode_all parse vs))
          (\<lambda>xs. ret (sort_key ow_shard_id (filter (\<lambda>x. ow_node_id x = n) xs)))) s = (Inl e, s')"
      using o by (simp add: etcd_shards_for_node_def)
    show ?thesis using list_reads(1)[OF L p w o'] w by simp
  qed (use o w in \<open>simp add: etcd_shards_for_node_def\<close>)
next
  case (5 k n s u s')
  then have o: "etcd_assign cl parse pre k n s = (Inr u, s')" and w: "owners_wf pre (kv s)" by (simp_all add: etcd_ops_def)
  then have k: "0 \<le> k" and a: "assign_attempts cl parse (shard_key pre k) k n (Suc 7) s = (Inr u, s')"
    by (auto simp: etcd_assign_def maxEtcdAssignRetries_def numeral_eq_Suc split: if_splits)
  show ?case using assign_attempts_ok[OF L p k 5(1,2) w a] by simp
next
  case (6 k n s e s')
  then have o: "etcd_assign cl parse pre k n s = (Inl e, s')" and w: "owners_wf pre (kv s)" by (simp_all add: etcd_ops_def)
  show ?case
  proof (cases "0 \<le> k \<and> 0 < n")
    case True
    then have a: "assign_attempts cl parse (shard_key pre k) k n (Suc 7) s = (Inl e, s')"
      using o by (auto simp: etcd_assign_def maxEtcdAssignRetries_def numeral_eq_Suc)
    have k: "0 \<le> k" using True by simp
    show ?thesis using assign_attempts_ok[OF L p k 6(1,2) w a] by auto
  next
    case False
    then show ?thesis using o w by (auto simp: etcd_assign_def split: if_splits)
  qed
next
  case (7 s k x)
  then show ?case by (auto simp: etcd_view_eq[OF _ p])
next
  case (8 s os s')
  then have o: "etcd_all_ownerships cl parse pre s = (Inr os, s')" and w: "owners_wf pre (kv s)" by (simp_all add: etcd_ops_def)
  obtain xs where x: "kv s' = kv s" "os = sort_key ow_shard_id xs"
    "distinct (map ow_shard_id xs)" "set xs = ran (etcd_view parse pre (kv s))"
    using list_reads(1)[OF L p w o[unfolded etcd_all_ownerships_def]]
      list_reads(2)[OF L p w o[unfolded etcd_all_ownerships_def], of os] by auto
  show ?case using x w distinct_sort_filter[OF x(3), of "\<lambda>x. True"] by simp
next
  case (9 s e s')
  then have o: "etcd_all_ownerships cl parse pre s = (Inl e, s')" and w: "owners_wf pre (kv s)" by (simp_all add: etcd_ops_def)
  show ?case using list_reads(1)[OF L p w o[unfolded etcd_all_ownerships_def]] w by simp
qed

end
