(* ===== verification/EtcdRef.thy ===== *)
theory EtcdRef
  imports Ownership
begin

text \<open>
  A concrete etcd client and a concrete parser that satisfy \<open>etcd_laws\<close> and \<open>parser_ok\<close>: the
  instance on which the etcd store's contract is interpreted and the properties that assume these
  laws are exercised. Nothing here models code of the repository.
\<close>

section \<open>A sequential etcd\<close>

record etcd_db =
  db_kv :: "(string \<times> string \<times> int) list"
  db_rev :: int

definition ref_get :: "string \<Rightarrow> (etcd_db, (string \<times> int) option) eff" where
  "ref_get k = (\<lambda>s. (Inr (map_of (db_kv s) k), s))"

definition ref_get_prefix :: "string \<Rightarrow> (etcd_db, string list) eff" where
  "ref_get_prefix p = (\<lambda>s.
     (Inr (map (\<lambda>k. fst (the (map_of (db_kv s) k))) (filter (prefix p) (remdups (map fst (db_kv s))))), s))"

definition ref_txn_put :: "string \<Rightarrow> int option \<Rightarrow> string \<Rightarrow> (etcd_db, bool) eff" where
  "ref_txn_put k cmp v = (\<lambda>s.
     if (case cmp of None \<Rightarrow> map_of (db_kv s) k = None
         | Some r \<Rightarrow> (case map_of (db_kv s) k of None \<Rightarrow> False | Some (w, r') \<Rightarrow> r = r'))
     then (Inr True, s\<lparr>db_kv := AList.update k (v, db_rev s + 1) (db_kv s), db_rev := db_rev s + 1\<rparr>)
     else (Inr False, s))"

definition ref_client :: "etcd_db etcd_client" where
  "ref_client = \<lparr>kv_get = ref_get, kv_get_prefix = ref_get_prefix, kv_txn_put = ref_txn_put\<rparr>"

definition ref_view :: "etcd_db \<Rightarrow> string \<rightharpoonup> string \<times> int" where
  "ref_view s = map_of (db_kv s)"

definition ref_empty :: etcd_db where
  "ref_empty = \<lparr>db_kv = [], db_rev = 0\<rparr>"

lemma ref_txn_ok:
  assumes "ref_txn_put k cmp v s = (t, s')"
  obtains won where "t = Inr won" "won = txn_holds (ref_view s k) cmp"
    "if won then \<exists>r. ref_view s' = (ref_view s)(k \<mapsto> (v, r)) else ref_view s' = ref_view s"
proof -
  have "txn_holds (ref_view s k) cmp \<longleftrightarrow> (case cmp of None \<Rightarrow> map_of (db_kv s) k = None
         | Some r \<Rightarrow> (case map_of (db_kv s) k of None \<Rightarrow> False | Some (w, r') \<Rightarrow> r = r'))"
    by (auto simp: txn_holds_def ref_view_def split: option.split)
  then have e: "ref_txn_put k cmp v s = (if txn_holds (ref_view s k) cmp
      then (Inr True, s\<lparr>db_kv := AList.update k (v, db_rev s + 1) (db_kv s), db_rev := db_rev s + 1\<rparr>)
      else (Inr False, s))" by (simp add: ref_txn_put_def)
  show ?thesis
  proof (cases "txn_holds (ref_view s k) cmp")
    case True
    then have "(t, s') = (Inr True, s\<lparr>db_kv := AList.update k (v, db_rev s + 1) (db_kv s), db_rev := db_rev s + 1\<rparr>)"
      using assms unfolding e by simp
    then have 1: "t = Inr True" and 2: "ref_view s' = (ref_view s)(k \<mapsto> (v, db_rev s + 1))"
      by (simp_all add: ref_view_def update_conv')
    show ?thesis
    proof (rule that[OF 1])
      show "if True then \<exists>r. ref_view s' = (ref_view s)(k \<mapsto> (v, r)) else ref_view s' = ref_view s"
        unfolding if_True by (rule exI[of _ "db_rev s + 1"]) (rule 2)
    qed (simp add: True)
  next
    case False
    then have "(t, s') = (Inr False, s)" using assms unfolding e by simp
    then show ?thesis using False by (intro that[of False]) simp_all
  qed
qed

lemma ref_laws: "etcd_laws ref_client ref_view"
  unfolding etcd_laws_def ref_client_def etcd_client.simps
proof (intro conjI allI)
  fix s :: etcd_db and k
  show "case ref_get k s of (Inr r, s') \<Rightarrow> ref_view s' = ref_view s \<and> r = ref_view s k
      | (Inl e, s') \<Rightarrow> ref_view s' = ref_view s"
    by (simp add: ref_get_def ref_view_def)
next
  fix s :: etcd_db and p
  let ?ks = "filter (prefix p) (remdups (map fst (db_kv s)))"
  have "distinct ?ks \<and> set ?ks = {k \<in> dom (ref_view s). prefix p k}"
    by (auto simp: ref_view_def dom_map_of_conv_image_fst)
  moreover have "map (\<lambda>k. fst (the (map_of (db_kv s) k))) ?ks = map (\<lambda>k. fst (the (ref_view s k))) ?ks"
    by (simp add: ref_view_def)
  ultimately have "\<exists>ks. distinct ks \<and> set ks = {k \<in> dom (ref_view s). prefix p k} \<and>
      map (\<lambda>k. fst (the (map_of (db_kv s) k))) ?ks = map (\<lambda>k. fst (the (ref_view s k))) ks" by blast
  then show "case ref_get_prefix p s of
        (Inr vs, s') \<Rightarrow> ref_view s' = ref_view s \<and>
          (\<exists>ks. distinct ks \<and> set ks = {k \<in> dom (ref_view s). prefix p k} \<and> vs = map (\<lambda>k. fst (the (ref_view s k))) ks)
      | (Inl e, s') \<Rightarrow> ref_view s' = ref_view s"
    unfolding ref_get_prefix_def prod.case sum.case by simp
next
  fix s :: etcd_db and k cmp v
  obtain t s' where t: "ref_txn_put k cmp v s = (t, s')" by fastforce
  obtain won where "t = Inr won" "won = txn_holds (ref_view s k) cmp"
    "if won then \<exists>r. ref_view s' = (ref_view s)(k \<mapsto> (v, r)) else ref_view s' = ref_view s"
    by (rule ref_txn_ok[OF t])
  then show "case ref_txn_put k cmp v s of
        (Inr won, s') \<Rightarrow> won = txn_holds (ref_view s k) cmp \<and>
          (if won then \<exists>r. ref_view s' = (ref_view s)(k \<mapsto> (v, r)) else ref_view s' = ref_view s)
      | (Inl e, s') \<Rightarrow> ref_view s' = ref_view s \<or>
          (txn_holds (ref_view s k) cmp \<and> (\<exists>r. ref_view s' = (ref_view s)(k \<mapsto> (v, r))))"
    unfolding t by simp
qed

section \<open>A parser for what \<open>json.Marshal\<close> writes\<close>

definition eat :: "string \<Rightarrow> string \<Rightarrow> go_error + string" where
  "eat lit s = (if prefix lit s then Inr (drop (length lit) s) else Inl (ErrMsg ''invalid character'' []))"

definition is_int_char :: "char \<Rightarrow> bool" where
  "is_int_char c \<longleftrightarrow> is_digit c \<or> c = CHR ''-''"

definition eat_int :: "string \<Rightarrow> go_error + int \<times> string" where
  "eat_int s = (case atoi (takeWhile is_int_char s) of Inl e \<Rightarrow> Inl e | Inr i \<Rightarrow> Inr (i, dropWhile is_int_char s))"

definition quoted :: "string \<Rightarrow> string" where
  "quoted s = [CHR 0x22] @ s @ [CHR 0x22]"

definition ref_parse :: ownership_parser where
  "ref_parse s =
     (case eat (''{'' @ quoted ''ShardID'' @ '':'') s of Inl e \<Rightarrow> Inl e | Inr s1 \<Rightarrow>
     (case eat_int s1 of Inl e \<Rightarrow> Inl e | Inr (k, s2) \<Rightarrow>
     (case eat ('','' @ quoted ''NodeID'' @ '':'') s2 of Inl e \<Rightarrow> Inl e | Inr s3 \<Rightarrow>
     (case eat_int s3 of Inl e \<Rightarrow> Inl e | Inr (n, s4) \<Rightarrow>
     (case eat ('','' @ quoted ''Epoch'' @ '':'') s4 of Inl e \<Rightarrow> Inl e | Inr s5 \<Rightarrow>
     (case eat_int s5 of Inl e \<Rightarrow> Inl e | Inr (ep, s6) \<Rightarrow>
       if s6 = ''}'' then Inr \<lparr>ow_shard_id = k, ow_node_id = n, ow_epoch = ep\<rparr>
       else Inl (ErrMsg ''invalid character'' [])))))))"

lemma eat_append [simp]: "eat lit (lit @ s) = Inr s"
  by (simp add: eat_def)

lemma nat_digits_int_chars: "\<forall>c \<in> set (nat_digits n). is_int_char c"
  using nat_digits_ok[of n] by (auto simp: is_int_char_def list_all_iff)

lemma itoa_int_chars: "\<forall>c \<in> set (itoa i). is_int_char c"
  using nat_digits_int_chars by (auto simp: itoa_def is_int_char_def)

lemma eat_int_itoa: "in64 i \<Longrightarrow> \<not> is_int_char c \<Longrightarrow> eat_int (itoa i @ c # s) = Inr (i, c # s)"
  using itoa_int_chars[of i]
  by (simp add: eat_int_def atoi_itoa takeWhile_append2 dropWhile_append2)

lemma not_int_chars: "\<not> is_int_char (CHR '','')" "\<not> is_int_char (CHR ''}'')"
  by (simp_all add: is_int_char_def is_digit_def)

lemma ref_parser_ok: "parser_ok ref_parse"
  unfolding parser_ok_def
proof (intro allI impI)
  fix x :: ownership
  assume i: "in64 (ow_shard_id x) \<and> in64 (ow_node_id x) \<and> in64 (ow_epoch x)"
  let ?S = "''{'' @ quoted ''ShardID'' @ '':''" and ?N = "'','' @ quoted ''NodeID'' @ '':''"
    and ?E = "'','' @ quoted ''Epoch'' @ '':''"
  have m: "marshal_ownership x = ?S @ (itoa (ow_shard_id x) @ (?N @ (itoa (ow_node_id x) @ (?E @ (itoa (ow_epoch x) @ ''}'')))))"
    by (simp add: marshal_ownership_def quoted_def)
  have 1: "eat_int (itoa (ow_shard_id x) @ (?N @ r)) = Inr (ow_shard_id x, ?N @ r)" for r
    using eat_int_itoa[OF _ not_int_chars(1), of "ow_shard_id x"] i by simp
  have 2: "eat_int (itoa (ow_node_id x) @ (?E @ r)) = Inr (ow_node_id x, ?E @ r)" for r
    using eat_int_itoa[OF _ not_int_chars(1), of "ow_node_id x"] i by simp
  have 3: "eat_int (itoa (ow_epoch x) @ ''}'') = Inr (ow_epoch x, ''}'')"
    using eat_int_itoa[OF _ not_int_chars(2), of "ow_epoch x"] i by simp
  show "ref_parse (marshal_ownership x) = Inr x"
    unfolding ref_parse_def m eat_append sum.case 1 prod.case 2 3 by simp
qed

interpretation etcd: ownership_lister "etcd_ops ref_client ref_parse pre"
    "\<lambda>s. etcd_view ref_parse pre (ref_view s)" "\<lambda>s. owners_wf pre (ref_view s)" for pre
  by (rule etcd_store_contract[OF ref_laws ref_parser_ok])

lemma ref_empty_ok: "owners_wf pre (ref_view ref_empty)" "etcd_view parse pre (ref_view ref_empty) = Map.empty"
  by (simp_all add: owners_wf_def ref_view_def ref_empty_def etcd_view_def fun_eq_iff)

end
