(* ===== verification/Epochs.thy ===== *)
theory Epochs
  imports EtcdRef
begin

text \<open>
  Concurrent assignments of one shard (\<open>tryAssign\<close> of \<open>internal/cluster/ownership\<close>): each process
  first reads the key, then submits its transaction; between the two any other process may read or
  commit. The steps are the two etcd requests of \<open>tryAssign\<close>; whether a process learns of its
  commit does not matter here.
\<close>

section \<open>The step relation\<close>

text \<open>
  The key with its modification revision, the store's revision, the transactions that are prepared
  (comparison and record to put), and, as a ghost, all records the key ever held, in order.
\<close>

record race =
  rc_key :: "(ownership \<times> int) option"
  rc_rev :: int
  rc_pending :: "(int option \<times> ownership) list"
  rc_history :: "ownership list"

definition race_start :: race where
  "race_start = \<lparr>rc_key = None, rc_rev = 0, rc_pending = [], rc_history = []\<rparr>"

text \<open>What \<open>tryAssign\<close> prepares after its read: the comparison and the next record.\<close>

definition prepare :: "int \<Rightarrow> int \<Rightarrow> (ownership \<times> int) option \<Rightarrow> int option \<times> ownership" where
  "prepare k n cur = (map_option snd cur, next_ownership k n (map_option fst cur))"

definition race_holds :: "(ownership \<times> int) option \<Rightarrow> int option \<Rightarrow> bool" where
  "race_holds cur cmp = (cmp = map_option snd cur)"

inductive race_step :: "int \<Rightarrow> race \<Rightarrow> race \<Rightarrow> bool" for k where
  read: "race_step k s (s\<lparr>rc_pending := rc_pending s @ [prepare k n (rc_key s)]\<rparr>)"
| commit: "rc_pending s = xs @ (cmp, x) # ys \<Longrightarrow> race_holds (rc_key s) cmp \<Longrightarrow> rc_rev s < rv \<Longrightarrow>
    race_step k s (s\<lparr>rc_key := Some (x, rv), rc_rev := rv, rc_pending := xs @ ys,
                     rc_history := rc_history s @ [x]\<rparr>)"
| conflict: "rc_pending s = xs @ (cmp, x) # ys \<Longrightarrow> \<not> race_holds (rc_key s) cmp \<Longrightarrow>
    race_step k s (s\<lparr>rc_pending := xs @ ys\<rparr>)"

inductive race_reachable :: "int \<Rightarrow> race \<Rightarrow> bool" for k where
  start: "race_reachable k race_start"
| step: "race_reachable k s \<Longrightarrow> race_step k s s' \<Longrightarrow> race_reachable k s'"

inductive_cases race_stepE: "race_step k s s'"

text \<open>
  The invariant: the key holds the last record of the history; the \<open>n\<close>-th record has epoch \<open>n\<close>;
  revisions only grow; and a prepared transaction whose comparison still holds carries the epoch
  that comes next.
\<close>

definition race_inv :: "race \<Rightarrow> bool" where
  "race_inv s \<longleftrightarrow>
     (case rc_key s of None \<Rightarrow> rc_history s = []
      | Some (x, r) \<Rightarrow> rc_history s \<noteq> [] \<and> x = last (rc_history s) \<and> r \<le> rc_rev s) \<and>
     (\<forall>i < length (rc_history s). ow_epoch (rc_history s ! i) = wrap64 (int i + 1)) \<and>
     (\<forall>(cmp, x) \<in> set (rc_pending s). (\<forall>r. cmp = Some r \<longrightarrow> r \<le> rc_rev s) \<and>
        (race_holds (rc_key s) cmp \<longrightarrow> ow_epoch x = wrap64 (int (length (rc_history s)) + 1)))"

lemma wrap64_wrap64_add: "wrap64 (wrap64 x + 1) = wrap64 (x + 1)"
proof -
  have "(wrap64 x + 1 + 2 ^ 63) mod 2 ^ 64 = (wrap64 x mod 2 ^ 64 + (1 + 2 ^ 63)) mod 2 ^ 64"
    by (simp add: mod_simps add.assoc)
  also have "\<dots> = (x mod 2 ^ 64 + (1 + 2 ^ 63)) mod 2 ^ 64" by (simp only: wrap64_cong_mod)
  also have "\<dots> = (x + 1 + 2 ^ 63) mod 2 ^ 64" by (simp add: mod_simps add.assoc)
  finally show ?thesis by (simp add: wrap64_def)
qed

lemma race_inv_start: "race_inv race_start"
  by (simp add: race_inv_def race_start_def)

lemma race_inv_step: "race_step k s s' \<Longrightarrow> race_inv s \<Longrightarrow> race_inv s'"
proof (erule race_stepE)
  fix n
  assume i: "race_inv s" and s': "s' = s\<lparr>rc_pending := rc_pending s @ [prepare k n (rc_key s)]\<rparr>"
  have "ow_epoch (next_ownership k n (map_option fst (rc_key s))) = wrap64 (int (length (rc_history s)) + 1)"
  proof (cases "rc_key s")
    case None
    then show ?thesis using i by (simp add: race_inv_def next_ownership_def in64_def)
  next
    case (Some z)
    obtain x r where z: "z = (x, r)" by fastforce
    have h: "rc_history s \<noteq> []" "x = last (rc_history s)" using i Some z by (simp_all add: race_inv_def)
    then have "ow_epoch x = wrap64 (int (length (rc_history s) - 1) + 1)"
      using i by (simp add: race_inv_def last_conv_nth)
    then have "ow_epoch x = wrap64 (int (length (rc_history s)))" using h(1) by (simp add: of_nat_diff Suc_leI)
    then show ?thesis using Some z by (simp add: next_ownership_def wrap64_wrap64_add)
  qed
  then show "race_inv s'"
    using i unfolding race_inv_def s' by (auto simp: prepare_def split: option.splits)
next
  fix xs cmp x ys rv
  assume i: "race_inv s" and p: "rc_pending s = xs @ (cmp, x) # ys" "race_holds (rc_key s) cmp" "rc_rev s < rv"
    and s': "s' = s\<lparr>rc_key := Some (x, rv), rc_rev := rv, rc_pending := xs @ ys, rc_history := rc_history s @ [x]\<rparr>"
  have e: "ow_epoch x = wrap64 (int (length (rc_history s)) + 1)" using i p by (simp add: race_inv_def)
  have old: "\<forall>i < length (rc_history s). ow_epoch (rc_history s ! i) = wrap64 (int i + 1)"
    using i by (simp add: race_inv_def)
  have "\<forall>(cmp, x) \<in> set (xs @ ys). \<forall>r. cmp = Some r \<longrightarrow> r \<le> rc_rev s"
  proof clarify
    fix c y r assume "(Some r, y) \<in> set (xs @ ys)"
    then have "(Some r, y) \<in> set (rc_pending s)" using p(1) by auto
    then show "r \<le> rc_rev s" using i unfolding race_inv_def by blast
  qed
  then have "\<forall>(cmp, y) \<in> set (xs @ ys). (\<forall>r. cmp = Some r \<longrightarrow> r \<le> rv) \<and> \<not> race_holds (Some (x, rv)) cmp"
    using p(3) by (fastforce simp: race_holds_def)
  then show "race_inv s'"
    unfolding race_inv_def s' using e old by (auto simp: nth_append less_Suc_eq)
next
  fix xs cmp x ys
  assume i: "race_inv s" and p: "rc_pending s = xs @ (cmp, x) # ys" and s': "s' = s\<lparr>rc_pending := xs @ ys\<rparr>"
  show "race_inv s'" using i p unfolding race_inv_def s' by (simp cong: option.case_cong)
qed

lemma race_reachable_inv: "race_reachable k s \<Longrightarrow> race_inv s"
  by (induction rule: race_reachable.induct) (simp_all add: race_inv_start race_inv_step)

section \<open>Properties\<close>

text \<open>
  Property C9. Epochs under concurrency: however the reads and transactions of concurrent
  assignments of a shard interleave, the record stored by the \<open>n\<close>-th successful assignment has epoch
  \<open>n\<close>. So epochs increase strictly, no two owners ever share one, and no assignment is lost.
\<close>

theorem concurrent_assignments_number_epochs:
  assumes "race_reachable k s" "length (rc_history s) < 2 ^ 63"
  shows "map ow_epoch (rc_history s) = map int [1..<Suc (length (rc_history s))] \<and>
         map_option fst (rc_key s) = (if rc_history s = [] then None else Some (last (rc_history s)))"
proof -
  note i = race_reachable_inv[OF assms(1)]
  have "ow_epoch (rc_history s ! j) = int (Suc j)" if "j < length (rc_history s)" for j
    using i that assms(2) by (simp add: race_inv_def in64_def)
  then have "map ow_epoch (rc_history s) = map int [1..<Suc (length (rc_history s))]"
    by (intro nth_equalityI) (simp_all del: upt_Suc)
  moreover have "map_option fst (rc_key s) = (if rc_history s = [] then None else Some (last (rc_history s)))"
    using i by (auto simp: race_inv_def split: option.splits)
  ultimately show ?thesis by simp
qed

text \<open>Two processes read the empty key; the second one's transaction fails, and its retry gets epoch 2.\<close>

theorem concurrent_assignments_number_epochs_witness:
  "\<exists>s. race_reachable 3 s \<and> map ow_node_id (rc_history s) = [1, 2] \<and> map ow_epoch (rc_history s) = [1, 2]"
proof -
  let ?x1 = "next_ownership 3 1 None" and ?x2 = "next_ownership 3 2 None"
  let ?s1 = "race_start\<lparr>rc_pending := [(None, ?x1)]\<rparr>"
  let ?s2 = "race_start\<lparr>rc_pending := [(None, ?x1), (None, ?x2)]\<rparr>"
  let ?s3 = "\<lparr>rc_key = Some (?x1, 1), rc_rev = 1, rc_pending = [(None, ?x2)], rc_history = [?x1]\<rparr>"
  let ?s4 = "?s3\<lparr>rc_pending := []\<rparr>"
  let ?x3 = "next_ownership 3 2 (Some ?x1)"
  let ?s5 = "?s4\<lparr>rc_pending := [(Some 1, ?x3)]\<rparr>"
  let ?s6 = "\<lparr>rc_key = Some (?x3, 2), rc_rev = 2, rc_pending = [], rc_history = [?x1, ?x3]\<rparr>"
  have "race_step 3 race_start ?s1" using race_step.read[of 3 race_start 1] by (simp add: race_start_def prepare_def)
  moreover have "race_step 3 ?s1 ?s2" using race_step.read[of 3 ?s1 2] by (simp add: race_start_def prepare_def)
  moreover have "race_step 3 ?s2 ?s3"
    using race_step.commit[of ?s2 "[]" None ?x1 "[(None, ?x2)]" 1 3] by (simp add: race_start_def race_holds_def)
  moreover have "race_step 3 ?s3 ?s4"
    using race_step.conflict[of ?s3 "[]" None ?x2 "[]" 3] by (simp add: race_holds_def)
  moreover have "race_step 3 ?s4 ?s5" using race_step.read[of 3 ?s4 2] by (simp add: prepare_def)
  moreover have "race_step 3 ?s5 ?s6"
    using race_step.commit[of ?s5 "[]" "Some 1" ?x3 "[]" 2 3] by (simp add: race_holds_def)
  ultimately have r: "race_reachable 3 ?s6"
    by (meson race_reachable.intros)
  have "map ow_epoch (rc_history ?s6) = map int [1..<Suc (length (rc_history ?s6))]"
    using concurrent_assignments_number_epochs[OF r] by simp
  then show ?thesis using r by (intro exI[of _ ?s6]) (simp add: next_ownership_def)
qed

end
