(* ===== verification/Membership.thy ===== *)
theory Membership
  imports EtcdRef
begin

text \<open>
  Which nodes are alive (\<open>internal/cluster/membership\<close>): one etcd key per node, put under a lease
  and removed when the node leaves or its lease runs out. The lease and key operations the store
  calls are the record \<open>lease_client\<close>; \<open>lease_laws\<close> is what they are documented to do. A lease
  that runs out removes its key: for this store that is \<open>MarkDead\<close> by etcd.
\<close>

section \<open>The store\<close>

record 's lease_client =
  lc_put :: "string \<Rightarrow> string \<Rightarrow> int option \<Rightarrow> ('s, unit) eff"
  lc_delete :: "string \<Rightarrow> ('s, unit) eff"
  lc_count :: "string \<Rightarrow> ('s, int) eff"
  lc_grant :: "int \<Rightarrow> ('s, int) eff"

type_synonym node_parser = "string \<Rightarrow> go_error + int"

definition nodes_prefix :: "string \<Rightarrow> string" where
  "nodes_prefix pre = (if pre = ''/'' then [] else pre) @ ''/membership/nodes/''"

definition node_key :: "string \<Rightarrow> int \<Rightarrow> string" where
  "node_key pre n = nodes_prefix pre @ itoa n"

definition marshal_node :: "int \<Rightarrow> string" where
  "marshal_node n = ''{'' @ [CHR 0x22] @ ''NodeID'' @ [CHR 0x22] @ '':'' @ itoa n @ ''}''"

definition decode_node_id :: "node_parser \<Rightarrow> string \<Rightarrow> go_error + int" where
  "decode_node_id parse data =
     (case parse data of
        Inl e \<Rightarrow> Inl (ErrWrap ''decode membership state: %w'' e)
      | Inr n \<Rightarrow> if n \<le> 0 then Inl (ErrMsg ''invalid node id in membership state: %d'' [FInt n]) else Inr n)"

fun decode_node_ids :: "node_parser \<Rightarrow> string list \<Rightarrow> go_error + int list" where
  "decode_node_ids parse [] = Inr []"
| "decode_node_ids parse (v # vs) =
     (case decode_node_id parse v of
        Inl e \<Rightarrow> Inl e
      | Inr n \<Rightarrow> (case decode_node_ids parse vs of Inl e \<Rightarrow> Inl e | Inr ns \<Rightarrow> Inr (n # ns)))"

text \<open>\<open>time.Duration\<close> counts nanoseconds.\<close>

definition second :: int where "second = 1000000000"

definition lease_ttl_seconds :: "int \<Rightarrow> int" where
  "lease_ttl_seconds ttl =
     (let seconds = quot64 ttl second;
          seconds = (if ttl smod second \<noteq> 0 then wrap64 (seconds + 1) else seconds)
      in if seconds \<le> 0 then 1 else seconds)"

definition mark_alive :: "'s lease_client \<Rightarrow> string \<Rightarrow> int \<Rightarrow> int \<Rightarrow> ('s, unit) eff" where
  "mark_alive lc pre ttl n =
     (if n \<le> 0 then throw (ErrMsg ''node id must be > 0: %d'' [FInt n])
      else if ttl \<le> 0
      then wrap_err ''mark node alive in etcd: %w'' (lc_put lc (node_key pre n) (marshal_node n) None)
      else ebind (wrap_err ''grant membership lease: %w'' (lc_grant lc (lease_ttl_seconds ttl))) (\<lambda>lease.
             wrap_err ''mark node alive in etcd: %w'' (lc_put lc (node_key pre n) (marshal_node n) (Some lease))))"

definition mark_dead :: "'s lease_client \<Rightarrow> string \<Rightarrow> int \<Rightarrow> ('s, unit) eff" where
  "mark_dead lc pre n =
     (if n \<le> 0 then throw (ErrMsg ''node id must be > 0: %d'' [FInt n])
      else wrap_err ''mark node dead in etcd: %w'' (lc_delete lc (node_key pre n)))"

definition is_alive :: "'s lease_client \<Rightarrow> string \<Rightarrow> int \<Rightarrow> ('s, bool) eff" where
  "is_alive lc pre n =
     (if n \<le> 0 then throw (ErrMsg ''node id must be > 0: %d'' [FInt n])
      else ebind (wrap_err ''get alive node from etcd: %w'' (lc_count lc (node_key pre n))) (\<lambda>c. ret (0 < c)))"

definition etcd_alive_nodes :: "'s etcd_client \<Rightarrow> node_parser \<Rightarrow> string \<Rightarrow> ('s, int list) eff" where
  "etcd_alive_nodes cl parse pre =
     ebind (wrap_err ''list alive nodes from etcd: %w'' (kv_get_prefix cl (nodes_prefix pre)))
       (\<lambda>vs. ebind (lift_res (decode_node_ids parse vs)) (\<lambda>ns. ret (sort ns)))"

section \<open>What the store relies on\<close>

definition lease_laws :: "'s lease_client \<Rightarrow> ('s \<Rightarrow> string \<rightharpoonup> string \<times> int) \<Rightarrow> bool" where
  "lease_laws lc kv \<longleftrightarrow>
     (\<forall>s k v l. case lc_put lc k v l s of
        (Inr _, s') \<Rightarrow> \<exists>r. kv s' = (kv s)(k \<mapsto> (v, r))
      | (Inl e, s') \<Rightarrow> kv s' = kv s \<or> (\<exists>r. kv s' = (kv s)(k \<mapsto> (v, r)))) \<and>
     (\<forall>s k. case lc_delete lc k s of
        (Inr _, s') \<Rightarrow> kv s' = (kv s)(k := None)
      | (Inl e, s') \<Rightarrow> kv s' = kv s \<or> kv s' = (kv s)(k := None)) \<and>
     (\<forall>s k. case lc_count lc k s of
        (Inr c, s') \<Rightarrow> kv s' = kv s \<and> c = (if kv s k = None then 0 else 1)
      | (Inl e, s') \<Rightarrow> kv s' = kv s) \<and>
     (\<forall>s t. kv (snd (lc_grant lc t s)) = kv s)"

definition node_parser_ok :: "node_parser \<Rightarrow> bool" where
  "node_parser_ok parse \<longleftrightarrow> (\<forall>n. in64 n \<longrightarrow> parse (marshal_node n) = Inr n)"

text \<open>Under the membership prefix etcd holds only what the store wrote.\<close>

definition members_wf :: "string \<Rightarrow> (string \<rightharpoonup> string \<times> int) \<Rightarrow> bool" where
  "members_wf pre m \<longleftrightarrow>
     (\<forall>key v r. m key = Some (v, r) \<longrightarrow> prefix (nodes_prefix pre) key \<longrightarrow>
        (\<exists>n. 0 < n \<and> in64 n \<and> key = node_key pre n \<and> v = marshal_node n))"

definition alive_set :: "string \<Rightarrow> (string \<rightharpoonup> string \<times> int) \<Rightarrow> int set" where
  "alive_set pre m = {n. 0 < n \<and> in64 n \<and> m (node_key pre n) \<noteq> None}"

lemma node_key_inj: "node_key pre i = node_key pre j \<Longrightarrow> i = j"
  by (simp add: node_key_def itoa_inj)

lemma node_key_prefix [simp]: "prefix (nodes_prefix pre) (node_key pre n)"
  by (simp add: node_key_def)

lemma decode_marshal: "node_parser_ok parse \<Longrightarrow> 0 < n \<Longrightarrow> in64 n \<Longrightarrow> decode_node_id parse (marshal_node n) = Inr n"
  by (simp add: decode_node_id_def node_parser_ok_def)

lemma decode_node_ids_keys:
  assumes w: "members_wf pre m" and p: "node_parser_ok parse"
    and ks: "distinct ks" "set ks \<subseteq> {k \<in> dom m. prefix (nodes_prefix pre) k}"
  shows "\<exists>ns. decode_node_ids parse (map (\<lambda>k. fst (the (m k))) ks) = Inr ns \<and> map (node_key pre) ns = ks \<and>
           (\<forall>n \<in> set ns. 0 < n \<and> in64 n)"
  using ks
proof (induction ks)
  case (Cons k ks)
  obtain v r where k: "m k = Some (v, r)" "prefix (nodes_prefix pre) k" using Cons.prems(2) by auto
  obtain n where n: "0 < n" "in64 n" "k = node_key pre n" "v = marshal_node n"
    using w k unfolding members_wf_def by blast
  obtain ns where ns: "decode_node_ids parse (map (\<lambda>k. fst (the (m k))) ks) = Inr ns" "map (node_key pre) ns = ks"
    "\<forall>n \<in> set ns. 0 < n \<and> in64 n"
    using Cons by auto
  show ?case by (rule exI[of _ "n # ns"]) (use k(1) n ns in \<open>simp add: decode_marshal[OF p]\<close>)
qed simp

lemma alive_nodes_ok:
  assumes L: "etcd_laws cl kv" and p: "node_parser_ok parse" and w: "members_wf pre (kv s)"
    and e: "etcd_alive_nodes cl parse pre s = (r, s')"
  shows "kv s' = kv s"
    "r = Inr ns \<Longrightarrow> finite (alive_set pre (kv s)) \<and> ns = sorted_list_of_set (alive_set pre (kv s))"
proof -
  obtain g s1 where g: "kv_get_prefix cl (nodes_prefix pre) s = (g, s1)" by fastforce
  have "kv s' = kv s \<and> (\<forall>ns. r = Inr ns \<longrightarrow> finite (alive_set pre (kv s)) \<and> ns = sorted_list_of_set (alive_set pre (kv s)))"
  proof (cases g)
    case (Inl err)
    then show ?thesis using e g etcd_lawsD(4)[OF L, of "nodes_prefix pre" s err s1]
      by (auto simp: etcd_alive_nodes_def ebind_def wrap_err_def)
  next
    case (Inr vs)
    obtain ks where k: "kv s1 = kv s" "distinct ks" "set ks = {k \<in> dom (kv s). prefix (nodes_prefix pre) k}"
      "vs = map (\<lambda>k. fst (the (kv s k))) ks"
      using etcd_lawsD(3)[OF L, of "nodes_prefix pre" s vs s1] g Inr by auto
    obtain ns where ns: "decode_node_ids parse vs = Inr ns" "map (node_key pre) ns = ks" "\<forall>n \<in> set ns. 0 < n \<and> in64 n"
      using decode_node_ids_keys[OF w p k(2)] k(3,4) by auto
    have dist: "distinct ns" using k(2) ns(2) by (metis distinct_map)
    have "n \<in> set ns \<longleftrightarrow> n \<in> alive_set pre (kv s)" for n
    proof -
      have "node_key pre n \<in> set ks \<longleftrightarrow> n \<in> set ns" using node_key_inj unfolding ns(2)[symmetric] by force
      then show ?thesis using ns(3) by (auto simp: k(3) alive_set_def)
    qed
    then have "set ns = alive_set pre (kv s)" by blast
    then have "finite (alive_set pre (kv s)) \<and> sort ns = sorted_list_of_set (alive_set pre (kv s))"
      using dist sorted_list_of_set_sort_remdups[of ns] by (metis List.finite_set distinct_remdups_id)
    then show ?thesis using e g Inr k(1) ns(1) by (auto simp: etcd_alive_nodes_def ebind_def wrap_err_def)
  qed
  then show "kv s' = kv s"
    "r = Inr ns \<Longrightarrow> finite (alive_set pre (kv s)) \<and> ns = sorted_list_of_set (alive_set pre (kv s))" by simp_all
qed

section \<open>What the operations do\<close>

lemma lease_lawsD:
  assumes "lease_laws lc kv"
  shows "lc_put lc k v l s = (Inr u, s') \<Longrightarrow> \<exists>r. kv s' = (kv s)(k \<mapsto> (v, r))"
    "lc_put lc k v l s = (Inl e, s') \<Longrightarrow> kv s' = kv s \<or> (\<exists>r. kv s' = (kv s)(k \<mapsto> (v, r)))"
    "lc_delete lc k s = (Inr u, s') \<Longrightarrow> kv s' = (kv s)(k := None)"
    "lc_delete lc k s = (Inl e, s') \<Longrightarrow> kv s' = kv s \<or> kv s' = (kv s)(k := None)"
    "lc_count lc k s = (Inr c, s') \<Longrightarrow> kv s' = kv s \<and> c = (if kv s k = None then 0 else 1)"
    "lc_count lc k s = (Inl e, s') \<Longrightarrow> kv s' = kv s"
    "lc_grant lc t s = (g, s') \<Longrightarrow> kv s' = kv s"
proof -
  note L = assms[unfolded lease_laws_def]
  note P = L[THEN conjunct1, THEN spec, THEN spec, THEN spec, THEN spec, of s k v l]
  note D = L[THEN conjunct2, THEN conjunct1, THEN spec, THEN spec, of s k]
  note C = L[THEN conjunct2, THEN conjunct2, THEN conjunct1, THEN spec, THEN spec, of s k]
  note G = L[THEN conjunct2, THEN conjunct2, THEN conjunct2, THEN spec, THEN spec, of t s]
  show "lc_put lc k v l s = (Inr u, s') \<Longrightarrow> \<exists>r. kv s' = (kv s)(k \<mapsto> (v, r))"
    "lc_put lc k v l s = (Inl e, s') \<Longrightarrow> kv s' = kv s \<or> (\<exists>r. kv s' = (kv s)(k \<mapsto> (v, r)))"
    using P by simp_all
  show "lc_delete lc k s = (Inr u, s') \<Longrightarrow> kv s' = (kv s)(k := None)"
    "lc_delete lc k s = (Inl e, s') \<Longrightarrow> kv s' = kv s \<or> kv s' = (kv s)(k := None)"
    using D by simp_all
  show "lc_count lc k s = (Inr c, s') \<Longrightarrow> kv s' = kv s \<and> c = (if kv s k = None then 0 else 1)"
    "lc_count lc k s = (Inl e, s') \<Longrightarrow> kv s' = kv s"
    using C by simp_all
  show "lc_grant lc t s = (g, s') \<Longrightarrow> kv s' = kv s" using G by simp
qed

lemma members_put:
  assumes "members_wf pre m" "0 < n" "in64 n" "m' = m(node_key pre n \<mapsto> (marshal_node n, r))"
  shows "members_wf pre m' \<and> alive_set pre m' = insert n (alive_set pre m)"
  using assms by (auto simp: members_wf_def alive_set_def dest: node_key_inj)

lemma members_delete:
  assumes "members_wf pre m" "m' = m(node_key pre n := None)"
  shows "members_wf pre m' \<and> alive_set pre m' = alive_set pre m - {n}"
  using assms by (auto simp: members_wf_def alive_set_def dest: node_key_inj)

definition alive_change :: "string \<Rightarrow> (string \<rightharpoonup> string \<times> int) \<Rightarrow> (string \<rightharpoonup> string \<times> int) \<Rightarrow> int set \<Rightarrow> bool" where
  "alive_change pre m m' A \<longleftrightarrow> members_wf pre m' \<and> alive_set pre m' = A"

lemma mark_alive_ok:
  assumes L: "lease_laws lc kv" and w: "members_wf pre (kv s)" and n: "in64 n"
    and e: "mark_alive lc pre ttl n s = (r, s')"
  shows "r = Inr u \<Longrightarrow> 0 < n \<and> alive_change pre (kv s) (kv s') (insert n (alive_set pre (kv s)))"
    "r = Inl err \<Longrightarrow> alive_change pre (kv s) (kv s') (alive_set pre (kv s)) \<or>
       alive_change pre (kv s) (kv s') (insert n (alive_set pre (kv s)))"
proof -
  let ?put = "\<lambda>l. wrap_err ''mark node alive in etcd: %w'' (lc_put lc (node_key pre n) (marshal_node n) l)"
  have P: "(\<forall>u. r = Inr u \<longrightarrow> alive_change pre (kv s) (kv s') (insert n (alive_set pre (kv s)))) \<and>
     (\<forall>err. r = Inl err \<longrightarrow> alive_change pre (kv s) (kv s') (alive_set pre (kv s)) \<or>
       alive_change pre (kv s) (kv s') (insert n (alive_set pre (kv s))))"
    if p: "?put l s1 = (r, s')" and k: "kv s1 = kv s" and n0: "0 < n" for l s1
  proof (cases r)
    case (Inl err)
    then obtain e' where "lc_put lc (node_key pre n) (marshal_node n) l s1 = (Inl e', s')"
      using p by (auto simp: wrap_err_err_iff)
    then show ?thesis using lease_lawsD(2)[OF L] members_put[OF w n0 n] k w Inl
      by (fastforce simp: alive_change_def)
  next
    case (Inr u)
    then have "lc_put lc (node_key pre n) (marshal_node n) l s1 = (Inr u, s')" using p by simp
    then show ?thesis using lease_lawsD(1)[OF L] members_put[OF w n0 n] k Inr
      by (fastforce simp: alive_change_def)
  qed
  have "(\<forall>u. r = Inr u \<longrightarrow> 0 < n \<and> alive_change pre (kv s) (kv s') (insert n (alive_set pre (kv s)))) \<and>
     (\<forall>err. r = Inl err \<longrightarrow> alive_change pre (kv s) (kv s') (alive_set pre (kv s)) \<or>
       alive_change pre (kv s) (kv s') (insert n (alive_set pre (kv s))))"
  proof (cases "n \<le> 0 \<or> ttl \<le> 0")
    case True
    show ?thesis
    proof (cases "n \<le> 0")
      case True
      then show ?thesis using e w by (auto simp: mark_alive_def alive_change_def)
    next
      case False
      then have "?put None s = (r, s')" using e True by (simp add: mark_alive_def)
      then show ?thesis using P[of None s] False by simp
    qed
  next
    case False
    obtain g s1 where g: "lc_grant lc (lease_ttl_seconds ttl) s = (g, s1)" by fastforce
    note k = lease_lawsD(7)[OF L g]
    show ?thesis
    proof (cases g)
      case (Inl err)
      then have "isl r \<and> s' = s1" using e g False by (auto simp: mark_alive_def ebind_def wrap_err_def)
      then show ?thesis using k w by (auto simp: alive_change_def)
    next
      case (Inr lease)
      then have "?put (Some lease) s1 = (r, s')" using e g False by (simp add: mark_alive_def ebind_def wrap_err_def)
      then show ?thesis using P[of "Some lease" s1] k False by simp
    qed
  qed
  then show "r = Inr u \<Longrightarrow> 0 < n \<and> alive_change pre (kv s) (kv s') (insert n (alive_set pre (kv s)))"
    "r = Inl err \<Longrightarrow> alive_change pre (kv s) (kv s') (alive_set pre (kv s)) \<or>
       alive_change pre (kv s) (kv s') (insert n (alive_set pre (kv s)))" by simp_all
qed

text \<open>
  The membership store keeps the set of nodes that are alive: \<open>MarkAlive\<close> adds the node
  and \<open>MarkDead\<close> removes it (an error leaves it either way), \<open>IsAlive\<close> tells membership, and
  \<open>AliveNodes\<close> returns exactly the set, ascending and without duplicates, in the order the ring
  needs. Non-positive nodes are rejected.
\<close>

theorem membership_store_correct:
  assumes "etcd_laws cl kv" "lease_laws lc kv" "node_parser_ok parse" "members_wf pre (kv s)" "in64 n"
  shows "(case mark_alive lc pre ttl n s of
        (Inr _, s') \<Rightarrow> 0 < n \<and> alive_change pre (kv s) (kv s') (insert n (alive_set pre (kv s)))
      | (Inl e, s') \<Rightarrow> alive_change pre (kv s) (kv s') (alive_set pre (kv s)) \<or>
          alive_change pre (kv s) (kv s') (insert n (alive_set pre (kv s)))) \<and>
    (case mark_dead lc pre n s of
        (Inr _, s') \<Rightarrow> 0 < n \<and> alive_change pre (kv s) (kv s') (alive_set pre (kv s) - {n})
      | (Inl e, s') \<Rightarrow> alive_change pre (kv s) (kv s') (alive_set pre (kv s)) \<or>
          alive_change pre (kv s) (kv s') (alive_set pre (kv s) - {n})) \<and>
    (case is_alive lc pre n s of
        (Inr b, s') \<Rightarrow> kv s' = kv s \<and> b = (n \<in> alive_set pre (kv s)) | (Inl e, s') \<Rightarrow> kv s' = kv s) \<and>
    (case etcd_alive_nodes cl parse pre s of
        (Inr ns, s') \<Rightarrow> kv s' = kv s \<and> sorted ns \<and> distinct ns \<and> set ns = alive_set pre (kv s)
      | (Inl e, s') \<Rightarrow> kv s' = kv s)"
proof (intro conjI)
  note L = assms(2) and w = assms(4) and n = assms(5)
  obtain r s' where e: "mark_alive lc pre ttl n s = (r, s')" by fastforce
  note M = mark_alive_ok[OF L w n e]
  show "case mark_alive lc pre ttl n s of
        (Inr _, s') \<Rightarrow> 0 < n \<and> alive_change pre (kv s) (kv s') (insert n (alive_set pre (kv s)))
      | (Inl e, s') \<Rightarrow> alive_change pre (kv s) (kv s') (alive_set pre (kv s)) \<or>
          alive_change pre (kv s) (kv s') (insert n (alive_set pre (kv s)))"
    using M unfolding e by (cases r) simp_all
next
  note L = assms(2) and w = assms(4)
  note del = lease_lawsD(3,4)[OF L, of "node_key pre n" s] and md = members_delete[OF w]
  obtain d s1 where d: "lc_delete lc (node_key pre n) s = (d, s1)" by fastforce
  show "case mark_dead lc pre n s of
        (Inr _, s') \<Rightarrow> 0 < n \<and> alive_change pre (kv s) (kv s') (alive_set pre (kv s) - {n})
      | (Inl e, s') \<Rightarrow> alive_change pre (kv s) (kv s') (alive_set pre (kv s)) \<or>
          alive_change pre (kv s) (kv s') (alive_set pre (kv s) - {n})"
    using del d md w by (cases d) (auto simp: mark_dead_def wrap_err_def alive_change_def)
next
  note L = assms(2)
  obtain c s1 where c: "lc_count lc (node_key pre n) s = (c, s1)" by fastforce
  show "case is_alive lc pre n s of
        (Inr b, s') \<Rightarrow> kv s' = kv s \<and> b = (n \<in> alive_set pre (kv s)) | (Inl e, s') \<Rightarrow> kv s' = kv s"
    using lease_lawsD(5,6)[OF L, of "node_key pre n" s] c assms(5)
    by (cases c) (auto simp: is_alive_def ebind_def wrap_err_def alive_set_def)
next
  obtain r s' where e: "etcd_alive_nodes cl parse pre s = (r, s')" by fastforce
  show "case etcd_alive_nodes cl parse pre s of
        (Inr ns, s') \<Rightarrow> kv s' = kv s \<and> sorted ns \<and> distinct ns \<and> set ns = alive_set pre (kv s)
      | (Inl e, s') \<Rightarrow> kv s' = kv s"
    using alive_nodes_ok[OF assms(1,3,4) e] unfolding e by (cases r) simp_all
qed

text \<open>
  The lease lasts at least as long as the configured time to live and less than a
  second longer, and never less than a second: etcd's lease counts whole seconds.
\<close>

theorem lease_ttl_rounds_up:
  assumes "0 < ttl" "in64 ttl"
  shows "ttl \<le> lease_ttl_seconds ttl * second \<and> (lease_ttl_seconds ttl - 1) * second < ttl \<and>
    1 \<le> lease_ttl_seconds ttl"
proof -
  have q: "quot64 ttl second = ttl div second" using assms by (simp add: quot64_nonneg second_def in64_def)
  have r: "ttl smod second = ttl mod second"
    using assms by (simp add: signed_modulo_int_def signed_divide_int_def second_def sgn_1_pos minus_div_mult_eq_mod)
  have b: "0 \<le> ttl div second" "ttl div second < 2 ^ 62" "ttl = ttl div second * second + ttl mod second"
    "0 \<le> ttl mod second" "ttl mod second < second"
    using assms by (simp_all add: second_def in64_def)
  have w: "wrap64 (ttl div second + 1) = ttl div second + 1" using b by (intro wrap64_id) (simp add: in64_def)
  show ?thesis
  proof (cases "ttl mod second = 0")
    case True
    then have "ttl div second \<noteq> 0" using b assms by auto
    then have "lease_ttl_seconds ttl = ttl div second" using True b(1) by (simp add: lease_ttl_seconds_def q r Let_def)
    then show ?thesis using True b \<open>ttl div second \<noteq> 0\<close> by (simp add: algebra_simps)
  next
    case False
    then have "lease_ttl_seconds ttl = ttl div second + 1" using b(1) w by (simp add: lease_ttl_seconds_def q r Let_def)
    then have l: "lease_ttl_seconds ttl = ttl div second + 1" .
    have m: "0 < ttl mod second" using False b(4) by simp
    have X: "t = d * s + m \<Longrightarrow> 0 < m \<Longrightarrow> m < s \<Longrightarrow> t \<le> (d + 1) * s \<and> (d + 1 - 1) * s < t" for t d s m :: int
      by (simp add: algebra_simps)
    show ?thesis unfolding l using X[OF b(3) m b(5)] b(1) by simp
  qed
qed

theorem lease_ttl_rounds_up_witness: "lease_ttl_seconds 1500000000 = 2"
proof -
  have "1500000000 \<le> lease_ttl_seconds 1500000000 * second \<and> (lease_ttl_seconds 1500000000 - 1) * second < 1500000000"
    using lease_ttl_rounds_up[of 1500000000] by (simp add: in64_def)
  then show ?thesis by (simp add: second_def)
qed

section \<open>The leases of the sequential etcd\<close>

definition ref_parse_node :: node_parser where
  "ref_parse_node s =
     (case eat (''{'' @ quoted ''NodeID'' @ '':'') s of Inl e \<Rightarrow> Inl e | Inr s1 \<Rightarrow>
     (case eat_int s1 of Inl e \<Rightarrow> Inl e | Inr (n, s2) \<Rightarrow>
       if s2 = ''}'' then Inr n else Inl (ErrMsg ''invalid character'' [])))"

lemma ref_parse_node_ok: "node_parser_ok ref_parse_node"
  unfolding node_parser_ok_def
proof (intro allI impI)
  fix n assume n: "in64 n"
  have m: "marshal_node n = (''{'' @ quoted ''NodeID'' @ '':'') @ (itoa n @ ''}'')"
    by (simp add: marshal_node_def quoted_def)
  have "eat_int (itoa n @ ''}'') = Inr (n, ''}'')" using eat_int_itoa[OF n not_int_chars(2)] by simp
  then show "ref_parse_node (marshal_node n) = Inr n"
    unfolding ref_parse_node_def m eat_append sum.case by simp
qed

definition ref_lease_client :: "etcd_db lease_client" where
  "ref_lease_client =
     \<lparr>lc_put = (\<lambda>k v l s. (Inr (), s\<lparr>db_kv := AList.update k (v, db_rev s + 1) (db_kv s), db_rev := db_rev s + 1\<rparr>)),
      lc_delete = (\<lambda>k s. (Inr (), s\<lparr>db_kv := AList.delete k (db_kv s), db_rev := db_rev s + 1\<rparr>)),
      lc_count = (\<lambda>k s. (Inr (if map_of (db_kv s) k = None then 0 else 1), s)),
      lc_grant = (\<lambda>t s. (Inr (db_rev s), s))\<rparr>"

lemma ref_lease_laws: "lease_laws ref_lease_client ref_view"
  by (auto simp: lease_laws_def ref_lease_client_def ref_view_def update_conv' delete_conv' fun_upd_def)

definition ref_two_nodes :: etcd_db where
  "ref_two_nodes = \<lparr>db_kv = [(node_key ''/testp'' 1, marshal_node 1, 1), (node_key ''/testp'' 2, marshal_node 2, 2)], db_rev = 2\<rparr>"

lemma ref_two_nodes_ok: "members_wf ''/testp'' (ref_view ref_two_nodes)"
  "owners_wf ''/testp'' (ref_view ref_two_nodes)"
proof -
  have 1: "members_wf pre Map.empty" for pre by (simp add: members_wf_def)
  have v: "ref_view ref_two_nodes = Map.empty(node_key ''/testp'' 2 \<mapsto> (marshal_node 2, 2), node_key ''/testp'' 1 \<mapsto> (marshal_node 1, 1))"
    by (simp add: ref_view_def ref_two_nodes_def)
  show "members_wf ''/testp'' (ref_view ref_two_nodes)"
    unfolding v using members_put[OF members_put[OF 1 _ _ refl, THEN conjunct1] _ _ refl] by (auto simp: in64_def)
  have np: "\<not> prefix (shards_prefix ''/testp'') (node_key ''/testp'' n)" for n
    by (simp add: shards_prefix_def node_key_def nodes_prefix_def)
  show "owners_wf ''/testp'' (ref_view ref_two_nodes)"
    unfolding v owners_wf_def using np by (auto split: if_splits)
qed

theorem membership_store_correct_witness:
  "case mark_dead ref_lease_client ''/testp'' 2 ref_two_nodes of
     (Inr _, s') \<Rightarrow> alive_set ''/testp'' (ref_view s') = alive_set ''/testp'' (ref_view ref_two_nodes) - {2}
   | (Inl e, s') \<Rightarrow> False"
proof -
  have "mark_dead ref_lease_client ''/testp'' 2 ref_two_nodes =
      (Inr (), ref_two_nodes\<lparr>db_kv := AList.delete (node_key ''/testp'' 2) (db_kv ref_two_nodes), db_rev := db_rev ref_two_nodes + 1\<rparr>)"
    by (simp add: mark_dead_def ref_lease_client_def wrap_err_def)
  then show ?thesis
    using membership_store_correct[OF ref_laws ref_lease_laws ref_parse_node_ok ref_two_nodes_ok(1), of 2 0]
    by (simp add: in64_def alive_change_def)
qed

end
