(* ===== verification/Election.thy ===== *)
theory Election
  imports Membership
begin

text \<open>
  The controllers' election (\<open>internal/cluster/election\<close>): a lease, a transaction that puts the
  leader key if it is absent, and a local flag. First the operations of one controller over the
  etcd calls it makes, then the step relation of any number of controllers, one etcd request or
  one local critical section per step, with leases that can run out at any time.
\<close>

section \<open>One controller\<close>

text \<open>The fields under the mutex; a lease id of 0 means none.\<close>

record elect =
  el_leader :: bool
  el_lease :: int
  el_keep :: bool

definition new_elect :: elect where
  "new_elect = \<lparr>el_leader = False, el_lease = 0, el_keep = False\<rparr>"

definition become_leader :: "int \<Rightarrow> elect \<Rightarrow> elect" where
  "become_leader l e = e\<lparr>el_leader := True, el_lease := l, el_keep := True\<rparr>"

definition lose_leader :: "int \<Rightarrow> elect \<Rightarrow> elect" where
  "lose_leader l e = (if el_lease e \<noteq> l then e else e\<lparr>el_leader := False, el_lease := 0, el_keep := False\<rparr>)"

definition resign_local :: "elect \<Rightarrow> elect" where
  "resign_local e = e\<lparr>el_leader := False, el_lease := 0, el_keep := False\<rparr>"

record 's election_client =
  ec_grant :: "int \<Rightarrow> ('s, int) eff"
  ec_campaign :: "string \<Rightarrow> string \<Rightarrow> int \<Rightarrow> ('s, bool) eff"
  ec_keep_alive :: "int \<Rightarrow> ('s, unit) eff"
  ec_revoke :: "int \<Rightarrow> ('s, unit) eff"

definition grant_lease :: "'s election_client \<Rightarrow> int \<Rightarrow> ('s, int) eff" where
  "grant_lease cl ttl = wrap_err ''grant election lease: %w'' (ec_grant cl (lease_ttl_seconds ttl))"

definition put_leader_key :: "'s election_client \<Rightarrow> string \<Rightarrow> string \<Rightarrow> int \<Rightarrow> ('s, bool) eff" where
  "put_leader_key cl key val l = wrap_err ''campaign controller leader: %w'' (ec_campaign cl key val l)"

definition revoke_lease :: "'s election_client \<Rightarrow> int \<Rightarrow> ('s, unit) eff" where
  "revoke_lease cl l = wrap_err ''revoke election lease: %w'' (ec_revoke cl l)"

definition try_acquire ::
  "'s election_client \<Rightarrow> string \<Rightarrow> string \<Rightarrow> int \<Rightarrow> (elect \<times> 's, bool) eff" where
  "try_acquire cl key val ttl = (\<lambda>(e, s).
     if el_leader e then (Inr True, (e, s))
     else case grant_lease cl ttl s of
       (Inl err, s1) \<Rightarrow> (Inl err, (e, s1))
     | (Inr l, s1) \<Rightarrow>
         (case put_leader_key cl key val l s1 of
            (Inl err, s2) \<Rightarrow> (Inl err, (e, snd (revoke_lease cl l s2)))
          | (Inr won, s2) \<Rightarrow>
              if \<not> won then (Inr False, (e, snd (revoke_lease cl l s2)))
              else (case wrap_err ''keep election lease alive: %w'' (ec_keep_alive cl l) s2 of
                      (Inl err, s3) \<Rightarrow> (Inl err, (e, snd (revoke_lease cl l s3)))
                    | (Inr _, s3) \<Rightarrow> (Inr True, (become_leader l e, s3)))))"

definition resign :: "'s election_client \<Rightarrow> (elect \<times> 's, unit) eff" where
  "resign cl = (\<lambda>(e, s).
     if el_lease e = 0 then (Inr (), (resign_local e, s))
     else case revoke_lease cl (el_lease e) s of (r, s') \<Rightarrow> (r, (resign_local e, s')))"

text \<open>What \<open>TryAcquire\<close> answers is what the flag says.\<close>

lemma try_acquire_flag:
  "try_acquire cl key val ttl (e, s) = (r, (e', s')) \<Longrightarrow>
     (r = Inr True \<longleftrightarrow> el_leader e') \<and> (el_leader e \<longrightarrow> e' = e \<and> s' = s)"
  by (auto simp: try_acquire_def become_leader_def split: if_splits prod.splits sum.splits)

section \<open>Many controllers\<close>

text \<open>Where a controller is between the requests of one \<open>TryAcquire\<close>.\<close>

datatype phase = Idle | Granted int | Won int

record arena =
  ar_key :: "(nat \<times> int) option"
  ar_live :: "int set"
  ar_next :: int
  ar_elect :: "nat \<Rightarrow> elect"
  ar_phase :: "nat \<Rightarrow> phase"

definition arena_start :: arena where
  "arena_start = \<lparr>ar_key = None, ar_live = {}, ar_next = 1, ar_elect = (\<lambda>_. new_elect), ar_phase = (\<lambda>_. Idle)\<rparr>"

definition set_phase :: "nat \<Rightarrow> phase \<Rightarrow> arena \<Rightarrow> arena" where
  "set_phase c p w = w\<lparr>ar_phase := (ar_phase w)(c := p)\<rparr>"

definition set_elect :: "nat \<Rightarrow> (elect \<Rightarrow> elect) \<Rightarrow> arena \<Rightarrow> arena" where
  "set_elect c f w = w\<lparr>ar_elect := (ar_elect w)(c := f (ar_elect w c))\<rparr>"

definition drop_lease :: "int \<Rightarrow> arena \<Rightarrow> arena" where
  "drop_lease l w = w\<lparr>ar_live := ar_live w - {l},
     ar_key := (case ar_key w of None \<Rightarrow> None | Some (c, l') \<Rightarrow> if l' = l then None else Some (c, l'))\<rparr>"

text \<open>
  Leases are granted with fresh ids. The transaction puts the key only if it is absent and the
  lease is live; its reply may be lost. Revoking and running out are the same step, and it may come
  at any time or not at all.
\<close>

inductive elect_step :: "arena \<Rightarrow> arena \<Rightarrow> bool" where
  grant: "ar_phase w c = Idle \<Longrightarrow> \<not> el_leader (ar_elect w c) \<Longrightarrow>
    elect_step w (set_phase c (Granted (ar_next w)) (w\<lparr>ar_live := insert (ar_next w) (ar_live w), ar_next := ar_next w + 1\<rparr>))"
| grant_lost: "elect_step w (w\<lparr>ar_live := insert (ar_next w) (ar_live w), ar_next := ar_next w + 1\<rparr>)"
| campaign_won: "ar_phase w c = Granted l \<Longrightarrow> ar_key w = None \<Longrightarrow> l \<in> ar_live w \<Longrightarrow>
    elect_step w (set_phase c (Won l) (w\<lparr>ar_key := Some (c, l)\<rparr>))"
| campaign_lost_reply: "ar_phase w c = Granted l \<Longrightarrow> ar_key w = None \<Longrightarrow> l \<in> ar_live w \<Longrightarrow>
    elect_step w (set_phase c Idle (w\<lparr>ar_key := Some (c, l)\<rparr>))"
| campaign_lost: "ar_phase w c = Granted l \<Longrightarrow> elect_step w (set_phase c Idle w)"
| keep_alive: "ar_phase w c = Won l \<Longrightarrow> elect_step w (set_phase c Idle (set_elect c (become_leader l) w))"
| keep_alive_failed: "ar_phase w c = Won l \<Longrightarrow> elect_step w (set_phase c Idle w)"
| watch_ended: "elect_step w (set_elect c (lose_leader l) w)"
| resigned: "elect_step w (set_elect c resign_local w)"
| lease_gone: "elect_step w (drop_lease l w)"

inductive elect_reachable :: "arena \<Rightarrow> bool" where
  start: "elect_reachable arena_start"
| step: "elect_reachable w \<Longrightarrow> elect_step w w' \<Longrightarrow> elect_reachable w'"

inductive_cases elect_stepE: "elect_step w w'"

text \<open>The leases a controller works with, and those it takes for its leadership.\<close>

definition leads_with :: "arena \<Rightarrow> nat \<Rightarrow> int \<Rightarrow> bool" where
  "leads_with w c l \<longleftrightarrow> el_leader (ar_elect w c) \<and> el_lease (ar_elect w c) = l"

definition uses :: "arena \<Rightarrow> nat \<Rightarrow> int \<Rightarrow> bool" where
  "uses w c l \<longleftrightarrow> ar_phase w c = Granted l \<or> ar_phase w c = Won l \<or> leads_with w c l"

definition holds :: "arena \<Rightarrow> nat \<Rightarrow> int \<Rightarrow> bool" where
  "holds w c l \<longleftrightarrow> ar_phase w c = Won l \<or> leads_with w c l"

lemma holds_uses: "holds w c l \<Longrightarrow> uses w c l"
  by (auto simp: holds_def uses_def)

definition lease_owner :: "arena \<Rightarrow> nat \<Rightarrow> int \<Rightarrow> bool" where
  "lease_owner w c l \<longleftrightarrow> uses w c l \<or> ar_key w = Some (c, l)"

text \<open>
  The invariant: a lease belongs to one controller; leases to come are unknown to all; and whoever
  counts on a live lease for its leadership has the key.
\<close>

definition elect_inv :: "arena \<Rightarrow> bool" where
  "elect_inv w \<longleftrightarrow>
     (\<forall>c l. lease_owner w c l \<longrightarrow> l < ar_next w) \<and>
     (\<forall>c c' l. lease_owner w c l \<longrightarrow> lease_owner w c' l \<longrightarrow> c = c') \<and>
     (\<forall>c l. holds w c l \<longrightarrow> l \<in> ar_live w \<longrightarrow> ar_key w = Some (c, l))"

lemma elect_invI:
  "(\<And>c l. lease_owner w c l \<Longrightarrow> l < ar_next w) \<Longrightarrow>
   (\<And>c c' l. lease_owner w c l \<Longrightarrow> lease_owner w c' l \<Longrightarrow> c = c') \<Longrightarrow>
   (\<And>c l. holds w c l \<Longrightarrow> l \<in> ar_live w \<Longrightarrow> ar_key w = Some (c, l)) \<Longrightarrow> elect_inv w"
  unfolding elect_inv_def by blast

lemma elect_invD:
  assumes "elect_inv w"
  shows "lease_owner w c l \<Longrightarrow> l < ar_next w" "lease_owner w c l \<Longrightarrow> lease_owner w c' l \<Longrightarrow> c = c'"
    "holds w c l \<Longrightarrow> l \<in> ar_live w \<Longrightarrow> ar_key w = Some (c, l)"
  using assms unfolding elect_inv_def by blast+

text \<open>Steps that give nobody a lease and take no key away from a live one.\<close>

lemma elect_inv_less:
  assumes "elect_inv w" "\<And>c l. lease_owner w' c l \<Longrightarrow> lease_owner w c l" "ar_next w' = ar_next w"
    and "\<And>c l. holds w' c l \<Longrightarrow> l \<in> ar_live w' \<Longrightarrow> ar_key w = Some (c, l) \<Longrightarrow> ar_key w' = Some (c, l)"
    and "\<And>c l. holds w' c l \<Longrightarrow> l \<in> ar_live w' \<Longrightarrow> holds w c l \<and> l \<in> ar_live w"
  shows "elect_inv w'"
  using assms unfolding elect_inv_def by metis

lemma set_phase_simps [simp]:
  "ar_key (set_phase c p w) = ar_key w" "ar_live (set_phase c p w) = ar_live w" "ar_next (set_phase c p w) = ar_next w"
  "ar_elect (set_phase c p w) = ar_elect w" "ar_phase (set_phase c p w) = (ar_phase w)(c := p)"
  "leads_with (set_phase c p w) = leads_with w"
  by (auto simp: set_phase_def leads_with_def fun_eq_iff)

lemma set_elect_simps [simp]:
  "ar_key (set_elect c f w) = ar_key w" "ar_live (set_elect c f w) = ar_live w" "ar_next (set_elect c f w) = ar_next w"
  "ar_phase (set_elect c f w) = ar_phase w" "ar_elect (set_elect c f w) = (ar_elect w)(c := f (ar_elect w c))"
  by (simp_all add: set_elect_def)

lemma drop_lease_simps [simp]:
  "ar_live (drop_lease l w) = ar_live w - {l}" "ar_next (drop_lease l w) = ar_next w"
  "ar_phase (drop_lease l w) = ar_phase w" "leads_with (drop_lease l w) = leads_with w"
  "ar_key (drop_lease l w) = Some (c, l') \<longleftrightarrow> ar_key w = Some (c, l') \<and> l' \<noteq> l"
  by (auto simp: drop_lease_def leads_with_def fun_eq_iff split: option.splits)

lemma elect_inv_idle: "elect_inv w \<Longrightarrow> elect_inv (set_phase c Idle w)"
  by (erule elect_inv_less) (auto simp: lease_owner_def uses_def holds_def split: if_splits)

lemma elect_inv_local:
  assumes "elect_inv w" "\<And>l. leads_with (set_elect c f w) c l \<Longrightarrow> leads_with w c l"
  shows "elect_inv (set_elect c f w)"
proof -
  have "leads_with (set_elect c f w) c' l \<Longrightarrow> leads_with w c' l" for c' l
    using assms(2) by (cases "c' = c") (auto simp: leads_with_def)
  then show ?thesis using assms(1)
    by (intro elect_inv_less[OF assms(1)]) (auto simp: lease_owner_def uses_def holds_def)
qed

lemma elect_inv_grant:
  assumes "elect_inv w" "w1 = w\<lparr>ar_live := insert (ar_next w) (ar_live w), ar_next := ar_next w + 1\<rparr>"
  shows "elect_inv w1" "lease_owner w1 = lease_owner w" "holds w1 = holds w" "\<not> lease_owner w1 c (ar_next w)"
proof -
  show o: "lease_owner w1 = lease_owner w" and h: "holds w1 = holds w"
    by (auto simp: assms(2) lease_owner_def uses_def holds_def leads_with_def fun_eq_iff)
  have lt: "\<And>c l. lease_owner w c l \<Longrightarrow> l < ar_next w" using assms(1) by (simp add: elect_inv_def)
  then show "\<not> lease_owner w1 c (ar_next w)" unfolding o by blast
  have "holds w c l \<Longrightarrow> l \<noteq> ar_next w" for c l
    using lt[of c l] holds_uses[of w c l] by (auto simp: lease_owner_def)
  then have ne: "holds w c l \<Longrightarrow> l \<in> ar_live w1 \<Longrightarrow> l \<in> ar_live w" for c l by (auto simp: assms(2))
  have k: "ar_key w1 = ar_key w" "ar_next w1 = ar_next w + 1" by (simp_all add: assms(2))
  note D = elect_invD[OF assms(1)]
  show "elect_inv w1"
  proof (rule elect_invI, unfold o h k)
    show "lease_owner w c l \<Longrightarrow> l < ar_next w + 1" for c l using lt[of c l] by simp
    show "lease_owner w c l \<Longrightarrow> lease_owner w c' l \<Longrightarrow> c = c'" for c c' l by (rule D(2))
    show "holds w c l \<Longrightarrow> l \<in> ar_live w1 \<Longrightarrow> ar_key w = Some (c, l)" for c l using D(3)[of c l] ne[of c l] by simp
  qed
qed

lemma elect_inv_campaign:
  assumes "elect_inv w" "ar_phase w c = Granted l" "ar_key w = None" "l \<in> ar_live w" "p = Won l \<or> p = Idle"
  shows "elect_inv (set_phase c p (w\<lparr>ar_key := Some (c, l)\<rparr>))"
proof -
  let ?w = "set_phase c p (w\<lparr>ar_key := Some (c, l)\<rparr>)"
  have u: "uses w c l" using assms(2) by (simp add: uses_def)
  have lead: "leads_with (w\<lparr>ar_key := Some (c, l)\<rparr>) = leads_with w" by (simp add: leads_with_def fun_eq_iff)
  have o: "lease_owner ?w c' l' \<Longrightarrow> lease_owner w c' l'" for c' l'
    using assms(5) u by (auto simp: lease_owner_def uses_def lead assms(2) split: if_splits)
  have h: "holds ?w c' l' \<Longrightarrow> holds w c' l' \<or> (c' = c \<and> l' = l)" for c' l'
    using assms(5) by (auto simp: holds_def lead split: if_splits)
  have none: "holds w c' l' \<Longrightarrow> l' \<in> ar_live w \<Longrightarrow> False" for c' l'
    using assms(1,3) by (auto simp: elect_inv_def)
  note D = elect_invD[OF assms(1)]
  show ?thesis
  proof (rule elect_invI)
    show "lease_owner ?w c' l' \<Longrightarrow> l' < ar_next ?w" for c' l' using D(1)[OF o] by simp
    show "lease_owner ?w c' l' \<Longrightarrow> lease_owner ?w c'' l' \<Longrightarrow> c' = c''" for c' c'' l' by (rule D(2)[OF o o])
    show "holds ?w c' l' \<Longrightarrow> l' \<in> ar_live ?w \<Longrightarrow> ar_key ?w = Some (c', l')" for c' l'
      using h[of c' l'] none[of c' l'] by auto
  qed
qed

lemma elect_inv_keep:
  assumes "elect_inv w" "ar_phase w c = Won l"
  shows "elect_inv (set_phase c Idle (set_elect c (become_leader l) w))"
proof -
  let ?w = "set_phase c Idle (set_elect c (become_leader l) w)"
  have lead: "leads_with (set_elect c (become_leader l) w) c' l' \<Longrightarrow> leads_with w c' l' \<or> (c' = c \<and> l' = l)" for c' l'
    by (auto simp: leads_with_def become_leader_def split: if_splits)
  have h: "holds ?w c' l' \<Longrightarrow> holds w c' l'" for c' l'
    using lead[of c' l'] assms(2) by (auto simp: holds_def split: if_splits)
  have u: "uses ?w c' l' \<Longrightarrow> uses w c' l'" for c' l'
    using lead[of c' l'] assms(2) by (auto simp: uses_def split: if_splits)
  show ?thesis by (rule elect_inv_less[OF assms(1)]) (use h u in \<open>auto simp: lease_owner_def\<close>)
qed

lemma elect_inv_granted:
  assumes G: "elect_inv w" "\<And>c. \<not> lease_owner w c l" "l < ar_next w" and c: "ar_phase w c = Idle" "\<not> el_leader (ar_elect w c)"
  shows "elect_inv (set_phase c (Granted l) w)"
proof -
  let ?w = "set_phase c (Granted l) w"
  note D = elect_invD[OF G(1)]
  have o: "lease_owner ?w c' k \<Longrightarrow> (c' = c \<and> k = l) \<or> lease_owner w c' k" for c' k
    using c by (cases "c' = c") (auto simp: lease_owner_def uses_def)
  have h: "holds ?w c' k \<Longrightarrow> holds w c' k" for c' k
    by (cases "c' = c") (auto simp: holds_def)
  show ?thesis
  proof (rule elect_invI)
    show "lease_owner ?w c' k \<Longrightarrow> k < ar_next ?w" for c' k using o[of c' k] D(1)[of c' k] G(3) by auto
    show "lease_owner ?w c' k \<Longrightarrow> lease_owner ?w c'' k \<Longrightarrow> c' = c''" for c' c'' k
      using o[of c' k] o[of c'' k] D(2)[of c' k c''] G(2)[of c'] G(2)[of c''] by blast
    show "holds ?w c' k \<Longrightarrow> k \<in> ar_live ?w \<Longrightarrow> ar_key ?w = Some (c', k)" for c' k
      using h[of c' k] D(3)[of c' k] by simp
  qed
qed

lemma elect_inv_step: "elect_step w w' \<Longrightarrow> elect_inv w \<Longrightarrow> elect_inv w'"
proof (induction rule: elect_step.induct)
  case (grant w c)
  note G = elect_inv_grant[OF grant(3) refl]
  show ?case by (rule elect_inv_granted[OF G(1,4)]) (use grant in simp_all)
next
  case (grant_lost w)
  then show ?case by (rule elect_inv_grant(1)[OF _ refl])
next
  case (campaign_won w c l)
  show ?case by (rule elect_inv_campaign[OF campaign_won(4,1-3)]) simp
next
  case (campaign_lost_reply w c l)
  show ?case by (rule elect_inv_campaign[OF campaign_lost_reply(4,1-3)]) simp
next
  case (keep_alive w c l)
  then show ?case by (rule elect_inv_keep[rotated])
next
  case (watch_ended w c l)
  show ?case by (rule elect_inv_local[OF watch_ended]) (simp add: leads_with_def lose_leader_def split: if_splits)
next
  case (resigned w c)
  show ?case by (rule elect_inv_local[OF resigned]) (simp add: leads_with_def resign_local_def)
next
  case (lease_gone w l)
  show ?case
    by (rule elect_inv_less[OF lease_gone]) (simp_all add: lease_owner_def uses_def holds_def, auto)
next
  case (campaign_lost w c l)
  then show ?case by (simp add: elect_inv_idle)
next
  case (keep_alive_failed w c l)
  then show ?case by (simp add: elect_inv_idle)
qed

lemma elect_inv_reachable: "elect_reachable w \<Longrightarrow> elect_inv w"
proof (induction rule: elect_reachable.induct)
  case start
  show ?case by (simp add: elect_inv_def arena_start_def lease_owner_def uses_def holds_def leads_with_def new_elect_def)
qed (rule elect_inv_step)

text \<open>
  Property C8. Among any number of controllers, whatever the order of their requests and however
  leases run out, at most one leads with a lease that etcd still honours, and that one holds the
  leader key.
\<close>

theorem at_most_one_live_leader:
  assumes "elect_reachable w"
    and "el_leader (ar_elect w c)" "el_lease (ar_elect w c) \<in> ar_live w"
  shows "ar_key w = Some (c, el_lease (ar_elect w c)) \<and>
    (\<forall>c'. el_leader (ar_elect w c') \<and> el_lease (ar_elect w c') \<in> ar_live w \<longrightarrow> c' = c)"
proof -
  have I: "\<And>c l. holds w c l \<Longrightarrow> l \<in> ar_live w \<Longrightarrow> ar_key w = Some (c, l)"
    using elect_inv_reachable[OF assms(1)] by (simp add: elect_inv_def)
  have H: "\<And>c. el_leader (ar_elect w c) \<Longrightarrow> holds w c (el_lease (ar_elect w c))"
    by (simp add: holds_def leads_with_def)
  have "ar_key w = Some (c, el_lease (ar_elect w c))" using I[OF H] assms(2,3) by simp
  moreover have "c' = c" if "el_leader (ar_elect w c')" "el_lease (ar_elect w c') \<in> ar_live w" for c'
    using I[OF H[OF that(1)] that(2)] calculation by simp
  ultimately show ?thesis by blast
qed

text \<open>The election of one controller, step by step.\<close>

definition arena_led :: "nat \<Rightarrow> arena \<Rightarrow> arena" where
  "arena_led c w =
     (let l = ar_next w;
          w1 = set_phase c (Granted l) (w\<lparr>ar_live := insert l (ar_live w), ar_next := l + 1\<rparr>);
          w2 = set_phase c (Won l) (w1\<lparr>ar_key := Some (c, l)\<rparr>)
      in set_phase c Idle (set_elect c (become_leader l) w2))"

lemma arena_led_reachable:
  assumes "elect_reachable w" "ar_phase w c = Idle" "\<not> el_leader (ar_elect w c)" "ar_key w = None"
  shows "elect_reachable (arena_led c w)"
proof -
  let ?l = "ar_next w"
  let ?w1 = "set_phase c (Granted ?l) (w\<lparr>ar_live := insert ?l (ar_live w), ar_next := ?l + 1\<rparr>)"
  let ?w2 = "set_phase c (Won ?l) (?w1\<lparr>ar_key := Some (c, ?l)\<rparr>)"
  have 1: "elect_reachable ?w1" by (rule elect_reachable.step[OF assms(1) elect_step.grant[OF assms(2,3)]])
  have 2: "elect_reachable ?w2"
    by (rule elect_reachable.step[OF 1 elect_step.campaign_won]) (simp_all add: assms(4))
  show ?thesis unfolding arena_led_def Let_def
    by (rule elect_reachable.step[OF 2 elect_step.keep_alive]) simp
qed

theorem at_most_one_live_leader_witness:
  "ar_key (arena_led 0 arena_start) = Some (0, 1)"
proof -
  have "elect_reachable (arena_led 0 arena_start)"
    by (rule arena_led_reachable[OF elect_reachable.start]) (simp_all add: arena_start_def new_elect_def)
  then show ?thesis using at_most_one_live_leader[of "arena_led 0 arena_start" 0]
    by (simp add: arena_led_def arena_start_def Let_def become_leader_def)
qed

text \<open>
  The flag alone does not exclude a second leader: after a lease has run out and before
  its controller notices, another controller can lead while the first still takes itself for the
  leader and goes on sweeping. Assignments carry no token of the election, so nothing stops it.
\<close>

theorem stale_leader_reachable:
  "\<exists>w. elect_reachable w \<and> el_leader (ar_elect w 0) \<and> el_leader (ar_elect w 1)"
proof -
  let ?w = "drop_lease 1 (arena_led 0 arena_start)"
  have 1: "elect_reachable (arena_led 0 arena_start)"
    by (rule arena_led_reachable[OF elect_reachable.start]) (simp_all add: arena_start_def new_elect_def)
  then have 2: "elect_reachable ?w" by (rule elect_reachable.step[OF _ elect_step.lease_gone])
  have "elect_reachable (arena_led 1 ?w)"
    by (rule arena_led_reachable[OF 2])
       (simp_all add: arena_led_def arena_start_def new_elect_def Let_def drop_lease_def become_leader_def set_phase_def set_elect_def)
  moreover have "el_leader (ar_elect (arena_led 1 ?w) 0)" "el_leader (ar_elect (arena_led 1 ?w) 1)"
    by (simp_all add: arena_led_def arena_start_def new_elect_def Let_def drop_lease_def become_leader_def set_phase_def set_elect_def)
  ultimately show ?thesis by blast
qed

end
