(* ===== verification/Cluster.thy ===== *)
theory Cluster
  imports HashRing Membership
begin

text \<open>
  The controller: giving every shard a first owner, moving the shards of dead nodes (\<open>internal/cluster/failover\<close>), moving one misplaced shard
  (\<open>internal/cluster/rebalance\<close>) and the periodic sweep of \<open>internal/controllerapp\<close> that does
  all three when it leads. The operations work on any ownership store; the proofs use only its
  contract.
\<close>

section \<open>Failover\<close>

definition remove_node_id :: "int list \<Rightarrow> int \<Rightarrow> int list" where
  "remove_node_id nodes removed = filter (\<lambda>n. n \<noteq> removed) nodes"

definition failover_dead_node ::
  "'s store_ops \<Rightarrow> ('s, int list) eff \<Rightarrow> int \<Rightarrow> ('s, unit) eff" where
  "failover_dead_node ops alive_nodes dead =
     (if dead \<le> 0 then throw (ErrMsg ''dead node id must be > 0: %d'' [FInt dead])
      else ebind (so_shards_for_node ops dead) (\<lambda>dead_ownerships.
        if dead_ownerships = [] then ret ()
        else ebind alive_nodes (\<lambda>all_alive.
          let alive = remove_node_id all_alive dead
          in if alive = [] then throw (ErrMsg ''no alive node can take over shards from node %d'' [FInt dead])
             else efor dead_ownerships (\<lambda>x.
                    ebind (lift_res (choose_failover_target alive (ow_shard_id x)))
                      (\<lambda>target. so_assign ops (ow_shard_id x) target)))))"

text \<open>The owners that are not alive, each once, ascending.\<close>

definition dead_node_ids :: "ownership list \<Rightarrow> int list \<Rightarrow> int list" where
  "dead_node_ids ownerships alive =
     sort (remdups (map ow_node_id (filter (\<lambda>x. ow_node_id x \<notin> set alive) ownerships)))"

definition failover_missing_owners ::
  "'s store_ops \<Rightarrow> ('s, int list) eff \<Rightarrow> ('s, int list) eff" where
  "failover_missing_owners ops alive_nodes =
     ebind (so_all_ownerships ops) (\<lambda>all.
       if all = [] then ret []
       else ebind alive_nodes (\<lambda>alive.
         let dead = dead_node_ids all alive
         in ebind (efor dead (failover_dead_node ops alive_nodes)) (\<lambda>_. ret dead)))"

section \<open>Rebalance\<close>

record move =
  mv_shard_id :: int
  mv_from_node_id :: int
  mv_to_node_id :: int

record snapshot =
  sn_alive_node_ids :: "int list"
  sn_ownerships :: "ownership list"

fun plan_first :: "int list \<Rightarrow> ownership list \<Rightarrow> go_error + move option" where
  "plan_first alive [] = Inr None"
| "plan_first alive (x # xs) =
     (case target_node_id alive (ow_shard_id x) of
        Inl e \<Rightarrow> Inl e
      | Inr target \<Rightarrow>
          if ow_node_id x \<noteq> target
          then Inr (Some \<lparr>mv_shard_id = ow_shard_id x, mv_from_node_id = ow_node_id x, mv_to_node_id = target\<rparr>)
          else plan_first alive xs)"

definition default_plan :: "snapshot \<Rightarrow> go_error + move option" where
  "default_plan sn = plan_first (sn_alive_node_ids sn) (sn_ownerships sn)"

fun find_move_source :: "move \<Rightarrow> ownership list \<Rightarrow> go_error + unit" where
  "find_move_source m [] = Inl (ErrMsg ''rebalance shard %d has no current owner'' [FInt (mv_shard_id m)])"
| "find_move_source m (x # xs) =
     (if ow_shard_id x = mv_shard_id m
      then (if ow_node_id x \<noteq> mv_from_node_id m
            then Inl (ErrMsg ''rebalance source mismatch for shard %d: got owner %d, want %d''
                        [FInt (mv_shard_id m), FInt (ow_node_id x), FInt (mv_from_node_id m)])
            else Inr ())
      else find_move_source m xs)"

definition validate_move :: "move \<Rightarrow> snapshot \<Rightarrow> go_error + unit" where
  "validate_move m sn =
     (if mv_shard_id m < 0 then Inl (ErrMsg ''rebalance shard id must be >= 0: %d'' [FInt (mv_shard_id m)])
      else if mv_from_node_id m \<le> 0 then Inl (ErrMsg ''rebalance from node id must be > 0: %d'' [FInt (mv_from_node_id m)])
      else if mv_to_node_id m \<le> 0 then Inl (ErrMsg ''rebalance to node id must be > 0: %d'' [FInt (mv_to_node_id m)])
      else if mv_from_node_id m = mv_to_node_id m
        then Inl (ErrMsg ''rebalance target must differ from source node: %d'' [FInt (mv_from_node_id m)])
      else if mv_from_node_id m \<notin> set (sn_alive_node_ids sn)
        then Inl (ErrMsg ''rebalance source node is not alive: %d'' [FInt (mv_from_node_id m)])
      else if mv_to_node_id m \<notin> set (sn_alive_node_ids sn)
        then Inl (ErrMsg ''rebalance target node is not alive: %d'' [FInt (mv_to_node_id m)])
      else find_move_source m (sn_ownerships sn))"

definition rebalance_once ::
  "'s store_ops \<Rightarrow> ('s, int list) eff \<Rightarrow> (snapshot \<Rightarrow> go_error + move option) \<Rightarrow> ('s, move option) eff" where
  "rebalance_once ops alive_nodes planner =
     ebind alive_nodes (\<lambda>alive.
       if alive = [] then ret None
       else ebind (so_all_ownerships ops) (\<lambda>all.
         if all = [] then ret None
         else let sn = \<lparr>sn_alive_node_ids = sort alive, sn_ownerships = all\<rparr>
              in ebind (lift_res (planner sn)) (\<lambda>plan.
                   case plan of
                     None \<Rightarrow> ret None
                   | Some m \<Rightarrow>
                       ebind (lift_res (validate_move m sn)) (\<lambda>_.
                         ebind (so_assign ops (mv_shard_id m) (mv_to_node_id m)) (\<lambda>_. ret (Some m))))))"

section \<open>First owners and the sweep\<close>

definition assign_if_unowned ::
  "'s store_ops \<Rightarrow> int list \<Rightarrow> int set \<Rightarrow> int \<Rightarrow> ('s, unit) eff" where
  "assign_if_unowned ops alive owned k =
     (if k \<in> owned then ret ()
      else ebind (lift_res (target_node_id alive k)) (\<lambda>n. so_assign ops k n))"

definition ensure_initial_ownership ::
  "'s store_ops \<Rightarrow> ('s, int list) eff \<Rightarrow> int \<Rightarrow> ('s, unit) eff" where
  "ensure_initial_ownership ops alive_nodes shard_count =
     (if shard_count \<le> 0 then throw (ErrMsg ''shard count must be > 0'' [])
      else ebind (so_all_ownerships ops) (\<lambda>current.
        ebind alive_nodes (\<lambda>alive.
          if alive = [] then ret ()
          else efor [0..shard_count - 1]
                 (assign_if_unowned ops alive (set (map ow_shard_id current))))))"

text \<open>What a sweep ends with; the code prints it and goes on with the next tick.\<close>

datatype sweep_report =
    ElectionFailed go_error
  | NotLeader
  | InitialOwnershipFailed go_error
  | FailoverFailed go_error
  | RebalanceFailed "int list" go_error
  | Swept "int list" "move option"

definition catch_into :: "(go_error \<Rightarrow> 'b) \<Rightarrow> ('s, 'a) eff \<Rightarrow> ('a \<Rightarrow> ('s, 'b) eff) \<Rightarrow> ('s, 'b) eff" where
  "catch_into h m f = (\<lambda>s. case m s of (Inl e, s') \<Rightarrow> (Inr (h e), s') | (Inr x, s') \<Rightarrow> f x s')"

definition sweep ::
  "'s store_ops \<Rightarrow> ('s, int list) eff \<Rightarrow> ('s, bool) eff \<Rightarrow> int \<Rightarrow> ('s, sweep_report) eff" where
  "sweep ops alive_nodes try_acquire shard_count =
     catch_into ElectionFailed try_acquire (\<lambda>leader.
       if \<not> leader then ret NotLeader
       else catch_into InitialOwnershipFailed (ensure_initial_ownership ops alive_nodes shard_count) (\<lambda>_.
         catch_into FailoverFailed (failover_missing_owners ops alive_nodes) (\<lambda>dead.
           catch_into (RebalanceFailed dead) (rebalance_once ops alive_nodes default_plan) (\<lambda>moved.
             ret (Swept dead moved)))))"

section \<open>Where the shards end up\<close>

text \<open>
  \<open>moved full T K v v'\<close>: nothing outside \<open>K\<close> changed, and the shards of \<open>K\<close> went to the node
  \<open>T\<close> gives them, all of them if \<open>full\<close>.
\<close>

definition moved :: "bool \<Rightarrow> (int \<Rightarrow> int) \<Rightarrow> int set \<Rightarrow> (int \<rightharpoonup> ownership) \<Rightarrow> (int \<rightharpoonup> ownership) \<Rightarrow> bool" where
  "moved full T K v v' \<longleftrightarrow>
     (\<forall>k. k \<notin> K \<longrightarrow> v' k = v k) \<and>
     (\<forall>k \<in> K. (\<exists>x. v' k = Some x \<and> ow_node_id x = T k) \<or> (\<not> full \<and> v' k = v k))"

definition owned_by :: "(int \<rightharpoonup> ownership) \<Rightarrow> int set \<Rightarrow> int set" where
  "owned_by v N = {k. \<exists>x. v k = Some x \<and> ow_node_id x \<in> N}"

definition shard_target :: "int list \<Rightarrow> int \<Rightarrow> int" where
  "shard_target nodes k = projr (target_node_id nodes k)"

definition nodes_ok :: "int list \<Rightarrow> bool" where
  "nodes_ok nodes \<longleftrightarrow> sorted nodes \<and> distinct nodes \<and> (\<forall>n \<in> set nodes. 0 < n \<and> in64 n)"

lemma moved_refl: "moved False T K v v"
  by (simp add: moved_def)

lemma moved_empty [simp]: "moved full T {} v v' \<longleftrightarrow> v' = v"
  by (auto simp: moved_def)

lemma moved_mono: "moved full T K v v' \<Longrightarrow> K \<subseteq> L \<Longrightarrow> moved False T L v v'"
  unfolding moved_def by (metis subset_iff)

lemma moved_trans:
  assumes "moved f T K v v1" "moved g T L v1 v2"
  shows "moved (f \<and> g) T (K \<union> L) v v2"
  unfolding moved_def
proof (intro conjI allI impI ballI)
  fix k assume "k \<notin> K \<union> L"
  then show "v2 k = v k" using assms by (simp add: moved_def)
next
  fix k assume "k \<in> K \<union> L"
  moreover have "(k \<notin> K \<longrightarrow> v1 k = v k) \<and> (k \<in> K \<longrightarrow> (\<exists>x. v1 k = Some x \<and> ow_node_id x = T k) \<or> (\<not> f \<and> v1 k = v k))"
    "(k \<notin> L \<longrightarrow> v2 k = v1 k) \<and> (k \<in> L \<longrightarrow> (\<exists>x. v2 k = Some x \<and> ow_node_id x = T k) \<or> (\<not> g \<and> v2 k = v1 k))"
    using assms by (simp_all add: moved_def)
  ultimately show "(\<exists>x. v2 k = Some x \<and> ow_node_id x = T k) \<or> \<not> (f \<and> g) \<and> v2 k = v k"
    by (metis Un_iff)
qed

lemma assigned_moved: "assigned k n v v' \<Longrightarrow> T k = n \<Longrightarrow> moved full T {k} v v'"
  by (auto simp: assigned_def moved_def)

lemma shard_target_ok:
  assumes "nodes \<noteq> []" "nodes_ok nodes" "0 \<le> k"
  shows "target_node_id nodes k = Inr (shard_target nodes k)" "shard_target nodes k \<in> set nodes"
proof -
  obtain n where "target_node_id nodes k = Inr n" "n \<in> set nodes"
    using target_node_id_ok[OF assms(1) _ _ assms(3)] assms(2) unfolding nodes_ok_def by metis
  then show "target_node_id nodes k = Inr (shard_target nodes k)" "shard_target nodes k \<in> set nodes"
    by (simp_all add: shard_target_def)
qed

text \<open>Failover and rebalance agree on where a shard belongs.\<close>

lemma failover_target_eq:
  assumes "nodes \<noteq> []" "nodes_ok nodes" "0 \<le> k"
  shows "choose_failover_target nodes k = Inr (shard_target nodes k)"
proof -
  obtain n where n: "choose_failover_target nodes k = Inr n" "n \<in> set nodes"
    using choose_failover_target_ok[OF assms(1)] assms(2) unfolding nodes_ok_def by metis
  have "target_node_id nodes k =
     (case atoi (ring_get (foldl (\<lambda>m n. ring_add [itoa n] m) (new_consistent_hash defaultHashReplicas None) nodes) (itoa k)) of
        Inl e \<Rightarrow> Inl (ErrWrap ''parse target node : %w'' e) | Inr n \<Rightarrow> Inr n)"
    using assms by (intro target_node_id_eq) (auto simp: nodes_ok_def)
  then have "target_node_id nodes k = Inr n" using n(1) assms(1)
    unfolding choose_failover_target_def failoverHashReplicas_def defaultHashReplicas_def Let_def
    by (simp split: sum.splits)
  then show ?thesis using n by (simp add: shard_target_def)
qed

text \<open>The owned shards that the ring puts elsewhere, and the moves that put one right.\<close>

definition misplaced :: "int list \<Rightarrow> (int \<rightharpoonup> ownership) \<Rightarrow> int set" where
  "misplaced nodes v = {k. \<exists>x. v k = Some x \<and> ow_node_id x \<noteq> shard_target nodes k}"

definition move_of :: "int list \<Rightarrow> (int \<rightharpoonup> ownership) \<Rightarrow> move \<Rightarrow> bool" where
  "move_of nodes v m \<longleftrightarrow> mv_shard_id m \<in> misplaced nodes v \<and>
     (\<exists>x. v (mv_shard_id m) = Some x \<and> ow_node_id x = mv_from_node_id m) \<and>
     mv_to_node_id m = shard_target nodes (mv_shard_id m)"

lemma misplaced_moved:
  assumes "moved True (shard_target nodes) {k} v v'" "k \<in> misplaced nodes v"
  shows "misplaced nodes v' = misplaced nodes v - {k}" "dom v' = dom v"
proof -
  have 1: "\<exists>x. v' k = Some x \<and> ow_node_id x = shard_target nodes k" "\<And>j. j \<noteq> k \<Longrightarrow> v' j = v j"
    using assms(1) by (simp_all add: moved_def)
  have 2: "j \<in> misplaced nodes v' \<longleftrightarrow> j \<in> misplaced nodes v - {k}" for j
    using 1(1) 1(2)[of j] by (cases "j = k") (auto simp: misplaced_def)
  have "j \<in> dom v' \<longleftrightarrow> j \<in> dom v" for j
    using 1(1) 1(2)[of j] assms(2) by (cases "j = k") (auto simp: misplaced_def dom_def)
  then show "misplaced nodes v' = misplaced nodes v - {k}" "dom v' = dom v" using 2 by blast+
qed

lemma plan_first_ok:
  assumes "nodes \<noteq> []" "nodes_ok nodes" "\<forall>x \<in> set os. 0 \<le> ow_shard_id x"
  shows "plan_first nodes os \<noteq> Inl e"
  using assms(3) by (induction os) (auto simp: shard_target_ok[OF assms(1,2)])

lemma plan_first_None:
  assumes "nodes \<noteq> []" "nodes_ok nodes" "\<forall>x \<in> set os. 0 \<le> ow_shard_id x"
  shows "plan_first nodes os = Inr None \<Longrightarrow> \<forall>x \<in> set os. ow_node_id x = shard_target nodes (ow_shard_id x)"
  using assms(3) by (induction os) (auto simp: shard_target_ok[OF assms(1,2)] split: if_splits)

lemma plan_first_Some:
  assumes "nodes \<noteq> []" "nodes_ok nodes" "\<forall>x \<in> set os. 0 \<le> ow_shard_id x"
  shows "plan_first nodes os = Inr (Some m) \<Longrightarrow>
    \<exists>x \<in> set os. m = \<lparr>mv_shard_id = ow_shard_id x, mv_from_node_id = ow_node_id x,
       mv_to_node_id = shard_target nodes (ow_shard_id x)\<rparr> \<and> ow_node_id x \<noteq> shard_target nodes (ow_shard_id x)"
  using assms(3) by (induction os) (auto simp: shard_target_ok[OF assms(1,2)] split: if_splits)

section \<open>The controller over any store\<close>

text \<open>
  Beyond the ownership contract: a membership store that answers with the nodes alive, and
  assignments that leave membership alone. Membership does not change while an operation runs.
\<close>

locale cluster = ownership_lister ops view ok
  for ops :: "'s store_ops" and view :: "'s \<Rightarrow> int \<rightharpoonup> ownership" and ok :: "'s \<Rightarrow> bool" +
  fixes alive_nodes :: "('s, int list) eff" and members :: "'s \<Rightarrow> int list"
  assumes alive: "ok s \<Longrightarrow> alive_nodes s = (Inr ns, s') \<Longrightarrow>
      ok s' \<and> view s' = view s \<and> members s' = members s \<and> ns = members s"
    and alive_err: "ok s \<Longrightarrow> alive_nodes s = (Inl e, s') \<Longrightarrow> ok s' \<and> view s' = view s \<and> members s' = members s"
    and members_assign: "ok s \<Longrightarrow> members (snd (so_assign ops k n s)) = members s"
    and members_shards: "ok s \<Longrightarrow> members (snd (so_shards_for_node ops n s)) = members s"
    and members_all: "ok s \<Longrightarrow> members (snd (so_all_ownerships ops s)) = members s"
    and members_ok: "ok s \<Longrightarrow> nodes_ok (members s)"
    and view_range: "ok s \<Longrightarrow> view s k = Some x \<Longrightarrow> 0 \<le> k \<and> in64 k"
begin

definition same :: "'s \<Rightarrow> 's \<Rightarrow> bool" where
  "same s s' \<longleftrightarrow> ok s' \<and> members s' = members s"

lemma same_view_alive: "ok s \<Longrightarrow> alive_nodes s = (r, s') \<Longrightarrow> same s s' \<and> view s' = view s \<and> (\<forall>ns. r = Inr ns \<longrightarrow> ns = members s)"
  by (cases r) (auto simp: same_def dest: alive alive_err)

lemma same_view_all: "ok s \<Longrightarrow> so_all_ownerships ops s = (r, s') \<Longrightarrow> same s s' \<and> view s' = view s \<and>
    (\<forall>os. r = Inr os \<longrightarrow> sorted (map ow_shard_id os) \<and> distinct (map ow_shard_id os) \<and> set os = ran (view s))"
  using members_all[of s] by (cases r) (auto simp: same_def dest: all_ownerships all_ownerships_err)

lemma same_view_shards: "ok s \<Longrightarrow> so_shards_for_node ops n s = (r, s') \<Longrightarrow> same s s' \<and> view s' = view s \<and>
    (\<forall>os. r = Inr os \<longrightarrow> ow_shard_id ` set os = owned_by (view s) {n})"
proof -
  assume a: "ok s" "so_shards_for_node ops n s = (r, s')"
  have "ow_shard_id ` {x. \<exists>k. view s k = Some x \<and> ow_node_id x = n} = owned_by (view s) {n}"
    using view_shard[OF a(1)] by (force simp: owned_by_def image_iff)
  moreover have "members s' = members s" using members_shards[OF a(1), of n] a(2) by simp
  ultimately show ?thesis using a shards_for_node[of s n _ s'] shards_for_node_err[of s n _ s']
    by (cases r) (simp_all add: same_def)
qed

lemma assign_moved:
  assumes "ok s" "in64 k" "in64 n" "so_assign ops k n s = (r, s')" "T k = n"
  shows "same s s' \<and> moved (\<not> isl r) T {k} (view s) (view s')"
proof -
  have "members s' = members s" using members_assign[OF assms(1), of k n] assms(4) by simp
  moreover have "ok s' \<and> (assigned k n (view s) (view s') \<or> (isl r \<and> view s' = view s))"
    using assms assign[of k n s _ s'] assign_err[of k n s _ s'] by (cases r) auto
  ultimately show ?thesis
    using assigned_moved[of k n "view s" "view s'" T] assms(5) by (auto simp: same_def moved_refl)
qed

lemma same_trans: "same s s1 \<Longrightarrow> same s1 s2 \<Longrightarrow> same s s2"
  by (simp add: same_def)

text \<open>A loop whose steps move the shards of \<open>K x\<close> moves them all, up to an error.\<close>

definition moves :: "int list \<Rightarrow> (int \<Rightarrow> int) \<Rightarrow> int set \<Rightarrow> ('s, unit) eff \<Rightarrow> bool" where
  "moves ms T K m \<longleftrightarrow> (\<forall>s r s'. ok s \<longrightarrow> members s = ms \<longrightarrow> m s = (r, s') \<longrightarrow>
      same s s' \<and> moved (\<not> isl r) T K (view s) (view s'))"

lemma movesD:
  assumes "moves ms T K m" "ok s" "members s = ms" "m s = (r, s')"
  shows "same s s'" "moved (\<not> isl r) T K (view s) (view s')"
  using assms by (simp_all add: moves_def)

lemma efor_moved:
  assumes "\<forall>x \<in> set xs. moves ms T (K x) (f x)"
    and "ok s" "members s = ms" "efor xs f s = (r, s')"
  shows "same s s' \<and> moved (\<not> isl r) T (\<Union>x \<in> set xs. K x) (view s) (view s')"
  using assms
proof (induction xs arbitrary: s)
  case Nil
  then have "r = Inr ()" "s' = s" by simp_all
  then show ?case using Nil.prems(2) by (simp add: same_def)
next
  case (Cons x xs)
  let ?L = "\<Union>x \<in> set xs. K x"
  obtain r1 s1 where 1: "f x s = (r1, s1)" by fastforce
  have m: "moves ms T (K x) (f x)" using Cons.prems(1) by simp
  note S1 = movesD[OF m Cons.prems(2,3) 1]
  have U: "(\<Union>x \<in> set (x # xs). K x) = K x \<union> ?L" by simp
  show ?case
  proof (cases r1)
    case (Inl e)
    have "efor (x # xs) f s = (Inl e, s1)" using 1 Inl by simp
    then have r: "r = Inl e" "s' = s1" using Cons.prems(4) by simp_all
    have "moved False T (K x \<union> ?L) (view s) (view s1)" using S1(2) by (rule moved_mono) simp
    then show ?thesis unfolding U r using S1(1) by simp
  next
    case (Inr u)
    then have e: "efor xs f s1 = (r, s')" using 1 Cons.prems(4) by simp
    have s1: "ok s1" "members s1 = ms" using S1(1) Cons.prems(3) by (simp_all add: same_def)
    have IH: "same s1 s'" "moved (\<not> isl r) T ?L (view s1) (view s')"
      using Cons.IH[OF _ s1 e] Cons.prems(1) by simp_all
    have "moved (True \<and> \<not> isl r) T (K x \<union> ?L) (view s) (view s')"
      using moved_trans[OF S1(2) IH(2)] Inr by simp
    then show ?thesis unfolding U using same_trans[OF S1(1) IH(1)] by simp
  qed
qed

lemma movesI:
  "(\<And>s r s'. ok s \<Longrightarrow> members s = ms \<Longrightarrow> m s = (r, s') \<Longrightarrow> same s s' \<and> moved (\<not> isl r) T K (view s) (view s')) \<Longrightarrow>
   moves ms T K m"
  by (simp add: moves_def)

lemma moves_ret: "moves ms T {} (ret ())"
  by (rule movesI) (auto simp: same_def)

lemma moves_assign:
  assumes "in64 k" "in64 n" "T k = n"
  shows "moves ms T {k} (so_assign ops k n)"
  using assign_moved[where T = T] assms by (intro movesI) blast

lemma moves_assign_target:
  assumes ms: "ms \<noteq> []" "nodes_ok ms" and k: "0 \<le> k" "in64 k" and t: "tgt = Inr (shard_target ms k)"
  shows "moves ms (shard_target ms) {k} (ebind (lift_res tgt) (\<lambda>n. so_assign ops k n))"
proof -
  have "in64 (shard_target ms k)" using shard_target_ok[OF ms k(1)] ms(2) by (simp add: nodes_ok_def)
  then have "moves ms (shard_target ms) {k} (so_assign ops k (shard_target ms k))"
    using k(2) by (intro moves_assign) simp_all
  then show ?thesis by (simp add: t ebind_def lift_res_def)
qed

subsection \<open>First owners\<close>

lemma ensure_ok:
  assumes o: "ok s" and n: "0 < shard_count" "in64 shard_count"
    and e: "ensure_initial_ownership ops alive_nodes shard_count s = (r, s')"
  shows "same s s'"
    "moved (\<not> isl r \<and> members s \<noteq> []) (shard_target (members s)) ({0..<shard_count} - dom (view s)) (view s) (view s')"
proof -
  let ?ms = "members s" and ?K = "{0..<shard_count} - dom (view s)"
  obtain ra s1 where a: "so_all_ownerships ops s = (ra, s1)" by fastforce
  note A = same_view_all[OF o a]
  obtain rn s2 where m: "alive_nodes s1 = (rn, s2)" by fastforce
  have s1: "ok s1" "members s1 = ?ms" using A by (simp_all add: same_def)
  note M = same_view_alive[OF s1(1) m]
  have s2: "ok s2" "members s2 = ?ms" "view s2 = view s" using M A by (simp_all add: same_def)
  have "same s s' \<and> moved (\<not> isl r \<and> ?ms \<noteq> []) (shard_target ?ms) ?K (view s) (view s')"
  proof (cases "isl ra \<or> isl rn \<or> ?ms = []")
    case True
    then have "(isl r \<or> ?ms = []) \<and> (s' = s1 \<or> s' = s2)"
      using e n a m M s1(2) by (cases ra; cases rn) (auto simp: ensure_initial_ownership_def ebind_def)
    then show ?thesis using A M s2 by (auto simp: same_def moved_refl)
  next
    case False
    then obtain cur where cur: "ra = Inr cur" "rn = Inr ?ms" using M s1(2) by (cases ra; cases rn) auto
    let ?owned = "set (map ow_shard_id cur)"
    have owned: "?owned = dom (view s)" using all_ownerships_nodes[OF o, of cur s1] a cur(1) by (auto simp: dom_def)
    have E: "efor [0..shard_count - 1] (assign_if_unowned ops ?ms ?owned) s2 = (r, s')"
      using e n a m cur False by (simp add: ensure_initial_ownership_def ebind_def)
    have "moves ?ms (shard_target ?ms) (if k \<in> dom (view s) then {} else {k}) (assign_if_unowned ops ?ms ?owned k)"
      if "k \<in> set [0..shard_count - 1]" for k
    proof (cases "k \<in> dom (view s)")
      case True
      then show ?thesis by (simp only: assign_if_unowned_def owned if_True moves_ret)
    next
      case u: False
      have k: "0 \<le> k" "in64 k" using that n by (auto simp: in64_def)
      have ms: "?ms \<noteq> []" "nodes_ok ?ms" using False members_ok[OF o] by simp_all
      note T = moves_assign_target[OF ms k shard_target_ok(1)[OF ms k(1)]]
      show ?thesis using T u by (simp only: assign_if_unowned_def owned if_False)
    qed
    then have "\<forall>k \<in> set [0..shard_count - 1].
        moves ?ms (shard_target ?ms) (if k \<in> dom (view s) then {} else {k}) (assign_if_unowned ops ?ms ?owned k)" by blast
    from efor_moved[OF this s2(1,2) E]
    have R: "same s2 s'" "moved (\<not> isl r) (shard_target ?ms)
        (\<Union>k \<in> set [0..shard_count - 1]. if k \<in> dom (view s) then {} else {k}) (view s) (view s')"
      unfolding s2(3) by simp_all
    have "(\<Union>k \<in> set [0..shard_count - 1]. if k \<in> dom (view s) then {} else {k}) = ?K"
      by (auto split: if_splits)
    then show ?thesis using R False s2(2) by (simp add: same_def)
  qed
  then show "same s s'" "moved (\<not> isl r \<and> ?ms \<noteq> []) (shard_target ?ms) ?K (view s) (view s')" by simp_all
qed

subsection \<open>Failover\<close>

lemma owned_by_bounds: "ok s \<Longrightarrow> k \<in> owned_by (view s) N \<Longrightarrow> 0 \<le> k \<and> in64 k"
  by (auto simp: owned_by_def dest: view_range)

lemma dead_node_ok:
  assumes o: "ok s" and d: "d \<notin> set (members s)"
    and e: "failover_dead_node ops alive_nodes d s = (r, s')"
  shows "same s s'" "moved (\<not> isl r) (shard_target (members s)) (owned_by (view s) {d}) (view s) (view s')"
proof -
  let ?ms = "members s" and ?K = "owned_by (view s) {d}"
  obtain ra s1 where a: "so_shards_for_node ops d s = (ra, s1)" by fastforce
  note A = same_view_shards[OF o a]
  have s1: "ok s1" "members s1 = ?ms" using A by (simp_all add: same_def)
  obtain rn s2 where m: "alive_nodes s1 = (rn, s2)" by fastforce
  note M = same_view_alive[OF s1(1) m]
  have s2: "ok s2" "members s2 = ?ms" "view s2 = view s" using M A by (simp_all add: same_def)
  have rem: "remove_node_id ?ms d = ?ms" using d by (auto simp: remove_node_id_def filter_id_conv)
  consider (early) "d \<le> 0 \<or> isl ra" | (none) "0 < d" "ra = Inr []"
    | (err) os where "0 < d" "ra = Inr os" "os \<noteq> []" "isl rn \<or> ?ms = []"
    | (run) os where "0 < d" "ra = Inr os" "os \<noteq> []" "rn = Inr ?ms" "?ms \<noteq> []"
    using M s1(2) by (cases ra; cases rn; cases "0 < d"; cases "projr ra = []"; cases "?ms = []") auto
  then have "same s s' \<and> moved (\<not> isl r) (shard_target ?ms) ?K (view s) (view s')"
  proof cases
    case early
    then have "isl r \<and> (s' = s \<or> s' = s1)" using e a by (cases ra) (auto simp: failover_dead_node_def ebind_def split: if_splits)
    then show ?thesis using A o by (auto simp: same_def moved_refl)
  next
    case none
    then have "r = Inr () \<and> s' = s1" using e a by (auto simp: failover_dead_node_def ebind_def)
    then show ?thesis using A none by auto
  next
    case err
    then have "isl r \<and> s' = s2" using e a m M s1(2)
      by (cases rn) (auto simp: failover_dead_node_def ebind_def Let_def remove_node_id_def)
    then show ?thesis using s2 by (auto simp: same_def moved_refl)
  next
    case run
    have E: "efor os (\<lambda>x. ebind (lift_res (choose_failover_target ?ms (ow_shard_id x)))
                      (\<lambda>target. so_assign ops (ow_shard_id x) target)) s2 = (r, s')"
      using e a m run rem by (simp add: failover_dead_node_def ebind_def Let_def)
    have ids: "ow_shard_id ` set os = ?K" using A run(2) by simp
    have ms: "?ms \<noteq> []" "nodes_ok ?ms" using run members_ok[OF o] by simp_all
    have "moves ?ms (shard_target ?ms) {ow_shard_id x} (ebind (lift_res (choose_failover_target ?ms (ow_shard_id x)))
                      (\<lambda>target. so_assign ops (ow_shard_id x) target))" if "x \<in> set os" for x
    proof -
      have "ow_shard_id x \<in> ?K" using that ids by blast
      then have k: "0 \<le> ow_shard_id x" "in64 (ow_shard_id x)" using owned_by_bounds[OF o] by blast+
      show ?thesis by (rule moves_assign_target[OF ms k failover_target_eq[OF ms k(1)]])
    qed
    then have "\<forall>x \<in> set os. moves ?ms (shard_target ?ms) {ow_shard_id x} (ebind (lift_res (choose_failover_target ?ms (ow_shard_id x)))
                      (\<lambda>target. so_assign ops (ow_shard_id x) target))" by blast
    note R = efor_moved[OF this s2(1,2) E]
    have "(\<Union>x \<in> set os. {ow_shard_id x}) = ?K" using ids by blast
    then show ?thesis using R s2(2,3) by (simp add: same_def)
  qed
  then show "same s s'" "moved (\<not> isl r) (shard_target ?ms) ?K (view s) (view s')" by simp_all
qed

lemma no_alive_error:
  assumes o: "ok s" and m: "members s = []" and k: "k \<in> owned_by (view s) {d}"
    and e: "failover_dead_node ops alive_nodes d s = (Inr u, s')"
  shows False
proof -
  obtain ra s1 where a: "so_shards_for_node ops d s = (ra, s1)" by fastforce
  note A = same_view_shards[OF o a]
  have s1: "ok s1" "members s1 = []" using A m by (simp_all add: same_def)
  obtain rn s2 where n: "alive_nodes s1 = (rn, s2)" by fastforce
  have "rn = Inr ns \<Longrightarrow> ns = []" for ns using same_view_alive[OF s1(1) n] s1(2) by simp
  moreover have "ra = Inr os \<Longrightarrow> os \<noteq> []" for os using A k by auto
  ultimately show False using e a n
    by (cases ra; cases rn) (auto simp: failover_dead_node_def ebind_def Let_def remove_node_id_def split: if_splits)
qed

lemma owned_by_moved:
  assumes "moved True T K v v'" "K = owned_by v {d}" "\<And>k. k \<in> K \<Longrightarrow> T k \<notin> N" "d \<notin> N"
  shows "owned_by v' N = owned_by v N"
proof -
  have "k \<in> owned_by v' N \<longleftrightarrow> k \<in> owned_by v N" for k
  proof (cases "k \<in> K")
    case True
    then have "\<exists>x. v' k = Some x \<and> ow_node_id x = T k" using assms(1) by (simp add: moved_def)
    moreover have "\<exists>x. v k = Some x \<and> ow_node_id x = d" using True assms(2) by (simp add: owned_by_def)
    ultimately show ?thesis using assms(3)[OF True] assms(4) by (auto simp: owned_by_def)
  next
    case False
    then show ?thesis using assms(1) by (simp add: moved_def owned_by_def)
  qed
  then show ?thesis by blast
qed

lemma dead_nodes_ok:
  assumes "ok s" "members s = ms" "set ds \<inter> set ms = {}" "distinct ds"
    and "efor ds (failover_dead_node ops alive_nodes) s = (r, s')"
  shows "same s s' \<and> moved (\<not> isl r) (shard_target ms) (owned_by (view s) (set ds)) (view s) (view s')"
  using assms
proof (induction ds arbitrary: s)
  case Nil
  then show ?case by (auto simp: same_def owned_by_def)
next
  case (Cons d ds)
  obtain r1 s1 where 1: "failover_dead_node ops alive_nodes d s = (r1, s1)" by fastforce
  have d: "d \<notin> set (members s)" using Cons.prems(2,3) by auto
  note D = dead_node_ok[OF Cons.prems(1) d 1, unfolded Cons.prems(2)]
  have U: "owned_by (view s) (set (d # ds)) = owned_by (view s) {d} \<union> owned_by (view s) (set ds)"
    by (auto simp: owned_by_def)
  show ?case
  proof (cases r1)
    case (Inl e)
    then have r: "r = Inl e" "s' = s1" using 1 Cons.prems(5) by simp_all
    have "moved False (shard_target ms) (owned_by (view s) {d} \<union> owned_by (view s) (set ds)) (view s) (view s1)"
      using D(2) by (rule moved_mono) simp
    then show ?thesis unfolding U r using D(1) by simp
  next
    case (Inr u)
    then have e: "efor ds (failover_dead_node ops alive_nodes) s1 = (r, s')" using 1 Cons.prems(5) by simp
    have s1: "ok s1" "members s1 = ms" using D(1) Cons.prems(2) by (simp_all add: same_def)
    have IH: "same s1 s'" "moved (\<not> isl r) (shard_target ms) (owned_by (view s1) (set ds)) (view s1) (view s')"
      using Cons.IH[OF s1 _ _ e] Cons.prems(3,4) by auto
    have m1: "moved True (shard_target ms) (owned_by (view s) {d}) (view s) (view s1)" using D(2) Inr by simp
    have "owned_by (view s1) (set ds) = owned_by (view s) (set ds)"
    proof (rule owned_by_moved[OF m1 refl])
      fix k assume k: "k \<in> owned_by (view s) {d}"
      show "shard_target ms k \<notin> set ds"
      proof (cases "ms = []")
        case False
        then show ?thesis using shard_target_ok(2)[OF False, of k] members_ok[OF Cons.prems(1)] Cons.prems(2,3)
            owned_by_bounds[OF Cons.prems(1) k] by auto
      next
        case True
        have "failover_dead_node ops alive_nodes d s = (Inr (), s1)" using 1 Inr by simp
        then have False using no_alive_error[OF Cons.prems(1) _ k] True Cons.prems(2) by simp
        then show ?thesis ..
      qed
    qed (use Cons.prems(4) in simp)
    then have "moved (True \<and> \<not> isl r) (shard_target ms) (owned_by (view s) {d} \<union> owned_by (view s) (set ds)) (view s) (view s')"
      using moved_trans[OF m1] IH(2) by simp
    then show ?thesis unfolding U using same_trans[OF D(1) IH(1)] by simp
  qed
qed

lemma owned_by_moved_gone:
  assumes "moved True T (owned_by v N) v v'" "\<And>k. k \<in> owned_by v N \<Longrightarrow> T k \<notin> N"
  shows "owned_by v' N = {}" "dom v' = dom v"
proof -
  have "k \<notin> owned_by v' N \<and> (v' k = None \<longleftrightarrow> v k = None)" for k
  proof (cases "k \<in> owned_by v N")
    case True
    then show ?thesis using assms(1) assms(2)[OF True] by (auto simp: moved_def owned_by_def)
  next
    case False
    then show ?thesis using assms(1) by (simp add: moved_def owned_by_def)
  qed
  then show "owned_by v' N = {}" "dom v' = dom v" by (auto simp: dom_def)
qed

lemma failover_ok:
  assumes o: "ok s" and e: "failover_missing_owners ops alive_nodes s = (r, s')"
  shows "same s s'"
    "moved (\<not> isl r) (shard_target (members s)) (owned_by (view s) (- set (members s))) (view s) (view s')"
    "r = Inr dead \<Longrightarrow> sorted dead \<and> distinct dead \<and>
       set dead = {n. n \<notin> set (members s) \<and> owned_by (view s) {n} \<noteq> {}}"
proof -
  let ?ms = "members s" and ?K = "owned_by (view s) (- set (members s))"
  let ?D = "{n. n \<notin> set ?ms \<and> owned_by (view s) {n} \<noteq> {}}"
  obtain ra s1 where a: "so_all_ownerships ops s = (ra, s1)" by fastforce
  note A = same_view_all[OF o a]
  have s1: "ok s1" "members s1 = ?ms" using A by (simp_all add: same_def)
  obtain rn s2 where m: "alive_nodes s1 = (rn, s2)" by fastforce
  note M = same_view_alive[OF s1(1) m]
  have s2: "ok s2" "members s2 = ?ms" "view s2 = view s" using M A by (simp_all add: same_def)
  consider (err) "isl ra" | (none) "ra = Inr []" | (err2) os where "ra = Inr os" "os \<noteq> []" "isl rn"
    | (run) os where "ra = Inr os" "os \<noteq> []" "rn = Inr ?ms"
    using M s1(2) by (cases ra; cases rn; cases "projr ra = []") auto
  then have "same s s' \<and> moved (\<not> isl r) (shard_target ?ms) ?K (view s) (view s') \<and>
      (\<forall>dead. r = Inr dead \<longrightarrow> sorted dead \<and> distinct dead \<and> set dead = ?D)"
  proof cases
    case err
    then have "isl r \<and> s' = s1" using e a by (cases ra) (auto simp: failover_missing_owners_def ebind_def)
    then show ?thesis using A by (auto simp: moved_refl)
  next
    case none
    then have r: "r = Inr [] \<and> s' = s1" using e a by (auto simp: failover_missing_owners_def ebind_def)
    have "ran (view s) = {}" using A none by auto
    then have "view s = Map.empty" by (auto simp: ran_def fun_eq_iff) (metis option.exhaust)
    then have "?K = {}" "?D = {}" by (simp_all add: owned_by_def)
    then show ?thesis using r A by simp
  next
    case err2
    then have "isl r \<and> s' = s2" using e a m by (cases rn) (auto simp: failover_missing_owners_def ebind_def)
    then show ?thesis using s2 by (auto simp: same_def moved_refl)
  next
    case run
    let ?ds = "dead_node_ids os ?ms"
    have ran: "set os = ran (view s)" using A run(1) by simp
    have ds: "set ?ds = ?D" "distinct ?ds" "sorted ?ds"
    proof -
      show "set ?ds = ?D" unfolding dead_node_ids_def by (auto simp: ran owned_by_def ran_def)
    qed (simp_all add: dead_node_ids_def)
    obtain rd sd where E: "efor ?ds (failover_dead_node ops alive_nodes) s2 = (rd, sd)" by fastforce
    have r: "s' = sd \<and> r = (case rd of Inl e \<Rightarrow> Inl e | Inr _ \<Rightarrow> Inr ?ds)"
      using e a m run E by (cases rd) (auto simp: failover_missing_owners_def ebind_def Let_def)
    have "set ?ds \<inter> set ?ms = {}" using ds(1) by auto
    note R = dead_nodes_ok[OF s2(1,2) this ds(2) E]
    have "owned_by (view s) (set ?ds) = ?K" unfolding ds(1) by (auto simp: owned_by_def)
    then show ?thesis using R r s2 ds by (cases rd) (auto simp: same_def)
  qed
  then show "same s s'" "moved (\<not> isl r) (shard_target ?ms) ?K (view s) (view s')"
    "r = Inr dead \<Longrightarrow> sorted dead \<and> distinct dead \<and> set dead = ?D" by simp_all
qed

lemma failover_needs_alive:
  assumes o: "ok s" and m: "members s = []" and e: "failover_missing_owners ops alive_nodes s = (Inr dead, s')"
    and k: "k \<in> owned_by (view s) N"
  shows False
proof -
  obtain ra s1 where a: "so_all_ownerships ops s = (ra, s1)" by fastforce
  note A = same_view_all[OF o a]
  have s1: "ok s1" "members s1 = []" using A m by (simp_all add: same_def)
  obtain rn s2 where n: "alive_nodes s1 = (rn, s2)" by fastforce
  note M = same_view_alive[OF s1(1) n]
  have s2: "ok s2" "members s2 = []" "view s2 = view s" using M A s1 by (simp_all add: same_def)
  obtain x where x: "view s k = Some x" using k by (auto simp: owned_by_def)
  then have "x \<in> ran (view s)" by (auto simp: ran_def)
  then obtain os where os: "ra = Inr os" "x \<in> set os" using A e a
    by (cases ra) (auto simp: failover_missing_owners_def ebind_def)
  have rn: "rn = Inr []" using e a n os M s1 by (cases rn; cases os) (auto simp: failover_missing_owners_def ebind_def)
  let ?ds = "dead_node_ids os []"
  have "\<exists>u t. efor ?ds (failover_dead_node ops alive_nodes) s2 = (Inr u, t)"
  proof -
    obtain rd sd where E: "efor ?ds (failover_dead_node ops alive_nodes) s2 = (rd, sd)" by fastforce
    then have "\<not> isl rd" using e a n os rn by (cases rd; cases os) (auto simp: failover_missing_owners_def ebind_def Let_def)
    then show ?thesis using E by (cases rd) auto
  qed
  moreover have "ow_node_id x \<in> set ?ds" using os(2) by (simp add: dead_node_ids_def)
  then obtain d ds where ds: "?ds = d # ds" by (cases ?ds) simp_all
  ultimately obtain u t where f: "failover_dead_node ops alive_nodes d s2 = (Inr u, t)"
    by (auto simp: ebind_ok_iff)
  have "d \<in> set ?ds" using ds by simp
  then obtain y where "y \<in> set os" "ow_node_id y = d" by (auto simp: dead_node_ids_def)
  then have "\<exists>j. j \<in> owned_by (view s2) {d}" using A os(1) s2(3) by (auto simp: owned_by_def ran_def)
  then show False using no_alive_error[OF s2(1,2) _ f] by blast
qed

text \<open>After a failover that reports no error every owner is alive, or there was nobody to take over.\<close>

lemma failover_all_alive:
  assumes o: "ok s" and e: "failover_missing_owners ops alive_nodes s = (Inr dead, s')"
  shows "owned_by (view s') (- set (members s)) = {}" "dom (view s') = dom (view s)"
proof -
  let ?K = "owned_by (view s) (- set (members s))"
  have m: "moved True (shard_target (members s)) ?K (view s) (view s')" using failover_ok(2)[OF o e] by simp
  have "shard_target (members s) k \<notin> - set (members s)" if "k \<in> ?K" for k
  proof (cases "members s = []")
    case False
    then show ?thesis using shard_target_ok(2)[OF False members_ok[OF o]] owned_by_bounds[OF o that] by simp
  next
    case True
    then show ?thesis using failover_needs_alive[OF o _ e that] by simp
  qed
  then show "owned_by (view s') (- set (members s)) = {}" "dom (view s') = dom (view s)"
    using owned_by_moved_gone[OF m] by blast+
qed

subsection \<open>Rebalance\<close>

lemma rebalance_ok:
  assumes o: "ok s" and e: "rebalance_once ops alive_nodes default_plan s = (r, s')"
  shows "same s s'"
    "r = Inr None \<Longrightarrow> view s' = view s \<and> (members s = [] \<or> misplaced (members s) (view s) = {})"
    "r = Inr (Some m) \<Longrightarrow> move_of (members s) (view s) m \<and> mv_from_node_id m \<in> set (members s) \<and>
       moved True (shard_target (members s)) {mv_shard_id m} (view s) (view s')"
    "r = Inl err \<Longrightarrow> view s' = view s \<or>
       (\<exists>m. move_of (members s) (view s) m \<and> moved False (shard_target (members s)) {mv_shard_id m} (view s) (view s'))"
proof -
  let ?ms = "members s"
  let ?ok = "\<lambda>m. move_of ?ms (view s) m \<and> mv_from_node_id m \<in> set ?ms"
  let ?goal = "same s s' \<and> (case r of
      Inr None \<Rightarrow> view s' = view s \<and> (?ms = [] \<or> misplaced ?ms (view s) = {})
    | Inr (Some m) \<Rightarrow> ?ok m \<and> moved True (shard_target ?ms) {mv_shard_id m} (view s) (view s')
    | Inl err \<Rightarrow> view s' = view s \<or> (\<exists>m. move_of ?ms (view s) m \<and> moved False (shard_target ?ms) {mv_shard_id m} (view s) (view s')))"
  obtain rn s1 where n: "alive_nodes s = (rn, s1)" by fastforce
  note M = same_view_alive[OF o n]
  have s1: "ok s1" "members s1 = ?ms" "view s1 = view s" using M by (simp_all add: same_def)
  obtain ra s2 where a: "so_all_ownerships ops s1 = (ra, s2)" by fastforce
  note A = same_view_all[OF s1(1) a]
  have s2: "ok s2" "members s2 = ?ms" "view s2 = view s" using A s1 by (simp_all add: same_def)
  consider (err) "isl rn" | (none) "rn = Inr ?ms" "?ms = []" | (err2) "rn = Inr ?ms" "?ms \<noteq> []" "isl ra"
    | (empty) "rn = Inr ?ms" "?ms \<noteq> []" "ra = Inr []"
    | (run) os where "rn = Inr ?ms" "?ms \<noteq> []" "ra = Inr os" "os \<noteq> []"
    using M by (cases ra; cases rn; cases "projr ra = []"; cases "?ms = []") auto
  then have ?goal
  proof cases
    case err
    then have "isl r \<and> s' = s1" using e n by (cases rn) (auto simp: rebalance_once_def ebind_def)
    then show ?thesis using s1 by (cases r) (auto simp: same_def)
  next
    case none
    then have "r = Inr None \<and> s' = s1" using e n by (auto simp: rebalance_once_def ebind_def)
    then show ?thesis using s1 none by (simp add: same_def)
  next
    case err2
    then have "isl r \<and> s' = s2" using e n a by (cases ra) (auto simp: rebalance_once_def ebind_def)
    then show ?thesis using s2 by (cases r) (auto simp: same_def)
  next
    case empty
    then have r: "r = Inr None \<and> s' = s2" using e n a by (auto simp: rebalance_once_def ebind_def)
    have "ran (view s) = {}" using A empty s1(3) by auto
    then have "misplaced ?ms (view s) = {}" by (auto simp: misplaced_def ran_def)
    then show ?thesis using r s2 by (simp add: same_def)
  next
    case run
    have ms: "?ms \<noteq> []" "nodes_ok ?ms" using run members_ok[OF o] by simp_all
    have os: "set os = ran (view s)" using A run(3) s1(3) by simp
    have sh: "view s (ow_shard_id x) = Some x \<and> 0 \<le> ow_shard_id x \<and> in64 (ow_shard_id x)" if "x \<in> set os" for x
      using that os view_shard[OF o] view_range[OF o] by (fastforce simp: ran_def)
    let ?sn = "\<lparr>sn_alive_node_ids = sort ?ms, sn_ownerships = os\<rparr>"
    have srt: "sort ?ms = ?ms" using ms(2) by (simp add: nodes_ok_def sorted_sort_id)
    have E: "(case default_plan ?sn of Inl e \<Rightarrow> (Inl e, s2) | Inr None \<Rightarrow> (Inr None, s2)
        | Inr (Some m) \<Rightarrow> (case validate_move m ?sn of Inl e \<Rightarrow> (Inl e, s2)
            | Inr u \<Rightarrow> (case so_assign ops (mv_shard_id m) (mv_to_node_id m) s2 of
                (Inl e, s3) \<Rightarrow> (Inl e, s3) | (Inr _, s3) \<Rightarrow> (Inr (Some m), s3)))) = (r, s')"
      using e n a run unfolding rebalance_once_def
      by (auto simp: ebind_def Let_def split: sum.splits option.splits prod.splits)
    have nonneg: "\<forall>x \<in> set os. 0 \<le> ow_shard_id x" using sh by blast
    show ?thesis
    proof (cases "default_plan ?sn")
      case (Inl err)
      then show ?thesis using plan_first_ok[OF ms nonneg] by (simp add: default_plan_def srt)
    next
      case (Inr plan)
      then have P: "plan_first ?ms os = Inr plan" by (simp add: default_plan_def srt)
      show ?thesis
      proof (cases plan)
        case None
        then have "\<forall>x \<in> set os. ow_node_id x = shard_target ?ms (ow_shard_id x)"
          using plan_first_None[OF ms nonneg] P by simp
        then have "misplaced ?ms (view s) = {}" using os view_shard[OF o] by (fastforce simp: misplaced_def ran_def)
        moreover have "r = Inr None \<and> s' = s2" using E unfolding Inr None by simp
        ultimately show ?thesis using s2 by (simp add: same_def)
      next
        case (Some m)
        then obtain x where x: "x \<in> set os" "m = \<lparr>mv_shard_id = ow_shard_id x, mv_from_node_id = ow_node_id x,
            mv_to_node_id = shard_target ?ms (ow_shard_id x)\<rparr>" "ow_node_id x \<noteq> shard_target ?ms (ow_shard_id x)"
          using plan_first_Some[OF ms nonneg] P by blast
        have mo: "move_of ?ms (view s) m" using x sh[OF x(1)] by (auto simp: move_of_def misplaced_def)
        have in64: "in64 (mv_shard_id m)" "in64 (mv_to_node_id m)"
          using x(2) sh[OF x(1)] shard_target_ok(2)[OF ms, of "ow_shard_id x"] ms(2) by (auto simp: nodes_ok_def)
        show ?thesis
        proof (cases "validate_move m ?sn")
          case (Inl err)
          then have "isl r \<and> s' = s2" using E Inr Some by auto
          then show ?thesis using s2 by (cases r) (auto simp: same_def)
        next
          case v: (Inr u)
          then have from_ms: "mv_from_node_id m \<in> set ?ms" by (auto simp: validate_move_def split: if_splits)
          obtain t s3 where t: "so_assign ops (mv_shard_id m) (mv_to_node_id m) s2 = (t, s3)" by fastforce
          have "same s2 s3 \<and> moved (\<not> isl t) (shard_target ?ms) {mv_shard_id m} (view s2) (view s3)"
            by (rule assign_moved[OF s2(1) in64 t]) (simp add: x(2))
          moreover have "s' = s3 \<and> r = (case t of Inl e \<Rightarrow> Inl e | Inr _ \<Rightarrow> Inr (Some m))"
            using E unfolding Inr Some by (cases t) (simp_all add: v t)
          ultimately show ?thesis using mo from_ms s2 by (cases t) (auto simp: same_def)
        qed
      qed
    qed
  qed
  then show "same s s'"
    "r = Inr None \<Longrightarrow> view s' = view s \<and> (?ms = [] \<or> misplaced ?ms (view s) = {})"
    "r = Inr (Some m) \<Longrightarrow> move_of ?ms (view s) m \<and> mv_from_node_id m \<in> set ?ms \<and>
       moved True (shard_target ?ms) {mv_shard_id m} (view s) (view s')"
    "r = Inl err \<Longrightarrow> view s' = view s \<or>
       (\<exists>m. move_of ?ms (view s) m \<and> moved False (shard_target ?ms) {mv_shard_id m} (view s) (view s'))"
    by simp_all
qed

subsection \<open>The sweep\<close>

text \<open>Whatever a step of a sweep ends with, a shard changes owner only towards its target.\<close>

lemma moved_weaken: "moved full T K v v' \<Longrightarrow> moved False T UNIV v v'"
  by (rule moved_mono) simp_all

lemma sweep_leads:
  assumes o: "ok s" and n: "0 < shard_count" "in64 shard_count"
    and e: "sweep ops alive_nodes (ret True) shard_count s = (r, s')"
  shows "same s s'" "moved False (shard_target (members s)) UNIV (view s) (view s')"
    "r = Inr (Swept dead mv) \<Longrightarrow> members s \<noteq> [] \<Longrightarrow>
       {0..<shard_count} \<union> dom (view s) = dom (view s') \<and>
       owned_by (view s') (- set (members s)) = {} \<and>
       (mv = None \<longrightarrow> misplaced (members s) (view s') = {})"
proof -
  let ?ms = "members s" and ?T = "shard_target (members s)"
  let ?goal = "same s s' \<and> moved False ?T UNIV (view s) (view s') \<and>
    (\<forall>dead mv. r = Inr (Swept dead mv) \<longrightarrow> ?ms \<noteq> [] \<longrightarrow>
       {0..<shard_count} \<union> dom (view s) = dom (view s') \<and> owned_by (view s') (- set ?ms) = {} \<and>
       (mv = None \<longrightarrow> misplaced ?ms (view s') = {}))"
  obtain r1 s1 where 1: "ensure_initial_ownership ops alive_nodes shard_count s = (r1, s1)" by fastforce
  note E = ensure_ok[OF o n 1]
  have s1: "ok s1" "members s1 = ?ms" using E(1) by (simp_all add: same_def)
  obtain r2 s2 where 2: "failover_missing_owners ops alive_nodes s1 = (r2, s2)" by fastforce
  note F = failover_ok[OF s1(1) 2, unfolded s1(2)]
  have s2: "ok s2" "members s2 = ?ms" using F(1) s1 by (simp_all add: same_def)
  obtain r3 s3 where 3: "rebalance_once ops alive_nodes default_plan s2 = (r3, s3)" by fastforce
  note R = rebalance_ok[OF s2(1) 3, unfolded s2(2)]
  have s3: "same s s3" using R(1) s2 by (simp add: same_def)
  have m2: "moved False ?T UNIV (view s) (view s2)"
    using moved_trans[OF moved_weaken[OF E(2)] moved_weaken[OF F(2)]] by simp
  have m23: "moved False ?T UNIV (view s2) (view s3)"
  proof (cases r3)
    case (Inl err)
    then show ?thesis using R(4) by (auto simp: moved_refl dest: moved_weaken)
  next
    case (Inr mo)
    then show ?thesis using R(2,3) by (cases mo) (auto simp: moved_refl dest: moved_weaken)
  qed
  have m3: "moved False ?T UNIV (view s) (view s3)"
    using moved_trans[OF m2 m23] by simp
  have run: "sweep ops alive_nodes (ret True) shard_count s =
      (case r1 of Inl e1 \<Rightarrow> (Inr (InitialOwnershipFailed e1), s1) | Inr _ \<Rightarrow>
        (case r2 of Inl e2 \<Rightarrow> (Inr (FailoverFailed e2), s2) | Inr ds \<Rightarrow>
          (case r3 of Inl e3 \<Rightarrow> (Inr (RebalanceFailed ds e3), s3) | Inr m \<Rightarrow> (Inr (Swept ds m), s3))))"
    using 1 2 3 by (cases r1; cases r2; cases r3) (simp_all add: sweep_def catch_into_def)
  consider (a) e1 where "r1 = Inl e1" | (b) u e2 where "r1 = Inr u" "r2 = Inl e2"
    | (c) u ds e3 where "r1 = Inr u" "r2 = Inr ds" "r3 = Inl e3"
    | (d) u ds m where "r1 = Inr u" "r2 = Inr ds" "r3 = Inr m"
    by (cases r1; cases r2; cases r3) auto
  then have ?goal
  proof cases
    case a
    then have "r = Inr (InitialOwnershipFailed e1)" "s' = s1" using e run by simp_all
    then show ?thesis using E moved_weaken by auto
  next
    case b
    then have "r = Inr (FailoverFailed e2)" "s' = s2" using e run by simp_all
    then show ?thesis using m2 s2 by (auto simp: same_def)
  next
    case c
    then have "r = Inr (RebalanceFailed ds e3)" "s' = s3" using e run by simp_all
    then show ?thesis using m3 s3 by auto
  next
    case d
    then have r: "r = Inr (Swept ds m)" "s' = s3" using e run by simp_all
    have "dom (view s3) = {0..<shard_count} \<union> dom (view s) \<and> owned_by (view s3) (- set ?ms) = {} \<and>
       (m = None \<longrightarrow> misplaced ?ms (view s3) = {})" if ne: "?ms \<noteq> []"
    proof -
      have "k \<in> dom (view s1) \<longleftrightarrow> k \<in> {0..<shard_count} \<union> dom (view s)" for k
        using E(2) d(1) ne unfolding moved_def by (cases "k \<in> {0..<shard_count} - dom (view s)") (auto simp: dom_def)
      then have d1: "dom (view s1) = {0..<shard_count} \<union> dom (view s)" by blast
      have f: "failover_missing_owners ops alive_nodes s1 = (Inr ds, s2)" using 2 d by simp
      note A = failover_all_alive[OF s1(1) f, unfolded s1(2)]
      show ?thesis
      proof (cases m)
        case None
        then show ?thesis using R(2) d A d1 ne by simp
      next
        case (Some mv)
        have mv: "mv_shard_id mv \<in> misplaced ?ms (view s2)" "moved True ?T {mv_shard_id mv} (view s2) (view s3)"
          using R(3)[of mv] d(3) Some by (simp_all add: move_of_def)
        have "0 \<le> mv_shard_id mv" using mv(1) view_range[OF s2(1)] by (auto simp: misplaced_def)
        then have "?T (mv_shard_id mv) \<in> set ?ms" using shard_target_ok(2)[OF ne members_ok[OF o]] by simp
        then have "k \<in> owned_by (view s3) (- set ?ms) \<Longrightarrow> k \<in> owned_by (view s2) (- set ?ms)" for k
          using mv(2) by (cases "k = mv_shard_id mv") (auto simp: moved_def owned_by_def)
        then have "owned_by (view s3) (- set ?ms) \<subseteq> owned_by (view s2) (- set ?ms)" by blast
        then show ?thesis using misplaced_moved(2)[OF mv(2,1)] A d1 Some by simp
      qed
    qed
    then show ?thesis using r m3 s3 by auto
  qed
  then show "same s s'" "moved False ?T UNIV (view s) (view s')"
    "r = Inr (Swept dead mv) \<Longrightarrow> ?ms \<noteq> [] \<Longrightarrow>
       {0..<shard_count} \<union> dom (view s) = dom (view s') \<and> owned_by (view s') (- set ?ms) = {} \<and>
       (mv = None \<longrightarrow> misplaced ?ms (view s') = {})" by simp_all
qed

end

section \<open>The controller over etcd\<close>

lemma node_key_not_shard: "\<not> prefix (shards_prefix pre) (nodes_prefix pre @ k)"
  by (simp add: shards_prefix_def nodes_prefix_def)

lemma nodes_not_shards: "prefix (nodes_prefix pre) key \<Longrightarrow> \<not> prefix (shards_prefix pre) key"
  by (erule prefixE) (simp add: node_key_not_shard)

text \<open>The ownership operations touch only keys under the ownership prefix.\<close>

definition off_shards :: "string \<Rightarrow> (string \<rightharpoonup> string \<times> int) \<Rightarrow> (string \<rightharpoonup> string \<times> int) \<Rightarrow> bool" where
  "off_shards pre m m' \<longleftrightarrow> (\<forall>key. \<not> prefix (shards_prefix pre) key \<longrightarrow> m' key = m key)"

lemma off_shards_members:
  assumes "off_shards pre m m'"
  shows "alive_set pre m' = alive_set pre m" "members_wf pre m \<Longrightarrow> members_wf pre m'"
proof -
  have "m' (node_key pre n) = m (node_key pre n)" for n
    using assms node_key_not_shard by (simp add: off_shards_def node_key_def)
  then show "alive_set pre m' = alive_set pre m" by (simp add: alive_set_def)
  show "members_wf pre m \<Longrightarrow> members_wf pre m'"
    using assms nodes_not_shards unfolding members_wf_def off_shards_def by metis
qed

lemma keeps_kv_get: "etcd_laws cl kv \<Longrightarrow> keeps (\<lambda>s. off_shards pre m (kv s)) (kv_get cl k)"
proof (rule keepsI)
  fix s assume L: "etcd_laws cl kv" and s: "off_shards pre m (kv s)"
  obtain t s' where t: "kv_get cl k s = (t, s')" by fastforce
  show "off_shards pre m (kv (snd (kv_get cl k s)))"
    using etcd_lawsD(1,2)[OF L, of k s] t s by (cases t) auto
qed

lemma keeps_kv_get_prefix: "etcd_laws cl kv \<Longrightarrow> keeps (\<lambda>s. off_shards pre m (kv s)) (kv_get_prefix cl k)"
proof (rule keepsI)
  fix s assume L: "etcd_laws cl kv" and s: "off_shards pre m (kv s)"
  obtain t s' where t: "kv_get_prefix cl k s = (t, s')" by fastforce
  show "off_shards pre m (kv (snd (kv_get_prefix cl k s)))"
    using etcd_lawsD(3,4)[OF L, of k s] t s by (cases t) auto
qed

lemma keeps_kv_txn:
  assumes L: "etcd_laws cl kv" and k: "prefix (shards_prefix pre) k"
  shows "keeps (\<lambda>s. off_shards pre m (kv s)) (kv_txn_put cl k cmp v)"
proof (rule keepsI)
  fix s assume s: "off_shards pre m (kv s)"
  obtain t s' where t: "kv_txn_put cl k cmp v s = (t, s')" by fastforce
  have "kv s' = kv s \<or> (\<exists>r. kv s' = (kv s)(k \<mapsto> (v, r)))"
    using etcd_lawsD(5,6)[OF L, of k cmp v s] t by (cases t) (fastforce split: if_splits)+
  then show "off_shards pre m (kv (snd (kv_txn_put cl k cmp v s)))"
    using s k by (auto simp: t off_shards_def)
qed

lemma keeps_assign_attempts:
  assumes L: "etcd_laws cl kv"
  shows "keeps (\<lambda>s. off_shards pre m (kv s)) (assign_attempts cl parse (shard_key pre k) k n j)"
proof (induction j)
  case (Suc j)
  have "keeps (\<lambda>s. off_shards pre m (kv s)) (try_assign cl parse (shard_key pre k) k n)"
    unfolding try_assign_def
    by (intro keeps_ebind keeps_wrap_err keeps_kv_get[OF L])
       (auto split: option.split sum.split intro!: keeps_wrap_err keeps_kv_txn[OF L])
  then show ?case using Suc by auto
next
  case 0
  show ?case unfolding assign_attempts.simps by (rule keeps_throw)
qed

lemma keeps_etcd_assign: "etcd_laws cl kv \<Longrightarrow> keeps (\<lambda>s. off_shards pre m (kv s)) (etcd_assign cl parse pre k n)"
  by (simp add: etcd_assign_def keeps_assign_attempts)

definition etcd_members :: "string \<Rightarrow> (string \<rightharpoonup> string \<times> int) \<Rightarrow> int list" where
  "etcd_members pre m = sorted_list_of_set (alive_set pre m)"

definition controller_ok :: "string \<Rightarrow> (string \<rightharpoonup> string \<times> int) \<Rightarrow> bool" where
  "controller_ok pre m \<longleftrightarrow> owners_wf pre m \<and> members_wf pre m"

lemma etcd_members_ok: "nodes_ok (etcd_members pre m)"
  by (cases "finite (alive_set pre m)") (auto simp: nodes_ok_def etcd_members_def alive_set_def)

lemma etcd_view_range:
  assumes "owners_wf pre m" "etcd_view parse pre m k = Some x"
  shows "0 \<le> k \<and> in64 k"
proof -
  obtain v r where m: "m (shard_key pre k) = Some (v, r)" and k: "0 \<le> k"
    using assms(2) by (auto simp: etcd_view_def split: if_splits option.splits)
  show ?thesis using owners_wf_key[OF assms(1) m] k by blast
qed

text \<open>A store's contract under a stronger invariant that its operations keep.\<close>

lemma ownership_lister_strengthen:
  assumes S: "ownership_lister ops view ok"
    and K: "\<And>k. keeps Q (so_owner_of ops k)" "\<And>n. keeps Q (so_shards_for_node ops n)"
      "\<And>k n. keeps Q (so_assign ops k n)" "keeps Q (so_all_ownerships ops)"
  shows "ownership_lister ops view (\<lambda>s. ok s \<and> Q s)"
proof -
  note B = ownership_lister.axioms(1)[OF S]
  show ?thesis
    using ownership_store.owner_of[OF B] ownership_store.owner_of_err[OF B] keepsE[OF K(1)]
      ownership_store.shards_for_node[OF B] ownership_store.shards_for_node_err[OF B] keepsE[OF K(2)]
      ownership_store.assign[OF B] ownership_store.assign_err[OF B] keepsE[OF K(3)]
      ownership_store.view_shard[OF B]
      ownership_lister.all_ownerships[OF S] ownership_lister.all_ownerships_err[OF S] keepsE[OF K(4)]
    by unfold_locales (metis (no_types, lifting))+
qed

lemma keeps_etcd_ops:
  assumes L: "etcd_laws cl kv"
  shows "keeps (\<lambda>s. off_shards pre m (kv s)) (so_owner_of (etcd_ops cl parse pre) k)"
    "keeps (\<lambda>s. off_shards pre m (kv s)) (so_shards_for_node (etcd_ops cl parse pre) n)"
    "keeps (\<lambda>s. off_shards pre m (kv s)) (so_assign (etcd_ops cl parse pre) k n)"
    "keeps (\<lambda>s. off_shards pre m (kv s)) (so_all_ownerships (etcd_ops cl parse pre))"
  by (auto simp: etcd_ops_def etcd_owner_of_def etcd_shards_for_node_def etcd_all_ownerships_def
      split: option.split sum.split
      intro!: keeps_wrap_err keeps_kv_get[OF L] keeps_kv_get_prefix[OF L] keeps_etcd_assign[OF L])

lemma off_shards_refl [simp]: "off_shards pre m m"
  by (simp add: off_shards_def)

lemma keeps_members:
  assumes "\<And>m. keeps (\<lambda>s. off_shards pre m (kv s)) f"
  shows "keeps (\<lambda>s. members_wf pre (kv s)) f" "etcd_members pre (kv (snd (f s))) = etcd_members pre (kv s)"
proof -
  have o: "off_shards pre (kv s) (kv (snd (f s)))" for s
    using keepsD[OF assms, of "kv s" s] by simp
  show "keeps (\<lambda>s. members_wf pre (kv s)) f" by (rule keepsI) (rule off_shards_members(2)[OF o])
  show "etcd_members pre (kv (snd (f s))) = etcd_members pre (kv s)"
    by (simp add: etcd_members_def off_shards_members(1)[OF o])
qed

lemma etcd_cluster_contract:
  assumes L: "etcd_laws cl kv" and p: "parser_ok parse" "node_parser_ok nparse"
  shows "cluster (etcd_ops cl parse pre) (\<lambda>s. etcd_view parse pre (kv s)) (\<lambda>s. controller_ok pre (kv s))
           (etcd_alive_nodes cl nparse pre) (\<lambda>s. etcd_members pre (kv s))"
proof (rule cluster.intro)
  note K = keeps_etcd_ops[OF L]
  show "ownership_lister (etcd_ops cl parse pre) (\<lambda>s. etcd_view parse pre (kv s)) (\<lambda>s. controller_ok pre (kv s))"
    unfolding controller_ok_def
    by (rule ownership_lister_strengthen[OF etcd_store_contract[OF L p(1)]]) (rule keeps_members(1), rule K)+
  show "cluster_axioms (etcd_ops cl parse pre) (\<lambda>s. etcd_view parse pre (kv s)) (\<lambda>s. controller_ok pre (kv s))
           (etcd_alive_nodes cl nparse pre) (\<lambda>s. etcd_members pre (kv s))"
  proof
    fix s s' ns
    assume o: "controller_ok pre (kv s)" and e: "etcd_alive_nodes cl nparse pre s = (Inr ns, s')"
    then show "controller_ok pre (kv s') \<and> etcd_view parse pre (kv s') = etcd_view parse pre (kv s) \<and>
        etcd_members pre (kv s') = etcd_members pre (kv s) \<and> ns = etcd_members pre (kv s)"
      using alive_nodes_ok[OF L p(2) _ e] by (simp add: controller_ok_def etcd_members_def)
  next
    fix s s' e'
    assume o: "controller_ok pre (kv s)" and e: "etcd_alive_nodes cl nparse pre s = (Inl e', s')"
    then show "controller_ok pre (kv s') \<and> etcd_view parse pre (kv s') = etcd_view parse pre (kv s) \<and>
        etcd_members pre (kv s') = etcd_members pre (kv s)"
      using alive_nodes_ok(1)[OF L p(2) _ e] by (simp add: controller_ok_def)
  next
    fix s k n
    show "etcd_members pre (kv (snd (so_assign (etcd_ops cl parse pre) k n s))) = etcd_members pre (kv s)"
      by (rule keeps_members(2)) (rule K)
    show "etcd_members pre (kv (snd (so_shards_for_node (etcd_ops cl parse pre) n s))) = etcd_members pre (kv s)"
      by (rule keeps_members(2)) (rule K)
    show "etcd_members pre (kv (snd (so_all_ownerships (etcd_ops cl parse pre) s))) = etcd_members pre (kv s)"
      by (rule keeps_members(2)) (rule K)
  next
    fix s show "nodes_ok (etcd_members pre (kv s))" by (rule etcd_members_ok)
  next
    fix s k x assume "controller_ok pre (kv s)" "etcd_view parse pre (kv s) k = Some x"
    then show "0 \<le> k \<and> in64 k" using etcd_view_range by (auto simp: controller_ok_def)
  qed
qed

interpretation ctl: cluster "etcd_ops ref_client ref_parse pre" "\<lambda>s. etcd_view ref_parse pre (ref_view s)"
    "\<lambda>s. controller_ok pre (ref_view s)" "etcd_alive_nodes ref_client ref_parse_node pre"
    "\<lambda>s. etcd_members pre (ref_view s)" for pre
  by (rule etcd_cluster_contract[OF ref_laws ref_parser_ok ref_parse_node_ok])

section \<open>Properties of the controller\<close>

text \<open>
  \<open>EnsureInitialOwnership\<close> gives the shards from 0 below the shard count that have no
  owner to the nodes the ring chooses for them, all of them when it reports no error and a node is
  alive; it touches no shard that has an owner, and neither an error half way nor anything else
  breaks the store.
\<close>

theorem ensure_initial_ownership_correct:
  assumes "etcd_laws cl kv" "parser_ok parse" "node_parser_ok nparse"
    and "controller_ok pre (kv s)" "0 < n" "in64 n"
  shows "case ensure_initial_ownership (etcd_ops cl parse pre) (etcd_alive_nodes cl nparse pre) n s of (r, s') \<Rightarrow>
    controller_ok pre (kv s') \<and> etcd_members pre (kv s') = etcd_members pre (kv s) \<and>
    moved (\<not> isl r \<and> etcd_members pre (kv s) \<noteq> []) (shard_target (etcd_members pre (kv s)))
      ({0..<n} - dom (etcd_view parse pre (kv s))) (etcd_view parse pre (kv s)) (etcd_view parse pre (kv s'))"
proof -
  note C = etcd_cluster_contract[OF assms(1-3)]
  obtain r s' where e: "ensure_initial_ownership (etcd_ops cl parse pre) (etcd_alive_nodes cl nparse pre) n s = (r, s')"
    by fastforce
  show ?thesis
    using cluster.ensure_ok[OF C assms(4-6) e] unfolding e by (simp add: cluster.same_def[OF C])
qed

theorem ensure_initial_ownership_correct_witness:
  "case ensure_initial_ownership (etcd_ops ref_client ref_parse ''/testp'') (etcd_alive_nodes ref_client ref_parse_node ''/testp'')
      64 ref_two_nodes of (r, s') \<Rightarrow> controller_ok ''/testp'' (ref_view s')"
  using ensure_initial_ownership_correct[OF ref_laws ref_parser_ok ref_parse_node_ok, of "''/testp''" ref_two_nodes 64]
    ref_two_nodes_ok by (simp add: controller_ok_def in64_def split: prod.splits)

text \<open>
  \<open>FailoverMissingOwners\<close> moves exactly the shards whose owner is not alive, each to the
  node the ring of the alive nodes chooses, which is where a rebalance would put it. Without an
  error every owner is alive afterwards, the same shards have owners, and the nodes reported dead
  are, in ascending order, those that owned a shard and were not alive.
\<close>

theorem failover_missing_owners_correct:
  assumes "etcd_laws cl kv" "parser_ok parse" "node_parser_ok nparse" "controller_ok pre (kv s)"
  shows "let v = etcd_view parse pre (kv s); ms = etcd_members pre (kv s)
    in case failover_missing_owners (etcd_ops cl parse pre) (etcd_alive_nodes cl nparse pre) s of (r, s') \<Rightarrow>
      let v' = etcd_view parse pre (kv s')
      in controller_ok pre (kv s') \<and> etcd_members pre (kv s') = ms \<and>
         moved (\<not> isl r) (shard_target ms) (owned_by v (- set ms)) v v' \<and>
         (case r of Inl e \<Rightarrow> True
          | Inr dead \<Rightarrow> owned_by v' (- set ms) = {} \<and> dom v' = dom v \<and>
              sorted dead \<and> distinct dead \<and> set dead = {n. n \<notin> set ms \<and> owned_by v {n} \<noteq> {}})"
proof -
  note C = etcd_cluster_contract[OF assms(1-3)]
  obtain r s' where e: "failover_missing_owners (etcd_ops cl parse pre) (etcd_alive_nodes cl nparse pre) s = (r, s')"
    by fastforce
  note F = cluster.failover_ok[OF C assms(4) e] cluster.failover_all_alive[OF C assms(4)] 
  show ?thesis
    using F e unfolding Let_def by (cases r) (simp_all add: cluster.same_def[OF C])
qed

theorem failover_missing_owners_correct_witness:
  "case failover_missing_owners (etcd_ops ref_client ref_parse ''/testp'') (etcd_alive_nodes ref_client ref_parse_node ''/testp'')
      ref_two_nodes of (r, s') \<Rightarrow> controller_ok ''/testp'' (ref_view s')"
  using failover_missing_owners_correct[OF ref_laws ref_parser_ok ref_parse_node_ok, of "''/testp''" ref_two_nodes]
    ref_two_nodes_ok by (simp add: controller_ok_def Let_def split: prod.splits)

text \<open>
  \<open>RebalanceOnce\<close> with the default planner makes at most one move, of a shard the ring of
  the alive nodes puts elsewhere, from its alive owner to that node; every move leaves one misplaced
  shard less, and when it finds no move none is left (or no node is alive). So repeating it ends
  with every shard where the ring puts it.
\<close>

theorem rebalance_once_converges:
  assumes "etcd_laws cl kv" "parser_ok parse" "node_parser_ok nparse" "controller_ok pre (kv s)"
  shows "let v = etcd_view parse pre (kv s); ms = etcd_members pre (kv s)
    in case rebalance_once (etcd_ops cl parse pre) (etcd_alive_nodes cl nparse pre) default_plan s of (r, s') \<Rightarrow>
      let v' = etcd_view parse pre (kv s')
      in controller_ok pre (kv s') \<and> etcd_members pre (kv s') = ms \<and>
         (case r of
            Inl e \<Rightarrow> v' = v \<or> (\<exists>k \<in> misplaced ms v. moved False (shard_target ms) {k} v v')
          | Inr None \<Rightarrow> v' = v \<and> (ms = [] \<or> misplaced ms v = {})
          | Inr (Some m) \<Rightarrow> move_of ms v m \<and> mv_from_node_id m \<in> set ms \<and>
              moved True (shard_target ms) {mv_shard_id m} v v' \<and>
              misplaced ms v' = misplaced ms v - {mv_shard_id m} \<and> dom v' = dom v)"
proof -
  note C = etcd_cluster_contract[OF assms(1-3)]
  obtain r s' where e: "rebalance_once (etcd_ops cl parse pre) (etcd_alive_nodes cl nparse pre) default_plan s = (r, s')"
    by fastforce
  note R = cluster.rebalance_ok[OF C assms(4) e]
  have 0: "controller_ok pre (kv s') \<and> etcd_members pre (kv s') = etcd_members pre (kv s)"
    using R(1) by (simp add: cluster.same_def[OF C])
  consider (err) x where "r = Inl x" | (none) "r = Inr None" | (some) m where "r = Inr (Some m)"
    by (cases r) auto
  then show ?thesis
  proof cases
    case err
    then show ?thesis using R(4)[OF err] 0 unfolding e Let_def by (auto simp: move_of_def)
  next
    case none
    then show ?thesis using R(2)[OF none] 0 unfolding e Let_def by simp
  next
    case some
    note M = R(3)[OF some]
    have k: "mv_shard_id m \<in> misplaced (etcd_members pre (kv s)) (etcd_view parse pre (kv s))"
      using M by (simp add: move_of_def)
    show ?thesis using M 0 misplaced_moved[OF _ k] unfolding e Let_def some by simp
  qed
qed

theorem rebalance_once_converges_witness:
  "case rebalance_once (etcd_ops ref_client ref_parse ''/testp'') (etcd_alive_nodes ref_client ref_parse_node ''/testp'')
      default_plan ref_two_nodes of (r, s') \<Rightarrow> controller_ok ''/testp'' (ref_view s')"
  using rebalance_once_converges[OF ref_laws ref_parser_ok ref_parse_node_ok, of "''/testp''" ref_two_nodes]
    ref_two_nodes_ok by (simp add: controller_ok_def Let_def split: prod.splits)

text \<open>
  Property C29. A controller's sweep. One that does not lead, or whose election fails, changes no
  owner. One that leads changes owners only towards the ring's choice; when it gets through and a
  node is alive, every shard below the shard count has an owner, no shard lost its owner, every
  owner is alive, and if it had nothing to rebalance every shard is where the ring puts it.
\<close>

theorem sweep_correct:
  assumes "etcd_laws cl kv" "parser_ok parse" "node_parser_ok nparse" "controller_ok pre (kv s)"
    and "0 < n" "in64 n" and "try_acquire s = (t, s1)" "kv s1 = kv s"
  shows "let v = etcd_view parse pre (kv s); ms = etcd_members pre (kv s)
    in case sweep (etcd_ops cl parse pre) (etcd_alive_nodes cl nparse pre) try_acquire n s of (r, s') \<Rightarrow>
      let v' = etcd_view parse pre (kv s')
      in controller_ok pre (kv s') \<and> moved False (shard_target ms) UNIV v v' \<and>
         (t \<noteq> Inr True \<longrightarrow> kv s' = kv s) \<and>
         (\<forall>dead mv. r = Inr (Swept dead mv) \<longrightarrow> ms \<noteq> [] \<longrightarrow>
            {0..<n} \<union> dom v = dom v' \<and> owned_by v' (- set ms) = {} \<and> (mv = None \<longrightarrow> misplaced ms v' = {}))"
proof -
  note C = etcd_cluster_contract[OF assms(1-3)]
  let ?ops = "etcd_ops cl parse pre" and ?alive = "etcd_alive_nodes cl nparse pre"
  have run: "sweep ?ops ?alive try_acquire n s =
      (case t of Inl e \<Rightarrow> (Inr (ElectionFailed e), s1)
       | Inr leads \<Rightarrow> if leads then sweep ?ops ?alive (ret True) n s1 else (Inr NotLeader, s1))"
    by (cases t) (simp_all add: sweep_def catch_into_def assms(7))
  show ?thesis
  proof (cases "t = Inr True")
    case False
    then obtain r where r: "sweep ?ops ?alive try_acquire n s = (Inr r, s1)" "\<forall>dead mv. r \<noteq> Swept dead mv"
      unfolding run by (cases t) auto
    show ?thesis unfolding r(1) Let_def using r(2) assms(4,8) False by (simp add: moved_refl)
  next
    case True
    have o: "controller_ok pre (kv s1)" using assms(4,8) by simp
    obtain r s' where e: "sweep ?ops ?alive (ret True) n s1 = (r, s')" by fastforce
    note S = cluster.sweep_leads[OF C o assms(5,6) e]
    show ?thesis unfolding run Let_def True using S assms(8) by (simp add: e cluster.same_def[OF C])
  qed
qed

theorem sweep_correct_witness:
  "case sweep (etcd_ops ref_client ref_parse ''/testp'') (etcd_alive_nodes ref_client ref_parse_node ''/testp'')
      (ret False) 64 ref_two_nodes of (r, s') \<Rightarrow> ref_view s' = ref_view ref_two_nodes"
  using sweep_correct[OF ref_laws ref_parser_ok ref_parse_node_ok, of "''/testp''" ref_two_nodes 64 "ret False" "Inr False" ref_two_nodes]
    ref_two_nodes_ok by (simp add: controller_ok_def in64_def Let_def split: prod.splits)

end
