(* ===== verification/Database.thy ===== *)
theory Database
  imports Ownership
begin

text \<open>
  The relational store (\<open>internal/database\<close>, generated by sqlc from \<open>database/queries\<close>): its tables,
  one function per SQL statement, and the transactions the components run them in. A statement is
  given by its SQL text; the columns have the widths of the Go parameter types. What Postgres
  decides by itself (a failing connection, the scan order of an unordered result, whether a commit
  whose reply is lost took effect), the answers of the ownership store and the clock come from an
  environment. Transactions are serial: a transaction works on the committed tables of its start.
\<close>

section \<open>Tables\<close>

record order_row =
  or_order_id :: int
  or_shard_id :: int
  or_status :: string
  or_x :: int
  or_y :: int
  or_attempt :: int
  or_cancel_reason :: string
  or_retry_reason :: string
  or_miss_reason :: string
  or_rider_id :: int
  or_score :: int
  or_last_event_id :: string
  or_updated_at :: int

record rider_row =
  rr_uid :: int
  rr_x :: int
  rr_y :: int
  rr_online :: bool
  rr_cell_id :: int
  rr_count :: int

record inbox_row =
  ib_shard_id :: int
  ib_offset_value :: int
  ib_processed_at :: int

record outbox_row =
  ob_event_id :: string
  ob_event_type :: string
  ob_aggregate_type :: string
  ob_aggregate_id :: string
  ob_shard_id :: int
  ob_occurred_at :: int
  ob_payload :: string
  ob_published_at :: "int option"
  ob_topic :: string
  ob_message_key :: string
  ob_claimed_by :: string
  ob_claimed_until :: int
  ob_attempts :: int
  ob_last_error :: string

record checkpoint_row =
  cr_offset_value :: int
  cr_epoch :: int
  cr_node_id :: int
  cr_updated_at :: int

text \<open>Primary keys: order, rider, (consumer, event), event, (consumer, topic, shard).\<close>

record database =
  tb_orders :: "int \<rightharpoonup> order_row"
  tb_riders :: "int \<rightharpoonup> rider_row"
  tb_inbox :: "string \<times> string \<rightharpoonup> inbox_row"
  tb_outbox :: "outbox_row list"
  tb_checkpoints :: "string \<times> string \<times> int \<rightharpoonup> checkpoint_row"

definition empty_database :: database where
  "empty_database = \<lparr>tb_orders = Map.empty, tb_riders = Map.empty, tb_inbox = Map.empty,
     tb_outbox = [], tb_checkpoints = Map.empty\<rparr>"

definition outbox_wf :: "database \<Rightarrow> bool" where
  "outbox_wf db \<longleftrightarrow> distinct (map ob_event_id (tb_outbox db))"

section \<open>Statements\<close>

type_synonym 'a stmt = "database \<Rightarrow> (go_error + 'a) \<times> database"

definition get_order :: "int \<Rightarrow> order_row stmt" where
  "get_order i db = (case tb_orders db i of None \<Rightarrow> (Inl ErrNoRows, db) | Some r \<Rightarrow> (Inr r, db))"

text \<open>The row lock of \<open>FOR UPDATE\<close> has no effect on serial transactions.\<close>

definition get_order_for_update :: "int \<Rightarrow> order_row stmt" where
  "get_order_for_update i db = (case tb_orders db i of None \<Rightarrow> (Inl ErrNoRows, db) | Some r \<Rightarrow> (Inr r, db))"

definition list_missed_orders_for_retry :: "int \<Rightarrow> int \<Rightarrow> int \<Rightarrow> (int \<times> int) list stmt" where
  "list_missed_orders_for_retry start_id end_id attempt db =
     (Inr (map (\<lambda>i. (i, or_shard_id (the (tb_orders db i))))
        (filter (\<lambda>i. case tb_orders db i of None \<Rightarrow> False
            | Some r \<Rightarrow> or_status r = ''missed'' \<and> or_attempt r < attempt) [start_id..end_id])), db)"

definition mark_order_matched :: "int \<Rightarrow> int \<Rightarrow> int \<Rightarrow> string \<Rightarrow> int \<Rightarrow> int stmt" where
  "mark_order_matched i rider score ev upd db =
     (case tb_orders db i of
        None \<Rightarrow> (Inr 0, db)
      | Some r \<Rightarrow>
          if or_status r = ''match_pending''
          then (Inr 1, db\<lparr>tb_orders := (tb_orders db)(i \<mapsto> r\<lparr>or_status := ''matched'', or_rider_id := rider,
                 or_score := score, or_last_event_id := ev, or_updated_at := upd\<rparr>)\<rparr>)
          else (Inr 0, db))"

definition mark_order_missed :: "int \<Rightarrow> string \<Rightarrow> string \<Rightarrow> int \<Rightarrow> int stmt" where
  "mark_order_missed i reason ev upd db =
     (case tb_orders db i of
        None \<Rightarrow> (Inr 0, db)
      | Some r \<Rightarrow>
          if or_status r = ''match_pending''
          then (Inr 1, db\<lparr>tb_orders := (tb_orders db)(i \<mapsto> r\<lparr>or_status := ''missed'', or_miss_reason := reason,
                 or_last_event_id := ev, or_updated_at := upd\<rparr>)\<rparr>)
          else (Inr 0, db))"

definition upsert_order :: "order_row \<Rightarrow> unit stmt" where
  "upsert_order r db = (Inr (), db\<lparr>tb_orders := (tb_orders db)(or_order_id r \<mapsto> r)\<rparr>)"

definition get_rider :: "int \<Rightarrow> rider_row stmt" where
  "get_rider u db = (case tb_riders db u of None \<Rightarrow> (Inl ErrNoRows, db) | Some r \<Rightarrow> (Inr r, db))"

definition reserve_rider :: "int \<Rightarrow> int \<Rightarrow> rider_row stmt" where
  "reserve_rider u max_count db =
     (case tb_riders db u of
        None \<Rightarrow> (Inl ErrNoRows, db)
      | Some r \<Rightarrow>
          if rr_online r \<and> rr_count r < max_count
          then let r' = r\<lparr>rr_count := rr_count r + 1\<rparr>
               in (Inr r', db\<lparr>tb_riders := (tb_riders db)(u \<mapsto> r')\<rparr>)
          else (Inl ErrNoRows, db))"

definition upsert_rider :: "rider_row \<Rightarrow> unit stmt" where
  "upsert_rider r db = (Inr (), db\<lparr>tb_riders := (tb_riders db)(rr_uid r \<mapsto> r)\<rparr>)"

definition record_inbox_event :: "string \<Rightarrow> string \<Rightarrow> inbox_row \<Rightarrow> int stmt" where
  "record_inbox_event consumer ev row db =
     (if tb_inbox db (consumer, ev) = None
      then (Inr 1, db\<lparr>tb_inbox := (tb_inbox db)((consumer, ev) \<mapsto> row)\<rparr>)
      else (Inr 0, db))"

text \<open>\<open>ON CONFLICT (event_id) DO NOTHING\<close>; the columns not named take their defaults.\<close>

definition create_outbox_event :: "outbox_row \<Rightarrow> unit stmt" where
  "create_outbox_event r db =
     (if ob_event_id r \<in> ob_event_id ` set (tb_outbox db) then (Inr (), db)
      else (Inr (), db\<lparr>tb_outbox := tb_outbox db @
        [r\<lparr>ob_published_at := None, ob_claimed_by := [], ob_claimed_until := 0, ob_attempts := 0, ob_last_error := []\<rparr>]\<rparr>))"

definition claimable :: "int \<Rightarrow> outbox_row \<Rightarrow> bool" where
  "claimable now r \<longleftrightarrow> ob_published_at r = None \<and> ob_claimed_until r < now"

definition claim_row :: "string \<Rightarrow> int \<Rightarrow> outbox_row \<Rightarrow> outbox_row" where
  "claim_row worker until r = r\<lparr>ob_claimed_by := worker, ob_claimed_until := until, ob_attempts := ob_attempts r + 1\<rparr>"

text \<open>
  \<open>scan\<close> is the order in which the rows are met (ties of \<open>ORDER BY\<close>), \<open>back\<close> the order of
  \<open>RETURNING\<close>. An attempt count beyond the column's range is an error.
\<close>

definition claim_outbox_events ::
  "(outbox_row list \<Rightarrow> outbox_row list) \<Rightarrow> (outbox_row list \<Rightarrow> outbox_row list) \<Rightarrow>
   string \<Rightarrow> int \<Rightarrow> int \<Rightarrow> int \<Rightarrow> outbox_row list stmt" where
  "claim_outbox_events scan back worker until now batch db =
     (let picked = take (nat batch) (sort_key ob_occurred_at (scan (filter (claimable now) (tb_outbox db))));
          ids = set (map ob_event_id picked)
      in if \<exists>r \<in> set picked. 2 ^ 31 \<le> ob_attempts r + 1 then (Inl (ErrExternal ''integer out of range''), db)
         else (Inr (back (map (claim_row worker until) picked)),
               db\<lparr>tb_outbox := map (\<lambda>r. if ob_event_id r \<in> ids then claim_row worker until r else r) (tb_outbox db)\<rparr>))"

definition mark_outbox_event_failed :: "string \<Rightarrow> string \<Rightarrow> string \<Rightarrow> unit stmt" where
  "mark_outbox_event_failed ev err worker db =
     (Inr (), db\<lparr>tb_outbox := map (\<lambda>r. if ob_event_id r = ev \<and> ob_claimed_by r = worker
        then r\<lparr>ob_claimed_by := [], ob_claimed_until := 0, ob_last_error := err\<rparr> else r) (tb_outbox db)\<rparr>)"

definition mark_row_published :: "int \<Rightarrow> outbox_row \<Rightarrow> outbox_row" where
  "mark_row_published now r = r\<lparr>ob_published_at := Some now, ob_claimed_by := [], ob_claimed_until := 0, ob_last_error := []\<rparr>"

definition mark_outbox_event_published :: "string \<Rightarrow> int \<Rightarrow> string \<Rightarrow> unit stmt" where
  "mark_outbox_event_published ev now worker db =
     (Inr (), db\<lparr>tb_outbox := map (\<lambda>r. if ob_event_id r = ev \<and> ob_claimed_by r = worker
        then mark_row_published now r else r) (tb_outbox db)\<rparr>)"

definition mark_outbox_events_published :: "int \<Rightarrow> string list \<Rightarrow> string \<Rightarrow> int stmt" where
  "mark_outbox_events_published now evs worker db =
     (let hit = (\<lambda>r. ob_event_id r \<in> set evs \<and> ob_claimed_by r = worker)
      in (Inr (int (length (filter hit (tb_outbox db)))),
          db\<lparr>tb_outbox := map (\<lambda>r. if hit r then mark_row_published now r else r) (tb_outbox db)\<rparr>))"

definition get_shard_checkpoint :: "string \<Rightarrow> string \<Rightarrow> int \<Rightarrow> checkpoint_row stmt" where
  "get_shard_checkpoint consumer topic k db =
     (case tb_checkpoints db (consumer, topic, k) of None \<Rightarrow> (Inl ErrNoRows, db) | Some r \<Rightarrow> (Inr r, db))"

text \<open>The \<open>WHERE\<close> of the upsert: an older epoch than the stored one changes nothing, without an error.\<close>

definition upsert_shard_checkpoint :: "string \<Rightarrow> string \<Rightarrow> int \<Rightarrow> checkpoint_row \<Rightarrow> unit stmt" where
  "upsert_shard_checkpoint consumer topic k row db =
     (let db' = db\<lparr>tb_checkpoints := (tb_checkpoints db)((consumer, topic, k) \<mapsto> row)\<rparr>
      in case tb_checkpoints db (consumer, topic, k) of
           None \<Rightarrow> (Inr (), db')
         | Some r \<Rightarrow> if cr_epoch r \<le> cr_epoch row then (Inr (), db') else (Inr (), db))"

lemmas stmt_defs = get_order_def get_order_for_update_def list_missed_orders_for_retry_def
  mark_order_matched_def mark_order_missed_def upsert_order_def get_rider_def reserve_rider_def
  upsert_rider_def record_inbox_event_def create_outbox_event_def mark_outbox_event_failed_def
  mark_outbox_event_published_def mark_outbox_events_published_def get_shard_checkpoint_def
  upsert_shard_checkpoint_def

section \<open>Transactions in an environment\<close>

text \<open>
  Every call out of the process takes one tick; the environment answers by tick. A commit that
  reports an error may have taken effect.
\<close>

datatype commit_result = CommitDone | CommitFailed go_error | CommitUnknown go_error

record env =
  en_fault :: "nat \<Rightarrow> go_error option"
  en_commit :: "nat \<Rightarrow> commit_result"
  en_owner :: "nat \<Rightarrow> int \<Rightarrow> go_error + ownership option"
  en_now :: "nat \<Rightarrow> int"
  en_scan :: "nat \<Rightarrow> outbox_row list \<Rightarrow> outbox_row list"
  en_back :: "nat \<Rightarrow> outbox_row list \<Rightarrow> outbox_row list"

record world =
  w_db :: database
  w_tx :: database
  w_tick :: nat

definition tick :: "world \<Rightarrow> world" where
  "tick w = w\<lparr>w_tick := Suc (w_tick w)\<rparr>"

definition in_tx :: "env \<Rightarrow> 'a stmt \<Rightarrow> (world, 'a) eff" where
  "in_tx en q = (\<lambda>w. case en_fault en (w_tick w) of
     Some e \<Rightarrow> (Inl e, tick w)
   | None \<Rightarrow> (case q (w_tx w) of (r, db') \<Rightarrow> (r, (tick w)\<lparr>w_tx := db'\<rparr>)))"

text \<open>A statement outside a transaction commits by itself.\<close>

definition auto_commit :: "env \<Rightarrow> 'a stmt \<Rightarrow> (world, 'a) eff" where
  "auto_commit en q = (\<lambda>w. case en_fault en (w_tick w) of
     Some e \<Rightarrow> (Inl e, tick w)
   | None \<Rightarrow> (case q (w_db w) of (r, db') \<Rightarrow> (r, (tick w)\<lparr>w_db := db'\<rparr>)))"

definition begin_tx :: "env \<Rightarrow> (world, unit) eff" where
  "begin_tx en = (\<lambda>w. case en_fault en (w_tick w) of
     Some e \<Rightarrow> (Inl e, tick w) | None \<Rightarrow> (Inr (), (tick w)\<lparr>w_tx := w_db w\<rparr>))"

definition commit_tx :: "env \<Rightarrow> (world, unit) eff" where
  "commit_tx en = (\<lambda>w. case en_commit en (w_tick w) of
     CommitDone \<Rightarrow> (Inr (), (tick w)\<lparr>w_db := w_tx w\<rparr>)
   | CommitFailed e \<Rightarrow> (Inl e, tick w)
   | CommitUnknown e \<Rightarrow> (Inl e, (tick w)\<lparr>w_db := w_tx w\<rparr>))"

definition owner_of :: "env \<Rightarrow> int \<Rightarrow> (world, ownership option) eff" where
  "owner_of en k = (\<lambda>w. (en_owner en (w_tick w) k, tick w))"

definition time_now :: "env \<Rightarrow> (world, int) eff" where
  "time_now en = (\<lambda>w. (Inr (en_now en (w_tick w)), tick w))"

text \<open>An environment without faults, in which shard \<open>k\<close> has one owner: used to exercise the model.\<close>

definition calm :: "ownership \<Rightarrow> env" where
  "calm x = \<lparr>en_fault = (\<lambda>_. None), en_commit = (\<lambda>_. CommitDone),
     en_owner = (\<lambda>_ k. Inr (if k = ow_shard_id x then Some x else None)), en_now = (\<lambda>_. 0),
     en_scan = (\<lambda>_ xs. xs), en_back = (\<lambda>_ xs. xs)\<rparr>"

lemma tick_simps [simp]: "w_db (tick w) = w_db w" "w_tx (tick w) = w_tx w" "w_tick (tick w) = Suc (w_tick w)"
  by (simp_all add: tick_def)

lemma in_tx_db: "in_tx en q w = (r, w') \<Longrightarrow> w_db w' = w_db w"
  by (auto simp: in_tx_def split: option.splits prod.splits)

lemma in_tx_ok: "in_tx en q w = (Inr x, w') \<Longrightarrow> q (w_tx w) = (Inr x, w_tx w') \<and> w_db w' = w_db w"
  by (auto simp: in_tx_def split: option.splits prod.splits)

lemma in_tx_cases:
  assumes "in_tx en q w = (r, w')"
  obtains (fault) e where "r = Inl e" "w_tx w' = w_tx w" "w_db w' = w_db w"
  | (run) "(r, w_tx w') = q (w_tx w)" "w_db w' = w_db w"
  using assms by (auto simp: in_tx_def split: option.splits prod.splits)

lemma owner_of_world: "owner_of en k w = (r, w') \<Longrightarrow> w_db w' = w_db w \<and> w_tx w' = w_tx w"
  by (auto simp: owner_of_def)

lemma time_now_world: "time_now en w = (r, w') \<Longrightarrow> w_db w' = w_db w \<and> w_tx w' = w_tx w \<and> (\<exists>t. r = Inr t)"
  by (auto simp: time_now_def)

text \<open>A transaction's steps before its commit leave the committed tables alone.\<close>

definition db_frame :: "(world, 'a) eff \<Rightarrow> bool" where
  "db_frame m \<longleftrightarrow> (\<forall>w. w_db (snd (m w)) = w_db w)"

lemma db_frameD: "db_frame m \<Longrightarrow> m w = (r, w') \<Longrightarrow> w_db w' = w_db w"
  unfolding db_frame_def by (metis snd_conv)

lemma db_frame_ret [simp, intro]: "db_frame (ret x)" by (simp add: db_frame_def)
lemma db_frame_throw [simp, intro]: "db_frame (throw e)" by (simp add: db_frame_def)
lemma db_frame_lift_res [simp, intro]: "db_frame (lift_res r)" by (simp add: db_frame_def)
lemma db_frame_in_tx [simp, intro]: "db_frame (in_tx en q)"
  unfolding db_frame_def using in_tx_db by (metis prod.collapse)
lemma db_frame_owner_of [simp, intro]: "db_frame (owner_of en k)" by (simp add: db_frame_def owner_of_def)
lemma db_frame_time_now [simp, intro]: "db_frame (time_now en)" by (simp add: db_frame_def time_now_def)
lemma db_frame_begin [simp, intro]: "db_frame (begin_tx en)"
  by (auto simp: db_frame_def begin_tx_def split: option.split)
lemma db_frame_wrap [intro]: "db_frame m \<Longrightarrow> db_frame (wrap_err msg m)" by (simp add: db_frame_def)
lemma db_frame_bind [intro]: "db_frame m \<Longrightarrow> (\<And>x. db_frame (f x)) \<Longrightarrow> db_frame (ebind m f)"
  unfolding db_frame_def ebind_def by (auto split: prod.split sum.split) (metis snd_conv)+
lemma db_frame_efor [intro]: "(\<And>x. db_frame (f x)) \<Longrightarrow> db_frame (efor xs f)"
  by (induction xs) auto

end
