(* ===== verification/OrderStore.thy ===== *)
theory OrderStore
  imports Database Membership
begin

text \<open>
  The state of an order and the stores that keep it (\<open>internal/orderstate\<close>): the interface \<open>Store\<close>
  with its contract as a locale, and its four implementations: in memory, in a JSON file, in etcd
  and in the \<open>orders\<close> table of a running transaction. JSON encoding is a parameter.
\<close>

section \<open>Order state\<close>

definition StatusCreated :: string where "StatusCreated = ''created''"
definition StatusSubmitted :: string where "StatusSubmitted = ''submitted''"
definition StatusCancelled :: string where "StatusCancelled = ''cancelled''"
definition StatusRetryRequested :: string where "StatusRetryRequested = ''retry_requested''"
definition StatusMatchPending :: string where "StatusMatchPending = ''match_pending''"
definition StatusMatched :: string where "StatusMatched = ''matched''"
definition StatusMissed :: string where "StatusMissed = ''missed''"

lemmas status_defs = StatusCreated_def StatusSubmitted_def StatusCancelled_def StatusRetryRequested_def
  StatusMatchPending_def StatusMatched_def StatusMissed_def

record order_state =
  os_order_id :: int
  os_shard_id :: int
  os_status :: string
  os_x :: int
  os_y :: int
  os_attempt :: int
  os_cancel_reason :: string
  os_retry_reason :: string
  os_miss_reason :: string
  os_rider_id :: int
  os_score :: int
  os_last_event_id :: string
  os_updated_at :: int

definition zero_order :: order_state where
  "zero_order = \<lparr>os_order_id = 0, os_shard_id = 0, os_status = [], os_x = 0, os_y = 0, os_attempt = 0,
     os_cancel_reason = [], os_retry_reason = [], os_miss_reason = [], os_rider_id = 0, os_score = 0,
     os_last_event_id = [], os_updated_at = 0\<rparr>"

section \<open>The interface\<close>

record 's order_ops =
  oo_load :: "int \<Rightarrow> ('s, order_state option) eff"
  oo_save :: "order_state \<Rightarrow> ('s, unit) eff"

text \<open>
  \<open>norm\<close> is what a store keeps of a state: columns narrower than the fields wrap. A save that
  reports an error may have happened.
\<close>

locale order_store =
  fixes ops :: "'s order_ops" and view :: "'s \<Rightarrow> int \<rightharpoonup> order_state" and ok :: "'s \<Rightarrow> bool"
    and norm :: "order_state \<Rightarrow> order_state"
  assumes load: "ok s \<Longrightarrow> oo_load ops i s = (Inr r, s') \<Longrightarrow> ok s' \<and> view s' = view s \<and> r = view s i"
    and load_err: "ok s \<Longrightarrow> oo_load ops i s = (Inl e, s') \<Longrightarrow> ok s' \<and> view s' = view s"
    and save: "ok s \<Longrightarrow> oo_save ops x s = (Inr u, s') \<Longrightarrow> ok s' \<and> view s' = (view s)(os_order_id x \<mapsto> norm x)"
    and save_err: "ok s \<Longrightarrow> oo_save ops x s = (Inl e, s') \<Longrightarrow>
      ok s' \<and> (view s' = view s \<or> view s' = (view s)(os_order_id x \<mapsto> norm x))"
    and view_id: "ok s \<Longrightarrow> view s i = Some x \<Longrightarrow> os_order_id x = i"
    and norm_id: "os_order_id (norm x) = os_order_id x"
begin

lemma save_load:
  "ok s \<Longrightarrow> oo_save ops x s = (Inr u, s1) \<Longrightarrow> oo_load ops (os_order_id x) s1 = (Inr r, s2) \<Longrightarrow> r = Some (norm x)"
  using save[of s x u s1] load[of s1 "os_order_id x" r s2] by simp

lemma save_others:
  "ok s \<Longrightarrow> oo_save ops x s = (r, s1) \<Longrightarrow> i \<noteq> os_order_id x \<Longrightarrow> view s1 i = view s i"
  using save[of s x _ s1] save_err[of s x _ s1] by (cases r) auto

end

section \<open>In memory\<close>

text \<open>\<open>ctx\<close> is \<open>ctx.Err()\<close>.\<close>

type_synonym memory_orders = "int \<rightharpoonup> order_state"

definition memory_load :: "go_error option \<Rightarrow> int \<Rightarrow> (memory_orders, order_state option) eff" where
  "memory_load ctx i = (case ctx of Some e \<Rightarrow> throw e | None \<Rightarrow> (\<lambda>s. (Inr (s i), s)))"

definition memory_save :: "go_error option \<Rightarrow> order_state \<Rightarrow> (memory_orders, unit) eff" where
  "memory_save ctx x = (case ctx of Some e \<Rightarrow> throw e | None \<Rightarrow> (\<lambda>s. (Inr (), s(os_order_id x \<mapsto> x))))"

definition memory_ops :: "go_error option \<Rightarrow> memory_orders order_ops" where
  "memory_ops ctx = \<lparr>oo_load = memory_load ctx, oo_save = memory_save ctx\<rparr>"

definition ids_ok :: "(int \<rightharpoonup> order_state) \<Rightarrow> bool" where
  "ids_ok m \<longleftrightarrow> (\<forall>i x. m i = Some x \<longrightarrow> os_order_id x = i)"

lemma ids_ok_update: "ids_ok m \<Longrightarrow> os_order_id x = i \<Longrightarrow> ids_ok (m(i \<mapsto> x))"
  by (simp add: ids_ok_def)

interpretation mem: order_store "memory_ops ctx" "\<lambda>s. s" ids_ok "\<lambda>x. x" for ctx
  by unfold_locales
     (auto simp: memory_ops_def memory_load_def memory_save_def ids_ok_def split: option.splits if_splits)

section \<open>In the orders table\<close>

definition state_of_row :: "order_row \<Rightarrow> order_state" where
  "state_of_row r = \<lparr>os_order_id = or_order_id r, os_shard_id = or_shard_id r, os_status = or_status r,
     os_x = or_x r, os_y = or_y r, os_attempt = or_attempt r, os_cancel_reason = or_cancel_reason r,
     os_retry_reason = or_retry_reason r, os_miss_reason = or_miss_reason r, os_rider_id = or_rider_id r,
     os_score = or_score r, os_last_event_id = or_last_event_id r, os_updated_at = or_updated_at r\<rparr>"

definition row_of_state :: "order_state \<Rightarrow> order_row" where
  "row_of_state x = \<lparr>or_order_id = os_order_id x, or_shard_id = wrap32 (os_shard_id x), or_status = os_status x,
     or_x = wrap32 (os_x x), or_y = wrap32 (os_y x), or_attempt = wrap32 (os_attempt x),
     or_cancel_reason = os_cancel_reason x, or_retry_reason = os_retry_reason x,
     or_miss_reason = os_miss_reason x, or_rider_id = os_rider_id x, or_score = wrap32 (os_score x),
     or_last_event_id = os_last_event_id x, or_updated_at = os_updated_at x\<rparr>"

definition postgres_load :: "env \<Rightarrow> int \<Rightarrow> (world, order_state option) eff" where
  "postgres_load en i = (\<lambda>w. case in_tx en (get_order i) w of
     (Inl e, w') \<Rightarrow> if errors_is e ErrNoRows then (Inr None, w') else (Inl e, w')
   | (Inr r, w') \<Rightarrow> (Inr (Some (state_of_row r)), w'))"

definition postgres_save :: "env \<Rightarrow> order_state \<Rightarrow> (world, unit) eff" where
  "postgres_save en x = in_tx en (upsert_order (row_of_state x))"

definition postgres_ops :: "env \<Rightarrow> world order_ops" where
  "postgres_ops en = \<lparr>oo_load = postgres_load en, oo_save = postgres_save en\<rparr>"

definition order_view :: "database \<Rightarrow> int \<rightharpoonup> order_state" where
  "order_view db i = map_option state_of_row (tb_orders db i)"

definition rows_ok :: "database \<Rightarrow> bool" where
  "rows_ok db \<longleftrightarrow> (\<forall>i r. tb_orders db i = Some r \<longrightarrow> or_order_id r = i)"

text \<open>A connection error is not \<open>pgx.ErrNoRows\<close>, so a row that is there is never reported missing.\<close>

definition honest :: "env \<Rightarrow> bool" where
  "honest en \<longleftrightarrow> (\<forall>t e. en_fault en t = Some e \<longrightarrow> \<not> errors_is e ErrNoRows)"

definition narrow :: "order_state \<Rightarrow> order_state" where
  "narrow x = x\<lparr>os_shard_id := wrap32 (os_shard_id x), os_x := wrap32 (os_x x), os_y := wrap32 (os_y x),
     os_attempt := wrap32 (os_attempt x), os_score := wrap32 (os_score x)\<rparr>"

lemma state_of_row_of_state: "state_of_row (row_of_state x) = narrow x"
  by (simp add: state_of_row_def row_of_state_def narrow_def)

lemma postgres_load_cases:
  assumes h: "honest en" and e: "postgres_load en i w = (r, w')"
  shows "w_tx w' = w_tx w \<and> w_db w' = w_db w \<and> (\<forall>x. r = Inr x \<longrightarrow> x = order_view (w_tx w) i)"
  using assms by (auto simp: postgres_load_def in_tx_def get_order_def order_view_def honest_def
      split: option.splits prod.splits if_splits)

lemma postgres_save_cases:
  assumes "postgres_save en x w = (r, w')"
  shows "w_db w' = w_db w" "r = Inr u \<Longrightarrow> w_tx w' = (w_tx w)\<lparr>tb_orders := (tb_orders (w_tx w))(os_order_id x \<mapsto> row_of_state x)\<rparr>"
    "r = Inl e \<Longrightarrow> w_tx w' = w_tx w"
  using assms by (auto simp: postgres_save_def in_tx_def upsert_order_def row_of_state_def split: option.splits)

lemma order_view_upsert:
  "order_view (db\<lparr>tb_orders := (tb_orders db)(os_order_id x \<mapsto> row_of_state x)\<rparr>) = (order_view db)(os_order_id x \<mapsto> narrow x)"
  by (auto simp: order_view_def state_of_row_of_state fun_eq_iff)

lemma postgres_store_contract:
  assumes h: "honest en"
  shows "order_store (postgres_ops en) (\<lambda>w. order_view (w_tx w)) (\<lambda>w. rows_ok (w_tx w)) narrow"
proof (unfold_locales, goal_cases)
  case (1 s i r s')
  then show ?case using postgres_load_cases[OF h, of i s "Inr r" s'] by (simp add: postgres_ops_def)
next
  case (2 s i e s')
  then show ?case using postgres_load_cases[OF h, of i s "Inl e" s'] by (simp add: postgres_ops_def)
next
  case (3 s x u s')
  then show ?case using postgres_save_cases(2)[of en x s "Inr u" s' u]
    by (simp add: postgres_ops_def order_view_upsert) (simp add: rows_ok_def row_of_state_def)
next
  case (4 s x e s')
  then show ?case using postgres_save_cases(3)[of en x s "Inl e" s' e] by (simp add: postgres_ops_def)
next
  case (5 s i x)
  then show ?case by (auto simp: order_view_def rows_ok_def state_of_row_def)
next
  case (6 x)
  show ?case by (simp add: narrow_def)
qed

lemma calm_honest: "honest (calm x)"
  by (simp add: honest_def calm_def)

interpretation pg: order_store "postgres_ops (calm x)" "\<lambda>w. order_view (w_tx w)" "\<lambda>w. rows_ok (w_tx w)" narrow for x
  by (rule postgres_store_contract[OF calm_honest])

section \<open>In etcd\<close>

definition orders_prefix :: "string \<Rightarrow> string" where
  "orders_prefix pre = (if pre = ''/'' then [] else pre) @ ''/orderstate/orders/''"

definition order_key :: "string \<Rightarrow> int \<Rightarrow> string" where
  "order_key pre i = orders_prefix pre @ itoa i"

definition etcd_order_load ::
  "'s etcd_client \<Rightarrow> (string \<Rightarrow> go_error + order_state) \<Rightarrow> string \<Rightarrow> int \<Rightarrow> ('s, order_state option) eff" where
  "etcd_order_load cl dec pre i =
     (if i \<le> 0 then throw (ErrMsg ''order id must be > 0: %d'' [FInt i])
      else ebind (wrap_err ''get order state from etcd: %w'' (kv_get cl (order_key pre i))) (\<lambda>r.
        case r of
          None \<Rightarrow> ret None
        | Some (v, mrev) \<Rightarrow>
            (case dec v of
               Inl e \<Rightarrow> throw (ErrWrap ''decode order state: %w'' e)
             | Inr x \<Rightarrow> ret (Some (x\<lparr>os_order_id := i\<rparr>)))))"

definition etcd_order_save ::
  "'s lease_client \<Rightarrow> (order_state \<Rightarrow> string) \<Rightarrow> string \<Rightarrow> order_state \<Rightarrow> ('s, unit) eff" where
  "etcd_order_save lc enc pre x =
     (if os_order_id x \<le> 0 then throw (ErrMsg ''order id must be > 0: %d'' [FInt (os_order_id x)])
      else wrap_err ''save order state in etcd: %w'' (lc_put lc (order_key pre (os_order_id x)) (enc x) None))"

definition etcd_order_ops ::
  "'s etcd_client \<Rightarrow> 's lease_client \<Rightarrow> (order_state \<Rightarrow> string) \<Rightarrow> (string \<Rightarrow> go_error + order_state) \<Rightarrow> string \<Rightarrow> 's order_ops" where
  "etcd_order_ops cl lc enc dec pre = \<lparr>oo_load = etcd_order_load cl dec pre, oo_save = etcd_order_save lc enc pre\<rparr>"

text \<open>
  JSON keeps the identifier and every state up to \<open>nrm\<close> (which replaces invalid UTF-8 in strings);
  what \<open>Marshal\<close> wrote \<open>Unmarshal\<close> reads.
\<close>

definition order_json_ok :: "(order_state \<Rightarrow> string) \<Rightarrow> (string \<Rightarrow> go_error + order_state) \<Rightarrow> (order_state \<Rightarrow> order_state) \<Rightarrow> bool" where
  "order_json_ok enc dec nrm \<longleftrightarrow> (\<forall>x. dec (enc x) = Inr (nrm x) \<and> os_order_id (nrm x) = os_order_id x)"

definition orders_wf :: "(string \<Rightarrow> go_error + order_state) \<Rightarrow> string \<Rightarrow> (string \<rightharpoonup> string \<times> int) \<Rightarrow> bool" where
  "orders_wf dec pre m \<longleftrightarrow> (\<forall>i v r. m (order_key pre i) = Some (v, r) \<longrightarrow> (\<exists>x. dec v = Inr x \<and> os_order_id x = i \<and> 0 < i))"

definition etcd_order_view :: "(string \<Rightarrow> go_error + order_state) \<Rightarrow> string \<Rightarrow> (string \<rightharpoonup> string \<times> int) \<Rightarrow> int \<rightharpoonup> order_state" where
  "etcd_order_view dec pre m i =
     (case m (order_key pre i) of None \<Rightarrow> None | Some (v, r) \<Rightarrow> (case dec v of Inl e \<Rightarrow> None | Inr x \<Rightarrow> Some x))"

lemma order_key_inj: "order_key pre i = order_key pre j \<Longrightarrow> i = j"
  by (simp add: order_key_def itoa_inj)

lemma etcd_order_put:
  assumes j: "order_json_ok enc dec nrm" and w: "orders_wf dec pre m" and i: "0 < os_order_id x"
    and m': "m' = m(order_key pre (os_order_id x) \<mapsto> (enc x, r))"
  shows "orders_wf dec pre m' \<and> etcd_order_view dec pre m' = (etcd_order_view dec pre m)(os_order_id x \<mapsto> nrm x)"
proof
  have d: "dec (enc x) = Inr (nrm x)" "os_order_id (nrm x) = os_order_id x" using j by (simp_all add: order_json_ok_def)
  show "orders_wf dec pre m'"
    unfolding orders_wf_def
  proof (intro allI impI)
    fix i' v r' assume a: "m' (order_key pre i') = Some (v, r')"
    show "\<exists>x. dec v = Inr x \<and> os_order_id x = i' \<and> 0 < i'"
    proof (cases "i' = os_order_id x")
      case True
      then show ?thesis using a d i by (simp add: m')
    next
      case False
      then have "order_key pre i' \<noteq> order_key pre (os_order_id x)" using order_key_inj by blast
      then show ?thesis using a w by (simp add: m' orders_wf_def)
    qed
  qed
  show "etcd_order_view dec pre m' = (etcd_order_view dec pre m)(os_order_id x \<mapsto> nrm x)"
  proof
    fix i'
    show "etcd_order_view dec pre m' i' = ((etcd_order_view dec pre m)(os_order_id x \<mapsto> nrm x)) i'"
    proof (cases "i' = os_order_id x")
      case True
      then show ?thesis using d by (simp add: m' etcd_order_view_def)
    next
      case False
      then have "order_key pre i' \<noteq> order_key pre (os_order_id x)" using order_key_inj by blast
      then show ?thesis using False by (simp add: m' etcd_order_view_def)
    qed
  qed
qed

lemma etcd_order_store_contract:
  assumes L: "etcd_laws cl kv" and P: "lease_laws lc kv" and j: "order_json_ok enc dec nrm"
  shows "order_store (etcd_order_ops cl lc enc dec pre) (\<lambda>s. etcd_order_view dec pre (kv s)) (\<lambda>s. orders_wf dec pre (kv s)) nrm"
proof (unfold_locales, goal_cases)
  case (1 s i r s')
  then have o: "etcd_order_load cl dec pre i s = (Inr r, s')" and w: "orders_wf dec pre (kv s)" by (simp_all add: etcd_order_ops_def)
  then have i: "0 < i" by (auto simp: etcd_order_load_def split: if_splits)
  obtain g s1 where g: "kv_get cl (order_key pre i) s = (g, s1)" by fastforce
  then obtain cur where c: "g = Inr cur" using o i by (cases g) (auto simp: etcd_order_load_def ebind_def wrap_err_def)
  have G: "kv s1 = kv s" "cur = kv s (order_key pre i)" using etcd_lawsD(1)[OF L, of "order_key pre i" s cur s1] g c by simp_all
  have "s' = s1 \<and> r = etcd_order_view dec pre (kv s) i"
  proof (cases cur)
    case None
    then show ?thesis using o i g c G(2) by (simp add: etcd_order_load_def ebind_def wrap_err_def etcd_order_view_def)
  next
    case (Some z)
    obtain v mrev where z: "z = (v, mrev)" by (cases z)
    have kvs: "kv s (order_key pre i) = Some (v, mrev)" using Some G(2) z by simp
    then obtain x where x: "dec v = Inr x" "os_order_id x = i" using w unfolding orders_wf_def by blast
    then have "x\<lparr>os_order_id := i\<rparr> = x" by simp
    then show ?thesis using o i g c Some z x(1) kvs by (simp add: etcd_order_load_def ebind_def wrap_err_def etcd_order_view_def)
  qed
  then show ?case using G w by simp
next
  case (2 s i e s')
  then have o: "etcd_order_load cl dec pre i s = (Inl e, s')" and w: "orders_wf dec pre (kv s)" by (simp_all add: etcd_order_ops_def)
  obtain g s1 where g: "kv_get cl (order_key pre i) s = (g, s1)" by fastforce
  have "kv s1 = kv s" using etcd_lawsD(1,2)[OF L, of "order_key pre i" s _ s1] g by (cases g) auto
  moreover have "s' = s \<or> s' = s1"
    using o g by (auto simp: etcd_order_load_def ebind_def wrap_err_def split: if_splits sum.splits option.splits)
  ultimately show ?case using w by auto
next
  case (3 s x u s')
  then have o: "etcd_order_save lc enc pre x s = (Inr u, s')" and w: "orders_wf dec pre (kv s)" by (simp_all add: etcd_order_ops_def)
  then have i: "0 < os_order_id x" and p: "lc_put lc (order_key pre (os_order_id x)) (enc x) None s = (Inr u, s')"
    by (auto simp: etcd_order_save_def split: if_splits)
  obtain r where "kv s' = (kv s)(order_key pre (os_order_id x) \<mapsto> (enc x, r))" using lease_lawsD(1)[OF P p] by blast
  then show ?case using etcd_order_put[OF j w i] by blast
next
  case (4 s x e s')
  then have o: "etcd_order_save lc enc pre x s = (Inl e, s')" and w: "orders_wf dec pre (kv s)" by (simp_all add: etcd_order_ops_def)
  show ?case
  proof (cases "0 < os_order_id x")
    case True
    then obtain e' where p: "lc_put lc (order_key pre (os_order_id x)) (enc x) None s = (Inl e', s')"
      using o by (auto simp: etcd_order_save_def wrap_err_err_iff)
    have "kv s' = kv s \<or> (\<exists>r. kv s' = (kv s)(order_key pre (os_order_id x) \<mapsto> (enc x, r)))" using lease_lawsD(2)[OF P p] by blast
    then show ?thesis using etcd_order_put[OF j w True] w by auto
  next
    case False
    then show ?thesis using o w by (simp add: etcd_order_save_def)
  qed
next
  case (5 s i x)
  then show ?case by (auto simp: etcd_order_view_def orders_wf_def split: option.splits sum.splits prod.splits) (metis sum.inject(2))
next
  case (6 x)
  then show ?case using j by (simp add: order_json_ok_def)
qed

text \<open>A plain encoding that keeps the identifier only, to exercise the contract.\<close>

definition ref_order_nrm :: "order_state \<Rightarrow> order_state" where
  "ref_order_nrm x = zero_order\<lparr>os_order_id := os_order_id x, os_status := os_status x\<rparr>"

definition ref_order_enc :: "order_state \<Rightarrow> string" where
  "ref_order_enc x = (if os_order_id x < 0 then replicate (nat (- os_order_id x)) (CHR ''-'') else replicate (nat (os_order_id x)) (CHR ''+''))
     @ [CHR '':''] @ os_status x"

definition ref_order_dec :: "string \<Rightarrow> go_error + order_state" where
  "ref_order_dec s =
     (let n = int (length (takeWhile (\<lambda>c. c \<noteq> CHR '':'') s))
      in Inr (zero_order\<lparr>os_order_id := (if s \<noteq> [] \<and> hd s = CHR ''-'' then - n else n),
                os_status := tl (dropWhile (\<lambda>c. c \<noteq> CHR '':'') s)\<rparr>))"

lemma ref_order_json_ok: "order_json_ok ref_order_enc ref_order_dec ref_order_nrm"
proof -
  have t: "takeWhile (\<lambda>c. c \<noteq> CHR '':'') (replicate n c @ CHR '':'' # r) = replicate n c"
    "dropWhile (\<lambda>c. c \<noteq> CHR '':'') (replicate n c @ CHR '':'' # r) = CHR '':'' # r" if "c \<noteq> CHR '':''" for n c r
    using that by (induction n) simp_all
  have h: "hd (replicate n c @ CHR '':'' # r) = (if n = 0 then CHR '':'' else c)" for n c r by (cases n) simp_all
  show ?thesis unfolding order_json_ok_def ref_order_enc_def ref_order_dec_def ref_order_nrm_def
    by (auto simp: t h Let_def)
qed

interpretation es: order_store "etcd_order_ops ref_client ref_lease_client ref_order_enc ref_order_dec pre"
    "\<lambda>s. etcd_order_view ref_order_dec pre (ref_view s)" "\<lambda>s. orders_wf ref_order_dec pre (ref_view s)" ref_order_nrm for pre
  by (rule etcd_order_store_contract[OF ref_laws ref_lease_laws ref_order_json_ok])

end
