(* ===== verification/EventLog.thy ===== *)
theory EventLog
  imports Model "HOL-Library.Sublist"
begin

text \<open>
  The event log (\<open>internal/eventlog\<close>): the JSON codec, records and positions, the interfaces
  \<open>Appender\<close> and \<open>BatchAppender\<close> with their contract as a locale, and two implementations: the
  in-memory log and the log in one file per shard. Kafka is in its own theory. JSON encoding and the
  file system are parameters. The channel of \<open>ReadFrom\<close> and \<open>TailFrom\<close> is the list of records that is
  sent on it.
\<close>

section \<open>Codec, positions, records\<close>

text \<open>\<open>EncodePayload\<close> and \<open>DecodePayload\<close>, one field per payload type.\<close>



record codec =
  cd_created :: "string \<Rightarrow> go_error + order_created"
  cd_cancelled :: "string \<Rightarrow> go_error + order_cancelled"
  cd_retry :: "string \<Rightarrow> go_error + order_retry_request"
  cd_matched :: "string \<Rightarrow> go_error + order_matched"
  cd_missed :: "string \<Rightarrow> go_error + order_missed"
  cd_match_requested :: "string \<Rightarrow> go_error + match_requested"
  cd_enc_match_requested :: "match_requested \<Rightarrow> go_error + string"
  cd_enc_matched :: "order_matched \<Rightarrow> go_error + string"
  cd_enc_missed :: "order_missed \<Rightarrow> go_error + string"

record position =
  ps_shard_id :: int
  ps_offset :: int

record log_record =
  lr_position :: position
  lr_event :: event

text \<open>\<open>json.Marshal\<close> and \<open>json.Unmarshal\<close> on events; a nil slice is \<open>None\<close>.\<close>

record event_json =
  ej_marshal :: "event \<Rightarrow> go_error + string"
  ej_unmarshal :: "string \<Rightarrow> go_error + event"

definition encode_event :: "event_json \<Rightarrow> event \<Rightarrow> go_error + string" where
  "encode_event js e =
     (if ev_id e = [] \<or> ev_type e = [] then Inl (ErrMsg ''Event does not exist'' []) else ej_marshal js e)"

definition decode_event :: "event_json \<Rightarrow> string option \<Rightarrow> go_error + event" where
  "decode_event js b =
     (case b of
        None \<Rightarrow> Inl (ErrMsg ''payload is empty'' [])
      | Some v \<Rightarrow> (case ej_unmarshal js v of
          Inl err \<Rightarrow> Inl err
        | Inr e \<Rightarrow> if ev_type e = [] then Inl (ErrMsg ''Type is empty'' []) else Inr e))"

text \<open>
  What \<open>encoding/json\<close> keeps of an event. It writes strings as UTF-8 and puts the replacement character
  for bytes that are not, so the strings come back when they are valid (\<open>utf8.ValidString\<close>); numbers
  and the payload (in base64) always do.
\<close>

fun utf8_valid :: "nat list \<Rightarrow> bool" where
  "utf8_valid [] = True"
| "utf8_valid (b # bs) =
     (if b < 0x80 then utf8_valid bs
      else if 0xC2 \<le> b \<and> b \<le> 0xDF then
        (case bs of c # cs \<Rightarrow> 0x80 \<le> c \<and> c \<le> 0xBF \<and> utf8_valid cs | _ \<Rightarrow> False)
      else if 0xE0 \<le> b \<and> b \<le> 0xEF then
        (case bs of c # d # cs \<Rightarrow> (if b = 0xE0 then 0xA0 else 0x80) \<le> c \<and> c \<le> (if b = 0xED then 0x9F else 0xBF) \<and>
             0x80 \<le> d \<and> d \<le> 0xBF \<and> utf8_valid cs
         | _ \<Rightarrow> False)
      else if 0xF0 \<le> b \<and> b \<le> 0xF4 then
        (case bs of c # d # f # cs \<Rightarrow> (if b = 0xF0 then 0x90 else 0x80) \<le> c \<and> c \<le> (if b = 0xF4 then 0x8F else 0xBF) \<and>
             0x80 \<le> d \<and> d \<le> 0xBF \<and> 0x80 \<le> f \<and> f \<le> 0xBF \<and> utf8_valid cs
         | _ \<Rightarrow> False)
      else False)"

definition text_event :: "event \<Rightarrow> bool" where
  "text_event e \<longleftrightarrow> (\<forall>s \<in> {ev_id e, ev_type e, ev_aggregate_type e, ev_aggregate_id e}. utf8_valid (map of_char s))"

definition event_json_ok :: "event_json \<Rightarrow> bool" where
  "event_json_ok js \<longleftrightarrow> (\<forall>e. \<exists>v e'. ej_marshal js e = Inr v \<and> ej_unmarshal js v = Inr e' \<and>
     ev_shard_id e' = ev_shard_id e \<and> ev_occurred_at e' = ev_occurred_at e \<and> ev_payload e' = ev_payload e \<and> (text_event e \<longrightarrow> e' = e))"

lemma decode_encode:
  "event_json_ok js \<Longrightarrow> text_event e \<Longrightarrow> encode_event js e = Inr v \<Longrightarrow> decode_event js (Some v) = Inr e"
  by (drule event_json_ok_def[THEN iffD1, THEN spec, of _ e]) (auto simp: encode_event_def decode_event_def split: if_splits)

text \<open>An encoding that loses nothing, whatever the strings: more than \<open>encoding/json\<close> does.\<close>

definition event_json_exact :: "event_json \<Rightarrow> bool" where
  "event_json_exact js \<longleftrightarrow> (\<forall>e. \<exists>v. ej_marshal js e = Inr v \<and> ej_unmarshal js v = Inr e)"

lemma event_json_exact_ok: "event_json_exact js \<Longrightarrow> event_json_ok js"
  unfolding event_json_exact_def event_json_ok_def by metis

lemma decode_encode_exact: "event_json_exact js \<Longrightarrow> encode_event js e = Inr v \<Longrightarrow> decode_event js (Some v) = Inr e"
  by (drule event_json_exact_def[THEN iffD1, THEN spec, of _ e]) (auto simp: encode_event_def decode_event_def split: if_splits)

section \<open>The interface\<close>

text \<open>\<open>ap_batch\<close> is there when the value also implements \<open>BatchAppender\<close>.\<close>

record 's appender =
  ap_append :: "event \<Rightarrow> ('s, position) eff"
  ap_batch :: "(event list \<Rightarrow> ('s, position list) eff) option"

text \<open>
  What a publisher relies on: an append that reports no error has put the event in the log, one that
  reports an error may have, and nothing is ever taken out.
\<close>

locale event_appender =
  fixes ap :: "'s appender" and entries :: "'s \<Rightarrow> event set" and ok :: "'s \<Rightarrow> bool"
  assumes append: "ok s \<Longrightarrow> ap_append ap e s = (r, s') \<Longrightarrow> ok s' \<and> entries s \<subseteq> entries s' \<and> ((\<exists>p. r = Inr p) \<longrightarrow> e \<in> entries s')"
    and batch: "ap_batch ap = Some b \<Longrightarrow> ok s \<Longrightarrow> b es s = (rb, s') \<Longrightarrow>
      ok s' \<and> entries s \<subseteq> entries s' \<and> ((\<exists>ps. rb = Inr ps) \<longrightarrow> set es \<subseteq> entries s')"
begin

text \<open>Appending one by one, remembering which succeeded.\<close>

fun append_each :: "event list \<Rightarrow> 's \<Rightarrow> bool list \<times> 's" where
  "append_each [] s = ([], s)"
| "append_each (e # es) s =
     (case ap_append ap e s of (r, s1) \<Rightarrow> (case append_each es s1 of (bs, s2) \<Rightarrow> ((case r of Inl _ \<Rightarrow> False | Inr _ \<Rightarrow> True) # bs, s2)))"

lemma append_each_ok:
  "ok s \<Longrightarrow> append_each es s = (bs, s') \<Longrightarrow>
   ok s' \<and> entries s \<subseteq> entries s' \<and> (\<forall>(e, b) \<in> set (zip es bs). b \<longrightarrow> e \<in> entries s')"
proof (induction es arbitrary: s bs s')
  case (Cons e es)
  obtain r s1 where 1: "ap_append ap e s = (r, s1)" by fastforce
  obtain bs2 s2 where 2: "append_each es s1 = (bs2, s2)" by fastforce
  have A: "ok s1" "entries s \<subseteq> entries s1" "(\<exists>p. r = Inr p) \<longrightarrow> e \<in> entries s1" using append[OF Cons.prems(1) 1] by simp_all
  have e: "bs = (case r of Inl _ \<Rightarrow> False | Inr _ \<Rightarrow> True) # bs2" "s' = s2" using Cons.prems(2) 1 2 by simp_all
  show ?case using Cons.IH[OF A(1) 2] A(2,3) e by (auto split: sum.splits)
qed simp

end

section \<open>The in-memory log\<close>

type_synonym memory_log = "int \<rightharpoonup> log_record list"

definition memory_end_offset :: "go_error option \<Rightarrow> int \<Rightarrow> (memory_log, int) eff" where
  "memory_end_offset ctx k =
     (case ctx of Some e \<Rightarrow> throw e
      | None \<Rightarrow> (\<lambda>s. case s k of None \<Rightarrow> (Inl (ErrMsg ''Shard Not Found'' []), s) | Some rs \<Rightarrow> (Inr (int (length rs)), s)))"

fun memory_append_events :: "event list \<Rightarrow> (memory_log, position list) eff" where
  "memory_append_events [] = ret []"
| "memory_append_events (e # es) = (\<lambda>s.
     case s (ev_shard_id e) of
       None \<Rightarrow> (Inl (ErrMsg ''Shard Not Found'' []), s)
     | Some rs \<Rightarrow>
         (let p = \<lparr>ps_shard_id = ev_shard_id e, ps_offset = int (length rs)\<rparr>
          in ebind (memory_append_events es) (\<lambda>ps. ret (p # ps))
               (s(ev_shard_id e \<mapsto> rs @ [\<lparr>lr_position = p, lr_event = e\<rparr>]))))"

definition memory_append_batch :: "go_error option \<Rightarrow> event list \<Rightarrow> (memory_log, position list) eff" where
  "memory_append_batch ctx es = (case ctx of Some e \<Rightarrow> throw e | None \<Rightarrow> memory_append_events es)"

definition memory_append :: "go_error option \<Rightarrow> event \<Rightarrow> (memory_log, position) eff" where
  "memory_append ctx e = ebind (memory_append_batch ctx [e]) (\<lambda>ps. ret (ps ! 0))"

text \<open>A negative offset panics; it is the error \<open>panic\<close> here.\<close>

definition memory_read_from :: "position \<Rightarrow> (memory_log, log_record list) eff" where
  "memory_read_from p = (\<lambda>s.
     case s (ps_shard_id p) of
       None \<Rightarrow> (Inl (ErrMsg ''Shard Not Found'' []), s)
     | Some rs \<Rightarrow> if ps_offset p > int (length rs) then (Inl (ErrMsg ''Offset Out of range'' []), s)
                  else if ps_offset p < 0 then (Inl (ErrExternal ''panic: slice bounds out of range''), s)
                  else (Inr (drop (nat (ps_offset p)) rs), s))"

definition memory_tail_from :: "position \<Rightarrow> (memory_log, log_record list) eff" where
  "memory_tail_from p = memory_read_from p"

definition memory_appender :: "go_error option \<Rightarrow> memory_log appender" where
  "memory_appender ctx = \<lparr>ap_append = memory_append ctx, ap_batch = Some (memory_append_batch ctx)\<rparr>"

text \<open>The records of a shard carry its identifier and are numbered from zero.\<close>

definition log_wf :: "memory_log \<Rightarrow> bool" where
  "log_wf s \<longleftrightarrow> (\<forall>k rs. s k = Some rs \<longrightarrow>
     map lr_position rs = map (\<lambda>i. \<lparr>ps_shard_id = k, ps_offset = int i\<rparr>) [0..<length rs])"

definition memory_entries :: "memory_log \<Rightarrow> event set" where
  "memory_entries s = {e. \<exists>k rs r. s k = Some rs \<and> r \<in> set rs \<and> lr_event r = e}"

text \<open>Everything an append does: each shard grows by the appended events of that shard, numbered on.\<close>

lemma memory_append_step:
  assumes "s (ev_shard_id e) = Some rs" "memory_append_events (e # es) s = (r, s')"
  obtains q where "memory_append_events es (s(ev_shard_id e \<mapsto> rs @ [\<lparr>lr_position = \<lparr>ps_shard_id = ev_shard_id e, ps_offset = int (length rs)\<rparr>, lr_event = e\<rparr>])) = (q, s')"
    "r = (case q of Inl err \<Rightarrow> Inl err | Inr ps \<Rightarrow> Inr (\<lparr>ps_shard_id = ev_shard_id e, ps_offset = int (length rs)\<rparr> # ps))"
proof -
  let ?s1 = "s(ev_shard_id e \<mapsto> rs @ [\<lparr>lr_position = \<lparr>ps_shard_id = ev_shard_id e, ps_offset = int (length rs)\<rparr>, lr_event = e\<rparr>])"
  obtain q s2 where q: "memory_append_events es ?s1 = (q, s2)" by fastforce
  then have "s' = s2 \<and> r = (case q of Inl err \<Rightarrow> Inl err | Inr ps \<Rightarrow> Inr (\<lparr>ps_shard_id = ev_shard_id e, ps_offset = int (length rs)\<rparr> # ps))"
    using assms by (cases q) (auto simp: ebind_def Let_def)
  then show ?thesis using that q by blast
qed

lemma memory_append_grows: "memory_append_events es s = (r, s') \<Longrightarrow> dom s' = dom s \<and> (\<forall>k. prefix (the (s k)) (the (s' k)))"
proof (induction es arbitrary: s r)
  case (Cons e es)
  show ?case
  proof (cases "s (ev_shard_id e)")
    case None
    then show ?thesis using Cons.prems by simp
  next
    case (Some rs)
    let ?new = "\<lparr>lr_position = \<lparr>ps_shard_id = ev_shard_id e, ps_offset = int (length rs)\<rparr>, lr_event = e\<rparr>"
    obtain q where q: "memory_append_events es (s(ev_shard_id e \<mapsto> rs @ [?new])) = (q, s')"
      using memory_append_step[OF Some Cons.prems] by blast
    note I = Cons.IH[OF q]
    have "prefix (the (s k)) (the (s' k))" for k
    proof (cases "k = ev_shard_id e")
      case True
      then have "prefix (rs @ [?new]) (the (s' k))" using I by (metis fun_upd_same option.sel)
      then have "prefix rs (the (s' k))" by (rule append_prefixD)
      then show ?thesis using True Some by simp
    next
      case False
      then show ?thesis using I by (metis fun_upd_other)
    qed
    moreover have "dom s' = dom s" using I Some by (metis dom_fun_upd domIff insert_dom option.discI)
    ultimately show ?thesis by blast
  qed
qed simp

lemma memory_append_wf: "memory_append_events es s = (r, s') \<Longrightarrow> log_wf s \<Longrightarrow> log_wf s'"
proof (induction es arbitrary: s r)
  case (Cons e es)
  show ?case
  proof (cases "s (ev_shard_id e)")
    case None
    then show ?thesis using Cons.prems by simp
  next
    case (Some rs)
    let ?new = "\<lparr>lr_position = \<lparr>ps_shard_id = ev_shard_id e, ps_offset = int (length rs)\<rparr>, lr_event = e\<rparr>"
    obtain q where q: "memory_append_events es (s(ev_shard_id e \<mapsto> rs @ [?new])) = (q, s')"
      using memory_append_step[OF Some Cons.prems(1)] by blast
    have "log_wf (s(ev_shard_id e \<mapsto> rs @ [?new]))" using Cons.prems(2) Some by (simp add: log_wf_def)
    then show ?thesis by (rule Cons.IH[OF q])
  qed
qed simp

lemma memory_append_positions:
  "memory_append_events es s = (Inr ps, s') \<Longrightarrow>
   list_all2 (\<lambda>e p. \<lparr>lr_position = p, lr_event = e\<rparr> \<in> set (the (s' (ev_shard_id e))) \<and> ev_shard_id e \<in> dom s') es ps"
proof (induction es arbitrary: s ps)
  case (Cons e es)
  show ?case
  proof (cases "s (ev_shard_id e)")
    case None
    then show ?thesis using Cons.prems by simp
  next
    case (Some rs)
    let ?p = "\<lparr>ps_shard_id = ev_shard_id e, ps_offset = int (length rs)\<rparr>"
    let ?s1 = "s(ev_shard_id e \<mapsto> rs @ [\<lparr>lr_position = ?p, lr_event = e\<rparr>])"
    obtain q where q: "memory_append_events es ?s1 = (q, s')" "Inr ps = (case q of Inl err \<Rightarrow> Inl err | Inr ps \<Rightarrow> Inr (?p # ps))"
      using memory_append_step[OF Some Cons.prems] by blast
    then obtain qs where qs: "q = Inr qs" "ps = ?p # qs" by (cases q) auto
    note g = memory_append_grows[OF q(1)]
    have "prefix (rs @ [\<lparr>lr_position = ?p, lr_event = e\<rparr>]) (the (s' (ev_shard_id e)))" using g by (metis fun_upd_same option.sel)
    then have "\<lparr>lr_position = ?p, lr_event = e\<rparr> \<in> set (the (s' (ev_shard_id e)))" by (auto simp: prefix_def)
    moreover have "ev_shard_id e \<in> dom s'" using g by auto
    moreover have "memory_append_events es ?s1 = (Inr qs, s')" using q(1) qs(1) by simp
    note Cons.IH[OF this]
    ultimately show ?thesis unfolding qs(2) by simp
  qed
qed simp

lemma memory_entries_mono: "dom s' = dom s \<Longrightarrow> \<forall>k. prefix (the (s k)) (the (s' k)) \<Longrightarrow> memory_entries s \<subseteq> memory_entries s'"
proof
  fix e assume d: "dom s' = dom s" and p: "\<forall>k. prefix (the (s k)) (the (s' k))" and "e \<in> memory_entries s"
  then obtain k rs r where k: "s k = Some rs" "r \<in> set rs" "lr_event r = e" by (auto simp: memory_entries_def)
  then obtain rs' where "s' k = Some rs'" using d by (metis domD domI)
  moreover have "prefix rs rs'" using p k(1) calculation by (metis option.sel)
  moreover from this have "r \<in> set rs'" using k(2) set_mono_prefix by blast
  ultimately show "e \<in> memory_entries s'" using k(3) unfolding memory_entries_def by blast
qed

lemma memory_append_batch_ok:
  assumes "memory_append_batch ctx es s = (r, s')"
  shows "(log_wf s \<longrightarrow> log_wf s') \<and> memory_entries s \<subseteq> memory_entries s' \<and> ((\<exists>ps. r = Inr ps) \<longrightarrow> set es \<subseteq> memory_entries s')"
proof (cases ctx)
  case (Some e)
  then show ?thesis using assms by (auto simp: memory_append_batch_def)
next
  case None
  then have "memory_append_events es s = (r, s')" using assms by (simp add: memory_append_batch_def)
  note A = memory_append_grows[OF this] memory_append_wf[OF this]
  have "set es \<subseteq> memory_entries s'" if "r = Inr ps" for ps
  proof
    fix e assume "e \<in> set es"
    then obtain i where i: "i < length es" "es ! i = e" by (metis in_set_conv_nth)
    have "memory_append_events es s = (Inr ps, s')" using \<open>memory_append_events es s = (r, s')\<close> that by simp
    from memory_append_positions[OF this] i have "\<lparr>lr_position = ps ! i, lr_event = e\<rparr> \<in> set (the (s' (ev_shard_id e)))"
      "ev_shard_id e \<in> dom s'" by (auto simp: list_all2_conv_all_nth)
    then show "e \<in> memory_entries s'" by (force simp: memory_entries_def)
  qed
  then show ?thesis using A memory_entries_mono by blast
qed

interpretation memlog: event_appender "memory_appender ctx" memory_entries log_wf for ctx
proof (unfold_locales, goal_cases)
  case (1 s e r s')
  obtain q s1 where q: "memory_append_batch ctx [e] s = (q, s1)" by fastforce
  have "s' = s1 \<and> ((\<exists>p. r = Inr p) \<longrightarrow> (\<exists>ps. q = Inr ps))"
    using 1(2) q by (cases q) (auto simp: memory_appender_def memory_append_def ebind_def)
  then show ?case using memory_append_batch_ok[OF q] 1(1) by auto
next
  case (2 b s es r s')
  then show ?case using memory_append_batch_ok[of ctx es s r s'] by (simp add: memory_appender_def)
qed

section \<open>One file per shard\<close>

text \<open>
  The file system: each system call takes one tick and may fail; a failing write may have written a
  first part of its data. Files are named by their paths.
\<close>

record file_env =
  fe_fault :: "nat \<Rightarrow> go_error option"
  fe_part :: "nat \<Rightarrow> nat"

record file_world =
  fw_files :: "string \<rightharpoonup> string"
  fw_tick :: nat

definition newline :: char where "newline = CHR 0x0A"

text \<open>\<open>dir\<close> is a cleaned path that does not end in a slash.\<close>

definition shard_path :: "string \<Rightarrow> int \<Rightarrow> string" where
  "shard_path dir k = dir @ ''/shard-'' @ itoa k @ ''.log''"

definition syscall :: "file_env \<Rightarrow> (file_world, unit) eff" where
  "syscall fe = (\<lambda>w. (case fe_fault fe (fw_tick w) of None \<Rightarrow> Inr () | Some e \<Rightarrow> Inl e, w\<lparr>fw_tick := Suc (fw_tick w)\<rparr>))"

text \<open>\<open>os.Open\<close>: \<open>None\<close> is \<open>os.ErrNotExist\<close>.\<close>

definition file_open :: "file_env \<Rightarrow> string \<Rightarrow> (file_world, string option) eff" where
  "file_open fe path = ebind (syscall fe) (\<lambda>_ w. (Inr (fw_files w path), w))"

definition file_create :: "file_env \<Rightarrow> string \<Rightarrow> (file_world, unit) eff" where
  "file_create fe path = ebind (syscall fe) (\<lambda>_ w.
     (Inr (), w\<lparr>fw_files := (fw_files w)(path \<mapsto> (case fw_files w path of None \<Rightarrow> [] | Some s \<Rightarrow> s))\<rparr>))"

definition file_write :: "file_env \<Rightarrow> string \<Rightarrow> string \<Rightarrow> (file_world, unit) eff" where
  "file_write fe path data = (\<lambda>w.
     let old = (case fw_files w path of None \<Rightarrow> [] | Some s \<Rightarrow> s); w1 = w\<lparr>fw_tick := Suc (fw_tick w)\<rparr>
     in case fe_fault fe (fw_tick w) of
          None \<Rightarrow> (Inr (), w1\<lparr>fw_files := (fw_files w)(path \<mapsto> old @ data)\<rparr>)
        | Some e \<Rightarrow> (Inl e, w1\<lparr>fw_files := (fw_files w)(path \<mapsto> old @ take (fe_part fe (fw_tick w)) data)\<rparr>))"

text \<open>
  \<open>bufio.Scanner\<close>: the lines, where the last one need not be ended by a newline; a line of 65536 bytes
  or more stops it with an error. (The records hold no carriage returns to strip.)
\<close>

function split_lines :: "string \<Rightarrow> string list" where
  "split_lines s =
     (if s = [] then []
      else takeWhile (\<lambda>c. c \<noteq> newline) s # split_lines (drop 1 (dropWhile (\<lambda>c. c \<noteq> newline) s)))"
  by auto
termination
proof (relation "measure length")
  fix s :: string assume "s \<noteq> []"
  then obtain c cs where s: "s = c # cs" by (cases s) auto
  have "length (dropWhile (\<lambda>c. c \<noteq> newline) cs) \<le> length cs" by (rule length_dropWhile_le)
  then show "(drop 1 (dropWhile (\<lambda>c. c \<noteq> newline) s), s) \<in> measure length" by (auto simp: s)
qed simp

declare split_lines.simps [simp del]

definition max_token :: nat where "max_token = 65536"

definition token_too_long :: go_error where
  "token_too_long = ErrExternal ''bufio.Scanner: token too long''"

definition scan_lines :: "string \<Rightarrow> string list \<times> go_error option" where
  "scan_lines s =
     (let ls = split_lines s; fit = takeWhile (\<lambda>l. length l < max_token) ls
      in (fit, if length fit < length ls then Some token_too_long else None))"

text \<open>A read that fails while scanning is the fault of the second system call.\<close>

definition count_lines :: "file_env \<Rightarrow> string \<Rightarrow> (file_world, int) eff" where
  "count_lines fe path =
     ebind (file_open fe path) (\<lambda>f.
       case f of
         None \<Rightarrow> ret 0
       | Some s \<Rightarrow> ebind (syscall fe) (\<lambda>_.
           case scan_lines s of (ls, None) \<Rightarrow> ret (int (length ls)) | (ls, Some e) \<Rightarrow> throw e))"

text \<open>\<open>json.Marshal\<close> and \<open>json.Unmarshal\<close> on records.\<close>

record record_json =
  rj_marshal :: "log_record \<Rightarrow> go_error + string"
  rj_unmarshal :: "string \<Rightarrow> go_error + log_record"

definition file_append :: "file_env \<Rightarrow> record_json \<Rightarrow> string \<Rightarrow> go_error option \<Rightarrow> event \<Rightarrow> (file_world, position) eff" where
  "file_append fe rj dir ctx e =
     (case ctx of
        Some err \<Rightarrow> throw err
      | None \<Rightarrow>
          ebind (wrap_err ''create eventlog dir: %w'' (syscall fe)) (\<lambda>_.
          ebind (wrap_err ''count eventlog lines: %w'' (count_lines fe (shard_path dir (ev_shard_id e)))) (\<lambda>offset.
          let r = \<lparr>lr_position = \<lparr>ps_shard_id = ev_shard_id e, ps_offset = offset\<rparr>, lr_event = e\<rparr> in
          ebind (wrap_err ''encode eventlog record: %w'' (lift_res (rj_marshal rj r))) (\<lambda>data.
          ebind (wrap_err ''open eventlog file: %w'' (file_create fe (shard_path dir (ev_shard_id e)))) (\<lambda>_.
          ebind (wrap_err ''write eventlog file: %w'' (file_write fe (shard_path dir (ev_shard_id e)) (data @ [newline]))) (\<lambda>_.
          ebind (wrap_err ''sync eventlog file: %w'' (syscall fe)) (\<lambda>_.
          ebind (wrap_err ''close eventlog file: %w'' (syscall fe)) (\<lambda>_.
          ret (lr_position r)))))))))"

definition file_end_offset :: "file_env \<Rightarrow> string \<Rightarrow> go_error option \<Rightarrow> int \<Rightarrow> (file_world, int) eff" where
  "file_end_offset fe dir ctx k =
     (case ctx of Some err \<Rightarrow> throw err
      | None \<Rightarrow> wrap_err ''count eventlog lines: %w'' (count_lines fe (shard_path dir k)))"

fun decode_lines :: "record_json \<Rightarrow> int \<Rightarrow> string list \<Rightarrow> go_error + log_record list" where
  "decode_lines rj from [] = Inr []"
| "decode_lines rj from (l # ls) =
     (case rj_unmarshal rj l of
        Inl e \<Rightarrow> Inl (ErrWrap ''decode eventlog record: %w'' e)
      | Inr r \<Rightarrow> (case decode_lines rj from ls of
          Inl e \<Rightarrow> Inl e
        | Inr rs \<Rightarrow> Inr (if ps_offset (lr_position r) < from then rs else r # rs)))"

definition read_records :: "file_env \<Rightarrow> record_json \<Rightarrow> string \<Rightarrow> position \<Rightarrow> (file_world, log_record list) eff" where
  "read_records fe rj dir p =
     ebind (wrap_err ''open eventlog file: %w'' (file_open fe (shard_path dir (ps_shard_id p)))) (\<lambda>f.
       case f of
         None \<Rightarrow> ret []
       | Some s \<Rightarrow>
           ebind (wrap_err ''scan eventlog file: %w'' (syscall fe)) (\<lambda>_.
             case scan_lines s of (ls, stop) \<Rightarrow>
               ebind (lift_res (decode_lines rj (ps_offset p) ls)) (\<lambda>rs.
                 case stop of None \<Rightarrow> ret rs | Some e \<Rightarrow> throw (ErrWrap ''scan eventlog file: %w'' e))))"

definition file_read_from :: "file_env \<Rightarrow> record_json \<Rightarrow> string \<Rightarrow> go_error option \<Rightarrow> position \<Rightarrow> (file_world, log_record list) eff" where
  "file_read_from fe rj dir ctx p = (case ctx of Some err \<Rightarrow> throw err | None \<Rightarrow> read_records fe rj dir p)"

text \<open>
  One round of the loop of \<open>TailFrom\<close>: the records sent and the next offset. The loop ends, and the
  channel is closed, when a round fails.
\<close>

definition tail_round :: "file_env \<Rightarrow> record_json \<Rightarrow> string \<Rightarrow> int \<Rightarrow> int \<Rightarrow> (file_world, log_record list \<times> int) eff" where
  "tail_round fe rj dir k next_offset =
     ebind (read_records fe rj dir \<lparr>ps_shard_id = k, ps_offset = next_offset\<rparr>) (\<lambda>rs.
       ret (rs, foldl (\<lambda>n r. wrap64 (ps_offset (lr_position r) + 1)) next_offset rs))"


subsection \<open>The contents of a shard's file\<close>

text \<open>The same for records; a marshalled value has no newline.\<close>

definition record_json_ok :: "record_json \<Rightarrow> bool" where
  "record_json_ok rj \<longleftrightarrow> (\<forall>r. \<exists>v r'. rj_marshal rj r = Inr v \<and> newline \<notin> set v \<and> rj_unmarshal rj v = Inr r' \<and>
     lr_position r' = lr_position r \<and> (text_event (lr_event r) \<longrightarrow> r' = r))"

definition json_line :: "record_json \<Rightarrow> log_record \<Rightarrow> string" where
  "json_line rj r = (case rj_marshal rj r of Inl _ \<Rightarrow> [] | Inr v \<Rightarrow> v)"

text \<open>What a reader makes of the line of a record.\<close>

definition as_read :: "record_json \<Rightarrow> log_record \<Rightarrow> log_record" where
  "as_read rj r = (case rj_unmarshal rj (json_line rj r) of Inl _ \<Rightarrow> r | Inr r' \<Rightarrow> r')"

definition fits :: "record_json \<Rightarrow> log_record \<Rightarrow> bool" where
  "fits rj r \<longleftrightarrow> length (json_line rj r) < max_token"

definition numbered :: "int \<Rightarrow> log_record list \<Rightarrow> bool" where
  "numbered k rs \<longleftrightarrow> map lr_position rs = map (\<lambda>i. \<lparr>ps_shard_id = k, ps_offset = int i\<rparr>) [0..<length rs]"

text \<open>The file holds these records, one per line.\<close>

definition holds :: "record_json \<Rightarrow> string \<Rightarrow> file_world \<Rightarrow> int \<Rightarrow> log_record list \<Rightarrow> bool" where
  "holds rj dir w k rs \<longleftrightarrow> numbered k rs \<and>
     (case fw_files w (shard_path dir k) of
        None \<Rightarrow> rs = []
      | Some s \<Rightarrow> s = concat (map (\<lambda>r. json_line rj r @ [newline]) rs))"

lemma json_lineD:
  "record_json_ok rj \<Longrightarrow> rj_marshal rj r = Inr (json_line rj r) \<and> rj_unmarshal rj (json_line rj r) = Inr (as_read rj r) \<and>
     newline \<notin> set (json_line rj r) \<and> lr_position (as_read rj r) = lr_position r \<and> (text_event (lr_event r) \<longrightarrow> as_read rj r = r)"
  by (drule record_json_ok_def[THEN iffD1, THEN spec, of _ r]) (auto simp: json_line_def as_read_def)

lemma split_lines_join: "\<forall>v \<in> set vs. newline \<notin> set v \<Longrightarrow> split_lines (concat (map (\<lambda>v. v @ [newline]) vs)) = vs"
proof (induction vs)
  case Nil
  then show ?case by (simp add: split_lines.simps)
next
  case (Cons v vs)
  let ?rest = "concat (map (\<lambda>v. v @ [newline]) vs)"
  have "newline \<notin> set v" using Cons.prems by simp
  then have "takeWhile (\<lambda>c. c \<noteq> newline) (v @ newline # ?rest) = v" "dropWhile (\<lambda>c. c \<noteq> newline) (v @ newline # ?rest) = newline # ?rest"
    by (induction v) auto
  then show ?case using Cons by (subst split_lines.simps) simp
qed

lemma holds_lines:
  assumes "record_json_ok rj" "holds rj dir w k rs" "fw_files w (shard_path dir k) = Some s"
  shows "split_lines s = map (json_line rj) rs"
proof -
  have "s = concat (map (\<lambda>v. v @ [newline]) (map (json_line rj) rs))" using assms(2,3) by (simp add: holds_def comp_def)
  then show ?thesis using split_lines_join[of "map (json_line rj) rs"] json_lineD[OF assms(1)] by simp
qed

lemma scan_holds:
  assumes "record_json_ok rj" "holds rj dir w k rs" "fw_files w (shard_path dir k) = Some s" "\<forall>r \<in> set rs. fits rj r"
  shows "scan_lines s = (map (json_line rj) rs, None)"
proof -
  have t: "takeWhile (\<lambda>l. length l < max_token) (map (json_line rj) rs) = map (json_line rj) rs"
    using assms(4) by (simp add: fits_def)
  show ?thesis unfolding scan_lines_def holds_lines[OF assms(1-3)] Let_def t by simp
qed

lemma decode_holds:
  "record_json_ok rj \<Longrightarrow> decode_lines rj from (map (json_line rj) rs) = Inr (map (as_read rj) (filter (\<lambda>r. from \<le> ps_offset (lr_position r)) rs))"
  by (induction rs) (auto simp: json_lineD)

lemma numbered_snoc: "numbered k (rs @ [r]) \<longleftrightarrow> numbered k rs \<and> lr_position r = \<lparr>ps_shard_id = k, ps_offset = int (length rs)\<rparr>"
  by (auto simp: numbered_def)

lemma numbered_nth: "numbered k rs \<Longrightarrow> i < length rs \<Longrightarrow> lr_position (rs ! i) = \<lparr>ps_shard_id = k, ps_offset = int i\<rparr>"
  unfolding numbered_def by (metis (no_types, lifting) add_0 diff_zero length_upt nth_map nth_upt)

lemma numbered_filter:
  "numbered k rs \<Longrightarrow> 0 \<le> from \<Longrightarrow> filter (\<lambda>r. from \<le> ps_offset (lr_position r)) rs = drop (nat from) rs"
proof (induction rs rule: rev_induct)
  case (snoc r rs)
  then show ?case by (cases "nat from \<le> length rs") (auto simp: numbered_snoc nat_le_iff)
qed simp

text \<open>System calls that fail have no effect.\<close>

definition clean_faults :: "file_env \<Rightarrow> bool" where
  "clean_faults fe \<longleftrightarrow> (\<forall>t. fe_fault fe t \<noteq> None \<longrightarrow> fe_part fe t = 0)"

lemma syscall_files: "syscall fe w = (r, w') \<Longrightarrow> fw_files w' = fw_files w"
  by (auto simp: syscall_def)

lemma file_open_ok: "file_open fe path w = (r, w') \<Longrightarrow> fw_files w' = fw_files w \<and> (\<forall>f. r = Inr f \<longrightarrow> f = fw_files w path)"
  by (auto simp: file_open_def syscall_def ebind_def split: option.splits)

lemma count_lines_ok:
  assumes "count_lines fe (shard_path dir k) w = (r, w')"
  shows "fw_files w' = fw_files w"
    "record_json_ok rj \<Longrightarrow> holds rj dir w k rs \<Longrightarrow> \<forall>r \<in> set rs. fits rj r \<Longrightarrow> r = Inr n \<Longrightarrow> n = int (length rs)"
proof -
  obtain f w1 where 1: "file_open fe (shard_path dir k) w = (f, w1)" by fastforce
  note o1 = file_open_ok[OF 1]
  obtain q w2 where 2: "syscall fe w1 = (q, w2)" by fastforce
  note s2 = syscall_files[OF 2]
  show "fw_files w' = fw_files w"
    using assms 1 2 o1 s2 by (cases f; cases q) (auto simp: count_lines_def ebind_def split: option.splits prod.splits)
  assume j: "record_json_ok rj" "holds rj dir w k rs" "\<forall>r \<in> set rs. fits rj r" "r = Inr n"
  then obtain c where c: "f = Inr c" "c = fw_files w (shard_path dir k)"
    using assms 1 o1 by (cases f) (auto simp: count_lines_def ebind_def)
  show "n = int (length rs)"
  proof (cases c)
    case None
    then show ?thesis using assms 1 j c by (auto simp: count_lines_def ebind_def holds_def)
  next
    case (Some s)
    then show ?thesis using assms 1 2 c j scan_holds[OF j(1,2) _ j(3), of s]
      by (cases q) (auto simp: count_lines_def ebind_def)
  qed
qed

lemma shard_path_inj: "shard_path dir i = shard_path dir j \<Longrightarrow> i = j"
  by (auto simp: shard_path_def itoa_inj)

text \<open>An append, with any faults: the file keeps its records and gains at most the new one.\<close>

lemma file_append_ok:
  assumes c: "clean_faults fe" and j: "record_json_ok rj" and h: "holds rj dir w (ev_shard_id e) rs" and f: "\<forall>r \<in> set rs. fits rj r"
    and a: "file_append fe rj dir ctx e w = (res, w')"
  shows "(\<forall>k. k \<noteq> ev_shard_id e \<longrightarrow> fw_files w' (shard_path dir k) = fw_files w (shard_path dir k)) \<and>
    (let p = \<lparr>ps_shard_id = ev_shard_id e, ps_offset = int (length rs)\<rparr>; new = rs @ [\<lparr>lr_position = p, lr_event = e\<rparr>]
     in (\<exists>err. res = Inl err) \<and> holds rj dir w' (ev_shard_id e) rs \<or> holds rj dir w' (ev_shard_id e) new \<and> (res = Inr p \<or> (\<exists>err. res = Inl err)))"
proof -
  let ?k = "ev_shard_id e" and ?path = "shard_path dir (ev_shard_id e)"
  let ?p = "\<lparr>ps_shard_id = ?k, ps_offset = int (length rs)\<rparr>"
  let ?r = "\<lparr>lr_position = ?p, lr_event = e\<rparr>"
  have same: "holds rj dir w1 k rs' \<longleftrightarrow> holds rj dir w2 k rs'" if "fw_files w1 (shard_path dir k) = fw_files w2 (shard_path dir k)" for w1 w2 k rs'
    using that by (simp add: holds_def)
  have touched: "holds rj dir w1 ?k rs" if "fw_files w1 = (fw_files w)(?path \<mapsto> (case fw_files w ?path of None \<Rightarrow> [] | Some s \<Rightarrow> s))" for w1
    using h that by (auto simp: holds_def split: option.splits)
  have grown: "holds rj dir w1 ?k (rs @ [?r])"
    if "fw_files w1 ?path = Some ((case fw_files w ?path of None \<Rightarrow> [] | Some s \<Rightarrow> s) @ json_line rj ?r @ [newline])" for w1
    using h that by (auto simp: holds_def numbered_snoc split: option.splits)
  have other: "(m(?path \<mapsto> v)) (shard_path dir k) = m (shard_path dir k)" if "k \<noteq> ?k" for m :: "string \<rightharpoonup> string" and v k
    using that shard_path_inj by (metis fun_upd_apply)
  show ?thesis
  proof (cases ctx)
    case (Some err)
    then show ?thesis using a h by (auto simp: file_append_def)
  next
    case None
    obtain r1 w1 where 1: "syscall fe w = (r1, w1)" by fastforce
    obtain r2 w2 where 2: "count_lines fe ?path w1 = (r2, w2)" by fastforce
    obtain r3 w3 where 3: "file_create fe ?path w2 = (r3, w3)" by fastforce
    obtain r4 w4 where 4: "file_write fe ?path (json_line rj ?r @ [newline]) w3 = (r4, w4)" by fastforce
    obtain r5 w5 where 5: "syscall fe w4 = (r5, w5)" by fastforce
    obtain r6 w6 where 6: "syscall fe w5 = (r6, w6)" by fastforce
    have f1: "fw_files w1 = fw_files w" by (rule syscall_files[OF 1])
    have f2: "fw_files w2 = fw_files w" using count_lines_ok(1)[OF 2] f1 by simp
    have n: "r2 = Inr n \<Longrightarrow> n = int (length rs)" for n
      using count_lines_ok(2)[OF 2 j _ f] same[of w1 ?k w rs] f1 h by simp
    have f3: "fw_files w3 = fw_files w \<and> (\<exists>err. r3 = Inl err) \<or>
        fw_files w3 = (fw_files w)(?path \<mapsto> (case fw_files w ?path of None \<Rightarrow> [] | Some s \<Rightarrow> s))"
      using 3 f2 by (auto simp: file_create_def syscall_def ebind_def split: option.splits)
    have f4: "r3 = Inr u \<Longrightarrow> r4 = Inr () \<and> fw_files w4 = (fw_files w)(?path \<mapsto> (case fw_files w ?path of None \<Rightarrow> [] | Some s \<Rightarrow> s) @ json_line rj ?r @ [newline]) \<or>
        (\<exists>err. r4 = Inl err) \<and> fw_files w4 = (fw_files w)(?path \<mapsto> (case fw_files w ?path of None \<Rightarrow> [] | Some s \<Rightarrow> s))" for u
      using 4 f3 c by (auto simp: file_write_def Let_def clean_faults_def split: option.splits)
    have f6: "fw_files w5 = fw_files w4" "fw_files w6 = fw_files w4" using syscall_files[OF 5] syscall_files[OF 6] by simp_all
    have m: "rj_marshal rj ?r = Inr (json_line rj ?r)" using json_lineD[OF j] by blast
    have "(\<exists>err. res = Inl err) \<and> (fw_files w' = fw_files w \<or> w' = w3) \<or>
        (r3 = Inr () \<and> (\<exists>err. res = Inl err) \<and> w' = w4 \<and> (\<exists>err. r4 = Inl err)) \<or>
        (r3 = Inr () \<and> r4 = Inr () \<and> fw_files w' = fw_files w4 \<and> (res = Inr ?p \<or> (\<exists>err. res = Inl err)))"
    proof (cases "\<exists>u n. r1 = Inr u \<and> r2 = Inr n")
      case False
      then show ?thesis using a None 1 2 f1 f2
        by (cases r1; cases r2) (auto simp: file_append_def ebind_def wrap_err_def)
    next
      case True
      then have e: "r1 = Inr ()" "r2 = Inr (int (length rs))" using n by auto
      show ?thesis
      proof (cases r3)
        case (Inl err)
        then show ?thesis using a None 1 2 3 e m by (auto simp: file_append_def ebind_def wrap_err_def Let_def)
      next
        case (Inr u)
        then show ?thesis using a None 1 2 3 4 5 6 e m f6
          by (cases r4; cases r5; cases r6) (auto simp: file_append_def ebind_def wrap_err_def Let_def)
      qed
    qed
    then consider (early) err where "res = Inl err" "fw_files w' = fw_files w \<or> w' = w3"
      | (torn) err where "r3 = Inr ()" "res = Inl err" "w' = w4" "\<exists>err. r4 = Inl err"
      | (complete) "r3 = Inr ()" "r4 = Inr ()" "fw_files w' = fw_files w4" "res = Inr ?p \<or> (\<exists>err. res = Inl err)" by blast
    then show ?thesis
    proof cases
      case early
      have "holds rj dir w' ?k rs" using early(2) f3 touched[of w3] same[of w' ?k w rs] same[of w3 ?k w rs] h by metis
      moreover have "fw_files w' (shard_path dir k) = fw_files w (shard_path dir k)" if "k \<noteq> ?k" for k
        using early(2) f3 other[OF that] by metis
      ultimately show ?thesis using early(1) by (simp add: Let_def)
    next
      case torn
      then have w4: "fw_files w' = (fw_files w)(?path \<mapsto> (case fw_files w ?path of None \<Rightarrow> [] | Some s \<Rightarrow> s))" using f4 by auto
      show ?thesis using touched[OF w4] w4 other torn(2) by (auto simp: Let_def)
    next
      case complete
      then have w4: "fw_files w' = (fw_files w)(?path \<mapsto> (case fw_files w ?path of None \<Rightarrow> [] | Some s \<Rightarrow> s) @ json_line rj ?r @ [newline])" using f4 by auto
      have "fw_files w' ?path = Some ((case fw_files w ?path of None \<Rightarrow> [] | Some s \<Rightarrow> s) @ json_line rj ?r @ [newline])" by (simp add: w4)
      from grown[OF this] show ?thesis using w4 other complete(4) by (auto simp: Let_def)
    qed
  qed
qed

lemma read_records_ok:
  assumes "read_records fe rj dir p w = (res, w')"
  shows "fw_files w' = fw_files w"
    "record_json_ok rj \<Longrightarrow> holds rj dir w (ps_shard_id p) rs \<Longrightarrow> \<forall>r \<in> set rs. fits rj r \<Longrightarrow> 0 \<le> ps_offset p \<Longrightarrow>
       res = Inr out \<Longrightarrow> out = map (as_read rj) (drop (nat (ps_offset p)) rs)"
proof -
  let ?path = "shard_path dir (ps_shard_id p)"
  obtain f w1 where 1: "file_open fe ?path w = (f, w1)" by fastforce
  note o1 = file_open_ok[OF 1]
  obtain q w2 where 2: "syscall fe w1 = (q, w2)" by fastforce
  note s2 = syscall_files[OF 2]
  show "fw_files w' = fw_files w"
    using assms 1 2 o1 s2 by (cases f; cases q) (auto simp: read_records_def ebind_def wrap_err_def split: option.splits prod.splits sum.splits)
  assume j: "record_json_ok rj" "holds rj dir w (ps_shard_id p) rs" "\<forall>r \<in> set rs. fits rj r" "0 \<le> ps_offset p" "res = Inr out"
  then obtain c where c: "f = Inr c" "c = fw_files w ?path"
    using assms 1 o1 by (cases f) (auto simp: read_records_def ebind_def wrap_err_def)
  show "out = map (as_read rj) (drop (nat (ps_offset p)) rs)"
  proof (cases c)
    case None
    then show ?thesis using assms 1 j c by (auto simp: read_records_def ebind_def wrap_err_def holds_def)
  next
    case (Some s)
    have nf: "filter (\<lambda>r. ps_offset p \<le> ps_offset (lr_position r)) rs = drop (nat (ps_offset p)) rs"
      using j(2,4) numbered_filter[of "ps_shard_id p" rs "ps_offset p"] by (simp add: holds_def)
    have sc: "scan_lines s = (map (json_line rj) rs, None)" using scan_holds[OF j(1,2) _ j(3), of s] c Some by simp
    have f: "file_open fe ?path w = (Inr (Some s), w1)" using 1 c Some by simp
    show ?thesis using assms f 2 j(5) sc decode_holds[OF j(1), of "ps_offset p" rs] nf
      by (cases q) (auto simp: read_records_def ebind_def wrap_err_def)
  qed
qed


subsection \<open>Tailing a file that grows\<close>

text \<open>
  Appends and rounds of one tail of shard \<open>k\<close>, each with its own faults, in any interleaving: the
  state is the file system, the tail's next offset (\<open>None\<close> once a round has failed and the channel is
  closed) and what was sent.
\<close>

datatype tail_op = TAppend file_env event | TRound file_env

fun tail_step :: "record_json \<Rightarrow> string \<Rightarrow> int \<Rightarrow> tail_op \<Rightarrow> file_world \<times> int option \<times> log_record list \<Rightarrow> file_world \<times> int option \<times> log_record list" where
  "tail_step rj dir k (TAppend fe e) (w, n, sent) = (snd (file_append fe rj dir None e w), n, sent)"
| "tail_step rj dir k (TRound fe) (w, n, sent) =
     (case n of
        None \<Rightarrow> (w, None, sent)
      | Some next_offset \<Rightarrow> (case tail_round fe rj dir k next_offset w of
            (Inl e, w') \<Rightarrow> (w', None, sent)
          | (Inr (rs, n'), w') \<Rightarrow> (w', Some n', sent @ rs)))"

definition tail_run :: "record_json \<Rightarrow> string \<Rightarrow> int \<Rightarrow> tail_op list \<Rightarrow> file_world \<times> int option \<times> log_record list \<Rightarrow> file_world \<times> int option \<times> log_record list" where
  "tail_run rj dir k ops s = foldl (\<lambda>s p. tail_step rj dir k p s) s ops"

fun op_env :: "tail_op \<Rightarrow> file_env" where
  "op_env (TAppend fe e) = fe"
| "op_env (TRound fe) = fe"

text \<open>Every record but the last fits the scanner; when the last one does not, the shard is blocked.\<close>

definition tail_inv :: "record_json \<Rightarrow> string \<Rightarrow> int \<Rightarrow> int \<Rightarrow> log_record list \<Rightarrow> file_world \<times> int option \<times> log_record list \<Rightarrow> bool" where
  "tail_inv rj dir k from rs s \<longleftrightarrow>
     (case s of (w, n, sent) \<Rightarrow> holds rj dir w k rs \<and> (\<forall>r \<in> set (butlast rs). fits rj r) \<and>
        (\<exists>m. nat from \<le> m \<and> m \<le> length rs \<and> sent = map (as_read rj) (drop (nat from) (take m rs)) \<and> (n = None \<or> n = Some (int m))))"

lemma foldl_next_offset:
  "numbered k rs \<Longrightarrow> length rs < 2 ^ 63 \<Longrightarrow> m \<le> length rs \<Longrightarrow>
   foldl (\<lambda>n r. wrap64 (ps_offset (lr_position r) + 1)) (int m) (drop m rs) = int (length rs)"
proof (cases "m = length rs")
  case False
  assume a: "numbered k rs" "length rs < 2 ^ 63" "m \<le> length rs"
  have last: "foldl (\<lambda>n r. wrap64 (ps_offset (lr_position r) + 1)) n xs = wrap64 (ps_offset (lr_position (last xs)) + 1)" if "xs \<noteq> []" for n xs
    using that by (induction xs arbitrary: n) auto
  have ne: "drop m rs \<noteq> []" using False a(3) by simp
  have l: "last (drop m rs) = rs ! (length rs - 1)" using ne a(3) False by (simp add: last_drop last_conv_nth)
  have "lr_position (rs ! (length rs - 1)) = \<lparr>ps_shard_id = k, ps_offset = int (length rs - 1)\<rparr>"
    by (rule numbered_nth[OF a(1)]) (use ne in auto)
  moreover have "in64 (int (length rs))" using a(2) by (simp add: in64_def)
  ultimately show ?thesis using last[OF ne, of "int m"] l ne by (simp add: of_nat_diff Suc_leI)
qed simp

lemma foldl_next_read:
  assumes "record_json_ok rj" "numbered k rs" "length rs < 2 ^ 63" "m \<le> length rs"
  shows "foldl (\<lambda>n r. wrap64 (ps_offset (lr_position r) + 1)) (int m) (map (as_read rj) (drop m rs)) = int (length rs)"
  using foldl_next_offset[OF assms(2-4)] json_lineD[OF assms(1)] by (simp add: foldl_map)

definition blocked :: "file_world \<Rightarrow> string \<Rightarrow> bool" where
  "blocked w path \<longleftrightarrow> (\<exists>s. fw_files w path = Some s \<and> (\<exists>l \<in> set (split_lines s). max_token \<le> length l))"

lemma blocked_scan: "\<exists>l \<in> set (split_lines s). max_token \<le> length l \<Longrightarrow> snd (scan_lines s) = Some token_too_long"
proof -
  assume "\<exists>l \<in> set (split_lines s). max_token \<le> length l"
  then have "takeWhile (\<lambda>l. length l < max_token) (split_lines s) \<noteq> split_lines s" by (auto simp: takeWhile_eq_all_conv not_less)
  then have "length (takeWhile (\<lambda>l. length l < max_token) (split_lines s)) < length (split_lines s)"
    by (metis length_takeWhile_le le_neq_implies_less takeWhile_eq_take take_all_iff)
  then show ?thesis by (simp add: scan_lines_def Let_def)
qed

lemma blocked_count:
  assumes "blocked w path" "count_lines fe path w = (r, w')"
  shows "fw_files w' = fw_files w \<and> (\<exists>e. r = Inl e)"
proof -
  obtain s where s: "fw_files w path = Some s" "\<exists>l \<in> set (split_lines s). max_token \<le> length l" using assms(1) by (auto simp: blocked_def)
  show ?thesis using assms(2) s(1) blocked_scan[OF s(2)]
    by (auto simp: count_lines_def file_open_def syscall_def ebind_def split: option.splits prod.splits)
qed

lemma blocked_append:
  assumes "blocked w (shard_path dir (ev_shard_id e))" "file_append fe rj dir ctx e w = (r, w')"
  shows "fw_files w' = fw_files w \<and> (\<exists>err. r = Inl err)"
proof (cases ctx)
  case (Some err)
  then show ?thesis using assms(2) by (auto simp: file_append_def)
next
  case None
  obtain r1 w1 where 1: "syscall fe w = (r1, w1)" by fastforce
  have f1: "fw_files w1 = fw_files w" by (rule syscall_files[OF 1])
  obtain r2 w2 where 2: "count_lines fe (shard_path dir (ev_shard_id e)) w1 = (r2, w2)" by fastforce
  have "blocked w1 (shard_path dir (ev_shard_id e))" using assms(1) f1 by (simp add: blocked_def)
  from blocked_count[OF this 2] obtain err where "r2 = Inl err" "fw_files w2 = fw_files w" using f1 by auto
  then show ?thesis using assms(2) 1 2 f1 None by (cases r1) (auto simp: file_append_def ebind_def wrap_err_def)
qed

lemma blocked_read:
  assumes "blocked w (shard_path dir k)" "read_records fe rj dir \<lparr>ps_shard_id = k, ps_offset = off\<rparr> w = (r, w')"
  shows "\<exists>err. r = Inl err"
proof -
  obtain s where s: "fw_files w (shard_path dir k) = Some s" "\<exists>l \<in> set (split_lines s). max_token \<le> length l"
    using assms(1) by (auto simp: blocked_def)
  obtain ls where l: "scan_lines s = (ls, Some token_too_long)" using blocked_scan[OF s(2)] by (cases "scan_lines s") simp
  show ?thesis using assms(2) s(1) l
    by (cases "decode_lines rj off ls") (auto simp: read_records_def file_open_def syscall_def ebind_def wrap_err_def split: option.splits prod.splits, metis)
qed

lemma holds_blocked:
  assumes "record_json_ok rj" "holds rj dir w k rs" "\<not> (\<forall>r \<in> set rs. fits rj r)"
  shows "blocked w (shard_path dir k)"
proof -
  obtain s where s: "fw_files w (shard_path dir k) = Some s" using assms(2,3) by (auto simp: holds_def split: option.splits)
  then show ?thesis using holds_lines[OF assms(1,2) s] assms(3) by (auto simp: blocked_def fits_def not_less)
qed

text \<open>An append touches no other shard's file.\<close>

lemma file_append_other:
  assumes "file_append fe rj dir ctx e w = (r, w')" "k \<noteq> ev_shard_id e"
  shows "fw_files w' (shard_path dir k) = fw_files w (shard_path dir k)"
proof -
  let ?path = "shard_path dir (ev_shard_id e)"
  define kept where "kept v \<longleftrightarrow> fw_files v (shard_path dir k) = fw_files w (shard_path dir k)" for v :: file_world
  have ne: "shard_path dir k \<noteq> ?path" using assms(2) shard_path_inj by blast
  have "keeps kept (count_lines fe ?path)" unfolding keeps_def kept_def by (metis count_lines_ok(1) prod.collapse)
  moreover have "keeps kept (syscall fe)" "keeps kept (file_create fe ?path)" "keeps kept (file_write fe ?path d)" for d
    using ne syscall_files[of fe]
    by (auto simp: keeps_def kept_def file_create_def syscall_def file_write_def Let_def ebind_def split: option.splits prod.splits)
  ultimately have "keeps kept (file_append fe rj dir ctx e)"
    unfolding file_append_def Let_def by (auto intro!: keeps_ebind keeps_wrap_err split: option.split)
  then have "kept w'" using assms(1) keepsE[of kept] by (auto simp: kept_def)
  then show ?thesis by (simp add: kept_def)
qed

lemma tail_round_inv:
  assumes j: "record_json_ok rj" and i: "tail_inv rj dir k from rs (w, n, sent)" and b: "0 \<le> from" "length rs < 2 ^ 63"
  shows "tail_inv rj dir k from rs (tail_step rj dir k (TRound fe) (w, n, sent))"
proof (cases n)
  case None
  then show ?thesis using i by (simp add: tail_inv_def)
next
  case (Some m0)
  obtain m where m: "holds rj dir w k rs" "\<forall>r \<in> set (butlast rs). fits rj r" "nat from \<le> m" "m \<le> length rs"
      "sent = map (as_read rj) (drop (nat from) (take m rs))" "m0 = int m"
    using i Some by (auto simp: tail_inv_def)
  obtain q w1 where q: "read_records fe rj dir \<lparr>ps_shard_id = k, ps_offset = m0\<rparr> w = (q, w1)" by fastforce
  have h1: "holds rj dir w1 k rs" using m(1) read_records_ok(1)[OF q] by (simp add: holds_def)
  show ?thesis
  proof (cases q)
    case (Inl e)
    then show ?thesis using q Some m h1 by (auto simp: tail_round_def ebind_def tail_inv_def)
  next
    case (Inr out)
    have fit: "\<forall>r \<in> set rs. fits rj r" using holds_blocked[OF j m(1)] blocked_read[of w dir k, OF _ q] Inr by auto
    have out: "out = map (as_read rj) (drop m rs)" using read_records_ok(2)[OF q j, of rs out] m fit Inr by simp
    have n': "foldl (\<lambda>n r. wrap64 (ps_offset (lr_position r) + 1)) m0 out = int (length rs)"
      unfolding out m(6) by (rule foldl_next_read[OF j]) (use m(1,4) b(2) in \<open>auto simp: holds_def\<close>)
    have "drop (nat from) (take m rs) @ drop m rs = drop (nat from) rs"
      using m(3,4) by (metis append_take_drop_id drop_append le_antisym diff_is_0_eq drop_0 length_take min.absorb2)
    then have "sent @ out = map (as_read rj) (drop (nat from) rs)" unfolding m(5) out by (simp flip: map_append)
    then show ?thesis using q Some m h1 Inr n' by (auto simp: tail_round_def ebind_def tail_inv_def intro!: exI[of _ "length rs"])
  qed
qed

lemma tail_append_inv:
  assumes j: "record_json_ok rj" and c: "clean_faults fe" and i: "tail_inv rj dir k from rs (w, n, sent)"
    and a: "file_append fe rj dir None e w = (res, w')"
  shows "tail_inv rj dir k from rs (w', n, sent) \<and> (ev_shard_id e = k \<longrightarrow> (\<exists>err. res = Inl err)) \<or>
    ev_shard_id e = k \<and> tail_inv rj dir k from (rs @ [\<lparr>lr_position = \<lparr>ps_shard_id = k, ps_offset = int (length rs)\<rparr>, lr_event = e\<rparr>]) (w', n, sent)"
proof (cases "ev_shard_id e = k")
  case False
  then have "fw_files w' (shard_path dir k) = fw_files w (shard_path dir k)" using file_append_other[OF a] by simp
  then show ?thesis using i False by (simp add: tail_inv_def holds_def)
next
  case True
  let ?new = "rs @ [\<lparr>lr_position = \<lparr>ps_shard_id = k, ps_offset = int (length rs)\<rparr>, lr_event = e\<rparr>]"
  have h: "holds rj dir w (ev_shard_id e) rs" using i True by (simp add: tail_inv_def)
  show ?thesis
  proof (cases "\<forall>r \<in> set rs. fits rj r")
    case False
    have "blocked w (shard_path dir (ev_shard_id e))" by (rule holds_blocked[OF j h False])
    then have "fw_files w' = fw_files w \<and> (\<exists>err. res = Inl err)" using blocked_append a by blast
    then show ?thesis using i by (simp add: tail_inv_def holds_def)
  next
    case fit: True
    obtain m where m: "nat from \<le> m" "m \<le> length rs" "sent = map (as_read rj) (drop (nat from) (take m rs))" "n = None \<or> n = Some (int m)"
      using i by (auto simp: tail_inv_def)
    have "take m ?new = take m rs" using m(2) by simp
    then have "holds rj dir w' k ?new \<Longrightarrow> tail_inv rj dir k from ?new (w', n, sent)"
      using fit m unfolding tail_inv_def by (auto intro!: exI[of _ m])
    moreover have "holds rj dir w' k rs \<Longrightarrow> tail_inv rj dir k from rs (w', n, sent)" using i by (auto simp: tail_inv_def)
    ultimately show ?thesis using file_append_ok[OF c j h fit a] True by (auto simp: Let_def)
  qed
qed

section \<open>An encoding to exercise the laws\<close>

fun enc_str :: "string \<Rightarrow> string" where
  "enc_str [] = '';''"
| "enc_str (c # cs) = replicate (of_char c) (CHR ''x'') @ '','' @ enc_str cs"

fun dec_str :: "nat \<Rightarrow> string \<Rightarrow> (string \<times> string) option" where
  "dec_str n [] = None"
| "dec_str n (c # r) =
     (if c = CHR ''x'' then dec_str (Suc n) r
      else if c = CHR '','' then map_option (\<lambda>(s, r'). (char_of n # s, r')) (dec_str 0 r)
      else if c = CHR '';'' then Some ([], r) else None)"

definition enc_int :: "int \<Rightarrow> string" where
  "enc_int i = (if i < 0 then ''-'' else ''+'') @ replicate (nat \<bar>i\<bar>) (CHR ''x'') @ '';''"

definition dec_int :: "string \<Rightarrow> (int \<times> string) option" where
  "dec_int s = (let d = tl s; n = int (length (takeWhile (\<lambda>c. c = CHR ''x'') d))
     in Some (if hd s = CHR ''-'' then - n else n, drop 1 (dropWhile (\<lambda>c. c = CHR ''x'') d)))"

lemma dec_str_count: "dec_str n (replicate m (CHR ''x'') @ r) = dec_str (n + m) r"
  by (induction m arbitrary: n) simp_all

lemma dec_enc_str: "dec_str 0 (enc_str s @ r) = Some (s, r)"
proof (induction s)
  case (Cons c s)
  have "char_of (of_char c :: nat) = c" by simp
  then show ?case using Cons by (simp add: dec_str_count)
qed simp

lemma dec_enc_int: "dec_int (enc_int i @ r) = Some (i, r)"
proof -
  have "takeWhile (\<lambda>c. c = CHR ''x'') (replicate n (CHR ''x'') @ CHR '';'' # r) = replicate n (CHR ''x'')"
    "dropWhile (\<lambda>c. c = CHR ''x'') (replicate n (CHR ''x'') @ CHR '';'' # r) = CHR '';'' # r" for n
    by (induction n) simp_all
  then show ?thesis by (simp add: dec_int_def enc_int_def Let_def)
qed

definition ref_marshal_event :: "event \<Rightarrow> string" where
  "ref_marshal_event e = enc_str (ev_id e) @ enc_str (ev_type e) @ enc_str (ev_aggregate_type e) @ enc_str (ev_aggregate_id e) @
     enc_int (ev_shard_id e) @ enc_int (ev_occurred_at e) @ enc_str (ev_payload e)"

definition dec_event :: "string \<Rightarrow> (event \<times> string) option" where
  "dec_event s0 = Option.bind (dec_str 0 s0) (\<lambda>(i, s1). Option.bind (dec_str 0 s1) (\<lambda>(t, s2).
     Option.bind (dec_str 0 s2) (\<lambda>(a, s3). Option.bind (dec_str 0 s3) (\<lambda>(b, s4). Option.bind (dec_int s4) (\<lambda>(k, s5).
     Option.bind (dec_int s5) (\<lambda>(o1, s6). Option.bind (dec_str 0 s6) (\<lambda>(p, s7).
       Some (\<lparr>ev_id = i, ev_type = t, ev_aggregate_type = a, ev_aggregate_id = b, ev_shard_id = k, ev_occurred_at = o1, ev_payload = p\<rparr>, s7))))))))"

definition ref_event_json :: event_json where
  "ref_event_json = \<lparr>ej_marshal = (\<lambda>e. Inr (ref_marshal_event e)),
     ej_unmarshal = (\<lambda>s. case dec_event s of None \<Rightarrow> Inl (ErrMsg ''invalid character'' []) | Some (e, r) \<Rightarrow> Inr e)\<rparr>"

definition ref_record_json :: record_json where
  "ref_record_json = \<lparr>rj_marshal = (\<lambda>r. Inr (enc_int (ps_shard_id (lr_position r)) @ enc_int (ps_offset (lr_position r)) @ ref_marshal_event (lr_event r))),
     rj_unmarshal = (\<lambda>s. case Option.bind (dec_int s) (\<lambda>(k, s1). Option.bind (dec_int s1) (\<lambda>(o1, s2). map_option (\<lambda>(e, r). (k, o1, e)) (dec_event s2))) of
        None \<Rightarrow> Inl (ErrMsg ''invalid character'' [])
      | Some (k, o1, e) \<Rightarrow> Inr \<lparr>lr_position = \<lparr>ps_shard_id = k, ps_offset = o1\<rparr>, lr_event = e\<rparr>)\<rparr>"

lemma dec_event_marshal: "dec_event (ref_marshal_event e @ r) = Some (e, r)"
  by (simp add: dec_event_def ref_marshal_event_def dec_enc_str dec_enc_int)

lemma ref_event_json_exact: "event_json_exact ref_event_json"
  using dec_event_marshal[of _ "[]"] by (simp add: event_json_exact_def ref_event_json_def)

lemmas ref_event_json_ok = event_json_exact_ok[OF ref_event_json_exact]

lemma no_newline: "newline \<notin> set (enc_str s)" "newline \<notin> set (enc_int i)"
proof -
  show "newline \<notin> set (enc_str s)" by (induction s) (auto simp: newline_def)
  show "newline \<notin> set (enc_int i)" by (auto simp: enc_int_def newline_def)
qed

lemma ref_record_json_ok: "record_json_ok ref_record_json"
  unfolding record_json_ok_def ref_record_json_def
  using dec_event_marshal[of _ "[]"] by (simp add: dec_enc_int no_newline ref_marshal_event_def)


section \<open>Properties\<close>

lemma calm_read:
  assumes "\<forall>t. fe_fault fe t = None" "record_json_ok rj" "holds rj dir w k rs" "\<forall>r \<in> set rs. fits rj r" "0 \<le> from"
  shows "\<exists>w'. read_records fe rj dir \<lparr>ps_shard_id = k, ps_offset = from\<rparr> w = (Inr (map (as_read rj) (drop (nat from) rs)), w')"
proof -
  have sys: "syscall fe w = (Inr (), w\<lparr>fw_tick := Suc (fw_tick w)\<rparr>)" for w using assms(1) by (simp add: syscall_def)
  have nf: "filter (\<lambda>r. from \<le> ps_offset (lr_position r)) rs = drop (nat from) rs"
    using numbered_filter[of k rs "from"] assms(3,5) by (simp add: holds_def)
  show ?thesis
  proof (cases "fw_files w (shard_path dir k)")
    case None
    then show ?thesis using assms(3) by (simp add: read_records_def file_open_def ebind_def sys wrap_err_def holds_def)
  next
    case (Some s)
    then show ?thesis using scan_holds[OF assms(2,3) Some assms(4)] decode_holds[OF assms(2), of "from" rs] nf
      by (simp add: read_records_def file_open_def ebind_def sys wrap_err_def)
  qed
qed

text \<open>The events of shard \<open>k\<close> that were to be appended, and those whose append reported no error.\<close>

definition offered :: "int \<Rightarrow> tail_op list \<Rightarrow> event list" where
  "offered k ops = concat (map (\<lambda>p. case p of TAppend fe e \<Rightarrow> if ev_shard_id e = k then [e] else [] | TRound fe \<Rightarrow> []) ops)"

fun accepted :: "record_json \<Rightarrow> string \<Rightarrow> int \<Rightarrow> tail_op list \<Rightarrow> file_world \<times> int option \<times> log_record list \<Rightarrow> event list" where
  "accepted rj dir k [] s = []"
| "accepted rj dir k (p # ops) s =
     (case p of TAppend fe e \<Rightarrow> (case fst (file_append fe rj dir None e (fst s)) of
            Inr pos \<Rightarrow> if ev_shard_id e = k then [e] else [] | Inl err \<Rightarrow> [])
      | TRound fe \<Rightarrow> []) @ accepted rj dir k ops (tail_step rj dir k p s)"

lemma tail_run_inv:
  assumes j: "record_json_ok rj" and b: "0 \<le> from"
  shows "tail_inv rj dir k from rs s \<Longrightarrow> \<forall>p \<in> set ops. clean_faults (op_env p) \<Longrightarrow> length rs + length ops < 2 ^ 63 \<Longrightarrow>
    \<exists>new. tail_inv rj dir k from (rs @ new) (tail_run rj dir k ops s) \<and>
      subseq (accepted rj dir k ops s) (map lr_event new) \<and> subseq (map lr_event new) (offered k ops)"
proof (induction ops arbitrary: rs s)
  case Nil
  then show ?case by (auto simp: tail_run_def intro!: exI[of _ "[]"])
next
  case (Cons p ops)
  obtain w n sent where s: "s = (w, n, sent)" by (cases s)
  let ?s1 = "tail_step rj dir k p s"
  have run: "tail_run rj dir k (p # ops) s = tail_run rj dir k ops ?s1" by (simp add: tail_run_def)
  obtain new1 acc where 1: "tail_inv rj dir k from (rs @ new1) ?s1" "length new1 \<le> 1"
      "accepted rj dir k (p # ops) s = acc @ accepted rj dir k ops ?s1" "subseq acc (map lr_event new1)"
      "subseq (map lr_event new1 @ offered k ops) (offered k (p # ops))"
  proof (cases p)
    case (TRound fe)
    have "length rs < 2 ^ 63" using Cons.prems(3) by simp
    then have "tail_inv rj dir k from rs ?s1" using tail_round_inv[OF j Cons.prems(1)[unfolded s] b] unfolding TRound s by blast
    then show ?thesis using that[of "[]" "[]"] TRound by (simp add: offered_def)
  next
    case (TAppend fe e)
    obtain res w' where a: "file_append fe rj dir None e w = (res, w')" by fastforce
    let ?r = "\<lparr>lr_position = \<lparr>ps_shard_id = k, ps_offset = int (length rs)\<rparr>, lr_event = e\<rparr>"
    have s1: "?s1 = (w', n, sent)" using a by (simp add: TAppend s)
    have c: "clean_faults fe" using Cons.prems(2) TAppend by simp
    from tail_append_inv[OF j c Cons.prems(1)[unfolded s] a] show ?thesis
    proof
      assume "tail_inv rj dir k from rs (w', n, sent) \<and> (ev_shard_id e = k \<longrightarrow> (\<exists>err. res = Inl err))"
      then show ?thesis using that[of "[]" "[]"] s1 a
        by (cases res) (auto simp: TAppend s offered_def)
    next
      assume "ev_shard_id e = k \<and> tail_inv rj dir k from (rs @ [?r]) (w', n, sent)"
      then show ?thesis using that[of "[?r]" "case res of Inr pos \<Rightarrow> [e] | Inl err \<Rightarrow> []"] s1 a
        by (auto simp: TAppend s offered_def split: sum.splits)
    qed
  qed
  have "\<exists>new2. tail_inv rj dir k from ((rs @ new1) @ new2) (tail_run rj dir k ops ?s1) \<and>
      subseq (accepted rj dir k ops ?s1) (map lr_event new2) \<and> subseq (map lr_event new2) (offered k ops)"
    by (rule Cons.IH[OF 1(1)]) (use Cons.prems(2,3) 1(2) in auto)
  then obtain new2 where 2: "tail_inv rj dir k from ((rs @ new1) @ new2) (tail_run rj dir k ops ?s1)"
      "subseq (accepted rj dir k ops ?s1) (map lr_event new2)" "subseq (map lr_event new2) (offered k ops)" by blast
  have "subseq (map lr_event (new1 @ new2)) (offered k (p # ops))"
    using 1(5) 2(3) by (metis list_emb_append_mono map_append subseq_order.order_trans subseq_order.refl)
  moreover have "subseq (acc @ accepted rj dir k ops ?s1) (map lr_event (new1 @ new2))"
    using 1(4) 2(2) by (simp add: list_emb_append_mono)
  ultimately show ?case unfolding run 1(3) using 2(1) by (intro exI[of _ "new1 @ new2"]) simp
qed

text \<open>
  Property C33. Tailing a shard's file delivers its records in order, each once and none left out: however
  appends to this and other shards and rounds of the tail interleave, and whichever system calls fail
  without effect (a write that stops half way is not covered), the file keeps its records and gains, in
  order, every event whose append reported success and nothing that was not offered; and what was sent
  is the run of these records from the start offset up to the tail's next offset, as the reader decodes
  them: the very records, when their strings are valid UTF-8. As long as the tail is open, one round
  without faults delivers the rest, unless the last record is too long for the scanner: then the round
  fails and closes the channel. Such a record is the last one the file ever gets.
\<close>

theorem tail_delivers_in_order:
  assumes "record_json_ok rj" "holds rj dir w k rs" "\<forall>r \<in> set (butlast rs). fits rj r" "from \<le> length rs"
    and "\<forall>p \<in> set ops. clean_faults (op_env p)" "length rs + length ops < 2 ^ 63"
  shows "case tail_run rj dir k ops (w, Some (int from), []) of (w', n, sent) \<Rightarrow>
    \<exists>new m. let rs' = rs @ new in holds rj dir w' k rs' \<and>
      subseq (accepted rj dir k ops (w, Some (int from), [])) (map lr_event new) \<and> subseq (map lr_event new) (offered k ops) \<and>
      m \<le> length rs' \<and> sent = map (as_read rj) (drop from (take m rs')) \<and> (n = None \<or> n = Some (int m)) \<and>
      (\<forall>r \<in> set rs'. lr_position (as_read rj r) = lr_position r \<and> (text_event (lr_event r) \<longrightarrow> as_read rj r = r)) \<and>
      (\<forall>r \<in> set (butlast rs'). fits rj r) \<and>
      (\<forall>fe. n \<noteq> None \<longrightarrow> (\<forall>t. fe_fault fe t = None) \<longrightarrow>
         snd (tail_step rj dir k (TRound fe) (w', n, sent)) =
           (if \<forall>r \<in> set rs'. fits rj r then (Some (int (length rs')), map (as_read rj) (drop from rs')) else (None, sent)))"
proof -
  obtain w' n sent where run: "tail_run rj dir k ops (w, Some (int from), []) = (w', n, sent)" by (metis prod.exhaust)
  have "tail_inv rj dir k (int from) rs (w, Some (int from), [])" using assms(2-4) by (auto simp: tail_inv_def)
  then obtain new where i: "tail_inv rj dir k (int from) (rs @ new) (w', n, sent)"
      "subseq (accepted rj dir k ops (w, Some (int from), [])) (map lr_event new)" "subseq (map lr_event new) (offered k ops)"
    using tail_run_inv[OF assms(1) _ _ assms(5,6), of "int from"] run by fastforce
  define rs' where "rs' = rs @ new"
  obtain m where m: "holds rj dir w' k rs'" "\<forall>r \<in> set (butlast rs'). fits rj r" "from \<le> m" "m \<le> length rs'"
      "sent = map (as_read rj) (drop from (take m rs'))" "n = None \<or> n = Some (int m)"
    using i(1) by (auto simp: tail_inv_def rs'_def)
  have "length (map lr_event new) \<le> length (offered k ops)" using list_emb_length[OF i(3)] .
  moreover have "length (offered k ops) \<le> length ops" unfolding offered_def by (induction ops) (auto split: tail_op.split)
  ultimately have len: "length rs' < 2 ^ 63" using assms(6) by (simp add: rs'_def)
  have "snd (tail_step rj dir k (TRound fe) (w', n, sent)) =
      (if \<forall>r \<in> set rs'. fits rj r then (Some (int (length rs')), map (as_read rj) (drop from rs')) else (None, sent))"
    if n: "n \<noteq> None" and c: "\<forall>t. fe_fault fe t = None" for fe
  proof -
    have nm: "n = Some (int m)" using m(6) n by simp
    show ?thesis
    proof (cases "\<forall>r \<in> set rs'. fits rj r")
      case True
      obtain w2 where r: "read_records fe rj dir \<lparr>ps_shard_id = k, ps_offset = int m\<rparr> w' = (Inr (map (as_read rj) (drop m rs')), w2)"
        using calm_read[OF c assms(1) m(1) True, of "int m"] by auto
      have "drop from (take m rs') @ drop m rs' = drop from rs'"
        using m(3,4) by (metis append_take_drop_id drop_append le_antisym diff_is_0_eq drop_0 length_take min.absorb2)
      then have "sent @ map (as_read rj) (drop m rs') = map (as_read rj) (drop from rs')" unfolding m(5) by (simp flip: map_append)
      moreover have "foldl (\<lambda>n r. wrap64 (ps_offset (lr_position r) + 1)) (int m) (map (as_read rj) (drop m rs')) = int (length rs')"
        by (rule foldl_next_read[OF assms(1) _ len m(4), of k]) (use m(1) in \<open>simp add: holds_def\<close>)
      ultimately show ?thesis using r nm True by (simp add: tail_round_def ebind_def)
    next
      case False
      obtain q w2 where q: "read_records fe rj dir \<lparr>ps_shard_id = k, ps_offset = int m\<rparr> w' = (q, w2)" by fastforce
      obtain err where "q = Inl err" using blocked_read[OF holds_blocked[OF assms(1) m(1) False] q] by blast
      then show ?thesis using q nm False by (auto simp: tail_round_def ebind_def)
    qed
  qed
  moreover have "\<forall>r \<in> set rs'. lr_position (as_read rj r) = lr_position r \<and> (text_event (lr_event r) \<longrightarrow> as_read rj r = r)"
    using json_lineD[OF assms(1)] by blast
  ultimately show ?thesis unfolding run prod.case
    by (intro exI[of _ new] exI[of _ m]) (use m i in \<open>simp add: Let_def flip: rs'_def\<close>)
qed

text \<open>
  A record too long for the scanner blocks its shard for good: after one append that
  succeeded although its line reaches the scanner's limit, every later append to the shard and every
  read of it fails, and the file never changes again.
\<close>

theorem oversized_record_blocks_shard:
  assumes "record_json_ok rj" "clean_faults fe" "holds rj dir w k rs" "\<forall>r \<in> set rs. fits rj r" "ev_shard_id e = k"
    and "\<not> fits rj \<lparr>lr_position = \<lparr>ps_shard_id = k, ps_offset = int (length rs)\<rparr>, lr_event = e\<rparr>"
    and "file_append fe rj dir None e w = (Inr p, w1)" "fw_files w2 (shard_path dir k) = fw_files w1 (shard_path dir k)"
  shows "(\<forall>fe2 ctx e2. ev_shard_id e2 = k \<longrightarrow>
      (\<exists>err w3. file_append fe2 rj dir ctx e2 w2 = (Inl err, w3) \<and> fw_files w3 = fw_files w2)) \<and>
    (\<forall>fe2 off. \<exists>err w3. read_records fe2 rj dir \<lparr>ps_shard_id = k, ps_offset = off\<rparr> w2 = (Inl err, w3))"
proof -
  let ?new = "rs @ [\<lparr>lr_position = \<lparr>ps_shard_id = k, ps_offset = int (length rs)\<rparr>, lr_event = e\<rparr>]"
  have h1: "holds rj dir w1 k ?new"
    using file_append_ok[OF assms(2,1) _ assms(4,7)] assms(3,5) by (auto simp: Let_def)
  moreover have "\<not> (\<forall>r \<in> set ?new. fits rj r)" using assms(6) by simp
  ultimately have "blocked w1 (shard_path dir k)" by (rule holds_blocked[OF assms(1)])
  then have b: "blocked w2 (shard_path dir k)" using assms(8) by (simp add: blocked_def)
  have "\<exists>err w3. file_append fe2 rj dir ctx e2 w2 = (Inl err, w3) \<and> fw_files w3 = fw_files w2" if "ev_shard_id e2 = k" for fe2 ctx e2
    using blocked_append[of w2 dir e2 fe2 rj ctx] b that by (metis prod.exhaust)
  moreover have "\<exists>err w3. read_records fe2 rj dir \<lparr>ps_shard_id = k, ps_offset = off\<rparr> w2 = (Inl err, w3)" for fe2 off
    using blocked_read[OF b, of fe2 rj off] by (metis prod.exhaust)
  ultimately show ?thesis by blast
qed

text \<open>
  What the in-memory log accepts it gives back: after an append of events that reports no
  error, reading from the position of any of them yields that event first, under its position; the
  records of every shard stay numbered from zero without gaps.
\<close>

theorem memory_append_read:
  assumes "memory_append_batch None es s = (Inr ps, s')" "log_wf s" "i < length es"
  shows "\<exists>rest. memory_read_from (ps ! i) s' = (Inr (\<lparr>lr_position = ps ! i, lr_event = es ! i\<rparr> # rest), s') \<and> log_wf s'"
proof -
  have a: "memory_append_events es s = (Inr ps, s')" using assms(1) by (simp add: memory_append_batch_def)
  note wf = memory_append_wf[OF a assms(2)]
  obtain rs where rs: "s' (ev_shard_id (es ! i)) = Some rs" "\<lparr>lr_position = ps ! i, lr_event = es ! i\<rparr> \<in> set rs"
    using memory_append_positions[OF a] assms(3) by (auto simp: list_all2_conv_all_nth)
  let ?k = "ev_shard_id (es ! i)"
  have n: "numbered ?k rs" using wf rs(1) by (simp add: log_wf_def numbered_def)
  obtain j where j: "j < length rs" "rs ! j = \<lparr>lr_position = ps ! i, lr_event = es ! i\<rparr>" using rs(2) by (metis in_set_conv_nth)
  have p: "ps ! i = \<lparr>ps_shard_id = ?k, ps_offset = int j\<rparr>" using numbered_nth[OF n j(1)] j(2) by simp
  have "drop j rs = \<lparr>lr_position = ps ! i, lr_event = es ! i\<rparr> # drop (Suc j) rs" using j by (metis Cons_nth_drop_Suc)
  then show ?thesis using wf rs(1) p j(1) by (auto simp: memory_read_from_def)
qed

text \<open>But the log has no operation that adds a shard, so a fresh log accepts nothing, ever.\<close>

lemma memory_shards_fixed: "memory_append_batch ctx es s = (r, s') \<Longrightarrow> dom s' = dom s"
  using memory_append_grows[of es s r s'] by (auto simp: memory_append_batch_def split: option.splits)

lemma memory_fresh_rejects: "es \<noteq> [] \<Longrightarrow> \<exists>e. memory_append_batch ctx es Map.empty = (Inl e, Map.empty)"
  by (cases es; cases ctx) (simp_all add: memory_append_batch_def)

section \<open>Witnesses\<close>

definition calm_files :: file_env where
  "calm_files = \<lparr>fe_fault = (\<lambda>_. None), fe_part = (\<lambda>_. 0)\<rparr>"

lemma calm_fault: "fe_fault calm_files t = None"
  by (simp add: calm_files_def)

definition small_event :: event where
  "small_event = \<lparr>ev_id = ''a'', ev_type = ''t'', ev_aggregate_type = [], ev_aggregate_id = [], ev_shard_id = 1, ev_occurred_at = 0, ev_payload = []\<rparr>"

definition no_files :: file_world where
  "no_files = \<lparr>fw_files = Map.empty, fw_tick = 0\<rparr>"

lemma no_files_hold: "holds rj dir no_files k []"
  by (simp add: holds_def numbered_def no_files_def)

abbreviation small_record :: log_record where
  "small_record \<equiv> \<lparr>lr_position = \<lparr>ps_shard_id = 1, ps_offset = 0\<rparr>, lr_event = small_event\<rparr>"

lemma small_append: "\<exists>w'. file_append calm_files ref_record_json ''d'' None small_event no_files = (Inr \<lparr>ps_shard_id = 1, ps_offset = 0\<rparr>, w')"
proof -
  have sys: "syscall calm_files w = (Inr (), w\<lparr>fw_tick := Suc (fw_tick w)\<rparr>)" for w by (simp add: syscall_def calm_files_def)
  show ?thesis
    by (simp add: file_append_def ebind_def wrap_err_def sys count_lines_def file_open_def no_files_def file_create_def file_write_def
        Let_def ref_record_json_def calm_fault small_event_def)
qed

theorem tail_delivers_in_order_witness:
  "snd (tail_run ref_record_json ''d'' 1 [TAppend calm_files small_event, TRound calm_files] (no_files, Some 0, [])) = (Some 1, [small_record])"
proof -
  let ?ops = "[TAppend calm_files small_event]" and ?s = "(no_files, Some 0, []) :: file_world \<times> int option \<times> log_record list"
  have c: "\<forall>p \<in> set ?ops. clean_faults (op_env p)" by (simp add: clean_faults_def calm_files_def)
  obtain w' where a: "file_append calm_files ref_record_json ''d'' None small_event no_files = (Inr \<lparr>ps_shard_id = 1, ps_offset = 0\<rparr>, w')"
    using small_append by blast
  have run: "tail_run ref_record_json ''d'' 1 ?ops ?s = (w', Some 0, [])" by (simp add: tail_run_def a)
  have e: "offered 1 ?ops = [small_event]" "accepted ref_record_json ''d'' 1 ?ops ?s = [small_event]"
    using a by (simp_all add: offered_def) (simp_all add: small_event_def)
  have "\<forall>fe. (\<forall>t. fe_fault fe t = None) \<longrightarrow> snd (tail_step ref_record_json ''d'' 1 (TRound fe) (w', Some 0, [])) = (Some 1, [small_record])"
  proof -
    obtain new where new: "holds ref_record_json ''d'' w' 1 new" "subseq [small_event] (map lr_event new)" "subseq (map lr_event new) [small_event]"
      "\<forall>r \<in> set new. text_event (lr_event r) \<longrightarrow> as_read ref_record_json r = r"
      "\<forall>fe. (\<forall>t. fe_fault fe t = None) \<longrightarrow> snd (tail_step ref_record_json ''d'' 1 (TRound fe) (w', Some 0, [])) =
           (if \<forall>r \<in> set new. fits ref_record_json r then (Some (int (length new)), map (as_read ref_record_json) new) else (None, []))"
      using tail_delivers_in_order[OF ref_record_json_ok no_files_hold, of 0 ?ops "''d''" 1, unfolded of_nat_0 run e] c by (auto simp: Let_def)
    have "map lr_event new = [small_event]" using subseq_order.antisym[OF new(3,2)] .
    then obtain x where x: "new = [x]" "lr_event x = small_event" by auto
    moreover have "lr_position x = \<lparr>ps_shard_id = 1, ps_offset = 0\<rparr>" using new(1) x(1) by (simp add: holds_def numbered_def)
    ultimately have r: "new = [small_record]" by (cases x) simp
    have "text_event small_event" by code_simp
    moreover have "fits ref_record_json small_record"
      by (simp add: fits_def json_line_def ref_record_json_def ref_marshal_event_def small_event_def enc_int_def max_token_def)
    ultimately show ?thesis using new(4,5) r by simp
  qed
  moreover have "tail_run ref_record_json ''d'' 1 [TAppend calm_files small_event, TRound calm_files] ?s =
      tail_step ref_record_json ''d'' 1 (TRound calm_files) (w', Some 0, [])"
    using run by (simp add: tail_run_def)
  ultimately show ?thesis using calm_fault by simp
qed

definition huge_event :: event where
  "huge_event = small_event\<lparr>ev_payload := replicate 66000 (CHR ''a'')\<rparr>"

lemma length_enc_str: "length s \<le> length (enc_str s)"
  by (induction s) auto

theorem oversized_record_blocks_shard_witness:
  "\<exists>w1 err w3. file_append calm_files ref_record_json ''d'' None small_event w1 = (Inl err, w3)"
proof -
  let ?r = "\<lparr>lr_position = \<lparr>ps_shard_id = 1, ps_offset = int (length ([] :: log_record list))\<rparr>, lr_event = huge_event\<rparr>"
  have "66000 \<le> length (enc_str (ev_payload huge_event))" using length_enc_str[of "ev_payload huge_event"] by (simp add: huge_event_def)
  then have big: "\<not> fits ref_record_json ?r"
    by (simp add: fits_def json_line_def ref_record_json_def ref_marshal_event_def max_token_def)
  have c: "clean_faults calm_files" by (simp add: clean_faults_def calm_files_def)
  have k: "ev_shard_id huge_event = 1" "ev_shard_id small_event = 1" by (simp_all add: huge_event_def small_event_def)
  have sys: "syscall calm_files w = (Inr (), w\<lparr>fw_tick := Suc (fw_tick w)\<rparr>)" for w by (simp add: syscall_def calm_files_def)
  have "\<exists>p w1. file_append calm_files ref_record_json ''d'' None huge_event no_files = (Inr p, w1)"
    by (simp add: file_append_def ebind_def wrap_err_def sys count_lines_def file_open_def no_files_def file_create_def file_write_def
        Let_def ref_record_json_def calm_fault)
  then obtain p w1 where a: "file_append calm_files ref_record_json ''d'' None huge_event no_files = (Inr p, w1)" by blast
  show ?thesis
    using oversized_record_blocks_shard[OF ref_record_json_ok c no_files_hold _ k(1) big a refl, THEN conjunct1,
        THEN spec, THEN spec, THEN spec, of small_event calm_files None] k(2) by auto
qed

theorem memory_append_read_witness:
  "\<exists>ps s' rest. memory_append_batch None [small_event] [1 \<mapsto> []] = (Inr ps, s') \<and>
     memory_read_from (ps ! 0) s' = (Inr (\<lparr>lr_position = ps ! 0, lr_event = small_event\<rparr> # rest), s')"
proof -
  have "\<exists>ps s'. memory_append_batch None [small_event] [1 \<mapsto> []] = (Inr ps, s')"
    by (simp add: memory_append_batch_def small_event_def Let_def ebind_def)
  then obtain ps s' where a: "memory_append_batch None [small_event] [1 \<mapsto> []] = (Inr ps, s')" by blast
  have "log_wf [1 \<mapsto> []]" by (simp add: log_wf_def)
  then show ?thesis using memory_append_read[OF a, of 0] a by auto
qed

end
