(* ===== verification/OrderFile.thy ===== *)
theory OrderFile
  imports OrderStore EventLog
begin

text \<open>
  The store that keeps all order states in one JSON file (\<open>internal/orderstate/file.go\<close>). A save writes
  a temporary file and renames it over the old one. The file system is the one of the event log, with
  faults and partial writes at any system call; JSON is a parameter.
\<close>

section \<open>System calls\<close>

text \<open>\<open>os.OpenFile\<close> with \<open>O_CREATE|O_WRONLY|O_TRUNC\<close>.\<close>

definition file_truncate :: "file_env \<Rightarrow> string \<Rightarrow> (file_world, unit) eff" where
  "file_truncate fe path = ebind (syscall fe) (\<lambda>_ w. (Inr (), w\<lparr>fw_files := (fw_files w)(path \<mapsto> [])\<rparr>))"

definition file_rename :: "file_env \<Rightarrow> string \<Rightarrow> string \<Rightarrow> (file_world, unit) eff" where
  "file_rename fe old new = ebind (syscall fe) (\<lambda>_ w.
     case fw_files w old of
       None \<Rightarrow> (Inl (ErrExternal ''rename: no such file or directory''), w)
     | Some s \<Rightarrow> (Inr (), w\<lparr>fw_files := (fw_files w)(new \<mapsto> s, old := None)\<rparr>))"

definition file_remove :: "file_env \<Rightarrow> string \<Rightarrow> (file_world, unit) eff" where
  "file_remove fe path = ebind (syscall fe) (\<lambda>_ w.
     case fw_files w path of
       None \<Rightarrow> (Inl (ErrExternal ''remove: no such file or directory''), w)
     | Some s \<Rightarrow> (Inr (), w\<lparr>fw_files := (fw_files w)(path := None)\<rparr>))"

section \<open>The store\<close>

text \<open>\<open>json.MarshalIndent\<close> and \<open>json.Unmarshal\<close> on \<open>map[string]State\<close>.\<close>

record states_json =
  sj_marshal :: "(string \<times> order_state) list \<Rightarrow> go_error + string"
  sj_unmarshal :: "string \<Rightarrow> go_error + (string \<times> order_state) list"

definition orders_path :: "string \<Rightarrow> string" where
  "orders_path dir = dir @ ''/orders.json''"

fun parse_order_ids :: "(string \<times> order_state) list \<Rightarrow> go_error + (int \<times> order_state) list" where
  "parse_order_ids [] = Inr []"
| "parse_order_ids ((t, x) # m) =
     (case atoi t of
        Inl e \<Rightarrow> Inl (ErrWrap ''parse order id %q: %w'' e)
      | Inr i \<Rightarrow> (case parse_order_ids m of
          Inl e \<Rightarrow> Inl e
        | Inr xs \<Rightarrow> Inr (AList.update i (x\<lparr>os_order_id := i\<rparr>) xs)))"

definition load_states :: "file_env \<Rightarrow> states_json \<Rightarrow> string \<Rightarrow> (file_world, (int \<times> order_state) list) eff" where
  "load_states fe sj path =
     ebind (wrap_err ''read order state file: %w'' (file_open fe path)) (\<lambda>f.
       case f of
         None \<Rightarrow> ret []
       | Some s \<Rightarrow>
           ebind (wrap_err ''read order state file: %w'' (syscall fe)) (\<lambda>_.
             lift_res (case sj_unmarshal sj s of
                Inl e \<Rightarrow> Inl (ErrWrap ''decode order state file: %w'' e)
              | Inr m \<Rightarrow> parse_order_ids m)))"

definition text_states :: "(int \<times> order_state) list \<Rightarrow> (string \<times> order_state) list" where
  "text_states xs = map (\<lambda>(i, x). (itoa i, x)) xs"

text \<open>The writes to the temporary file and the rename, and then the deferred
  \<open>os.Remove\<close>. (The \<open>Close\<close> of the error paths, whose result is ignored, is left out.)\<close>

definition replace_file :: "file_env \<Rightarrow> string \<Rightarrow> string \<Rightarrow> (file_world, unit) eff" where
  "replace_file fe path data =
     ebind (wrap_err ''write temp order state file: %w'' (file_write fe (path @ ''.tmp'') data)) (\<lambda>_.
     ebind (wrap_err ''sync temp order state file: %w'' (syscall fe)) (\<lambda>_.
     ebind (wrap_err ''close temp order state file: %w'' (syscall fe)) (\<lambda>_.
     wrap_err ''replace order state file: %w'' (file_rename fe (path @ ''.tmp'') path))))"

definition save_states :: "file_env \<Rightarrow> states_json \<Rightarrow> string \<Rightarrow> (int \<times> order_state) list \<Rightarrow> (file_world, unit) eff" where
  "save_states fe sj path xs =
     ebind (wrap_err ''create order state dir: %w'' (syscall fe)) (\<lambda>_.
     ebind (wrap_err ''encode order state file: %w'' (lift_res (sj_marshal sj (text_states xs)))) (\<lambda>data.
     ebind (wrap_err ''open temp order state file: %w'' (file_truncate fe (path @ ''.tmp''))) (\<lambda>_ w.
       (case replace_file fe path data w of (r, w1) \<Rightarrow> (r, snd (file_remove fe (path @ ''.tmp'') w1))))))"

definition order_file_load :: "file_env \<Rightarrow> states_json \<Rightarrow> string \<Rightarrow> go_error option \<Rightarrow> int \<Rightarrow> (file_world, order_state option) eff" where
  "order_file_load fe sj path ctx i =
     (case ctx of
        Some e \<Rightarrow> throw e
      | None \<Rightarrow> ebind (load_states fe sj path) (\<lambda>xs. ret (map_of xs i)))"

definition order_file_save :: "file_env \<Rightarrow> states_json \<Rightarrow> string \<Rightarrow> go_error option \<Rightarrow> order_state \<Rightarrow> (file_world, unit) eff" where
  "order_file_save fe sj path ctx x =
     (case ctx of
        Some e \<Rightarrow> throw e
      | None \<Rightarrow>
          if os_order_id x \<le> 0 then throw (ErrMsg ''order id must be > 0: %d'' [FInt (os_order_id x)])
          else ebind (load_states fe sj path) (\<lambda>xs. save_states fe sj path (AList.update (os_order_id x) x xs)))"

section \<open>What the file holds\<close>

text \<open>
  JSON gives a map of decimal keys that it encodes back with the same keys, and of every state what
  \<open>nrm\<close> keeps (invalid UTF-8 in strings is replaced); a second time nothing changes.
\<close>

definition states_json_ok :: "states_json \<Rightarrow> (order_state \<Rightarrow> order_state) \<Rightarrow> bool" where
  "states_json_ok sj nrm \<longleftrightarrow>
     (\<forall>m s. distinct (map fst m) \<longrightarrow> (\<forall>t \<in> set (map fst m). \<exists>i. t = itoa i) \<longrightarrow> sj_marshal sj m = Inr s \<longrightarrow>
        (\<exists>m'. sj_unmarshal sj s = Inr m' \<and> distinct (map fst m') \<and> map_of m' = (\<lambda>t. map_option nrm (map_of m t)))) \<and>
     (\<forall>x i. nrm (nrm x) = nrm x \<and> nrm (x\<lparr>os_order_id := i\<rparr>) = (nrm x)\<lparr>os_order_id := i\<rparr>)"

definition order_file_ok :: "states_json \<Rightarrow> (order_state \<Rightarrow> order_state) \<Rightarrow> string option \<Rightarrow> bool" where
  "order_file_ok sj nrm f \<longleftrightarrow> (\<forall>s. f = Some s \<longrightarrow> (\<exists>m. sj_unmarshal sj s = Inr m \<and> distinct (map fst m) \<and>
     (\<forall>(t, x) \<in> set m. nrm x = x \<and> (\<exists>i. t = itoa i \<and> in64 i))))"

definition order_file_view :: "states_json \<Rightarrow> string option \<Rightarrow> int \<rightharpoonup> order_state" where
  "order_file_view sj f i =
     (case f of
        None \<Rightarrow> None
      | Some s \<Rightarrow> (case sj_unmarshal sj s of
          Inl e \<Rightarrow> None
        | Inr m \<Rightarrow> if in64 i then map_option (\<lambda>x. x\<lparr>os_order_id := i\<rparr>) (map_of m (itoa i)) else None))"

lemma parse_order_ids_ok:
  "\<forall>(t, x) \<in> set m. nrm x = x \<and> (\<exists>i. t = itoa i \<and> in64 i) \<Longrightarrow> distinct (map fst m) \<Longrightarrow>
   \<exists>xs. parse_order_ids m = Inr xs \<and> distinct (map fst xs) \<and> (\<forall>i x. map_of xs i = Some x \<longrightarrow> in64 i) \<and>
     (\<forall>i. in64 i \<longrightarrow> map_of xs i = map_option (\<lambda>x. x\<lparr>os_order_id := i\<rparr>) (map_of m (itoa i)))"
proof (induction m)
  case (Cons p m)
  obtain t x where p: "p = (t, x)" by fastforce
  obtain i where i: "t = itoa i" "in64 i" using Cons.prems(1) p by auto
  obtain xs where xs: "parse_order_ids m = Inr xs" "distinct (map fst xs)" "\<forall>i x. map_of xs i = Some x \<longrightarrow> in64 i"
    "\<forall>i. in64 i \<longrightarrow> map_of xs i = map_option (\<lambda>x. x\<lparr>os_order_id := i\<rparr>) (map_of m (itoa i))"
    using Cons.IH Cons.prems by auto
  let ?ys = "AList.update i (x\<lparr>os_order_id := i\<rparr>) xs"
  have "parse_order_ids (p # m) = Inr ?ys" using p i xs(1) by (simp add: atoi_itoa)
  moreover have "distinct (map fst ?ys)" using xs(2) by (rule distinct_update)
  moreover have "in64 j" if "map_of ?ys j = Some y" for j y
    using that xs(3) i(2) unfolding map_of_AList_update by (cases "j = i") auto
  moreover have "map_of ?ys j = map_option (\<lambda>x. x\<lparr>os_order_id := j\<rparr>) (map_of (p # m) (itoa j))" if "in64 j" for j
    using that xs(4) p i itoa_inj[of i j] unfolding map_of_AList_update by auto
  ultimately show ?case by blast
qed simp

lemma map_of_text_states: "map_of (text_states xs) (itoa i) = map_of xs i"
  by (induction xs) (auto simp: text_states_def dest: itoa_inj)

lemma distinct_text_states: "distinct (map fst xs) \<Longrightarrow> distinct (map fst (text_states xs))"
  by (induction xs) (auto simp: text_states_def rev_image_eqI dest!: itoa_inj)

lemma text_states_keys: "t \<in> set (map fst (text_states xs)) \<Longrightarrow> \<exists>i. t = itoa i"
  by (auto simp: text_states_def)

lemma orders_path_temp: "path @ ''.tmp'' \<noteq> path"
  by simp

lemma load_states_unfold:
  assumes "file_open fe path w = (f, w1)" "syscall fe w1 = (q, w2)"
  shows "load_states fe sj path w =
    (case f of
       Inl e \<Rightarrow> (Inl (ErrWrap ''read order state file: %w'' e), w1)
     | Inr None \<Rightarrow> (Inr [], w1)
     | Inr (Some s) \<Rightarrow> (case q of
         Inl e \<Rightarrow> (Inl (ErrWrap ''read order state file: %w'' e), w2)
       | Inr u \<Rightarrow> (case sj_unmarshal sj s of
           Inl e \<Rightarrow> (Inl (ErrWrap ''decode order state file: %w'' e), w2)
         | Inr m \<Rightarrow> (parse_order_ids m, w2))))"
proof (cases f)
  case (Inr c)
  then show ?thesis using assms by (cases c; cases q) (simp_all add: load_states_def ebind_def wrap_err_def split: sum.split)
qed (simp add: load_states_def ebind_def wrap_err_def assms(1))

lemma load_states_ok:
  assumes "order_file_ok sj nrm (fw_files w path)" "load_states fe sj path w = (r, w')"
  shows "fw_files w' = fw_files w"
    "r = Inr xs \<Longrightarrow> distinct (map fst xs) \<and> (\<forall>i x. map_of xs i = Some x \<longrightarrow> in64 i) \<and>
       (\<forall>i. in64 i \<longrightarrow> map_of xs i = order_file_view sj (fw_files w path) i)"
proof -
  obtain f w1 where 1: "file_open fe path w = (f, w1)" by fastforce
  note o1 = file_open_ok[OF 1]
  obtain q w2 where 2: "syscall fe w1 = (q, w2)" by fastforce
  note s2 = syscall_files[OF 2]
  note e = load_states_unfold[OF 1 2, of sj]
  have "w' = w1 \<or> w' = w2" using assms(2) unfolding e by (simp split: sum.splits option.splits)
  moreover have "fw_files w1 = fw_files w" using o1 by blast
  ultimately show "fw_files w' = fw_files w" using s2 by metis
  assume r: "r = Inr xs"
  then obtain c where c: "f = Inr c" "c = fw_files w path"
    using assms(2) o1 unfolding e by (cases f) simp_all
  show "distinct (map fst xs) \<and> (\<forall>i x. map_of xs i = Some x \<longrightarrow> in64 i) \<and>
     (\<forall>i. in64 i \<longrightarrow> map_of xs i = order_file_view sj (fw_files w path) i)"
  proof (cases c)
    case None
    then have "xs = []" using assms(2) r c(1) unfolding e by simp
    then show ?thesis using None c(2) by (simp add: order_file_view_def)
  next
    case (Some s)
    then have fs: "fw_files w path = Some s" using c(2) by simp
    obtain m where m: "sj_unmarshal sj s = Inr m" "distinct (map fst m)"
      "\<forall>(t, x) \<in> set m. nrm x = x \<and> (\<exists>i. t = itoa i \<and> in64 i)"
      using assms(1)[unfolded order_file_ok_def, THEN spec, THEN mp, OF fs] by blast
    obtain ys where ys: "parse_order_ids m = Inr ys" "distinct (map fst ys)" "\<forall>i x. map_of ys i = Some x \<longrightarrow> in64 i"
      "\<forall>i. in64 i \<longrightarrow> map_of ys i = map_option (\<lambda>x. x\<lparr>os_order_id := i\<rparr>) (map_of m (itoa i))"
      using parse_order_ids_ok[OF m(3,2)] by blast
    have "ys = xs" using assms(2) r c(1) Some m(1) ys(1) unfolding e by (cases q) simp_all
    moreover have "order_file_view sj (fw_files w path) i = map_option (\<lambda>x. x\<lparr>os_order_id := i\<rparr>) (map_of m (itoa i))" if "in64 i" for i
      unfolding order_file_view_def fs using m(1) that by simp
    ultimately show ?thesis using ys(2-4) by simp
  qed
qed

lemma file_write_files:
  "file_write fe path data w = (r, w') \<Longrightarrow> (\<forall>q. q \<noteq> path \<longrightarrow> fw_files w' q = fw_files w q) \<and>
     (r = Inr u \<longrightarrow> fw_files w' path = Some ((case fw_files w path of None \<Rightarrow> [] | Some s \<Rightarrow> s) @ data))"
  by (auto simp: file_write_def Let_def split: option.splits)

lemma file_rename_files:
  "file_rename fe old new w = (r, w') \<Longrightarrow>
     (case r of Inl e \<Rightarrow> fw_files w' = fw_files w
      | Inr u \<Rightarrow> \<exists>s. fw_files w old = Some s \<and> fw_files w' = (fw_files w)(new \<mapsto> s, old := None))"
  by (auto simp: file_rename_def syscall_def ebind_def split: option.splits)

lemma file_remove_files:
  "file_remove fe path w = (r, w') \<Longrightarrow> \<forall>q. q \<noteq> path \<longrightarrow> fw_files w' q = fw_files w q"
  by (auto simp: file_remove_def syscall_def ebind_def split: option.splits)

lemma replace_file_files:
  assumes "replace_file fe path data w = (r, w')" "fw_files w (path @ ''.tmp'') = Some []"
  shows "\<forall>q. q \<noteq> path \<longrightarrow> q \<noteq> path @ ''.tmp'' \<longrightarrow> fw_files w' q = fw_files w q"
    "fw_files w' path = (case r of Inl e \<Rightarrow> fw_files w path | Inr u \<Rightarrow> Some data)"
proof -
  obtain r1 w1 where 1: "file_write fe (path @ ''.tmp'') data w = (r1, w1)" by fastforce
  obtain r2 w2 where 2: "syscall fe w1 = (r2, w2)" by fastforce
  obtain r3 w3 where 3: "syscall fe w2 = (r3, w3)" by fastforce
  obtain r4 w4 where 4: "file_rename fe (path @ ''.tmp'') path w3 = (r4, w4)" by fastforce
  note f = file_write_files[OF 1] syscall_files[OF 2] syscall_files[OF 3] file_rename_files[OF 4]
  consider e where "r1 = Inl e" "w' = w1" "r = Inl (ErrWrap ''write temp order state file: %w'' e)"
    | e where "r1 = Inr ()" "r2 = Inl e" "w' = w2" "r = Inl (ErrWrap ''sync temp order state file: %w'' e)"
    | e where "r1 = Inr ()" "r2 = Inr ()" "r3 = Inl e" "w' = w3" "r = Inl (ErrWrap ''close temp order state file: %w'' e)"
    | e where "r1 = Inr ()" "r2 = Inr ()" "r3 = Inr ()" "r4 = Inl e" "w' = w4" "r = Inl (ErrWrap ''replace order state file: %w'' e)"
    | "r1 = Inr ()" "r2 = Inr ()" "r3 = Inr ()" "r4 = Inr ()" "w' = w4" "r = Inr ()"
    using assms(1) 1 2 3 4
    by (cases r1; cases r2; cases r3; cases r4) (auto simp: replace_file_def ebind_def wrap_err_def)
  note cases = this
  show "\<forall>q. q \<noteq> path \<longrightarrow> q \<noteq> path @ ''.tmp'' \<longrightarrow> fw_files w' q = fw_files w q"
    using cases by cases (use f in auto)
  show "fw_files w' path = (case r of Inl e \<Rightarrow> fw_files w path | Inr u \<Rightarrow> Some data)"
    using cases by cases (use f assms(2) in auto)
qed

lemma save_states_files:
  assumes "save_states fe sj path xs w = (r, w')"
  shows "\<forall>q. q \<noteq> path \<longrightarrow> q \<noteq> path @ ''.tmp'' \<longrightarrow> fw_files w' q = fw_files w q"
    "case r of Inl e \<Rightarrow> fw_files w' path = fw_files w path
     | Inr u \<Rightarrow> \<exists>data. sj_marshal sj (text_states xs) = Inr data \<and> fw_files w' path = Some data"
proof -
  let ?tmp = "path @ ''.tmp''"
  obtain r1 w1 where 1: "syscall fe w = (r1, w1)" by fastforce
  note f1 = syscall_files[OF 1]
  have "(\<forall>q. q \<noteq> path \<longrightarrow> q \<noteq> ?tmp \<longrightarrow> fw_files w' q = fw_files w q) \<and>
    (case r of Inl e \<Rightarrow> fw_files w' path = fw_files w path
     | Inr u \<Rightarrow> \<exists>data. sj_marshal sj (text_states xs) = Inr data \<and> fw_files w' path = Some data)"
  proof (cases "\<exists>data. r1 = Inr () \<and> sj_marshal sj (text_states xs) = Inr data \<and> fe_fault fe (fw_tick w1) = None")
    case False
    then show ?thesis using assms 1 f1
      by (cases r1; cases "sj_marshal sj (text_states xs)")
         (auto simp: save_states_def file_truncate_def syscall_def ebind_def wrap_err_def split: option.splits)
  next
    case True
    then obtain data where d: "r1 = Inr ()" "sj_marshal sj (text_states xs) = Inr data" "fe_fault fe (fw_tick w1) = None" by blast
    define w2 where "w2 = w1\<lparr>fw_tick := Suc (fw_tick w1), fw_files := (fw_files w1)(?tmp \<mapsto> [])\<rparr>"
    obtain r3 w3 where 3: "replace_file fe path data w2 = (r3, w3)" by fastforce
    obtain r4 w4 where 4: "file_remove fe ?tmp w3 = (r4, w4)" by fastforce
    have "r = r3 \<and> w' = w4" using assms 1 d 3 4
      by (simp add: save_states_def file_truncate_def syscall_def ebind_def wrap_err_def w2_def)
    moreover have "fw_files w2 ?tmp = Some []" by (simp add: w2_def)
    note replace_file_files[OF 3 this]
    moreover note file_remove_files[OF 4]
    ultimately show ?thesis using f1 d(2) by (auto simp: w2_def split: sum.splits)
  qed
  then show "\<forall>q. q \<noteq> path \<longrightarrow> q \<noteq> ?tmp \<longrightarrow> fw_files w' q = fw_files w q"
    "case r of Inl e \<Rightarrow> fw_files w' path = fw_files w path
     | Inr u \<Rightarrow> \<exists>data. sj_marshal sj (text_states xs) = Inr data \<and> fw_files w' path = Some data" by blast+
qed

lemma written_file:
  assumes j: "states_json_ok sj nrm" and xs: "distinct (map fst xs)" "\<forall>i x. map_of xs i = Some x \<longrightarrow> in64 i"
    and d: "sj_marshal sj (text_states xs) = Inr data"
  shows "order_file_ok sj nrm (Some data)"
    "in64 i \<Longrightarrow> order_file_view sj (Some data) i = map_option (\<lambda>x. nrm (x\<lparr>os_order_id := i\<rparr>)) (map_of xs i)"
proof -
  have idem: "nrm (nrm x) = nrm x" "nrm (x\<lparr>os_order_id := k\<rparr>) = (nrm x)\<lparr>os_order_id := k\<rparr>" for x k
    using j unfolding states_json_ok_def by blast+
  have keys: "\<forall>t \<in> set (map fst (text_states xs)). \<exists>k. t = itoa k" using text_states_keys by blast
  obtain m' where m: "sj_unmarshal sj data = Inr m'" "distinct (map fst m')"
    "map_of m' = (\<lambda>t. map_option nrm (map_of (text_states xs) t))"
    using j distinct_text_states[OF xs(1)] keys d unfolding states_json_ok_def by blast
  have el: "nrm x = x \<and> (\<exists>k. t = itoa k \<and> in64 k)" if "(t, x) \<in> set m'" for t x
  proof -
    have "map_of m' t = Some x" using that m(2) by (rule map_of_is_SomeI[rotated])
    then obtain y where y: "map_of (text_states xs) t = Some y" "x = nrm y" using m(3) by auto
    then have "t \<in> set (map fst (text_states xs))" by (metis map_of_eq_None_iff option.distinct(1) list.set_map)
    then obtain k where k: "t = itoa k" using keys by blast
    then have "map_of xs k = Some y" using y(1) by (simp add: map_of_text_states)
    then show ?thesis using xs(2) k y(2) idem(1) by blast
  qed
  show "order_file_ok sj nrm (Some data)" using m el unfolding order_file_ok_def by blast
  show "in64 i \<Longrightarrow> order_file_view sj (Some data) i = map_option (\<lambda>x. nrm (x\<lparr>os_order_id := i\<rparr>)) (map_of xs i)"
    unfolding order_file_view_def using m(1,3) idem(2)
    by (auto simp: map_of_text_states option.map_comp comp_def)
qed

lemma load_states_no_fault:
  assumes "order_file_ok sj nrm (fw_files w path)" "\<forall>t. fe_fault fe t = None"
  shows "\<exists>xs w'. load_states fe sj path w = (Inr xs, w')"
proof -
  obtain w1 where 1: "file_open fe path w = (Inr (fw_files w path), w1)"
    using assms(2) by (simp add: file_open_def syscall_def ebind_def)
  obtain w2 where 2: "syscall fe w1 = (Inr (), w2)" using assms(2) by (simp add: syscall_def)
  show ?thesis
  proof (cases "fw_files w path")
    case (Some s)
    obtain m where m: "sj_unmarshal sj s = Inr m" "distinct (map fst m)"
      "\<forall>(t, x) \<in> set m. nrm x = x \<and> (\<exists>i. t = itoa i \<and> in64 i)"
      using assms(1)[unfolded order_file_ok_def, THEN spec, THEN mp, OF Some] by blast
    then show ?thesis using load_states_unfold[OF 1 2, of sj] Some parse_order_ids_ok[OF m(3,2)] by auto
  qed (simp add: load_states_unfold[OF 1 2])
qed

lemma save_states_no_fault:
  assumes f: "\<forall>t. fe_fault fe t = None" and j: "\<forall>m. \<exists>s. sj_marshal sj m = Inr s"
    and s: "save_states fe sj path xs w = (r, w')"
  shows "r = Inr () \<and> fw_files w' (path @ ''.tmp'') = None"
proof -
  obtain data where "sj_marshal sj (text_states xs) = Inr data" using j by blast
  then show ?thesis using s
    by (simp add: save_states_def replace_file_def file_truncate_def file_write_def file_rename_def file_remove_def
        syscall_def ebind_def wrap_err_def Let_def f)
       (elim conjE, hypsubst, simp)
qed

lemma view_fixed:
  assumes "states_json_ok sj nrm" "order_file_ok sj nrm f" "order_file_view sj f i = Some y"
  shows "nrm (y\<lparr>os_order_id := i\<rparr>) = y" "in64 i"
proof -
  obtain s m where m: "f = Some s" "sj_unmarshal sj s = Inr m" "in64 i" "map_option (\<lambda>x. x\<lparr>os_order_id := i\<rparr>) (map_of m (itoa i)) = Some y"
    using assms(3) by (auto simp: order_file_view_def split: option.splits sum.splits if_splits)
  then obtain x where x: "map_of m (itoa i) = Some x" "y = x\<lparr>os_order_id := i\<rparr>" by blast
  have "nrm x = x" using assms(2)[unfolded order_file_ok_def, THEN spec, THEN mp, OF m(1)] m(2) map_of_SomeD[OF x(1)] by fastforce
  then show "nrm (y\<lparr>os_order_id := i\<rparr>) = y" using assms(1) x(2) unfolding states_json_ok_def by simp
  show "in64 i" by (rule m(3))
qed

lemma order_file_load_view:
  assumes "order_file_ok sj nrm (fw_files w path)" "in64 i" "order_file_load fe sj path ctx i w = (Inr x, w')"
  shows "fw_files w' = fw_files w \<and> x = order_file_view sj (fw_files w path) i"
proof -
  obtain l w1 where l: "load_states fe sj path w = (l, w1)" by fastforce
  have c: "ctx = None" using assms(3) by (cases ctx) (simp_all add: order_file_load_def)
  obtain xs where xs: "l = Inr xs" "w' = w1" "x = map_of xs i"
    using assms(3) l c by (cases l) (simp_all add: order_file_load_def)
  have "map_of xs i = order_file_view sj (fw_files w path) i" using load_states_ok(2)[OF assms(1) l xs(1)] assms(2) by blast
  then show ?thesis using load_states_ok(1)[OF assms(1) l] xs by simp
qed

lemma save_written:
  assumes j: "states_json_ok sj nrm" and f: "order_file_ok sj nrm f" and i: "in64 (os_order_id x)"
    and xs: "distinct (map fst xs)" "\<forall>i x. map_of xs i = Some x \<longrightarrow> in64 i"
      "\<forall>i. in64 i \<longrightarrow> map_of xs i = order_file_view sj f i"
    and d: "sj_marshal sj (text_states (AList.update (os_order_id x) x xs)) = Inr data"
  shows "order_file_ok sj nrm (Some data)"
    "order_file_view sj (Some data) = (order_file_view sj f)(os_order_id x \<mapsto> nrm x)"
proof -
  let ?ys = "AList.update (os_order_id x) x xs"
  have at: "map_of ?ys k = (if k = os_order_id x then Some x else map_of xs k)" for k by (rule map_of_AList_update)
  have ys: "distinct (map fst ?ys)" by (rule distinct_update[OF xs(1)])
  have y64: "\<forall>k y. map_of ?ys k = Some y \<longrightarrow> in64 k" unfolding at using xs(2) i by metis
  note w = written_file[OF j ys y64 d]
  show "order_file_ok sj nrm (Some data)" by (rule w(1))
  show "order_file_view sj (Some data) = (order_file_view sj f)(os_order_id x \<mapsto> nrm x)"
  proof
    fix k
    consider "\<not> in64 k" | "k = os_order_id x" | "in64 k" "k \<noteq> os_order_id x" by blast
    then show "order_file_view sj (Some data) k = ((order_file_view sj f)(os_order_id x \<mapsto> nrm x)) k"
    proof cases
      case 1
      then have "order_file_view sj g k = None" for g by (simp add: order_file_view_def split: option.split sum.split)
      then show ?thesis using 1 i by auto
    next
      case 2
      then show ?thesis using w(2)[OF i] by (simp add: at)
    next
      case 3
      then have e: "order_file_view sj (Some data) k = map_option (\<lambda>x. nrm (x\<lparr>os_order_id := k\<rparr>)) (order_file_view sj f k)"
        using w(2)[of k] xs(3) by (simp add: at)
      have "map_option (\<lambda>x. nrm (x\<lparr>os_order_id := k\<rparr>)) (order_file_view sj f k) = order_file_view sj f k"
      proof (cases "order_file_view sj f k")
        case (Some y)
        then show ?thesis using view_fixed(1)[OF j f Some] by simp
      qed simp
      then show ?thesis using e 3(2) by simp
    qed
  qed
qed

text \<open>
  Property C32: whatever system calls fail, and however much of the data a failing write leaves behind,
  a save that reports success replaced the file by one that holds the new state beside the old ones, and
  one that reports an error left the file as it was; it touches no file but \<open>orders.json\<close> and its
  temporary file. Without faults it succeeds and the temporary file is gone.
\<close>

theorem order_file_save_atomic:
  assumes "states_json_ok sj nrm" "order_file_ok sj nrm (fw_files w path)" "in64 (os_order_id x)"
    "order_file_save fe sj path ctx x w = (r, w')"
  shows "order_file_ok sj nrm (fw_files w' path) \<and>
    (\<forall>q. q \<noteq> path \<longrightarrow> q \<noteq> path @ ''.tmp'' \<longrightarrow> fw_files w' q = fw_files w q) \<and>
    (case r of
       Inl e \<Rightarrow> fw_files w' path = fw_files w path
     | Inr u \<Rightarrow> 0 < os_order_id x \<and>
         order_file_view sj (fw_files w' path) = (order_file_view sj (fw_files w path))(os_order_id x \<mapsto> nrm x)) \<and>
    ((\<forall>t. fe_fault fe t = None) \<and> (\<forall>m. \<exists>s. sj_marshal sj m = Inr s) \<and> ctx = None \<and> 0 < os_order_id x \<longrightarrow>
       r = Inr () \<and> fw_files w' (path @ ''.tmp'') = None)"
proof (cases "ctx = None \<and> 0 < os_order_id x")
  case False
  then show ?thesis using assms(2,4) by (cases ctx) (auto simp: order_file_save_def)
next
  case True
  obtain l w1 where l: "load_states fe sj path w = (l, w1)" by fastforce
  note lo = load_states_ok[OF assms(2) l]
  show ?thesis
  proof (cases l)
    case (Inl e)
    have "\<exists>t. fe_fault fe t \<noteq> None"
      using load_states_no_fault[OF assms(2), of fe] l Inl by (metis Inl_Inr_False prod.inject)
    then show ?thesis using True assms(2,4) l Inl lo(1) by (auto simp: order_file_save_def)
  next
    case (Inr xs)
    note xs = lo(2)[OF Inr]
    let ?ys = "AList.update (os_order_id x) x xs"
    have s: "save_states fe sj path ?ys w1 = (r, w')" using True assms(4) l Inr by (simp add: order_file_save_def)
    note sf = save_states_files[OF s]
    have "order_file_ok sj nrm (fw_files w' path) \<and> (case r of
       Inl e \<Rightarrow> fw_files w' path = fw_files w path
     | Inr u \<Rightarrow> order_file_view sj (fw_files w' path) = (order_file_view sj (fw_files w path))(os_order_id x \<mapsto> nrm x))"
    proof (cases r)
      case (Inl e)
      then show ?thesis using sf(2) lo(1) assms(2) by simp
    next
      case (Inr u)
      then obtain data where d: "sj_marshal sj (text_states ?ys) = Inr data" "fw_files w' path = Some data" using sf(2) by auto
      show ?thesis using save_written[OF assms(1-3) _ _ _ d(1)] xs Inr d(2) by simp
    qed
    moreover have "r = Inr () \<and> fw_files w' (path @ ''.tmp'') = None"
      if "\<forall>t. fe_fault fe t = None" "\<forall>m. \<exists>s. sj_marshal sj m = Inr s"
      using save_states_no_fault[OF that s] .
    ultimately show ?thesis using True sf(1) lo(1) by (simp split: sum.splits)
  qed
qed

section \<open>Witness\<close>

fun enc_states :: "(string \<times> order_state) list \<Rightarrow> string" where
  "enc_states [] = []"
| "enc_states ((t, x) # m) = enc_str t @ enc_str (ref_order_enc x) @ enc_states m"

fun dec_states :: "nat \<Rightarrow> string \<Rightarrow> (string \<times> order_state) list" where
  "dec_states 0 s = []"
| "dec_states (Suc n) s =
     (if s = [] then []
      else case dec_str 0 s of
        None \<Rightarrow> []
      | Some (t, s1) \<Rightarrow> (case dec_str 0 s1 of
          None \<Rightarrow> []
        | Some (v, s2) \<Rightarrow> (case ref_order_dec v of Inl e \<Rightarrow> [] | Inr x \<Rightarrow> (t, x) # dec_states n s2)))"

definition ref_states_json :: states_json where
  "ref_states_json = \<lparr>sj_marshal = (\<lambda>m. Inr (enc_states m)), sj_unmarshal = (\<lambda>s. Inr (dec_states (length s) s))\<rparr>"

lemma enc_str_nonempty: "enc_str s \<noteq> []"
  by (cases s) simp_all

lemma dec_enc_states: "length (enc_states m) \<le> n \<Longrightarrow> dec_states n (enc_states m) = map (\<lambda>(t, x). (t, ref_order_nrm x)) m"
proof (induction m arbitrary: n)
  case Nil
  then show ?case by (cases n) simp_all
next
  case (Cons p m)
  obtain t x where p: "p = (t, x)" by fastforce
  have "1 \<le> length (enc_str t)" by (cases t) simp_all
  then obtain k where k: "n = Suc k" "length (enc_states m) \<le> k" using Cons.prems p by (cases n) auto
  have "ref_order_dec (ref_order_enc x) = Inr (ref_order_nrm x)" using ref_order_json_ok by (simp add: order_json_ok_def)
  then show ?case using Cons.IH[OF k(2)] k(1) p enc_str_nonempty by (simp add: dec_enc_str)
qed

lemma ref_states_json_ok: "states_json_ok ref_states_json ref_order_nrm"
proof -
  have "distinct (map fst (map (\<lambda>(t, x). (t, ref_order_nrm x)) m)) \<and>
    map_of (map (\<lambda>(t, x). (t, ref_order_nrm x)) m) = (\<lambda>t. map_option ref_order_nrm (map_of m t))"
    if "distinct (map fst m)" for m :: "(string \<times> order_state) list"
    using that by (auto simp: comp_def case_prod_unfold map_of_map[unfolded case_prod_unfold])
  then show ?thesis unfolding states_json_ok_def ref_states_json_def
    by (simp add: dec_enc_states) (simp add: ref_order_nrm_def)
qed

theorem order_file_save_atomic_witness:
  "\<exists>w'. order_file_save calm_files ref_states_json ''o'' None (zero_order\<lparr>os_order_id := 7, os_status := ''created''\<rparr>) no_files = (Inr (), w') \<and>
     map_option os_status (order_file_view ref_states_json (fw_files w' ''o'') 7) = Some ''created''"
proof -
  let ?x = "zero_order\<lparr>os_order_id := 7, os_status := ''created''\<rparr>"
  obtain r w' where s: "order_file_save calm_files ref_states_json ''o'' None ?x no_files = (r, w')" by fastforce
  have "order_file_ok ref_states_json ref_order_nrm (fw_files no_files ''o'')" by (simp add: order_file_ok_def no_files_def)
  moreover have "in64 (os_order_id ?x)" by (simp add: in64_def)
  moreover have "(\<forall>t. fe_fault calm_files t = None) \<and> (\<forall>m. \<exists>s. sj_marshal ref_states_json m = Inr s) \<and> 0 < os_order_id ?x"
    by (simp add: calm_fault ref_states_json_def)
  ultimately have "r = Inr ()" "order_file_view ref_states_json (fw_files w' ''o'') =
      (order_file_view ref_states_json (fw_files no_files ''o''))(os_order_id ?x \<mapsto> ref_order_nrm ?x)"
    using order_file_save_atomic[OF ref_states_json_ok _ _ s] by auto
  then show ?thesis using s by (simp add: ref_order_nrm_def)
qed

end
