(* ===== verification/Applier.thy ===== *)
theory Applier
  imports OrderStore EventLog
begin

text \<open>
  Applying order events (\<open>internal/applier\<close>): \<open>EventApplier\<close> over any order store, with the ownership
  fence, and \<open>PostgresApplier\<close>, which applies a batch of log records in one transaction together with
  its inbox entries, match requests and checkpoint.
\<close>

section \<open>The event applier\<close>

definition order_already_queued_or_finished :: "string \<Rightarrow> bool" where
  "order_already_queued_or_finished st \<longleftrightarrow>
     st = StatusSubmitted \<or> st = StatusMatchPending \<or> st = StatusMatched \<or> st = StatusMissed \<or> st = StatusCancelled"

definition prepare_order_state ::
  "'s order_ops option \<Rightarrow> event \<Rightarrow> int \<Rightarrow> ('s, order_state \<times> bool) eff" where
  "prepare_order_state store ev i =
     (let fresh = zero_order\<lparr>os_order_id := i, os_shard_id := ev_shard_id ev\<rparr>;
          stamp = (\<lambda>x. x\<lparr>os_last_event_id := ev_id ev, os_updated_at := ev_occurred_at ev\<rparr>)
      in case store of
           None \<Rightarrow> ret (stamp fresh, False)
         | Some ops \<Rightarrow> ebind (oo_load ops i) (\<lambda>loaded.
             case loaded of None \<Rightarrow> ret (stamp fresh, False) | Some x \<Rightarrow> ret (stamp x, True)))"

definition save_order_state :: "'s order_ops option \<Rightarrow> order_state \<Rightarrow> ('s, unit) eff" where
  "save_order_state store x = (case store of None \<Rightarrow> ret () | Some ops \<Rightarrow> oo_save ops x)"

definition apply_order_created :: "codec \<Rightarrow> 's order_ops option \<Rightarrow> event \<Rightarrow> ('s, unit) eff" where
  "apply_order_created cd store ev =
     ebind (lift_res (cd_created cd (ev_payload ev))) (\<lambda>p.
       ebind (prepare_order_state store ev (oc_order_id p)) (\<lambda>(x, found).
         if found \<and> order_already_queued_or_finished (os_status x) then ret ()
         else save_order_state store (x\<lparr>os_status := StatusCreated, os_x := oc_x p, os_y := oc_y p\<rparr>)))"

definition apply_order_cancelled :: "codec \<Rightarrow> 's order_ops option \<Rightarrow> event \<Rightarrow> ('s, unit) eff" where
  "apply_order_cancelled cd store ev =
     ebind (lift_res (cd_cancelled cd (ev_payload ev))) (\<lambda>p.
       ebind (prepare_order_state store ev (ocl_order_id p)) (\<lambda>(x, found).
         save_order_state store (x\<lparr>os_status := StatusCancelled, os_cancel_reason := ocl_reason p\<rparr>)))"

definition apply_order_retry_request :: "codec \<Rightarrow> 's order_ops option \<Rightarrow> event \<Rightarrow> ('s, unit) eff" where
  "apply_order_retry_request cd store ev =
     ebind (lift_res (cd_retry cd (ev_payload ev))) (\<lambda>p.
       ebind (prepare_order_state store ev (orr_order_id p)) (\<lambda>(x, found).
         if \<not> found then throw (ErrMsg ''retry order %d before creation'' [FInt (orr_order_id p)])
         else if os_status x = StatusCancelled \<or> os_status x = StatusMatched then ret ()
         else save_order_state store (x\<lparr>os_status := StatusRetryRequested, os_attempt := orr_attempt p,
                os_retry_reason := orr_reason p\<rparr>)))"

definition apply_order_matched :: "codec \<Rightarrow> 's order_ops option \<Rightarrow> event \<Rightarrow> ('s, unit) eff" where
  "apply_order_matched cd store ev =
     ebind (lift_res (cd_matched cd (ev_payload ev))) (\<lambda>p.
       ebind (prepare_order_state store ev (om_order_id p)) (\<lambda>(x, found).
         save_order_state store (x\<lparr>os_status := StatusMatched, os_rider_id := om_rider_id p, os_score := om_score p\<rparr>)))"

definition apply_order_missed :: "codec \<Rightarrow> 's order_ops option \<Rightarrow> event \<Rightarrow> ('s, unit) eff" where
  "apply_order_missed cd store ev =
     ebind (lift_res (cd_missed cd (ev_payload ev))) (\<lambda>p.
       ebind (prepare_order_state store ev (oms_order_id p)) (\<lambda>(x, found).
         if os_status x = StatusMatched \<or> os_status x = StatusCancelled then ret ()
         else save_order_state store (x\<lparr>os_status := StatusMissed, os_miss_reason := oms_reason p\<rparr>)))"

definition apply_event :: "codec \<Rightarrow> 's order_ops option \<Rightarrow> event \<Rightarrow> ('s, unit) eff" where
  "apply_event cd store ev =
     (if ev_type ev = EventOrderCreated then apply_order_created cd store ev
      else if ev_type ev = EventOrderCancelled then apply_order_cancelled cd store ev
      else if ev_type ev = EventOrderRetryRequest then apply_order_retry_request cd store ev
      else if ev_type ev = EventOrderMatched then apply_order_matched cd store ev
      else if ev_type ev = EventOrderMissed then apply_order_missed cd store ev
      else throw (ErrMsg ''unsupported event type: %s'' [FStr (ev_type ev)]))"

text \<open>The fence: no reader means no check.\<close>

definition check_fence ::
  "int \<Rightarrow> (int \<Rightarrow> ('s, ownership option) eff) option \<Rightarrow> event \<Rightarrow> ownership \<Rightarrow> ('s, unit) eff" where
  "check_fence node reader ev own =
     (case reader of
        None \<Rightarrow> ret ()
      | Some owner \<Rightarrow>
          if node \<noteq> 0 \<and> ow_node_id own \<noteq> node then throw ErrOwnershipFenceLost
          else if ev_shard_id ev \<noteq> ow_shard_id own
          then throw (ErrMsg ''event shard %d does not match ownership shard %d'' [FInt (ev_shard_id ev), FInt (ow_shard_id own)])
          else ebind (owner (ow_shard_id own)) (\<lambda>current.
            case current of
              None \<Rightarrow> throw ErrOwnershipFenceLost
            | Some c \<Rightarrow> if ow_node_id c \<noteq> ow_node_id own \<or> ow_epoch c \<noteq> ow_epoch own
                        then throw ErrOwnershipFenceLost else ret ()))"

definition apply_with_fence ::
  "codec \<Rightarrow> int \<Rightarrow> (int \<Rightarrow> ('s, ownership option) eff) option \<Rightarrow> 's order_ops option \<Rightarrow> event \<Rightarrow> ownership \<Rightarrow> ('s, unit) eff" where
  "apply_with_fence cd node reader store ev own =
     ebind (check_fence node reader ev own) (\<lambda>_.
       ebind (apply_event cd store ev) (\<lambda>_. check_fence node reader ev own))"

section \<open>The transition an event stands for\<close>

text \<open>
  The abstract contract: an event decodes to a message about one order, and the message determines
  what becomes of the order's state, or that nothing does, or that the event is refused.
\<close>

datatype order_msg =
    MCreated order_created
  | MCancelled order_cancelled
  | MRetry order_retry_request
  | MMatched order_matched
  | MMissed order_missed

definition decode_msg :: "codec \<Rightarrow> event \<Rightarrow> go_error + order_msg" where
  "decode_msg cd ev =
     (let p = ev_payload ev; t = ev_type ev
      in if t = EventOrderCreated then map_sum id MCreated (cd_created cd p)
         else if t = EventOrderCancelled then map_sum id MCancelled (cd_cancelled cd p)
         else if t = EventOrderRetryRequest then map_sum id MRetry (cd_retry cd p)
         else if t = EventOrderMatched then map_sum id MMatched (cd_matched cd p)
         else if t = EventOrderMissed then map_sum id MMissed (cd_missed cd p)
         else Inl (ErrMsg ''unsupported event type: %s'' [FStr t]))"

fun msg_order_id :: "order_msg \<Rightarrow> int" where
  "msg_order_id (MCreated p) = oc_order_id p"
| "msg_order_id (MCancelled p) = ocl_order_id p"
| "msg_order_id (MRetry p) = orr_order_id p"
| "msg_order_id (MMatched p) = om_order_id p"
| "msg_order_id (MMissed p) = oms_order_id p"

definition stamped :: "event \<Rightarrow> int \<Rightarrow> order_state option \<Rightarrow> order_state" where
  "stamped ev i cur =
     (case cur of None \<Rightarrow> zero_order\<lparr>os_order_id := i, os_shard_id := ev_shard_id ev\<rparr> | Some x \<Rightarrow> x)
       \<lparr>os_last_event_id := ev_id ev, os_updated_at := ev_occurred_at ev\<rparr>"

definition cur_status :: "order_state option \<Rightarrow> string" where
  "cur_status cur = (case cur of None \<Rightarrow> [] | Some x \<Rightarrow> os_status x)"

fun order_next :: "event \<Rightarrow> order_msg \<Rightarrow> order_state option \<Rightarrow> go_error + order_state option" where
  "order_next ev (MCreated p) cur =
     Inr (if cur_status cur \<in> {StatusSubmitted, StatusMatchPending, StatusMatched, StatusMissed, StatusCancelled} then None
          else Some ((stamped ev (oc_order_id p) cur)\<lparr>os_status := StatusCreated, os_x := oc_x p, os_y := oc_y p\<rparr>))"
| "order_next ev (MCancelled p) cur =
     Inr (Some ((stamped ev (ocl_order_id p) cur)\<lparr>os_status := StatusCancelled, os_cancel_reason := ocl_reason p\<rparr>))"
| "order_next ev (MRetry p) cur =
     (if cur = None then Inl (ErrMsg ''retry order %d before creation'' [FInt (orr_order_id p)])
      else Inr (if cur_status cur \<in> {StatusCancelled, StatusMatched} then None
                else Some ((stamped ev (orr_order_id p) cur)\<lparr>os_status := StatusRetryRequested,
                       os_attempt := orr_attempt p, os_retry_reason := orr_reason p\<rparr>)))"
| "order_next ev (MMatched p) cur =
     Inr (Some ((stamped ev (om_order_id p) cur)\<lparr>os_status := StatusMatched, os_rider_id := om_rider_id p, os_score := om_score p\<rparr>))"
| "order_next ev (MMissed p) cur =
     Inr (if cur_status cur \<in> {StatusMatched, StatusCancelled} then None
          else Some ((stamped ev (oms_order_id p) cur)\<lparr>os_status := StatusMissed, os_miss_reason := oms_reason p\<rparr>))"

definition transition_eff :: "codec \<Rightarrow> 's order_ops \<Rightarrow> event \<Rightarrow> ('s, unit) eff" where
  "transition_eff cd ops ev =
     ebind (lift_res (decode_msg cd ev)) (\<lambda>m.
       ebind (oo_load ops (msg_order_id m)) (\<lambda>cur.
         ebind (lift_res (order_next ev m cur)) (\<lambda>next.
           case next of None \<Rightarrow> ret () | Some x \<Rightarrow> oo_save ops x)))"

lemma status_distinct [simp]:
  "StatusCreated \<noteq> []" "StatusMatched \<noteq> []" "StatusMissed \<noteq> []" "StatusCancelled \<noteq> []" "StatusSubmitted \<noteq> []"
  "StatusMatchPending \<noteq> []" "StatusRetryRequested \<noteq> []"
  by (simp_all add: status_defs)

lemma lift_res_map_sum: "ebind (lift_res (map_sum id f r)) g = ebind (lift_res r) (\<lambda>x. g (f x))"
  by (cases r) (simp_all add: ebind_def lift_res_def fun_eq_iff)

lemma ebind_lift_Inr [simp]: "ebind (lift_res (Inr x)) f = f x"
  by (simp add: ebind_def lift_res_def)

lemma ebind_lift_Inl [simp]: "ebind (lift_res (Inl e)) f = throw e"
  by (simp add: ebind_def lift_res_def throw_def)

lemma prepare_spec:
  "ebind (prepare_order_state (Some ops) ev i) f =
   ebind (oo_load ops i) (\<lambda>cur. f (stamped ev i cur, cur \<noteq> None))"
  unfolding prepare_order_state_def Let_def option.case ebind_assoc
  by (rule arg_cong[where f = "ebind (oo_load ops i)"])
     (auto simp: stamped_def fun_eq_iff split: option.splits)

lemma stamped_status [simp]: "os_status (stamped ev i cur) = cur_status cur"
  by (simp add: stamped_def cur_status_def zero_order_def split: option.splits)

lemma ebind_cong: "(\<And>x. f x = g x) \<Longrightarrow> ebind m f = ebind m g"
  by presburger

lemma lift_load_cong:
  "(\<And>p cur. f p cur = g p cur) \<Longrightarrow>
   ebind (lift_res r) (\<lambda>p. ebind (oo_load ops (k p)) (f p)) = ebind (lift_res r) (\<lambda>p. ebind (oo_load ops (k p)) (g p))"
  by (intro ebind_cong) simp

lemmas apply_defs = apply_order_created_def apply_order_cancelled_def apply_order_retry_request_def
  apply_order_matched_def apply_order_missed_def

text \<open>The applier is the load, the transition and the save.\<close>

lemma apply_event_transition: "apply_event cd (Some ops) ev = transition_eff cd ops ev"
  unfolding apply_event_def transition_eff_def decode_msg_def Let_def if_distrib[of "\<lambda>r. ebind (lift_res r) f" for f]
    lift_res_map_sum apply_defs prepare_spec ebind_lift_Inl prod.case msg_order_id.simps
  by (intro if_cong refl lift_load_cong)
     (auto simp: save_order_state_def order_already_queued_or_finished_def cur_status_def
        status_distinct[symmetric] split: option.split)

section \<open>The Postgres applier\<close>

text \<open>The checks on a batch, from a record at an index on, with the offset before it.\<close>

fun validate_from :: "ownership \<Rightarrow> int \<Rightarrow> int option \<Rightarrow> log_record list \<Rightarrow> go_error + unit" where
  "validate_from own idx before [] = Inr ()"
| "validate_from own idx before (r # rs) =
     (if ev_id (lr_event r) = [] then Inl (ErrMsg ''record %d event id is required'' [FInt idx])
      else if ps_shard_id (lr_position r) \<noteq> ow_shard_id own \<or> ev_shard_id (lr_event r) \<noteq> ow_shard_id own
      then Inl (ErrMsg ''record %d shard does not match ownership shard %d'' [FInt idx, FInt (ow_shard_id own)])
      else if (case before of None \<Rightarrow> False | Some o1 \<Rightarrow> ps_offset (lr_position r) \<noteq> wrap64 (o1 + 1))
      then Inl (ErrMsg ''record offsets are not consecutive at index %d'' [FInt idx])
      else validate_from own (idx + 1) (Some (ps_offset (lr_position r))) rs)"

definition validate_record_batch :: "log_record list \<Rightarrow> ownership \<Rightarrow> go_error + unit" where
  "validate_record_batch rs own =
     (if rs = [] then Inl (ErrMsg ''record batch is empty'' []) else validate_from own 0 None rs)"

definition queues_match_request :: "string \<Rightarrow> bool" where
  "queues_match_request t \<longleftrightarrow> t = EventOrderCreated \<or> t = EventOrderRetryRequest"

definition match_request_identity :: "codec \<Rightarrow> event \<Rightarrow> go_error + int \<times> int" where
  "match_request_identity cd ev =
     (if ev_type ev = EventOrderCreated
      then (case cd_created cd (ev_payload ev) of Inl e \<Rightarrow> Inl e | Inr p \<Rightarrow> Inr (oc_order_id p, 0))
      else if ev_type ev = EventOrderRetryRequest
      then (case cd_retry cd (ev_payload ev) of Inl e \<Rightarrow> Inl e | Inr p \<Rightarrow> Inr (orr_order_id p, orr_attempt p))
      else Inl (ErrMsg ''event %s cannot create a match request'' [FStr (ev_type ev)]))"

definition outbox_of_event :: "event \<Rightarrow> string \<Rightarrow> outbox_row" where
  "outbox_of_event ev topic =
     \<lparr>ob_event_id = ev_id ev, ob_event_type = ev_type ev, ob_aggregate_type = ev_aggregate_type ev,
      ob_aggregate_id = ev_aggregate_id ev, ob_shard_id = wrap32 (ev_shard_id ev),
      ob_occurred_at = ev_occurred_at ev, ob_payload = ev_payload ev, ob_published_at = None,
      ob_topic = topic, ob_message_key = ev_aggregate_id ev, ob_claimed_by = [], ob_claimed_until = 0,
      ob_attempts = 0, ob_last_error = []\<rparr>"

definition match_request_event :: "event \<Rightarrow> int \<Rightarrow> string \<Rightarrow> event" where
  "match_request_event source i payload =
     \<lparr>ev_id = ev_id source @ ''-match-requested'', ev_type = EventMatchRequested, ev_aggregate_type = ''order'',
      ev_aggregate_id = itoa i, ev_shard_id = ev_shard_id source, ev_occurred_at = ev_occurred_at source,
      ev_payload = payload\<rparr>"

definition queue_match_request :: "env \<Rightarrow> codec \<Rightarrow> event \<Rightarrow> (world, unit) eff" where
  "queue_match_request en cd source =
     ebind (lift_res (match_request_identity cd source)) (\<lambda>(i, attempt).
       ebind (postgres_load en i) (\<lambda>loaded.
         case loaded of
           None \<Rightarrow> throw (ErrMsg ''match request order %d not found'' [FInt i])
         | Some x \<Rightarrow>
             ebind (postgres_save en (x\<lparr>os_status := StatusMatchPending\<rparr>)) (\<lambda>_.
               ebind (wrap_err ''encode match request: %w'' (lift_res (cd_enc_match_requested cd
                   \<lparr>mr_order_id = i, mr_x = os_x x, mr_y = os_y x, mr_attempt = attempt\<rparr>))) (\<lambda>payload.
                 in_tx en (create_outbox_event (outbox_of_event (match_request_event source i payload) TopicMatchRequests))))))"

definition inbox_of_record :: "log_record \<Rightarrow> inbox_row" where
  "inbox_of_record r = \<lparr>ib_shard_id = wrap32 (ps_shard_id (lr_position r)), ib_offset_value = ps_offset (lr_position r),
     ib_processed_at = ev_occurred_at (lr_event r)\<rparr>"

definition apply_record_in_transaction :: "env \<Rightarrow> codec \<Rightarrow> log_record \<Rightarrow> (world, unit) eff" where
  "apply_record_in_transaction en cd r =
     ebind (wrap_err ''record inbox event: %w''
             (in_tx en (record_inbox_event ConsumerOrderWorker (ev_id (lr_event r)) (inbox_of_record r)))) (\<lambda>inserted.
       if inserted > 0
       then ebind (apply_event cd (Some (postgres_ops en)) (lr_event r)) (\<lambda>_.
              if queues_match_request (ev_type (lr_event r)) then queue_match_request en cd (lr_event r) else ret ())
       else ret ())"

definition batch_checkpoint :: "int \<Rightarrow> log_record list \<Rightarrow> ownership \<Rightarrow> unit stmt" where
  "batch_checkpoint node rs own =
     (let l = last rs
      in upsert_shard_checkpoint ConsumerOrderWorker TopicOrderEvents (wrap32 (ps_shard_id (lr_position l)))
           \<lparr>cr_offset_value = wrap64 (ps_offset (lr_position l) + 1), cr_epoch = ow_epoch own,
            cr_node_id = wrap32 node, cr_updated_at = ev_occurred_at (lr_event l)\<rparr>)"

text \<open>\<open>base\<close> is the node id of the wrapped applier, \<open>node\<close> that of the Postgres applier.\<close>

definition apply_records_with_fence ::
  "env \<Rightarrow> codec \<Rightarrow> int \<Rightarrow> (int \<Rightarrow> (world, ownership option) eff) option \<Rightarrow> int \<Rightarrow>
   log_record list \<Rightarrow> ownership \<Rightarrow> (world, unit) eff" where
  "apply_records_with_fence en cd base reader node rs own =
     ebind (lift_res (validate_record_batch rs own)) (\<lambda>_.
       ebind (check_fence base reader (lr_event (hd rs)) own) (\<lambda>_.
         ebind (wrap_err ''begin event transaction: %w'' (begin_tx en)) (\<lambda>_.
           ebind (efor rs (apply_record_in_transaction en cd)) (\<lambda>_.
             ebind (check_fence base reader (lr_event (last rs)) own) (\<lambda>_.
               ebind (wrap_err ''save shard checkpoint: %w'' (in_tx en (batch_checkpoint node rs own))) (\<lambda>_.
                 wrap_err ''commit event transaction: %w'' (commit_tx en)))))))"

definition apply_record_with_fence ::
  "env \<Rightarrow> codec \<Rightarrow> int \<Rightarrow> (int \<Rightarrow> (world, ownership option) eff) option \<Rightarrow> int \<Rightarrow>
   log_record \<Rightarrow> ownership \<Rightarrow> (world, unit) eff" where
  "apply_record_with_fence en cd base reader node r own = apply_records_with_fence en cd base reader node [r] own"

section \<open>What a batch does to the tables\<close>

text \<open>The same work as a function on the tables, without an environment.\<close>

definition put_order :: "order_state \<Rightarrow> database \<Rightarrow> database" where
  "put_order x db = db\<lparr>tb_orders := (tb_orders db)(os_order_id x \<mapsto> row_of_state x)\<rparr>"

definition event_db :: "codec \<Rightarrow> event \<Rightarrow> database \<Rightarrow> go_error + database" where
  "event_db cd ev db =
     (case decode_msg cd ev of
        Inl e \<Rightarrow> Inl e
      | Inr m \<Rightarrow> (case order_next ev m (order_view db (msg_order_id m)) of
                     Inl e \<Rightarrow> Inl e
                   | Inr None \<Rightarrow> Inr db
                   | Inr (Some x) \<Rightarrow> Inr (put_order x db)))"

definition queue_db :: "codec \<Rightarrow> event \<Rightarrow> database \<Rightarrow> go_error + database" where
  "queue_db cd ev db =
     (case match_request_identity cd ev of
        Inl e \<Rightarrow> Inl e
      | Inr (i, attempt) \<Rightarrow>
          (case order_view db i of
             None \<Rightarrow> Inl (ErrMsg ''match request order %d not found'' [FInt i])
           | Some x \<Rightarrow>
               (case cd_enc_match_requested cd \<lparr>mr_order_id = i, mr_x = os_x x, mr_y = os_y x, mr_attempt = attempt\<rparr> of
                  Inl e \<Rightarrow> Inl (ErrWrap ''encode match request: %w'' e)
                | Inr payload \<Rightarrow> Inr (snd (create_outbox_event
                    (outbox_of_event (match_request_event ev i payload) TopicMatchRequests)
                    (put_order (x\<lparr>os_status := StatusMatchPending\<rparr>) db))))))"

definition record_db :: "codec \<Rightarrow> log_record \<Rightarrow> database \<Rightarrow> go_error + database" where
  "record_db cd r db =
     (if tb_inbox db (ConsumerOrderWorker, ev_id (lr_event r)) \<noteq> None then Inr db
      else case event_db cd (lr_event r) (snd (record_inbox_event ConsumerOrderWorker (ev_id (lr_event r)) (inbox_of_record r) db)) of
             Inl e \<Rightarrow> Inl e
           | Inr db1 \<Rightarrow> if queues_match_request (ev_type (lr_event r)) then queue_db cd (lr_event r) db1 else Inr db1)"

fun records_db :: "codec \<Rightarrow> log_record list \<Rightarrow> database \<Rightarrow> go_error + database" where
  "records_db cd [] db = Inr db"
| "records_db cd (r # rs) db = (case record_db cd r db of Inl e \<Rightarrow> Inl e | Inr db1 \<Rightarrow> records_db cd rs db1)"

definition batch_db :: "codec \<Rightarrow> int \<Rightarrow> log_record list \<Rightarrow> ownership \<Rightarrow> database \<Rightarrow> go_error + database" where
  "batch_db cd node rs own db =
     (case records_db cd rs db of Inl e \<Rightarrow> Inl e | Inr db1 \<Rightarrow> Inr (snd (batch_checkpoint node rs own db1)))"

text \<open>
  \<open>runs m f\<close>: the steps \<open>m\<close> leave the committed tables alone, and when they report no error they
  have done to the transaction's tables what \<open>f\<close> does.
\<close>

definition runs :: "(world, 'a) eff \<Rightarrow> (database \<Rightarrow> go_error + 'a \<times> database) \<Rightarrow> bool" where
  "runs m f \<longleftrightarrow> (\<forall>w r w'. m w = (r, w') \<longrightarrow> w_db w' = w_db w \<and> (\<forall>x. r = Inr x \<longrightarrow> f (w_tx w) = Inr (x, w_tx w')))"

lemma runsD: "runs m f \<Longrightarrow> m w = (r, w') \<Longrightarrow> w_db w' = w_db w"
  "runs m f \<Longrightarrow> m w = (Inr x, w') \<Longrightarrow> f (w_tx w) = Inr (x, w_tx w')"
  by (auto simp: runs_def)

lemma runs_ret: "runs (ret x) (\<lambda>db. Inr (x, db))"
  by (simp add: runs_def)

lemma runs_throw: "runs (throw e) f"
  by (simp add: runs_def)

lemma runs_lift: "runs (lift_res r) (\<lambda>db. case r of Inl e \<Rightarrow> Inl e | Inr x \<Rightarrow> Inr (x, db))"
  by (simp add: runs_def)

lemma runs_wrap: "runs m f \<Longrightarrow> runs (wrap_err msg m) f"
  by (auto simp: runs_def wrap_err_def split: prod.splits sum.splits)

lemma runs_bind:
  assumes "runs m f" "\<And>x. runs (m' x) (f' x)"
  shows "runs (ebind m m') (\<lambda>db. case f db of Inl e \<Rightarrow> Inl e | Inr (x, db1) \<Rightarrow> f' x db1)"
  unfolding runs_def
proof (intro allI impI conjI)
  fix w r w' assume e: "ebind m m' w = (r, w')"
  obtain r1 w1 where 1: "m w = (r1, w1)" by fastforce
  note F = runsD(1)[OF assms(1) 1]
  show "w_db w' = w_db w"
    using e 1 F runsD(1)[OF assms(2)] by (cases r1) auto
  fix x assume x: "r = Inr x"
  then obtain y where y: "r1 = Inr y" using e 1 by (cases r1) auto
  then have "m' y w1 = (Inr x, w')" using e 1 x by simp
  then have "f' y (w_tx w1) = Inr (x, w_tx w')" by (rule runsD(2)[OF assms(2)])
  moreover have "f (w_tx w) = Inr (y, w_tx w1)" using runsD(2)[OF assms(1)] 1 y by blast
  ultimately show "(case f (w_tx w) of Inl e \<Rightarrow> Inl e | Inr (x, db1) \<Rightarrow> f' x db1) = Inr (x, w_tx w')" by simp
qed

lemma runs_cong: "runs m f \<Longrightarrow> (\<And>db x db'. f db = Inr (x, db') \<Longrightarrow> g db = Inr (x, db')) \<Longrightarrow> runs m g"
  by (simp add: runs_def)

lemma runs_stmt: "runs (in_tx en q) (\<lambda>db. case q db of (Inl e, _) \<Rightarrow> Inl e | (Inr x, db') \<Rightarrow> Inr (x, db'))"
  unfolding runs_def
proof (intro allI impI conjI)
  fix w r w' assume e: "in_tx en q w = (r, w')"
  then show "w_db w' = w_db w" by (rule in_tx_db)
  fix x assume "r = Inr x"
  then show "(case q (w_tx w) of (Inl e, _) \<Rightarrow> Inl e | (Inr x, db') \<Rightarrow> Inr (x, db')) = Inr (x, w_tx w')"
    using in_tx_ok[of en q w x w'] e by simp
qed

lemma runs_load:
  assumes "honest en"
  shows "runs (postgres_load en i) (\<lambda>db. Inr (order_view db i, db))"
  using postgres_load_cases[OF assms] unfolding runs_def by auto

lemma runs_save: "runs (postgres_save en x) (\<lambda>db. Inr ((), put_order x db))"
  using postgres_save_cases[of en x] unfolding runs_def put_order_def by auto

definition unit_db :: "(database \<Rightarrow> go_error + database) \<Rightarrow> database \<Rightarrow> go_error + unit \<times> database" where
  "unit_db f db = (case f db of Inl e \<Rightarrow> Inl e | Inr db' \<Rightarrow> Inr ((), db'))"

lemma unit_db_Inr [simp]: "unit_db f db = Inr (u, db') \<longleftrightarrow> f db = Inr db'"
  by (auto simp: unit_db_def split: sum.splits)

lemma runs_apply_event:
  assumes h: "honest en"
  shows "runs (apply_event cd (Some (postgres_ops en)) ev) (unit_db (event_db cd ev))"
proof -
  have save: "runs (case next of None \<Rightarrow> ret () | Some x \<Rightarrow> oo_save (postgres_ops en) x)
      (\<lambda>db. case next of None \<Rightarrow> Inr ((), db) | Some x \<Rightarrow> Inr ((), put_order x db))" for "next"
    by (cases "next") (simp_all add: postgres_ops_def runs_ret runs_save)
  have load: "runs (oo_load (postgres_ops en) i) (\<lambda>db. Inr (order_view db i, db))" for i
    using runs_load[OF h] by (simp add: postgres_ops_def)
  show ?thesis
    unfolding apply_event_transition transition_eff_def
    by (rule runs_cong[OF runs_bind[OF runs_lift runs_bind[OF load runs_bind[OF runs_lift save]]]])
       (auto simp: event_db_def split: sum.splits option.splits)
qed

lemma runs_case_prod: "(\<And>a b. runs (m a b) (f a b)) \<Longrightarrow> runs (case p of (a, b) \<Rightarrow> m a b) (case p of (a, b) \<Rightarrow> f a b)"
  by (cases p) simp

lemma create_outbox_Inr: "fst (create_outbox_event r db) = Inr ()"
  by (simp add: create_outbox_event_def)

lemma runs_outbox: "runs (in_tx en (create_outbox_event r)) (\<lambda>db. Inr ((), snd (create_outbox_event r db)))"
  by (rule runs_cong[OF runs_stmt]) (auto simp: create_outbox_event_def split: if_splits)

lemma runs_queue:
  assumes h: "honest en"
  shows "runs (queue_match_request en cd ev) (unit_db (queue_db cd ev))"
proof -
  let ?payload = "\<lambda>i attempt x. cd_enc_match_requested cd \<lparr>mr_order_id = i, mr_x = os_x x, mr_y = os_y x, mr_attempt = attempt\<rparr>"
  let ?row = "\<lambda>i p. outbox_of_event (match_request_event ev i p) TopicMatchRequests"
  have some: "runs (ebind (postgres_save en (x\<lparr>os_status := StatusMatchPending\<rparr>)) (\<lambda>_.
               ebind (wrap_err ''encode match request: %w'' (lift_res (?payload i attempt x))) (\<lambda>payload.
                 in_tx en (create_outbox_event (?row i payload)))))
       (\<lambda>db. case ?payload i attempt x of Inl e \<Rightarrow> Inl e
             | Inr p \<Rightarrow> Inr ((), snd (create_outbox_event (?row i p) (put_order (x\<lparr>os_status := StatusMatchPending\<rparr>) db))))"
    for i attempt x
    by (rule runs_cong[OF runs_bind[OF runs_save runs_bind[OF runs_wrap[OF runs_lift] runs_outbox]]])
       (auto split: sum.splits)
  have loaded: "runs (case loaded of None \<Rightarrow> throw (ErrMsg ''match request order %d not found'' [FInt i])
         | Some x \<Rightarrow> ebind (postgres_save en (x\<lparr>os_status := StatusMatchPending\<rparr>)) (\<lambda>_.
               ebind (wrap_err ''encode match request: %w'' (lift_res (?payload i attempt x))) (\<lambda>payload.
                 in_tx en (create_outbox_event (?row i payload)))))
       (\<lambda>db. case loaded of None \<Rightarrow> Inl ErrNoRows | Some x \<Rightarrow>
          (case ?payload i attempt x of Inl e \<Rightarrow> Inl e
             | Inr p \<Rightarrow> Inr ((), snd (create_outbox_event (?row i p) (put_order (x\<lparr>os_status := StatusMatchPending\<rparr>) db)))))"
    for loaded i attempt
    using some by (cases loaded) (simp_all add: runs_throw)
  show ?thesis
    unfolding queue_match_request_def
    by (rule runs_cong[OF runs_bind[OF runs_lift runs_case_prod[OF runs_bind[OF runs_load[OF h] loaded]]]])
       (auto simp: queue_db_def split: sum.splits option.splits prod.splits)
qed

lemma runs_record:
  assumes h: "honest en"
  shows "runs (apply_record_in_transaction en cd r) (unit_db (record_db cd r))"
proof -
  have inbox: "runs (wrap_err ''record inbox event: %w''
             (in_tx en (record_inbox_event ConsumerOrderWorker (ev_id (lr_event r)) (inbox_of_record r))))
       (\<lambda>db. Inr (if tb_inbox db (ConsumerOrderWorker, ev_id (lr_event r)) = None then 1 else 0,
                 snd (record_inbox_event ConsumerOrderWorker (ev_id (lr_event r)) (inbox_of_record r) db)))"
    by (rule runs_wrap, rule runs_cong[OF runs_stmt]) (auto simp: record_inbox_event_def split: if_splits)
  have after: "runs (if queues_match_request (ev_type (lr_event r)) then queue_match_request en cd (lr_event r) else ret ())
       (\<lambda>db. if queues_match_request (ev_type (lr_event r)) then unit_db (queue_db cd (lr_event r)) db else Inr ((), db))"
    using runs_queue[OF h] by (simp add: runs_ret)
  have rest: "runs (if (n::int) > 0
       then ebind (apply_event cd (Some (postgres_ops en)) (lr_event r)) (\<lambda>_.
              if queues_match_request (ev_type (lr_event r)) then queue_match_request en cd (lr_event r) else ret ())
       else ret ())
       (\<lambda>db. if n > 0 then (case unit_db (event_db cd (lr_event r)) db of Inl e \<Rightarrow> Inl e
          | Inr (x, db1) \<Rightarrow> if queues_match_request (ev_type (lr_event r)) then unit_db (queue_db cd (lr_event r)) db1 else Inr ((), db1))
        else Inr ((), db))" for n
    using runs_bind[OF runs_apply_event[OF h] after] by (simp add: runs_ret)
  show ?thesis
    unfolding apply_record_in_transaction_def
    by (rule runs_cong[OF runs_bind[OF inbox rest]])
       (auto simp: record_db_def unit_db_def record_inbox_event_def split: sum.splits if_splits)
qed

lemma runs_records:
  assumes h: "honest en"
  shows "runs (efor rs (apply_record_in_transaction en cd)) (unit_db (records_db cd rs))"
proof (induction rs)
  case Nil
  show ?case unfolding efor.simps by (rule runs_cong[OF runs_ret]) simp
next
  case (Cons r rs)
  show ?case unfolding efor.simps
    by (rule runs_cong[OF runs_bind[OF runs_record[OF h] Cons.IH]]) (auto simp: unit_db_def split: sum.splits)
qed

lemma batch_checkpoint_Inr: "fst (batch_checkpoint node rs own db) = Inr ()"
  by (auto simp: batch_checkpoint_def upsert_shard_checkpoint_def Let_def split: option.split)

lemma runs_checkpoint: "runs (in_tx en (batch_checkpoint node rs own)) (\<lambda>db. Inr ((), snd (batch_checkpoint node rs own db)))"
  by (rule runs_cong[OF runs_stmt]) (use batch_checkpoint_Inr[of node rs own] in \<open>force split: prod.splits sum.splits\<close>)

text \<open>A fence whose owner calls touch no tables.\<close>

definition quiet_reader :: "(int \<Rightarrow> (world, ownership option) eff) option \<Rightarrow> bool" where
  "quiet_reader reader \<longleftrightarrow> (\<forall>owner k w. reader = Some owner \<longrightarrow> w_db (snd (owner k w)) = w_db w \<and> w_tx (snd (owner k w)) = w_tx w)"

lemma quiet_owner_of: "quiet_reader (Some (owner_of en))"
  by (simp add: quiet_reader_def owner_of_def)

lemma runs_fence:
  assumes "quiet_reader reader"
  shows "runs (check_fence base reader ev own) (\<lambda>db. Inr ((), db))"
proof -
  have "w_db w' = w_db w \<and> w_tx w' = w_tx w" if e: "check_fence base reader ev own w = (r, w')" for w r w'
  proof (cases reader)
    case None
    then show ?thesis using e by (simp add: check_fence_def)
  next
    case (Some owner)
    obtain o1 w1 where o: "owner (ow_shard_id own) w = (o1, w1)" by fastforce
    have "w_db w1 = w_db w \<and> w_tx w1 = w_tx w"
      using assms[unfolded quiet_reader_def, rule_format, of owner "ow_shard_id own" w] Some o by simp
    moreover have "w' = w \<or> w' = w1"
      using e Some o by (auto simp: check_fence_def ebind_def split: if_splits sum.splits option.splits)
    ultimately show ?thesis by auto
  qed
  then show ?thesis by (simp add: runs_def)
qed

section \<open>All or nothing, and once\<close>

lemma commit_cases:
  "commit_tx en w = (r, w') \<Longrightarrow> (r = Inr () \<and> w_db w' = w_tx w) \<or> (\<exists>e. r = Inl e \<and> (w_db w' = w_db w \<or> w_db w' = w_tx w))"
  by (auto simp: commit_tx_def split: commit_result.splits)

lemma apply_records_outcome:
  assumes h: "honest en" and q: "quiet_reader reader"
    and e: "apply_records_with_fence en cd base reader node rs own w = (r, w')"
  shows "(r = Inr () \<and> batch_db cd node rs own (w_db w) = Inr (w_db w')) \<or>
    (\<exists>err. r = Inl err \<and> (w_db w' = w_db w \<or> batch_db cd node rs own (w_db w) = Inr (w_db w')))"
proof -
  let ?body = "ebind (efor rs (apply_record_in_transaction en cd)) (\<lambda>_.
       ebind (check_fence base reader (lr_event (last rs)) own) (\<lambda>_.
         wrap_err ''save shard checkpoint: %w'' (in_tx en (batch_checkpoint node rs own))))"
  let ?commit = "wrap_err ''commit event transaction: %w'' (commit_tx en)"
  have body: "runs ?body (unit_db (batch_db cd node rs own))"
    by (rule runs_cong[OF runs_bind[OF runs_records[OF h] runs_bind[OF runs_fence[OF q] runs_wrap[OF runs_checkpoint]]]])
       (auto simp: batch_db_def unit_db_def split: sum.splits)
  have A: "apply_records_with_fence en cd base reader node rs own =
      ebind (lift_res (validate_record_batch rs own)) (\<lambda>_. ebind (check_fence base reader (lr_event (hd rs)) own) (\<lambda>_.
        ebind (wrap_err ''begin event transaction: %w'' (begin_tx en)) (\<lambda>_. ebind ?body (\<lambda>_. ?commit))))"
    unfolding apply_records_with_fence_def ebind_assoc ..
  obtain r1 w1 where 1: "check_fence base reader (lr_event (hd rs)) own w = (r1, w1)" by fastforce
  have d1: "w_db w1 = w_db w" by (rule runsD(1)[OF runs_fence[OF q] 1])
  obtain r2 w2 where 2: "wrap_err ''begin event transaction: %w'' (begin_tx en) w1 = (r2, w2)" by fastforce
  have d2: "w_db w2 = w_db w1" "r2 = Inr () \<Longrightarrow> w_tx w2 = w_db w1"
    using 2 by (auto simp: wrap_err_def begin_tx_def split: option.splits)
  obtain r3 w3 where 3: "?body w2 = (r3, w3)" by fastforce
  note d3 = runsD(1)[OF body 3]
  obtain r4 w4 where 4: "?commit w3 = (r4, w4)" by fastforce
  have "(\<exists>e. r = Inl e \<and> (w' = w \<or> w' = w1 \<or> w' = w2 \<or> w' = w3)) \<or> (r2 = Inr () \<and> r3 = Inr () \<and> r = r4 \<and> w' = w4)"
  proof (cases "validate_record_batch rs own")
    case (Inl e)
    then have "r = Inl e \<and> w' = w" using assms(3) unfolding A Inl by simp
    then show ?thesis by blast
  next
    case (Inr u)
    have e: "ebind (check_fence base reader (lr_event (hd rs)) own) (\<lambda>_.
        ebind (wrap_err ''begin event transaction: %w'' (begin_tx en)) (\<lambda>_. ebind ?body (\<lambda>_. ?commit))) w = (r, w')"
      using assms(3) Inr unfolding A by simp
    show ?thesis using e 1 2 3 4 by (cases r1; cases r2; cases r3) auto
  qed
  then consider (early) e where "r = Inl e" "w' = w \<or> w' = w1 \<or> w' = w2 \<or> w' = w3"
    | (commit) "r2 = Inr ()" "r3 = Inr ()" "r = r4" "w' = w4" by blast
  then show ?thesis
  proof cases
    case early
    then show ?thesis using d1 d2(1) d3 by auto
  next
    case commit
    have "unit_db (batch_db cd node rs own) (w_tx w2) = Inr ((), w_tx w3)"
      using runsD(2)[OF body] 3 commit(2) by blast
    then have b: "batch_db cd node rs own (w_db w) = Inr (w_tx w3)"
      using d2(2)[OF commit(1)] d1 by simp
    have "(r = Inr () \<and> w_db w' = w_tx w3) \<or> (\<exists>e. r = Inl e \<and> (w_db w' = w_db w3 \<or> w_db w' = w_tx w3))"
      using commit_cases[of en w3] 4 commit(3,4) by (auto simp: wrap_err_def split: prod.splits sum.splits)
    then show ?thesis using b d1 d2(1) d3 by auto
  qed
qed

lemma event_db_frame: "event_db cd ev db = Inr db' \<Longrightarrow>
    tb_inbox db' = tb_inbox db \<and> tb_outbox db' = tb_outbox db \<and> tb_riders db' = tb_riders db \<and> tb_checkpoints db' = tb_checkpoints db"
  by (auto simp: event_db_def put_order_def split: sum.splits option.splits)

lemma queue_db_frame: "queue_db cd ev db = Inr db' \<Longrightarrow>
    tb_inbox db' = tb_inbox db \<and> tb_riders db' = tb_riders db \<and> tb_checkpoints db' = tb_checkpoints db"
  by (auto simp: queue_db_def put_order_def create_outbox_event_def split: sum.splits option.splits prod.splits if_splits)

lemma record_db_inbox:
  assumes "record_db cd r db = Inr db'"
  shows "tb_inbox db' (ConsumerOrderWorker, ev_id (lr_event r)) \<noteq> None" "tb_inbox db k \<noteq> None \<Longrightarrow> tb_inbox db' k = tb_inbox db k"
    "tb_riders db' = tb_riders db" "tb_checkpoints db' = tb_checkpoints db"
  using assms by (auto simp: record_db_def record_inbox_event_def split: if_splits sum.splits
      dest!: event_db_frame queue_db_frame)

lemma records_db_frame:
  assumes "records_db cd rs db = Inr db'"
  shows "tb_riders db' = tb_riders db" "tb_checkpoints db' = tb_checkpoints db" "tb_inbox db k \<noteq> None \<Longrightarrow> tb_inbox db' k = tb_inbox db k"
    "r \<in> set rs \<Longrightarrow> tb_inbox db' (ConsumerOrderWorker, ev_id (lr_event r)) \<noteq> None"
proof -
  have "tb_riders db' = tb_riders db \<and> tb_checkpoints db' = tb_checkpoints db \<and>
    (\<forall>k. tb_inbox db k \<noteq> None \<longrightarrow> tb_inbox db' k = tb_inbox db k) \<and>
    (\<forall>r \<in> set rs. tb_inbox db' (ConsumerOrderWorker, ev_id (lr_event r)) \<noteq> None)"
    using assms
  proof (induction rs arbitrary: db)
    case (Cons r rs)
    then obtain db1 where 1: "record_db cd r db = Inr db1" and rs: "records_db cd rs db1 = Inr db'"
      by (auto split: sum.splits)
    note R = record_db_inbox[OF 1] and IH = Cons.IH[OF rs]
    have "tb_inbox db k \<noteq> None \<Longrightarrow> tb_inbox db' k = tb_inbox db k" for k
      using R(2)[of k] IH by metis
    moreover have "tb_inbox db' (ConsumerOrderWorker, ev_id (lr_event r)) \<noteq> None" using R(1) IH by metis
    ultimately show ?case using R(3,4) IH by simp
  qed simp
  then show "tb_riders db' = tb_riders db" "tb_checkpoints db' = tb_checkpoints db"
    "tb_inbox db k \<noteq> None \<Longrightarrow> tb_inbox db' k = tb_inbox db k"
    "r \<in> set rs \<Longrightarrow> tb_inbox db' (ConsumerOrderWorker, ev_id (lr_event r)) \<noteq> None" by blast+
qed

lemma records_db_seen:
  "(\<And>r. r \<in> set rs \<Longrightarrow> tb_inbox db (ConsumerOrderWorker, ev_id (lr_event r)) \<noteq> None) \<Longrightarrow> records_db cd rs db = Inr db"
  by (induction rs) (simp_all add: record_db_def)

text \<open>The checkpoint statement twice is the checkpoint statement once.\<close>

lemma checkpoint_frame: "tb_orders (snd (batch_checkpoint node rs own db)) = tb_orders db"
    "tb_inbox (snd (batch_checkpoint node rs own db)) = tb_inbox db" "tb_outbox (snd (batch_checkpoint node rs own db)) = tb_outbox db"
    "tb_riders (snd (batch_checkpoint node rs own db)) = tb_riders db"
  by (auto simp: batch_checkpoint_def upsert_shard_checkpoint_def Let_def split: option.split)

lemma checkpoint_twice: "snd (batch_checkpoint node rs own (snd (batch_checkpoint node rs own db))) = snd (batch_checkpoint node rs own db)"
  by (auto simp: batch_checkpoint_def upsert_shard_checkpoint_def Let_def split: option.split)

lemma batch_db_again:
  assumes "batch_db cd node rs own db = Inr db'"
  shows "batch_db cd node rs own db' = Inr db'"
proof -
  obtain db1 where 1: "records_db cd rs db = Inr db1" and db': "db' = snd (batch_checkpoint node rs own db1)"
    using assms by (auto simp: batch_db_def split: sum.splits)
  have "records_db cd rs db' = Inr db'"
    by (rule records_db_seen) (use records_db_frame(4)[OF 1] in \<open>simp add: db' checkpoint_frame\<close>)
  then show ?thesis by (simp add: batch_db_def db' checkpoint_twice)
qed

text \<open>
  Property C20. On the in-memory store \<open>EventApplier.Apply\<close> is the transition of the decoded message: it
  loads the order, and depending on its status saves the next state, leaves it alone or refuses;
  an undecodable payload or an unknown type is refused before anything is read.
\<close>

theorem event_applier_transition:
  "apply_event cd (Some (memory_ops None)) ev s =
     (case decode_msg cd ev of
        Inl e \<Rightarrow> (Inl e, s)
      | Inr m \<Rightarrow> (case order_next ev m (s (msg_order_id m)) of
                     Inl e \<Rightarrow> (Inl e, s)
                   | Inr None \<Rightarrow> (Inr (), s)
                   | Inr (Some x) \<Rightarrow> (Inr (), s(os_order_id x \<mapsto> x))))"
  unfolding apply_event_transition transition_eff_def
  by (auto simp: memory_ops_def memory_load_def memory_save_def ebind_def split: sum.splits option.splits)

definition status_change :: "string \<Rightarrow> string \<Rightarrow> string \<Rightarrow> bool" where
  "status_change t old new \<longleftrightarrow>
     new = old \<and> t \<notin> {EventOrderCancelled, EventOrderMatched} \<or>
     t = EventOrderCreated \<and> new = StatusCreated \<and>
       old \<notin> {StatusSubmitted, StatusMatchPending, StatusMatched, StatusMissed, StatusCancelled} \<or>
     t = EventOrderCancelled \<and> new = StatusCancelled \<or>
     t = EventOrderRetryRequest \<and> new = StatusRetryRequested \<and> old \<notin> {StatusCancelled, StatusMatched} \<or>
     t = EventOrderMatched \<and> new = StatusMatched \<or>
     t = EventOrderMissed \<and> new = StatusMissed \<and> old \<notin> {StatusMatched, StatusCancelled}"

text \<open>
  Property C21. How an event can change the status of an order that exists: a finished order is left
  alone by \<open>order_created\<close>; \<open>order_retry_request\<close> never touches a cancelled or matched order and
  \<open>order_missed\<close> never overrides a match or a cancellation. A cancellation always takes effect, and so
  does \<open>order_matched\<close>, even on a cancelled order. No other order changes, and the order keeps its
  place when it is only updated.
\<close>

theorem order_status_changes:
  assumes "apply_event cd (Some (memory_ops None)) ev s = (Inr (), s')" "ids_ok s" "s i = Some x"
  shows "\<exists>y m. s' i = Some y \<and> decode_msg cd ev = Inr m \<and>
    (if i = msg_order_id m then status_change (ev_type ev) (os_status x) (os_status y) else y = x)"
proof -
  obtain m where m: "decode_msg cd ev = Inr m" using assms(1) unfolding event_applier_transition by (auto split: sum.splits)
  show ?thesis
  proof (cases "i = msg_order_id m")
    case False
    have "os_order_id z = msg_order_id m" if "order_next ev m (s (msg_order_id m)) = Inr (Some z)" for z
      using that assms(2) by (cases m) (auto simp: stamped_def ids_ok_def zero_order_def split: if_splits option.splits)
    then have "s' i = s i" using assms(1) m False unfolding event_applier_transition
      by (auto split: sum.splits option.splits)
    then show ?thesis using m False assms(3) by simp
  next
    case True
    have cur: "s (msg_order_id m) = Some x" using True assms(3) by simp
    have "os_order_id x = i" using assms(2,3) by (simp add: ids_ok_def)
    have t: "(case m of MCreated p \<Rightarrow> ev_type ev = EventOrderCreated | MCancelled p \<Rightarrow> ev_type ev = EventOrderCancelled
        | MRetry p \<Rightarrow> ev_type ev = EventOrderRetryRequest | MMatched p \<Rightarrow> ev_type ev = EventOrderMatched
        | MMissed p \<Rightarrow> ev_type ev = EventOrderMissed)"
      using m unfolding decode_msg_def Let_def
      by (cases "cd_created cd (ev_payload ev)"; cases "cd_cancelled cd (ev_payload ev)"; cases "cd_retry cd (ev_payload ev)";
          cases "cd_matched cd (ev_payload ev)"; cases "cd_missed cd (ev_payload ev)") (auto split: if_splits)
    show ?thesis
      using assms(1) m True cur t \<open>os_order_id x = i\<close> unfolding event_applier_transition
      by (cases m) (auto simp: status_change_def stamped_def cur_status_def split: if_splits)
  qed
qed

section \<open>An input to exercise the properties\<close>

text \<open>A codec that reads every payload as one about order 7.\<close>

definition seven_codec :: codec where
  "seven_codec =
     \<lparr>cd_created = (\<lambda>_. Inr \<lparr>oc_order_id = 7, oc_x = 1, oc_y = 2\<rparr>), cd_cancelled = (\<lambda>_. Inr \<lparr>ocl_order_id = 7, ocl_reason = []\<rparr>),
      cd_retry = (\<lambda>_. Inr \<lparr>orr_order_id = 7, orr_attempt = 1, orr_reason = []\<rparr>),
      cd_matched = (\<lambda>_. Inr \<lparr>om_order_id = 7, om_rider_id = 3, om_score = 4\<rparr>),
      cd_missed = (\<lambda>_. Inr \<lparr>oms_order_id = 7, oms_reason = []\<rparr>),
      cd_match_requested = (\<lambda>_. Inr \<lparr>mr_order_id = 7, mr_x = 1, mr_y = 2, mr_attempt = 0\<rparr>),
      cd_enc_match_requested = (\<lambda>_. Inr ''request''), cd_enc_matched = (\<lambda>_. Inr ''matched''), cd_enc_missed = (\<lambda>_. Inr ''missed'')\<rparr>"

definition seven_event :: "string \<Rightarrow> string \<Rightarrow> event" where
  "seven_event i t = \<lparr>ev_id = i, ev_type = t, ev_aggregate_type = ''order'', ev_aggregate_id = ''7'', ev_shard_id = 5,
     ev_occurred_at = 100, ev_payload = []\<rparr>"

definition seven_record :: "int \<Rightarrow> string \<Rightarrow> string \<Rightarrow> log_record" where
  "seven_record off i t = \<lparr>lr_position = \<lparr>ps_shard_id = 5, ps_offset = off\<rparr>, lr_event = seven_event i t\<rparr>"

definition five_owned :: ownership where
  "five_owned = \<lparr>ow_shard_id = 5, ow_node_id = 1, ow_epoch = 1\<rparr>"

definition start_world :: "database \<Rightarrow> world" where
  "start_world db = \<lparr>w_db = db, w_tx = empty_database, w_tick = 0\<rparr>"

definition cancelled_seven :: order_state where
  "cancelled_seven = zero_order\<lparr>os_order_id := 7, os_shard_id := 5, os_status := StatusCancelled\<rparr>"

text \<open>A late \<open>order_matched\<close> on a cancelled order.\<close>

definition resurrected :: "memory_orders" where
  "resurrected = snd (apply_event seven_codec (Some (memory_ops None)) (seven_event ''late'' EventOrderMatched) [7 \<mapsto> cancelled_seven])"

theorem order_status_changes_witness:
  "\<exists>y. resurrected 7 = Some y \<and> status_change EventOrderMatched StatusCancelled (os_status y)"
proof -
  let ?ev = "seven_event ''late'' EventOrderMatched"
  have d: "decode_msg seven_codec ?ev = Inr (MMatched \<lparr>om_order_id = 7, om_rider_id = 3, om_score = 4\<rparr>)"
    by (simp add: decode_msg_def seven_event_def seven_codec_def)
  have "apply_event seven_codec (Some (memory_ops None)) ?ev [7 \<mapsto> cancelled_seven] = (Inr (), resurrected)"
    unfolding resurrected_def
    by (simp add: apply_event_transition transition_eff_def d memory_ops_def memory_load_def memory_save_def ebind_def)
  from order_status_changes[OF this, of 7 cancelled_seven] d show ?thesis
    by (auto simp: ids_ok_def cancelled_seven_def zero_order_def seven_event_def)
qed

section \<open>Properties of the Postgres applier\<close>

text \<open>
  Property C3. A batch of records is applied all or nothing: without an error the tables are exactly
  what the batch makes of them (inbox, orders, match requests, checkpoint), and whatever the error,
  they are what they were or, when the reply to the commit was lost, what the batch makes of them.
\<close>

theorem batch_applied_atomically:
  assumes "honest en" "apply_records_with_fence en cd base (Some (owner_of en)) node rs own w = (r, w')"
  shows "(r = Inr () \<and> batch_db cd node rs own (w_db w) = Inr (w_db w')) \<or>
    (\<exists>e. r = Inl e \<and> (w_db w' = w_db w \<or> batch_db cd node rs own (w_db w) = Inr (w_db w')))"
  by (rule apply_records_outcome[OF assms(1) quiet_owner_of assms(2)])

definition seven_run :: "(go_error + unit) \<times> world" where
  "seven_run = apply_records_with_fence (calm five_owned) seven_codec 1 (Some (owner_of (calm five_owned))) 1
     [seven_record 0 ''e1'' EventOrderCreated] five_owned (start_world empty_database)"

theorem batch_applied_atomically_witness:
  "(fst seven_run = Inr () \<and> batch_db seven_codec 1 [seven_record 0 ''e1'' EventOrderCreated] five_owned empty_database = Inr (w_db (snd seven_run))) \<or>
   (\<exists>e. fst seven_run = Inl e)"
  using batch_applied_atomically[OF calm_honest, of five_owned seven_codec 1 1 "[seven_record 0 ''e1'' EventOrderCreated]" five_owned
      "start_world empty_database" "fst seven_run" "snd seven_run"]
  by (auto simp: seven_run_def start_world_def)

text \<open>Retries of one batch: any number of attempts, each in its own environment.\<close>

fun attempts :: "codec \<Rightarrow> int \<Rightarrow> int \<Rightarrow> log_record list \<Rightarrow> ownership \<Rightarrow> env list \<Rightarrow> world \<Rightarrow> world" where
  "attempts cd base node rs own [] w = w"
| "attempts cd base node rs own (en # ens) w =
     attempts cd base node rs own ens (snd (apply_records_with_fence en cd base (Some (owner_of en)) node rs own w))"

lemma attempts_db:
  "\<forall>en \<in> set ens. honest en \<Longrightarrow>
   w_db (attempts cd base node rs own ens w) = w_db w \<or>
   batch_db cd node rs own (w_db w) = Inr (w_db (attempts cd base node rs own ens w))"
proof (induction ens arbitrary: w)
  case (Cons en ens)
  obtain r w1 where 1: "apply_records_with_fence en cd base (Some (owner_of en)) node rs own w = (r, w1)" by fastforce
  have "w_db w1 = w_db w \<or> batch_db cd node rs own (w_db w) = Inr (w_db w1)"
    using apply_records_outcome[OF _ quiet_owner_of 1] Cons.prems by auto
  moreover have "w_db (attempts cd base node rs own ens w1) = w_db w1 \<or>
      batch_db cd node rs own (w_db w1) = Inr (w_db (attempts cd base node rs own ens w1))"
    using Cons by simp
  ultimately show ?case using 1 batch_db_again[of cd node rs own "w_db w" "w_db w1"] by auto
qed simp

text \<open>
  Property C4. A batch takes effect exactly once: however many attempts failed before, and whether or
  not a commit whose reply was lost had taken effect, when an attempt succeeds the tables are what
  the batch makes of the original tables, and every later delivery of the batch leaves them so.
\<close>

theorem retries_apply_once:
  assumes "\<forall>e \<in> set ens. honest e" "honest en"
    and "apply_records_with_fence en cd base (Some (owner_of en)) node rs own (attempts cd base node rs own ens w) = (Inr (), w')"
  shows "batch_db cd node rs own (w_db w) = Inr (w_db w') \<and>
    (\<forall>en2 r2 w2. honest en2 \<longrightarrow> apply_records_with_fence en2 cd base (Some (owner_of en2)) node rs own w' = (r2, w2) \<longrightarrow> w_db w2 = w_db w')"
proof -
  let ?w1 = "attempts cd base node rs own ens w"
  have 1: "batch_db cd node rs own (w_db ?w1) = Inr (w_db w')"
    using apply_records_outcome[OF assms(2) quiet_owner_of assms(3)] by simp
  note A = attempts_db[OF assms(1), of cd base node rs own w]
  have "batch_db cd node rs own (w_db w) = Inr (w_db w')"
    using A 1 batch_db_again[of cd node rs own "w_db w" "w_db ?w1"] by auto
  moreover have "w_db w2 = w_db w'"
    if "honest en2" "apply_records_with_fence en2 cd base (Some (owner_of en2)) node rs own w' = (r2, w2)" for en2 r2 w2
    using apply_records_outcome[OF that(1) quiet_owner_of that(2)] batch_db_again[OF 1] by auto
  ultimately show ?thesis by blast
qed

lemma seven_run_ok: "fst seven_run = Inr ()"
  by code_simp

theorem retries_apply_once_witness:
  "batch_db seven_codec 1 [seven_record 0 ''e1'' EventOrderCreated] five_owned empty_database = Inr (w_db (snd seven_run))"
proof -
  let ?rs = "[seven_record 0 ''e1'' EventOrderCreated]"
  have "apply_records_with_fence (calm five_owned) seven_codec 1 (Some (owner_of (calm five_owned))) 1 ?rs five_owned
      (attempts seven_codec 1 1 ?rs five_owned [] (start_world empty_database)) = (Inr (), snd seven_run)"
    using seven_run_ok by (cases seven_run) (simp add: seven_run_def)
  from retries_apply_once[OF _ calm_honest this] show ?thesis by (simp add: start_world_def)
qed

subsection \<open>The fence\<close>

definition owner_matches :: "env \<Rightarrow> nat \<Rightarrow> ownership \<Rightarrow> bool" where
  "owner_matches en t own \<longleftrightarrow>
     (\<exists>c. en_owner en t (ow_shard_id own) = Inr (Some c) \<and> ow_node_id c = ow_node_id own \<and> ow_epoch c = ow_epoch own)"

lemma fence_passed:
  "check_fence base (Some (owner_of en)) ev own w = (Inr u, w') \<Longrightarrow>
   (base \<noteq> 0 \<longrightarrow> ow_node_id own = base) \<and> owner_matches en (w_tick w) own \<and> w_tick w' = Suc (w_tick w)"
  by (auto simp: check_fence_def owner_of_def ebind_def owner_matches_def split: if_splits sum.splits option.splits)

text \<open>Steps that leave the committed tables alone and let time pass.\<close>

definition ticking :: "(world, 'a) eff \<Rightarrow> bool" where
  "ticking m \<longleftrightarrow> (\<forall>n d. keeps (\<lambda>w. n \<le> w_tick w \<and> w_db w = d) m)"

lemma tickingD: "ticking m \<Longrightarrow> m w = (r, w') \<Longrightarrow> w_tick w \<le> w_tick w' \<and> w_db w' = w_db w"
  unfolding ticking_def using keepsE[of "\<lambda>v. w_tick w \<le> w_tick v \<and> w_db v = w_db w" m w r w'] by blast

lemma ticking_in_tx: "ticking (in_tx en q)"
  by (auto simp: ticking_def keeps_def in_tx_def split: option.split prod.split)

lemma ticking_begin: "ticking (begin_tx en)"
  by (auto simp: ticking_def keeps_def begin_tx_def split: option.split)

lemma ticking_load: "ticking (postgres_load en i)"
  by (auto simp: ticking_def keeps_def postgres_load_def in_tx_def split: option.split prod.split sum.split)

lemma ticking_simps [intro]:
  "ticking (ret x)" "ticking (throw e)" "ticking (lift_res r)"
  "ticking m \<Longrightarrow> (\<And>x. ticking (f x)) \<Longrightarrow> ticking (ebind m f)"
  "ticking m' \<Longrightarrow> ticking (wrap_err msg m')"
  unfolding ticking_def by blast+

lemma ticking_record: "ticking (apply_record_in_transaction en cd r)"
proof -
  have s: "ticking (postgres_save en x)" for x by (simp add: postgres_save_def ticking_in_tx)
  have t: "ticking (transition_eff cd (postgres_ops en) ev)" for ev
    unfolding transition_eff_def postgres_ops_def order_ops.simps
    by (intro ticking_simps ticking_load) (auto intro!: s split: option.split)
  have q: "ticking (queue_match_request en cd ev)" for ev
    unfolding queue_match_request_def
    by (intro ticking_simps) (auto intro!: ticking_simps s ticking_in_tx ticking_load split: option.split prod.split)
  show ?thesis unfolding apply_record_in_transaction_def apply_event_transition
    by (auto intro!: ticking_simps ticking_in_tx t q)
qed

lemma ticking_fence: "ticking (check_fence base (Some (owner_of en)) ev own)"
  by (auto simp: ticking_def keeps_def check_fence_def ebind_def owner_of_def split: sum.split option.split)

lemma ticking_efor: "(\<And>x. ticking (f x)) \<Longrightarrow> ticking (efor xs f)"
  unfolding ticking_def by (blast intro: keeps_efor)

text \<open>The steps of a batch that committed: what each of them started from and left.\<close>

lemma committed_steps:
  assumes run: "apply_records_with_fence en cd base (Some (owner_of en)) node rs own w = (r, w')"
    and fin: "r = Inr () \<or> w_db w' \<noteq> w_db w"
  obtains w1 w2 w3 w4 where "validate_record_batch rs own = Inr ()"
    "check_fence base (Some (owner_of en)) (lr_event (hd rs)) own w = (Inr (), w1)"
    "w_tick w1 \<le> w_tick w2" "w_tx w2 = w_db w"
    "efor rs (apply_record_in_transaction en cd) w2 = (Inr (), w3)"
    "check_fence base (Some (owner_of en)) (lr_event (last rs)) own w3 = (Inr (), w4)"
    "w_db w' = snd (batch_checkpoint node rs own (w_tx w3))"
proof -
  let ?cp = "wrap_err ''save shard checkpoint: %w'' (in_tx en (batch_checkpoint node rs own))"
  let ?commit = "wrap_err ''commit event transaction: %w'' (commit_tx en)"
  let ?rec = "efor rs (apply_record_in_transaction en cd)"
  note T = tickingD[OF ticking_fence] tickingD[OF ticking_simps(5)[OF ticking_begin]]
    tickingD[OF ticking_efor[OF ticking_record]] tickingD[OF ticking_simps(5)[OF ticking_in_tx]]
  obtain r1 w1 where 1: "check_fence base (Some (owner_of en)) (lr_event (hd rs)) own w = (r1, w1)" by fastforce
  obtain r2 w2 where 2: "wrap_err ''begin event transaction: %w'' (begin_tx en) w1 = (r2, w2)" by fastforce
  obtain r3 w3 where 3: "?rec w2 = (r3, w3)" by fastforce
  obtain r4 w4 where 4: "check_fence base (Some (owner_of en)) (lr_event (last rs)) own w3 = (r4, w4)" by fastforce
  obtain r5 w5 where 5: "?cp w4 = (r5, w5)" by fastforce
  obtain r6 w6 where 6: "?commit w5 = (r6, w6)" by fastforce
  have d: "w_db w1 = w_db w" "w_db w2 = w_db w1" "w_db w3 = w_db w2" "w_db w4 = w_db w3" "w_db w5 = w_db w4"
    and t: "w_tick w1 \<le> w_tick w2" using T(1)[OF 1] T(2)[OF 2] T(3)[OF 3] T(1)[OF 4] T(4)[OF 5] by simp_all
  have v: "validate_record_batch rs own = Inr ()"
  proof (cases "validate_record_batch rs own")
    case (Inl e)
    then have "r = Inl e \<and> w' = w" using run unfolding apply_records_with_fence_def Inl by simp
    then show ?thesis using fin by simp
  qed simp
  then have "ebind (check_fence base (Some (owner_of en)) (lr_event (hd rs)) own) (\<lambda>_.
       ebind (wrap_err ''begin event transaction: %w'' (begin_tx en)) (\<lambda>_.
         ebind ?rec (\<lambda>_. ebind (check_fence base (Some (owner_of en)) (lr_event (last rs)) own) (\<lambda>_.
             ebind ?cp (\<lambda>_. ?commit))))) w = (r, w')"
    using run unfolding apply_records_with_fence_def by simp
  then have ok: "r1 = Inr () \<and> r2 = Inr () \<and> r3 = Inr () \<and> r4 = Inr () \<and> r5 = Inr () \<and> r = r6 \<and> w' = w6"
    using 1 2 3 4 5 6 d fin by (cases r1; cases r2; cases r3; cases r4; cases r5) auto
  have tx: "w_tx w2 = w_db w" using 2 ok d(1) by (auto simp: wrap_err_def begin_tx_def split: option.splits)
  have "w_tx w4 = w_tx w3" using runsD(2)[OF runs_fence[OF quiet_owner_of]] 4 ok by fastforce
  moreover have "w_tx w5 = snd (batch_checkpoint node rs own (w_tx w4))"
    using runsD(2)[OF runs_wrap[OF runs_checkpoint]] 5 ok by fastforce
  moreover have "w_db w' = w_tx w5"
    using commit_cases[of en w5] 6 ok fin d by (auto simp: wrap_err_def split: prod.splits sum.splits)
  ultimately show thesis using that[of w1 w2 w3 w4] v 1 3 4 ok t tx by simp
qed

text \<open>
  Property C18. Nothing is committed for a node that is not the owner. If a batch reported success or
  changed the tables, the ownership store named the expected node with the expected epoch when it began,
  then every record was applied to the transaction's copy of the tables, and after the last of them, at
  that very moment, the store named the same owner again; all that follows is the checkpoint and the
  commit of that copy. The expected node is the applier's own.
\<close>

theorem commits_are_fenced:
  assumes "apply_records_with_fence en cd base (Some (owner_of en)) node rs own w = (r, w')"
    and "r = Inr () \<or> w_db w' \<noteq> w_db w"
  shows "(base \<noteq> 0 \<longrightarrow> ow_node_id own = base) \<and> owner_matches en (w_tick w) own \<and>
    (\<exists>w1 w2. w_tick w < w_tick w1 \<and> w_tx w1 = w_db w \<and> efor rs (apply_record_in_transaction en cd) w1 = (Inr (), w2) \<and>
       owner_matches en (w_tick w2) own \<and> w_db w' = snd (batch_checkpoint node rs own (w_tx w2)))"
proof -
  from committed_steps[OF assms] obtain w1 w2 w3 w4 where
    f1: "check_fence base (Some (owner_of en)) (lr_event (hd rs)) own w = (Inr (), w1)" and
    t: "w_tick w1 \<le> w_tick w2" "w_tx w2 = w_db w" and
    b: "efor rs (apply_record_in_transaction en cd) w2 = (Inr (), w3)" and
    f2: "check_fence base (Some (owner_of en)) (lr_event (last rs)) own w3 = (Inr (), w4)" and
    c: "w_db w' = snd (batch_checkpoint node rs own (w_tx w3))" by metis
  show ?thesis using fence_passed[OF f1] fence_passed[OF f2] t b c
    by (intro conjI exI[of _ w2] exI[of _ w3]) simp_all
qed

theorem commits_are_fenced_witness:
  "\<exists>w1 w2. w_tx w1 = empty_database \<and>
     efor [seven_record 0 ''e1'' EventOrderCreated] (apply_record_in_transaction (calm five_owned) seven_codec) w1 = (Inr (), w2) \<and>
     owner_matches (calm five_owned) (w_tick w2) five_owned"
  using commits_are_fenced[of "calm five_owned" seven_codec 1 1 "[seven_record 0 ''e1'' EventOrderCreated]" five_owned
      "start_world empty_database" "Inr ()" "snd seven_run"] seven_run_ok
  by (cases seven_run) (auto simp: seven_run_def start_world_def)

subsection \<open>What is left behind\<close>

definition requests_of :: "log_record list \<Rightarrow> string set" where
  "requests_of rs = {ev_id (lr_event r) @ ''-match-requested'' | r. r \<in> set rs \<and> queues_match_request (ev_type (lr_event r))}"

definition fresh_request :: "log_record list \<Rightarrow> outbox_row \<Rightarrow> bool" where
  "fresh_request rs b \<longleftrightarrow> ob_event_id b \<in> requests_of rs \<and> ob_event_type b = EventMatchRequested \<and>
     ob_topic b = TopicMatchRequests \<and> ob_published_at b = None \<and> ob_claimed_by b = [] \<and> ob_attempts b = 0"

lemma record_db_outbox:
  assumes "record_db cd r db = Inr db'"
  shows "\<exists>new. tb_outbox db' = tb_outbox db @ new \<and> (\<forall>b \<in> set new. fresh_request [r] b)"
    "tb_inbox db (ConsumerOrderWorker, ev_id (lr_event r)) = None \<Longrightarrow> queues_match_request (ev_type (lr_event r)) \<Longrightarrow>
       ev_id (lr_event r) @ ''-match-requested'' \<in> ob_event_id ` set (tb_outbox db')"
proof -
  have Q: "\<exists>new. tb_outbox db2 = tb_outbox db1 @ new \<and> (\<forall>b \<in> set new. fresh_request [r] b)"
    "ev_id (lr_event r) @ ''-match-requested'' \<in> ob_event_id ` set (tb_outbox db2)"
    if q: "queue_db cd (lr_event r) db1 = Inr db2" and t: "queues_match_request (ev_type (lr_event r))" for db1 db2
  proof -
    obtain i payload x where o: "db2 = snd (create_outbox_event (outbox_of_event (match_request_event (lr_event r) i payload) TopicMatchRequests)
        (put_order (x\<lparr>os_status := StatusMatchPending\<rparr>) db1))"
      using q by (auto simp: queue_db_def split: sum.splits option.splits prod.splits)
    show "\<exists>new. tb_outbox db2 = tb_outbox db1 @ new \<and> (\<forall>b \<in> set new. fresh_request [r] b)"
      using t unfolding o by (auto simp: create_outbox_event_def put_order_def fresh_request_def requests_of_def
          outbox_of_event_def match_request_event_def)
    show "ev_id (lr_event r) @ ''-match-requested'' \<in> ob_event_id ` set (tb_outbox db2)"
      unfolding o by (auto simp: create_outbox_event_def put_order_def outbox_of_event_def match_request_event_def)
  qed
  show "\<exists>new. tb_outbox db' = tb_outbox db @ new \<and> (\<forall>b \<in> set new. fresh_request [r] b)"
    using assms Q(1)[of _ db'] by (fastforce simp: record_db_def record_inbox_event_def split: if_splits sum.splits dest!: event_db_frame)
  show "tb_inbox db (ConsumerOrderWorker, ev_id (lr_event r)) = None \<Longrightarrow> queues_match_request (ev_type (lr_event r)) \<Longrightarrow>
       ev_id (lr_event r) @ ''-match-requested'' \<in> ob_event_id ` set (tb_outbox db')"
    using assms Q(2) by (auto simp: record_db_def split: if_splits sum.splits)
qed

lemma fresh_request_mono: "fresh_request rs b \<Longrightarrow> set rs \<subseteq> set rs' \<Longrightarrow> fresh_request rs' b"
  unfolding fresh_request_def requests_of_def by blast

lemma records_db_outbox_sub: "records_db cd rs db = Inr db' \<Longrightarrow> set (tb_outbox db) \<subseteq> set (tb_outbox db')"
proof (induction rs arbitrary: db)
  case (Cons r rs)
  then obtain db1 where 1: "record_db cd r db = Inr db1" and rs: "records_db cd rs db1 = Inr db'" by (auto split: sum.splits)
  have "set (tb_outbox db) \<subseteq> set (tb_outbox db1)" using record_db_outbox(1)[OF 1] by auto
  then show ?case using Cons.IH[OF rs] by blast
qed simp

lemma record_db_inbox_only:
  "record_db cd a db = Inr db1 \<Longrightarrow> k \<noteq> (ConsumerOrderWorker, ev_id (lr_event a)) \<Longrightarrow> tb_inbox db1 k = tb_inbox db k"
  by (auto simp: record_db_def record_inbox_event_def split: if_splits sum.splits dest!: event_db_frame queue_db_frame)

lemma records_db_outbox:
  assumes "records_db cd rs db = Inr db'"
  shows "\<exists>new. tb_outbox db' = tb_outbox db @ new \<and> (\<forall>b \<in> set new. fresh_request rs b)"
    "r \<in> set rs \<Longrightarrow> tb_inbox db (ConsumerOrderWorker, ev_id (lr_event r)) = None \<Longrightarrow> queues_match_request (ev_type (lr_event r)) \<Longrightarrow>
       distinct (map (\<lambda>r. ev_id (lr_event r)) rs) \<Longrightarrow>
       ev_id (lr_event r) @ ''-match-requested'' \<in> ob_event_id ` set (tb_outbox db')"
proof -
  show "\<exists>new. tb_outbox db' = tb_outbox db @ new \<and> (\<forall>b \<in> set new. fresh_request rs b)"
    using assms
  proof (induction rs arbitrary: db)
    case (Cons r rs)
    then obtain db1 where 1: "record_db cd r db = Inr db1" and rs: "records_db cd rs db1 = Inr db'" by (auto split: sum.splits)
    obtain n1 where n1: "tb_outbox db1 = tb_outbox db @ n1" "\<forall>b \<in> set n1. fresh_request [r] b" using record_db_outbox(1)[OF 1] by blast
    obtain n2 where n2: "tb_outbox db' = tb_outbox db1 @ n2" "\<forall>b \<in> set n2. fresh_request rs b" using Cons.IH[OF rs] by blast
    show ?case
      by (rule exI[of _ "n1 @ n2"]) (use n1 n2 fresh_request_mono[of "[r]" _ "r # rs"] fresh_request_mono[of rs _ "r # rs"] in auto)
  qed simp
  show "r \<in> set rs \<Longrightarrow> tb_inbox db (ConsumerOrderWorker, ev_id (lr_event r)) = None \<Longrightarrow> queues_match_request (ev_type (lr_event r)) \<Longrightarrow>
       distinct (map (\<lambda>r. ev_id (lr_event r)) rs) \<Longrightarrow> ev_id (lr_event r) @ ''-match-requested'' \<in> ob_event_id ` set (tb_outbox db')"
    using assms
  proof (induction rs arbitrary: db)
    case (Cons a rs)
    then obtain db1 where 1: "record_db cd a db = Inr db1" and rs: "records_db cd rs db1 = Inr db'" by (auto split: sum.splits)
    have sub: "set (tb_outbox db1) \<subseteq> set (tb_outbox db')"
      using Cons.prems(5) rs 1 records_db_outbox_sub[OF rs] by blast
    show ?case
    proof (cases "r = a")
      case True
      then show ?thesis using record_db_outbox(2)[OF 1] Cons.prems(2,3) sub by auto
    next
      case False
      then have "r \<in> set rs" using Cons.prems(1) by simp
      moreover have "tb_inbox db1 (ConsumerOrderWorker, ev_id (lr_event r)) = None"
        using record_db_inbox_only[OF 1, of "(ConsumerOrderWorker, ev_id (lr_event r))"] Cons.prems(2,4) \<open>r \<in> set rs\<close>
        by (simp add: image_iff) (metis (no_types))
      ultimately show ?thesis using Cons.IH[OF _ _ Cons.prems(3) _ rs] Cons.prems(4) by simp
    qed
  qed simp
qed

lemma batch_db_effects:
  assumes "batch_db cd node rs own db = Inr db'" "rs \<noteq> []"
  shows "(\<forall>r \<in> set rs. tb_inbox db' (ConsumerOrderWorker, ev_id (lr_event r)) \<noteq> None) \<and>
    (let k = (ConsumerOrderWorker, TopicOrderEvents, wrap32 (ps_shard_id (lr_position (last rs))))
     in case tb_checkpoints db k of
          Some c \<Rightarrow> if ow_epoch own < cr_epoch c then tb_checkpoints db' k = Some c
                    else \<exists>c'. tb_checkpoints db' k = Some c' \<and> cr_epoch c' = ow_epoch own \<and>
                          cr_offset_value c' = wrap64 (ps_offset (lr_position (last rs)) + 1)
        | None \<Rightarrow> \<exists>c'. tb_checkpoints db' k = Some c' \<and> cr_epoch c' = ow_epoch own \<and>
                          cr_offset_value c' = wrap64 (ps_offset (lr_position (last rs)) + 1)) \<and>
    tb_riders db' = tb_riders db \<and>
    (\<exists>new. tb_outbox db' = tb_outbox db @ new \<and> (\<forall>b \<in> set new. fresh_request rs b)) \<and>
    (distinct (map (\<lambda>r. ev_id (lr_event r)) rs) \<longrightarrow>
       (\<forall>r \<in> set rs. tb_inbox db (ConsumerOrderWorker, ev_id (lr_event r)) = None \<and> queues_match_request (ev_type (lr_event r)) \<longrightarrow>
          ev_id (lr_event r) @ ''-match-requested'' \<in> ob_event_id ` set (tb_outbox db')))"
proof -
  obtain db1 where 1: "records_db cd rs db = Inr db1" and db': "db' = snd (batch_checkpoint node rs own db1)"
    using assms by (auto simp: batch_db_def split: sum.splits)
  note F = records_db_frame[OF 1] and O = records_db_outbox[OF 1] and C = checkpoint_frame[of node rs own db1]
  show ?thesis
    unfolding db' C Let_def
    using F O by (auto simp: batch_checkpoint_def upsert_shard_checkpoint_def Let_def split: option.split)
qed

text \<open>
  Property C19. What a call of the Postgres applier that reports success, or that changes the tables at
  all, leaves behind: every record's event is in the inbox; the checkpoint is the offset after the last
  record, unless a newer epoch's checkpoint is there, which stays, without an error; riders are
  untouched; the outbox keeps its rows and gains only fresh match requests, one for every newly seen
  creation or retry (when the batch has no duplicate identifiers).
\<close>

theorem batch_effects:
  assumes "apply_records_with_fence en cd base (Some (owner_of en)) node rs own w = (r, w')" "honest en"
    and "r = Inr () \<or> w_db w' \<noteq> w_db w"
  shows "(\<forall>r \<in> set rs. tb_inbox (w_db w') (ConsumerOrderWorker, ev_id (lr_event r)) \<noteq> None) \<and>
    (let k = (ConsumerOrderWorker, TopicOrderEvents, wrap32 (ps_shard_id (lr_position (last rs))))
     in case tb_checkpoints (w_db w) k of
          Some c \<Rightarrow> if ow_epoch own < cr_epoch c then tb_checkpoints (w_db w') k = Some c
                    else \<exists>c'. tb_checkpoints (w_db w') k = Some c' \<and> cr_epoch c' = ow_epoch own \<and>
                          cr_offset_value c' = wrap64 (ps_offset (lr_position (last rs)) + 1)
        | None \<Rightarrow> \<exists>c'. tb_checkpoints (w_db w') k = Some c' \<and> cr_epoch c' = ow_epoch own \<and>
                          cr_offset_value c' = wrap64 (ps_offset (lr_position (last rs)) + 1)) \<and>
    tb_riders (w_db w') = tb_riders (w_db w) \<and>
    (\<exists>new. tb_outbox (w_db w') = tb_outbox (w_db w) @ new \<and> (\<forall>b \<in> set new. fresh_request rs b)) \<and>
    (distinct (map (\<lambda>r. ev_id (lr_event r)) rs) \<longrightarrow>
       (\<forall>r \<in> set rs. tb_inbox (w_db w) (ConsumerOrderWorker, ev_id (lr_event r)) = None \<and> queues_match_request (ev_type (lr_event r)) \<longrightarrow>
          ev_id (lr_event r) @ ''-match-requested'' \<in> ob_event_id ` set (tb_outbox (w_db w'))))"
proof -
  have "batch_db cd node rs own (w_db w) = Inr (w_db w')"
    using apply_records_outcome[OF assms(2) quiet_owner_of assms(1)] assms(3) by auto
  moreover have "rs \<noteq> []"
    by (rule committed_steps[OF assms(1,3)]) (auto simp: validate_record_batch_def)
  ultimately show ?thesis by (rule batch_db_effects)
qed

theorem batch_effects_witness:
  "tb_inbox (w_db (snd seven_run)) (ConsumerOrderWorker, ''e1'') \<noteq> None"
proof -
  let ?rs = "[seven_record 0 ''e1'' EventOrderCreated]"
  have "apply_records_with_fence (calm five_owned) seven_codec 1 (Some (owner_of (calm five_owned))) 1 ?rs five_owned
      (start_world empty_database) = (Inr (), snd seven_run)"
    using seven_run_ok by (cases seven_run) (simp add: seven_run_def)
  from batch_effects[OF this calm_honest] show ?thesis by (simp add: seven_record_def seven_event_def)
qed

lemma record_db_requeues:
  assumes "record_db cd r db = Inr db'"
    and "ev_type (lr_event r) = EventOrderRetryRequest" "cd_retry cd (ev_payload (lr_event r)) = Inr p"
    and "order_view db (orr_order_id p) = Some x" "os_status x = StatusCancelled \<or> os_status x = StatusMatched" "rows_ok db"
    and "tb_inbox db (ConsumerOrderWorker, ev_id (lr_event r)) = None"
  shows "(\<exists>y. order_view db' (orr_order_id p) = Some y \<and> os_status y = StatusMatchPending) \<and>
    ev_id (lr_event r) @ ''-match-requested'' \<in> ob_event_id ` set (tb_outbox db')"
proof
  have d: "decode_msg cd (lr_event r) = Inr (MRetry p)" by (simp add: decode_msg_def assms(2,3))
  let ?db1 = "snd (record_inbox_event ConsumerOrderWorker (ev_id (lr_event r)) (inbox_of_record r) db)"
  have v1: "order_view ?db1 (orr_order_id p) = Some x" using assms(4) by (simp add: record_inbox_event_def order_view_def)
  have e: "event_db cd (lr_event r) ?db1 = Inr ?db1" using v1 assms(5) by (auto simp: event_db_def d cur_status_def)
  have i: "match_request_identity cd (lr_event r) = Inr (orr_order_id p, orr_attempt p)"
    by (simp add: match_request_identity_def assms(2,3))
  have id: "os_order_id x = orr_order_id p" using assms(4,6) by (auto simp: order_view_def rows_ok_def state_of_row_def)
  have "queue_db cd (lr_event r) ?db1 = Inr db'" using assms(1,2,7) e by (simp add: record_db_def queues_match_request_def)
  then obtain row where "db' = snd (create_outbox_event row (put_order (x\<lparr>os_status := StatusMatchPending\<rparr>) ?db1))"
    using i v1 by (auto simp: queue_db_def split: sum.splits)
  then have "order_view db' (orr_order_id p) = Some (narrow (x\<lparr>os_status := StatusMatchPending\<rparr>))"
    by (simp add: create_outbox_event_def put_order_def order_view_def id state_of_row_of_state)
  then show "\<exists>y. order_view db' (orr_order_id p) = Some y \<and> os_status y = StatusMatchPending" by (simp add: narrow_def)
  show "ev_id (lr_event r) @ ''-match-requested'' \<in> ob_event_id ` set (tb_outbox db')"
    by (rule record_db_outbox(2)[OF assms(1,7)]) (simp add: assms(2) queues_match_request_def)
qed

text \<open>
  Property C38. A retry request for an order that is cancelled or already matched is left alone by the
  event applier, whatever store it works on; but when the Postgres applier accepts the record, the order
  is back at \<open>match_pending\<close> in the tables and a match request for it is in the outbox.
\<close>

theorem retry_requeues_finished_order:
  assumes "apply_record_with_fence en cd base (Some (owner_of en)) node r own w = (Inr (), w')" "honest en"
    and "ev_type (lr_event r) = EventOrderRetryRequest" "cd_retry cd (ev_payload (lr_event r)) = Inr p"
    and "order_view (w_db w) (orr_order_id p) = Some x" "os_status x = StatusCancelled \<or> os_status x = StatusMatched" "rows_ok (w_db w)"
    and "tb_inbox (w_db w) (ConsumerOrderWorker, ev_id (lr_event r)) = None"
  shows "(\<exists>y. order_view (w_db w') (orr_order_id p) = Some y \<and> os_status y = StatusMatchPending) \<and>
    ev_id (lr_event r) @ ''-match-requested'' \<in> ob_event_id ` set (tb_outbox (w_db w')) \<and>
    (\<forall>s. s (orr_order_id p) = Some x \<longrightarrow> apply_event cd (Some (memory_ops None)) (lr_event r) s = (Inr (), s))"
proof -
  have d: "decode_msg cd (lr_event r) = Inr (MRetry p)" by (simp add: decode_msg_def assms(3,4))
  have "batch_db cd node [r] own (w_db w) = Inr (w_db w')"
    using apply_records_outcome[OF assms(2) quiet_owner_of assms(1)[unfolded apply_record_with_fence_def]] by simp
  then obtain db1 where 1: "record_db cd r (w_db w) = Inr db1" and db': "w_db w' = snd (batch_checkpoint node [r] own db1)"
    by (auto simp: batch_db_def split: sum.splits)
  have "(\<exists>y. order_view db1 (orr_order_id p) = Some y \<and> os_status y = StatusMatchPending) \<and>
      ev_id (lr_event r) @ ''-match-requested'' \<in> ob_event_id ` set (tb_outbox db1)"
    by (rule record_db_requeues[OF 1 assms(3-8)])
  moreover have "order_view (w_db w') = order_view db1" by (simp add: db' order_view_def checkpoint_frame fun_eq_iff)
  ultimately show ?thesis using d assms(6) unfolding event_applier_transition db' checkpoint_frame by (auto simp: cur_status_def)
qed

definition retry_run :: "(go_error + unit) \<times> world" where
  "retry_run = apply_record_with_fence (calm five_owned) seven_codec 1 (Some (owner_of (calm five_owned))) 1
     (seven_record 4 ''e9'' EventOrderRetryRequest) five_owned (start_world (put_order cancelled_seven empty_database))"

lemma retry_run_ok: "fst retry_run = Inr ()"
  by code_simp

theorem retry_requeues_finished_order_witness:
  "fst retry_run = Inr () \<and> (\<exists>y. order_view (w_db (snd retry_run)) 7 = Some y \<and> os_status y = StatusMatchPending)"
proof -
  let ?r = "seven_record 4 ''e9'' EventOrderRetryRequest" and ?w = "start_world (put_order cancelled_seven empty_database)"
  let ?p = "\<lparr>orr_order_id = 7, orr_attempt = 1, orr_reason = []\<rparr>"
  have run: "apply_record_with_fence (calm five_owned) seven_codec 1 (Some (owner_of (calm five_owned))) 1 ?r five_owned ?w = (Inr (), snd retry_run)"
    using retry_run_ok by (cases retry_run) (simp add: retry_run_def)
  have v: "order_view (w_db ?w) (orr_order_id ?p) = Some cancelled_seven"
    by (simp add: start_world_def order_view_def put_order_def cancelled_seven_def state_of_row_of_state narrow_def wrap32_def zero_order_def)
  have r: "rows_ok (w_db ?w)" by (simp add: start_world_def rows_ok_def put_order_def row_of_state_def empty_database_def)
  have e: "ev_type (lr_event ?r) = EventOrderRetryRequest" "cd_retry seven_codec (ev_payload (lr_event ?r)) = Inr ?p"
    "tb_inbox (w_db ?w) (ConsumerOrderWorker, ev_id (lr_event ?r)) = None"
    by (simp_all add: start_world_def seven_record_def seven_event_def seven_codec_def put_order_def empty_database_def)
  have s: "os_status cancelled_seven = StatusCancelled \<or> os_status cancelled_seven = StatusMatched"
    by (simp add: cancelled_seven_def)
  from retry_requeues_finished_order[OF run calm_honest e(1,2) v s r e(3)] show ?thesis using retry_run_ok by simp
qed

end
