(* ===== verification/MatchWorker.thy ===== *)
theory MatchWorker
  imports Applier MatchIndex
begin

text \<open>
  The matcher worker (\<open>internal/matchworker\<close>): for a match request it takes the candidates of the
  index in order, reserves the first rider with capacity left, records the match or the miss, its
  result event, the inbox entry and the checkpoint in one transaction, and updates the index after
  the commit.
\<close>

section \<open>The worker\<close>

record worker_config =
  wc_node_id :: int
  wc_candidate_limit :: int
  wc_max_rider_orders :: int
  wc_topic :: string

definition worker_defaults :: "worker_config \<Rightarrow> worker_config" where
  "worker_defaults c =
     c\<lparr>wc_candidate_limit := (if wc_candidate_limit c \<le> 0 then 10 else wc_candidate_limit c),
       wc_max_rider_orders := (if wc_max_rider_orders c \<le> 0 then 3 else wc_max_rider_orders c),
       wc_topic := (if wc_topic c = [] then TopicMatchRequests else wc_topic c)\<rparr>"

definition score_int32 :: "int \<Rightarrow> int" where
  "score_int32 v = (if v > 2 ^ 31 - 1 then 2 ^ 31 - 1 else if v < - (2 ^ 31) then - (2 ^ 31) else wrap32 v)"

definition worker_check_fence :: "env \<Rightarrow> worker_config \<Rightarrow> int \<Rightarrow> ownership \<Rightarrow> (world, unit) eff" where
  "worker_check_fence en cfg k expected =
     (if ow_node_id expected \<noteq> wc_node_id cfg \<or> ow_shard_id expected \<noteq> k then throw ErrOwnershipFenceLost
      else ebind (owner_of en k) (\<lambda>current.
        case current of
          None \<Rightarrow> throw ErrOwnershipFenceLost
        | Some c \<Rightarrow> if ow_node_id c \<noteq> ow_node_id expected \<or> ow_epoch c \<noteq> ow_epoch expected
                    then throw ErrOwnershipFenceLost else ret ()))"

definition result_event :: "event \<Rightarrow> string \<Rightarrow> string \<Rightarrow> int \<Rightarrow> event" where
  "result_event request t payload now =
     \<lparr>ev_id = ev_id request @ ''-'' @ t, ev_type = t, ev_aggregate_type = ''order'',
      ev_aggregate_id = ev_aggregate_id request, ev_shard_id = ev_shard_id request, ev_occurred_at = now, ev_payload = payload\<rparr>"

definition matched_event :: "env \<Rightarrow> codec \<Rightarrow> event \<Rightarrow> int \<Rightarrow> int \<Rightarrow> int \<Rightarrow> (world, event) eff" where
  "matched_event en cd request i rider score =
     ebind (lift_res (cd_enc_matched cd \<lparr>om_order_id = i, om_rider_id = rider, om_score = score_int32 score\<rparr>)) (\<lambda>payload.
       ebind (time_now en) (\<lambda>now. ret (result_event request EventOrderMatched payload now)))"

definition missed_event :: "env \<Rightarrow> codec \<Rightarrow> event \<Rightarrow> int \<Rightarrow> (world, event) eff" where
  "missed_event en cd request i =
     ebind (lift_res (cd_enc_missed cd \<lparr>oms_order_id = i, oms_reason = ''no_available_rider''\<rparr>)) (\<lambda>payload.
       ebind (time_now en) (\<lambda>now. ret (result_event request EventOrderMissed payload now)))"

text \<open>The loop over the candidates; \<open>(0, 0)\<close> is no reservation.\<close>

fun match_order ::
  "env \<Rightarrow> codec \<Rightarrow> worker_config \<Rightarrow> event \<Rightarrow> match_requested \<Rightarrow> candidate list \<Rightarrow> (world, int \<times> int) eff" where
  "match_order en cd cfg ev req [] =
     ebind (missed_event en cd ev (mr_order_id req)) (\<lambda>result.
       ebind (wrap_err ''mark order missed: %w''
               (in_tx en (mark_order_missed (mr_order_id req) ''no_available_rider'' (ev_id result) (ev_occurred_at result)))) (\<lambda>updated.
         if updated = 1
         then ebind (in_tx en (create_outbox_event (outbox_of_event result TopicOrderEvents))) (\<lambda>_. ret (0, 0))
         else ret (0, 0)))"
| "match_order en cd cfg ev req (c # cs) = (\<lambda>w.
     case in_tx en (reserve_rider (cd_rider_id c) (wc_max_rider_orders cfg)) w of
       (Inl e, w1) \<Rightarrow> if errors_is e ErrNoRows then match_order en cd cfg ev req cs w1
                      else (Inl (ErrWrap ''reserve rider %d: %w'' e), w1)
     | (Inr rider, w1) \<Rightarrow>
         ebind (matched_event en cd ev (mr_order_id req) (rr_uid rider) (cd_score c)) (\<lambda>result.
           ebind (wrap_err ''mark order matched: %w''
                   (in_tx en (mark_order_matched (mr_order_id req) (rr_uid rider) (score_int32 (cd_score c))
                      (ev_id result) (ev_occurred_at result)))) (\<lambda>updated.
             if updated \<noteq> 1 then throw (ErrMsg ''order %d is no longer match pending'' [FInt (mr_order_id req)])
             else ebind (in_tx en (create_outbox_event (outbox_of_event result TopicOrderEvents)))
                    (\<lambda>_. ret (rr_uid rider, rr_count rider)))) w1)"

definition lock_match_order :: "env \<Rightarrow> int \<Rightarrow> (world, order_row) eff" where
  "lock_match_order en i = (\<lambda>w. case in_tx en (get_order_for_update i) w of
     (Inl e, w') \<Rightarrow> (Inl (if errors_is e ErrNoRows then ErrMsg ''match order %d not found'' [FInt i]
                          else ErrWrap ''lock match order: %w'' e), w')
   | (Inr r, w') \<Rightarrow> (Inr r, w'))"

definition worker_inbox_row :: "log_record \<Rightarrow> int \<Rightarrow> inbox_row" where
  "worker_inbox_row r now = \<lparr>ib_shard_id = wrap32 (ps_shard_id (lr_position r)),
     ib_offset_value = ps_offset (lr_position r), ib_processed_at = now\<rparr>"

definition worker_checkpoint :: "worker_config \<Rightarrow> log_record \<Rightarrow> ownership \<Rightarrow> int \<Rightarrow> unit stmt" where
  "worker_checkpoint cfg r own now =
     upsert_shard_checkpoint ConsumerMatcherWorker (wc_topic cfg) (wrap32 (ps_shard_id (lr_position r)))
       \<lparr>cr_offset_value = wrap64 (ps_offset (lr_position r) + 1), cr_epoch = ow_epoch own,
        cr_node_id = wrap32 (wc_node_id cfg), cr_updated_at = now\<rparr>"

text \<open>The statements of the transaction, and the transaction with its commit.\<close>

definition match_statements ::
  "env \<Rightarrow> codec \<Rightarrow> worker_config \<Rightarrow> log_record \<Rightarrow> ownership \<Rightarrow> match_requested \<Rightarrow> candidate list \<Rightarrow> (world, int \<times> int) eff" where
  "match_statements en cd cfg r own req cands =
     ebind (time_now en) (\<lambda>t1.
     ebind (wrap_err ''record matcher inbox event: %w''
             (in_tx en (record_inbox_event ConsumerMatcherWorker (ev_id (lr_event r)) (worker_inbox_row r t1)))) (\<lambda>inserted.
     ebind (if inserted > 0
            then ebind (lock_match_order en (mr_order_id req)) (\<lambda>ord.
                   if or_status ord = StatusMatchPending then match_order en cd cfg (lr_event r) req cands else ret (0, 0))
            else ret (0, 0)) (\<lambda>reserved.
     ebind (worker_check_fence en cfg (ev_shard_id (lr_event r)) own) (\<lambda>_.
     ebind (time_now en) (\<lambda>t3.
     ebind (wrap_err ''save matcher checkpoint: %w'' (in_tx en (worker_checkpoint cfg r own t3))) (\<lambda>_. ret reserved))))))"

definition match_transaction ::
  "env \<Rightarrow> codec \<Rightarrow> worker_config \<Rightarrow> log_record \<Rightarrow> ownership \<Rightarrow> match_requested \<Rightarrow> candidate list \<Rightarrow> (world, int \<times> int) eff" where
  "match_transaction en cd cfg r own req cands =
     ebind (wrap_err ''begin match transaction: %w'' (begin_tx en)) (\<lambda>_.
       ebind (match_statements en cd cfg r own req cands) (\<lambda>reserved.
         ebind (wrap_err ''commit match transaction: %w'' (commit_tx en)) (\<lambda>_. ret reserved)))"

text \<open>A panic of the candidate search ends the process; it is the error \<open>panic\<close> here.\<close>

definition worker_apply_record ::
  "env \<Rightarrow> ranging \<Rightarrow> codec \<Rightarrow> worker_config \<Rightarrow> log_record \<Rightarrow> ownership \<Rightarrow> (istate \<times> world, unit) eff" where
  "worker_apply_record en it cd cfg r own = (\<lambda>(st, w).
     if ev_type (lr_event r) \<noteq> EventMatchRequested
     then (Inl (ErrMsg ''unsupported matcher event type: %s'' [FStr (ev_type (lr_event r))]), (st, w))
     else case worker_check_fence en cfg (ev_shard_id (lr_event r)) own w of
       (Inl e, w1) \<Rightarrow> (Inl e, (st, w1))
     | (Inr _, w1) \<Rightarrow>
         (case cd_match_requested cd (ev_payload (lr_event r)) of
            Inl e \<Rightarrow> (Inl (ErrWrap ''decode match request: %w'' e), (st, w1))
          | Inr req \<Rightarrow>
              (case find_candidates it st \<lparr>o_id = mr_order_id req, o_x = mr_x req, o_y = mr_y req\<rparr> (wc_candidate_limit cfg) of
                 None \<Rightarrow> (Inl (ErrExternal ''panic''), (st, w1))
               | Some cands \<Rightarrow>
                   (case match_transaction en cd cfg r own req cands w1 of
                      (Inl e, w2) \<Rightarrow> (Inl e, (st, w2))
                    | (Inr (u, n), w2) \<Rightarrow> (Inr (), (if u \<noteq> 0 then set_rider_count u n st else st, w2))))))"

section \<open>What a request does to the tables\<close>

text \<open>The first candidate that can take one more order.\<close>

definition can_take :: "database \<Rightarrow> int \<Rightarrow> candidate \<Rightarrow> bool" where
  "can_take db max_count c \<longleftrightarrow>
     (case tb_riders db (cd_rider_id c) of None \<Rightarrow> False | Some r \<Rightarrow> rr_online r \<and> rr_count r < max_count)"

definition add_outbox :: "outbox_row \<Rightarrow> database \<Rightarrow> database" where
  "add_outbox b db = snd (create_outbox_event b db)"

definition matched_db :: "codec \<Rightarrow> worker_config \<Rightarrow> event \<Rightarrow> match_requested \<Rightarrow> candidate \<Rightarrow> int \<Rightarrow> database \<Rightarrow> go_error + (int \<times> int) \<times> database" where
  "matched_db cd cfg ev req c now db =
     (case (tb_riders db (cd_rider_id c), tb_orders db (mr_order_id req)) of
        (Some r, Some o1) \<Rightarrow>
          (case cd_enc_matched cd \<lparr>om_order_id = mr_order_id req, om_rider_id = rr_uid r, om_score = score_int32 (cd_score c)\<rparr> of
             Inl e \<Rightarrow> Inl e
           | Inr payload \<Rightarrow>
               (let result = result_event ev EventOrderMatched payload now
                in Inr ((rr_uid r, rr_count r + 1),
                     add_outbox (outbox_of_event result TopicOrderEvents)
                       (db\<lparr>tb_riders := (tb_riders db)(cd_rider_id c \<mapsto> r\<lparr>rr_count := rr_count r + 1\<rparr>),
                           tb_orders := (tb_orders db)(mr_order_id req \<mapsto> o1\<lparr>or_status := StatusMatched, or_rider_id := rr_uid r,
                             or_score := score_int32 (cd_score c), or_last_event_id := ev_id result, or_updated_at := now\<rparr>)\<rparr>))))
      | _ \<Rightarrow> Inl ErrNoRows)"

definition missed_db :: "codec \<Rightarrow> event \<Rightarrow> match_requested \<Rightarrow> int \<Rightarrow> database \<Rightarrow> go_error + (int \<times> int) \<times> database" where
  "missed_db cd ev req now db =
     (case tb_orders db (mr_order_id req) of
        None \<Rightarrow> Inl ErrNoRows
      | Some o1 \<Rightarrow>
          (case cd_enc_missed cd \<lparr>oms_order_id = mr_order_id req, oms_reason = ''no_available_rider''\<rparr> of
             Inl e \<Rightarrow> Inl e
           | Inr payload \<Rightarrow>
               (let result = result_event ev EventOrderMissed payload now
                in Inr ((0, 0), add_outbox (outbox_of_event result TopicOrderEvents)
                     (db\<lparr>tb_orders := (tb_orders db)(mr_order_id req \<mapsto> o1\<lparr>or_status := StatusMissed,
                         or_miss_reason := ''no_available_rider'', or_last_event_id := ev_id result, or_updated_at := now\<rparr>)\<rparr>)))))"

definition match_db :: "codec \<Rightarrow> worker_config \<Rightarrow> event \<Rightarrow> match_requested \<Rightarrow> candidate list \<Rightarrow> int \<Rightarrow> database \<Rightarrow> go_error + (int \<times> int) \<times> database" where
  "match_db cd cfg ev req cands now db =
     (case filter (can_take db (wc_max_rider_orders cfg)) cands of
        [] \<Rightarrow> missed_db cd ev req now db
      | c # _ \<Rightarrow> matched_db cd cfg ev req c now db)"

text \<open>The transaction, given the three readings of the clock.\<close>

definition request_db ::
  "codec \<Rightarrow> worker_config \<Rightarrow> log_record \<Rightarrow> ownership \<Rightarrow> match_requested \<Rightarrow> candidate list \<Rightarrow> int \<times> int \<times> int \<Rightarrow>
   database \<Rightarrow> go_error + (int \<times> int) \<times> database" where
  "request_db cd cfg r own req cands ts db =
     (case ts of (t1, t2, t3) \<Rightarrow>
       (let seen = tb_inbox db (ConsumerMatcherWorker, ev_id (lr_event r)) \<noteq> None;
            db1 = snd (record_inbox_event ConsumerMatcherWorker (ev_id (lr_event r)) (worker_inbox_row r t1) db);
            step = (if seen then Inr ((0, 0), db1)
                    else case tb_orders db (mr_order_id req) of
                           None \<Rightarrow> Inl (ErrMsg ''match order %d not found'' [FInt (mr_order_id req)])
                         | Some o1 \<Rightarrow> if or_status o1 = StatusMatchPending
                                      then match_db cd cfg (lr_event r) req cands t2 db1 else Inr ((0, 0), db1))
        in case step of Inl e \<Rightarrow> Inl e
           | Inr (x, db2) \<Rightarrow> Inr (x, snd (worker_checkpoint cfg r own t3 db2))))"

section \<open>The transaction is the function\<close>

text \<open>
  \<open>leads m R\<close>: the steps \<open>m\<close> leave the committed tables alone, and when they report no error they
  take the transaction's tables to tables related to them by \<open>R\<close>.
\<close>

definition leads :: "(world, 'a) eff \<Rightarrow> (database \<Rightarrow> 'a \<Rightarrow> database \<Rightarrow> bool) \<Rightarrow> bool" where
  "leads m R \<longleftrightarrow> (\<forall>w r w'. m w = (r, w') \<longrightarrow> w_db w' = w_db w \<and> (\<forall>x. r = Inr x \<longrightarrow> R (w_tx w) x (w_tx w')))"

lemma leadsD: "leads m R \<Longrightarrow> m w = (r, w') \<Longrightarrow> w_db w' = w_db w"
  "leads m R \<Longrightarrow> m w = (Inr x, w') \<Longrightarrow> R (w_tx w) x (w_tx w')"
  by (auto simp: leads_def)

lemma leadsI: "(\<And>w r w'. m w = (r, w') \<Longrightarrow> w_db w' = w_db w) \<Longrightarrow>
    (\<And>w x w'. m w = (Inr x, w') \<Longrightarrow> R (w_tx w) x (w_tx w')) \<Longrightarrow> leads m R"
  by (auto simp: leads_def)

lemma leads_mono: "leads m R \<Longrightarrow> (\<And>db x db'. R db x db' \<Longrightarrow> R' db x db') \<Longrightarrow> leads m R'"
  unfolding leads_def by blast

lemma leads_bind:
  assumes "leads m R" "\<And>x. leads (m' x) (R' x)"
  shows "leads (ebind m m') (\<lambda>db y db'. \<exists>x db1. R db x db1 \<and> R' x db1 y db')"
proof (rule leadsI)
  fix w r w' assume e: "ebind m m' w = (r, w')"
  obtain r1 w1 where 1: "m w = (r1, w1)" by fastforce
  show "w_db w' = w_db w"
    using e 1 leadsD(1)[OF assms(1) 1] leadsD(1)[OF assms(2)] by (cases r1) auto
next
  fix w y w' assume e: "ebind m m' w = (Inr y, w')"
  then obtain x w1 where "m w = (Inr x, w1)" "m' x w1 = (Inr y, w')" by (auto simp: ebind_ok_iff)
  then show "\<exists>x db1. R (w_tx w) x db1 \<and> R' x db1 y (w_tx w')"
    using leadsD(2)[OF assms(1)] leadsD(2)[OF assms(2)] by blast
qed

lemma leads_ret: "leads (ret x) (\<lambda>db y db'. y = x \<and> db' = db)" by (simp add: leads_def)
lemma leads_throw: "leads (throw e) R" by (simp add: leads_def)
lemma leads_lift: "leads (lift_res r) (\<lambda>db y db'. r = Inr y \<and> db' = db)" by (simp add: leads_def)
lemma leads_now: "leads (time_now en) (\<lambda>db t db'. db' = db)" by (simp add: leads_def time_now_def)

lemma leads_wrap: "leads m R \<Longrightarrow> leads (wrap_err msg m) R"
  by (auto simp: leads_def wrap_err_def split: prod.splits sum.splits)

lemma leads_stmt: "leads (in_tx en q) (\<lambda>db x db'. q db = (Inr x, db'))"
  by (rule leadsI) (use in_tx_db in_tx_ok in fast)+

lemma leads_fence: "leads (worker_check_fence en cfg k own) (\<lambda>db x db'. db' = db)"
  by (auto simp: leads_def worker_check_fence_def ebind_def owner_of_def split: if_splits sum.splits option.splits)

lemma leads_if: "(b \<Longrightarrow> leads m R) \<Longrightarrow> (\<not> b \<Longrightarrow> leads m' R') \<Longrightarrow>
    leads (if b then m else m') (\<lambda>db x db'. if b then R db x db' else R' db x db')"
  by simp

text \<open>The order waits for a match.\<close>

definition pending :: "database \<Rightarrow> int \<Rightarrow> bool" where
  "pending db i \<longleftrightarrow> (\<exists>o1. tb_orders db i = Some o1 \<and> or_status o1 = StatusMatchPending)"

lemma pending_riders [simp]: "pending (db\<lparr>tb_riders := rs\<rparr>) i = pending db i" "pending (db\<lparr>tb_inbox := ib\<rparr>) i = pending db i"
  by (simp_all add: pending_def)

lemma leads_outbox: "leads (in_tx en (create_outbox_event r)) (\<lambda>db x db'. db' = add_outbox r db)"
  by (rule leads_mono[OF leads_stmt]) (simp add: add_outbox_def)

lemma mark_missed_pending:
  "pending db i \<Longrightarrow> mark_order_missed i reason e t db =
     (Inr 1, db\<lparr>tb_orders := (tb_orders db)(i \<mapsto> (the (tb_orders db i))\<lparr>or_status := StatusMissed, or_miss_reason := reason,
        or_last_event_id := e, or_updated_at := t\<rparr>)\<rparr>)"
  by (auto simp: pending_def mark_order_missed_def status_defs)

lemma leads_missed:
  "leads (match_order en cd cfg ev req []) (\<lambda>db x db'. pending db (mr_order_id req) \<longrightarrow> (\<exists>t. missed_db cd ev req t db = Inr (x, db')))"
  unfolding match_order.simps missed_event_def ebind_assoc ebind_ret
proof (rule leads_mono[OF leads_bind[OF leads_lift leads_bind[OF leads_now leads_bind[OF leads_wrap[OF leads_stmt]
          leads_if[OF leads_bind[OF leads_outbox leads_ret] leads_ret]]]]], rule impI, elim exE conjE, goal_cases)
  case (1 db x db' payload _ t db0 updated db1)
  then show ?case by (intro exI[of _ t]) (auto simp: mark_missed_pending missed_db_def pending_def result_event_def Let_def)
qed

text \<open>What follows a reservation of rider \<open>c\<close>, whose row was \<open>r\<close>.\<close>

lemma leads_matched:
  "leads (ebind (matched_event en cd ev (mr_order_id req) (rr_uid r1) (cd_score c)) (\<lambda>result.
           ebind (wrap_err ''mark order matched: %w''
                   (in_tx en (mark_order_matched (mr_order_id req) (rr_uid r1) (score_int32 (cd_score c))
                      (ev_id result) (ev_occurred_at result)))) (\<lambda>updated.
             if updated \<noteq> 1 then throw (ErrMsg ''order %d is no longer match pending'' [FInt (mr_order_id req)])
             else ebind (in_tx en (create_outbox_event (outbox_of_event result TopicOrderEvents)))
                    (\<lambda>_. ret (rr_uid r1, rr_count r1)))))
     (\<lambda>db1 x db'. \<forall>db r. tb_riders db (cd_rider_id c) = Some r \<longrightarrow> r1 = r\<lparr>rr_count := rr_count r + 1\<rparr> \<longrightarrow>
        db1 = db\<lparr>tb_riders := (tb_riders db)(cd_rider_id c \<mapsto> r1)\<rparr> \<longrightarrow> pending db (mr_order_id req) \<longrightarrow>
        (\<exists>t. matched_db cd cfg ev req c t db = Inr (x, db')))"
  unfolding matched_event_def ebind_assoc ebind_ret
  by (rule leads_mono[OF leads_bind[OF leads_lift leads_bind[OF leads_now leads_bind[OF leads_wrap[OF leads_stmt]
          leads_if[OF leads_throw[where R = "\<lambda>_ _ _. False"] leads_bind[OF leads_outbox leads_ret]]]]]])
     (auto simp: pending_def matched_db_def mark_order_matched_def result_event_def Let_def status_defs split: if_splits option.splits)

lemma leads_match_order:
  assumes h: "honest en"
  shows "leads (match_order en cd cfg ev req cands)
     (\<lambda>db x db'. pending db (mr_order_id req) \<longrightarrow> (\<exists>t. match_db cd cfg ev req cands t db = Inr (x, db')))"
proof (induction cands)
  case Nil
  show ?case by (rule leads_mono[OF leads_missed]) (simp add: match_db_def)
next
  case (Cons c cs)
  let ?take = "can_take"
  note M = leads_matched[of en cd ev req _ c cfg]
  show ?case
  proof (rule leadsI)
    fix w res w' assume e: "match_order en cd cfg ev req (c # cs) w = (res, w')"
    obtain q w1 where 1: "in_tx en (reserve_rider (cd_rider_id c) (wc_max_rider_orders cfg)) w = (q, w1)" by fastforce
    have "w_db w1 = w_db w" by (rule in_tx_db[OF 1])
    then show "w_db w' = w_db w"
      using e 1 leadsD(1)[OF M] leadsD(1)[OF Cons.IH] by (cases q) (auto split: if_splits)
  next
    fix w x w' assume e: "match_order en cd cfg ev req (c # cs) w = (Inr x, w')"
    obtain q w1 where 1: "in_tx en (reserve_rider (cd_rider_id c) (wc_max_rider_orders cfg)) w = (q, w1)" by fastforce
    show "pending (w_tx w) (mr_order_id req) \<longrightarrow> (\<exists>t. match_db cd cfg ev req (c # cs) t (w_tx w) = Inr (x, w_tx w'))"
    proof (cases q)
      case (Inl err)
      have nr: "errors_is err ErrNoRows" using e 1 Inl by (simp split: if_splits)
      then have "en_fault en (w_tick w) = None"
        using 1 Inl h by (auto simp: in_tx_def honest_def split: option.splits)
      then have no: "\<not> can_take (w_tx w) (wc_max_rider_orders cfg) c" and same: "w_tx w1 = w_tx w"
        using 1 Inl by (auto simp: in_tx_def reserve_rider_def can_take_def Let_def split: option.splits if_splits)
      have "match_order en cd cfg ev req cs w1 = (Inr x, w')" using e 1 Inl nr by simp
      then show ?thesis using leadsD(2)[OF Cons.IH, of w1 x w'] no same by (simp add: match_db_def)
    next
      case (Inr r1)
      have ok: "reserve_rider (cd_rider_id c) (wc_max_rider_orders cfg) (w_tx w) = (Inr r1, w_tx w1)"
        using in_tx_ok[of en _ w r1 w1] 1 Inr by blast
      then obtain r where r: "tb_riders (w_tx w) (cd_rider_id c) = Some r" "r1 = r\<lparr>rr_count := rr_count r + 1\<rparr>"
          "w_tx w1 = (w_tx w)\<lparr>tb_riders := (tb_riders (w_tx w))(cd_rider_id c \<mapsto> r1)\<rparr>" "rr_online r" "rr_count r < wc_max_rider_orders cfg"
        by (auto simp: reserve_rider_def Let_def split: option.splits if_splits)
      have take: "can_take (w_tx w) (wc_max_rider_orders cfg) c" using r by (simp add: can_take_def)
      have "\<forall>db r. tb_riders db (cd_rider_id c) = Some r \<longrightarrow> r1 = r\<lparr>rr_count := rr_count r + 1\<rparr> \<longrightarrow>
          w_tx w1 = db\<lparr>tb_riders := (tb_riders db)(cd_rider_id c \<mapsto> r1)\<rparr> \<longrightarrow> pending db (mr_order_id req) \<longrightarrow>
          (\<exists>t. matched_db cd cfg ev req c t db = Inr (x, w_tx w'))"
        by (rule leadsD(2)[OF M]) (use e 1 Inr in simp)
      from this[rule_format, OF r(1,2,3)] show ?thesis using take by (simp add: match_db_def)
    qed
  qed
qed

lemma leads_lock:
  "leads (lock_match_order en i) (\<lambda>db o1 db'. tb_orders db i = Some o1 \<and> db' = db)"
  by (auto simp: leads_def lock_match_order_def in_tx_def get_order_for_update_def split: prod.splits sum.splits option.splits)

lemma record_inbox_run:
  "record_inbox_event consumer e row db = (Inr n, db') \<Longrightarrow>
     db' = snd (record_inbox_event consumer e row db) \<and> (n > 0 \<longleftrightarrow> tb_inbox db (consumer, e) = None)"
  "pending (snd (record_inbox_event consumer e row db)) i = pending db i"
  "tb_orders (snd (record_inbox_event consumer e row db)) = tb_orders db"
  by (auto simp: record_inbox_event_def split: if_splits)

lemma worker_checkpoint_run: "worker_checkpoint cfg r own t db = (Inr u, db') \<Longrightarrow> db' = snd (worker_checkpoint cfg r own t db)"
  by (simp add: worker_checkpoint_def upsert_shard_checkpoint_def Let_def split: option.split)

lemma leads_statements:
  assumes h: "honest en"
  shows "leads (match_statements en cd cfg r own req cands)
     (\<lambda>db x db'. \<exists>ts. request_db cd cfg r own req cands ts db = Inr (x, db'))"
  unfolding match_statements_def
proof (rule leads_mono[OF leads_bind[OF leads_now leads_bind[OF leads_wrap[OF leads_stmt] leads_bind[OF
          leads_if[OF leads_bind[OF leads_lock leads_if[OF leads_match_order[OF h] leads_ret]] leads_ret]
          leads_bind[OF leads_fence leads_bind[OF leads_now leads_bind[OF leads_wrap[OF leads_stmt] leads_ret]]]]]]],
       elim exE conjE, goal_cases)
  case (1 db x db' t1 db0 inserted db1 reserved db2 _ db3 t3 db4 _ db5)
  note ins = record_inbox_run(1)[OF 1(2)[unfolded 1(1)]]
  have db1: "db1 = snd (record_inbox_event ConsumerMatcherWorker (ev_id (lr_event r)) (worker_inbox_row r t1) db)"
    and n: "inserted > 0 \<longleftrightarrow> tb_inbox db (ConsumerMatcherWorker, ev_id (lr_event r)) = None"
    using ins by simp_all
  have o1: "tb_orders db1 = tb_orders db" unfolding db1 by (rule record_inbox_run(3))
  have fin: "x = reserved" "db' = snd (worker_checkpoint cfg r own t3 db2)"
    using 1(4-) worker_checkpoint_run by auto
  show ?case
  proof (cases "inserted > 0")
    case False
    then have "reserved = (0, 0)" "db2 = db1" using 1(3) by simp_all
    then show ?thesis using fin n db1 False by (intro exI[of _ "(t1, 0, t3)"]) (simp add: request_db_def Let_def)
  next
    case True
    then obtain ord where ord: "tb_orders db (mr_order_id req) = Some ord"
      and c: "if or_status ord = StatusMatchPending
              then pending db1 (mr_order_id req) \<longrightarrow> (\<exists>t. match_db cd cfg (lr_event r) req cands t db1 = Inr (reserved, db2))
              else reserved = (0, 0) \<and> db2 = db1"
      using 1(3) o1 by auto
    show ?thesis
    proof (cases "or_status ord = StatusMatchPending")
      case p: True
      then have "pending db1 (mr_order_id req)" using ord o1 by (simp add: pending_def)
      then obtain t where "match_db cd cfg (lr_event r) req cands t db1 = Inr (reserved, db2)" using c p by auto
      then show ?thesis using fin n db1 True ord p by (intro exI[of _ "(t1, t, t3)"]) (simp add: request_db_def Let_def)
    next
      case False
      then show ?thesis using c fin n db1 True ord by (intro exI[of _ "(t1, 0, t3)"]) (simp add: request_db_def Let_def)
    qed
  qed
qed

lemma worker_fence_world: "worker_check_fence en cfg k own w = (r, w') \<Longrightarrow> w_db w' = w_db w \<and> w_tx w' = w_tx w"
  by (auto simp: worker_check_fence_def ebind_def owner_of_def split: if_splits sum.splits option.splits)

lemma transaction_outcome:
  assumes h: "honest en" and e: "match_transaction en cd cfg r own req cands w = (res, w')"
  shows "(\<exists>x ts. res = Inr x \<and> request_db cd cfg r own req cands ts (w_db w) = Inr (x, w_db w')) \<or>
    (\<exists>err. res = Inl err \<and> (w_db w' = w_db w \<or> (\<exists>x ts. request_db cd cfg r own req cands ts (w_db w) = Inr (x, w_db w'))))"
proof -
  obtain r1 w1 where 1: "wrap_err ''begin match transaction: %w'' (begin_tx en) w = (r1, w1)" by fastforce
  have d1: "w_db w1 = w_db w" "r1 = Inr () \<Longrightarrow> w_tx w1 = w_db w"
    using 1 by (auto simp: wrap_err_def begin_tx_def split: option.splits)
  obtain r2 w2 where 2: "match_statements en cd cfg r own req cands w1 = (r2, w2)" by fastforce
  note d2 = leadsD(1)[OF leads_statements[OF h] 2]
  obtain r3 w3 where 3: "wrap_err ''commit match transaction: %w'' (commit_tx en) w2 = (r3, w3)" by fastforce
  have d3: "(r3 = Inr () \<and> w_db w3 = w_tx w2) \<or> (\<exists>e. r3 = Inl e \<and> (w_db w3 = w_db w2 \<or> w_db w3 = w_tx w2))"
    using 3 commit_cases[of en w2] by (auto simp: wrap_err_def split: prod.splits sum.splits)
  have "(\<exists>e. res = Inl e \<and> (w' = w1 \<or> w' = w2)) \<or>
      (\<exists>x. r1 = Inr () \<and> r2 = Inr x \<and> w' = w3 \<and> res = (case r3 of Inl e \<Rightarrow> Inl e | Inr _ \<Rightarrow> Inr x))"
    using e 1 2 3 unfolding match_transaction_def by (cases r1; cases r2; cases r3) auto
  then consider (early) e where "res = Inl e" "w' = w1 \<or> w' = w2"
    | (commit) x where "r1 = Inr ()" "r2 = Inr x" "w' = w3" "res = (case r3 of Inl e \<Rightarrow> Inl e | Inr _ \<Rightarrow> Inr x)" by blast
  then show ?thesis
  proof cases
    case early
    then show ?thesis using d1(1) d2 by auto
  next
    case commit
    obtain ts where "request_db cd cfg r own req cands ts (w_tx w1) = Inr (x, w_tx w2)"
      using leadsD(2)[OF leads_statements[OF h]] 2 commit(2) by blast
    then have "request_db cd cfg r own req cands ts (w_db w) = Inr (x, w_tx w2)" using d1(2)[OF commit(1)] by simp
    then have Q: "\<exists>x ts. request_db cd cfg r own req cands ts (w_db w) = Inr (x, w_tx w2)"
      and Q': "\<exists>ts. request_db cd cfg r own req cands ts (w_db w) = Inr (x, w_tx w2)" by blast+
    from d3 show ?thesis
    proof
      assume a: "r3 = Inr () \<and> w_db w3 = w_tx w2"
      show ?thesis by (rule disjI1) (use a Q' commit(3,4) in simp)
    next
      assume "\<exists>e. r3 = Inl e \<and> (w_db w3 = w_db w2 \<or> w_db w3 = w_tx w2)"
      then show ?thesis using Q commit(3,4) d1(1) d2 by (intro disjI2) auto
    qed
  qed
qed

text \<open>What \<open>ApplyRecordWithFence\<close> looks up before the transaction.\<close>

definition request_of :: "ranging \<Rightarrow> codec \<Rightarrow> worker_config \<Rightarrow> log_record \<Rightarrow> istate \<Rightarrow> (match_requested \<times> candidate list) option" where
  "request_of it cd cfg r st =
     (case cd_match_requested cd (ev_payload (lr_event r)) of
        Inl e \<Rightarrow> None
      | Inr req \<Rightarrow> map_option (Pair req)
          (find_candidates it st \<lparr>o_id = mr_order_id req, o_x = mr_x req, o_y = mr_y req\<rparr> (wc_candidate_limit cfg)))"

definition after_reserve :: "int \<times> int \<Rightarrow> istate \<Rightarrow> istate" where
  "after_reserve x st = (if fst x \<noteq> 0 then set_rider_count (fst x) (snd x) st else st)"

lemma worker_outcome:
  assumes h: "honest en" and e: "worker_apply_record en it cd cfg r own (st, w) = (res, (st', w'))"
  shows "(res = Inr () \<and> ev_type (lr_event r) = EventMatchRequested \<and>
       (\<exists>req cands x ts. request_of it cd cfg r st = Some (req, cands) \<and>
          request_db cd cfg r own req cands ts (w_db w) = Inr (x, w_db w') \<and> st' = after_reserve x st)) \<or>
    (\<exists>err. res = Inl err \<and> st' = st \<and> (w_db w' = w_db w \<or>
       (\<exists>req cands x ts. request_of it cd cfg r st = Some (req, cands) \<and>
          request_db cd cfg r own req cands ts (w_db w) = Inr (x, w_db w'))))"
proof (cases "ev_type (lr_event r) = EventMatchRequested")
  case False
  then show ?thesis using e by (auto simp: worker_apply_record_def)
next
  case ty: True
  obtain r1 w1 where 1: "worker_check_fence en cfg (ev_shard_id (lr_event r)) own w = (r1, w1)" by fastforce
  have d1: "w_db w1 = w_db w" using worker_fence_world[OF 1] by simp
  show ?thesis
  proof (cases "\<exists>u. r1 = Inr u \<and> request_of it cd cfg r st \<noteq> None")
    case False
    then have "\<exists>err. res = Inl err \<and> st' = st \<and> w' = w1"
      using e 1 ty by (cases r1) (auto simp: worker_apply_record_def request_of_def split: sum.splits option.splits)
    then show ?thesis using d1 by auto
  next
    case True
    then obtain req cands where rq: "request_of it cd cfg r st = Some (req, cands)" and r1: "r1 = Inr ()" by auto
    obtain r2 w2 where 2: "match_transaction en cd cfg r own req cands w1 = (r2, w2)" by fastforce
    have "res = (case r2 of Inl err \<Rightarrow> Inl err | Inr x \<Rightarrow> Inr ()) \<and> w' = w2 \<and>
        st' = (case r2 of Inl err \<Rightarrow> st | Inr x \<Rightarrow> after_reserve x st)"
      using e 1 r1 rq 2 ty unfolding worker_apply_record_def request_of_def after_reserve_def
      by (auto split: sum.splits option.splits prod.splits)
    then show ?thesis
      using transaction_outcome[OF h 2] ty rq d1 by (cases r2; simp del: split_paired_Ex; blast)
  qed
qed

section \<open>The effect on the tables\<close>

lemma add_outbox_frame [simp]: "tb_orders (add_outbox b db) = tb_orders db" "tb_riders (add_outbox b db) = tb_riders db"
  "tb_inbox (add_outbox b db) = tb_inbox db" "tb_checkpoints (add_outbox b db) = tb_checkpoints db"
  by (simp_all add: add_outbox_def create_outbox_event_def)

lemma add_outbox_in: "ob_event_id b \<in> ob_event_id ` set (tb_outbox (add_outbox b db))"
  by (auto simp: add_outbox_def create_outbox_event_def)

lemma inbox_frame [simp]: "tb_riders (snd (record_inbox_event c e row db)) = tb_riders db"
  "tb_outbox (snd (record_inbox_event c e row db)) = tb_outbox db"
  "\<exists>y. tb_inbox (snd (record_inbox_event c e row db)) (c, e) = Some y"
  by (auto simp: record_inbox_event_def)

lemma worker_checkpoint_frame [simp]: "tb_orders (snd (worker_checkpoint cfg r own t db)) = tb_orders db"
  "tb_riders (snd (worker_checkpoint cfg r own t db)) = tb_riders db" "tb_inbox (snd (worker_checkpoint cfg r own t db)) = tb_inbox db"
  "tb_outbox (snd (worker_checkpoint cfg r own t db)) = tb_outbox db"
  by (auto simp: worker_checkpoint_def upsert_shard_checkpoint_def Let_def split: option.split)

lemma can_take_cong: "tb_riders db' = tb_riders db \<Longrightarrow> can_take db' n = can_take db n"
  by (simp add: can_take_def fun_eq_iff)

lemma request_db_cases:
  assumes "request_db cd cfg r own req cands ts db = Inr (x, db')"
  obtains (idle) "x = (0, 0)" "tb_orders db' = tb_orders db" "tb_riders db' = tb_riders db" "tb_outbox db' = tb_outbox db"
      "tb_inbox db (ConsumerMatcherWorker, ev_id (lr_event r)) \<noteq> None \<or> \<not> pending db (mr_order_id req)"
  | (missed) o1 t where "filter (can_take db (wc_max_rider_orders cfg)) cands = []" "tb_orders db (mr_order_id req) = Some o1"
      "or_status o1 = StatusMatchPending" "tb_inbox db (ConsumerMatcherWorker, ev_id (lr_event r)) = None" "x = (0, 0)" "tb_riders db' = tb_riders db"
      "tb_orders db' = (tb_orders db)(mr_order_id req \<mapsto> o1\<lparr>or_status := StatusMissed, or_miss_reason := ''no_available_rider'',
         or_last_event_id := ev_id (lr_event r) @ ''-'' @ EventOrderMissed, or_updated_at := t\<rparr>)"
      "ev_id (lr_event r) @ ''-'' @ EventOrderMissed \<in> ob_event_id ` set (tb_outbox db')"
  | (matched) c rest rd o1 t where "filter (can_take db (wc_max_rider_orders cfg)) cands = c # rest"
      "tb_riders db (cd_rider_id c) = Some rd" "rr_count rd < wc_max_rider_orders cfg" "tb_orders db (mr_order_id req) = Some o1"
      "or_status o1 = StatusMatchPending" "tb_inbox db (ConsumerMatcherWorker, ev_id (lr_event r)) = None" "x = (rr_uid rd, rr_count rd + 1)"
      "tb_riders db' = (tb_riders db)(cd_rider_id c \<mapsto> rd\<lparr>rr_count := rr_count rd + 1\<rparr>)"
      "tb_orders db' = (tb_orders db)(mr_order_id req \<mapsto> o1\<lparr>or_status := StatusMatched, or_rider_id := rr_uid rd,
         or_score := score_int32 (cd_score c), or_last_event_id := ev_id (lr_event r) @ ''-'' @ EventOrderMatched, or_updated_at := t\<rparr>)"
      "ev_id (lr_event r) @ ''-'' @ EventOrderMatched \<in> ob_event_id ` set (tb_outbox db')"
proof -
  obtain t1 t2 t3 where ts: "ts = (t1, t2, t3)" by (cases ts)
  let ?k = "(ConsumerMatcherWorker, ev_id (lr_event r))" and ?i = "mr_order_id req"
  let ?db1 = "snd (record_inbox_event ConsumerMatcherWorker (ev_id (lr_event r)) (worker_inbox_row r t1) db)"
  note fr = record_inbox_run(3)[of ConsumerMatcherWorker "ev_id (lr_event r)" "worker_inbox_row r t1" db]
  show ?thesis
  proof (cases "tb_inbox db ?k \<noteq> None \<or> \<not> pending db ?i")
    case True
    then have "x = (0, 0) \<and> db' = snd (worker_checkpoint cfg r own t3 ?db1)"
      using assms unfolding ts request_db_def pending_def by (auto simp: Let_def split: option.splits if_splits)
    then have e: "x = (0, 0)" "db' = snd (worker_checkpoint cfg r own t3 ?db1)" by simp_all
    show ?thesis by (rule idle) (use e fr True in simp_all)
  next
    case False
    then obtain o1 where o1: "tb_orders db ?i = Some o1" "or_status o1 = StatusMatchPending" and k: "tb_inbox db ?k = None"
      by (auto simp: pending_def)
    from assms obtain db2 where m: "match_db cd cfg (lr_event r) req cands t2 ?db1 = Inr (x, db2)"
      and db': "db' = snd (worker_checkpoint cfg r own t3 db2)"
      unfolding ts request_db_def using o1 k by (auto simp: Let_def split: sum.splits)
    have f: "can_take ?db1 (wc_max_rider_orders cfg) = can_take db (wc_max_rider_orders cfg)" by (rule can_take_cong) simp
    show ?thesis
    proof (cases "filter (can_take db (wc_max_rider_orders cfg)) cands")
      case Nil
      obtain payload where M: "x = (0, 0)" "db2 = add_outbox (outbox_of_event (result_event (lr_event r) EventOrderMissed payload t2) TopicOrderEvents)
           (?db1\<lparr>tb_orders := (tb_orders db)(?i \<mapsto> o1\<lparr>or_status := StatusMissed, or_miss_reason := ''no_available_rider'',
              or_last_event_id := ev_id (lr_event r) @ ''-'' @ EventOrderMissed, or_updated_at := t2\<rparr>)\<rparr>)"
        using m Nil o1 fr unfolding match_db_def f by (auto simp: missed_db_def result_event_def Let_def split: sum.splits)
      show ?thesis
        using missed[OF Nil o1 k M(1), of t2] add_outbox_in[of "outbox_of_event (result_event (lr_event r) EventOrderMissed payload t2) TopicOrderEvents"]
        unfolding db' M(2) by (simp add: outbox_of_event_def result_event_def)
    next
      case (Cons c rest)
      have "can_take db (wc_max_rider_orders cfg) c" using Cons by (metis filter_eq_ConsD)
      then obtain rd where rd: "tb_riders db (cd_rider_id c) = Some rd" "rr_count rd < wc_max_rider_orders cfg"
        by (auto simp: can_take_def split: option.splits)
      obtain payload where M: "x = (rr_uid rd, rr_count rd + 1)"
         "db2 = add_outbox (outbox_of_event (result_event (lr_event r) EventOrderMatched payload t2) TopicOrderEvents)
           (?db1\<lparr>tb_riders := (tb_riders db)(cd_rider_id c \<mapsto> rd\<lparr>rr_count := rr_count rd + 1\<rparr>),
              tb_orders := (tb_orders db)(?i \<mapsto> o1\<lparr>or_status := StatusMatched, or_rider_id := rr_uid rd, or_score := score_int32 (cd_score c),
              or_last_event_id := ev_id (lr_event r) @ ''-'' @ EventOrderMatched, or_updated_at := t2\<rparr>)\<rparr>)"
        using m Cons o1 rd fr unfolding match_db_def f by (auto simp: matched_db_def result_event_def Let_def split: sum.splits)
      show ?thesis
        using matched[OF Cons rd o1 k M(1), of t2] add_outbox_in[of "outbox_of_event (result_event (lr_event r) EventOrderMatched payload t2) TopicOrderEvents"]
        unfolding db' M(2) by (simp add: outbox_of_event_def result_event_def)
    qed
  qed
qed

lemma request_db_inbox:
  assumes "request_db cd cfg r own req cands ts db = Inr (x, db')"
  shows "tb_inbox db' (ConsumerMatcherWorker, ev_id (lr_event r)) \<noteq> None"
proof -
  obtain t1 t2 t3 where ts: "ts = (t1, t2, t3)" by (cases ts)
  have "tb_inbox db2 = tb_inbox db1" if "match_db cd cfg (lr_event r) req cands t2 db1 = Inr (y, db2)" for db1 db2 y
    using that by (auto simp: match_db_def missed_db_def matched_db_def Let_def split: list.splits option.splits sum.splits)
  then show ?thesis
    using assms unfolding ts request_db_def by (auto simp: Let_def split: option.splits if_splits sum.splits)
qed

section \<open>Properties\<close>

text \<open>The riders' rows stand under their identifiers.\<close>

definition riders_ok :: "database \<Rightarrow> bool" where
  "riders_ok db \<longleftrightarrow> (\<forall>u r. tb_riders db u = Some r \<longrightarrow> rr_uid r = u)"

definition order_status :: "database \<Rightarrow> int \<Rightarrow> string" where
  "order_status db i = (case tb_orders db i of None \<Rightarrow> [] | Some o1 \<Rightarrow> or_status o1)"

definition matched_orders :: "database \<Rightarrow> int \<Rightarrow> int set" where
  "matched_orders db u = {i. \<exists>o1. tb_orders db i = Some o1 \<and> or_status o1 = StatusMatched \<and> or_rider_id o1 = u}"

text \<open>
  Property C15. A match request is answered by the first candidate with capacity: for a request not seen
  before, about an order that waits for a match, a successful application matches the order to the
  first rider of the candidate list that is on line and below the limit and reserves exactly one
  place for it, in the table and then in the index; if no candidate qualifies the order is missed and
  no rider changes. Either way the result event stands in the outbox.
\<close>

theorem match_picks_first_available:
  assumes "honest en" "worker_apply_record en it cd cfg r own (st, w) = (Inr (), (st', w'))"
    and "request_of it cd cfg r st = Some (req, cands)" "riders_ok (w_db w)"
    and "tb_inbox (w_db w) (ConsumerMatcherWorker, ev_id (lr_event r)) = None"
    and "tb_orders (w_db w) (mr_order_id req) = Some o1" "or_status o1 = StatusMatchPending"
  shows "case filter (can_take (w_db w) (wc_max_rider_orders cfg)) cands of
      [] \<Rightarrow> order_status (w_db w') (mr_order_id req) = StatusMissed \<and> tb_riders (w_db w') = tb_riders (w_db w) \<and> st' = st \<and>
            ev_id (lr_event r) @ ''-'' @ EventOrderMissed \<in> ob_event_id ` set (tb_outbox (w_db w'))
    | c # _ \<Rightarrow> mr_order_id req \<in> matched_orders (w_db w') (cd_rider_id c) \<and>
            (\<exists>rd. tb_riders (w_db w) (cd_rider_id c) = Some rd \<and>
               tb_riders (w_db w') = (tb_riders (w_db w))(cd_rider_id c \<mapsto> rd\<lparr>rr_count := rr_count rd + 1\<rparr>) \<and>
               st' = after_reserve (cd_rider_id c, rr_count rd + 1) st) \<and>
            ev_id (lr_event r) @ ''-'' @ EventOrderMatched \<in> ob_event_id ` set (tb_outbox (w_db w'))"
proof -
  obtain x ts where q: "request_db cd cfg r own req cands ts (w_db w) = Inr (x, w_db w')" and st': "st' = after_reserve x st"
    using worker_outcome[OF assms(1,2)] assms(3) by auto
  have p: "pending (w_db w) (mr_order_id req)" using assms(6,7) by (simp add: pending_def)
  show ?thesis
    using q
  proof (cases rule: request_db_cases)
    case idle
    then show ?thesis using p assms(5) by simp
  next
    case missed
    then show ?thesis using st' by (simp add: order_status_def after_reserve_def)
  next
    case (matched c rest rd o2 t)
    then have "rr_uid rd = cd_rider_id c" using assms(4) by (simp add: riders_ok_def)
    then show ?thesis using matched st' by (simp add: matched_orders_def)
  qed
qed

text \<open>A run of a worker over many records, each in its own environment, whatever each one returns.\<close>

fun worker_runs ::
  "ranging \<Rightarrow> codec \<Rightarrow> worker_config \<Rightarrow> (env \<times> log_record \<times> ownership) list \<Rightarrow> istate \<times> world \<Rightarrow> istate \<times> world" where
  "worker_runs it cd cfg [] s = s"
| "worker_runs it cd cfg ((en, r, own) # rest) s =
     worker_runs it cd cfg rest (snd (worker_apply_record en it cd cfg r own s))"

definition accounts :: "int \<Rightarrow> database \<Rightarrow> database \<Rightarrow> bool" where
  "accounts n db db' \<longleftrightarrow> riders_ok db' \<and> dom (tb_riders db') = dom (tb_riders db) \<and>
     (\<forall>u rd. tb_riders db u = Some rd \<longrightarrow>
        matched_orders db u \<subseteq> matched_orders db' u \<and> finite (matched_orders db' u - matched_orders db u) \<and>
        (\<exists>rd'. tb_riders db' u = Some rd' \<and> rr_count rd' = rr_count rd + int (card (matched_orders db' u - matched_orders db u)) \<and>
           (rr_count rd \<le> n \<longrightarrow> rr_count rd' \<le> n)))"

lemma accounts_refl: "riders_ok db \<Longrightarrow> accounts n db db"
  by (simp add: accounts_def)

lemma accounts_trans:
  assumes "accounts n a b" "accounts n b c"
  shows "accounts n a c"
  unfolding accounts_def
proof (intro conjI allI impI)
  show "riders_ok c" "dom (tb_riders c) = dom (tb_riders a)" using assms by (simp_all add: accounts_def)
  fix u rd assume a: "tb_riders a u = Some rd"
  let ?A = "matched_orders a u" and ?B = "matched_orders b u" and ?C = "matched_orders c u"
  from assms(1) a obtain rb where b: "?A \<subseteq> ?B" "finite (?B - ?A)" "tb_riders b u = Some rb"
      "rr_count rb = rr_count rd + int (card (?B - ?A))" "rr_count rd \<le> n \<longrightarrow> rr_count rb \<le> n"
    unfolding accounts_def by metis
  from assms(2) b(3) obtain rc where c: "?B \<subseteq> ?C" "finite (?C - ?B)" "tb_riders c u = Some rc"
      "rr_count rc = rr_count rb + int (card (?C - ?B))" "rr_count rb \<le> n \<longrightarrow> rr_count rc \<le> n"
    unfolding accounts_def by metis
  have s: "?C - ?A = (?B - ?A) \<union> (?C - ?B)" using b(1) c(1) by blast
  show "?A \<subseteq> ?C" using b(1) c(1) by blast
  show "finite (?C - ?A)" using b(2) c(2) by (simp add: s)
  have "card (?C - ?A) = card (?B - ?A) + card (?C - ?B)"
    unfolding s by (rule card_Un_disjoint) (use b c in auto)
  then show "\<exists>rd'. tb_riders c u = Some rd' \<and> rr_count rd' = rr_count rd + int (card (?C - ?A)) \<and> (rr_count rd \<le> n \<longrightarrow> rr_count rd' \<le> n)"
    using b c by auto
qed

lemma request_accounts:
  assumes "riders_ok db" "request_db cd cfg r own req cands ts db = Inr (x, db')"
  shows "accounts (wc_max_rider_orders cfg) db db'"
  using assms(2)
proof (cases rule: request_db_cases)
  case idle
  then have "matched_orders db' u = matched_orders db u" for u by (simp add: matched_orders_def)
  then show ?thesis using assms(1) unfolding accounts_def riders_ok_def idle(3) by simp
next
  case (missed o1 t)
  then have "matched_orders db' u = matched_orders db u" for u by (auto simp: matched_orders_def status_defs)
  then show ?thesis using missed assms(1) by (simp add: accounts_def riders_ok_def)
next
  case (matched c rest rd o1 t)
  have id: "rr_uid rd = cd_rider_id c" using matched(2) assms(1) by (simp add: riders_ok_def)
  have m: "matched_orders db' u = (if u = cd_rider_id c then insert (mr_order_id req) (matched_orders db u) else matched_orders db u)"
    and n: "mr_order_id req \<notin> matched_orders db u" for u
    using matched id by (auto simp: matched_orders_def status_defs)
  have d: "insert (mr_order_id req) (matched_orders db u) - matched_orders db u = {mr_order_id req}" for u using n[of u] by blast
  show ?thesis
    unfolding accounts_def m using matched assms(1) id by (auto simp: riders_ok_def d)
qed

lemma worker_step_accounts:
  assumes "honest en" "riders_ok (w_db w)"
  shows "accounts (wc_max_rider_orders cfg) (w_db w) (w_db (snd (snd (worker_apply_record en it cd cfg r own (st, w)))))"
proof -
  obtain res st' w' where e: "worker_apply_record en it cd cfg r own (st, w) = (res, (st', w'))" by (metis prod.exhaust)
  have "w_db w' = w_db w \<or> (\<exists>req cands ts x. request_db cd cfg r own req cands ts (w_db w) = Inr (x, w_db w'))"
    using worker_outcome[OF assms(1) e] by blast
  then show ?thesis using e accounts_refl[OF assms(2)] request_accounts[OF assms(2)] by auto
qed

text \<open>
  Property C16. Riders are never overbooked and every reservation is accounted for: over any run of a
  worker, with failing calls, duplicated records and lost commit replies, the order count of a rider
  grows by exactly the number of orders newly matched to it, no matched order is taken away from its
  rider, no rider appears or disappears, and a count within the limit stays within the limit.
\<close>

theorem reservations_are_accounted:
  assumes "\<forall>(en, r, own) \<in> set calls. honest en" "riders_ok (w_db w)"
    and "tb_riders (w_db w) u = Some rd" "rr_count rd \<le> wc_max_rider_orders cfg"
  shows "let db' = w_db (snd (worker_runs it cd cfg calls (st, w)));
             gained = matched_orders db' u - matched_orders (w_db w) u
         in matched_orders (w_db w) u \<subseteq> matched_orders db' u \<and> finite gained \<and>
            (\<exists>rd'. tb_riders db' u = Some rd' \<and> rr_count rd' = rr_count rd + int (card gained) \<and>
               rr_count rd' \<le> wc_max_rider_orders cfg)"
proof -
  have "accounts (wc_max_rider_orders cfg) (w_db w) (w_db (snd (worker_runs it cd cfg calls (st, w))))"
    using assms(1,2)
  proof (induction calls arbitrary: st w)
    case Nil
    then show ?case by (simp add: accounts_refl)
  next
    case (Cons a calls)
    obtain en r own where a: "a = (en, r, own)" by (cases a)
    obtain res st1 w1 where 1: "worker_apply_record en it cd cfg r own (st, w) = (res, (st1, w1))" by (metis prod.exhaust)
    have A: "accounts (wc_max_rider_orders cfg) (w_db w) (w_db w1)"
      using worker_step_accounts[of en w cfg it cd r own st] Cons.prems a 1 by simp
    then have "riders_ok (w_db w1)" by (simp add: accounts_def)
    then show ?case using accounts_trans[OF A Cons.IH] Cons.prems(1) a 1 by simp
  qed
  then show ?thesis using assms(3,4) unfolding accounts_def Let_def by blast
qed

text \<open>
  Property C17. A match request counts once: after one successful application, delivering the record
  again, at any later time, whatever the index then holds and whether or not the call succeeds,
  changes neither orders nor riders nor the outbox, and leaves the index alone.
\<close>

theorem match_request_counts_once:
  assumes "honest en" "worker_apply_record en it cd cfg r own (st, w) = (Inr (), (st1, w1))"
    and "honest en2" "ev_id (lr_event r2) = ev_id (lr_event r)" "tb_inbox (w_db w2) = tb_inbox (w_db w1)"
    and "worker_apply_record en2 it2 cd2 cfg2 r2 own2 (st2, w2) = (res, (st3, w3))"
  shows "tb_orders (w_db w3) = tb_orders (w_db w2) \<and> tb_riders (w_db w3) = tb_riders (w_db w2) \<and>
    tb_outbox (w_db w3) = tb_outbox (w_db w2) \<and> st3 = st2"
proof -
  obtain req cands ts x where "request_db cd cfg r own req cands ts (w_db w) = Inr (x, w_db w1)"
    using worker_outcome[OF assms(1,2)] by blast
  then have seen: "tb_inbox (w_db w2) (ConsumerMatcherWorker, ev_id (lr_event r2)) \<noteq> None"
    using request_db_inbox assms(4,5) by simp
  have "x = (0, 0) \<and> tb_orders db' = tb_orders (w_db w2) \<and> tb_riders db' = tb_riders (w_db w2) \<and> tb_outbox db' = tb_outbox (w_db w2)"
    if q: "request_db cd2 cfg2 r2 own2 req cands ts (w_db w2) = Inr (x, db')" for req cands ts x db'
    using q by (cases rule: request_db_cases) (use seen in auto)
  then show ?thesis using worker_outcome[OF assms(3,6)] by (auto simp: after_reserve_def)
qed

section \<open>Witnesses\<close>

text \<open>One shard with rider 3 in it, who stands next to order 7.\<close>

definition tiny_index :: istate where
  "tiny_index = ([\<lparr>r_uid = 3, r_x = 5, r_y = 5, r_online = True, r_cell_id = 0, r_count = 0\<rparr>],
     \<lparr>ix_layout = \<lparr>l_area_size = 100, l_cell_size = 10, l_shard_count = 1, l_shard_cols = 1, l_shard_rows = 1,
        l_cells_per_axis = 10, l_cells_per_shard_x = 10, l_cells_per_shard_y = 10\<rparr>,
      ix_matchers = [\<lparr>m_grid = \<lparr>g_cell_size = 10, g_riders = [(3, 0)], g_cells = [0 \<mapsto> [(3, 0)]]\<rparr>, m_load_weight = 10\<rparr>],
      ix_active_shards = [True], ix_riders = [3 \<mapsto> 0], ix_rider_shards = [3 \<mapsto> 0], ix_cell_size = 10, ix_load_weight = 10\<rparr>)"

definition tiny_config :: worker_config where
  "tiny_config = worker_defaults \<lparr>wc_node_id = 1, wc_candidate_limit = 0, wc_max_rider_orders = 0, wc_topic = []\<rparr>"

definition tiny_rider :: rider_row where
  "tiny_rider = \<lparr>rr_uid = 3, rr_x = 5, rr_y = 5, rr_online = True, rr_cell_id = 0, rr_count = 0\<rparr>"

definition tiny_order :: order_row where
  "tiny_order = row_of_state (zero_order\<lparr>os_order_id := 7, os_status := StatusMatchPending\<rparr>)"

definition tiny_db :: database where
  "tiny_db = empty_database\<lparr>tb_orders := [7 \<mapsto> tiny_order], tb_riders := [3 \<mapsto> tiny_rider]\<rparr>"

definition tiny_record :: log_record where
  "tiny_record = seven_record 0 ''m1'' EventMatchRequested"

definition tiny_run :: "(go_error + unit) \<times> istate \<times> world" where
  "tiny_run = worker_apply_record (calm five_owned) rev seven_codec tiny_config tiny_record five_owned (tiny_index, start_world tiny_db)"

lemma tiny_run_ok: "fst tiny_run = Inr ()"
  by code_simp

lemma tiny_request: "request_of rev seven_codec tiny_config tiny_record tiny_index =
    Some (\<lparr>mr_order_id = 7, mr_x = 1, mr_y = 2, mr_attempt = 0\<rparr>, [\<lparr>cd_rider_id = 3, cd_score = 0\<rparr>])"
  by code_simp

lemma tiny_run_eq: "worker_apply_record (calm five_owned) rev seven_codec tiny_config tiny_record five_owned (tiny_index, start_world tiny_db) =
    (Inr (), (fst (snd tiny_run), snd (snd tiny_run)))"
  using tiny_run_ok by (cases tiny_run) (simp add: tiny_run_def)

lemma tiny_tables: "riders_ok tiny_db" "tb_inbox tiny_db k = None" "tb_orders tiny_db 7 = Some tiny_order"
  "or_status tiny_order = StatusMatchPending" "tb_riders tiny_db 3 = Some tiny_rider" "wc_max_rider_orders tiny_config = 3"
  "w_db (start_world tiny_db) = tiny_db"
  by (simp_all add: riders_ok_def tiny_db_def empty_database_def tiny_rider_def tiny_order_def row_of_state_def tiny_config_def
      worker_defaults_def start_world_def)

theorem match_picks_first_available_witness:
  "7 \<in> matched_orders (w_db (snd (snd tiny_run))) 3"
proof -
  have "filter (can_take tiny_db (wc_max_rider_orders tiny_config)) [\<lparr>cd_rider_id = 3, cd_score = 0\<rparr>] = [\<lparr>cd_rider_id = 3, cd_score = 0\<rparr>]"
    using tiny_tables by (simp add: can_take_def tiny_rider_def)
  then show ?thesis
    using match_picks_first_available[OF calm_honest tiny_run_eq tiny_request, unfolded tiny_tables(7)] tiny_tables by simp
qed

theorem reservations_are_accounted_witness:
  "\<exists>rd. tb_riders (w_db (snd (worker_runs rev seven_codec tiny_config [(calm five_owned, tiny_record, five_owned)] (tiny_index, start_world tiny_db)))) 3
     = Some rd \<and> rr_count rd \<le> 3"
  using reservations_are_accounted[of "[(calm five_owned, tiny_record, five_owned)]" "start_world tiny_db" 3 tiny_rider tiny_config rev seven_codec tiny_index]
    calm_honest tiny_tables by (auto simp: Let_def tiny_rider_def)

theorem match_request_counts_once_witness:
  "tb_riders (w_db (snd (snd (worker_apply_record (calm five_owned) rev seven_codec tiny_config tiny_record five_owned (snd tiny_run))))) =
   tb_riders (w_db (snd (snd tiny_run)))"
proof -
  obtain res st3 w3 where 3: "worker_apply_record (calm five_owned) rev seven_codec tiny_config tiny_record five_owned
      (fst (snd tiny_run), snd (snd tiny_run)) = (res, (st3, w3))" by (metis prod.exhaust)
  show ?thesis
    using match_request_counts_once[OF calm_honest tiny_run_eq calm_honest refl refl 3] 3 by simp
qed

end
