(* ===== verification/Kafka.thy ===== *)
theory Kafka
  imports EventLog
begin

text \<open>
  The event log on Kafka (\<open>internal/eventlog/kafka.go\<close>): messages, the partition a message is routed
  to, appending, and the stream a tail delivers. The brokers and their client are parameters;
  \<open>writer_laws\<close> is what holds of the client's writer as this code configures it: without
  \<open>RequiredAcks\<close> it does not wait for the brokers, and a failed write may be sent again.
\<close>

section \<open>Construction\<close>

text \<open>A nil codec is replaced by the JSON codec; here the codec is always given. Durations are nanoseconds.\<close>

record kafka_config =
  kc_brokers :: "string list"
  kc_topic :: string
  kc_max_bytes :: int
  kc_max_wait :: int

definition new_kafka_event_log :: "kafka_config \<Rightarrow> go_error + kafka_config" where
  "new_kafka_event_log c =
     (if kc_brokers c = [] then Inl (ErrMsg ''kafka brokers must not be empty'' [])
      else if kc_topic c = [] then Inl (ErrMsg ''kafka topic must not be empty'' [])
      else Inr (c\<lparr>kc_max_bytes := (if kc_max_bytes c \<le> 0 then 10000000 else kc_max_bytes c),
                  kc_max_wait := (if kc_max_wait c \<le> 0 then 1000000000 else kc_max_wait c)\<rparr>))"

section \<open>Messages and their partition\<close>

text \<open>Key and value.\<close>

type_synonym message = "string \<times> string"

definition encode_message :: "event_json \<Rightarrow> event \<Rightarrow> go_error + message" where
  "encode_message js e =
     (case encode_event js e of
        Inl err \<Rightarrow> Inl (ErrWrap ''encode kafka event: %w'' err)
      | Inr v \<Rightarrow> Inr (itoa (ev_shard_id e), v))"

definition decode_message :: "event_json \<Rightarrow> int \<Rightarrow> int \<Rightarrow> string option \<Rightarrow> go_error + log_record" where
  "decode_message js k offset v =
     (case decode_event js v of
        Inl err \<Rightarrow> Inl (ErrWrap ''decode kafka event: %w'' err)
      | Inr e \<Rightarrow> Inr \<lparr>lr_position = \<lparr>ps_shard_id = k, ps_offset = offset\<rparr>, lr_event = e\<lparr>ev_shard_id := k\<rparr>\<rparr>)"

text \<open>\<open>shardIDBalancer.Balance\<close>\<close>

definition balance :: "string \<Rightarrow> int list \<Rightarrow> int" where
  "balance key partitions =
     (if partitions = [] then 0
      else case atoi key of
             Inl e \<Rightarrow> partitions ! 0
           | Inr k \<Rightarrow> if k \<in> set partitions then k else partitions ! 0)"

section \<open>The log\<close>

record 's kafka_client =
  kk_write :: "message list \<Rightarrow> ('s, unit) eff"
  kk_dial_leader :: "int \<Rightarrow> ('s, unit) eff"
  kk_last_offset :: "int \<Rightarrow> ('s, int) eff"
  kk_set_offset :: "int \<Rightarrow> int \<Rightarrow> ('s, unit) eff"
  kk_close_writer :: "('s, unit) eff"

text \<open>\<open>kl_open\<close>: the writer is there.\<close>

record 's kafka_log =
  kl_open :: bool
  kl_net :: 's

fun encode_messages :: "event_json \<Rightarrow> event list \<Rightarrow> go_error + message list \<times> position list" where
  "encode_messages js [] = Inr ([], [])"
| "encode_messages js (e # es) =
     (if ev_shard_id e < 0 then Inl (ErrMsg ''shard id must be >= 0: %d'' [FInt (ev_shard_id e)])
      else case encode_message js e of
        Inl err \<Rightarrow> Inl err
      | Inr m \<Rightarrow> (case encode_messages js es of
          Inl err \<Rightarrow> Inl err
        | Inr (ms, ps) \<Rightarrow> Inr (m # ms, \<lparr>ps_shard_id = ev_shard_id e, ps_offset = -1\<rparr> # ps)))"

definition kafka_append_batch ::
  "'s kafka_client \<Rightarrow> event_json \<Rightarrow> go_error option \<Rightarrow> event list \<Rightarrow> ('s kafka_log, position list) eff" where
  "kafka_append_batch kk js ctx es = (\<lambda>s.
     case ctx of
       Some e \<Rightarrow> (Inl e, s)
     | None \<Rightarrow>
         if es = [] then (Inr [], s)
         else (case encode_messages js es of
           Inl e \<Rightarrow> (Inl e, s)
         | Inr (ms, ps) \<Rightarrow>
             if \<not> kl_open s then (Inl (ErrMsg ''kafka eventlog is closed'' []), s)
             else (case kk_write kk ms (kl_net s) of
               (Inl e, n) \<Rightarrow> (Inl (ErrWrap ''write kafka messages: %w'' e), s\<lparr>kl_net := n\<rparr>)
             | (Inr _, n) \<Rightarrow> (Inr ps, s\<lparr>kl_net := n\<rparr>))))"

definition kafka_append :: "'s kafka_client \<Rightarrow> event_json \<Rightarrow> go_error option \<Rightarrow> event \<Rightarrow> ('s kafka_log, position) eff" where
  "kafka_append kk js ctx e = ebind (kafka_append_batch kk js ctx [e]) (\<lambda>ps. ret (ps ! 0))"

definition kafka_appender :: "'s kafka_client \<Rightarrow> event_json \<Rightarrow> go_error option \<Rightarrow> 's kafka_log appender" where
  "kafka_appender kk js ctx = \<lparr>ap_append = kafka_append kk js ctx, ap_batch = Some (kafka_append_batch kk js ctx)\<rparr>"

definition kafka_close :: "'s kafka_client \<Rightarrow> ('s kafka_log, unit) eff" where
  "kafka_close kk = (\<lambda>s.
     if \<not> kl_open s then (Inr (), s)
     else (case kk_close_writer kk (kl_net s) of (r, n) \<Rightarrow> (r, s\<lparr>kl_open := False, kl_net := n\<rparr>)))"

definition kafka_end_offset :: "'s kafka_client \<Rightarrow> go_error option \<Rightarrow> int \<Rightarrow> ('s kafka_log, int) eff" where
  "kafka_end_offset kk ctx k = (\<lambda>s.
     case ctx of
       Some e \<Rightarrow> (Inl e, s)
     | None \<Rightarrow>
         if k < 0 then (Inl (ErrMsg ''shard id must be >= 0: %d'' [FInt k]), s)
         else (case ebind (wrap_err ''dial kafka leader: %w'' (kk_dial_leader kk k)) (\<lambda>_.
                      wrap_err ''read kafka last offset: %w'' (kk_last_offset kk k)) (kl_net s) of
                 (r, n) \<Rightarrow> (r, s\<lparr>kl_net := n\<rparr>)))"

text \<open>
  The goroutine of \<open>TailFrom\<close>: what it sends for the results of its calls of \<open>FetchMessage\<close> (an error,
  or an offset and a value). It ends, and the channel is closed, at the first error of a call or of
  the decoder.
\<close>

fun kafka_stream :: "event_json \<Rightarrow> int \<Rightarrow> (go_error + int \<times> string option) list \<Rightarrow> log_record list" where
  "kafka_stream js k [] = []"
| "kafka_stream js k (Inl e # fs) = []"
| "kafka_stream js k (Inr (offset, v) # fs) =
     (case decode_message js k offset v of Inl e \<Rightarrow> [] | Inr r \<Rightarrow> r # kafka_stream js k fs)"

definition kafka_tail_from ::
  "'s kafka_client \<Rightarrow> event_json \<Rightarrow> go_error option \<Rightarrow> position \<Rightarrow> (go_error + int \<times> string option) list \<Rightarrow> ('s kafka_log, log_record list) eff" where
  "kafka_tail_from kk js ctx p fetches = (\<lambda>s.
     case ctx of
       Some e \<Rightarrow> (Inl e, s)
     | None \<Rightarrow> (case wrap_err ''set kafka offset: %w'' (kk_set_offset kk (ps_shard_id p) (ps_offset p)) (kl_net s) of
         (Inl e, n) \<Rightarrow> (Inl e, s\<lparr>kl_net := n\<rparr>)
       | (Inr _, n) \<Rightarrow> (Inr (kafka_stream js (ps_shard_id p) fetches), s\<lparr>kl_net := n\<rparr>)))"

text \<open>Names for the local host are looked up as 127.0.0.1; the other lookups are parameters.\<close>

definition lookup_host :: "(string \<Rightarrow> go_error + string list) \<Rightarrow> string \<Rightarrow> go_error + string list" where
  "lookup_host resolver host = (if host = ''localhost'' then Inr [''127.0.0.1''] else resolver host)"

definition local_kafka_address :: "(string \<Rightarrow> go_error + string \<times> string) \<Rightarrow> string \<Rightarrow> string" where
  "local_kafka_address split_host_port address =
     (case split_host_port address of
        Inl e \<Rightarrow> address
      | Inr (host, port) \<Rightarrow> if host = ''localhost'' then ''127.0.0.1:'' @ port else address)"

section \<open>What the writer does\<close>

text \<open>
  \<open>logs s p\<close> is the log of partition \<open>p\<close>. Whatever a write reports, what it has added at the end of a
  partition are some of its messages, those that the balancer sends there: some may be lost, even
  when it reports no error, and some may be there twice. What other programs write at the same time
  are writes of their own.
\<close>

definition writer_laws :: "'s kafka_client \<Rightarrow> int list \<Rightarrow> ('s \<Rightarrow> int \<Rightarrow> message list) \<Rightarrow> bool" where
  "writer_laws kk partitions logs \<longleftrightarrow>
     (\<forall>ms s r s' p. kk_write kk ms s = (r, s') \<longrightarrow>
        (\<exists>ms'. logs s' p = logs s p @ ms' \<and> set ms' \<subseteq> set (filter (\<lambda>m. balance (fst m) partitions = p) ms)))"

text \<open>
  A writer that also means what it reports: without an error every message is there once, in order. That
  asks for acknowledgements of the brokers and for writes that are not repeated; the code's writer
  asks for neither, so only the general lemmas about logs are used with it, on an example broker.
\<close>

definition exact_writer :: "'s kafka_client \<Rightarrow> int list \<Rightarrow> ('s \<Rightarrow> int \<Rightarrow> message list) \<Rightarrow> bool" where
  "exact_writer kk partitions logs \<longleftrightarrow> writer_laws kk partitions logs \<and>
     (\<forall>ms s u s' p. kk_write kk ms s = (Inr u, s') \<longrightarrow> logs s' p = logs s p @ filter (\<lambda>m. balance (fst m) partitions = p) ms)"

lemma writer_lawsD:
  "writer_laws kk partitions logs \<Longrightarrow> kk_write kk ms s = (r, s') \<Longrightarrow>
   \<exists>ms'. logs s' p = logs s p @ ms' \<and> set ms' \<subseteq> set (filter (\<lambda>m. balance (fst m) partitions = p) ms)"
  unfolding writer_laws_def by blast

lemma exact_writerD:
  assumes "exact_writer kk partitions logs"
  shows "writer_laws kk partitions logs"
    "kk_write kk ms s = (Inr u, s') \<Longrightarrow> logs s' p = logs s p @ filter (\<lambda>m. balance (fst m) partitions = p) ms"
    "kk_write kk ms s = (Inl e, s') \<Longrightarrow> \<exists>ms'. logs s' p = logs s p @ ms' \<and> set ms' \<subseteq> set ms"
proof -
  show w: "writer_laws kk partitions logs" using assms by (simp add: exact_writer_def)
  show "kk_write kk ms s = (Inr u, s') \<Longrightarrow> logs s' p = logs s p @ filter (\<lambda>m. balance (fst m) partitions = p) ms"
    using assms unfolding exact_writer_def by blast
  show "kk_write kk ms s = (Inl e, s') \<Longrightarrow> \<exists>ms'. logs s' p = logs s p @ ms' \<and> set ms' \<subseteq> set ms"
    using writer_lawsD[OF w, of ms s "Inl e" s' p] by auto
qed

text \<open>Where the event of a shard goes.\<close>

definition route :: "int list \<Rightarrow> int \<Rightarrow> int" where
  "route partitions k = (if partitions = [] then 0 else if k \<in> set partitions then k else partitions ! 0)"

lemma balance_key: "in64 k \<Longrightarrow> balance (itoa k) partitions = route partitions k"
  by (simp add: balance_def route_def atoi_itoa)

lemma encode_messages_ok:
  "encode_messages js es = Inr (ms, ps) \<Longrightarrow>
   list_all2 (\<lambda>e m. encode_message js e = Inr m) es ms \<and> map ps_shard_id ps = map ev_shard_id es \<and> (\<forall>e \<in> set es. 0 \<le> ev_shard_id e)"
proof (induction es arbitrary: ms ps)
  case (Cons e es)
  from Cons.prems obtain m ms1 ps1 where "0 \<le> ev_shard_id e" "encode_message js e = Inr m" "encode_messages js es = Inr (ms1, ps1)"
    "ms = m # ms1" "ps = \<lparr>ps_shard_id = ev_shard_id e, ps_offset = -1\<rparr> # ps1"
    by (auto split: if_splits sum.splits prod.splits)
  then show ?case using Cons.IH by simp
qed simp

lemma encode_message_key: "encode_message js e = Inr m \<Longrightarrow> fst m = itoa (ev_shard_id e) \<and> encode_event js e = Inr (snd m)"
  by (auto simp: encode_message_def split: sum.splits)

text \<open>The tail of a partition, from messages that lie there one after the other.\<close>

definition fetched :: "int \<Rightarrow> message list \<Rightarrow> (go_error + int \<times> string option) list" where
  "fetched start ms = map (\<lambda>(i, m). Inr (start + int i, Some (snd m))) (enumerate 0 ms)"

definition delivered :: "int \<Rightarrow> int \<Rightarrow> event list \<Rightarrow> log_record list" where
  "delivered k start es = map (\<lambda>(i, e). \<lparr>lr_position = \<lparr>ps_shard_id = k, ps_offset = start + int i\<rparr>, lr_event = e\<lparr>ev_shard_id := k\<rparr>\<rparr>) (enumerate 0 es)"

lemma enumerate_shift: "enumerate (Suc n) xs = map (\<lambda>(i, x). (Suc i, x)) (enumerate n xs)"
  by (induction xs arbitrary: n) auto

lemma fetched_Cons: "fetched start (m # ms) = Inr (start, Some (snd m)) # fetched (start + 1) ms"
  by (simp add: fetched_def enumerate_shift) (auto simp: split_def)

lemma delivered_Cons: "delivered k start (e # es) =
    \<lparr>lr_position = \<lparr>ps_shard_id = k, ps_offset = start\<rparr>, lr_event = e\<lparr>ev_shard_id := k\<rparr>\<rparr> # delivered k (start + 1) es"
  by (simp add: delivered_def enumerate_shift) (auto simp: split_def)

lemma stream_fetched:
  "event_json_ok js \<Longrightarrow> list_all2 (\<lambda>e m. encode_message js e = Inr m) es ms \<Longrightarrow> \<forall>e \<in> set es. text_event e \<Longrightarrow>
   kafka_stream js k (fetched start ms) = delivered k start es"
proof (induction es ms arbitrary: start rule: list_induct2')
  case (4 e es m ms)
  have "decode_event js (Some (snd m)) = Inr e"
    using 4 decode_encode encode_message_key by auto
  then show ?case using 4 by (simp add: fetched_Cons delivered_Cons decode_message_def)
qed (simp_all add: fetched_def delivered_def)

lemma list_all2_filter:
  "list_all2 P xs ys \<Longrightarrow> (\<And>x y. P x y \<Longrightarrow> x \<in> set xs \<Longrightarrow> p x = q y) \<Longrightarrow> list_all2 P (filter p xs) (filter q ys)"
  by (induction rule: list_all2_induct) auto

section \<open>Properties\<close>

text \<open>Messages that were encoded from some of the events.\<close>

lemma encoded_subset:
  assumes "list_all2 (\<lambda>e m. encode_message js e = Inr m) es ms" "set ms' \<subseteq> set (filter q ms)"
    and "\<And>e m. encode_message js e = Inr m \<Longrightarrow> e \<in> set es \<Longrightarrow> P e = q m"
  shows "\<exists>got. list_all2 (\<lambda>e m. encode_message js e = Inr m) got ms' \<and> set got \<subseteq> {e \<in> set es. P e}"
  using assms(2)
proof (induction ms')
  case (Cons m ms')
  have "m \<in> set ms" "q m" using Cons.prems by auto
  then obtain e where e: "e \<in> set es" "encode_message js e = Inr m"
    using assms(1) unfolding list_all2_conv_all_nth by (metis in_set_conv_nth)
  obtain got where "list_all2 (\<lambda>e m. encode_message js e = Inr m) got ms'" "set got \<subseteq> {e \<in> set es. P e}" using Cons by auto
  then show ?case using e assms(3)[OF e(2,1)] \<open>q m\<close> by (intro exI[of _ "e # got"]) simp
qed simp

lemma append_batch_cases:
  assumes "kafka_append_batch kk js ctx es s = (r, s')"
  obtains (unchanged) "s' = s" "(\<exists>ps. r = Inr ps) \<longrightarrow> es = []"
  | (wrote) ms ps q n where "encode_messages js es = Inr (ms, ps)" "kk_write kk ms (kl_net s) = (q, n)" "kl_net s' = n"
      "(\<exists>ps. r = Inr ps) \<longleftrightarrow> (\<exists>u. q = Inr u)"
proof (cases "\<exists>ms ps. ctx = None \<and> es \<noteq> [] \<and> encode_messages js es = Inr (ms, ps) \<and> kl_open s")
  case False
  then show ?thesis using assms unchanged by (auto simp: kafka_append_batch_def split: option.splits if_splits sum.splits prod.splits)
next
  case True
  then obtain ms ps where m: "ctx = None" "es \<noteq> []" "encode_messages js es = Inr (ms, ps)" "kl_open s" by blast
  obtain q n where q: "kk_write kk ms (kl_net s) = (q, n)" by fastforce
  then show ?thesis using assms m wrote[OF m(3) q] by (cases q) (auto simp: kafka_append_batch_def)
qed

text \<open>
  Property C39. Only what was appended reaches the consumers of a topic, and only on its own partition:
  whatever an append of events reports (their strings valid UTF-8), what it adds to a partition a tail of
  this partition delivers as events of the batch that are routed there, under consecutive offsets and
  with the partition as their shard; it keeps the shard of an event whose shard is a partition, while an
  event of any other shard silently lands on the first partition and is delivered there as an event of
  that shard. Were the writer exact, a success would mean that a tail delivers all of the batch, in order;
  the code's writer is not, so a success promises no delivery (\<open>unacknowledged_append_may_vanish\<close>).
\<close>

theorem kafka_append_tail:
  assumes "event_json_ok js" "writer_laws kk partitions logs" "kafka_append_batch kk js ctx es s = (r, s')"
    and "\<forall>e \<in> set es. in64 (ev_shard_id e) \<and> text_event e"
  shows "\<exists>new got. logs (kl_net s') p = logs (kl_net s) p @ new \<and> set got \<subseteq> {e \<in> set es. route partitions (ev_shard_id e) = p} \<and>
    kafka_stream js p (fetched (int (length (logs (kl_net s) p))) new) = delivered p (int (length (logs (kl_net s) p))) got \<and>
    (exact_writer kk partitions logs \<and> (\<exists>ps. r = Inr ps) \<longrightarrow> got = filter (\<lambda>e. route partitions (ev_shard_id e) = p) es)"
  using assms(3)
proof (cases rule: append_batch_cases)
  case unchanged
  then show ?thesis by (intro exI[of _ "[]"]) (auto simp: fetched_def delivered_def)
next
  case (wrote ms ps q n)
  note E = encode_messages_ok[OF wrote(1), THEN conjunct1]
  have routed: "(route partitions (ev_shard_id e) = p) = (balance (fst m) partitions = p)" if "encode_message js e = Inr m" "e \<in> set es" for e m
    using that encode_message_key assms(4) balance_key by metis
  let ?some = "\<lambda>got ms'. list_all2 (\<lambda>e m. encode_message js e = Inr m) got ms' \<and> set got \<subseteq> {e \<in> set es. route partitions (ev_shard_id e) = p}"
  have "\<exists>new got. logs n p = logs (kl_net s) p @ new \<and> ?some got new \<and>
      (exact_writer kk partitions logs \<and> (\<exists>ps. r = Inr ps) \<longrightarrow> got = filter (\<lambda>e. route partitions (ev_shard_id e) = p) es)"
  proof (cases "exact_writer kk partitions logs \<and> (\<exists>u. q = Inr u)")
    case True
    have "list_all2 (\<lambda>e m. encode_message js e = Inr m) (filter (\<lambda>e. route partitions (ev_shard_id e) = p) es) (filter (\<lambda>m. balance (fst m) partitions = p) ms)"
      by (rule list_all2_filter[OF E routed])
    then show ?thesis using exact_writerD(2) True wrote(2) by fastforce
  next
    case False
    obtain new where new: "logs n p = logs (kl_net s) p @ new" "set new \<subseteq> set (filter (\<lambda>m. balance (fst m) partitions = p) ms)"
      using writer_lawsD[OF assms(2) wrote(2), of p] by blast
    have "\<exists>got. ?some got new"
      by (rule encoded_subset[OF E new(2), where P = "\<lambda>e. route partitions (ev_shard_id e) = p"]) (rule routed)
    then show ?thesis using new(1) False wrote(4) by blast
  qed
  then obtain new got where g: "logs n p = logs (kl_net s) p @ new" "?some got new"
      "exact_writer kk partitions logs \<and> (\<exists>ps. r = Inr ps) \<longrightarrow> got = filter (\<lambda>e. route partitions (ev_shard_id e) = p) es" by blast
  moreover have "kafka_stream js p (fetched (int (length (logs (kl_net s) p))) new) = delivered p (int (length (logs (kl_net s) p))) got"
    by (rule stream_fetched[OF assms(1)]) (use g(2) assms(4) in auto)
  ultimately show ?thesis using wrote(3) by blast
qed

text \<open>
  A writer that drops what it is given keeps the laws: an append reports success, and the event is in no
  partition. The publisher marks such an event as published.
\<close>

lemma unacknowledged_append_may_vanish:
  "\<exists>kk :: (int \<Rightarrow> message list) kafka_client. writer_laws kk [0, 1] (\<lambda>s. s) \<and>
     (\<forall>js e s. (\<exists>ms. encode_messages js [e] = Inr ms) \<and> kl_open s \<longrightarrow>
        (\<exists>ps s'. kafka_append_batch kk js None [e] s = (Inr ps, s') \<and> kl_net s' = kl_net s))"
proof -
  define kk :: "(int \<Rightarrow> message list) kafka_client" where
    "kk = \<lparr>kk_write = (\<lambda>ms s. (Inr (), s)), kk_dial_leader = (\<lambda>p s. (Inr (), s)), kk_last_offset = (\<lambda>p s. (Inr 0, s)),
       kk_set_offset = (\<lambda>p n s. (Inr (), s)), kk_close_writer = (\<lambda>s. (Inr (), s))\<rparr>"
  have "writer_laws kk [0, 1] (\<lambda>s. s)" by (simp add: writer_laws_def kk_def)
  moreover have "\<exists>ps s'. kafka_append_batch kk js None [e] s = (Inr ps, s') \<and> kl_net s' = kl_net s"
    if "\<exists>ms. encode_messages js [e] = Inr ms" "kl_open s" for js e s
    using that by (auto simp: kafka_append_batch_def kk_def simp del: encode_messages.simps)
  ultimately show ?thesis by blast
qed

section \<open>The appender's contract\<close>

definition kafka_entries :: "event_json \<Rightarrow> ('s \<Rightarrow> int \<Rightarrow> message list) \<Rightarrow> 's kafka_log \<Rightarrow> event set" where
  "kafka_entries js logs s = {e. \<exists>p m. encode_message js e = Inr m \<and> m \<in> set (logs (kl_net s) p)}"

lemma kafka_batch_ok:
  assumes W: "exact_writer kk partitions logs" and e: "kafka_append_batch kk js ctx es s = (r, s')"
  shows "kafka_entries js logs s \<subseteq> kafka_entries js logs s' \<and> ((\<exists>ps. r = Inr ps) \<longrightarrow> set es \<subseteq> kafka_entries js logs s')"
proof (cases "\<exists>ms ps. ctx = None \<and> es \<noteq> [] \<and> encode_messages js es = Inr (ms, ps) \<and> kl_open s")
  case False
  then show ?thesis using e by (auto simp: kafka_append_batch_def split: option.splits if_splits sum.splits prod.splits)
next
  case True
  then obtain ms ps where m: "encode_messages js es = Inr (ms, ps)" by blast
  obtain q n where q: "kk_write kk ms (kl_net s) = (q, n)" by fastforce
  have s': "kl_net s' = n" "(\<exists>ps. r = Inr ps) \<longrightarrow> (\<exists>u. q = Inr u)"
    using e True q m by (cases q; auto simp: kafka_append_batch_def)+
  have grow: "set (logs (kl_net s) p) \<subseteq> set (logs n p)" for p
    using writer_lawsD[OF exact_writerD(1)[OF W] q, of p] by auto
  have "e1 \<in> kafka_entries js logs s'" if u: "q = Inr u" and e1: "e1 \<in> set es" for u e1
  proof -
    obtain m1 where m1: "encode_message js e1 = Inr m1" "m1 \<in> set ms"
      using encode_messages_ok[OF m, THEN conjunct1] e1 unfolding list_all2_conv_all_nth by (metis in_set_conv_nth)
    then have "m1 \<in> set (logs n (balance (fst m1) partitions))" using exact_writerD(2)[OF W, of ms "kl_net s" u n] q u by simp
    then show ?thesis using m1(1) unfolding kafka_entries_def s'(1) by blast
  qed
  then show ?thesis using grow s' unfolding kafka_entries_def by blast
qed

lemma kafka_contract:
  assumes W: "exact_writer kk partitions logs"
  shows "event_appender (kafka_appender kk js ctx) (kafka_entries js logs) (\<lambda>_. True)"
proof (unfold_locales, goal_cases)
  case (1 s e r s')
  obtain q s1 where q: "kafka_append_batch kk js ctx [e] s = (q, s1)" by fastforce
  have "s' = s1 \<and> ((\<exists>p. r = Inr p) \<longrightarrow> (\<exists>ps. q = Inr ps))"
    using 1(2) q by (cases q) (auto simp: kafka_appender_def kafka_append_def ebind_def)
  then show ?case using kafka_batch_ok[OF W q] by auto
next
  case (2 b s es r s')
  then show ?case using kafka_batch_ok[OF W, of js ctx es s r s'] by (simp add: kafka_appender_def)
qed

text \<open>A broker that loses and repeats nothing.\<close>

definition ref_kafka :: "int list \<Rightarrow> (int \<Rightarrow> message list) kafka_client" where
  "ref_kafka partitions = \<lparr>kk_write = (\<lambda>ms s. (Inr (), \<lambda>p. s p @ filter (\<lambda>m. balance (fst m) partitions = p) ms)),
     kk_dial_leader = (\<lambda>p s. (Inr (), s)), kk_last_offset = (\<lambda>p s. (Inr (int (length (s p))), s)),
     kk_set_offset = (\<lambda>p n s. (Inr (), s)), kk_close_writer = (\<lambda>s. (Inr (), s))\<rparr>"

lemma ref_kafka_exact: "exact_writer (ref_kafka partitions) partitions (\<lambda>s. s)"
  by (auto simp: exact_writer_def writer_laws_def ref_kafka_def)

interpretation kafka: event_appender "kafka_appender (ref_kafka partitions) js ctx" "kafka_entries js (\<lambda>s. s)" "\<lambda>_. True" for partitions js ctx
  by (rule kafka_contract[OF ref_kafka_exact])

text \<open>Three partitions and an event of shard 7: it is delivered as an event of shard 0.\<close>

theorem kafka_append_tail_witness:
  "\<exists>ps s' new. kafka_append_batch (ref_kafka [0, 1, 2]) ref_event_json None [small_event\<lparr>ev_shard_id := 7\<rparr>]
       \<lparr>kl_open = True, kl_net = (\<lambda>_. [])\<rparr> = (Inr ps, s') \<and> kl_net s' 0 = new \<and>
     kafka_stream ref_event_json 0 (fetched 0 new) =
       [\<lparr>lr_position = \<lparr>ps_shard_id = 0, ps_offset = 0\<rparr>, lr_event = small_event\<lparr>ev_shard_id := 0\<rparr>\<rparr>]"
proof -
  let ?e = "small_event\<lparr>ev_shard_id := 7\<rparr>" and ?s = "\<lparr>kl_open = True, kl_net = (\<lambda>_. [])\<rparr>"
  have "\<exists>ps s'. kafka_append_batch (ref_kafka [0, 1, 2]) ref_event_json None [?e] ?s = (Inr ps, s')"
    by (simp add: kafka_append_batch_def encode_message_def encode_event_def ref_event_json_def ref_kafka_def small_event_def)
  then obtain ps s' where a: "kafka_append_batch (ref_kafka [0, 1, 2]) ref_event_json None [?e] ?s = (Inr ps, s')" by blast
  have "text_event ?e" by code_simp
  then have t: "\<forall>e \<in> set [?e]. in64 (ev_shard_id e) \<and> text_event e" by (simp add: in64_def)
  from kafka_append_tail[OF ref_event_json_ok exact_writerD(1)[OF ref_kafka_exact] a t, of 0]
  obtain new where "kl_net s' 0 = new" "kafka_stream ref_event_json 0 (fetched 0 new) =
      delivered 0 0 (filter (\<lambda>e. route [0, 1, 2] (ev_shard_id e) = 0) [?e])"
    using ref_kafka_exact by auto
  then show ?thesis using a by (simp add: route_def delivered_def)
qed

end
