(* ===== verification/Checkpoint.thy ===== *)
theory Checkpoint
  imports OrderStore EtcdRef
begin

text \<open>
  How far a consumer has read a shard (\<open>internal/checkpoint\<close>): the checkpoint record, the interface
  \<open>ShardStore\<close> with its contract as a locale, and its three implementations: in memory, in the
  \<open>shard_checkpoints\<close> table and in etcd, where concurrent savers are compared by offset and epoch.
\<close>

section \<open>The interface\<close>

record shard_checkpoint =
  sc_shard_id :: int
  sc_offset :: int
  sc_epoch :: int
  sc_node_id :: int
  sc_updated_at :: int

text \<open>\<open>(ShardCheckpoint{}, false, nil)\<close> is \<open>None\<close>.\<close>

record 's cp_ops =
  cs_save :: "shard_checkpoint \<Rightarrow> ('s, unit) eff"
  cs_load :: "int \<Rightarrow> ('s, shard_checkpoint option) eff"

text \<open>
  \<open>key_ok\<close> holds of the shard identifiers the store can tell apart, \<open>val_ok\<close> of the checkpoints it can
  hold, \<open>norm\<close> is what it keeps of a
  checkpoint. A save without an error may have left a checkpoint of a newer epoch in place; a save
  with an error may have happened.
\<close>

locale checkpoint_store =
  fixes ops :: "'s cp_ops" and view :: "'s \<Rightarrow> int \<rightharpoonup> shard_checkpoint" and ok :: "'s \<Rightarrow> bool"
    and key_ok :: "int \<Rightarrow> bool" and val_ok :: "shard_checkpoint \<Rightarrow> bool"
    and norm :: "shard_checkpoint \<Rightarrow> shard_checkpoint"
  assumes load: "ok s \<Longrightarrow> key_ok k \<Longrightarrow> cs_load ops k s = (Inr r, s') \<Longrightarrow> ok s' \<and> view s' = view s \<and> r = view s k"
    and load_err: "ok s \<Longrightarrow> key_ok k \<Longrightarrow> cs_load ops k s = (Inl e, s') \<Longrightarrow> ok s' \<and> view s' = view s"
    and save: "ok s \<Longrightarrow> val_ok c \<Longrightarrow> cs_save ops c s = (Inr u, s') \<Longrightarrow> ok s' \<and>
      (view s' = (view s)(sc_shard_id c \<mapsto> norm c) \<or>
       view s' = view s \<and> (\<exists>old. view s (sc_shard_id c) = Some old \<and> sc_epoch c < sc_epoch old))"
    and save_err: "ok s \<Longrightarrow> val_ok c \<Longrightarrow> cs_save ops c s = (Inl e, s') \<Longrightarrow>
      ok s' \<and> (view s' = view s \<or> view s' = (view s)(sc_shard_id c \<mapsto> norm c))"
    and val_key: "val_ok c \<Longrightarrow> key_ok (sc_shard_id c)"
    and norm: "sc_offset (norm c) = sc_offset c" "sc_epoch (norm c) = sc_epoch c"
begin

text \<open>What was saved is read back, unless a newer owner's checkpoint is there.\<close>

lemma save_load:
  assumes "ok s" "val_ok c" "cs_save ops c s = (Inr u, s1)" "cs_load ops (sc_shard_id c) s1 = (Inr r, s2)"
  obtains x where "r = Some x" "sc_offset x = sc_offset c \<and> sc_epoch x = sc_epoch c \<or> sc_epoch c < sc_epoch x"
  using save[OF assms(1-3)] load[of s1, OF _ val_key[OF assms(2)] assms(4)] norm[of c] by fastforce

lemma save_others:
  "ok s \<Longrightarrow> val_ok c \<Longrightarrow> cs_save ops c s = (r, s1) \<Longrightarrow> k \<noteq> sc_shard_id c \<Longrightarrow> view s1 k = view s k"
  using save[of s c _ s1] save_err[of s c _ s1] by (cases r) auto

lemma save_ok: "ok s \<Longrightarrow> val_ok c \<Longrightarrow> cs_save ops c s = (r, s1) \<Longrightarrow> ok s1"
  using save[of s c _ s1] save_err[of s c _ s1] by (cases r) auto

lemma load_ok: "ok s \<Longrightarrow> key_ok k \<Longrightarrow> cs_load ops k s = (r, s1) \<Longrightarrow> ok s1 \<and> view s1 = view s"
  using load[of s k _ s1] load_err[of s k _ s1] by (cases r) auto

end

section \<open>In memory\<close>

type_synonym memory_checkpoints = "int \<rightharpoonup> shard_checkpoint"

definition memory_save_checkpoint :: "go_error option \<Rightarrow> shard_checkpoint \<Rightarrow> (memory_checkpoints, unit) eff" where
  "memory_save_checkpoint ctx c =
     (case ctx of Some e \<Rightarrow> throw e | None \<Rightarrow> (\<lambda>s. (Inr (), s(sc_shard_id c \<mapsto> c))))"

definition memory_load_checkpoint :: "go_error option \<Rightarrow> int \<Rightarrow> (memory_checkpoints, shard_checkpoint option) eff" where
  "memory_load_checkpoint ctx k = (case ctx of Some e \<Rightarrow> throw e | None \<Rightarrow> (\<lambda>s. (Inr (s k), s)))"

definition memory_cp_ops :: "go_error option \<Rightarrow> memory_checkpoints cp_ops" where
  "memory_cp_ops ctx = \<lparr>cs_save = memory_save_checkpoint ctx, cs_load = memory_load_checkpoint ctx\<rparr>"

interpretation cpmem: checkpoint_store "memory_cp_ops ctx" "\<lambda>s. s" "\<lambda>_. True" "\<lambda>_. True" "\<lambda>_. True" "\<lambda>c. c" for ctx
  by unfold_locales
     (auto simp: memory_cp_ops_def memory_save_checkpoint_def memory_load_checkpoint_def split: option.splits)

section \<open>In the table\<close>

definition row_of_checkpoint :: "shard_checkpoint \<Rightarrow> checkpoint_row" where
  "row_of_checkpoint c = \<lparr>cr_offset_value = sc_offset c, cr_epoch = sc_epoch c,
     cr_node_id = wrap32 (sc_node_id c), cr_updated_at = sc_updated_at c\<rparr>"

definition checkpoint_of_row :: "int \<Rightarrow> checkpoint_row \<Rightarrow> shard_checkpoint" where
  "checkpoint_of_row k r = \<lparr>sc_shard_id = k, sc_offset = cr_offset_value r, sc_epoch = cr_epoch r,
     sc_node_id = cr_node_id r, sc_updated_at = cr_updated_at r\<rparr>"

definition postgres_save_checkpoint :: "env \<Rightarrow> string \<Rightarrow> string \<Rightarrow> shard_checkpoint \<Rightarrow> (world, unit) eff" where
  "postgres_save_checkpoint en consumer topic c =
     auto_commit en (upsert_shard_checkpoint consumer topic (wrap32 (sc_shard_id c)) (row_of_checkpoint c))"

definition postgres_load_checkpoint :: "env \<Rightarrow> string \<Rightarrow> string \<Rightarrow> int \<Rightarrow> (world, shard_checkpoint option) eff" where
  "postgres_load_checkpoint en consumer topic k = (\<lambda>w.
     case auto_commit en (get_shard_checkpoint consumer topic (wrap32 k)) w of
       (Inl e, w') \<Rightarrow> if errors_is e ErrNoRows then (Inr None, w') else (Inl e, w')
     | (Inr r, w') \<Rightarrow> (Inr (Some (checkpoint_of_row (wrap32 k) r)), w'))"

definition postgres_cp_ops :: "env \<Rightarrow> string \<Rightarrow> string \<Rightarrow> world cp_ops" where
  "postgres_cp_ops en consumer topic =
     \<lparr>cs_save = postgres_save_checkpoint en consumer topic, cs_load = postgres_load_checkpoint en consumer topic\<rparr>"

definition table_view :: "string \<Rightarrow> string \<Rightarrow> database \<Rightarrow> int \<rightharpoonup> shard_checkpoint" where
  "table_view consumer topic db k =
     (if in32 k then map_option (checkpoint_of_row k) (tb_checkpoints db (consumer, topic, k)) else None)"

definition narrow_checkpoint :: "shard_checkpoint \<Rightarrow> shard_checkpoint" where
  "narrow_checkpoint c = c\<lparr>sc_node_id := wrap32 (sc_node_id c)\<rparr>"

lemma auto_commit_cases:
  assumes "auto_commit en q w = (r, w')"
  shows "(\<exists>e. en_fault en (w_tick w) = Some e \<and> r = Inl e \<and> w_db w' = w_db w) \<or>
    (en_fault en (w_tick w) = None \<and> r = fst (q (w_db w)) \<and> w_db w' = snd (q (w_db w)))"
  using assms by (auto simp: auto_commit_def split: option.splits prod.splits)

lemma table_view_upsert:
  assumes "in32 (sc_shard_id c)"
  shows "fst (upsert_shard_checkpoint consumer topic (wrap32 (sc_shard_id c)) (row_of_checkpoint c) db) = Inr () \<and>
    (let db' = snd (upsert_shard_checkpoint consumer topic (wrap32 (sc_shard_id c)) (row_of_checkpoint c) db)
     in table_view consumer topic db' = (table_view consumer topic db)(sc_shard_id c \<mapsto> narrow_checkpoint c) \<or>
        table_view consumer topic db' = table_view consumer topic db \<and>
        (\<exists>old. table_view consumer topic db (sc_shard_id c) = Some old \<and> sc_epoch c < sc_epoch old))"
proof -
  have r: "checkpoint_of_row (sc_shard_id c) (row_of_checkpoint c) = narrow_checkpoint c"
    by (simp add: checkpoint_of_row_def row_of_checkpoint_def narrow_checkpoint_def)
  have u: "table_view consumer topic (db\<lparr>tb_checkpoints := (tb_checkpoints db)((consumer, topic, sc_shard_id c) \<mapsto> row_of_checkpoint c)\<rparr>)
      = (table_view consumer topic db)(sc_shard_id c \<mapsto> narrow_checkpoint c)"
    using assms r by (auto simp: table_view_def fun_eq_iff)
  show ?thesis
    using u assms by (auto simp: upsert_shard_checkpoint_def Let_def table_view_def checkpoint_of_row_def row_of_checkpoint_def
        split: option.splits)
qed

lemma postgres_checkpoint_contract:
  assumes h: "honest en"
  shows "checkpoint_store (postgres_cp_ops en consumer topic) (\<lambda>w. table_view consumer topic (w_db w)) (\<lambda>_. True) in32
    (\<lambda>c. in32 (sc_shard_id c)) narrow_checkpoint"
proof (unfold_locales, goal_cases)
  case (1 s k r s')
  then show ?case using h auto_commit_cases[of en "get_shard_checkpoint consumer topic (wrap32 k)" s]
    by (fastforce simp: postgres_cp_ops_def postgres_load_checkpoint_def get_shard_checkpoint_def table_view_def honest_def
        split: prod.splits sum.splits if_splits option.splits)
next
  case (2 s k e s')
  then show ?case using auto_commit_cases[of en "get_shard_checkpoint consumer topic (wrap32 k)" s]
    by (fastforce simp: postgres_cp_ops_def postgres_load_checkpoint_def get_shard_checkpoint_def
        split: prod.splits sum.splits if_splits option.splits)
next
  case (3 s c u s')
  then have "auto_commit en (upsert_shard_checkpoint consumer topic (wrap32 (sc_shard_id c)) (row_of_checkpoint c)) s = (Inr u, s')"
    by (simp add: postgres_cp_ops_def postgres_save_checkpoint_def)
  from auto_commit_cases[OF this] show ?case using table_view_upsert[OF 3(2), of consumer topic "w_db s"] by (auto simp: Let_def)
next
  case (4 s c e s')
  then have "auto_commit en (upsert_shard_checkpoint consumer topic (wrap32 (sc_shard_id c)) (row_of_checkpoint c)) s = (Inl e, s')"
    by (simp add: postgres_cp_ops_def postgres_save_checkpoint_def)
  from auto_commit_cases[OF this] show ?case using table_view_upsert[OF 4(2), of consumer topic "w_db s"] by (auto simp: Let_def)
qed (simp_all add: narrow_checkpoint_def)

interpretation cppg: checkpoint_store "postgres_cp_ops (calm x) consumer topic" "\<lambda>w. table_view consumer topic (w_db w)"
    "\<lambda>_. True" in32 "\<lambda>c. in32 (sc_shard_id c)" narrow_checkpoint for x consumer topic
  by (rule postgres_checkpoint_contract[OF calm_honest])

section \<open>In etcd\<close>

definition marshal_checkpoint :: "shard_checkpoint \<Rightarrow> string" where
  "marshal_checkpoint c =
     ''{'' @ quoted ''ShardID'' @ '':'' @ itoa (sc_shard_id c) @ '','' @ quoted ''Offset'' @ '':'' @ itoa (sc_offset c) @ '','' @
     quoted ''Epoch'' @ '':'' @ itoa (sc_epoch c) @ '','' @ quoted ''NodeID'' @ '':'' @ itoa (sc_node_id c) @ '','' @
     quoted ''UpdatedAt'' @ '':'' @ itoa (sc_updated_at c) @ ''}''"

type_synonym checkpoint_parser = "string \<Rightarrow> go_error + shard_checkpoint"

definition decode_checkpoint :: "checkpoint_parser \<Rightarrow> string \<Rightarrow> go_error + shard_checkpoint" where
  "decode_checkpoint parse data =
     (case parse data of Inl e \<Rightarrow> Inl (ErrWrap ''decode shard checkpoint: %w'' e) | Inr c \<Rightarrow> Inr c)"

definition checkpoints_prefix :: "string \<Rightarrow> string" where
  "checkpoints_prefix pre = (if pre = ''/'' then [] else pre) @ ''/checkpoints/shards/''"

definition checkpoint_key :: "string \<Rightarrow> int \<Rightarrow> string" where
  "checkpoint_key pre k = checkpoints_prefix pre @ itoa k"

definition validate_checkpoint :: "shard_checkpoint \<Rightarrow> go_error + unit" where
  "validate_checkpoint c =
     (if sc_shard_id c < 0 then Inl (ErrMsg ''shard id must be >= 0: %d'' [FInt (sc_shard_id c)])
      else if sc_offset c < 0 then Inl (ErrMsg ''checkpoint offset must be >= 0: %d'' [FInt (sc_offset c)])
      else if sc_epoch c \<le> 0 then Inl (ErrMsg ''checkpoint epoch must be > 0: %d'' [FInt (sc_epoch c)])
      else if sc_node_id c \<le> 0 then Inl (ErrMsg ''checkpoint node id must be > 0: %d'' [FInt (sc_node_id c)])
      else Inr ())"

definition should_save :: "shard_checkpoint option \<Rightarrow> shard_checkpoint \<Rightarrow> bool" where
  "should_save current next =
     (case current of
        None \<Rightarrow> True
      | Some c \<Rightarrow> if sc_offset next < sc_offset c then False else if sc_epoch next < sc_epoch c then False else True)"

definition try_save :: "'s etcd_client \<Rightarrow> checkpoint_parser \<Rightarrow> string \<Rightarrow> shard_checkpoint \<Rightarrow> ('s, bool) eff" where
  "try_save cl parse key next =
     ebind (wrap_err ''get shard checkpoint before save: %w'' (kv_get cl key)) (\<lambda>r.
       case r of
         None \<Rightarrow>
           if \<not> should_save None next then throw ErrStaleShardCheckpoint
           else wrap_err ''save shard checkpoint in etcd: %w'' (kv_txn_put cl key None (marshal_checkpoint next))
       | Some (v, mrev) \<Rightarrow>
           ebind (lift_res (decode_checkpoint parse v)) (\<lambda>current.
             if \<not> should_save (Some current) next then throw ErrStaleShardCheckpoint
             else wrap_err ''save shard checkpoint in etcd: %w'' (kv_txn_put cl key (Some mrev) (marshal_checkpoint next))))"

definition maxEtcdCheckpointRetries :: nat where "maxEtcdCheckpointRetries = 8"

fun save_attempts :: "'s etcd_client \<Rightarrow> checkpoint_parser \<Rightarrow> string \<Rightarrow> shard_checkpoint \<Rightarrow> nat \<Rightarrow> ('s, unit) eff" where
  "save_attempts cl parse key next 0 =
     throw (ErrMsg ''save shard checkpoint %d failed after retries'' [FInt (sc_shard_id next)])"
| "save_attempts cl parse key next (Suc n) =
     ebind (try_save cl parse key next) (\<lambda>saved. if saved then ret () else save_attempts cl parse key next n)"

definition etcd_save_checkpoint :: "'s etcd_client \<Rightarrow> checkpoint_parser \<Rightarrow> string \<Rightarrow> shard_checkpoint \<Rightarrow> ('s, unit) eff" where
  "etcd_save_checkpoint cl parse pre c =
     ebind (lift_res (validate_checkpoint c)) (\<lambda>_.
       save_attempts cl parse (checkpoint_key pre (sc_shard_id c)) c maxEtcdCheckpointRetries)"

definition etcd_load_checkpoint :: "'s etcd_client \<Rightarrow> checkpoint_parser \<Rightarrow> string \<Rightarrow> int \<Rightarrow> ('s, shard_checkpoint option) eff" where
  "etcd_load_checkpoint cl parse pre k =
     (if k < 0 then throw (ErrMsg ''shard id must be >= 0: %d'' [FInt k])
      else ebind (wrap_err ''get shard checkpoint from etcd: %w'' (kv_get cl (checkpoint_key pre k))) (\<lambda>r.
        case r of
          None \<Rightarrow> ret None
        | Some (v, mrev) \<Rightarrow> ebind (lift_res (decode_checkpoint parse v)) (\<lambda>c. ret (Some (c\<lparr>sc_shard_id := k\<rparr>)))))"

definition etcd_cp_ops :: "'s etcd_client \<Rightarrow> checkpoint_parser \<Rightarrow> string \<Rightarrow> 's cp_ops" where
  "etcd_cp_ops cl parse pre = \<lparr>cs_save = etcd_save_checkpoint cl parse pre, cs_load = etcd_load_checkpoint cl parse pre\<rparr>"

subsection \<open>Savers that interfere\<close>

text \<open>
  The same etcd with other writers: before every request of this client the others may have changed
  the store in a way \<open>rely\<close> allows. With \<open>rely\<close> equality these are the laws of a lone client.
\<close>

definition shared_laws ::
  "'s etcd_client \<Rightarrow> ('s \<Rightarrow> string \<rightharpoonup> string \<times> int) \<Rightarrow>
   ((string \<rightharpoonup> string \<times> int) \<Rightarrow> (string \<rightharpoonup> string \<times> int) \<Rightarrow> bool) \<Rightarrow> bool" where
  "shared_laws cl kv rely \<longleftrightarrow>
     (\<forall>s k. case kv_get cl k s of
        (Inr r, s') \<Rightarrow> rely (kv s) (kv s') \<and> r = kv s' k | (Inl e, s') \<Rightarrow> rely (kv s) (kv s')) \<and>
     (\<forall>s k cmp v. \<exists>m. rely (kv s) m \<and> (case kv_txn_put cl k cmp v s of
        (Inr won, s') \<Rightarrow> won = txn_holds (m k) cmp \<and> (if won then \<exists>r. kv s' = m(k \<mapsto> (v, r)) else kv s' = m)
      | (Inl e, s') \<Rightarrow> kv s' = m \<or> (txn_holds (m k) cmp \<and> (\<exists>r. kv s' = m(k \<mapsto> (v, r))))))"

text \<open>The stored checkpoint stays readable and goes back neither in offset nor in epoch.\<close>

definition cp_progress :: "checkpoint_parser \<Rightarrow> string \<Rightarrow> (string \<rightharpoonup> string \<times> int) \<Rightarrow> (string \<rightharpoonup> string \<times> int) \<Rightarrow> bool" where
  "cp_progress parse key m m' \<longleftrightarrow>
     (\<forall>v r c. m key = Some (v, r) \<longrightarrow> parse v = Inr c \<longrightarrow>
        (\<exists>v' r' c'. m' key = Some (v', r') \<and> parse v' = Inr c' \<and> sc_offset c \<le> sc_offset c' \<and> sc_epoch c \<le> sc_epoch c'))"

text \<open>A revision is the revision of one value.\<close>

definition same_revision :: "string \<Rightarrow> (string \<rightharpoonup> string \<times> int) \<Rightarrow> (string \<rightharpoonup> string \<times> int) \<Rightarrow> bool" where
  "same_revision key m m' \<longleftrightarrow> (\<forall>v v' r. m key = Some (v, r) \<longrightarrow> m' key = Some (v', r) \<longrightarrow> v = v')"

definition checkpoint_json_ok :: "checkpoint_parser \<Rightarrow> bool" where
  "checkpoint_json_ok parse \<longleftrightarrow>
     (\<forall>c. in64 (sc_shard_id c) \<and> in64 (sc_offset c) \<and> in64 (sc_epoch c) \<and> in64 (sc_node_id c) \<and> in64 (sc_updated_at c) \<longrightarrow>
        parse (marshal_checkpoint c) = Inr c)"

definition checkpoint_in64 :: "shard_checkpoint \<Rightarrow> bool" where
  "checkpoint_in64 c \<longleftrightarrow> in64 (sc_shard_id c) \<and> in64 (sc_offset c) \<and> in64 (sc_epoch c) \<and> in64 (sc_node_id c) \<and> in64 (sc_updated_at c)"

lemma cp_progress_refl: "cp_progress parse key m m"
  by (auto simp: cp_progress_def)

lemma cp_progress_trans:
  assumes "cp_progress parse key a b" "cp_progress parse key b c"
  shows "cp_progress parse key a c"
  unfolding cp_progress_def
proof (intro allI impI)
  fix v r x assume "a key = Some (v, r)" "parse v = Inr x"
  then obtain v1 r1 y where "b key = Some (v1, r1)" "parse v1 = Inr y" "sc_offset x \<le> sc_offset y" "sc_epoch x \<le> sc_epoch y"
    using assms(1) unfolding cp_progress_def by blast
  moreover from this obtain v2 r2 z where "c key = Some (v2, r2)" "parse v2 = Inr z" "sc_offset y \<le> sc_offset z" "sc_epoch y \<le> sc_epoch z"
    using assms(2) unfolding cp_progress_def by blast
  ultimately show "\<exists>v' r' c'. c key = Some (v', r') \<and> parse v' = Inr c' \<and> sc_offset x \<le> sc_offset c' \<and> sc_epoch x \<le> sc_epoch c'"
    using order_trans by blast
qed

lemma shared_lawsD:
  assumes "shared_laws cl kv rely"
  shows "kv_get cl k s = (Inr r, s') \<Longrightarrow> rely (kv s) (kv s') \<and> r = kv s' k"
    "kv_get cl k s = (Inl e, s') \<Longrightarrow> rely (kv s) (kv s')"
    "kv_txn_put cl k cmp v s = (Inr won, s') \<Longrightarrow> \<exists>m. rely (kv s) m \<and> won = txn_holds (m k) cmp \<and>
       (if won then \<exists>r. kv s' = m(k \<mapsto> (v, r)) else kv s' = m)"
    "kv_txn_put cl k cmp v s = (Inl e, s') \<Longrightarrow> \<exists>m. rely (kv s) m \<and>
       (kv s' = m \<or> (txn_holds (m k) cmp \<and> (\<exists>r. kv s' = m(k \<mapsto> (v, r)))))"
proof -
  note G = assms[unfolded shared_laws_def, THEN conjunct1, THEN spec, THEN spec, of s k]
  show "kv_get cl k s = (Inr r, s') \<Longrightarrow> rely (kv s) (kv s') \<and> r = kv s' k" using G by simp
  show "kv_get cl k s = (Inl e, s') \<Longrightarrow> rely (kv s) (kv s')" using G by simp
  note T = assms[unfolded shared_laws_def, THEN conjunct2, THEN spec, THEN spec, THEN spec, THEN spec, of s k cmp v]
  show "kv_txn_put cl k cmp v s = (Inr won, s') \<Longrightarrow> \<exists>m. rely (kv s) m \<and> won = txn_holds (m k) cmp \<and>
       (if won then \<exists>r. kv s' = m(k \<mapsto> (v, r)) else kv s' = m)" using T by simp
  show "kv_txn_put cl k cmp v s = (Inl e, s') \<Longrightarrow> \<exists>m. rely (kv s) m \<and>
       (kv s' = m \<or> (txn_holds (m k) cmp \<and> (\<exists>r. kv s' = m(k \<mapsto> (v, r)))))" using T by simp
qed

lemma lone_client: "etcd_laws cl kv \<Longrightarrow> shared_laws cl kv (=)"
  unfolding shared_laws_def using etcd_lawsD[of cl kv] by (auto split: prod.split sum.split)

text \<open>The put of a checkpoint that was compared with what the key held when it was read.\<close>

lemma put_progress:
  assumes j: "parse v = Inr next" and s: "same_revision key m0 m"
    and h: "txn_holds (m key) (map_option snd (m0 key))"
    and c: "\<forall>v0 r0. m0 key = Some (v0, r0) \<longrightarrow> (\<exists>c0. parse v0 = Inr c0 \<and> sc_offset c0 \<le> sc_offset next \<and> sc_epoch c0 \<le> sc_epoch next)"
  shows "cp_progress parse key m (m(key \<mapsto> (v, r)))"
  unfolding cp_progress_def
proof (intro allI impI)
  fix v1 r1 c1 assume a: "m key = Some (v1, r1)" "parse v1 = Inr c1"
  then obtain v0 where "m0 key = Some (v0, r1)" using h by (auto simp: txn_holds_def split: option.splits)
  moreover from this have "v0 = v1" using s a(1) by (simp add: same_revision_def)
  ultimately have "sc_offset c1 \<le> sc_offset next \<and> sc_epoch c1 \<le> sc_epoch next" using c a(2) by auto
  then show "\<exists>v' r' c'. (m(key \<mapsto> (v, r))) key = Some (v', r') \<and> parse v' = Inr c' \<and> sc_offset c1 \<le> sc_offset c' \<and> sc_epoch c1 \<le> sc_epoch c'"
    using j by simp
qed

definition rely_ok :: "checkpoint_parser \<Rightarrow> string \<Rightarrow>
   ((string \<rightharpoonup> string \<times> int) \<Rightarrow> (string \<rightharpoonup> string \<times> int) \<Rightarrow> bool) \<Rightarrow> bool" where
  "rely_ok parse key rely \<longleftrightarrow> (\<forall>m m'. rely m m' \<longrightarrow> cp_progress parse key m m' \<and> same_revision key m m')"

text \<open>What the key holds is ahead of \<open>next\<close>.\<close>

definition ahead :: "checkpoint_parser \<Rightarrow> string \<Rightarrow> shard_checkpoint \<Rightarrow> (string \<rightharpoonup> string \<times> int) \<Rightarrow> bool" where
  "ahead parse key next m \<longleftrightarrow>
     (\<exists>v r c. m key = Some (v, r) \<and> parse v = Inr c \<and> (sc_offset next < sc_offset c \<or> sc_epoch next < sc_epoch c))"

lemma txn_progress:
  assumes sh: "shared_laws cl kv rely" and re: "rely_ok parse key rely" and j: "parse (marshal_checkpoint next) = Inr next"
    and c: "\<forall>v0 r0. kv s key = Some (v0, r0) \<longrightarrow> (\<exists>c0. parse v0 = Inr c0 \<and> should_save (Some c0) next)"
    and e: "kv_txn_put cl key (map_option snd (kv s key)) (marshal_checkpoint next) s = (res, s')"
  shows "cp_progress parse key (kv s) (kv s') \<and> (res = Inr True \<longrightarrow> (\<exists>r. kv s' key = Some (marshal_checkpoint next, r)))"
proof -
  have c': "\<forall>v0 r0. kv s key = Some (v0, r0) \<longrightarrow> (\<exists>c0. parse v0 = Inr c0 \<and> sc_offset c0 \<le> sc_offset next \<and> sc_epoch c0 \<le> sc_epoch next)"
    using c by (fastforce simp: should_save_def split: if_splits)
  obtain m where m: "rely (kv s) m" "kv s' = m \<or> (txn_holds (m key) (map_option snd (kv s key)) \<and> (\<exists>r. kv s' = m(key \<mapsto> (marshal_checkpoint next, r))))"
      "res = Inr True \<longrightarrow> (\<exists>r. kv s' = m(key \<mapsto> (marshal_checkpoint next, r)))"
    using shared_lawsD(3,4)[OF sh, of key "map_option snd (kv s key)" "marshal_checkpoint next" s _ s'] e
    by (cases res) (auto split: if_splits)
  have r: "cp_progress parse key (kv s) m" "same_revision key (kv s) m" using re m(1) unfolding rely_ok_def by blast+
  have "cp_progress parse key (kv s) (kv s')"
    using m(2) r(1) cp_progress_trans[OF r(1) put_progress[OF j r(2) _ c']] by auto
  then show ?thesis using m(3) by auto
qed

lemma try_save_progress:
  assumes sh: "shared_laws cl kv rely" and re: "rely_ok parse key rely" and j: "parse (marshal_checkpoint next) = Inr next"
    and e: "try_save cl parse key next s = (res, s')"
  shows "cp_progress parse key (kv s) (kv s')"
    "res = Inr True \<Longrightarrow> \<exists>r. kv s' key = Some (marshal_checkpoint next, r)"
    "res = Inl ErrStaleShardCheckpoint \<Longrightarrow> ahead parse key next (kv s')"
proof -
  obtain g s1 where g: "kv_get cl key s = (g, s1)" by fastforce
  have p1: "cp_progress parse key (kv s) (kv s1)" using shared_lawsD(1,2)[OF sh, of key s _ s1] g re unfolding rely_ok_def by (cases g) auto
  have "cp_progress parse key (kv s) (kv s') \<and> (res = Inr True \<longrightarrow> (\<exists>r. kv s' key = Some (marshal_checkpoint next, r))) \<and>
      (res = Inl ErrStaleShardCheckpoint \<longrightarrow> ahead parse key next (kv s'))"
  proof (cases g)
    case (Inl err)
    then show ?thesis using e g p1 by (auto simp: try_save_def ebind_def wrap_err_def)
  next
    case (Inr cur)
    have k1: "cur = kv s1 key" using shared_lawsD(1)[OF sh, of key s cur s1] g Inr by simp
    consider (put) t s2 where "kv_txn_put cl key (map_option snd cur) (marshal_checkpoint next) s1 = (t, s2)" "s' = s2"
        "res = (case t of Inl err \<Rightarrow> Inl (ErrWrap ''save shard checkpoint in etcd: %w'' err) | Inr b \<Rightarrow> Inr b)"
        "\<forall>v r. cur = Some (v, r) \<longrightarrow> (\<exists>c. parse v = Inr c \<and> should_save (Some c) next)"
      | (stale) v r c where "cur = Some (v, r)" "parse v = Inr c" "\<not> should_save (Some c) next" "s' = s1" "res = Inl ErrStaleShardCheckpoint"
      | (bad) err where "s' = s1" "res = Inl (ErrWrap ''decode shard checkpoint: %w'' err)"
    proof (cases cur)
      case None
      obtain t s2 where t: "kv_txn_put cl key None (marshal_checkpoint next) s1 = (t, s2)" by fastforce
      show ?thesis using put[of t s2] t None e g Inr
        by (cases t) (simp_all add: try_save_def ebind_def wrap_err_def should_save_def)
    next
      case (Some z)
      obtain v r where z: "z = (v, r)" by (cases z)
      obtain t s2 where t: "kv_txn_put cl key (Some r) (marshal_checkpoint next) s1 = (t, s2)" by fastforce
      show ?thesis
      proof (cases "parse v")
        case (Inl err)
        then show ?thesis using bad[of err] Some z e g Inr by (simp add: try_save_def ebind_def wrap_err_def decode_checkpoint_def)
      next
        case c: (Inr c)
        show ?thesis
        proof (cases "should_save (Some c) next")
          case True
          then show ?thesis using put[of t s2] t Some z e g Inr c
            by (cases t) (simp_all add: try_save_def ebind_def wrap_err_def decode_checkpoint_def)
        next
          case False
          then show ?thesis using stale[of v r c] Some z e g Inr c by (simp add: try_save_def ebind_def wrap_err_def decode_checkpoint_def)
        qed
      qed
    qed
    then show ?thesis
    proof cases
      case put
      have P: "cp_progress parse key (kv s1) (kv s2)" "t = Inr True \<Longrightarrow> \<exists>r. kv s2 key = Some (marshal_checkpoint next, r)"
        using txn_progress[OF sh re j, of s1 t s2] put(1,4) unfolding k1 by blast+
      show ?thesis using put(2,3) P cp_progress_trans[OF p1 P(1)] by (cases t) auto
    next
      case stale
      then show ?thesis using p1 k1 by (auto simp: ahead_def should_save_def split: if_splits)
    next
      case bad
      then show ?thesis using p1 by simp
    qed
  qed
  then show "cp_progress parse key (kv s) (kv s')" "res = Inr True \<Longrightarrow> \<exists>r. kv s' key = Some (marshal_checkpoint next, r)"
    "res = Inl ErrStaleShardCheckpoint \<Longrightarrow> ahead parse key next (kv s')" by blast+
qed

lemma save_attempts_progress:
  assumes sh: "shared_laws cl kv rely" and re: "rely_ok parse key rely" and j: "parse (marshal_checkpoint next) = Inr next"
  shows "save_attempts cl parse key next n s = (res, s') \<Longrightarrow>
    cp_progress parse key (kv s) (kv s') \<and> (res = Inr () \<longrightarrow> (\<exists>r. kv s' key = Some (marshal_checkpoint next, r))) \<and>
    (res = Inl ErrStaleShardCheckpoint \<longrightarrow> ahead parse key next (kv s'))"
proof (induction n arbitrary: s)
  case 0
  then show ?case by (auto simp: cp_progress_refl)
next
  case (Suc n)
  obtain t s1 where t: "try_save cl parse key next s = (t, s1)" by fastforce
  note T = try_save_progress[OF sh re j t]
  show ?case
  proof (cases "t = Inr False")
    case True
    then have "save_attempts cl parse key next n s1 = (res, s')" using Suc.prems t by (simp add: ebind_def)
    then show ?thesis using Suc.IH cp_progress_trans[OF T(1)] by blast
  next
    case False
    then show ?thesis using T Suc.prems t by (cases t) (auto split: if_splits)
  qed
qed

subsection \<open>A lone client\<close>

definition etcd_checkpoint_view :: "checkpoint_parser \<Rightarrow> string \<Rightarrow> (string \<rightharpoonup> string \<times> int) \<Rightarrow> int \<rightharpoonup> shard_checkpoint" where
  "etcd_checkpoint_view parse pre m k =
     (if k < 0 then None
      else case m (checkpoint_key pre k) of
             None \<Rightarrow> None
           | Some (v, r) \<Rightarrow> (case parse v of Inl e \<Rightarrow> None | Inr c \<Rightarrow> Some (c\<lparr>sc_shard_id := k\<rparr>)))"

definition checkpoints_wf :: "checkpoint_parser \<Rightarrow> string \<Rightarrow> (string \<rightharpoonup> string \<times> int) \<Rightarrow> bool" where
  "checkpoints_wf parse pre m \<longleftrightarrow> (\<forall>k v r. m (checkpoint_key pre k) = Some (v, r) \<longrightarrow> (\<exists>c. parse v = Inr c))"

lemma checkpoint_key_inj: "checkpoint_key pre i = checkpoint_key pre j \<Longrightarrow> i = j"
  by (simp add: checkpoint_key_def itoa_inj)

lemma checkpoint_put:
  assumes "parse (marshal_checkpoint c) = Inr c" "checkpoints_wf parse pre m" "0 \<le> sc_shard_id c"
  shows "let m' = m(checkpoint_key pre (sc_shard_id c) \<mapsto> (marshal_checkpoint c, r))
    in checkpoints_wf parse pre m' \<and> etcd_checkpoint_view parse pre m' = (etcd_checkpoint_view parse pre m)(sc_shard_id c \<mapsto> c)"
proof -
  have k: "checkpoint_key pre i = checkpoint_key pre j \<longleftrightarrow> i = j" for i j using checkpoint_key_inj by blast
  show ?thesis using assms by (auto simp: checkpoints_wf_def etcd_checkpoint_view_def k Let_def fun_eq_iff)
qed

lemma try_save_alone:
  assumes L: "etcd_laws cl kv" and e: "try_save cl parse key c s = (res, s')"
  shows "kv s' = kv s \<or> (\<exists>r. kv s' = (kv s)(key \<mapsto> (marshal_checkpoint c, r)))"
    "res = Inr won \<Longrightarrow> won \<and> (\<exists>r. kv s' = (kv s)(key \<mapsto> (marshal_checkpoint c, r)))"
proof -
  obtain g s1 where g: "kv_get cl key s = (g, s1)" by fastforce
  have k1: "kv s1 = kv s" "\<And>cur. g = Inr cur \<Longrightarrow> cur = kv s key"
    using etcd_lawsD(1,2)[OF L, of key s _ s1] g by (cases g; auto)+
  have T: "kv s2 = kv s1 \<or> (\<exists>r. kv s2 = (kv s1)(key \<mapsto> (marshal_checkpoint c, r)))"
      "t = Inr b \<Longrightarrow> b \<and> (\<exists>r. kv s2 = (kv s1)(key \<mapsto> (marshal_checkpoint c, r)))"
    if "kv_txn_put cl key (map_option snd (kv s1 key)) (marshal_checkpoint c) s1 = (t, s2)" for t s2 b
    using etcd_lawsD(5,6)[OF L, of key "map_option snd (kv s1 key)" "marshal_checkpoint c" s1 _ s2] that
    by (cases t; force simp: txn_holds_def split: option.splits if_splits)+
  have "(kv s' = kv s \<or> (\<exists>r. kv s' = (kv s)(key \<mapsto> (marshal_checkpoint c, r)))) \<and>
    (res = Inr won \<longrightarrow> won \<and> (\<exists>r. kv s' = (kv s)(key \<mapsto> (marshal_checkpoint c, r))))"
  proof (cases g)
    case (Inl err)
    then show ?thesis using e g k1 by (auto simp: try_save_def ebind_def wrap_err_def)
  next
    case (Inr cur)
    obtain t s2 where t: "kv_txn_put cl key (map_option snd cur) (marshal_checkpoint c) s1 = (t, s2)" by fastforce
    have "(\<exists>err. res = Inl err \<and> s' = s1) \<or>
        (s' = s2 \<and> res = (case t of Inl err \<Rightarrow> Inl (ErrWrap ''save shard checkpoint in etcd: %w'' err) | Inr b \<Rightarrow> Inr b))"
      using e g Inr t by (cases cur; cases t) (auto simp: try_save_def ebind_def wrap_err_def split: sum.splits if_splits prod.splits)
    moreover have t': "kv_txn_put cl key (map_option snd (kv s1 key)) (marshal_checkpoint c) s1 = (t, s2)"
      using t k1 Inr by simp
    ultimately show ?thesis using T(1)[OF t'] T(2)[OF t', of won] k1(1) by (cases t) auto
  qed
  then show "kv s' = kv s \<or> (\<exists>r. kv s' = (kv s)(key \<mapsto> (marshal_checkpoint c, r)))"
    "res = Inr won \<Longrightarrow> won \<and> (\<exists>r. kv s' = (kv s)(key \<mapsto> (marshal_checkpoint c, r)))" by blast+
qed

lemma save_attempts_alone:
  assumes L: "etcd_laws cl kv" and e: "save_attempts cl parse key c (Suc n) s = (res, s')"
  shows "(kv s' = kv s \<and> res \<noteq> Inr ()) \<or> (\<exists>r. kv s' = (kv s)(key \<mapsto> (marshal_checkpoint c, r)))"
proof -
  obtain t s1 where t: "try_save cl parse key c s = (t, s1)" by fastforce
  note T = try_save_alone[OF L t]
  show ?thesis using T(1) T(2) e t by (cases t) auto
qed

lemma etcd_checkpoint_contract:
  assumes L: "etcd_laws cl kv" and j: "checkpoint_json_ok parse"
  shows "checkpoint_store (etcd_cp_ops cl parse pre) (\<lambda>s. etcd_checkpoint_view parse pre (kv s))
     (\<lambda>s. checkpoints_wf parse pre (kv s)) (\<lambda>k. 0 \<le> k) (\<lambda>c. checkpoint_in64 c \<and> 0 \<le> sc_shard_id c) (\<lambda>c. c)"
proof -
  have load: "kv s' = kv s \<and> (\<forall>r. res = Inr r \<longrightarrow> r = etcd_checkpoint_view parse pre (kv s) k)"
    if "etcd_load_checkpoint cl parse pre k s = (res, s')" "0 \<le> k" for s k res s'
  proof -
    obtain g s1 where g: "kv_get cl (checkpoint_key pre k) s = (g, s1)" by fastforce
    show ?thesis using that g etcd_lawsD(1,2)[OF L, of "checkpoint_key pre k" s _ s1]
      by (cases g) (auto simp: etcd_load_checkpoint_def ebind_def wrap_err_def etcd_checkpoint_view_def decode_checkpoint_def
            split: option.splits sum.splits prod.splits)
  qed
  have save: "checkpoints_wf parse pre (kv s') \<and>
      (etcd_checkpoint_view parse pre (kv s') = (etcd_checkpoint_view parse pre (kv s))(sc_shard_id c \<mapsto> c) \<or>
       res \<noteq> Inr () \<and> etcd_checkpoint_view parse pre (kv s') = etcd_checkpoint_view parse pre (kv s))"
    if "etcd_save_checkpoint cl parse pre c s = (res, s')" "checkpoint_in64 c" "0 \<le> sc_shard_id c" "checkpoints_wf parse pre (kv s)" for s c res s'
  proof (cases "validate_checkpoint c")
    case (Inl err)
    then show ?thesis using that by (auto simp: etcd_save_checkpoint_def)
  next
    case (Inr u)
    have p: "parse (marshal_checkpoint c) = Inr c" using j that(2) by (simp add: checkpoint_json_ok_def checkpoint_in64_def)
    have "save_attempts cl parse (checkpoint_key pre (sc_shard_id c)) c (Suc 7) s = (res, s')"
      using that(1) Inr by (simp add: etcd_save_checkpoint_def maxEtcdCheckpointRetries_def)
    from save_attempts_alone[OF L this] show ?thesis
      using checkpoint_put[OF p that(4,3)] that(4) by (auto simp: Let_def)
  qed
  show ?thesis
  proof (unfold_locales, goal_cases)
    case (1 s k r s')
    then show ?case using load[of k s "Inr r" s'] by (simp add: etcd_cp_ops_def)
  next
    case (2 s k e s')
    then show ?case using load[of k s "Inl e" s'] by (simp add: etcd_cp_ops_def)
  next
    case (3 s c u s')
    then show ?case using save[of c s "Inr u" s'] by (simp add: etcd_cp_ops_def)
  next
    case (4 s c e s')
    then show ?case using save[of c s "Inl e" s'] by (auto simp: etcd_cp_ops_def)
  qed simp_all
qed

subsection \<open>A parser for what \<open>json.Marshal\<close> writes\<close>

fun eat_fields :: "string list \<Rightarrow> string \<Rightarrow> go_error + int list" where
  "eat_fields [] s = (if s = ''}'' then Inr [] else Inl (ErrMsg ''invalid character'' []))"
| "eat_fields (l # ls) s =
     (case eat l s of Inl e \<Rightarrow> Inl e
      | Inr s1 \<Rightarrow> (case eat_int s1 of Inl e \<Rightarrow> Inl e
         | Inr (i, s2) \<Rightarrow> (case eat_fields ls s2 of Inl e \<Rightarrow> Inl e | Inr is \<Rightarrow> Inr (i # is))))"

definition checkpoint_labels :: "string list" where
  "checkpoint_labels = [''{'' @ quoted ''ShardID'' @ '':'', '','' @ quoted ''Offset'' @ '':'', '','' @ quoted ''Epoch'' @ '':'',
     '','' @ quoted ''NodeID'' @ '':'', '','' @ quoted ''UpdatedAt'' @ '':'']"

definition ref_parse_checkpoint :: checkpoint_parser where
  "ref_parse_checkpoint s =
     (case eat_fields checkpoint_labels s of
        Inl e \<Rightarrow> Inl e
      | Inr is \<Rightarrow> Inr \<lparr>sc_shard_id = is ! 0, sc_offset = is ! 1, sc_epoch = is ! 2, sc_node_id = is ! 3, sc_updated_at = is ! 4\<rparr>)"

lemma eat_fields_join:
  "length ls = length is \<Longrightarrow> \<forall>l \<in> set (tl ls). l \<noteq> [] \<and> \<not> is_int_char (hd l) \<Longrightarrow> \<forall>i \<in> set is. in64 i \<Longrightarrow>
   eat_fields ls (concat (map2 (\<lambda>l i. l @ itoa i) ls is) @ ''}'') = Inr is"
proof (induction ls "is" rule: list_induct2)
  case (Cons l ls i "is")
  obtain c rest where c: "concat (map2 (\<lambda>l i. l @ itoa i) ls is) @ ''}'' = c # rest" "\<not> is_int_char c"
  proof (cases ls)
    case Nil
    then show ?thesis using that[of "CHR ''}''" "[]"] not_int_chars(2) by simp
  next
    case (Cons l2 ls2)
    then obtain d l3 where "l2 = d # l3" "\<not> is_int_char d" using Cons.prems(1) by (cases l2) auto
    then show ?thesis using that Cons \<open>length ls = length is\<close> by (cases "is") auto
  qed
  have e: "eat_int (itoa i @ (concat (map2 (\<lambda>l i. l @ itoa i) ls is) @ ''}'')) = Inr (i, concat (map2 (\<lambda>l i. l @ itoa i) ls is) @ ''}'')"
    unfolding c(1) by (rule eat_int_itoa) (use Cons.prems c(2) in simp_all)
  have ih: "eat_fields ls (concat (map2 (\<lambda>l i. l @ itoa i) ls is) @ ''}'') = Inr is"
    using Cons by (cases ls) auto
  show ?case using e ih by simp
qed simp

lemma ref_checkpoint_json_ok: "checkpoint_json_ok ref_parse_checkpoint"
  unfolding checkpoint_json_ok_def
proof (intro allI impI)
  fix c :: shard_checkpoint
  let ?is = "[sc_shard_id c, sc_offset c, sc_epoch c, sc_node_id c, sc_updated_at c]"
  assume "in64 (sc_shard_id c) \<and> in64 (sc_offset c) \<and> in64 (sc_epoch c) \<and> in64 (sc_node_id c) \<and> in64 (sc_updated_at c)"
  moreover have "marshal_checkpoint c = concat (map2 (\<lambda>l i. l @ itoa i) checkpoint_labels ?is) @ ''}''"
    by (simp add: marshal_checkpoint_def checkpoint_labels_def)
  ultimately have "eat_fields checkpoint_labels (marshal_checkpoint c) = Inr ?is"
    using eat_fields_join[of checkpoint_labels ?is] not_int_chars(1) by (simp add: checkpoint_labels_def)
  then show "ref_parse_checkpoint (marshal_checkpoint c) = Inr c" by (simp add: ref_parse_checkpoint_def)
qed

interpretation cpetcd: checkpoint_store "etcd_cp_ops ref_client ref_parse_checkpoint pre"
    "\<lambda>s. etcd_checkpoint_view ref_parse_checkpoint pre (ref_view s)" "\<lambda>s. checkpoints_wf ref_parse_checkpoint pre (ref_view s)"
    "\<lambda>k. 0 \<le> k" "\<lambda>c. checkpoint_in64 c \<and> 0 \<le> sc_shard_id c" "\<lambda>c. c" for pre
  by (rule etcd_checkpoint_contract[OF ref_laws ref_checkpoint_json_ok])

section \<open>Properties\<close>

text \<open>
  Property C11. A checkpoint in etcd never goes back: whatever other savers that themselves never set it
  back do between the requests of a save, and whether the save succeeds, is refused or fails, the
  stored offset and epoch do not decrease. A save that succeeds is stored; one that is refused as
  stale was behind the stored checkpoint in offset or epoch.
\<close>

theorem etcd_checkpoint_never_regresses:
  assumes "shared_laws cl kv rely" "rely_ok parse (checkpoint_key pre (sc_shard_id c)) rely"
    and "checkpoint_json_ok parse" "checkpoint_in64 c" "etcd_save_checkpoint cl parse pre c s = (res, s')"
  shows "let key = checkpoint_key pre (sc_shard_id c)
    in cp_progress parse key (kv s) (kv s') \<and>
       (res = Inr () \<longrightarrow> (\<exists>r. kv s' key = Some (marshal_checkpoint c, r))) \<and>
       (res = Inl ErrStaleShardCheckpoint \<longrightarrow> ahead parse key c (kv s'))"
proof (cases "validate_checkpoint c")
  case (Inl err)
  have "err \<noteq> ErrStaleShardCheckpoint" using Inl by (auto simp: validate_checkpoint_def split: if_splits)
  moreover have "res = Inl err" "s' = s" using assms(5) Inl by (simp_all add: etcd_save_checkpoint_def)
  ultimately show ?thesis by (simp add: Let_def cp_progress_refl)
next
  case (Inr u)
  have j: "parse (marshal_checkpoint c) = Inr c" using assms(3,4) by (simp add: checkpoint_json_ok_def checkpoint_in64_def)
  show ?thesis using save_attempts_progress[OF assms(1,2) j] assms(5) Inr by (simp add: etcd_save_checkpoint_def)
qed

definition cp_three :: shard_checkpoint where
  "cp_three = \<lparr>sc_shard_id = 3, sc_offset = 10, sc_epoch = 2, sc_node_id = 20, sc_updated_at = 0\<rparr>"

lemma cp_three_in64: "checkpoint_in64 cp_three" "0 \<le> sc_shard_id cp_three"
  by (simp_all add: checkpoint_in64_def cp_three_def in64_def)

theorem etcd_checkpoint_never_regresses_witness:
  "\<exists>s'. etcd_save_checkpoint ref_client ref_parse_checkpoint ''/t'' cp_three ref_empty = (Inr (), s') \<and>
     (\<exists>r. ref_view s' (checkpoint_key ''/t'' 3) = Some (marshal_checkpoint cp_three, r))"
proof -
  have r: "rely_ok ref_parse_checkpoint (checkpoint_key ''/t'' (sc_shard_id cp_three)) (=)"
    by (auto simp: rely_ok_def cp_progress_refl same_revision_def)
  have f: "fst (etcd_save_checkpoint ref_client ref_parse_checkpoint ''/t'' cp_three ref_empty) = Inr ()" by code_simp
  obtain s' where e: "etcd_save_checkpoint ref_client ref_parse_checkpoint ''/t'' cp_three ref_empty = (Inr (), s')"
    using f by (metis prod.collapse)
  show ?thesis
    using etcd_checkpoint_never_regresses[OF lone_client[OF ref_laws] r ref_checkpoint_json_ok cp_three_in64(1) e] e
    by (auto simp: Let_def cp_three_def)
qed

text \<open>
  Property C40. What the etcd store saves it loads: after a save of a checkpoint that reports no error, a
  load of the shard that reports no error returns exactly this checkpoint, and every other shard's
  checkpoint is as before.
\<close>

theorem etcd_checkpoint_roundtrip:
  assumes "etcd_laws cl kv" "checkpoint_json_ok parse" "checkpoints_wf parse pre (kv s)" "checkpoint_in64 c" "0 \<le> sc_shard_id c"
    and "etcd_save_checkpoint cl parse pre c s = (Inr (), s1)" "etcd_load_checkpoint cl parse pre k s1 = (Inr r, s2)" "0 \<le> k"
  shows "r = (if k = sc_shard_id c then Some c else etcd_checkpoint_view parse pre (kv s) k)"
proof -
  note C = etcd_checkpoint_contract[OF assms(1,2), of pre]
  have e: "cs_save (etcd_cp_ops cl parse pre) c s = (Inr (), s1)" "cs_load (etcd_cp_ops cl parse pre) k s1 = (Inr r, s2)"
    using assms(6,7) by (simp_all add: etcd_cp_ops_def)
  have S: "checkpoints_wf parse pre (kv s1)" "etcd_checkpoint_view parse pre (kv s1) = (etcd_checkpoint_view parse pre (kv s))(sc_shard_id c \<mapsto> c) \<or>
      etcd_checkpoint_view parse pre (kv s1) = etcd_checkpoint_view parse pre (kv s)"
    using checkpoint_store.save[OF C assms(3) _ e(1)] assms(4,5) by auto
  have u: "etcd_checkpoint_view parse pre (kv s1) = (etcd_checkpoint_view parse pre (kv s))(sc_shard_id c \<mapsto> c)"
  proof -
    have "validate_checkpoint c = Inr ()" using assms(6) by (cases "validate_checkpoint c") (auto simp: etcd_save_checkpoint_def)
    then have "save_attempts cl parse (checkpoint_key pre (sc_shard_id c)) c (Suc 7) s = (Inr (), s1)"
      using assms(6) by (simp add: etcd_save_checkpoint_def maxEtcdCheckpointRetries_def)
    then obtain r where "kv s1 = (kv s)(checkpoint_key pre (sc_shard_id c) \<mapsto> (marshal_checkpoint c, r))"
      using save_attempts_alone[OF assms(1)] by blast
    moreover have "parse (marshal_checkpoint c) = Inr c" using assms(2,4) by (simp add: checkpoint_json_ok_def checkpoint_in64_def)
    ultimately show ?thesis using checkpoint_put[of parse c pre "kv s" r] assms(3,5) by (simp add: Let_def)
  qed
  show ?thesis using checkpoint_store.load[OF C S(1) _ e(2)] assms(8) u by simp
qed

theorem etcd_checkpoint_roundtrip_witness:
  "\<exists>s1 s2. etcd_save_checkpoint ref_client ref_parse_checkpoint ''/t'' cp_three ref_empty = (Inr (), s1) \<and>
     etcd_load_checkpoint ref_client ref_parse_checkpoint ''/t'' 3 s1 = (Inr (Some cp_three), s2)"
proof -
  have f: "fst (etcd_save_checkpoint ref_client ref_parse_checkpoint ''/t'' cp_three ref_empty) = Inr ()"
    "case fst (etcd_load_checkpoint ref_client ref_parse_checkpoint ''/t'' 3
        (snd (etcd_save_checkpoint ref_client ref_parse_checkpoint ''/t'' cp_three ref_empty))) of Inl _ \<Rightarrow> False | Inr _ \<Rightarrow> True" by code_simp+
  obtain s1 where 1: "etcd_save_checkpoint ref_client ref_parse_checkpoint ''/t'' cp_three ref_empty = (Inr (), s1)"
    using f(1) by (metis prod.collapse)
  obtain r s2 where 2: "etcd_load_checkpoint ref_client ref_parse_checkpoint ''/t'' 3 s1 = (Inr r, s2)"
    using f(2) 1 by (cases "etcd_load_checkpoint ref_client ref_parse_checkpoint ''/t'' 3 s1") (auto split: sum.splits)
  have w: "checkpoints_wf ref_parse_checkpoint ''/t'' (ref_view ref_empty)"
    by (simp add: checkpoints_wf_def ref_view_def ref_empty_def)
  have "r = Some cp_three"
    using etcd_checkpoint_roundtrip[OF ref_laws ref_checkpoint_json_ok w cp_three_in64 1 2] by (simp add: cp_three_def)
  then show ?thesis using 1 2 by blast
qed

text \<open>The effect of one save on the table, in full.\<close>

definition saved_checkpoint :: "shard_checkpoint \<Rightarrow> shard_checkpoint option \<Rightarrow> shard_checkpoint" where
  "saved_checkpoint c old =
     (case old of None \<Rightarrow> narrow_checkpoint c | Some o1 \<Rightarrow> if sc_epoch o1 \<le> sc_epoch c then narrow_checkpoint c else o1)"

lemma postgres_save_exact:
  assumes "in32 (sc_shard_id c)" "postgres_save_checkpoint en consumer topic c w = (res, w')"
  shows "(\<exists>e. en_fault en (w_tick w) = Some e \<and> res = Inl e \<and> w_db w' = w_db w) \<or>
    (en_fault en (w_tick w) = None \<and> res = Inr () \<and> table_view consumer topic (w_db w') =
       (table_view consumer topic (w_db w))(sc_shard_id c \<mapsto> saved_checkpoint c (table_view consumer topic (w_db w) (sc_shard_id c))))"
proof -
  have r: "checkpoint_of_row (sc_shard_id c) (row_of_checkpoint c) = narrow_checkpoint c"
    by (simp add: checkpoint_of_row_def row_of_checkpoint_def narrow_checkpoint_def)
  have v: "table_view consumer topic (snd (upsert_shard_checkpoint consumer topic (sc_shard_id c) (row_of_checkpoint c) db)) =
     (table_view consumer topic db)(sc_shard_id c \<mapsto> saved_checkpoint c (table_view consumer topic db (sc_shard_id c)))" for db
    using assms(1) r by (auto simp: upsert_shard_checkpoint_def Let_def table_view_def saved_checkpoint_def fun_eq_iff
        checkpoint_of_row_def row_of_checkpoint_def split: option.splits)
  have f: "fst (upsert_shard_checkpoint consumer topic (sc_shard_id c) (row_of_checkpoint c) db) = Inr ()" for db
    by (simp add: upsert_shard_checkpoint_def Let_def split: option.split)
  show ?thesis
    using auto_commit_cases[OF assms(2)[unfolded postgres_save_checkpoint_def]] v f wrap32_id[OF assms(1)] by auto
qed

text \<open>
  A save in the table is fenced by the epoch only, and silently: a checkpoint of an older
  epoch than the stored one leaves the row as it is and yet reports success, while a checkpoint of the
  same epoch replaces the row even when its offset is smaller. Other shards, and other consumers and
  topics, are not touched; with a failing connection nothing is.
\<close>

theorem postgres_checkpoint_save:
  assumes "in32 (sc_shard_id c)" "postgres_save_checkpoint en consumer topic c w = (res, w')"
    and "table_view consumer topic (w_db w) (sc_shard_id c) = Some old"
  shows "(\<exists>e. res = Inl e \<and> w_db w' = w_db w) \<or>
    (res = Inr () \<and>
     table_view consumer topic (w_db w') (sc_shard_id c) =
       Some (if sc_epoch c < sc_epoch old then old else narrow_checkpoint c) \<and>
     (\<forall>k. k \<noteq> sc_shard_id c \<longrightarrow> table_view consumer topic (w_db w') k = table_view consumer topic (w_db w) k))"
  using postgres_save_exact[OF assms(1,2)] assms(3) by (auto simp: saved_checkpoint_def)

definition table_three :: database where
  "table_three = empty_database\<lparr>tb_checkpoints := [(''c'', ''t'', 3) \<mapsto> row_of_checkpoint cp_three]\<rparr>"

definition set_back :: "(go_error + unit) \<times> world" where
  "set_back = postgres_save_checkpoint (calm \<lparr>ow_shard_id = 3, ow_node_id = 1, ow_epoch = 2\<rparr>) ''c'' ''t''
     (cp_three\<lparr>sc_offset := 4\<rparr>) \<lparr>w_db = table_three, w_tx = table_three, w_tick = 0\<rparr>"

theorem postgres_checkpoint_save_witness:
  "fst set_back = Inr () \<and> map_option sc_offset (table_view ''c'' ''t'' table_three 3) = Some 10 \<and>
   map_option sc_offset (table_view ''c'' ''t'' (w_db (snd set_back)) 3) = Some 4"
proof -
  have o: "table_view ''c'' ''t'' table_three 3 = Some cp_three"
    by (simp add: table_view_def table_three_def checkpoint_of_row_def row_of_checkpoint_def cp_three_def in32_def wrap32_def)
  have f: "fst set_back = Inr ()" by code_simp
  have e: "postgres_save_checkpoint (calm \<lparr>ow_shard_id = 3, ow_node_id = 1, ow_epoch = 2\<rparr>) ''c'' ''t''
     (cp_three\<lparr>sc_offset := 4\<rparr>) \<lparr>w_db = table_three, w_tx = table_three, w_tick = 0\<rparr> = (fst set_back, snd set_back)"
    by (simp add: set_back_def)
  have i: "in32 (sc_shard_id (cp_three\<lparr>sc_offset := 4\<rparr>))" by (simp add: cp_three_def in32_def)
  show ?thesis using postgres_checkpoint_save[OF i e, of cp_three] o f by (auto simp: cp_three_def narrow_checkpoint_def)
qed

end
