(* ===== verification/Outbox.thy ===== *)
theory Outbox
  imports Applier Kafka
begin

text \<open>
  The outbox publisher (\<open>internal/outbox\<close>): it claims a batch of unpublished rows under a lease, appends
  them to the log of their topic, in one batch when the target can, marks the appended ones published
  and the others failed. The state is that of the logs together with the database.
\<close>

section \<open>The publisher\<close>

text \<open>Durations are nanoseconds.\<close>

record publisher_config =
  pc_worker_id :: string
  pc_batch_size :: int
  pc_lease :: int
  pc_poll_interval :: int

definition publisher_defaults :: "publisher_config \<Rightarrow> publisher_config" where
  "publisher_defaults c =
     c\<lparr>pc_batch_size := (if pc_batch_size c \<le> 0 then 100 else pc_batch_size c),
       pc_lease := (if pc_lease c \<le> 0 then 30 * 1000000000 else pc_lease c),
       pc_poll_interval := (if pc_poll_interval c \<le> 0 then 1000000000 else pc_poll_interval c)\<rparr>"

text \<open>
  \<open>now.Add(lease).Unix()\<close>, where \<open>nanos\<close> is what the clock shows beyond the second, in nanoseconds.
\<close>

definition lease_until :: "int \<Rightarrow> int \<Rightarrow> int \<Rightarrow> int" where
  "lease_until now nanos lease = (now * 1000000000 + nanos + lease) div 1000000000"

definition claim :: "env \<Rightarrow> (nat \<Rightarrow> int) \<Rightarrow> publisher_config \<Rightarrow> (world, outbox_row list) eff" where
  "claim en nanos cfg =
     ebind (wrap_err ''begin outbox claim: %w'' (begin_tx en)) (\<lambda>_ w.
       ebind (time_now en) (\<lambda>now.
       ebind (wrap_err ''claim outbox events: %w'' (\<lambda>w1. in_tx en
           (claim_outbox_events (en_scan en (w_tick w1)) (en_back en (w_tick w1)) (pc_worker_id cfg)
              (lease_until now (nanos (w_tick w)) (pc_lease cfg)) now (pc_batch_size cfg)) w1)) (\<lambda>evs.
       ebind (wrap_err ''commit outbox claim: %w'' (commit_tx en)) (\<lambda>_. ret evs))) w)"

fun group_add :: "outbox_row \<Rightarrow> (string \<times> outbox_row list) list \<Rightarrow> (string \<times> outbox_row list) list" where
  "group_add r [] = [(ob_topic r, [r])]"
| "group_add r ((t, rs) # gs) = (if t = ob_topic r then (t, rs @ [r]) # gs else (t, rs) # group_add r gs)"

definition group_by_topic :: "outbox_row list \<Rightarrow> (string \<times> outbox_row list) list" where
  "group_by_topic rs = foldl (\<lambda>gs r. group_add r gs) [] rs"

definition outbox_to_event :: "outbox_row \<Rightarrow> event" where
  "outbox_to_event r = \<lparr>ev_id = ob_event_id r, ev_type = ob_event_type r, ev_aggregate_type = ob_aggregate_type r,
     ev_aggregate_id = ob_aggregate_id r, ev_shard_id = ob_shard_id r, ev_occurred_at = ob_occurred_at r, ev_payload = ob_payload r\<rparr>"

definition outbox_event_ids :: "outbox_row list \<Rightarrow> string list" where
  "outbox_event_ids rs = map ob_event_id rs"

text \<open>\<open>text\<close> is \<open>error.Error\<close>; the error of the statement itself is dropped.\<close>

definition mark_failed :: "env \<Rightarrow> (go_error \<Rightarrow> string) \<Rightarrow> publisher_config \<Rightarrow> string \<Rightarrow> go_error \<Rightarrow> world \<Rightarrow> world" where
  "mark_failed en text cfg i err w = snd (auto_commit en (mark_outbox_event_failed i (text err) (pc_worker_id cfg)) w)"

definition mark_published :: "env \<Rightarrow> publisher_config \<Rightarrow> string list \<Rightarrow> (world, unit) eff" where
  "mark_published en cfg ids =
     ebind (time_now en) (\<lambda>now.
     ebind (wrap_err ''mark outbox events published: %w''
             (auto_commit en (mark_outbox_events_published now ids (pc_worker_id cfg)))) (\<lambda>updated.
       if updated \<noteq> int (length ids)
       then throw (ErrMsg ''marked %d outbox events published, want %d'' [FInt updated, FInt (int (length ids))])
       else ret ()))"

fun publish_each ::
  "env \<Rightarrow> (go_error \<Rightarrow> string) \<Rightarrow> publisher_config \<Rightarrow> 'l appender \<Rightarrow> outbox_row list \<Rightarrow> 'l \<times> world \<Rightarrow> string list \<times> 'l \<times> world" where
  "publish_each en text cfg target [] s = ([], s)"
| "publish_each en text cfg target (r # rs) (l, w) =
     (case ap_append target (outbox_to_event r) l of
        (Inl err, l1) \<Rightarrow> publish_each en text cfg target rs (l1, mark_failed en text cfg (ob_event_id r) err w)
      | (Inr _, l1) \<Rightarrow> (case publish_each en text cfg target rs (l1, w) of (ids, s) \<Rightarrow> (ob_event_id r # ids, s)))"

definition publish_topic ::
  "env \<Rightarrow> (go_error \<Rightarrow> string) \<Rightarrow> publisher_config \<Rightarrow> 'l appender \<Rightarrow> outbox_row list \<Rightarrow> 'l \<times> world \<Rightarrow> string list \<times> 'l \<times> world" where
  "publish_topic en text cfg target rs s =
     (case ap_batch target of
        Some batch \<Rightarrow>
          (case s of (l, w) \<Rightarrow> (case batch (map outbox_to_event rs) l of
             (Inl err, l1) \<Rightarrow> ([], l1, foldl (\<lambda>w r. mark_failed en text cfg (ob_event_id r) err w) w rs)
           | (Inr _, l1) \<Rightarrow> (outbox_event_ids rs, l1, w)))
      | None \<Rightarrow> publish_each en text cfg target rs s)"

text \<open>The loop over the groups, with the count of published rows; it returns a count and an error.\<close>

fun publish_groups ::
  "env \<Rightarrow> (go_error \<Rightarrow> string) \<Rightarrow> publisher_config \<Rightarrow> (string \<Rightarrow> 'l appender option) \<Rightarrow>
   (string \<times> outbox_row list) list \<Rightarrow> int \<Rightarrow> 'l \<times> world \<Rightarrow> (int \<times> go_error option) \<times> 'l \<times> world" where
  "publish_groups en text cfg targets [] n s = ((n, None), s)"
| "publish_groups en text cfg targets ((topic, rs) # gs) n (l, w) =
     (case targets topic of
        None \<Rightarrow> publish_groups en text cfg targets gs n
          (l, foldl (\<lambda>w r. mark_failed en text cfg (ob_event_id r) (ErrMsg ''outbox topic %q is not configured'' [FStr (ob_topic r)]) w) w rs)
      | Some target \<Rightarrow>
          (case publish_topic en text cfg target rs (l, w) of (ids, l1, w1) \<Rightarrow>
             if ids = [] then publish_groups en text cfg targets gs n (l1, w1)
             else (case mark_published en cfg ids w1 of
               (Inl err, w2) \<Rightarrow> ((n, Some err), l1, w2)
             | (Inr _, w2) \<Rightarrow> publish_groups en text cfg targets gs (n + int (length ids)) (l1, w2))))"

text \<open>\<open>rng\<close> is the order in which \<open>range\<close> meets the groups.\<close>

definition publish_once ::
  "env \<Rightarrow> (nat \<Rightarrow> int) \<Rightarrow> (go_error \<Rightarrow> string) \<Rightarrow> ((string \<times> outbox_row list) list \<Rightarrow> (string \<times> outbox_row list) list) \<Rightarrow>
   publisher_config \<Rightarrow> (string \<Rightarrow> 'l appender option) \<Rightarrow> 'l \<times> world \<Rightarrow> (int \<times> go_error option) \<times> 'l \<times> world" where
  "publish_once en nanos text rng cfg targets s =
     (case s of (l, w) \<Rightarrow> (case claim en nanos cfg w of
        (Inl err, w1) \<Rightarrow> ((0, Some err), l, w1)
      | (Inr evs, w1) \<Rightarrow> publish_groups en text cfg targets (rng (group_by_topic evs)) 0 (l, w1)))"

text \<open>
  \<open>Run\<close>, for the first rounds: a list says of each round whether the context is done when the round is
  over. \<open>None\<close>: still running.
\<close>

fun publisher_loop ::
  "env \<Rightarrow> (nat \<Rightarrow> int) \<Rightarrow> (go_error \<Rightarrow> string) \<Rightarrow> ((string \<times> outbox_row list) list \<Rightarrow> (string \<times> outbox_row list) list) \<Rightarrow>
   publisher_config \<Rightarrow> (string \<Rightarrow> 'l appender option) \<Rightarrow> bool list \<Rightarrow> 'l \<times> world \<Rightarrow> go_error option \<times> 'l \<times> world" where
  "publisher_loop en nanos text rng cfg targets [] s = (None, s)"
| "publisher_loop en nanos text rng cfg targets (stop # rounds) s =
     (case publish_once en nanos text rng cfg targets s of
        ((n, Some err), s1) \<Rightarrow> (Some err, s1)
      | ((n, None), s1) \<Rightarrow> if stop then (Some ContextCanceled, s1) else publisher_loop en nanos text rng cfg targets rounds s1)"

definition publisher_run ::
  "env \<Rightarrow> (nat \<Rightarrow> int) \<Rightarrow> (go_error \<Rightarrow> string) \<Rightarrow> ((string \<times> outbox_row list) list \<Rightarrow> (string \<times> outbox_row list) list) \<Rightarrow>
   publisher_config \<Rightarrow> (string \<Rightarrow> 'l appender option) \<Rightarrow> bool list \<Rightarrow> 'l \<times> world \<Rightarrow> go_error option \<times> 'l \<times> world" where
  "publisher_run en nanos text rng cfg targets rounds s =
     (if pc_worker_id cfg = [] then (Some (ErrMsg ''outbox worker id is required'' []), s)
      else publisher_loop en nanos text rng cfg targets rounds s)"

section \<open>What is published is in the log\<close>

text \<open>The parts of a row that no statement of the publisher changes.\<close>

definition same_content :: "outbox_row \<Rightarrow> outbox_row \<Rightarrow> bool" where
  "same_content a b \<longleftrightarrow> outbox_to_event a = outbox_to_event b \<and> ob_topic a = ob_topic b"

lemma same_content_refl: "same_content a a"
  by (simp add: same_content_def)

lemma same_content_id: "same_content a b \<Longrightarrow> ob_event_id a = ob_event_id b"
  by (simp add: same_content_def outbox_to_event_def)

text \<open>One statement: row by row the content stays; a published row stays published; which rows become published.\<close>

definition outbox_step :: "(outbox_row \<Rightarrow> bool) \<Rightarrow> database \<Rightarrow> database \<Rightarrow> bool" where
  "outbox_step P db db' \<longleftrightarrow>
     list_all2 (\<lambda>a b. same_content a b \<and> (ob_published_at a \<noteq> None \<longrightarrow> ob_published_at b \<noteq> None) \<and>
        (ob_published_at b \<noteq> None \<longrightarrow> ob_published_at a \<noteq> None \<or> P a)) (tb_outbox db) (tb_outbox db')"

lemma outbox_step_refl: "outbox_step P db db"
  by (simp add: outbox_step_def same_content_def list_all2_refl)

lemma outbox_step_map:
  assumes "tb_outbox db' = map f (tb_outbox db)"
    and "\<And>r. r \<in> set (tb_outbox db) \<Longrightarrow> same_content r (f r) \<and> (ob_published_at r \<noteq> None \<longrightarrow> ob_published_at (f r) \<noteq> None) \<and>
        (ob_published_at (f r) \<noteq> None \<longrightarrow> ob_published_at r \<noteq> None \<or> P r)"
  shows "outbox_step P db db'"
  unfolding outbox_step_def assms(1) list.rel_map by (rule list.rel_refl_strong) (use assms(2) in blast)

lemma outbox_step_wf: "outbox_step P db db' \<Longrightarrow> outbox_wf db \<Longrightarrow> outbox_wf db'"
proof -
  assume s: "outbox_step P db db'" and w: "outbox_wf db"
  have "map ob_event_id (tb_outbox db) = map ob_event_id (tb_outbox db')"
    using s same_content_id by (auto simp: outbox_step_def list_all2_conv_all_nth intro!: nth_equalityI)
  then show ?thesis using w by (simp add: outbox_wf_def)
qed

text \<open>The claimed rows and the rows of the table.\<close>

definition known :: "database \<Rightarrow> outbox_row list \<Rightarrow> bool" where
  "known db rs \<longleftrightarrow> (\<forall>r \<in> set rs. \<exists>a \<in> set (tb_outbox db). same_content a r)"

lemma known_step: "outbox_step P db db' \<Longrightarrow> known db rs \<Longrightarrow> known db' rs"
proof -
  assume s: "outbox_step P db db'" and k: "known db rs"
  show ?thesis unfolding known_def
  proof
    fix r assume "r \<in> set rs"
    then obtain a where a: "a \<in> set (tb_outbox db)" "same_content a r" using k by (auto simp: known_def)
    obtain b where "b \<in> set (tb_outbox db')" "same_content a b"
      using s a(1) unfolding outbox_step_def list_all2_conv_all_nth by (metis in_set_conv_nth)
    then show "\<exists>b \<in> set (tb_outbox db'). same_content b r" using a(2) by (auto simp: same_content_def)
  qed
qed

definition published_logged :: "('l \<Rightarrow> string \<Rightarrow> event set) \<Rightarrow> 'l \<Rightarrow> database \<Rightarrow> bool" where
  "published_logged entries l db \<longleftrightarrow>
     (\<forall>r \<in> set (tb_outbox db). ob_published_at r \<noteq> None \<longrightarrow> outbox_to_event r \<in> entries l (ob_topic r))"

lemma published_step:
  assumes "published_logged entries l db" "outbox_step P db db'" "\<And>t. entries l t \<subseteq> entries l' t"
    and "\<And>r. r \<in> set (tb_outbox db) \<Longrightarrow> P r \<Longrightarrow> outbox_to_event r \<in> entries l' (ob_topic r)"
  shows "published_logged entries l' db'"
  unfolding published_logged_def
proof (intro ballI impI)
  fix b assume b: "b \<in> set (tb_outbox db')" "ob_published_at b \<noteq> None"
  obtain a where a: "a \<in> set (tb_outbox db)" "same_content a b" "ob_published_at a \<noteq> None \<or> P a"
    using assms(2) b unfolding outbox_step_def list_all2_conv_all_nth by (metis in_set_conv_nth)
  then have "outbox_to_event a \<in> entries l' (ob_topic a)"
    using assms(1,3,4) unfolding published_logged_def by blast
  then show "outbox_to_event b \<in> entries l' (ob_topic b)" using a(2) by (simp add: same_content_def)
qed

lemma failed_step: "outbox_step (\<lambda>_. False) (w_db w) (w_db (mark_failed en text cfg i err w))"
proof -
  obtain r w' where e: "auto_commit en (mark_outbox_event_failed i (text err) (pc_worker_id cfg)) w = (r, w')" by fastforce
  have "w_db w' = w_db w \<or> w_db w' = snd (mark_outbox_event_failed i (text err) (pc_worker_id cfg) (w_db w))"
    using e by (auto simp: auto_commit_def split: option.splits prod.splits)
  moreover have "outbox_step (\<lambda>_. False) db (snd (mark_outbox_event_failed i x y db))" for x y db
    by (rule outbox_step_map [where f = "\<lambda>r. if ob_event_id r = i \<and> ob_claimed_by r = y
          then r\<lparr>ob_claimed_by := [], ob_claimed_until := 0, ob_last_error := x\<rparr> else r"])
       (simp_all add: mark_outbox_event_failed_def same_content_def outbox_to_event_def)
  ultimately show ?thesis using e outbox_step_refl by (auto simp: mark_failed_def)
qed

lemma published_mark_step:
  assumes "mark_published en cfg ids w = (r, w')"
  shows "outbox_step (\<lambda>a. ob_event_id a \<in> set ids) (w_db w) (w_db w')"
proof -
  have m: "outbox_step (\<lambda>a. ob_event_id a \<in> set ids) db (snd (mark_outbox_events_published now ids y db))" for now y db
    by (rule outbox_step_map [where f = "\<lambda>r. if ob_event_id r \<in> set ids \<and> ob_claimed_by r = y then mark_row_published now r else r"])
       (simp_all add: mark_outbox_events_published_def Let_def same_content_def outbox_to_event_def mark_row_published_def)
  have "w_db w' = w_db w \<or> w_db w' = snd (mark_outbox_events_published (en_now en (w_tick w)) ids (pc_worker_id cfg) (w_db w))"
    using assms by (auto simp: mark_published_def ebind_def wrap_err_def time_now_def auto_commit_def
        split: option.splits prod.splits sum.splits if_splits)
  then show ?thesis using m outbox_step_refl by auto
qed

lemma same_content_trans: "same_content x y \<Longrightarrow> same_content y z \<Longrightarrow> same_content x z"
  by (simp add: same_content_def)

lemma outbox_step_trans:
  assumes "outbox_step (\<lambda>_. False) a b" "outbox_step (\<lambda>_. False) b c"
  shows "outbox_step (\<lambda>_. False) a c"
  unfolding outbox_step_def
  by (rule list_all2_trans [OF _ assms [unfolded outbox_step_def]]) (use same_content_trans in blast)

lemma failed_steps: "outbox_step (\<lambda>_. False) (w_db w) (w_db (foldl (\<lambda>w r. mark_failed en text cfg (ob_event_id r) (f r) w) w rs))"
  by (induction rs arbitrary: w) (auto intro: outbox_step_refl outbox_step_trans [OF failed_step])

text \<open>
  What the publisher needs of its targets: each is an appender of its topic, and takes nothing out of
  the others.
\<close>

definition targets_ok :: "(string \<Rightarrow> 'l appender option) \<Rightarrow> ('l \<Rightarrow> string \<Rightarrow> event set) \<Rightarrow> bool" where
  "targets_ok targets entries \<longleftrightarrow> (\<forall>t ap. targets t = Some ap \<longrightarrow>
     event_appender ap (\<lambda>l. entries l t) (\<lambda>_. True) \<and>
     (\<forall>e l u. entries l u \<subseteq> entries (snd (ap_append ap e l)) u) \<and>
     (\<forall>b es l u. ap_batch ap = Some b \<longrightarrow> entries l u \<subseteq> entries (snd (b es l)) u))"

lemma targets_okD:
  assumes "targets_ok targets entries" "targets t = Some ap"
  shows "event_appender ap (\<lambda>l. entries l t) (\<lambda>_. True)"
    and "ap_append ap e l = (x, l1) \<Longrightarrow> entries l u \<subseteq> entries l1 u"
    and "ap_batch ap = Some b \<Longrightarrow> b es l = (y, l1) \<Longrightarrow> entries l u \<subseteq> entries l1 u"
  using assms unfolding targets_ok_def by (blast, metis snd_conv, metis snd_conv)

text \<open>What one call on a group of rows of topic \<open>t\<close> achieves.\<close>

definition delivered :: "('l \<Rightarrow> string \<Rightarrow> event set) \<Rightarrow> string \<Rightarrow> outbox_row list \<Rightarrow> string list \<Rightarrow> 'l \<times> world \<Rightarrow> 'l \<times> world \<Rightarrow> bool" where
  "delivered entries t rs ids s s' \<longleftrightarrow>
     (\<forall>u. entries (fst s) u \<subseteq> entries (fst s') u) \<and> outbox_step (\<lambda>_. False) (w_db (snd s)) (w_db (snd s')) \<and>
     (\<forall>i \<in> set ids. \<exists>r \<in> set rs. ob_event_id r = i \<and> outbox_to_event r \<in> entries (fst s') t)"

lemma delivered_failed:
  assumes "delivered entries t rs ids (l1, mark_failed en text cfg i err w) s'" "\<And>u. entries l u \<subseteq> entries l1 u"
  shows "delivered entries t (r # rs) ids (l, w) s'"
proof -
  have "outbox_step (\<lambda>_. False) (w_db w) (w_db (snd s'))"
    by (rule outbox_step_trans [OF failed_step [of w en "text" cfg i err]]) (insert assms(1), simp add: delivered_def)
  then show ?thesis using assms by (fastforce simp: delivered_def)
qed

lemma delivered_appended:
  assumes "delivered entries t rs ids (l1, w) s'" "\<And>u. entries l u \<subseteq> entries l1 u" "outbox_to_event r \<in> entries l1 t"
  shows "delivered entries t (r # rs) (ob_event_id r # ids) (l, w) s'"
  using assms by (fastforce simp: delivered_def)

lemma publish_each_delivered:
  assumes "targets_ok targets entries" "targets t = Some ap"
  shows "publish_each en text cfg ap rs (l, w) = (ids, s') \<Longrightarrow> delivered entries t rs ids (l, w) s'"
proof (induction rs arbitrary: l w ids s')
  case Nil then show ?case by (auto simp: delivered_def outbox_step_refl)
next
  case (Cons r rs)
  obtain x l1 where a: "ap_append ap (outbox_to_event r) l = (x, l1)" by fastforce
  note g = targets_okD(2) [OF assms a]
  note e = event_appender.append [OF targets_okD(1) [OF assms] TrueI a]
  show ?case
  proof (cases x)
    case (Inl err)
    then have "publish_each en text cfg ap rs (l1, mark_failed en text cfg (ob_event_id r) err w) = (ids, s')"
      using Cons.prems a by simp
    from delivered_failed [OF Cons.IH [OF this] g] show ?thesis .
  next
    case (Inr p)
    then obtain ids1 where k: "publish_each en text cfg ap rs (l1, w) = (ids1, s')" "ids = ob_event_id r # ids1"
      using Cons.prems a by (auto split: prod.splits)
    show ?thesis unfolding k(2) using delivered_appended [OF Cons.IH [OF k(1)] g] e Inr by simp
  qed
qed

lemma publish_topic_delivered:
  assumes "targets_ok targets entries" "targets t = Some ap" "publish_topic en text cfg ap rs (l, w) = (ids, s')"
  shows "delivered entries t rs ids (l, w) s'"
proof (cases "ap_batch ap")
  case None
  then show ?thesis using publish_each_delivered [OF assms(1,2)] assms(3) by (simp add: publish_topic_def)
next
  case (Some b)
  obtain x l1 where a: "b (map outbox_to_event rs) l = (x, l1)" by fastforce
  note g = targets_okD(3) [OF assms(1,2) Some a]
  have e: "(\<exists>p. x = Inr p) \<longrightarrow> outbox_to_event ` set rs \<subseteq> entries l1 t"
    using event_appender.batch [OF targets_okD(1) [OF assms(1,2)] Some TrueI a] by simp
  show ?thesis
  proof (cases x)
    case (Inl err)
    then have "ids = []" "s' = (l1, foldl (\<lambda>w r. mark_failed en text cfg (ob_event_id r) err w) w rs)"
      using assms(3) Some a by (simp_all add: publish_topic_def)
    then show ?thesis using g failed_steps by (simp add: delivered_def)
  next
    case (Inr p)
    then have "ids = outbox_event_ids rs" "s' = (l1, w)" using assms(3) Some a by (simp_all add: publish_topic_def)
    then show ?thesis using g e Inr by (auto simp: delivered_def outbox_step_refl outbox_event_ids_def)
  qed
qed

text \<open>The invariant of the publisher, and that the loop over the groups keeps it.\<close>

definition publisher_inv :: "('l \<Rightarrow> string \<Rightarrow> event set) \<Rightarrow> 'l \<times> world \<Rightarrow> bool" where
  "publisher_inv entries s \<longleftrightarrow> outbox_wf (w_db (snd s)) \<and> published_logged entries (fst s) (w_db (snd s))"

lemma publisher_inv_step:
  assumes "publisher_inv entries (l, w)" "outbox_step (\<lambda>_. False) (w_db w) (w_db w')" "\<And>u. entries l u \<subseteq> entries l' u"
  shows "publisher_inv entries (l', w')"
proof -
  have "published_logged entries l' (w_db w')"
    by (rule published_step [where l = l, OF _ assms(2)]) (insert assms(1,3), simp_all add: publisher_inv_def)
  then show ?thesis using outbox_step_wf [OF assms(2)] assms(1) by (simp add: publisher_inv_def)
qed

lemma publisher_inv_marked:
  assumes inv: "publisher_inv entries (l, w)" and k: "known (w_db w) rs" and t: "\<forall>r \<in> set rs. ob_topic r = t"
    and ids: "\<forall>i \<in> set ids. \<exists>r \<in> set rs. ob_event_id r = i \<and> outbox_to_event r \<in> entries l t"
    and m: "mark_published en cfg ids w = (x, w')"
  shows "publisher_inv entries (l, w')"
proof -
  note st = published_mark_step [OF m]
  have "outbox_to_event a \<in> entries l (ob_topic a)" if a: "a \<in> set (tb_outbox (w_db w))" "ob_event_id a \<in> set ids" for a
  proof -
    obtain r where r: "r \<in> set rs" "ob_event_id r = ob_event_id a" "outbox_to_event r \<in> entries l t" using ids a(2) by blast
    obtain a' where a': "a' \<in> set (tb_outbox (w_db w))" "same_content a' r" using k r(1) by (auto simp: known_def)
    have "a' = a"
      using inv a(1) a' r(2) same_content_id [OF a'(2)] by (auto simp: publisher_inv_def outbox_wf_def distinct_map dest: inj_onD)
    then show ?thesis using a'(2) r t by (simp add: same_content_def)
  qed
  then have "published_logged entries l (w_db w')"
    by - (rule published_step [where l = l, OF _ st], insert inv, simp_all add: publisher_inv_def)
  then show ?thesis using outbox_step_wf [OF st] inv by (simp add: publisher_inv_def)
qed

lemma known_subset: "known db rs \<Longrightarrow> set qs \<subseteq> set rs \<Longrightarrow> known db qs"
  by (auto simp: known_def)

definition grouped :: "database \<Rightarrow> (string \<times> outbox_row list) list \<Rightarrow> bool" where
  "grouped db gs \<longleftrightarrow> (\<forall>(t, rs) \<in> set gs. known db rs \<and> (\<forall>r \<in> set rs. ob_topic r = t))"

lemma grouped_step: "outbox_step P db db' \<Longrightarrow> grouped db gs \<Longrightarrow> grouped db' gs"
  using known_step by (fastforce simp: grouped_def)

lemma publish_groups_inv:
  assumes ok: "targets_ok targets entries"
  shows "publisher_inv entries (l, w) \<Longrightarrow> grouped (w_db w) gs \<Longrightarrow>
    publish_groups en text cfg targets gs n (l, w) = (x, s') \<Longrightarrow> publisher_inv entries s'"
proof (induction gs arbitrary: n l w x s')
  case (Cons g gs)
  obtain t rs where g: "g = (t, rs)" by fastforce
  have gs: "grouped (w_db w) gs" and k: "known (w_db w) rs" and t: "\<forall>r \<in> set rs. ob_topic r = t"
    using Cons.prems(2) g by (auto simp: grouped_def)
  show ?case
  proof (cases "targets t")
    case None
    let ?w = "foldl (\<lambda>w r. mark_failed en text cfg (ob_event_id r) (ErrMsg ''outbox topic %q is not configured'' [FStr (ob_topic r)]) w) w rs"
    note f = failed_steps [of w en "text" cfg "\<lambda>r. ErrMsg ''outbox topic %q is not configured'' [FStr (ob_topic r)]" rs]
    have i: "publisher_inv entries (l, ?w)" by (rule publisher_inv_step [OF Cons.prems(1) f]) simp
    show ?thesis by (rule Cons.IH [OF i grouped_step [OF f gs]]) (insert Cons.prems(3) None g, simp)
  next
    case (Some ap)
    obtain ids l1 w1 where p: "publish_topic en text cfg ap rs (l, w) = (ids, l1, w1)" by (metis prod_cases3)
    note d = publish_topic_delivered [OF ok Some p, unfolded delivered_def, simplified]
    have i: "publisher_inv entries (l1, w1)" by (rule publisher_inv_step [OF Cons.prems(1)]) (insert d, auto)
    have gs1: "grouped (w_db w1) gs" using grouped_step d gs by blast
    show ?thesis
    proof (cases "ids = []")
      case True
      show ?thesis by (rule Cons.IH [OF i gs1]) (insert Cons.prems(3) Some g p True, simp)
    next
      case False
      obtain y w2 where m: "mark_published en cfg ids w1 = (y, w2)" by fastforce
      have i2: "publisher_inv entries (l1, w2)"
        by (rule publisher_inv_marked [OF i known_step t _ m]) (insert d k, auto)
      show ?thesis
      proof (cases y)
        case (Inl err)
        then have "s' = (l1, w2)" using Cons.prems(3) Some g p False m by simp
        then show ?thesis using i2 by simp
      next
        case (Inr u)
        show ?thesis by (rule Cons.IH [OF i2 grouped_step [OF published_mark_step [OF m] gs1]])
            (insert Cons.prems(3) Some g p False m Inr, simp)
      qed
    qed
  qed
qed simp

lemma group_add_keys: "set (map fst (group_add r gs)) = insert (ob_topic r) (set (map fst gs))"
  by (induction r gs rule: group_add.induct) auto

lemma group_add_mset: "mset (concat (map snd (group_add r gs))) = add_mset r (mset (concat (map snd gs)))"
  by (induction r gs rule: group_add.induct) auto

lemma group_add_topics:
  "\<forall>(t, rs) \<in> set gs. \<forall>r \<in> set rs. ob_topic r = t \<Longrightarrow> \<forall>(t, rs) \<in> set (group_add r gs). \<forall>r \<in> set rs. ob_topic r = t"
  by (induction r gs rule: group_add.induct) auto

lemma group_foldl:
  "\<forall>(t, rs) \<in> set gs. \<forall>r \<in> set rs. ob_topic r = t \<Longrightarrow>
   (\<forall>(t, rs) \<in> set (foldl (\<lambda>gs r. group_add r gs) gs evs). \<forall>r \<in> set rs. ob_topic r = t) \<and>
   mset (concat (map snd (foldl (\<lambda>gs r. group_add r gs) gs evs))) = mset (concat (map snd gs)) + mset evs"
proof (induction evs arbitrary: gs)
  case (Cons r evs)
  from Cons.IH [OF group_add_topics [OF Cons.prems]] show ?case by (simp add: group_add_mset)
qed simp

lemma group_by_topic_mset: "mset (concat (map snd (group_by_topic evs))) = mset evs"
  using group_foldl [of "[]" evs] by (simp add: group_by_topic_def)

lemma group_by_topic_topics: "(t, rs) \<in> set (group_by_topic evs) \<Longrightarrow> r \<in> set rs \<Longrightarrow> ob_topic r = t"
  using group_foldl [of "[]" evs] by (fastforce simp: group_by_topic_def)

lemma group_foldl_nonempty: "\<forall>(t, rs) \<in> set gs. rs \<noteq> [] \<Longrightarrow> \<forall>(t, rs) \<in> set (foldl (\<lambda>gs r. group_add r gs) gs evs). rs \<noteq> []"
proof (induction evs arbitrary: gs)
  case (Cons r evs)
  have "\<forall>(t, rs) \<in> set (group_add r gs). rs \<noteq> []" using Cons.prems by (induction r gs rule: group_add.induct) auto
  then show ?case using Cons.IH by simp
qed simp

lemma group_by_topic_set: "(t, rs) \<in> set (group_by_topic evs) \<Longrightarrow> set rs \<subseteq> set evs"
proof -
  assume "(t, rs) \<in> set (group_by_topic evs)"
  then have "set rs \<subseteq> set (concat (map snd (group_by_topic evs)))" by force
  then show ?thesis using group_by_topic_mset by (metis mset_eq_setD)
qed

text \<open>The orders Postgres and Go choose only permute.\<close>

definition fair_orders :: "env \<Rightarrow> ((string \<times> outbox_row list) list \<Rightarrow> (string \<times> outbox_row list) list) \<Rightarrow> bool" where
  "fair_orders en rng \<longleftrightarrow> (\<forall>n xs. mset (en_scan en n xs) = mset xs \<and> mset (en_back en n xs) = mset xs) \<and> (\<forall>gs. mset (rng gs) = mset gs)"

definition picked_rows :: "(outbox_row list \<Rightarrow> outbox_row list) \<Rightarrow> int \<Rightarrow> int \<Rightarrow> database \<Rightarrow> outbox_row list" where
  "picked_rows scan now k db = take (nat k) (sort_key ob_occurred_at (scan (filter (claimable now) (tb_outbox db))))"

definition claim_picked :: "string \<Rightarrow> int \<Rightarrow> outbox_row list \<Rightarrow> database \<Rightarrow> database" where
  "claim_picked a u rs db = db\<lparr>tb_outbox := map (\<lambda>r. if ob_event_id r \<in> ob_event_id ` set rs then claim_row a u r else r) (tb_outbox db)\<rparr>"

lemma claim_outbox_eq:
  "claim_outbox_events scan back a u now k db =
     (let rs = picked_rows scan now k db in
      if \<exists>r \<in> set rs. 2 ^ 31 \<le> ob_attempts r + 1 then (Inl (ErrExternal ''integer out of range''), db)
      else (Inr (back (map (claim_row a u) rs)), claim_picked a u rs db))"
  by (simp add: claim_outbox_events_def picked_rows_def claim_picked_def Let_def)

lemma same_content_claim: "same_content r (claim_row a u r)"
  by (simp add: same_content_def outbox_to_event_def claim_row_def)

lemma claim_picked_step: "outbox_step (\<lambda>_. False) db (claim_picked a u rs db)"
  by (rule outbox_step_map [where f = "\<lambda>r. if ob_event_id r \<in> ob_event_id ` set rs then claim_row a u r else r"])
     (simp_all add: claim_picked_def same_content_claim, simp_all add: same_content_def claim_row_def)

lemma picked_rows_subset:
  assumes "set (scan (filter (claimable now) (tb_outbox db))) = set (filter (claimable now) (tb_outbox db))"
  shows "set (picked_rows scan now k db) \<subseteq> {r \<in> set (tb_outbox db). claimable now r}"
proof -
  have "set (picked_rows scan now k db) \<subseteq> set (scan (filter (claimable now) (tb_outbox db)))"
    unfolding picked_rows_def using set_take_subset by fastforce
  then show ?thesis unfolding assms by simp
qed

lemma fair_scan: "fair_orders en rng \<Longrightarrow> set (en_scan en n xs) = set xs"
  by (metis fair_orders_def mset_eq_setD)

lemma fair_back: "fair_orders en rng \<Longrightarrow> set (en_back en n xs) = set xs"
  by (metis fair_orders_def mset_eq_setD)

lemma known_claimed:
  assumes "set rs \<subseteq> set (tb_outbox db)"
  shows "known (claim_picked a u rs db) (map (claim_row a u) rs)"
  unfolding known_def
proof
  fix r assume "r \<in> set (map (claim_row a u) rs)"
  then obtain q where q: "q \<in> set rs" "r = claim_row a u q" by auto
  let ?f = "\<lambda>r. if ob_event_id r \<in> ob_event_id ` set rs then claim_row a u r else r"
  have "?f q = r" using q by simp
  moreover have "q \<in> set (tb_outbox db)" using q(1) assms by blast
  ultimately have "r \<in> ?f ` set (tb_outbox db)" by (rule rev_image_eqI [rotated, OF sym])
  then have "r \<in> set (tb_outbox (claim_picked a u rs db))" by (simp add: claim_picked_def)
  moreover have "same_content r r" by (simp add: same_content_def)
  ultimately show "\<exists>a \<in> set (tb_outbox (claim_picked a u rs db)). same_content a r" by blast
qed

lemma claimed_known:
  assumes "fair_orders en rng" "claim_outbox_events (en_scan en n) (en_back en m) a u now k db = (x, db')"
  shows "outbox_step (\<lambda>_. False) db db' \<and> (\<forall>evs. x = Inr evs \<longrightarrow> known db' evs)"
proof -
  define rs where "rs = picked_rows (en_scan en n) now k db"
  have "set rs \<subseteq> set (tb_outbox db)"
    unfolding rs_def using picked_rows_subset [of "en_scan en n" now db k] fair_scan [OF assms(1)] by blast
  then have "known (claim_picked a u rs db) (en_back en m (map (claim_row a u) rs))"
    by (rule known_subset [OF known_claimed]) (simp add: fair_back [OF assms(1)])
  then show ?thesis using assms(2) claim_picked_step outbox_step_refl
    unfolding claim_outbox_eq rs_def [symmetric] Let_def by (auto split: if_splits)
qed

lemma claim_known:
  assumes "fair_orders en rng" "claim en nanos cfg w = (x, w')"
  shows "outbox_step (\<lambda>_. False) (w_db w) (w_db w') \<and> (\<forall>evs. x = Inr evs \<longrightarrow> known (w_db w') evs)"
proof (cases "en_fault en (w_tick w)")
  case (Some e)
  then have "w_db w' = w_db w" "\<exists>e. x = Inl e" using assms(2) by (auto simp: claim_def ebind_def begin_tx_def wrap_err_def)
  then show ?thesis by (auto simp: outbox_step_refl)
next
  case None
  define w1 where "w1 = tick ((tick w)\<lparr>w_tx := w_db w\<rparr>)"
  define q where "q = claim_outbox_events (en_scan en (w_tick w1)) (en_back en (w_tick w1)) (pc_worker_id cfg)
    (lease_until (en_now en (Suc (w_tick w))) (nanos (Suc (w_tick w))) (pc_lease cfg)) (en_now en (Suc (w_tick w))) (pc_batch_size cfg)"
  have w1: "w_db w1 = w_db w" "w_tx w1 = w_db w" by (simp_all add: w1_def)
  have run: "claim en nanos cfg w =
      ebind (wrap_err ''claim outbox events: %w'' (in_tx en q)) (\<lambda>evs. ebind (wrap_err ''commit outbox claim: %w'' (commit_tx en)) (\<lambda>_. ret evs)) w1"
    using None by (simp add: claim_def ebind_def begin_tx_def wrap_err_def time_now_def w1_def q_def)
  obtain y w2 where i: "in_tx en q w1 = (y, w2)" by fastforce
  show ?thesis using i
  proof (cases rule: in_tx_cases)
    case (fault e)
    then have "w_db w' = w_db w" "\<exists>e. x = Inl e" using assms(2) run i w1 by (auto simp: ebind_def wrap_err_def)
    then show ?thesis by (auto simp: outbox_step_refl)
  next
    case run1: run
    have k: "outbox_step (\<lambda>_. False) (w_db w) (w_tx w2) \<and> (\<forall>evs. y = Inr evs \<longrightarrow> known (w_tx w2) evs)"
      by (rule claimed_known [OF assms(1)]) (insert run1 w1, simp add: q_def)
    show ?thesis using assms(2) run i run1 w1 k outbox_step_refl
      by (cases y) (auto simp: ebind_def wrap_err_def commit_tx_def ret_def split: commit_result.splits)
  qed
qed

lemma publish_once_inv:
  assumes "targets_ok targets entries" "fair_orders en rng" "publisher_inv entries (l, w)"
    and "publish_once en nanos text rng cfg targets (l, w) = (x, s')"
  shows "publisher_inv entries s'"
proof -
  obtain y w1 where c: "claim en nanos cfg w = (y, w1)" by fastforce
  note k = claim_known [OF assms(2) c]
  have i: "publisher_inv entries (l, w1)"
    by (rule publisher_inv_step [OF assms(3)]) (insert k, auto)
  show ?thesis
  proof (cases y)
    case (Inl e)
    then show ?thesis using assms(4) c i by (simp add: publish_once_def)
  next
    case (Inr evs)
    have m: "set (rng gs) = set gs" for gs using assms(2) by (metis fair_orders_def mset_eq_setD)
    have g: "grouped (w_db w1) (rng (group_by_topic evs))"
      using k Inr group_by_topic_topics known_subset group_by_topic_set by (fastforce simp: grouped_def m)
    show ?thesis by (rule publish_groups_inv [OF assms(1) i g]) (insert assms(4) c Inr, simp add: publish_once_def)
  qed
qed


section \<open>Everything gets published\<close>

definition quiet :: "env \<Rightarrow> bool" where
  "quiet en \<longleftrightarrow> (\<forall>n. en_fault en n = None \<and> en_commit en n = CommitDone)"

text \<open>A target that takes the events of \<open>E\<close> as long as the logs are \<open>up\<close>.\<close>

definition accepts :: "'l appender \<Rightarrow> event set \<Rightarrow> ('l \<Rightarrow> bool) \<Rightarrow> bool" where
  "accepts ap E up \<longleftrightarrow>
     (\<forall>e \<in> E. \<forall>l. up l \<longrightarrow> (\<exists>p l'. ap_append ap e l = (Inr p, l') \<and> up l')) \<and>
     (\<forall>b es l. ap_batch ap = Some b \<longrightarrow> set es \<subseteq> E \<longrightarrow> up l \<longrightarrow> (\<exists>ps l'. b es l = (Inr ps, l') \<and> up l'))"

lemma publish_each_accepted:
  assumes "accepts ap E up"
  shows "outbox_to_event ` set rs \<subseteq> E \<Longrightarrow> up l \<Longrightarrow>
    \<exists>l'. publish_each en text cfg ap rs (l, w) = (outbox_event_ids rs, l', w) \<and> up l'"
proof (induction rs arbitrary: l)
  case (Cons r rs)
  obtain p l1 where a: "ap_append ap (outbox_to_event r) l = (Inr p, l1)" "up l1"
    using assms Cons.prems unfolding accepts_def by (metis image_insert insert_subset list.simps(15))
  from Cons.IH [OF _ a(2)] Cons.prems obtain l2 where
    "publish_each en text cfg ap rs (l1, w) = (outbox_event_ids rs, l2, w)" "up l2" by auto
  then show ?case using a(1) by (simp add: outbox_event_ids_def)
qed (simp add: outbox_event_ids_def)

lemma publish_topic_accepted:
  assumes "accepts ap E up" "outbox_to_event ` set rs \<subseteq> E" "up l"
  shows "\<exists>l'. publish_topic en text cfg ap rs (l, w) = (outbox_event_ids rs, l', w) \<and> up l'"
proof (cases "ap_batch ap")
  case None
  then show ?thesis using publish_each_accepted [OF assms] by (simp add: publish_topic_def)
next
  case (Some b)
  have "set (map outbox_to_event rs) \<subseteq> E" using assms(2) by simp
  then obtain ps l' where "b (map outbox_to_event rs) l = (Inr ps, l')" "up l'"
    using assms(1,3) Some unfolding accepts_def by metis
  then show ?thesis using Some by (simp add: publish_topic_def)
qed

text \<open>The rows with the given ids get published, the others stay.\<close>

definition publishes :: "string set \<Rightarrow> database \<Rightarrow> database \<Rightarrow> bool" where
  "publishes ids db db' \<longleftrightarrow> list_all2 (\<lambda>a b. same_content a b \<and>
      (if ob_event_id a \<in> ids then ob_published_at b \<noteq> None else b = a)) (tb_outbox db) (tb_outbox db')"

definition held :: "string \<Rightarrow> string set \<Rightarrow> database \<Rightarrow> bool" where
  "held worker ids db \<longleftrightarrow> (\<forall>i \<in> ids. \<exists>r \<in> set (tb_outbox db). ob_event_id r = i \<and> ob_claimed_by r = worker)"

lemma publishes_refl: "publishes {} db db"
  by (simp add: publishes_def same_content_def list_all2_refl)

lemma publishes_trans:
  assumes "publishes A db db1" "publishes B db1 db2"
  shows "publishes (A \<union> B) db db2"
  unfolding publishes_def
proof (rule list_all2_trans [OF _ assms [unfolded publishes_def]])
  fix a b c :: outbox_row
  assume 1: "same_content a b \<and> (if ob_event_id a \<in> A then ob_published_at b \<noteq> None else b = a)"
    and 2: "same_content b c \<and> (if ob_event_id b \<in> B then ob_published_at c \<noteq> None else c = b)"
  have "same_content a c" using 1 2 same_content_trans by blast
  moreover have "ob_event_id b = ob_event_id a" using 1 same_content_id [of a b] by argo
  ultimately show "same_content a c \<and> (if ob_event_id a \<in> A \<union> B then ob_published_at c \<noteq> None else c = a)"
    using 1 2 by (cases "ob_event_id a \<in> A"; cases "ob_event_id a \<in> B") simp_all
qed

lemma same_content_ids: "list_all2 same_content xs ys \<Longrightarrow> map ob_event_id xs = map ob_event_id ys"
  by (induction rule: list_all2_induct) (simp_all add: same_content_id)

lemma publishes_ids: "publishes ids db db' \<Longrightarrow> map ob_event_id (tb_outbox db) = map ob_event_id (tb_outbox db')"
  unfolding publishes_def by (rule same_content_ids, erule list.rel_mono_strong) blast

lemma publishes_wf: "publishes ids db db' \<Longrightarrow> outbox_wf db \<Longrightarrow> outbox_wf db'"
  unfolding outbox_wf_def by (drule publishes_ids) simp

lemma publishes_held:
  assumes "publishes ids db db'" "held worker A db" "A \<inter> ids = {}"
  shows "held worker A db'"
  unfolding held_def
proof
  fix i assume "i \<in> A"
  then obtain k where k: "k < length (tb_outbox db)" "ob_event_id (tb_outbox db ! k) = i" "ob_claimed_by (tb_outbox db ! k) = worker"
    using assms(2) unfolding held_def by (metis in_set_conv_nth)
  then have "tb_outbox db' ! k = tb_outbox db ! k" "k < length (tb_outbox db')"
    using assms(1,3) \<open>i \<in> A\<close> unfolding publishes_def list_all2_conv_all_nth by (metis disjoint_iff, metis)
  then show "\<exists>r \<in> set (tb_outbox db'). ob_event_id r = i \<and> ob_claimed_by r = worker"
    using k nth_mem by metis
qed

lemma held_count:
  assumes "outbox_wf db" "held worker (set ids) db" "distinct ids"
  shows "length (filter (\<lambda>r. ob_event_id r \<in> set ids \<and> ob_claimed_by r = worker) (tb_outbox db)) = length ids"
proof -
  let ?hits = "filter (\<lambda>r. ob_event_id r \<in> set ids \<and> ob_claimed_by r = worker) (tb_outbox db)"
  have d: "distinct (map ob_event_id ?hits)" using assms(1) by (simp add: outbox_wf_def distinct_map_filter)
  have "set (map ob_event_id ?hits) = set ids" using assms(2) by (force simp: held_def)
  then have "length (map ob_event_id ?hits) = length ids"
    using distinct_card [OF d] distinct_card [OF assms(3)] by simp
  then show ?thesis by simp
qed

lemma marked_publishes:
  assumes "outbox_wf db" "held worker (set ids) db"
  shows "publishes (set ids) db (snd (mark_outbox_events_published now ids worker db))"
proof -
  have o: "ob_claimed_by r = worker" if r: "r \<in> set (tb_outbox db)" "ob_event_id r \<in> set ids" for r
  proof -
    obtain q where q: "q \<in> set (tb_outbox db)" "ob_event_id q = ob_event_id r" "ob_claimed_by q = worker"
      using assms(2) r(2) by (auto simp: held_def)
    then have "q = r" using assms(1) r(1) by (auto simp: outbox_wf_def distinct_map dest: inj_onD)
    then show ?thesis using q(3) by simp
  qed
  show ?thesis unfolding publishes_def mark_outbox_events_published_def Let_def
    by (simp add: list.rel_map, rule list.rel_refl_strong)
       (use o in \<open>auto simp: mark_row_published_def same_content_def outbox_to_event_def\<close>)
qed

lemma mark_published_quiet:
  assumes "quiet en" "outbox_wf (w_db w)" "held (pc_worker_id cfg) (set ids) (w_db w)" "distinct ids"
  shows "\<exists>w'. mark_published en cfg ids w = (Inr (), w') \<and> publishes (set ids) (w_db w) (w_db w')"
proof -
  have c: "fst (mark_outbox_events_published now ids (pc_worker_id cfg) (w_db w)) = Inr (int (length ids))" for now
    using held_count [OF assms(2-4)] by (simp add: mark_outbox_events_published_def Let_def)
  obtain db' where m: "mark_outbox_events_published (en_now en (w_tick w)) ids (pc_worker_id cfg) (w_db w) = (Inr (int (length ids)), db')"
    using c by (metis prod.collapse)
  have "mark_published en cfg ids w = (Inr (), (tick (tick w))\<lparr>w_db := db'\<rparr>)"
    using assms(1) m by (simp add: mark_published_def ebind_def time_now_def wrap_err_def auto_commit_def quiet_def ret_def)
  then show ?thesis using marked_publishes [OF assms(2,3)] m by (metis snd_conv tick_simps(1) world.select_convs(1) world.surjective world.update_convs(1))
qed

abbreviation group_ids :: "(string \<times> outbox_row list) list \<Rightarrow> string list" where
  "group_ids gs \<equiv> outbox_event_ids (concat (map snd gs))"

lemma publish_groups_quiet:
  assumes q: "quiet en"
  shows "outbox_wf (w_db w) \<Longrightarrow> held (pc_worker_id cfg) (set (group_ids gs)) (w_db w) \<Longrightarrow> distinct (group_ids gs) \<Longrightarrow>
    \<forall>(t, rs) \<in> set gs. outbox_to_event ` set rs \<subseteq> E \<and> (\<exists>ap. targets t = Some ap \<and> accepts ap E up) \<Longrightarrow> up l \<Longrightarrow>
    \<exists>l' w'. publish_groups en text cfg targets gs n (l, w) = ((n + int (length (group_ids gs)), None), l', w') \<and> up l' \<and>
      publishes (set (group_ids gs)) (w_db w) (w_db w')"
proof (induction gs arbitrary: n l w)
  case Nil then show ?case by (simp add: publishes_refl outbox_event_ids_def)
next
  case (Cons g gs)
  obtain t rs where g: "g = (t, rs)" by fastforce
  obtain ap where ap: "targets t = Some ap" "accepts ap E up" "outbox_to_event ` set rs \<subseteq> E" using Cons.prems(4) g by auto
  obtain l1 where p: "publish_topic en text cfg ap rs (l, w) = (outbox_event_ids rs, l1, w)" "up l1"
    using publish_topic_accepted [OF ap(2,3) Cons.prems(5)] by blast
  have i: "set (group_ids (g # gs)) = set (outbox_event_ids rs) \<union> set (group_ids gs)"
    "distinct (outbox_event_ids rs)" "distinct (group_ids gs)" "set (outbox_event_ids rs) \<inter> set (group_ids gs) = {}"
    "length (group_ids (g # gs)) = length (outbox_event_ids rs) + length (group_ids gs)"
    using Cons.prems(3) g by (auto simp: outbox_event_ids_def)
  have h: "held (pc_worker_id cfg) (set (outbox_event_ids rs)) (w_db w)" "held (pc_worker_id cfg) (set (group_ids gs)) (w_db w)"
    using Cons.prems(2) unfolding i(1) held_def by blast+
  have up: "\<forall>(t, rs) \<in> set gs. outbox_to_event ` set rs \<subseteq> E \<and> (\<exists>ap. targets t = Some ap \<and> accepts ap E up)"
    using Cons.prems(4) by simp
  show ?case
  proof (cases "outbox_event_ids rs = []")
    case True
    then show ?thesis using Cons.IH [OF Cons.prems(1) h(2) i(3) up p(2)] g ap(1) p(1) i by simp
  next
    case False
    obtain w1 where m: "mark_published en cfg (outbox_event_ids rs) w = (Inr (), w1)" "publishes (set (outbox_event_ids rs)) (w_db w) (w_db w1)"
      using mark_published_quiet [OF q Cons.prems(1) h(1) i(2)] by blast
    have h1: "held (pc_worker_id cfg) (set (group_ids gs)) (w_db w1)"
      using publishes_held [OF m(2) h(2)] i(4) by blast
    obtain l2 w2 where r: "publish_groups en text cfg targets gs (n + int (length (outbox_event_ids rs))) (l1, w1) =
        ((n + int (length (outbox_event_ids rs)) + int (length (group_ids gs)), None), l2, w2)" "up l2"
      "publishes (set (group_ids gs)) (w_db w1) (w_db w2)"
      using Cons.IH [OF publishes_wf [OF m(2) Cons.prems(1)] h1 i(3) up p(2)] by blast
    show ?thesis using r publishes_trans [OF m(2) r(3)] g ap(1) p(1) False m(1) i(1,5) by simp
  qed
qed

text \<open>Claiming without faults.\<close>

lemma claim_quiet:
  assumes q: "quiet en" and f: "fair_orders en rng"
    and a: "\<forall>r \<in> set (tb_outbox (w_db w)). ob_published_at r = None \<longrightarrow> ob_attempts r + 1 < 2 ^ 31"
  shows "\<exists>n m u w'. let rs = picked_rows (en_scan en n) (en_now en m) (pc_batch_size cfg) (w_db w) in
     claim en nanos cfg w = (Inr (en_back en n (map (claim_row (pc_worker_id cfg) u) rs)), w') \<and>
     w_db w' = claim_picked (pc_worker_id cfg) u rs (w_db w)"
proof -
  define n where "n = Suc (Suc (w_tick w))"
  define m where "m = Suc (w_tick w)"
  define rs where "rs = picked_rows (en_scan en n) (en_now en m) (pc_batch_size cfg) (w_db w)"
  define u where "u = lease_until (en_now en m) (nanos m) (pc_lease cfg)"
  have "set rs \<subseteq> {r \<in> set (tb_outbox (w_db w)). claimable (en_now en m) r}"
    unfolding rs_def by (rule picked_rows_subset) (rule fair_scan [OF f])
  then have "\<not> (\<exists>r \<in> set rs. 2 ^ 31 \<le> ob_attempts r + 1)" using a by (fastforce simp: claimable_def)
  then have "claim_outbox_events (en_scan en n) (en_back en n) (pc_worker_id cfg) u (en_now en m) (pc_batch_size cfg) (w_db w) =
      (Inr (en_back en n (map (claim_row (pc_worker_id cfg) u) rs)), claim_picked (pc_worker_id cfg) u rs (w_db w))"
    unfolding claim_outbox_eq Let_def rs_def by simp
  then have "\<exists>w'. claim en nanos cfg w = (Inr (en_back en n (map (claim_row (pc_worker_id cfg) u) rs)), w') \<and>
     w_db w' = claim_picked (pc_worker_id cfg) u rs (w_db w)"
    using q by (simp add: claim_def ebind_def begin_tx_def wrap_err_def time_now_def in_tx_def commit_tx_def ret_def quiet_def
        n_def m_def u_def tick_def)
  then show ?thesis unfolding Let_def rs_def by blast
qed

text \<open>The rows that are still to be published can be claimed at all times, and have a target.\<close>

definition pending :: "database \<Rightarrow> outbox_row list" where
  "pending db = filter (\<lambda>r. ob_published_at r = None) (tb_outbox db)"

definition publishable :: "env \<Rightarrow> (string \<Rightarrow> 'l appender option) \<Rightarrow> event set \<Rightarrow> ('l \<Rightarrow> bool) \<Rightarrow> outbox_row \<Rightarrow> bool" where
  "publishable en targets E up r \<longleftrightarrow> (\<forall>n. ob_claimed_until r < en_now en n) \<and> ob_attempts r + 1 < 2 ^ 31 \<and>
     outbox_to_event r \<in> E \<and> (\<exists>ap. targets (ob_topic r) = Some ap \<and> accepts ap E up)"

lemma outbox_event_ids_mset: "mset (outbox_event_ids xs) = image_mset ob_event_id (mset xs)"
  by (simp add: outbox_event_ids_def)

lemma claim_row_id [simp]: "ob_event_id (claim_row a u r) = ob_event_id r" by (simp add: claim_row_def)

lemma publishes_claimed:
  assumes "publishes (ob_event_id ` set rs) (claim_picked a u rs db) db'"
  shows "publishes (ob_event_id ` set rs) db db'"
  unfolding publishes_def
proof (rule list.rel_mono_strong)
  let ?f = "\<lambda>r. if ob_event_id r \<in> ob_event_id ` set rs then claim_row a u r else r"
  show "list_all2 (\<lambda>x b. same_content (?f x) b \<and>
      (if ob_event_id (?f x) \<in> ob_event_id ` set rs then ob_published_at b \<noteq> None else b = ?f x)) (tb_outbox db) (tb_outbox db')"
    using assms by (simp add: publishes_def claim_picked_def list.rel_map)
  fix x b
  assume g: "same_content (?f x) b \<and>
      (if ob_event_id (?f x) \<in> ob_event_id ` set rs then ob_published_at b \<noteq> None else b = ?f x)"
  show "same_content x b \<and> (if ob_event_id x \<in> ob_event_id ` set rs then ob_published_at b \<noteq> None else b = x)"
  proof (cases "ob_event_id x \<in> ob_event_id ` set rs")
    case True
    then have "same_content (claim_row a u x) b" "ob_published_at b \<noteq> None" using g by simp_all
    then show ?thesis using same_content_trans [OF same_content_claim] True by simp
  next
    case False
    then have "b = x" using g by simp
    then show ?thesis using same_content_refl False by simp
  qed
qed

lemma held_claimed:
  assumes "outbox_wf db" "set rs \<subseteq> set (tb_outbox db)"
  shows "held a (ob_event_id ` set rs) (claim_picked a u rs db)"
  unfolding held_def
proof
  let ?f = "\<lambda>r. if ob_event_id r \<in> ob_event_id ` set rs then claim_row a u r else r"
  fix i assume "i \<in> ob_event_id ` set rs"
  then obtain r where r: "r \<in> set rs" "i = ob_event_id r" by blast
  then have "?f r \<in> set (tb_outbox (claim_picked a u rs db))"
    using assms(2) unfolding claim_picked_def by auto
  then show "\<exists>r \<in> set (tb_outbox (claim_picked a u rs db)). ob_event_id r = i \<and> ob_claimed_by r = a"
    using r by (intro bexI [of _ "?f r"]) (simp_all add: claim_row_def)
qed

lemma picked_pending:
  assumes f: "fair_orders en rng" and wf: "outbox_wf db"
    and c: "\<forall>r \<in> set (pending db). ob_claimed_until r < now"
  shows "set (picked_rows (en_scan en n) now k db) \<subseteq> set (pending db)"
    and "distinct (map ob_event_id (picked_rows (en_scan en n) now k db))"
    and "length (picked_rows (en_scan en n) now k db) = min (nat k) (length (pending db))"
proof -
  have e: "filter (claimable now) (tb_outbox db) = pending db"
    unfolding pending_def by (rule filter_cong [OF refl]) (use c in \<open>auto simp: claimable_def pending_def\<close>)
  let ?s = "sort_key ob_occurred_at (en_scan en n (pending db))"
  have m: "mset ?s = mset (pending db)" using f by (simp add: fair_orders_def)
  have p: "picked_rows (en_scan en n) now k db = take (nat k) ?s" by (simp add: picked_rows_def e)
  show "set (picked_rows (en_scan en n) now k db) \<subseteq> set (pending db)"
    using set_take_subset [of "nat k" ?s] m unfolding p by (metis mset_eq_setD)
  have "mset (map ob_event_id ?s) = mset (map ob_event_id (pending db))" using m by simp
  then have "distinct (map ob_event_id ?s)"
    using wf mset_eq_imp_distinct_iff by (metis distinct_map_filter outbox_wf_def pending_def)
  then show "distinct (map ob_event_id (picked_rows (en_scan en n) now k db))"
    unfolding p take_map [symmetric] by (rule distinct_take)
  have "length ?s = length (pending db)" using m by (metis size_mset)
  then show "length (picked_rows (en_scan en n) now k db) = min (nat k) (length (pending db))"
    unfolding p by simp
qed

lemma publish_once_quiet:
  assumes q: "quiet en" and f: "fair_orders en rng" and wf: "outbox_wf (w_db w)" and up: "up l"
    and p: "\<forall>r \<in> set (pending (w_db w)). publishable en targets E up r"
  shows "\<exists>rs l' w'. publish_once en nanos text rng cfg targets (l, w) = ((int (length rs), None), l', w') \<and> up l' \<and>
     publishes (ob_event_id ` set rs) (w_db w) (w_db w') \<and> set rs \<subseteq> set (pending (w_db w)) \<and>
     distinct (map ob_event_id rs) \<and> length rs = min (nat (pc_batch_size cfg)) (length (pending (w_db w)))"
proof -
  have a: "\<forall>r \<in> set (tb_outbox (w_db w)). ob_published_at r = None \<longrightarrow> ob_attempts r + 1 < 2 ^ 31"
    using p by (simp add: pending_def publishable_def)
  obtain n m u w1 rs where rs: "rs = picked_rows (en_scan en n) (en_now en m) (pc_batch_size cfg) (w_db w)"
    and c: "claim en nanos cfg w = (Inr (en_back en n (map (claim_row (pc_worker_id cfg) u) rs)), w1)"
    and d: "w_db w1 = claim_picked (pc_worker_id cfg) u rs (w_db w)"
    using claim_quiet [OF q f a, where cfg = cfg and nanos = nanos] unfolding Let_def by blast
  have "\<forall>r \<in> set (pending (w_db w)). ob_claimed_until r < en_now en m" using p by (simp add: publishable_def)
  note pp = picked_pending [OF f wf this, where n = n and k = "pc_batch_size cfg", folded rs]
  define evs where "evs = en_back en n (map (claim_row (pc_worker_id cfg) u) rs)"
  define gs where "gs = rng (group_by_topic evs)"
  have evs: "mset evs = mset (map (claim_row (pc_worker_id cfg) u) rs)" using f by (simp add: evs_def fair_orders_def)
  have gs0: "mset gs = mset (group_by_topic evs)" using f by (simp add: gs_def fair_orders_def)
  have "mset (concat (map snd gs)) = mset (concat (map snd (group_by_topic evs)))"
    using gs0 by (metis mset_concat mset_map sum_mset_sum_list)
  then have gm: "mset (concat (map snd gs)) = mset (map (claim_row (pc_worker_id cfg) u) rs)"
    using group_by_topic_mset evs by simp
  have ids: "mset (group_ids gs) = mset (map ob_event_id rs)"
    unfolding outbox_event_ids_def mset_map gm by (simp add: multiset.map_comp comp_def)
  then have ids1: "set (group_ids gs) = ob_event_id ` set rs" "distinct (group_ids gs)" "length (group_ids gs) = length rs"
    using pp(2) by (metis list.set_map mset_eq_setD, metis mset_eq_imp_distinct_iff, metis length_map size_mset)
  have tb: "set rs \<subseteq> set (tb_outbox (w_db w))" using pp(1) by (auto simp: pending_def)
  have t: "\<forall>(t, xs) \<in> set gs. outbox_to_event ` set xs \<subseteq> E \<and> (\<exists>ap. targets t = Some ap \<and> accepts ap E up)"
  proof (rule ballI, simp only: split_paired_all prod.case)
    fix t xs assume "(t, xs) \<in> set gs"
    then have g: "(t, xs) \<in> set (group_by_topic evs)" using gs0 by (metis mset_eq_setD)
    have r: "outbox_to_event r \<in> E \<and> (\<exists>ap. targets t = Some ap \<and> accepts ap E up)" if "r \<in> set xs" for r
    proof -
      have "r \<in> set (map (claim_row (pc_worker_id cfg) u) rs)"
        using that group_by_topic_set [OF g] evs by (metis mset_eq_setD subsetD)
      then obtain q where q: "q \<in> set rs" "r = claim_row (pc_worker_id cfg) u q" by auto
      have "publishable en targets E up q" using q(1) pp(1) p by blast
      then show ?thesis using group_by_topic_topics [OF g that] same_content_claim [of q "pc_worker_id cfg" u] q(2)
        by (simp add: publishable_def same_content_def)
    qed
    have "xs \<noteq> []" using g group_foldl_nonempty [of "[]" evs] by (auto simp: group_by_topic_def)
    then obtain r0 where "r0 \<in> set xs" by (cases xs) auto
    then show "outbox_to_event ` set xs \<subseteq> E \<and> (\<exists>ap. targets t = Some ap \<and> accepts ap E up)"
      using r by blast
  qed
  have wf1: "outbox_wf (w_db w1)" unfolding d by (rule outbox_step_wf [OF claim_picked_step wf])
  have h: "held (pc_worker_id cfg) (set (group_ids gs)) (w_db w1)"
    unfolding d ids1 by (rule held_claimed [OF wf tb])
  obtain l' w' where "publish_groups en text cfg targets gs 0 (l, w1) = ((0 + int (length (group_ids gs)), None), l', w')" "up l'"
    "publishes (set (group_ids gs)) (w_db w1) (w_db w')"
    using publish_groups_quiet [OF q wf1 h ids1(2) t up] by blast
  then have "publish_once en nanos text rng cfg targets (l, w) = ((int (length rs), None), l', w')" "up l'"
    "publishes (ob_event_id ` set rs) (w_db w) (w_db w')"
    using c publishes_claimed d ids1 by (simp_all add: publish_once_def evs_def [symmetric] gs_def [symmetric])
  then show ?thesis using pp by blast
qed

lemma filter_published:
  "list_all2 (\<lambda>a b. same_content a b \<and> (if ob_event_id a \<in> ids then ob_published_at b \<noteq> None else b = a)) xs ys \<Longrightarrow>
   filter (\<lambda>r. ob_published_at r = None) ys = filter (\<lambda>r. ob_event_id r \<notin> ids) (filter (\<lambda>r. ob_published_at r = None) xs)"
  by (induction rule: list_all2_induct) (auto split: if_splits)

lemma publishes_pending: "publishes ids db db' \<Longrightarrow> pending db' = filter (\<lambda>r. ob_event_id r \<notin> ids) (pending db)"
  unfolding publishes_def pending_def by (rule filter_published)

lemma publishes_content: "publishes ids db db' \<Longrightarrow> map outbox_to_event (tb_outbox db') = map outbox_to_event (tb_outbox db)"
  unfolding publishes_def by (drule list.rel_mono_strong [where Ra = same_content], blast)
    (induction rule: list_all2_induct, simp_all add: same_content_def)

lemma fewer_pending:
  assumes "outbox_wf db" "set rs \<subseteq> set (pending db)" "distinct (map ob_event_id rs)"
  shows "length (filter (\<lambda>r. ob_event_id r \<notin> ob_event_id ` set rs) (pending db)) = length (pending db) - length rs"
proof -
  let ?in = "filter (\<lambda>r. ob_event_id r \<in> ob_event_id ` set rs) (pending db)"
  have d: "distinct (map ob_event_id ?in)" using assms(1) by (simp add: outbox_wf_def pending_def distinct_map_filter)
  have "set (map ob_event_id ?in) = set (map ob_event_id rs)" using assms(2) by force
  then have "length ?in = length rs" using distinct_card [OF d] distinct_card [OF assms(3)] by simp
  then show ?thesis using sum_length_filter_compl [of "\<lambda>r. ob_event_id r \<in> ob_event_id ` set rs" "pending db"] by simp
qed

lemma drain:
  assumes q: "quiet en" and f: "fair_orders en rng" and t: "targets_ok targets entries" and b: "0 < pc_batch_size cfg"
  shows "publisher_inv entries (l, w) \<Longrightarrow> up l \<Longrightarrow> \<forall>r \<in> set (pending (w_db w)). publishable en targets E up r \<Longrightarrow>
    length (pending (w_db w)) \<le> k * nat (pc_batch_size cfg) \<Longrightarrow>
    \<exists>l' w'. publisher_loop en nanos text rng cfg targets (replicate k False) (l, w) = (None, l', w') \<and>
      publisher_inv entries (l', w') \<and> pending (w_db w') = [] \<and>
      map outbox_to_event (tb_outbox (w_db w')) = map outbox_to_event (tb_outbox (w_db w))"
proof (induction k arbitrary: l w)
  case 0 then show ?case by simp
next
  case (Suc k)
  have wf: "outbox_wf (w_db w)" using Suc.prems(1) by (simp add: publisher_inv_def)
  obtain rs l1 w1 where o: "publish_once en nanos text rng cfg targets (l, w) = ((int (length rs), None), l1, w1)"
    and up: "up l1" and p: "publishes (ob_event_id ` set rs) (w_db w) (w_db w1)" and s: "set rs \<subseteq> set (pending (w_db w))"
    and d: "distinct (map ob_event_id rs)" and n: "length rs = min (nat (pc_batch_size cfg)) (length (pending (w_db w)))"
    using publish_once_quiet [OF q f wf Suc.prems(2,3)] by blast
  have i: "publisher_inv entries (l1, w1)" by (rule publish_once_inv [OF t f Suc.prems(1) o])
  have pe: "pending (w_db w1) = filter (\<lambda>r. ob_event_id r \<notin> ob_event_id ` set rs) (pending (w_db w))"
    by (rule publishes_pending [OF p])
  have len: "length (pending (w_db w1)) \<le> k * nat (pc_batch_size cfg)"
    using Suc.prems(4) n unfolding pe fewer_pending [OF wf s d] by (auto simp: min_def split: if_splits)
  have pub: "\<forall>r \<in> set (pending (w_db w1)). publishable en targets E up r" using Suc.prems(3) by (simp add: pe)
  obtain l' w' where "publisher_loop en nanos text rng cfg targets (replicate k False) (l1, w1) = (None, l', w')"
      "publisher_inv entries (l', w')" "pending (w_db w') = []"
      "map outbox_to_event (tb_outbox (w_db w')) = map outbox_to_event (tb_outbox (w_db w1))"
    using Suc.IH [OF i up pub len] by blast
  then show ?case using o publishes_content [OF p] by simp
qed

text \<open>
  Property C7. When nothing fails any more, every row gets published: with a batch of \<open>b\<close> rows, \<open>k\<close>
  rounds of \<open>Run\<close> publish up to \<open>k * b\<close> pending rows, without an error, and then every row of the table
  is marked published and its event is in the log of its topic.
\<close>

theorem outbox_drains:
  assumes "quiet en" "fair_orders en rng" "targets_ok targets entries" "0 < pc_batch_size cfg" "pc_worker_id cfg \<noteq> []"
    and "outbox_wf (w_db w)" "published_logged entries l (w_db w)" "up l"
    and "\<forall>r \<in> set (pending (w_db w)). publishable en targets E up r"
    and "length (pending (w_db w)) \<le> k * nat (pc_batch_size cfg)"
  shows "\<exists>l' w'. publisher_run en nanos text rng cfg targets (replicate k False) (l, w) = (None, l', w') \<and>
    map outbox_to_event (tb_outbox (w_db w')) = map outbox_to_event (tb_outbox (w_db w)) \<and>
    (\<forall>r \<in> set (tb_outbox (w_db w')). ob_published_at r \<noteq> None \<and> outbox_to_event r \<in> entries l' (ob_topic r))"
proof -
  have "publisher_inv entries (l, w)" using assms(6,7) by (simp add: publisher_inv_def)
  from drain [OF assms(1-4) this assms(8-10)] obtain l' w' where
    "publisher_loop en nanos text rng cfg targets (replicate k False) (l, w) = (None, l', w')"
    "publisher_inv entries (l', w')" "pending (w_db w') = []"
    "map outbox_to_event (tb_outbox (w_db w')) = map outbox_to_event (tb_outbox (w_db w))" by blast
  then show ?thesis using assms(5)
    by (auto simp: publisher_run_def publisher_inv_def published_logged_def pending_def filter_empty_conv)
qed

section \<open>Claims of several workers\<close>

text \<open>The statements the appliers and the publishers run on the table, in any order.\<close>

datatype outbox_op =
    ClaimRows "outbox_row list \<Rightarrow> outbox_row list" "outbox_row list \<Rightarrow> outbox_row list" string int int int
  | MarkFailed string string string
  | MarkPublished int "string list" string
  | CreateRow outbox_row

text \<open>The ids a statement claims, and the database after it.\<close>

fun outbox_run :: "outbox_op \<Rightarrow> database \<Rightarrow> string list \<times> database" where
  "outbox_run (ClaimRows scan back worker until now batch) db =
     (case claim_outbox_events scan back worker until now batch db of
        (Inl e, db') \<Rightarrow> ([], db') | (Inr rs, db') \<Rightarrow> (outbox_event_ids rs, db'))"
| "outbox_run (MarkFailed i err worker) db = ([], snd (mark_outbox_event_failed i err worker db))"
| "outbox_run (MarkPublished now ids worker) db = ([], snd (mark_outbox_events_published now ids worker db))"
| "outbox_run (CreateRow r) db = ([], snd (create_outbox_event r db))"

fun claimed_ids :: "outbox_op list \<Rightarrow> database \<Rightarrow> string set" where
  "claimed_ids [] db = {}"
| "claimed_ids (x # xs) db = (case outbox_run x db of (ids, db') \<Rightarrow> set ids \<union> claimed_ids xs db')"

fun orders_ok :: "outbox_op \<Rightarrow> bool" where
  "orders_ok (ClaimRows scan back worker until now batch) \<longleftrightarrow> (\<forall>xs. set (scan xs) = set xs) \<and> (\<forall>xs. set (back xs) = set xs)"
| "orders_ok _ \<longleftrightarrow> True"

text \<open>Before the lease of worker \<open>a\<close> on row \<open>i\<close> ends at \<open>u\<close>, and without \<open>a\<close> giving the row back.\<close>

fun within_lease :: "string \<Rightarrow> string \<Rightarrow> int \<Rightarrow> outbox_op \<Rightarrow> bool" where
  "within_lease a i u (ClaimRows scan back worker until now batch) \<longleftrightarrow> now \<le> u"
| "within_lease a i u (MarkFailed j err worker) \<longleftrightarrow> j \<noteq> i \<or> worker \<noteq> a"
| "within_lease a i u _ \<longleftrightarrow> True"

lemma not_claimed:
  assumes "orders_ok (ClaimRows scan back worker until now batch)"
    and "\<forall>r \<in> set (tb_outbox db). ob_event_id r = i \<longrightarrow> \<not> claimable now r"
  shows "outbox_run (ClaimRows scan back worker until now batch) db = (ids, db') \<Longrightarrow>
    i \<notin> set ids \<and> (\<exists>rs. db' = claim_picked worker until rs db \<and> i \<notin> ob_event_id ` set rs)"
proof -
  assume r: "outbox_run (ClaimRows scan back worker until now batch) db = (ids, db')"
  define rs where "rs = picked_rows scan now batch db"
  have "set rs \<subseteq> {r \<in> set (tb_outbox db). claimable now r}"
    unfolding rs_def by (rule picked_rows_subset) (use assms(1) in simp)
  then have i: "i \<notin> ob_event_id ` set rs" using assms(2) by blast
  have "ids = [] \<and> db' = db \<or> ids = outbox_event_ids (back (map (claim_row worker until) rs)) \<and> db' = claim_picked worker until rs db"
    using r unfolding outbox_run.simps claim_outbox_eq rs_def [symmetric] Let_def by (auto split: if_splits)
  moreover have "db = claim_picked worker until [] db" by (simp add: claim_picked_def)
  moreover have "set (outbox_event_ids (back (map (claim_row worker until) rs))) = ob_event_id ` set rs"
    using assms(1) by (simp add: outbox_event_ids_def image_comp)
  ultimately show ?thesis using i by (metis emptyE image_empty list.set(1))
qed

lemma rows_of_id_image:
  assumes "\<And>r. ob_event_id (f r) = ob_event_id r" "\<And>r. ob_event_id r = i \<Longrightarrow> f r = r"
  shows "{r \<in> f ` S. ob_event_id r = i} = {r \<in> S. ob_event_id r = i}"
proof (intro equalityI subsetI)
  fix x assume "x \<in> {r \<in> f ` S. ob_event_id r = i}"
  then obtain y where y: "y \<in> S" "x = f y" "ob_event_id x = i" by blast
  then have "x = y" using assms(1) [of y] assms(2) [of y] by simp
  then show "x \<in> {r \<in> S. ob_event_id r = i}" using y by simp
next
  fix x assume "x \<in> {r \<in> S. ob_event_id r = i}"
  then show "x \<in> {r \<in> f ` S. ob_event_id r = i}" using assms(2) [of x] by force
qed

lemma claim_picked_other:
  assumes "i \<notin> ob_event_id ` set rs"
  shows "{r \<in> set (tb_outbox (claim_picked a u rs db)). ob_event_id r = i} = {r \<in> set (tb_outbox db). ob_event_id r = i}"
proof -
  let ?f = "\<lambda>r. if ob_event_id r \<in> ob_event_id ` set rs then claim_row a u r else r"
  have "{r \<in> ?f ` set (tb_outbox db). ob_event_id r = i} = {r \<in> set (tb_outbox db). ob_event_id r = i}"
    by (rule rows_of_id_image) (use assms in auto)
  then show ?thesis by (simp add: claim_picked_def)
qed

text \<open>A property of the rows with id \<open>i\<close>, of which there is one.\<close>

definition row_is :: "string \<Rightarrow> (outbox_row \<Rightarrow> bool) \<Rightarrow> database \<Rightarrow> bool" where
  "row_is i P db \<longleftrightarrow> {r \<in> set (tb_outbox db). ob_event_id r = i} \<noteq> {} \<and>
     (\<forall>r \<in> {r \<in> set (tb_outbox db). ob_event_id r = i}. P r)"

lemma row_is_image:
  assumes "tb_outbox db' = map f (tb_outbox db)" "\<And>r. ob_event_id (f r) = ob_event_id r" "\<And>r. ob_event_id r = i \<Longrightarrow> P r \<Longrightarrow> P (f r)"
    and "row_is i P db"
  shows "row_is i P db'"
  using assms(4) unfolding row_is_def assms(1) using assms(2,3) by fastforce

lemma row_is_weak:
  assumes "tb_outbox db' = map f (tb_outbox db)" "\<And>r. ob_event_id (f r) = ob_event_id r" "\<And>r. ob_event_id r = i \<Longrightarrow> P (f r)"
    and "row_is i Q db"
  shows "row_is i P db'"
  using assms(4) unfolding row_is_def assms(1) using assms(2,3) by fastforce

lemma row_is_create:
  assumes "row_is i P db"
  shows "row_is i P (snd (create_outbox_event r db))"
  using assms by (auto simp: row_is_def create_outbox_event_def)

lemma row_is_claim:
  assumes "row_is i P db" "\<And>r. P r \<Longrightarrow> \<not> claimable now r" "orders_ok (ClaimRows scan back worker until now batch)"
    and "outbox_run (ClaimRows scan back worker until now batch) db = (ids, db')"
  shows "i \<notin> set ids \<and> row_is i P db'"
proof -
  have "\<forall>r \<in> set (tb_outbox db). ob_event_id r = i \<longrightarrow> \<not> claimable now r" using assms(1,2) by (auto simp: row_is_def)
  from not_claimed [OF assms(3) this assms(4)] obtain rs where
    "i \<notin> set ids" "db' = claim_picked worker until rs db" "i \<notin> ob_event_id ` set rs" by blast
  then show ?thesis using assms(1) claim_picked_other [of i rs worker until db] unfolding row_is_def by metis
qed

lemma failed_rows:
  "tb_outbox (snd (mark_outbox_event_failed j err worker db)) = map (\<lambda>r. if ob_event_id r = j \<and> ob_claimed_by r = worker
      then r\<lparr>ob_claimed_by := [], ob_claimed_until := 0, ob_last_error := err\<rparr> else r) (tb_outbox db)"
  by (simp add: mark_outbox_event_failed_def)

lemma marked_rows:
  "tb_outbox (snd (mark_outbox_events_published now js worker db)) =
     map (\<lambda>r. if ob_event_id r \<in> set js \<and> ob_claimed_by r = worker then mark_row_published now r else r) (tb_outbox db)"
  by (simp add: mark_outbox_events_published_def Let_def)

text \<open>Holding the lease of worker \<open>a\<close> until \<open>u\<close>, or published.\<close>

definition leased :: "string \<Rightarrow> int \<Rightarrow> outbox_row \<Rightarrow> bool" where
  "leased a u r \<longleftrightarrow> ob_published_at r \<noteq> None \<or> ob_claimed_by r = a \<and> u \<le> ob_claimed_until r"

lemma leased_run:
  assumes "row_is i (leased a u) db" "orders_ok x" "within_lease a i u x" "outbox_run x db = (ids, db')"
  shows "i \<notin> set ids \<and> row_is i (leased a u) db'"
proof (cases x)
  case (ClaimRows scan bk worker till now batch)
  have nc: "leased a u r \<Longrightarrow> \<not> claimable now r" for r using assms(3) ClaimRows by (auto simp: leased_def claimable_def)
  show ?thesis using row_is_claim [OF assms(1) nc] assms(2,4) ClaimRows by blast
next
  case (MarkFailed j err worker)
  have d: "db' = snd (mark_outbox_event_failed j err worker db)" "ids = []" using assms MarkFailed by simp_all
  have "row_is i (leased a u) db'"
    by (rule row_is_image [OF failed_rows [of j err worker db] _ _ assms(1), folded d(1)]) (use assms(3) MarkFailed in \<open>auto simp: leased_def\<close>)
  then show ?thesis using d(2) by simp
next
  case (MarkPublished now js worker)
  have d: "db' = snd (mark_outbox_events_published now js worker db)" "ids = []" using assms MarkPublished by simp_all
  have "row_is i (leased a u) db'"
    by (rule row_is_image [OF marked_rows [of now js worker db] _ _ assms(1), folded d(1)]) (auto simp: leased_def mark_row_published_def)
  then show ?thesis using d(2) by simp
next
  case (CreateRow r)
  then show ?thesis using assms(1,4) row_is_create by auto
qed

lemma published_run:
  assumes "row_is i (\<lambda>r. ob_published_at r \<noteq> None) db" "orders_ok x" "outbox_run x db = (ids, db')"
  shows "i \<notin> set ids \<and> row_is i (\<lambda>r. ob_published_at r \<noteq> None) db'"
proof (cases x)
  case (ClaimRows scan bk worker till now batch)
  show ?thesis using row_is_claim [OF assms(1), of now] assms(2,3) ClaimRows by (simp add: claimable_def)
next
  case (MarkFailed j err worker)
  have d: "db' = snd (mark_outbox_event_failed j err worker db)" "ids = []" using assms MarkFailed by simp_all
  have "row_is i (\<lambda>r. ob_published_at r \<noteq> None) db'"
    by (rule row_is_image [OF failed_rows [of j err worker db] _ _ assms(1), folded d(1)]) auto
  then show ?thesis using d(2) by simp
next
  case (MarkPublished now js worker)
  have d: "db' = snd (mark_outbox_events_published now js worker db)" "ids = []" using assms MarkPublished by simp_all
  have "row_is i (\<lambda>r. ob_published_at r \<noteq> None) db'"
    by (rule row_is_image [OF marked_rows [of now js worker db] _ _ assms(1), folded d(1)]) (auto simp: mark_row_published_def)
  then show ?thesis using d(2) by simp
next
  case (CreateRow r)
  then show ?thesis using assms(1,3) row_is_create by auto
qed

lemma run_keeps:
  assumes "\<And>x db ids db'. row_is i P db \<Longrightarrow> orders_ok x \<Longrightarrow> Q x \<Longrightarrow> outbox_run x db = (ids, db') \<Longrightarrow> i \<notin> set ids \<and> row_is i P db'"
  shows "row_is i P db \<Longrightarrow> \<forall>x \<in> set xs. orders_ok x \<and> Q x \<Longrightarrow> i \<notin> claimed_ids xs db"
proof (induction xs arbitrary: db)
  case (Cons x xs)
  obtain ids db' where r: "outbox_run x db = (ids, db')" by fastforce
  have "i \<notin> set ids \<and> row_is i P db'" using assms [OF Cons.prems(1) _ _ r] Cons.prems(2) by simp
  then show ?case using Cons.IH Cons.prems(2) r by simp
qed simp

lemma claimed_row:
  assumes "outbox_wf db" "orders_ok (ClaimRows scan back a u now k)"
    and "claim_outbox_events scan back a u now k db = (Inr evs, db')" "i \<in> ob_event_id ` set evs"
  shows "row_is i (leased a u) db'"
proof -
  define rs where "rs = picked_rows scan now k db"
  have d: "db' = claim_picked a u rs db" "evs = back (map (claim_row a u) rs)"
    using assms(3) unfolding claim_outbox_eq rs_def [symmetric] Let_def by (auto split: if_splits)
  have "set evs = claim_row a u ` set rs" using assms(2) d(2) by simp
  then have i: "i \<in> ob_event_id ` set rs" using assms(4) by force
  have sub: "set rs \<subseteq> set (tb_outbox db)"
    using picked_rows_subset [of scan now db k] assms(2) unfolding rs_def by auto
  have "row_is i (\<lambda>_. True) db" using i sub by (auto simp: row_is_def)
  let ?f = "\<lambda>r. if ob_event_id r \<in> ob_event_id ` set rs then claim_row a u r else r"
  have "row_is i (leased a u) (claim_picked a u rs db)"
    by (rule row_is_weak [where f = ?f, OF _ _ _ \<open>row_is i (\<lambda>_. True) db\<close>]) (use i in \<open>simp_all add: claim_picked_def leased_def claim_row_def\<close>)
  then show ?thesis by (simp add: d(1))
qed

definition outbox_after :: "outbox_op list \<Rightarrow> database \<Rightarrow> database" where
  "outbox_after xs db = foldl (\<lambda>db x. snd (outbox_run x db)) db xs"

text \<open>
  Property C5. Claims exclude each other: from the moment a worker has claimed a row until its lease
  is over, no statement of any worker in any order claims the row again, unless the worker itself
  marks it failed; and if the row is published by then, no statement ever claims it again.
\<close>

theorem claims_are_exclusive:
  assumes "outbox_wf db" "orders_ok (ClaimRows scan back a u now k)"
    and "claim_outbox_events scan back a u now k db = (Inr evs, db')" "i \<in> set (outbox_event_ids evs)"
    and "\<forall>x \<in> set xs. orders_ok x \<and> within_lease a i u x" "\<forall>y \<in> set ys. orders_ok y"
  shows "i \<notin> claimed_ids xs db' \<and>
    (row_is i (\<lambda>r. ob_published_at r \<noteq> None) (outbox_after xs db') \<longrightarrow> i \<notin> claimed_ids ys (outbox_after xs db'))"
proof (intro conjI impI)
  have l: "row_is i (leased a u) db'"
    by (rule claimed_row [OF assms(1-3)]) (use assms(4) in \<open>simp add: outbox_event_ids_def\<close>)
  show "i \<notin> claimed_ids xs db'"
    by (rule run_keeps [OF leased_run l]) (use assms(5) in auto)
  assume p: "row_is i (\<lambda>r. ob_published_at r \<noteq> None) (outbox_after xs db')"
  show "i \<notin> claimed_ids ys (outbox_after xs db')"
    by (rule run_keeps [where Q = "\<lambda>_. True", OF published_run p]) (use assms(6) in auto)
qed

section \<open>A concrete publisher\<close>

text \<open>One log per topic; here on the reference broker.\<close>

definition topic_appender :: "string \<Rightarrow> 's appender \<Rightarrow> (string \<Rightarrow> 's) appender" where
  "topic_appender t ap =
     \<lparr>ap_append = (\<lambda>e l. case ap_append ap e (l t) of (x, s) \<Rightarrow> (x, l(t := s))),
      ap_batch = (case ap_batch ap of None \<Rightarrow> None | Some b \<Rightarrow> Some (\<lambda>es l. case b es (l t) of (x, s) \<Rightarrow> (x, l(t := s))))\<rparr>"

lemma targets_ok_topics:
  assumes "event_appender ap entries (\<lambda>_. True)"
  shows "targets_ok (\<lambda>t. if t \<in> T then Some (topic_appender t ap) else None) (\<lambda>l t. entries (l t))"
proof -
  have a: "v \<in> entries s'" if "ap_append ap e s = (x, s')" "v \<in> entries s \<or> v = e \<and> (\<exists>p. x = Inr p)" for e s x s' v
    using event_appender.append [OF assms TrueI that(1)] that(2) by blast
  have b: "v \<in> entries s'" if "ap_batch ap = Some f" "f es s = (x, s')" "v \<in> entries s \<or> v \<in> set es \<and> (\<exists>p. x = Inr p)" for f es s x s' v
    using event_appender.batch [OF assms that(1) TrueI that(2)] that(3) by blast
  have "event_appender (topic_appender t ap) (\<lambda>l. entries (l t)) (\<lambda>_. True)" for t
    by unfold_locales (auto simp: topic_appender_def split: prod.splits option.splits intro: a, (metis b)+)
  moreover have "entries (l u) \<subseteq> entries (snd (ap_append (topic_appender t ap) e l) u)" for e l u t
    by (auto simp: topic_appender_def split: prod.splits intro: a)
  moreover have "ap_batch (topic_appender t ap) = Some f \<Longrightarrow> entries (l u) \<subseteq> entries (snd (f es l) u)" for f es l u t
    by (auto simp: topic_appender_def split: prod.splits option.splits intro: b)
  ultimately show ?thesis unfolding targets_ok_def by (auto split: if_splits)
qed

definition sendable :: "event set" where
  "sendable = {e. 0 \<le> ev_shard_id e \<and> ev_id e \<noteq> [] \<and> ev_type e \<noteq> []}"

lemma encode_messages_sendable: "set es \<subseteq> sendable \<Longrightarrow> \<exists>ms ps. encode_messages ref_event_json es = Inr (ms, ps)"
proof (induction es)
  case (Cons e es)
  obtain v where "ej_marshal ref_event_json e = Inr v" using ref_event_json_ok unfolding event_json_ok_def by blast
  then show ?case using Cons by (auto simp: sendable_def encode_message_def encode_event_def)
qed simp

lemma ref_kafka_accepts:
  "accepts (topic_appender t (kafka_appender (ref_kafka parts) ref_event_json None)) sendable (\<lambda>l. \<forall>t. kl_open (l (t :: string)))"
proof -
  let ?ap = "kafka_appender (ref_kafka parts) ref_event_json None"
  have b: "\<exists>ps s'. kafka_append_batch (ref_kafka parts) ref_event_json None es s = (Inr ps, s') \<and> kl_open s'"
    if "set es \<subseteq> sendable" "kl_open s" for es s
    using encode_messages_sendable [OF that(1)] that(2) by (auto simp: kafka_append_batch_def ref_kafka_def)
  have a: "\<exists>p s'. kafka_append (ref_kafka parts) ref_event_json None e s = (Inr p, s') \<and> kl_open s'"
    if "e \<in> sendable" "kl_open s" for e s
    using b [of "[e]" s] that by (auto simp: kafka_append_def ebind_def ret_def)
  show ?thesis unfolding accepts_def
  proof (intro conjI ballI allI impI)
    fix e and l :: "string \<Rightarrow> (int \<Rightarrow> message list) kafka_log" assume "e \<in> sendable" "\<forall>t. kl_open (l t)"
    then obtain p s' where "kafka_append (ref_kafka parts) ref_event_json None e (l t) = (Inr p, s')" "kl_open s'" using a by blast
    then show "\<exists>p l'. ap_append (topic_appender t ?ap) e l = (Inr p, l') \<and> (\<forall>t. kl_open (l' t))"
      using \<open>\<forall>t. kl_open (l t)\<close> by (simp add: topic_appender_def kafka_appender_def)
  next
    fix f es and l :: "string \<Rightarrow> (int \<Rightarrow> message list) kafka_log" assume f: "ap_batch (topic_appender t ?ap) = Some f" "set es \<subseteq> sendable" "\<forall>t. kl_open (l t)"
    then obtain ps s' where "kafka_append_batch (ref_kafka parts) ref_event_json None es (l t) = (Inr ps, s')" "kl_open s'" using b by blast
    then show "\<exists>ps l'. f es l = (Inr ps, l') \<and> (\<forall>t. kl_open (l' t))"
      using f by (auto simp: topic_appender_def kafka_appender_def)
  qed
qed

definition ref_targets :: "string \<Rightarrow> (string \<Rightarrow> (int \<Rightarrow> message list) kafka_log) appender option" where
  "ref_targets = (\<lambda>t. if t \<in> {TopicMatchRequests} then Some (topic_appender t (kafka_appender (ref_kafka [0, 1]) ref_event_json None)) else None)"

definition ref_entries :: "(string \<Rightarrow> (int \<Rightarrow> message list) kafka_log) \<Rightarrow> string \<Rightarrow> event set" where
  "ref_entries = (\<lambda>l t. kafka_entries ref_event_json (\<lambda>s. s) (l t))"

lemma ref_targets_ok: "targets_ok ref_targets ref_entries"
  unfolding ref_targets_def ref_entries_def by (rule targets_ok_topics) (rule kafka_contract [OF ref_kafka_exact])

definition ref_env :: env where
  "ref_env = (calm \<lparr>ow_shard_id = 0, ow_node_id = 0, ow_epoch = 0\<rparr>)\<lparr>en_now := (\<lambda>n. 100)\<rparr>"

lemma ref_env_ok: "quiet ref_env" "fair_orders ref_env (\<lambda>gs. gs)"
  by (simp_all add: quiet_def fair_orders_def ref_env_def calm_def)

definition ref_row :: "string \<Rightarrow> outbox_row" where
  "ref_row i = \<lparr>ob_event_id = i, ob_event_type = ''t'', ob_aggregate_type = [], ob_aggregate_id = [], ob_shard_id = 1,
     ob_occurred_at = 5, ob_payload = [], ob_published_at = None, ob_topic = TopicMatchRequests, ob_message_key = [],
     ob_claimed_by = [], ob_claimed_until = 0, ob_attempts = 0, ob_last_error = []\<rparr>"

definition ref_world :: world where
  "ref_world = \<lparr>w_db = empty_database\<lparr>tb_outbox := [ref_row ''a'', ref_row ''b'', ref_row ''c'']\<rparr>, w_tx = empty_database, w_tick = 0\<rparr>"

definition ref_logs :: "string \<Rightarrow> (int \<Rightarrow> message list) kafka_log" where
  "ref_logs = (\<lambda>_. \<lparr>kl_open = True, kl_net = (\<lambda>_. [])\<rparr>)"

definition ref_config :: publisher_config where
  "ref_config = \<lparr>pc_worker_id = ''w'', pc_batch_size = 2, pc_lease = 0, pc_poll_interval = 0\<rparr>"

lemma ref_world_ok: "outbox_wf (w_db ref_world)" "published_logged ref_entries ref_logs (w_db ref_world)"
  by (simp_all add: ref_world_def outbox_wf_def published_logged_def ref_row_def)

lemma ref_publishable:
  "\<forall>r \<in> set (pending (w_db ref_world)). publishable ref_env ref_targets sendable (\<lambda>l. \<forall>t. kl_open (l t)) r"
proof -
  have "\<exists>ap. ref_targets TopicMatchRequests = Some ap \<and> accepts ap sendable (\<lambda>l. \<forall>t. kl_open (l t))"
    using ref_kafka_accepts by (simp add: ref_targets_def)
  then show ?thesis
    by (auto simp: pending_def ref_world_def publishable_def ref_row_def ref_env_def sendable_def outbox_to_event_def)
qed

text \<open>Three rows, a batch of two: two rounds publish them.\<close>

theorem outbox_drains_witness:
  "\<exists>l' w'. publisher_run ref_env (\<lambda>_. 0) (\<lambda>_. []) (\<lambda>gs. gs) ref_config ref_targets (replicate 2 False) (ref_logs, ref_world) = (None, l', w') \<and>
    map outbox_to_event (tb_outbox (w_db w')) = map outbox_to_event (tb_outbox (w_db ref_world)) \<and>
    (\<forall>r \<in> set (tb_outbox (w_db w')). ob_published_at r \<noteq> None \<and> outbox_to_event r \<in> ref_entries l' (ob_topic r))"
  by (rule outbox_drains [OF ref_env_ok ref_targets_ok _ _ ref_world_ok _ ref_publishable])
     (simp_all add: ref_config_def ref_logs_def pending_def ref_world_def ref_row_def)


lemma ref_row_simps [simp]: "ob_event_id (ref_row i) = i" "ob_published_at (ref_row i) = None" "ob_claimed_until (ref_row i) = 0"
    "ob_attempts (ref_row i) = 0" "ob_occurred_at (ref_row i) = 5"
  by (simp_all add: ref_row_def)

definition ref_claimed :: database where
  "ref_claimed = empty_database\<lparr>tb_outbox := [claim_row ''w'' 130 (ref_row ''a''), claim_row ''w'' 130 (ref_row ''b''), ref_row ''c'']\<rparr>"

lemma ref_claim: "claim_outbox_events (\<lambda>xs. xs) (\<lambda>xs. xs) ''w'' 130 100 2 (w_db ref_world) =
    (Inr [claim_row ''w'' 130 (ref_row ''a''), claim_row ''w'' 130 (ref_row ''b'')], ref_claimed)"
  by (simp add: claim_outbox_events_def ref_world_def ref_claimed_def claimable_def Let_def eval_nat_numeral)

definition ref_published :: database where
  "ref_published = empty_database\<lparr>tb_outbox := [mark_row_published 125 (claim_row ''w'' 130 (ref_row ''a'')),
     claim_row ''w'' 130 (ref_row ''b''), claim_row ''v'' 150 (ref_row ''c'')]\<rparr>"

lemma claim_row_simps [simp]: "ob_published_at (claim_row a u r) = ob_published_at r" "ob_claimed_until (claim_row a u r) = u"
    "ob_claimed_by (claim_row a u r) = a"
  by (simp_all add: claim_row_def)

lemma ref_steps: "outbox_after [ClaimRows (\<lambda>xs. xs) (\<lambda>xs. xs) ''v'' 150 120 2, MarkPublished 125 [''a''] ''w''] ref_claimed = ref_published"
proof -
  have c: "claim_outbox_events (\<lambda>xs. xs) (\<lambda>xs. xs) ''v'' 150 120 2 ref_claimed = (Inr [claim_row ''v'' 150 (ref_row ''c'')],
     empty_database\<lparr>tb_outbox := [claim_row ''w'' 130 (ref_row ''a''), claim_row ''w'' 130 (ref_row ''b''), claim_row ''v'' 150 (ref_row ''c'')]\<rparr>)"
    by (simp add: claim_outbox_events_def ref_claimed_def claimable_def Let_def eval_nat_numeral)
  show ?thesis
    unfolding outbox_after_def by (simp add: c mark_outbox_events_published_def Let_def ref_published_def)
qed

text \<open>Two workers: \<open>w\<close> claims with a lease until 130, \<open>v\<close> tries at 120, \<open>w\<close> publishes, \<open>v\<close> tries at 200.\<close>

theorem claims_are_exclusive_witness:
  "''a'' \<notin> claimed_ids [ClaimRows (\<lambda>xs. xs) (\<lambda>xs. xs) ''v'' 150 120 2, MarkPublished 125 [''a''] ''w''] ref_claimed \<and>
   ''a'' \<notin> claimed_ids [ClaimRows (\<lambda>xs. xs) (\<lambda>xs. xs) ''v'' 230 200 2] ref_published"
proof -
  let ?xs = "[ClaimRows (\<lambda>xs. xs) (\<lambda>xs. xs) ''v'' 150 120 2, MarkPublished 125 [''a''] ''w'']"
  let ?ys = "[ClaimRows (\<lambda>xs. xs) (\<lambda>xs. xs) ''v'' 230 200 2]"
  have i: "''a'' \<in> set (outbox_event_ids [claim_row ''w'' 130 (ref_row ''a''), claim_row ''w'' 130 (ref_row ''b'')])"
    by (simp add: outbox_event_ids_def)
  have p: "row_is ''a'' (\<lambda>r. ob_published_at r \<noteq> None) ref_published"
    by (auto simp: ref_published_def row_is_def mark_row_published_def)
  show ?thesis using claims_are_exclusive [OF ref_world_ok(1) _ ref_claim i, of ?xs ?ys] p by (simp add: ref_steps)
qed

end
