(* ===== verification/Runner.thy ===== *)
theory Runner
  imports Applier Checkpoint
begin

text \<open>
  The runner of a node (\<open>internal/node/runner.go\<close>): it starts one goroutine for every shard the node
  owns, from the shard's checkpoint, stops those it lost, and each goroutine applies the records of
  its stream, one by one or in batches, behind the ownership fence.

  The state of the world outside the node is a parameter; the event log, the appliers, the stores,
  the hooks and the metrics act on it. A goroutine is an entry of the list of the started goroutines;
  the \<open>cancel\<close> of its context marks it. What a goroutine receives is a list of what the \<open>select\<close> finds.
  A call of \<open>refreshOnce\<close>, the handling of one record or batch, the return of a goroutine and its late
  call of the stop hook are each one step.
\<close>

section \<open>Interfaces and state\<close>

text \<open>\<open>eventApplier\<close>, with the interfaces it may also implement.\<close>

record 'e record_applier =
  ra_apply :: "event \<Rightarrow> ('e, unit) eff"
  ra_fenced :: "(event \<Rightarrow> ownership \<Rightarrow> ('e, unit) eff) option"
  ra_record :: "(log_record \<Rightarrow> ownership \<Rightarrow> ('e, unit) eff) option"
  ra_batch :: "(log_record list \<Rightarrow> ownership \<Rightarrow> ('e, unit) eff) option"

text \<open>What the runner calls of \<open>metrics.Recorder\<close>.\<close>

record 'e event_metrics =
  me_event_apply :: "int \<Rightarrow> int \<Rightarrow> string \<Rightarrow> 'e \<Rightarrow> 'e"
  me_event_apply_error :: "int \<Rightarrow> int \<Rightarrow> string \<Rightarrow> 'e \<Rightarrow> 'e"
  me_fencing_reject :: "int \<Rightarrow> int \<Rightarrow> 'e \<Rightarrow> 'e"

text \<open>
  The fixed fields of \<open>Node\<close>; \<open>None\<close> is nil. \<open>rn_owner_of\<close> is there when the provider is an
  \<open>ownershipReader\<close>, \<open>rn_order\<close> is the order in which \<open>range\<close> meets the keys of a map.
\<close>

record 'e runner =
  rn_id :: int
  rn_shards_for_node :: "int \<Rightarrow> ('e, ownership list) eff"
  rn_owner_of :: "(int \<Rightarrow> ('e, ownership option) eff) option"
  rn_tail_from :: "position \<Rightarrow> ('e, unit) eff"
  rn_applier :: "'e record_applier option"
  rn_store :: "'e cp_ops option"
  rn_metrics :: "'e event_metrics option"
  rn_on_start :: "(int \<Rightarrow> ('e, unit) eff) option"
  rn_on_stop :: "(int \<Rightarrow> 'e \<Rightarrow> 'e) option"
  rn_refresh_interval :: int
  rn_batch_size :: int
  rn_batch_wait :: int
  rn_now :: "'e \<Rightarrow> int"
  rn_order :: "int list \<Rightarrow> int list"

record shard_worker =
  sw_shard_id :: int
  sw_epoch :: int
  sw_cancel :: nat

record goroutine =
  go_ownership :: ownership
  go_offset :: int
  go_cancelled :: bool
  go_ended :: bool

record 'e node =
  nd_next :: "int \<Rightarrow> int"
  nd_active :: "(int \<times> shard_worker) list"
  nd_started :: "goroutine list"
  nd_err_ch :: "go_error option list"
  nd_hooks :: "int list"
  nd_env :: 'e

definition at_env :: "('e, 'a) eff \<Rightarrow> ('e node, 'a) eff" where
  "at_env m = (\<lambda>s. case m (nd_env s) of (r, e) \<Rightarrow> (r, s\<lparr>nd_env := e\<rparr>))"

text \<open>\<open>NewRunner\<close> and the options; durations are nanoseconds.\<close>

definition new_node :: "'e \<Rightarrow> 'e node" where
  "new_node e = \<lparr>nd_next = (\<lambda>_. 0), nd_active = [], nd_started = [], nd_err_ch = [], nd_hooks = [], nd_env = e\<rparr>"

definition runner_defaults :: "'e runner \<Rightarrow> 'e runner" where
  "runner_defaults rn = rn\<lparr>rn_refresh_interval := 1000000000, rn_batch_size := 100, rn_batch_wait := 10000000\<rparr>"

definition set_refresh_interval :: "int \<Rightarrow> 'e runner \<Rightarrow> 'e runner" where
  "set_refresh_interval d rn = (if d > 0 then rn\<lparr>rn_refresh_interval := d\<rparr> else rn)"

definition set_batch_options :: "int \<Rightarrow> int \<Rightarrow> 'e runner \<Rightarrow> 'e runner" where
  "set_batch_options limit wait rn =
     (let rn1 = if limit > 0 then rn\<lparr>rn_batch_size := limit\<rparr> else rn
      in if wait > 0 then rn1\<lparr>rn_batch_wait := wait\<rparr> else rn1)"

definition set_metrics_recorder :: "'e event_metrics option \<Rightarrow> 'e runner \<Rightarrow> 'e runner" where
  "set_metrics_recorder m rn = rn\<lparr>rn_metrics := m\<rparr>"

definition set_shard_lifecycle_hooks :: "(int \<Rightarrow> ('e, unit) eff) option \<Rightarrow> (int \<Rightarrow> 'e \<Rightarrow> 'e) option \<Rightarrow> 'e runner \<Rightarrow> 'e runner" where
  "set_shard_lifecycle_hooks on_start on_stop rn = rn\<lparr>rn_on_start := on_start, rn_on_stop := on_stop\<rparr>"

section \<open>Metrics and hooks\<close>

definition record_event_apply :: "'e runner \<Rightarrow> event \<Rightarrow> 'e node \<Rightarrow> 'e node" where
  "record_event_apply rn ev s = (case rn_metrics rn of
     None \<Rightarrow> s | Some m \<Rightarrow> s\<lparr>nd_env := me_event_apply m (rn_id rn) (ev_shard_id ev) (ev_type ev) (nd_env s)\<rparr>)"

definition record_event_apply_error :: "'e runner \<Rightarrow> event \<Rightarrow> 'e node \<Rightarrow> 'e node" where
  "record_event_apply_error rn ev s = (case rn_metrics rn of
     None \<Rightarrow> s | Some m \<Rightarrow> s\<lparr>nd_env := me_event_apply_error m (rn_id rn) (ev_shard_id ev) (ev_type ev) (nd_env s)\<rparr>)"

definition record_fencing_reject :: "'e runner \<Rightarrow> int \<Rightarrow> 'e node \<Rightarrow> 'e node" where
  "record_fencing_reject rn k s = (case rn_metrics rn of
     None \<Rightarrow> s | Some m \<Rightarrow> s\<lparr>nd_env := me_fencing_reject m (rn_id rn) k (nd_env s)\<rparr>)"

definition start_hook :: "'e runner \<Rightarrow> int \<Rightarrow> ('e node, unit) eff" where
  "start_hook rn k = (case rn_on_start rn of None \<Rightarrow> ret () | Some h \<Rightarrow> at_env (h k))"

definition stop_hook :: "'e runner \<Rightarrow> int \<Rightarrow> 'e node \<Rightarrow> 'e node" where
  "stop_hook rn k s = (case rn_on_stop rn of None \<Rightarrow> s | Some h \<Rightarrow> s\<lparr>nd_env := h k (nd_env s)\<rparr>)"

section \<open>Checkpoints\<close>

definition load_shard_checkpoint :: "'e runner \<Rightarrow> int \<Rightarrow> ('e node, int) eff" where
  "load_shard_checkpoint rn k = (\<lambda>s.
     let cached = nd_next s k in
     case rn_store rn of
       None \<Rightarrow> (Inr cached, s)
     | Some st \<Rightarrow> ebind (at_env (cs_load st k)) (\<lambda>r. ret (case r of None \<Rightarrow> cached | Some c \<Rightarrow> sc_offset c)) s)"

definition remember_checkpoint :: "position \<Rightarrow> 'e node \<Rightarrow> 'e node" where
  "remember_checkpoint p s = s\<lparr>nd_next := (nd_next s)(ps_shard_id p := wrap64 (ps_offset p + 1))\<rparr>"

definition advance_checkpoint :: "'e runner \<Rightarrow> position \<Rightarrow> ownership \<Rightarrow> ('e node, unit) eff" where
  "advance_checkpoint rn p own = (\<lambda>s.
     let s1 = s\<lparr>nd_next := (nd_next s)(ps_shard_id p := wrap64 (ps_offset p + 1))\<rparr> in
     case rn_store rn of
       None \<Rightarrow> (Inr (), s1)
     | Some st \<Rightarrow> at_env (cs_save st \<lparr>sc_shard_id = ps_shard_id p, sc_offset = wrap64 (ps_offset p + 1),
         sc_epoch = ow_epoch own, sc_node_id = rn_id rn, sc_updated_at = rn_now rn (nd_env s1)\<rparr>) s1)"

section \<open>Starting and stopping shards\<close>

definition cancel_goroutine :: "nat \<Rightarrow> 'e node \<Rightarrow> 'e node" where
  "cancel_goroutine i s = s\<lparr>nd_started := (nd_started s)[i := (nd_started s ! i)\<lparr>go_cancelled := True\<rparr>]\<rparr>"

definition start_shard :: "'e runner \<Rightarrow> ownership \<Rightarrow> ('e node, unit) eff" where
  "start_shard rn own =
     (let k = ow_shard_id own in
      ebind (load_shard_checkpoint rn k) (\<lambda>offset.
      ebind (start_hook rn k) (\<lambda>_ s.
        (case at_env (rn_tail_from rn \<lparr>ps_shard_id = k, ps_offset = offset\<rparr>) (s\<lparr>nd_next := (nd_next s)(k := offset)\<rparr>) of
           (Inl err, s1) \<Rightarrow> (Inl err, stop_hook rn k s1)
         | (Inr _, s1) \<Rightarrow>
             (Inr (), s1\<lparr>nd_active := AList.update k \<lparr>sw_shard_id = k, sw_epoch = ow_epoch own, sw_cancel = length (nd_started s1)\<rparr> (nd_active s1),
                nd_started := nd_started s1 @ [\<lparr>go_ownership = own, go_offset = offset, go_cancelled = False, go_ended = False\<rparr>]\<rparr>)))))"

definition remove_active_shard :: "int \<Rightarrow> int \<Rightarrow> 'e node \<Rightarrow> bool \<times> 'e node" where
  "remove_active_shard k epoch s =
     (case map_of (nd_active s) k of
        None \<Rightarrow> (False, s)
      | Some w \<Rightarrow> if sw_epoch w \<noteq> epoch then (False, s) else (True, s\<lparr>nd_active := AList.delete k (nd_active s)\<rparr>))"

definition stop_shard :: "'e runner \<Rightarrow> int \<Rightarrow> 'e node \<Rightarrow> 'e node" where
  "stop_shard rn k s =
     (case map_of (nd_active s) k of
        None \<Rightarrow> s
      | Some w \<Rightarrow> stop_hook rn k (cancel_goroutine (sw_cancel w) (s\<lparr>nd_active := AList.delete k (nd_active s)\<rparr>)))"

definition stop_all_shards :: "'e runner \<Rightarrow> 'e node \<Rightarrow> 'e node" where
  "stop_all_shards rn s = foldl (\<lambda>s k. stop_shard rn k s) s (rn_order rn (map fst (nd_active s)))"

text \<open>
  The end of goroutine \<open>i\<close>, whose function returned \<open>err\<close>. After a lost fence it removes its shard from
  \<open>active\<close>, releases the mutex, and then calls \<open>onShardStop\<close>: the call is a step of its own
  (\<open>late_stop_hook\<close>), and \<open>nd_hooks\<close> has the shards of the calls that are still to come.
\<close>

definition end_goroutine :: "'e runner \<Rightarrow> nat \<Rightarrow> go_error option \<Rightarrow> 'e node \<Rightarrow> 'e node" where
  "end_goroutine rn i err s =
     (let own = go_ownership (nd_started s ! i); k = ow_shard_id own;
          s0 = s\<lparr>nd_started := (nd_started s)[i := (nd_started s ! i)\<lparr>go_ended := True\<rparr>]\<rparr>
      in case err of
           Some e \<Rightarrow>
             if errors_is e ErrOwnershipFenceLost
             then (case remove_active_shard k (ow_epoch own) (record_fencing_reject rn k s0) of
                     (removed, s1) \<Rightarrow> if removed \<and> rn_on_stop rn \<noteq> None then s1\<lparr>nd_hooks := nd_hooks s1 @ [k]\<rparr> else s1)
             else if errors_is e ContextCanceled then s0
             else s0\<lparr>nd_err_ch := nd_err_ch s0 @ [err]\<rparr>
         | None \<Rightarrow> s0\<lparr>nd_err_ch := nd_err_ch s0 @ [err]\<rparr>)"

definition late_stop_hook :: "'e runner \<Rightarrow> int \<Rightarrow> 'e node \<Rightarrow> 'e node" where
  "late_stop_hook rn k s = stop_hook rn k (s\<lparr>nd_hooks := remove1 k (nd_hooks s)\<rparr>)"

text \<open>\<open>refreshOnce\<close>\<close>

definition desired_shards :: "ownership list \<Rightarrow> (int \<times> ownership) list" where
  "desired_shards owns = foldl (\<lambda>m own. AList.update (ow_shard_id own) own m) [] owns"

definition refresh_shard :: "'e runner \<Rightarrow> int \<times> ownership \<Rightarrow> ('e node, unit) eff" where
  "refresh_shard rn = (\<lambda>(k, own) s.
     case map_of (nd_active s) k of
       None \<Rightarrow> start_shard rn own s
     | Some w \<Rightarrow> if sw_epoch w \<noteq> ow_epoch own then start_shard rn own (stop_shard rn k s) else (Inr (), s))"

definition refresh_once :: "'e runner \<Rightarrow> ('e node, unit) eff" where
  "refresh_once rn =
     ebind (at_env (rn_shards_for_node rn (rn_id rn))) (\<lambda>owns.
       let desired = desired_shards owns;
           entries = map (\<lambda>k. (k, the (map_of desired k))) (rn_order rn (map fst desired))
       in ebind (efor entries (refresh_shard rn)) (\<lambda>_ s.
            (Inr (), foldl (\<lambda>s k. if map_of desired k = None then stop_shard rn k s else s) s (rn_order rn (map fst (nd_active s))))))"

text \<open>
  The loop of \<open>Run\<close>, for what its \<open>select\<close> finds: the context is done, an error of a goroutine, or
  the ticker. It returns an error, or is still running (\<open>None\<close>).
\<close>

datatype loop_event = LoopDone go_error | LoopError "go_error option" | LoopTick

fun node_loop :: "'e runner \<Rightarrow> loop_event list \<Rightarrow> 'e node \<Rightarrow> go_error option \<times> 'e node" where
  "node_loop rn [] s = (None, s)"
| "node_loop rn (LoopDone err # es) s = (Some err, stop_all_shards rn s)"
| "node_loop rn (LoopError None # es) s = node_loop rn es s"
| "node_loop rn (LoopError (Some err) # es) s = (Some err, stop_all_shards rn s)"
| "node_loop rn (LoopTick # es) s =
     (case refresh_once rn s of
        (Inl err, s1) \<Rightarrow> (Some err, stop_all_shards rn s1)
      | (Inr _, s1) \<Rightarrow> node_loop rn es s1)"

definition node_run :: "'e runner \<Rightarrow> loop_event list \<Rightarrow> 'e node \<Rightarrow> go_error option \<times> 'e node" where
  "node_run rn es s =
     (case refresh_once rn s of
        (Inl err, s1) \<Rightarrow> (Some err, s1)
      | (Inr _, s1) \<Rightarrow> node_loop rn es s1)"

section \<open>The goroutine of a shard\<close>

definition check_shard_fence :: "'e runner \<Rightarrow> int \<Rightarrow> int \<Rightarrow> ('e, unit) eff" where
  "check_shard_fence rn k epoch =
     (case rn_owner_of rn of
        None \<Rightarrow> ret ()
      | Some owner \<Rightarrow> ebind (owner k) (\<lambda>r. case r of
          None \<Rightarrow> throw ErrOwnershipFenceLost
        | Some own \<Rightarrow> if ow_node_id own \<noteq> rn_id rn \<or> ow_epoch own \<noteq> epoch then throw ErrOwnershipFenceLost else ret ()))"

definition runner_apply_event :: "'e runner \<Rightarrow> 'e record_applier \<Rightarrow> event \<Rightarrow> ownership \<Rightarrow> ('e, unit) eff" where
  "runner_apply_event rn ap ev own =
     (case ra_fenced ap of
        Some f \<Rightarrow> f ev own
      | None \<Rightarrow>
          ebind (check_shard_fence rn (ow_shard_id own) (ow_epoch own)) (\<lambda>_.
          ebind (ra_apply ap ev) (\<lambda>_.
          check_shard_fence rn (ow_shard_id own) (ow_epoch own))))"

text \<open>The result says whether the applier has stored the checkpoint.\<close>

definition runner_apply_record :: "'e runner \<Rightarrow> 'e record_applier \<Rightarrow> log_record \<Rightarrow> ownership \<Rightarrow> ('e, bool) eff" where
  "runner_apply_record rn ap r own =
     (case ra_record ap of
        Some f \<Rightarrow> ebind (f r own) (\<lambda>_. ret True)
      | None \<Rightarrow> ebind (runner_apply_event rn ap (lr_event r) own) (\<lambda>_. ret False))"

text \<open>What the \<open>select\<close> of a goroutine finds. A closed channel stays closed.\<close>

datatype chan_event = CtxDone go_error | ChanClosed | Received log_record | TimerFired

definition run_record :: "'e runner \<Rightarrow> ownership \<Rightarrow> log_record \<Rightarrow> ('e node, unit) eff" where
  "run_record rn own r = (\<lambda>s.
     case rn_applier rn of
       None \<Rightarrow> (Inl (ErrMsg ''applier not found'' []), s)
     | Some ap \<Rightarrow>
         (case at_env (runner_apply_record rn ap r own) s of
            (Inl err, s1) \<Rightarrow> (Inl err, record_event_apply_error rn (lr_event r) s1)
          | (Inr handled, s1) \<Rightarrow>
              (let s2 = record_event_apply rn (lr_event r) s1
               in if handled then (Inr (), remember_checkpoint (lr_position r) s2)
                  else advance_checkpoint rn (lr_position r) own s2)))"

text \<open>A goroutine is still waiting (\<open>None\<close>) or has returned an error or nil.\<close>

fun run_single_record_shard ::
  "'e runner \<Rightarrow> ownership \<Rightarrow> chan_event list \<Rightarrow> 'e node \<Rightarrow> go_error option option \<times> 'e node" where
  "run_single_record_shard rn own [] s = (None, s)"
| "run_single_record_shard rn own (CtxDone err # es) s = (Some (Some err), s)"
| "run_single_record_shard rn own (ChanClosed # es) s = (Some None, s)"
| "run_single_record_shard rn own (TimerFired # es) s = run_single_record_shard rn own es s"
| "run_single_record_shard rn own (Received r # es) s =
     (case run_record rn own r s of
        (Inl err, s1) \<Rightarrow> (Some (Some err), s1)
      | (Inr _, s1) \<Rightarrow> run_single_record_shard rn own es s1)"

datatype collected = Waiting | CollectFailed go_error | NotOpen | Batch "log_record list"

fun collect_more :: "int \<Rightarrow> chan_event list \<Rightarrow> log_record list \<Rightarrow> collected \<times> chan_event list" where
  "collect_more limit [] rs = (if int (length rs) < limit then Waiting else Batch rs, [])"
| "collect_more limit (e # es) rs =
     (if int (length rs) < limit
      then (case e of
              CtxDone err \<Rightarrow> (CollectFailed err, es)
            | ChanClosed \<Rightarrow> (Batch rs, ChanClosed # es)
            | Received r \<Rightarrow> collect_more limit es (rs @ [r])
            | TimerFired \<Rightarrow> (Batch rs, es))
      else (Batch rs, e # es))"

fun collect_record_batch :: "int \<Rightarrow> chan_event list \<Rightarrow> collected \<times> chan_event list" where
  "collect_record_batch limit [] = (Waiting, [])"
| "collect_record_batch limit (CtxDone err # es) = (CollectFailed err, es)"
| "collect_record_batch limit (ChanClosed # es) = (NotOpen, ChanClosed # es)"
| "collect_record_batch limit (TimerFired # es) = collect_record_batch limit es"
| "collect_record_batch limit (Received r # es) = collect_more limit es [r]"

lemma collect_more_length: "collect_more limit es rs = (c, es') \<Longrightarrow> length es' \<le> length es"
  by (induction limit es rs rule: collect_more.induct) (fastforce split: if_splits chan_event.splits)+

lemma collect_batch_length: "collect_record_batch limit es = (Batch rs, es') \<Longrightarrow> length es' < length es"
  by (induction limit es rule: collect_record_batch.induct) (auto dest: collect_more_length)

function run_batched_shard ::
  "'e runner \<Rightarrow> (log_record list \<Rightarrow> ownership \<Rightarrow> ('e, unit) eff) \<Rightarrow> ownership \<Rightarrow> chan_event list \<Rightarrow> 'e node \<Rightarrow>
   go_error option option \<times> 'e node" where
  "run_batched_shard rn apply_records own es s =
     (case collect_record_batch (rn_batch_size rn) es of
        (Waiting, es') \<Rightarrow> (None, s)
      | (CollectFailed err, es') \<Rightarrow> (Some (Some err), s)
      | (NotOpen, es') \<Rightarrow> (Some None, s)
      | (Batch rs, es') \<Rightarrow>
          (case at_env (apply_records rs own) s of
             (Inl err, s1) \<Rightarrow> (Some (Some err), record_event_apply_error rn (lr_event (hd rs)) s1)
           | (Inr _, s1) \<Rightarrow>
               run_batched_shard rn apply_records own es'
                 (remember_checkpoint (lr_position (last rs)) (foldl (\<lambda>s r. record_event_apply rn (lr_event r) s) s1 rs))))"
  by pat_completeness auto
termination
  by (relation "measure (\<lambda>(_, _, _, es, _). length es)") (auto dest!: sym [of _ "collect_record_batch _ _"] collect_batch_length)

declare run_batched_shard.simps [simp del]

definition run_dynamic_shard ::
  "'e runner \<Rightarrow> ownership \<Rightarrow> chan_event list \<Rightarrow> 'e node \<Rightarrow> go_error option option \<times> 'e node" where
  "run_dynamic_shard rn own es s =
     (case Option.bind (rn_applier rn) ra_batch of
        Some apply_records \<Rightarrow> run_batched_shard rn apply_records own es s
      | None \<Rightarrow> run_single_record_shard rn own es s)"

section \<open>One live goroutine per shard\<close>

definition live :: "goroutine \<Rightarrow> bool" where
  "live g \<longleftrightarrow> \<not> go_cancelled g \<and> \<not> go_ended g"

text \<open>An entry of \<open>active\<close> belongs to its goroutine, and every live goroutine has an entry.\<close>

definition entry_ok :: "goroutine list \<Rightarrow> int \<Rightarrow> shard_worker \<Rightarrow> bool" where
  "entry_ok gs k w \<longleftrightarrow> sw_shard_id w = k \<and> sw_cancel w < length gs \<and> \<not> go_cancelled (gs ! sw_cancel w) \<and>
     ow_shard_id (go_ownership (gs ! sw_cancel w)) = k \<and> ow_epoch (go_ownership (gs ! sw_cancel w)) = sw_epoch w"

definition workers_ok :: "(int \<times> shard_worker) list \<Rightarrow> goroutine list \<Rightarrow> bool" where
  "workers_ok act gs \<longleftrightarrow> distinct (map fst act) \<and> (\<forall>k w. map_of act k = Some w \<longrightarrow> entry_ok gs k w) \<and>
     (\<forall>i < length gs. live (gs ! i) \<longrightarrow> (\<exists>k w. map_of act k = Some w \<and> sw_cancel w = i))"

abbreviation node_ok :: "'e node \<Rightarrow> bool" where
  "node_ok s \<equiv> workers_ok (nd_active s) (nd_started s)"

definition same_workers :: "'e node \<Rightarrow> 'e node \<Rightarrow> bool" where
  "same_workers s s' \<longleftrightarrow> nd_active s' = nd_active s \<and> nd_started s' = nd_started s"

lemma same_workers_refl [simp]: "same_workers s s" by (simp add: same_workers_def)

lemma same_workers_trans: "same_workers a b \<Longrightarrow> same_workers b c \<Longrightarrow> same_workers a c"
  by (simp add: same_workers_def)

lemma at_env_same: "at_env m s = (r, s') \<Longrightarrow> same_workers s s' \<and> nd_next s' = nd_next s \<and> nd_err_ch s' = nd_err_ch s"
  by (auto simp: at_env_def same_workers_def split: prod.splits)

lemma stop_hook_same [simp]: "nd_active (stop_hook rn k s) = nd_active s" "nd_started (stop_hook rn k s) = nd_started s"
  by (simp_all add: stop_hook_def split: option.splits)

lemma fencing_reject_same [simp]: "nd_active (record_fencing_reject rn k s) = nd_active s"
    "nd_started (record_fencing_reject rn k s) = nd_started s"
  by (simp_all add: record_fencing_reject_def split: option.splits)

lemma apply_metric_same [simp]: "nd_active (record_event_apply rn e s) = nd_active s" "nd_started (record_event_apply rn e s) = nd_started s"
    "nd_next (record_event_apply rn e s) = nd_next s"
    "nd_active (record_event_apply_error rn e s) = nd_active s" "nd_started (record_event_apply_error rn e s) = nd_started s"
  by (simp_all add: record_event_apply_def record_event_apply_error_def split: option.splits)

lemma remember_same [simp]: "nd_active (remember_checkpoint p s) = nd_active s" "nd_started (remember_checkpoint p s) = nd_started s"
    "nd_env (remember_checkpoint p s) = nd_env s"
  by (simp_all add: remember_checkpoint_def)

lemma load_checkpoint_same: "load_shard_checkpoint rn k s = (r, s') \<Longrightarrow> same_workers s s'"
  by (auto simp: load_shard_checkpoint_def Let_def ebind_def dest: at_env_same split: option.splits prod.splits sum.splits)

lemma start_hook_same: "start_hook rn k s = (r, s') \<Longrightarrow> same_workers s s'"
  by (auto simp: start_hook_def dest: at_env_same split: option.splits)

lemma start_shard_cases:
  assumes "start_shard rn own s = (r, s')"
  obtains (failed) err where "r = Inl err" "same_workers s s'"
  | (started) offset where "r = Inr ()"
    "nd_active s' = AList.update (ow_shard_id own) \<lparr>sw_shard_id = ow_shard_id own, sw_epoch = ow_epoch own, sw_cancel = length (nd_started s)\<rparr> (nd_active s)"
    "nd_started s' = nd_started s @ [\<lparr>go_ownership = own, go_offset = offset, go_cancelled = False, go_ended = False\<rparr>]"
proof -
  let ?k = "ow_shard_id own"
  obtain r1 s1 where l: "load_shard_checkpoint rn ?k s = (r1, s1)" by fastforce
  note L = load_checkpoint_same [OF l]
  show thesis
  proof (cases r1)
    case (Inl e)
    then show ?thesis using assms l L failed [of e] by (simp add: start_shard_def Let_def)
  next
    case (Inr offset)
    obtain r2 s2 where h: "start_hook rn ?k s1 = (r2, s2)" by fastforce
    note H = same_workers_trans [OF L start_hook_same [OF h]]
    show ?thesis
    proof (cases r2)
      case (Inl e)
      then show ?thesis using assms l h H failed [of e] Inr by (simp add: start_shard_def Let_def)
    next
      case Inr2: (Inr u)
      obtain r3 s3 where t: "at_env (rn_tail_from rn \<lparr>ps_shard_id = ?k, ps_offset = offset\<rparr>) (s2\<lparr>nd_next := (nd_next s2)(?k := offset)\<rparr>) = (r3, s3)"
        by fastforce
      have T: "nd_active s3 = nd_active s" "nd_started s3 = nd_started s"
        using at_env_same [OF t] H by (simp_all add: same_workers_def)
      show ?thesis
      proof (cases r3)
        case (Inl e)
        then have "r = Inl e" "s' = stop_hook rn ?k s3" using assms l h t Inr Inr2 by (simp_all add: start_shard_def Let_def)
        then show ?thesis using failed [of e] T by (simp add: same_workers_def)
      next
        case Inr3: (Inr v)
        then show ?thesis using assms l h t Inr Inr2 T started by (auto simp: start_shard_def Let_def)
      qed
    qed
  qed
qed

lemma stop_shard_none: "map_of (nd_active s) k = None \<Longrightarrow> stop_shard rn k s = s"
  by (simp add: stop_shard_def)

lemma stop_shard_active: "map_of (nd_active (stop_shard rn k s)) k' = (if k' = k then None else map_of (nd_active s) k')"
  by (auto simp: stop_shard_def cancel_goroutine_def gomap_simps split: option.splits)

lemma entry_ok_append: "entry_ok gs k w \<Longrightarrow> entry_ok (gs @ [g]) k w"
  by (simp add: entry_ok_def nth_append)

lemma workers_ok_update:
  assumes "workers_ok act gs" "map_of act k = None" "ow_shard_id own = k"
  shows "workers_ok (AList.update k \<lparr>sw_shard_id = k, sw_epoch = ow_epoch own, sw_cancel = length gs\<rparr> act)
    (gs @ [\<lparr>go_ownership = own, go_offset = offset, go_cancelled = False, go_ended = False\<rparr>])"
  unfolding workers_ok_def
proof (intro conjI allI impI)
  show "distinct (map fst (AList.update k \<lparr>sw_shard_id = k, sw_epoch = ow_epoch own, sw_cancel = length gs\<rparr> act))"
    using assms(1) by (simp add: workers_ok_def distinct_update)
next
  fix k' w assume "map_of (AList.update k \<lparr>sw_shard_id = k, sw_epoch = ow_epoch own, sw_cancel = length gs\<rparr> act) k' = Some w"
  then show "entry_ok (gs @ [\<lparr>go_ownership = own, go_offset = offset, go_cancelled = False, go_ended = False\<rparr>]) k' w"
    using assms(1,3) by (cases "k' = k") (simp_all add: gomap_simps workers_ok_def entry_ok_append, auto simp: entry_ok_def)
next
  fix i assume i: "i < length (gs @ [\<lparr>go_ownership = own, go_offset = offset, go_cancelled = False, go_ended = False\<rparr>])"
    and l: "live ((gs @ [\<lparr>go_ownership = own, go_offset = offset, go_cancelled = False, go_ended = False\<rparr>]) ! i)"
  show "\<exists>k' w. map_of (AList.update k \<lparr>sw_shard_id = k, sw_epoch = ow_epoch own, sw_cancel = length gs\<rparr> act) k' = Some w \<and> sw_cancel w = i"
  proof (cases "i < length gs")
    case True
    then obtain k' w where "map_of act k' = Some w" "sw_cancel w = i" using assms(1) l by (auto simp: workers_ok_def nth_append)
    then show ?thesis using assms(2) by (intro exI [of _ k'] exI [of _ w]) (auto simp: gomap_simps)
  next
    case False
    then show ?thesis using i by (auto simp: gomap_simps intro!: exI [of _ k])
  qed
qed

lemma workers_ok_stop:
  assumes "workers_ok act gs" "map_of act k = Some w"
  shows "workers_ok (AList.delete k act) (gs[sw_cancel w := (gs ! sw_cancel w)\<lparr>go_cancelled := True\<rparr>])"
proof -
  have e: "entry_ok gs k w" using assms by (simp add: workers_ok_def)
  show ?thesis unfolding workers_ok_def
  proof (intro conjI allI impI)
    show "distinct (map fst (AList.delete k act))" using assms(1) by (simp add: workers_ok_def distinct_delete)
  next
    fix k' w' assume m: "map_of (AList.delete k act) k' = Some w'"
    then have "k' \<noteq> k" "map_of act k' = Some w'" by (auto simp: gomap_simps split: if_splits)
    moreover have "entry_ok gs k' w'" using calculation assms(1) by (simp add: workers_ok_def)
    ultimately show "entry_ok (gs[sw_cancel w := (gs ! sw_cancel w)\<lparr>go_cancelled := True\<rparr>]) k' w'"
      using e by (auto simp: entry_ok_def nth_list_update)
  next
    fix i assume i: "i < length (gs[sw_cancel w := (gs ! sw_cancel w)\<lparr>go_cancelled := True\<rparr>])"
      and l: "live (gs[sw_cancel w := (gs ! sw_cancel w)\<lparr>go_cancelled := True\<rparr>] ! i)"
    then have n: "i \<noteq> sw_cancel w" by (auto simp: live_def)
    then obtain k' w' where w': "map_of act k' = Some w'" "sw_cancel w' = i" using i l assms(1) by (auto simp: workers_ok_def)
    then have "k' \<noteq> k" using assms(2) n by auto
    then show "\<exists>k' w'. map_of (AList.delete k act) k' = Some w' \<and> sw_cancel w' = i"
      using w' by (auto simp: gomap_simps intro!: exI [of _ k'])
  qed
qed

lemma stop_shard_ok: "node_ok s \<Longrightarrow> node_ok (stop_shard rn k s)"
  by (cases "map_of (nd_active s) k") (simp_all add: stop_shard_def cancel_goroutine_def workers_ok_stop)

lemma start_shard_ok:
  assumes "node_ok s" "map_of (nd_active s) (ow_shard_id own) = None" "start_shard rn own s = (r, s')"
  shows "node_ok s'"
  using assms(3)
proof (cases rule: start_shard_cases)
  case failed then show ?thesis using assms(1) by (simp add: same_workers_def)
next
  case started then show ?thesis using workers_ok_update [OF assms(1,2) refl] by simp
qed

definition keyed :: "(int \<times> ownership) list \<Rightarrow> bool" where
  "keyed m \<longleftrightarrow> distinct (map fst m) \<and> (\<forall>k own. map_of m k = Some own \<longrightarrow> ow_shard_id own = k)"

lemma keyed_update: "keyed m \<Longrightarrow> keyed (AList.update (ow_shard_id own) own m)"
  unfolding keyed_def map_of_AList_update by (metis distinct_update option.inject)

lemma keyed_desired: "keyed (desired_shards owns)"
proof -
  have "keyed m \<Longrightarrow> keyed (foldl (\<lambda>m own. AList.update (ow_shard_id own) own m) m owns)" for m
    by (induction owns arbitrary: m) (simp_all add: keyed_update)
  moreover have "keyed []" by (simp add: keyed_def)
  ultimately show ?thesis unfolding desired_shards_def by blast
qed

lemma desired_shards_ok:
  "distinct (map fst (desired_shards owns))" "map_of (desired_shards owns) k = Some own \<Longrightarrow> ow_shard_id own = k"
  using keyed_desired [of owns] unfolding keyed_def by (blast, blast)

lemma start_shard_active:
  assumes "start_shard rn own s = (Inr (), s')"
  shows "map_of (nd_active s') k = (if k = ow_shard_id own
    then Some \<lparr>sw_shard_id = ow_shard_id own, sw_epoch = ow_epoch own, sw_cancel = length (nd_started s)\<rparr> else map_of (nd_active s) k)"
  using assms by (cases rule: start_shard_cases) (simp_all add: gomap_simps)

lemma start_shard_failed: "start_shard rn own s = (Inl err, s') \<Longrightarrow> same_workers s s'"
  by (erule start_shard_cases) simp_all

lemma refresh_shard_ok:
  assumes "node_ok s" "ow_shard_id own = k" "refresh_shard rn (k, own) s = (r, s')"
  shows "node_ok s'" "k' \<noteq> k \<Longrightarrow> map_of (nd_active s') k' = map_of (nd_active s) k'"
    "r = Inr () \<Longrightarrow> \<exists>w. map_of (nd_active s') k = Some w \<and> sw_epoch w = ow_epoch own"
proof -
  have main: "node_ok s' \<and> (k' \<noteq> k \<longrightarrow> map_of (nd_active s') k' = map_of (nd_active s) k') \<and>
      (r = Inr () \<longrightarrow> (\<exists>w. map_of (nd_active s') k = Some w \<and> sw_epoch w = ow_epoch own))"
    if st: "node_ok s1" "map_of (nd_active s1) k = None" "start_shard rn own s1 = (r, s')"
      "k' \<noteq> k \<Longrightarrow> map_of (nd_active s1) k' = map_of (nd_active s) k'" for s1
  proof (cases r)
    case (Inl e)
    then have "same_workers s1 s'" using st(3) start_shard_failed by simp
    then show ?thesis using start_shard_ok [OF st(1) _ st(3)] st Inl assms(2) by (auto simp: same_workers_def)
  next
    case (Inr u)
    then show ?thesis using start_shard_ok [OF st(1) _ st(3)] start_shard_active [of rn own s1 s'] st assms(2) by simp
  qed
  have "node_ok s' \<and> (k' \<noteq> k \<longrightarrow> map_of (nd_active s') k' = map_of (nd_active s) k') \<and>
      (r = Inr () \<longrightarrow> (\<exists>w. map_of (nd_active s') k = Some w \<and> sw_epoch w = ow_epoch own))"
  proof (cases "map_of (nd_active s) k")
    case None
    show ?thesis by (rule main [OF assms(1) None]) (insert assms(3) None, simp_all add: refresh_shard_def)
  next
    case (Some w)
    show ?thesis
    proof (cases "sw_epoch w = ow_epoch own")
      case True
      then show ?thesis using assms Some by (auto simp: refresh_shard_def)
    next
      case False
      show ?thesis by (rule main [OF stop_shard_ok [OF assms(1), of rn k]])
          (insert assms(3) Some False, simp_all add: refresh_shard_def stop_shard_active)
    qed
  qed
  then show "node_ok s'" "k' \<noteq> k \<Longrightarrow> map_of (nd_active s') k' = map_of (nd_active s) k'"
    "r = Inr () \<Longrightarrow> \<exists>w. map_of (nd_active s') k = Some w \<and> sw_epoch w = ow_epoch own" by simp_all
qed

lemma refresh_entries_ok:
  "node_ok s \<Longrightarrow> distinct (map fst es) \<Longrightarrow> \<forall>(k, own) \<in> set es. ow_shard_id own = k \<Longrightarrow>
   efor es (refresh_shard rn) s = (r, s') \<Longrightarrow>
   node_ok s' \<and> (\<forall>k. k \<notin> fst ` set es \<longrightarrow> map_of (nd_active s') k = map_of (nd_active s) k) \<and>
   (r = Inr () \<longrightarrow> (\<forall>(k, own) \<in> set es. \<exists>w. map_of (nd_active s') k = Some w \<and> sw_epoch w = ow_epoch own))"
proof (induction es arbitrary: s)
  case Nil then show ?case by simp
next
  case (Cons e es)
  obtain k own where e: "e = (k, own)" by fastforce
  have k: "ow_shard_id own = k" using Cons.prems(3) e by simp
  obtain r1 s1 where 1: "refresh_shard rn (k, own) s = (r1, s1)" by fastforce
  note R = refresh_shard_ok [OF Cons.prems(1) k 1]
  show ?case
  proof (cases r1)
    case (Inl x)
    then have "r = Inl x" "s' = s1" using Cons.prems(4) 1 e by simp_all
    then show ?thesis using R e by auto
  next
    case (Inr u)
    then have 2: "efor es (refresh_shard rn) s1 = (r, s')" using Cons.prems(4) 1 e by simp
    have I: "node_ok s' \<and> (\<forall>k. k \<notin> fst ` set es \<longrightarrow> map_of (nd_active s') k = map_of (nd_active s1) k) \<and>
      (r = Inr () \<longrightarrow> (\<forall>(k, own) \<in> set es. \<exists>w. map_of (nd_active s') k = Some w \<and> sw_epoch w = ow_epoch own))"
      by (rule Cons.IH [OF R(1) _ _ 2]) (use Cons.prems in auto)
    have "k \<notin> fst ` set es" using Cons.prems(2) e by auto
    then show ?thesis using I R(2,3) Inr e by auto
  qed
qed

lemma stop_undesired:
  assumes "node_ok s"
  shows "node_ok (foldl (\<lambda>s k. if D k then stop_shard rn k s else s) s ks) \<and>
    (\<forall>k. map_of (nd_active (foldl (\<lambda>s k. if D k then stop_shard rn k s else s) s ks)) k =
       (if k \<in> set ks \<and> D k then None else map_of (nd_active s) k))"
  using assms
proof (induction ks arbitrary: s)
  case (Cons k ks)
  show ?case
  proof (cases "D k")
    case True
    then show ?thesis using Cons.IH [OF stop_shard_ok [OF Cons.prems]] by (auto simp: stop_shard_active)
  next
    case False
    then show ?thesis using Cons.IH [OF Cons.prems] by auto
  qed
qed simp

definition fair_order :: "'e runner \<Rightarrow> bool" where
  "fair_order rn \<longleftrightarrow> (\<forall>xs. mset (rn_order rn xs) = mset xs)"

lemma refresh_once_ok:
  assumes o: "fair_order rn" and ok: "node_ok s" and run: "refresh_once rn s = (r, s')"
  shows "node_ok s' \<and> (r = Inr () \<longrightarrow> (\<exists>owns e. rn_shards_for_node rn (rn_id rn) (nd_env s) = (Inr owns, e) \<and>
    (\<forall>k. map_option sw_epoch (map_of (nd_active s') k) = map_option ow_epoch (map_of (desired_shards owns) k))))"
proof -
  obtain q e where p: "rn_shards_for_node rn (rn_id rn) (nd_env s) = (q, e)" by fastforce
  let ?s0 = "s\<lparr>nd_env := e\<rparr>"
  show ?thesis
  proof (cases q)
    case (Inl err)
    then show ?thesis using run p ok by (auto simp: refresh_once_def ebind_def at_env_def)
  next
    case (Inr owns)
    define D where "D = desired_shards owns"
    define es where "es = map (\<lambda>k. (k, the (map_of D k))) (rn_order rn (map fst D))"
    have m: "mset (rn_order rn xs) = mset xs" for xs using o by (simp add: fair_order_def)
    have keys: "map fst es = rn_order rn (map fst D)" by (simp add: es_def comp_def)
    have ks: "fst ` set es = fst ` set D" using m [of "map fst D"] keys by (metis list.set_map mset_eq_setD)
    have d: "distinct (map fst es)" using m [of "map fst D"] desired_shards_ok(1) [of owns] mset_eq_imp_distinct_iff
      unfolding keys D_def by blast
    have ent: "(k, own) \<in> set es \<longleftrightarrow> map_of D k = Some own" for k own
    proof -
      have "(k, own) \<in> set es \<longleftrightarrow> k \<in> fst ` set D \<and> own = the (map_of D k)"
        using ks by (force simp: es_def)
      then show ?thesis using desired_shards_ok(1) [of owns] unfolding D_def by (auto simp: map_of_eq_None_iff image_iff intro: rev_bexI)
    qed
    obtain r1 s1 where f: "efor es (refresh_shard rn) ?s0 = (r1, s1)" by fastforce
    have E: "node_ok s1 \<and> (\<forall>k. k \<notin> fst ` set es \<longrightarrow> map_of (nd_active s1) k = map_of (nd_active ?s0) k) \<and>
      (r1 = Inr () \<longrightarrow> (\<forall>(k, own) \<in> set es. \<exists>w. map_of (nd_active s1) k = Some w \<and> sw_epoch w = ow_epoch own))"
      by (rule refresh_entries_ok [OF _ d _ f]) (use ok ent desired_shards_ok(2) [of owns] in \<open>auto simp: D_def\<close>)
    show ?thesis
    proof (cases r1)
      case (Inl err)
      then have "r = Inl err" "s' = s1" using run p Inr f by (simp_all add: refresh_once_def at_env_def ebind_def D_def es_def Let_def)
      then show ?thesis using E by simp
    next
      case Inr1: (Inr u)
      let ?ks = "rn_order rn (map fst (nd_active s1))"
      have s': "s' = foldl (\<lambda>s k. if map_of D k = None then stop_shard rn k s else s) s1 ?ks"
        using run p Inr f Inr1 by (simp add: refresh_once_def at_env_def ebind_def D_def es_def Let_def)
      note U = stop_undesired [where D = "\<lambda>k. map_of D k = None" and ks = ?ks and rn = rn and s = s1, folded s']
      have "map_option sw_epoch (map_of (nd_active s') k) = map_option ow_epoch (map_of D k)" for k
      proof (cases "map_of D k")
        case None
        have "set ?ks = fst ` set (nd_active s1)" using m by (metis list.set_map mset_eq_setD)
        then have "k \<notin> set ?ks \<Longrightarrow> map_of (nd_active s1) k = None" by (simp add: map_of_eq_None_iff)
        then show ?thesis using U E None by auto
      next
        case (Some own)
        then have "(k, own) \<in> set es" by (simp add: ent)
        then obtain w where "map_of (nd_active s1) k = Some w" "sw_epoch w = ow_epoch own" using E Inr1 by auto
        then show ?thesis using U E Some by simp
      qed
      then show ?thesis using U E p Inr unfolding D_def by auto
    qed
  qed
qed

lemma workers_ok_ended:
  assumes "workers_ok act gs" "i < length gs"
  shows "workers_ok act (gs[i := (gs ! i)\<lparr>go_ended := True\<rparr>])"
  unfolding workers_ok_def
proof (intro conjI allI impI)
  show "distinct (map fst act)" using assms(1) by (simp add: workers_ok_def)
next
  fix k w assume "map_of act k = Some w"
  then have "entry_ok gs k w" using assms(1) unfolding workers_ok_def by blast
  then show "entry_ok (gs[i := (gs ! i)\<lparr>go_ended := True\<rparr>]) k w"
    using assms(2) by (cases "i = sw_cancel w") (simp_all add: entry_ok_def)
next
  fix j assume j: "j < length (gs[i := (gs ! i)\<lparr>go_ended := True\<rparr>])" and l: "live (gs[i := (gs ! i)\<lparr>go_ended := True\<rparr>] ! j)"
  then have "live (gs ! j)" using assms(2) by (cases "i = j") (simp_all add: live_def)
  then show "\<exists>k w. map_of act k = Some w \<and> sw_cancel w = j" using assms(1) j unfolding workers_ok_def length_list_update by blast
qed

text \<open>Removing an entry whose goroutine has ended.\<close>

lemma workers_ok_delete:
  assumes "workers_ok act gs" "map_of act k = Some w" "go_ended (gs ! sw_cancel w)"
  shows "workers_ok (AList.delete k act) gs"
  unfolding workers_ok_def
proof (intro conjI allI impI)
  show "distinct (map fst (AList.delete k act))" using assms(1) by (simp add: workers_ok_def distinct_delete)
next
  fix k' w' assume "map_of (AList.delete k act) k' = Some w'"
  then have "map_of act k' = Some w'" unfolding map_of_AList_delete by (cases "k' = k") simp_all
  then show "entry_ok gs k' w'" using assms(1) unfolding workers_ok_def by blast
next
  fix i assume i: "i < length gs" "live (gs ! i)"
  then obtain k' w' where w': "map_of act k' = Some w'" "sw_cancel w' = i" using assms(1) unfolding workers_ok_def by blast
  have "k' \<noteq> k" using w' assms(2,3) i(2) by (auto simp: live_def)
  then have "map_of (AList.delete k act) k' = Some w'" using w'(1) by (simp only: map_of_AList_delete if_False)
  then show "\<exists>k' w'. map_of (AList.delete k act) k' = Some w' \<and> sw_cancel w' = i" using w'(2) by blast
qed

text \<open>
  An entry with the shard and epoch of goroutine \<open>i\<close> is the entry of \<open>i\<close>: so it is for a live goroutine,
  and for a cancelled one when no later start has the same shard and epoch.
\<close>

definition own_entry :: "nat \<Rightarrow> 'e node \<Rightarrow> bool" where
  "own_entry i s \<longleftrightarrow> (\<forall>w. map_of (nd_active s) (ow_shard_id (go_ownership (nd_started s ! i))) = Some w \<longrightarrow>
     sw_epoch w = ow_epoch (go_ownership (nd_started s ! i)) \<longrightarrow> sw_cancel w = i)"

lemma live_own_entry: "node_ok s \<Longrightarrow> i < length (nd_started s) \<Longrightarrow> live (nd_started s ! i) \<Longrightarrow> own_entry i s"
  unfolding workers_ok_def own_entry_def entry_ok_def by (metis option.inject)

lemma end_goroutine_ok:
  assumes ok: "node_ok s" and i: "i < length (nd_started s)" and own: "own_entry i s"
  shows "node_ok (end_goroutine rn i err s)"
proof -
  let ?g = "nd_started s ! i"
  let ?gs = "(nd_started s)[i := ?g\<lparr>go_ended := True\<rparr>]"
  note E = workers_ok_ended [OF ok i]
  have D: "workers_ok (AList.delete (ow_shard_id (go_ownership ?g)) (nd_active s)) ?gs"
    if w: "map_of (nd_active s) (ow_shard_id (go_ownership ?g)) = Some w" "sw_epoch w = ow_epoch (go_ownership ?g)" for w
  proof -
    have "sw_cancel w = i" using own w by (simp add: own_entry_def)
    then show ?thesis using workers_ok_delete [OF E w(1)] i by simp
  qed
  show ?thesis
  proof (cases "\<exists>e. err = Some e \<and> errors_is e ErrOwnershipFenceLost")
    case True
    then obtain e where e: "err = Some e" "errors_is e ErrOwnershipFenceLost" by blast
    show ?thesis
    proof (cases "map_of (nd_active s) (ow_shard_id (go_ownership ?g))")
      case None
      then show ?thesis using E e by (simp add: end_goroutine_def Let_def remove_active_shard_def)
    next
      case (Some w)
      then show ?thesis using E D [OF Some] e by (cases "sw_epoch w = ow_epoch (go_ownership ?g)")
          (simp_all add: end_goroutine_def Let_def remove_active_shard_def)
    qed
  next
    case False
    then show ?thesis using E by (auto simp: end_goroutine_def Let_def split: option.splits)
  qed
qed

lemma run_record_same: "run_record rn own r s = (x, s') \<Longrightarrow> same_workers s s'"
  by (auto simp: run_record_def advance_checkpoint_def Let_def same_workers_def at_env_def split: option.splits prod.splits sum.splits if_splits)

lemma run_single_same: "run_single_record_shard rn own es s = (x, s') \<Longrightarrow> same_workers s s'"
proof (induction rn own es s rule: run_single_record_shard.induct)
  case (5 rn own r es s)
  obtain y s1 where 1: "run_record rn own r s = (y, s1)" by fastforce
  show ?case using 5 1 run_record_same [OF 1] same_workers_trans by (cases y) auto
qed simp_all

lemma metrics_fold_same: "nd_active (foldl (\<lambda>s r. record_event_apply rn (lr_event r) s) s rs) = nd_active s \<and>
    nd_started (foldl (\<lambda>s r. record_event_apply rn (lr_event r) s) s rs) = nd_started s"
  by (induction rs arbitrary: s) simp_all

lemma run_batched_same: "run_batched_shard rn b own es s = (x, s') \<Longrightarrow> same_workers s s'"
proof (induction rn b own es s rule: run_batched_shard.induct)
  case (1 rn b own es s)
  obtain c es' where c: "collect_record_batch (rn_batch_size rn) es = (c, es')" by fastforce
  show ?case
  proof (cases c)
    case (Batch rs)
    obtain y s1 where y: "at_env (b rs own) s = (y, s1)" by fastforce
    show ?thesis
    proof (cases y)
      case (Inl e)
      then have "s' = record_event_apply_error rn (lr_event (hd rs)) s1"
        using "1.prems" c Batch y by (subst (asm) run_batched_shard.simps) simp
      then show ?thesis using at_env_same [OF y] by (simp add: same_workers_def)
    next
      case (Inr u)
      let ?s2 = "remember_checkpoint (lr_position (last rs)) (foldl (\<lambda>s r. record_event_apply rn (lr_event r) s) s1 rs)"
      have "run_batched_shard rn b own es' ?s2 = (x, s')"
        using "1.prems" c Batch y Inr by (subst (asm) run_batched_shard.simps) simp
      then have "same_workers ?s2 s'" using "1.IH" [OF c [symmetric] Batch y [symmetric] Inr] by blast
      then show ?thesis using at_env_same [OF y] metrics_fold_same [of rn s1 rs] by (simp add: same_workers_def)
    qed
  qed (use "1.prems" c in \<open>(subst (asm) run_batched_shard.simps, simp)+\<close>)
qed

text \<open>
  What happens in a node: the main loop refreshes or stops everything, a goroutine works on what it
  receives, a goroutine returns, a goroutine that lost its fence calls its stop hook. A goroutine that was cancelled returns before its shard is started
  again with the same epoch (epochs are not reused).
\<close>

inductive node_step :: "'e runner \<Rightarrow> 'e node \<Rightarrow> 'e node \<Rightarrow> bool" for rn where
  refresh: "refresh_once rn s = (r, s') \<Longrightarrow> node_step rn s s'"
| stop_all: "node_step rn s (stop_all_shards rn s)"
| works: "i < length (nd_started s) \<Longrightarrow> \<not> go_ended (nd_started s ! i) \<Longrightarrow>
    run_dynamic_shard rn (go_ownership (nd_started s ! i)) es s = (x, s') \<Longrightarrow> node_step rn s s'"
| returns: "i < length (nd_started s) \<Longrightarrow> \<not> go_ended (nd_started s ! i) \<Longrightarrow> live (nd_started s ! i) \<or> own_entry i s \<Longrightarrow>
    node_step rn s (end_goroutine rn i err s)"
| late_stop: "k \<in> set (nd_hooks s) \<Longrightarrow> node_step rn s (late_stop_hook rn k s)"

inductive node_reachable :: "'e runner \<Rightarrow> 'e node \<Rightarrow> bool" for rn where
  start: "node_reachable rn (new_node e)"
| step: "node_reachable rn s \<Longrightarrow> node_step rn s s' \<Longrightarrow> node_reachable rn s'"

lemma stop_all_ok: "node_ok s \<Longrightarrow> node_ok (stop_all_shards rn s)"
proof -
  have "node_ok s \<Longrightarrow> node_ok (foldl (\<lambda>s k. stop_shard rn k s) s ks)" for ks
    by (induction ks arbitrary: s) (simp_all add: stop_shard_ok)
  then show "node_ok s \<Longrightarrow> node_ok (stop_all_shards rn s)" by (simp add: stop_all_shards_def)
qed

lemma node_step_ok: "node_step rn s s' \<Longrightarrow> fair_order rn \<Longrightarrow> node_ok s \<Longrightarrow> node_ok s'"
proof (induction rule: node_step.induct)
  case (refresh s r s')
  then show ?case using refresh_once_ok by blast
next
  case (works i s es x s')
  then have "same_workers s s'"
    by (auto simp: run_dynamic_shard_def dest: run_single_same run_batched_same split: option.splits)
  then show ?case using works by (simp add: same_workers_def)
next
  case (returns i s err)
  then show ?case using end_goroutine_ok live_own_entry by blast
next
  case (late_stop k s)
  then show ?case by (simp add: late_stop_hook_def)
qed (rule stop_all_ok)

lemma node_reachable_ok: "node_reachable rn s \<Longrightarrow> fair_order rn \<Longrightarrow> node_ok s"
proof (induction rule: node_reachable.induct)
  case (start e) then show ?case by (simp add: new_node_def workers_ok_def)
next
  case (step s s') then show ?case using node_step_ok by blast
qed

lemma live_entry:
  assumes "node_ok u" "i < length (nd_started u)" "live (nd_started u ! i)"
  shows "\<exists>w. map_of (nd_active u) (ow_shard_id (go_ownership (nd_started u ! i))) = Some w \<and> sw_cancel w = i \<and>
      sw_epoch w = ow_epoch (go_ownership (nd_started u ! i))"
proof -
  obtain k w where w: "map_of (nd_active u) k = Some w" "sw_cancel w = i" using assms unfolding workers_ok_def by blast
  then have "entry_ok (nd_started u) k w" using assms(1) unfolding workers_ok_def by blast
  then show ?thesis using w by (auto simp: entry_ok_def)
qed

text \<open>
  Property C12. In every reachable state of a node no two live goroutines work on the same shard; and
  from every such state a refresh that reports no error leaves active exactly the shards the
  ownership store lists for the node, each with the listed epoch, and every live goroutine belongs to
  one of them.
\<close>

theorem refresh_matches_ownership:
  fixes s s' :: "'e node"
  assumes "fair_order rn" "node_reachable rn s" "refresh_once rn s = (Inr (), s')"
  shows "(\<forall>i < length (nd_started s). \<forall>j < length (nd_started s). live (nd_started s ! i) \<and> live (nd_started s ! j) \<and>
      ow_shard_id (go_ownership (nd_started s ! i)) = ow_shard_id (go_ownership (nd_started s ! j)) \<longrightarrow> i = j) \<and>
    (\<exists>owns e. rn_shards_for_node rn (rn_id rn) (nd_env s) = (Inr owns, e) \<and>
      (\<forall>k. map_option sw_epoch (map_of (nd_active s') k) = map_option ow_epoch (map_of (desired_shards owns) k)) \<and>
      (\<forall>g \<in> set (nd_started s'). live g \<longrightarrow> (\<exists>own. map_of (desired_shards owns) (ow_shard_id (go_ownership g)) = Some own \<and>
         ow_epoch own = ow_epoch (go_ownership g))))"
proof -
  have ok: "node_ok s" by (rule node_reachable_ok [OF assms(2,1)])
  have one: "i = j" if h: "i < length (nd_started s)" "j < length (nd_started s)" "live (nd_started s ! i)" "live (nd_started s ! j)"
    "ow_shard_id (go_ownership (nd_started s ! i)) = ow_shard_id (go_ownership (nd_started s ! j))" for i j
  proof -
    obtain v where v: "map_of (nd_active s) (ow_shard_id (go_ownership (nd_started s ! i))) = Some v" "sw_cancel v = i"
      using live_entry [OF ok h(1,3)] by blast
    obtain w where "map_of (nd_active s) (ow_shard_id (go_ownership (nd_started s ! j))) = Some w" "sw_cancel w = j"
      using live_entry [OF ok h(2,4)] by blast
    then show ?thesis using v h(5) by simp
  qed
  obtain owns e where R: "node_ok s'" "rn_shards_for_node rn (rn_id rn) (nd_env s) = (Inr owns, e)"
    "\<forall>k. map_option sw_epoch (map_of (nd_active s') k) = map_option ow_epoch (map_of (desired_shards owns) k)"
    using refresh_once_ok [OF assms(1) ok assms(3)] by blast
  have wanted: "\<exists>own. map_of (desired_shards owns) (ow_shard_id (go_ownership g)) = Some own \<and> ow_epoch own = ow_epoch (go_ownership g)"
    if h: "g \<in> set (nd_started s')" "live g" for g
  proof -
    obtain i where i: "i < length (nd_started s')" "g = nd_started s' ! i" using h(1) by (metis in_set_conv_nth)
    obtain w where w: "map_of (nd_active s') (ow_shard_id (go_ownership g)) = Some w" "sw_epoch w = ow_epoch (go_ownership g)"
      using live_entry [OF R(1) i(1)] h(2) i(2) by blast
    have "map_option ow_epoch (map_of (desired_shards owns) (ow_shard_id (go_ownership g))) = Some (sw_epoch w)"
      using R(3) [rule_format, of "ow_shard_id (go_ownership g)"] w(1) by simp
    then show ?thesis using w(2) by auto
  qed
  show ?thesis
  proof (intro conjI allI impI)
    show "\<exists>owns e. rn_shards_for_node rn (rn_id rn) (nd_env s) = (Inr owns, e) \<and>
      (\<forall>k. map_option sw_epoch (map_of (nd_active s') k) = map_option ow_epoch (map_of (desired_shards owns) k)) \<and>
      (\<forall>g \<in> set (nd_started s'). live g \<longrightarrow> (\<exists>own. map_of (desired_shards owns) (ow_shard_id (go_ownership g)) = Some own \<and>
         ow_epoch own = ow_epoch (go_ownership g)))"
      by (rule exI [of _ owns], rule exI [of _ e], intro conjI ballI impI) (rule R(2), rule R(3), erule (1) wanted)
  qed (use one in blast)
qed

lemma stop_all_active:
  assumes "fair_order rn" "node_ok s"
  shows "nd_active (stop_all_shards rn s) = [] \<and> (\<forall>g \<in> set (nd_started (stop_all_shards rn s)). \<not> live g)"
proof -
  let ?s = "stop_all_shards rn s"
  note U = stop_undesired [OF assms(2), where D = "\<lambda>_. True" and ks = "rn_order rn (map fst (nd_active s))" and rn = rn,
      simplified, folded stop_all_shards_def]
  have "set (rn_order rn (map fst (nd_active s))) = fst ` set (nd_active s)"
    using assms(1) by (metis fair_order_def list.set_map mset_eq_setD)
  then have n: "map_of (nd_active ?s) k = None" for k using U by (auto simp: map_of_eq_None_iff)
  have "nd_active ?s = []" using n map_of_eq_None_iff by (metis ex_in_conv image_is_empty set_empty)
  moreover have "\<not> live g" if h: "g \<in> set (nd_started ?s)" for g
  proof
    assume l: "live g"
    obtain i where "i < length (nd_started ?s)" "g = nd_started ?s ! i" using h by (metis in_set_conv_nth)
    then show False using live_entry [of ?s i] U n l by auto
  qed
  ultimately show ?thesis by blast
qed

lemma node_loop_returns:
  "fair_order rn \<Longrightarrow> node_ok s \<Longrightarrow> node_loop rn es s = (Some err, s') \<Longrightarrow>
   nd_active s' = [] \<and> (\<forall>g \<in> set (nd_started s'). \<not> live g)"
proof (induction rn es s rule: node_loop.induct)
  case (5 rn es s)
  obtain r s1 where r: "refresh_once rn s = (r, s1)" by fastforce
  have ok: "node_ok s1" using refresh_once_ok [OF "5.prems"(1,2) r] by blast
  show ?case
  proof (cases r)
    case (Inl e)
    then show ?thesis using "5.prems"(3) r stop_all_active [OF "5.prems"(1) ok] by simp
  next
    case (Inr u)
    then show ?thesis using "5.IH" [OF r [symmetric] Inr "5.prems"(1) ok] "5.prems"(3) r by simp
  qed
qed (use stop_all_active in auto)

text \<open>
  Property C34. When the first refresh of \<open>Run\<close> succeeded, a \<open>Run\<close> that returns, on whatever error or
  cancellation, leaves no shard active and no live goroutine.
\<close>

theorem run_stops_its_goroutines:
  assumes "fair_order rn" "node_reachable rn s" "refresh_once rn s = (Inr (), s1)"
    and "node_run rn es s = (Some err, s')"
  shows "nd_active s' = [] \<and> (\<forall>g \<in> set (nd_started s'). \<not> live g)"
proof -
  have "node_ok s1" using refresh_once_ok [OF assms(1) node_reachable_ok [OF assms(2,1)] assms(3)] by blast
  then show ?thesis using node_loop_returns [OF assms(1)] assms(3,4) by (simp add: node_run_def)
qed

section \<open>Two ways to lose a shard\<close>

text \<open>A small node: two shards; the log, when it is asked for shard 1, fails when the world says so.\<close>

definition two_shards :: "bool runner" where
  "two_shards = \<lparr>rn_id = 7, rn_shards_for_node = (\<lambda>n e. (Inr [\<lparr>ow_shard_id = 0, ow_node_id = 7, ow_epoch = 3\<rparr>, \<lparr>ow_shard_id = 1, ow_node_id = 7, ow_epoch = 4\<rparr>], e)),
     rn_owner_of = None, rn_tail_from = (\<lambda>p e. (if e \<and> ps_shard_id p = 1 then Inl (ErrExternal ''dial'') else Inr (), e)),
     rn_applier = None, rn_store = None, rn_metrics = None, rn_on_start = None, rn_on_stop = None,
     rn_refresh_interval = 1, rn_batch_size = 2, rn_batch_wait = 1, rn_now = (\<lambda>_. 0), rn_order = (\<lambda>xs. xs)\<rparr>"

lemmas node_defs = refresh_once_def refresh_shard_def start_shard_def stop_shard_def start_hook_def stop_hook_def
  load_shard_checkpoint_def at_env_def desired_shards_def end_goroutine_def remove_active_shard_def
  record_fencing_reject_def cancel_goroutine_def new_node_def

lemma two_shards_start:
  "refresh_once two_shards (new_node False) = (Inr (), \<lparr>nd_next = (\<lambda>_. 0),
     nd_active = [(0, \<lparr>sw_shard_id = 0, sw_epoch = 3, sw_cancel = 0\<rparr>), (1, \<lparr>sw_shard_id = 1, sw_epoch = 4, sw_cancel = 1\<rparr>)],
     nd_started = [\<lparr>go_ownership = \<lparr>ow_shard_id = 0, ow_node_id = 7, ow_epoch = 3\<rparr>, go_offset = 0, go_cancelled = False, go_ended = False\<rparr>,
       \<lparr>go_ownership = \<lparr>ow_shard_id = 1, ow_node_id = 7, ow_epoch = 4\<rparr>, go_offset = 0, go_cancelled = False, go_ended = False\<rparr>],
     nd_err_ch = [], nd_hooks = [], nd_env = False\<rparr>)"
  by (simp add: node_defs two_shards_def ebind_def ret_def Let_def, simp add: fun_eq_iff)

text \<open>
  When the first refresh fails half way, \<open>Run\<close> returns the error without stopping what it started: the
  goroutine of shard 0 goes on working.
\<close>

lemma failed_startup_leaks_goroutine:
  "\<exists>s'. node_run two_shards [] (new_node True) = (Some (ErrExternal ''dial''), s') \<and> (\<exists>g \<in> set (nd_started s'). live g)"
  by (simp add: node_run_def node_defs two_shards_def ebind_def ret_def Let_def live_def)

text \<open>
  A goroutine whose stream is closed without an error (the log's tail ended) returns nil: its shard
  stays active, and no later refresh with the same ownership starts it again.
\<close>

lemma refresh_settled:
  assumes "map_of (nd_active s) k = Some w" "sw_epoch w = ow_epoch own"
  shows "refresh_shard rn (k, own) s = (Inr (), s)"
  using assms by (simp add: refresh_shard_def)

lemma refresh_all_settled:
  "\<forall>(k, own) \<in> set es. \<exists>w. map_of (nd_active s) k = Some w \<and> sw_epoch w = ow_epoch own \<Longrightarrow> efor es (refresh_shard rn) s = (Inr (), s)"
proof (induction es)
  case (Cons e es)
  obtain k own where e: "e = (k, own)" by fastforce
  then have "refresh_shard rn e s = (Inr (), s)" using Cons.prems refresh_settled by fastforce
  then show ?case using Cons by simp
qed simp

lemma keep_desired: "\<forall>k \<in> set ks. \<not> D k \<Longrightarrow> foldl (\<lambda>s k. if D k then stop_shard rn k s else s) s ks = s"
  by (induction ks) simp_all

lemma closed_stream_stalls_shard:
  assumes o: "fair_order rn" and ok: "node_reachable rn s" and f: "refresh_once rn s = (Inr (), s1)"
    and p: "\<And>e. rn_shards_for_node rn (rn_id rn) e = (Inr owns, e)"
    and i: "i < length (nd_started s1)" "live (nd_started s1 ! i)" and k: "k = ow_shard_id (go_ownership (nd_started s1 ! i))"
  defines "s2 \<equiv> end_goroutine rn i None s1"
  shows "refresh_once rn s2 = (Inr (), s2) \<and> map_of (nd_active s2) k \<noteq> None \<and>
    (\<forall>g \<in> set (nd_started s2). ow_shard_id (go_ownership g) = k \<longrightarrow> \<not> live g)"
proof -
  note ok0 = node_reachable_ok [OF ok o]
  note R = refresh_once_ok [OF o ok0 f]
  have ok1: "node_ok s1" using R by blast
  have act: "map_option sw_epoch (map_of (nd_active s1) k) = map_option ow_epoch (map_of (desired_shards owns) k)" for k
    using R p by simp
  have same: "nd_active s2 = nd_active s1" "nd_started s2 = (nd_started s1)[i := (nd_started s1 ! i)\<lparr>go_ended := True\<rparr>]"
    by (simp_all add: s2_def end_goroutine_def Let_def)
  have ok2: "node_ok s2" unfolding s2_def by (rule end_goroutine_ok [OF ok1 i(1) live_own_entry [OF ok1 i]])
  let ?D = "desired_shards owns"
  have set: "set (rn_order rn xs) = set xs" for xs using o by (metis fair_order_def mset_eq_setD)
  have settled: "efor (map (\<lambda>k. (k, the (map_of ?D k))) (rn_order rn (map fst ?D))) (refresh_shard rn) s2 = (Inr (), s2)"
  proof (rule refresh_all_settled, clarsimp simp: set)
    fix k own assume "(k, own) \<in> set ?D"
    then have "map_of ?D k = Some own" using desired_shards_ok(1) by simp
    then show "\<exists>w. map_of (nd_active s2) k = Some w \<and> sw_epoch w = ow_epoch (the (map_of ?D k))"
      using act [of k] same(1) by auto
  qed
  have "\<forall>k \<in> set (rn_order rn (map fst (nd_active s2))). \<not> map_of ?D k = None"
  proof
    fix k assume "k \<in> set (rn_order rn (map fst (nd_active s2)))"
    then have "map_of (nd_active s1) k \<noteq> None" by (simp add: set same(1) map_of_eq_None_iff)
    then show "\<not> map_of ?D k = None" using act [of k] by (cases "map_of ?D k") auto
  qed
  then have "refresh_once rn s2 = (Inr (), s2)"
    using settled p by (simp add: refresh_once_def at_env_def ebind_def Let_def keep_desired)
  moreover have "map_of (nd_active s2) k \<noteq> None" using live_entry [OF ok1 i] same(1) k by auto
  moreover have "\<not> live g" if g: "g \<in> set (nd_started s2)" "ow_shard_id (go_ownership g) = k" for g
  proof
    assume l: "live g"
    obtain j where j: "j < length (nd_started s2)" "g = nd_started s2 ! j" using g(1) by (metis in_set_conv_nth)
    have "j \<noteq> i" using l j same(2) i(1) by (auto simp: live_def)
    obtain w where w: "map_of (nd_active s2) k = Some w" "sw_cancel w = j" using live_entry [OF ok2 j(1)] l j(2) g(2) by auto
    obtain v where "map_of (nd_active s1) k = Some v" "sw_cancel v = i" using live_entry [OF ok1 i] k by auto
    then show False using w same(1) \<open>j \<noteq> i\<close> by simp
  qed
  ultimately show ?thesis by blast
qed

section \<open>Batches\<close>

text \<open>The batches a goroutine collects, as long as the applier takes them.\<close>

function batches_of :: "int \<Rightarrow> chan_event list \<Rightarrow> log_record list list" where
  "batches_of limit es =
     (case collect_record_batch limit es of (Batch rs, es') \<Rightarrow> rs # batches_of limit es' | _ \<Rightarrow> [])"
  by pat_completeness auto
termination
  by (relation "measure (\<lambda>(_, es). length es)") (auto dest!: sym [of _ "collect_record_batch _ _"] collect_batch_length)

declare batches_of.simps [simp del]

text \<open>What the channel delivers before it is closed or the context is done.\<close>

fun received :: "chan_event list \<Rightarrow> log_record list" where
  "received [] = []"
| "received (CtxDone err # es) = []"
| "received (ChanClosed # es) = []"
| "received (TimerFired # es) = received es"
| "received (Received r # es) = r # received es"

lemma collect_more_batch:
  "collect_more limit es rs = (Batch bs, es') \<Longrightarrow> rs \<noteq> [] \<Longrightarrow>
   rs @ received es = bs @ received es' \<and> bs \<noteq> [] \<and> (int (length rs) \<le> limit \<longrightarrow> int (length bs) \<le> limit)"
  by (induction limit es rs rule: collect_more.induct) (auto split: if_splits chan_event.splits)

lemma collect_batch:
  "collect_record_batch limit es = (Batch bs, es') \<Longrightarrow> 0 < limit \<Longrightarrow>
   received es = bs @ received es' \<and> bs \<noteq> [] \<and> int (length bs) \<le> limit"
proof (induction limit es rule: collect_record_batch.induct)
  case (5 limit r es)
  then show ?case using collect_more_batch [of limit es "[r]" bs es'] by simp
qed simp_all

text \<open>Nothing is left behind when the channel is closed after the records, or a timer follows them.\<close>

definition closes :: "chan_event list \<Rightarrow> bool" where
  "closes es \<longleftrightarrow> ChanClosed \<in> set es \<and> (\<forall>err. CtxDone err \<notin> set es)"

lemma collect_more_closed:
  "collect_more limit es rs = (c, es') \<Longrightarrow> closes es \<Longrightarrow> (\<exists>bs. c = Batch bs) \<and> closes es'"
  by (induction limit es rs rule: collect_more.induct) (auto simp: closes_def split: if_splits chan_event.splits)

lemma collect_batch_closed:
  "collect_record_batch limit es = (c, es') \<Longrightarrow> closes es \<Longrightarrow>
   (c = NotOpen \<and> received es = []) \<or> (\<exists>bs. c = Batch bs) \<and> closes es'"
proof (induction limit es rule: collect_record_batch.induct)
  case (5 limit r es)
  then have "closes es" by (auto simp: closes_def)
  then show ?case using collect_more_closed [of limit es "[r]" c es'] "5.prems" by simp
qed (auto simp: closes_def)

lemma batches_prefix:
  "0 < limit \<Longrightarrow> \<exists>rest. received es = concat (batches_of limit es) @ rest \<and> (closes es \<longrightarrow> rest = []) \<and>
     (\<forall>b \<in> set (batches_of limit es). b \<noteq> [] \<and> int (length b) \<le> limit)"
proof (induction limit es rule: batches_of.induct)
  case (1 limit es)
  obtain c es' where c: "collect_record_batch limit es = (c, es')" by fastforce
  show ?case
  proof (cases "\<exists>bs. c = Batch bs")
    case True
    then obtain bs where bs: "c = Batch bs" by blast
    obtain rest where r: "received es' = concat (batches_of limit es') @ rest" "closes es' \<longrightarrow> rest = []"
      "\<forall>b \<in> set (batches_of limit es'). b \<noteq> [] \<and> int (length b) \<le> limit"
      using "1.IH" [OF c [symmetric] bs "1.prems"] by blast
    have e: "batches_of limit es = bs # batches_of limit es'" using c bs by (subst batches_of.simps) simp
    have cb: "received es = bs @ received es'" "bs \<noteq> []" "int (length bs) \<le> limit"
      using collect_batch [of limit es bs es'] c bs "1.prems" by simp_all
    have "closes es \<longrightarrow> closes es'" using collect_batch_closed [OF c] bs by auto
    then show ?thesis using r cb by (intro exI [of _ rest]) (auto simp: e)
  next
    case False
    then have e: "batches_of limit es = []" using c by (subst batches_of.simps) (cases c, simp_all)
    have "closes es \<longrightarrow> received es = []" using collect_batch_closed [OF c] False by blast
    then show ?thesis by (simp add: e)
  qed
qed

text \<open>The same node when its applier takes single records only.\<close>

definition without_batch :: "'e runner \<Rightarrow> 'e runner" where
  "without_batch rn = rn\<lparr>rn_applier := map_option (\<lambda>ap. ap\<lparr>ra_batch := None\<rparr>) (rn_applier rn)\<rparr>"

lemma run_single_append:
  "run_single_record_shard rn own (map Received (xs @ ys)) s = (None, s') \<longleftrightarrow>
   (\<exists>s1. run_single_record_shard rn own (map Received xs) s = (None, s1) \<and> run_single_record_shard rn own (map Received ys) s1 = (None, s'))"
  by (induction xs arbitrary: s) (auto split: prod.splits sum.splits)

lemma run_single_records:
  assumes ap: "rn_applier rn = Some ap" "ra_record ap = Some f" "rn_metrics rn = None"
  shows "\<forall>r \<in> set rs. ps_shard_id (lr_position r) = k \<Longrightarrow> run_single_record_shard rn own (map Received rs) s = (None, s1) \<Longrightarrow>
    \<exists>e. efor rs (\<lambda>r. f r own) (nd_env s) = (Inr (), e) \<and>
      s1 = (if rs = [] then s else remember_checkpoint (lr_position (last rs)) (s\<lparr>nd_env := e\<rparr>))"
proof (induction rs arbitrary: s)
  case (Cons r rs)
  obtain x e where f: "f r own (nd_env s) = (x, e)" by fastforce
  have run: "run_record rn own r s = (case x of Inl err \<Rightarrow> (Inl err, s\<lparr>nd_env := e\<rparr>)
      | Inr _ \<Rightarrow> (Inr (), remember_checkpoint (lr_position r) (s\<lparr>nd_env := e\<rparr>)))"
    using ap f by (simp add: run_record_def at_env_def runner_apply_record_def ebind_def ret_def record_event_apply_def
        record_event_apply_error_def Let_def split: sum.splits)
  then obtain u where x: "x = Inr u" using Cons.prems(2) by (cases x) simp_all
  let ?s = "remember_checkpoint (lr_position r) (s\<lparr>nd_env := e\<rparr>)"
  have "run_single_record_shard rn own (map Received rs) ?s = (None, s1)" using Cons.prems(2) run x by simp
  moreover have "\<forall>r \<in> set rs. ps_shard_id (lr_position r) = k" using Cons.prems(1) by simp
  ultimately obtain e1 where I: "efor rs (\<lambda>r. f r own) (nd_env ?s) = (Inr (), e1)"
    "s1 = (if rs = [] then ?s else remember_checkpoint (lr_position (last rs)) (?s\<lparr>nd_env := e1\<rparr>))"
    using Cons.IH [of ?s] by auto
  show ?case
  proof (cases "rs = []")
    case True
    then show ?thesis using I f x by simp
  next
    case False
    then have "ps_shard_id (lr_position (last rs)) = ps_shard_id (lr_position r)" using Cons.prems(1) last_in_set by (metis list.set_intros)
    then show ?thesis using I f x False by (simp add: remember_checkpoint_def)
  qed
qed simp

lemma run_batched_records:
  assumes ap: "rn_applier rn' = Some ap" "ra_record ap = Some f" "rn_metrics rn' = None"
  shows "rn_metrics rn = None \<Longrightarrow> 0 < rn_batch_size rn \<Longrightarrow>
    \<forall>r \<in> set (concat (batches_of (rn_batch_size rn) es)). ps_shard_id (lr_position r) = k \<Longrightarrow>
    run_single_record_shard rn' own (map Received (concat (batches_of (rn_batch_size rn) es))) s = (None, s1) \<Longrightarrow>
    b = (\<lambda>rs own. efor rs (\<lambda>r. f r own)) \<Longrightarrow> snd (run_batched_shard rn b own es s) = s1"
proof (induction rn b own es s rule: run_batched_shard.induct)
  case (1 rn b own es s)
  obtain c es' where c: "collect_record_batch (rn_batch_size rn) es = (c, es')" by fastforce
  show ?case
  proof (cases "\<exists>bs. c = Batch bs")
    case False
    then have "batches_of (rn_batch_size rn) es = []" using c by (subst batches_of.simps) (cases c, simp_all)
    then have "s1 = s" using "1.prems"(4) by simp
    moreover have "snd (run_batched_shard rn b own es s) = s" using c False by (subst run_batched_shard.simps) (cases c, simp_all)
    ultimately show ?thesis by simp
  next
    case True
    then obtain bs where bs: "c = Batch bs" by blast
    have e: "batches_of (rn_batch_size rn) es = bs # batches_of (rn_batch_size rn) es'" using c bs by (subst batches_of.simps) simp
    have ne: "bs \<noteq> []" using collect_batch c bs "1.prems"(2) by blast
    obtain s0 where s0: "run_single_record_shard rn' own (map Received bs) s = (None, s0)"
      "run_single_record_shard rn' own (map Received (concat (batches_of (rn_batch_size rn) es'))) s0 = (None, s1)"
      using "1.prems"(4) e by (auto simp only: concat.simps run_single_append)
    have ks: "\<forall>r \<in> set bs. ps_shard_id (lr_position r) = k" using "1.prems"(3) e by simp
    obtain e1 where e1: "efor bs (\<lambda>r. f r own) (nd_env s) = (Inr (), e1)"
      "s0 = remember_checkpoint (lr_position (last bs)) (s\<lparr>nd_env := e1\<rparr>)"
      using run_single_records [OF ap ks s0(1)] ne by auto
    have m: "foldl (\<lambda>s r. record_event_apply rn (lr_event r) s) u rs = u" for u and rs :: "log_record list"
      using "1.prems"(1) by (induction rs) (simp_all add: record_event_apply_def)
    have a: "at_env (b bs own) s = (Inr (), s\<lparr>nd_env := e1\<rparr>)" using "1.prems"(5) e1(1) by (simp add: at_env_def)
    have st: "run_batched_shard rn b own es s = run_batched_shard rn b own es' s0"
      using c bs a by (subst run_batched_shard.simps) (simp add: m e1(2))
    have "snd (run_batched_shard rn b own es' (remember_checkpoint (lr_position (last bs))
        (foldl (\<lambda>s r. record_event_apply rn (lr_event r) s) (s\<lparr>nd_env := e1\<rparr>) bs))) = s1"
      by (rule "1.IH" [OF c [symmetric] bs a [symmetric] refl "1.prems"(1,2)]) (use "1.prems"(3,5) e s0(2) e1(2) m in auto)
    then show ?thesis using st e1(2) m by simp
  qed
qed

text \<open>
  Batching is transparent to an applier whose batch is its single records in order: whatever the batch
  limit and wherever the timer fires, the goroutine collects batches of one to the limit's records that
  are, put together, the records received in their order, and ends in the state of the goroutine that
  takes the same records one by one. The Postgres applier, with its one transaction for a batch, is
  treated with the node program.
\<close>

lemma batches_like_records:
  assumes "rn_applier rn = Some ap" "ra_record ap = Some f" "ra_batch ap = Some (\<lambda>rs own. efor rs (\<lambda>r. f r own))"
    and "rn_metrics rn = None" "0 < rn_batch_size rn" "\<forall>r \<in> set (received es). ps_shard_id (lr_position r) = k"
    and "run_dynamic_shard (without_batch rn) own (map Received (concat (batches_of (rn_batch_size rn) es))) s = (None, s1)"
  shows "snd (run_dynamic_shard rn own es s) = s1 \<and>
    (\<forall>b \<in> set (batches_of (rn_batch_size rn) es). b \<noteq> [] \<and> int (length b) \<le> rn_batch_size rn) \<and>
    (\<exists>rest. received es = concat (batches_of (rn_batch_size rn) es) @ rest \<and> (closes es \<longrightarrow> rest = []))"
proof -
  let ?rn = "without_batch rn" and ?bs = "batches_of (rn_batch_size rn) es"
  obtain rest where r: "received es = concat ?bs @ rest" "closes es \<longrightarrow> rest = []"
    "\<forall>b \<in> set ?bs. b \<noteq> [] \<and> int (length b) \<le> rn_batch_size rn"
    using batches_prefix [OF assms(5)] by blast
  have w: "rn_applier ?rn = Some (ap\<lparr>ra_batch := None\<rparr>)" "ra_record (ap\<lparr>ra_batch := None\<rparr>) = Some f" "rn_metrics ?rn = None"
    using assms(1,2,4) by (simp_all add: without_batch_def)
  have single: "run_single_record_shard ?rn own (map Received (concat ?bs)) s = (None, s1)"
    using assms(7) w(1) by (simp add: run_dynamic_shard_def)
  have "\<forall>r \<in> set (concat ?bs). ps_shard_id (lr_position r) = k" using assms(6) r(1) by auto
  then have "snd (run_batched_shard rn (\<lambda>rs own. efor rs (\<lambda>r. f r own)) own es s) = s1"
    by (rule run_batched_records [OF w assms(4,5) _ single refl])
  then show ?thesis using r assms(1,3) by (auto simp: run_dynamic_shard_def)
qed

section \<open>Handing a shard over\<close>

definition checkpoint_after :: "'e runner \<Rightarrow> ownership \<Rightarrow> log_record \<Rightarrow> 'e \<Rightarrow> shard_checkpoint" where
  "checkpoint_after rn own r e = \<lparr>sc_shard_id = ps_shard_id (lr_position r), sc_offset = wrap64 (ps_offset (lr_position r) + 1),
     sc_epoch = ow_epoch own, sc_node_id = rn_id rn, sc_updated_at = rn_now rn e\<rparr>"

text \<open>The stored checkpoint is that of record \<open>r\<close>, or of an owner with a newer epoch.\<close>

definition stored_at :: "(int \<rightharpoonup> shard_checkpoint) \<Rightarrow> ownership \<Rightarrow> log_record \<Rightarrow> bool" where
  "stored_at v own r \<longleftrightarrow> (\<exists>c. v (ps_shard_id (lr_position r)) = Some c \<and>
     (sc_epoch c = ow_epoch own \<and> sc_offset c = wrap64 (ps_offset (lr_position r) + 1) \<or> ow_epoch own < sc_epoch c))"

lemma run_record_stores:
  assumes S: "checkpoint_store st view (\<lambda>_. True) key_ok val_ok nrm" and rn: "rn_store rn = Some st"
    and ap: "rn_applier rn = Some ap" "ra_record ap = None"
    and v: "\<And>e. val_ok (checkpoint_after rn own r e)" and run: "run_record rn own r s = (Inr (), s')"
  shows "stored_at (view (nd_env s')) own r"
proof -
  obtain x s1 where a: "at_env (runner_apply_record rn ap r own) s = (x, s1)" by fastforce
  then obtain u where x: "x = Inr u" using run ap(1) by (cases x) (simp_all add: run_record_def)
  have "\<not> u"
    using a x ap(2) by (auto simp: runner_apply_record_def at_env_def ebind_def ret_def split: prod.splits sum.splits)
  let ?s2 = "record_event_apply rn (lr_event r) s1"
  let ?c = "checkpoint_after rn own r (nd_env ?s2)"
  obtain y e where sv: "cs_save st ?c (nd_env ?s2) = (y, e)" by fastforce
  have y: "y = Inr ()" and e: "nd_env s' = e"
    using run ap(1) a x \<open>\<not> u\<close> rn sv by (auto simp: run_record_def advance_checkpoint_def Let_def at_env_def checkpoint_after_def)
  have "view e = (view (nd_env ?s2))(sc_shard_id ?c \<mapsto> nrm ?c) \<or>
      view e = view (nd_env ?s2) \<and> (\<exists>old. view (nd_env ?s2) (sc_shard_id ?c) = Some old \<and> sc_epoch ?c < sc_epoch old)"
    using checkpoint_store.save [OF S TrueI v sv [unfolded y]] by blast
  then show ?thesis using checkpoint_store.norm [OF S, of ?c] e by (auto simp: stored_at_def checkpoint_after_def)
qed

lemma run_single_stores:
  assumes S: "checkpoint_store st view (\<lambda>_. True) key_ok val_ok nrm" and rn: "rn_store rn = Some st"
    and ap: "rn_applier rn = Some ap" "ra_record ap = None"
  shows "\<forall>r \<in> set rs. \<forall>e. val_ok (checkpoint_after rn own r e) \<Longrightarrow> rs \<noteq> [] \<Longrightarrow>
    run_single_record_shard rn own (map Received rs) s = (None, s') \<Longrightarrow> stored_at (view (nd_env s')) own (last rs)"
proof (induction rs arbitrary: s)
  case (Cons r rs)
  obtain x s1 where r: "run_record rn own r s = (x, s1)" by fastforce
  then obtain u where x: "x = Inr u" using Cons.prems(3) by (cases x) simp_all
  have rest: "run_single_record_shard rn own (map Received rs) s1 = (None, s')" using Cons.prems(3) r x by simp
  show ?case
  proof (cases "rs = []")
    case True
    then show ?thesis using run_record_stores [OF S rn ap _ r [unfolded x, simplified]] Cons.prems(1) rest by simp
  next
    case False
    then show ?thesis using Cons.IH [OF _ False rest] Cons.prems(1) by simp
  qed
qed simp

text \<open>Where a started goroutine begins.\<close>

lemma start_shard_offset:
  assumes "start_shard rn own s = (Inr (), s')"
  shows "\<exists>s1. load_shard_checkpoint rn (ow_shard_id own) s = (Inr (go_offset (last (nd_started s'))), s1)"
proof -
  let ?k = "ow_shard_id own"
  obtain r1 s1 where l: "load_shard_checkpoint rn ?k s = (r1, s1)" by fastforce
  then obtain off where o: "r1 = Inr off" using assms by (cases r1) (simp_all add: start_shard_def Let_def)
  obtain r2 s2 where h: "start_hook rn ?k s1 = (r2, s2)" by fastforce
  then obtain u where h2: "r2 = Inr u" using assms l o by (cases r2) (simp_all add: start_shard_def Let_def)
  obtain r3 s3 where t: "at_env (rn_tail_from rn \<lparr>ps_shard_id = ?k, ps_offset = off\<rparr>) (s2\<lparr>nd_next := (nd_next s2)(?k := off)\<rparr>) = (r3, s3)"
    by fastforce
  then obtain v where "r3 = Inr v" using assms l o h h2 by (cases r3) (simp_all add: start_shard_def Let_def)
  then have "go_offset (last (nd_started s')) = off" using assms l o h h2 t by (auto simp: start_shard_def Let_def)
  then show ?thesis using l o by simp
qed

text \<open>
  Property C13. A shard that changes hands goes on where it was: when a node has handled the records
  \<open>rs\<close> of a shard, saving its checkpoint in a store that keeps the contract, a node that starts the
  shard from the same store begins right after the last of them, unless a newer owner has moved the
  checkpoint since.
\<close>

theorem takeover_resumes:
  assumes "checkpoint_store st view (\<lambda>_. True) key_ok val_ok nrm" "rn_store rn = Some st" "rn_store rn2 = Some st"
    and "rn_applier rn = Some ap" "ra_record ap = None" "ra_batch ap = None"
    and "\<forall>r \<in> set rs. ps_shard_id (lr_position r) = k \<and> (\<forall>e. val_ok (checkpoint_after rn own r e))" "rs \<noteq> []"
    and "run_dynamic_shard rn own (map Received rs) s = (None, s1)"
    and "view (nd_env s2) = view (nd_env s1)" "ow_shard_id own2 = k" "start_shard rn2 own2 s2 = (Inr (), s3)"
  shows "go_offset (last (nd_started s3)) = wrap64 (ps_offset (lr_position (last rs)) + 1) \<or>
    (\<exists>c. view (nd_env s2) k = Some c \<and> ow_epoch own < sc_epoch c \<and> go_offset (last (nd_started s3)) = sc_offset c)"
proof -
  have run: "run_single_record_shard rn own (map Received rs) s = (None, s1)"
    using assms(4,6,9) by (simp add: run_dynamic_shard_def)
  have k: "ps_shard_id (lr_position (last rs)) = k" using assms(7,8) by simp
  have st: "stored_at (view (nd_env s1)) own (last rs)"
    by (rule run_single_stores [OF assms(1,2,4,5) _ assms(8) run]) (use assms(7) in blast)
  then obtain c where c: "view (nd_env s2) k = Some c"
    "sc_epoch c = ow_epoch own \<and> sc_offset c = wrap64 (ps_offset (lr_position (last rs)) + 1) \<or> ow_epoch own < sc_epoch c"
    using assms(10) k by (auto simp: stored_at_def)
  obtain r where r: "r \<in> set rs" using assms(8) by (cases rs) auto
  have key: "key_ok k" using checkpoint_store.val_key [OF assms(1)] assms(7) r by (force simp: checkpoint_after_def)
  obtain s4 where l: "load_shard_checkpoint rn2 k s2 = (Inr (go_offset (last (nd_started s3))), s4)"
    using start_shard_offset [OF assms(12)] assms(11) by blast
  obtain x e where ld: "cs_load st k (nd_env s2) = (x, e)" by fastforce
  then obtain y where y: "x = Inr y" using l assms(3) by (cases x) (simp_all add: load_shard_checkpoint_def Let_def at_env_def ebind_def)
  have "y = Some c" using checkpoint_store.load [OF assms(1) TrueI key] ld y c(1) by simp
  then have "go_offset (last (nd_started s3)) = sc_offset c"
    using l ld y assms(3) by (simp add: load_shard_checkpoint_def Let_def at_env_def ebind_def ret_def)
  then show ?thesis using c by auto
qed

section \<open>A concrete node\<close>

text \<open>The world is a memory checkpoint store and the list of the applied records.\<close>

type_synonym tiny_world = "memory_checkpoints \<times> log_record list"

definition tiny_store :: "tiny_world cp_ops" where
  "tiny_store = \<lparr>cs_save = (\<lambda>c (m, l). case memory_save_checkpoint None c m of (x, m') \<Rightarrow> (x, (m', l))),
     cs_load = (\<lambda>k (m, l). case memory_load_checkpoint None k m of (x, m') \<Rightarrow> (x, (m', l)))\<rparr>"

lemma tiny_store_ok: "checkpoint_store tiny_store fst (\<lambda>_. True) (\<lambda>_. True) (\<lambda>_. True) (\<lambda>c. c)"
  by unfold_locales
     (auto simp: tiny_store_def memory_save_checkpoint_def memory_load_checkpoint_def split: prod.splits)

definition tiny_record :: "int \<Rightarrow> log_record" where
  "tiny_record n = \<lparr>lr_position = \<lparr>ps_shard_id = 1, ps_offset = n\<rparr>, lr_event = small_event\<rparr>"

definition tiny_own :: ownership where
  "tiny_own = \<lparr>ow_shard_id = 1, ow_node_id = 7, ow_epoch = 3\<rparr>"

definition tiny_node :: "tiny_world record_applier \<Rightarrow> tiny_world runner" where
  "tiny_node ap = \<lparr>rn_id = 7, rn_shards_for_node = (\<lambda>n e. (Inr [tiny_own], e)),
     rn_owner_of = None, rn_tail_from = (\<lambda>p e. (Inr (), e)), rn_applier = Some ap, rn_store = Some tiny_store, rn_metrics = None,
     rn_on_start = None, rn_on_stop = None, rn_refresh_interval = 1, rn_batch_size = 2, rn_batch_wait = 1, rn_now = (\<lambda>_. 0),
     rn_order = (\<lambda>xs. xs)\<rparr>"

definition single_applier :: "tiny_world record_applier" where
  "single_applier = \<lparr>ra_apply = (\<lambda>ev. ret ()), ra_fenced = None, ra_record = None, ra_batch = None\<rparr>"

lemma tiny_fair: "fair_order (tiny_node ap)" by (simp add: fair_order_def tiny_node_def)

lemma two_shards_fair: "fair_order two_shards" by (simp add: fair_order_def two_shards_def)

theorem refresh_matches_ownership_witness:
  "\<exists>s'. refresh_once two_shards (new_node False) = (Inr (), s') \<and>
     (\<forall>k. map_option sw_epoch (map_of (nd_active s') k) =
       map_option ow_epoch (map_of (desired_shards [\<lparr>ow_shard_id = 0, ow_node_id = 7, ow_epoch = 3\<rparr>, \<lparr>ow_shard_id = 1, ow_node_id = 7, ow_epoch = 4\<rparr>]) k))"
  using refresh_matches_ownership [OF two_shards_fair node_reachable.start two_shards_start] two_shards_start
  by (auto simp: two_shards_def new_node_def)

theorem run_stops_its_goroutines_witness:
  "\<exists>s'. node_run two_shards [LoopTick, LoopError (Some (ErrExternal ''disk''))] (new_node False) = (Some (ErrExternal ''disk''), s') \<and>
     nd_active s' = [] \<and> (\<forall>g \<in> set (nd_started s'). \<not> live g)"
proof -
  obtain s' where r: "node_run two_shards [LoopTick, LoopError (Some (ErrExternal ''disk''))] (new_node False) = (Some (ErrExternal ''disk''), s')"
    unfolding node_run_def two_shards_start
    by (simp add: node_defs two_shards_def ebind_def ret_def Let_def stop_all_shards_def)
  show ?thesis using run_stops_its_goroutines [OF two_shards_fair node_reachable.start two_shards_start r] r by blast
qed

text \<open>Node 7 has handled records 0 and 1 of shard 1; a fresh node starts at 2.\<close>

theorem takeover_resumes_witness:
  "\<exists>s1 s3. run_dynamic_shard (tiny_node single_applier) tiny_own (map Received [tiny_record 0, tiny_record 1]) (new_node (Map.empty, [])) = (None, s1) \<and>
     start_shard (tiny_node single_applier) (tiny_own\<lparr>ow_epoch := 4\<rparr>) (new_node (nd_env s1)) = (Inr (), s3) \<and>
     go_offset (last (nd_started s3)) = 2"
proof -
  obtain s1 where s1: "run_dynamic_shard (tiny_node single_applier) tiny_own (map Received [tiny_record 0, tiny_record 1]) (new_node (Map.empty, [])) = (None, s1)"
    and v: "\<exists>c. fst (nd_env s1) 1 = Some c \<and> sc_epoch c = 3"
    by (simp add: run_dynamic_shard_def tiny_node_def single_applier_def run_record_def runner_apply_record_def runner_apply_event_def
        check_shard_fence_def at_env_def ebind_def ret_def record_event_apply_def new_node_def Let_def advance_checkpoint_def tiny_store_def
        memory_save_checkpoint_def tiny_record_def tiny_own_def)
  obtain s3 where s3: "start_shard (tiny_node single_applier) (tiny_own\<lparr>ow_epoch := 4\<rparr>) (new_node (nd_env s1)) = (Inr (), s3)"
    by (cases "nd_env s1") (simp add: node_defs tiny_node_def ebind_def ret_def Let_def tiny_store_def memory_load_checkpoint_def)
  have "go_offset (last (nd_started s3)) = wrap64 (ps_offset (lr_position (last [tiny_record 0, tiny_record 1])) + 1) \<or>
    (\<exists>c. fst (nd_env (new_node (nd_env s1))) 1 = Some c \<and> ow_epoch tiny_own < sc_epoch c \<and> go_offset (last (nd_started s3)) = sc_offset c)"
    by (rule takeover_resumes [where ap = single_applier, OF tiny_store_ok _ _ _ _ _ _ _ s1 _ _ s3])
       (simp_all add: tiny_node_def single_applier_def tiny_record_def tiny_own_def new_node_def)
  then show ?thesis using s1 s3 v by (auto simp: new_node_def tiny_own_def tiny_record_def wrap64_def)
qed

end
