(* ===== verification/Metrics.thy ===== *)
theory Metrics
  imports Model "HOL-Library.Sublist"
begin

text \<open>
  The metrics (\<open>internal/metrics\<close>): the interface \<open>Recorder\<close>, whose calls are the values of
  \<open>measurement\<close>, and its two implementations \<open>NoopRecorder\<close> and \<open>PrometheusRecorder\<close>. The client
  library that keeps the vectors is a parameter with its documented laws; the HTTP server that
  exposes them is not modelled.
\<close>

section \<open>The interface\<close>

datatype measurement =
    SetNodeOwnedShards int int
  | SetNodeSubmitted int int
  | SetNodeMatched int int
  | SetNodeMissed int int
  | SetNodeOnlineRiders int int
  | SetShardCheckpointOffset int int int
  | SetShardEventLogOffset int int int
  | SetShardLag int int int
  | SetShardEpoch int int int
  | IncEventApply int int string
  | IncEventApplyError int int string
  | IncFencingReject int int
  | SetControllerLeader string bool
  | IncControllerSweep string
  | IncControllerSweepError string string
  | IncFailover string int
  | SetAliveNodes string int
  | SetOwnedShards string int
  | SetShardsWithoutOwner string int
  | IncProducerEvent string int
  | IncProducerError string

type_synonym 'p recorder = "measurement \<Rightarrow> 'p \<Rightarrow> 'p"

definition noop_recorder :: "'p recorder" where
  "noop_recorder m p = p"

section \<open>Prometheus\<close>

text \<open>The fields of \<open>PrometheusRecorder\<close>, one vector each, with the options \<open>NewPrometheusRecorder\<close> gives them.\<close>

datatype metric =
    NodeOwnedShards | NodeSubmitted | NodeMatched | NodeMissed | NodeOnlineRiders
    | ShardCheckpointOffset | ShardEventLogOffset | ShardLag | ShardEpoch | EventApplies
    | EventApplyErrors | FencingRejects | ControllerLeader | ControllerSweeps
    | ControllerSweepErrors | Failovers | AliveNodes | OwnedShards | ShardsWithoutOwner
    | ProducerEvents | ProducerErrors

datatype metric_kind = Gauge | Counter

record metric_desc =
  md_kind :: metric_kind
  md_name :: string
  md_labels :: "string list"

fun desc_of :: "metric \<Rightarrow> metric_desc" where
  "desc_of NodeOwnedShards = \<lparr>md_kind = Gauge, md_name = ''testp_node_owned_shards'', md_labels = [''node_id'']\<rparr>"
| "desc_of NodeSubmitted = \<lparr>md_kind = Gauge, md_name = ''testp_node_submitted_total'', md_labels = [''node_id'']\<rparr>"
| "desc_of NodeMatched = \<lparr>md_kind = Gauge, md_name = ''testp_node_matched_total'', md_labels = [''node_id'']\<rparr>"
| "desc_of NodeMissed = \<lparr>md_kind = Gauge, md_name = ''testp_node_missed_total'', md_labels = [''node_id'']\<rparr>"
| "desc_of NodeOnlineRiders = \<lparr>md_kind = Gauge, md_name = ''testp_node_online_riders'', md_labels = [''node_id'']\<rparr>"
| "desc_of ShardCheckpointOffset = \<lparr>md_kind = Gauge, md_name = ''testp_shard_checkpoint_offset'', md_labels = [''node_id'', ''shard_id'']\<rparr>"
| "desc_of ShardEventLogOffset = \<lparr>md_kind = Gauge, md_name = ''testp_shard_eventlog_offset'', md_labels = [''node_id'', ''shard_id'']\<rparr>"
| "desc_of ShardLag = \<lparr>md_kind = Gauge, md_name = ''testp_shard_lag'', md_labels = [''node_id'', ''shard_id'']\<rparr>"
| "desc_of ShardEpoch = \<lparr>md_kind = Gauge, md_name = ''testp_shard_epoch'', md_labels = [''node_id'', ''shard_id'']\<rparr>"
| "desc_of EventApplies = \<lparr>md_kind = Counter, md_name = ''testp_event_apply_total'', md_labels = [''node_id'', ''shard_id'', ''event_type'']\<rparr>"
| "desc_of EventApplyErrors = \<lparr>md_kind = Counter, md_name = ''testp_event_apply_errors_total'', md_labels = [''node_id'', ''shard_id'', ''event_type'']\<rparr>"
| "desc_of FencingRejects = \<lparr>md_kind = Counter, md_name = ''testp_fencing_reject_total'', md_labels = [''node_id'', ''shard_id'']\<rparr>"
| "desc_of ControllerLeader = \<lparr>md_kind = Gauge, md_name = ''testp_controller_leader'', md_labels = [''controller_id'']\<rparr>"
| "desc_of ControllerSweeps = \<lparr>md_kind = Counter, md_name = ''testp_controller_sweep_total'', md_labels = [''controller_id'']\<rparr>"
| "desc_of ControllerSweepErrors = \<lparr>md_kind = Counter, md_name = ''testp_controller_sweep_errors_total'', md_labels = [''controller_id'', ''reason'']\<rparr>"
| "desc_of Failovers = \<lparr>md_kind = Counter, md_name = ''testp_failover_total'', md_labels = [''controller_id'', ''dead_node_id'']\<rparr>"
| "desc_of AliveNodes = \<lparr>md_kind = Gauge, md_name = ''testp_alive_nodes'', md_labels = [''controller_id'']\<rparr>"
| "desc_of OwnedShards = \<lparr>md_kind = Gauge, md_name = ''testp_owned_shards_total'', md_labels = [''controller_id'']\<rparr>"
| "desc_of ShardsWithoutOwner = \<lparr>md_kind = Gauge, md_name = ''testp_shards_without_owner'', md_labels = [''controller_id'']\<rparr>"
| "desc_of ProducerEvents = \<lparr>md_kind = Counter, md_name = ''testp_producer_events_total'', md_labels = [''event_type'', ''shard_id'']\<rparr>"
| "desc_of ProducerErrors = \<lparr>md_kind = Counter, md_name = ''testp_producer_errors_total'', md_labels = [''reason'']\<rparr>"

text \<open>The order in which they are registered.\<close>

definition all_metrics :: "metric list" where
  "all_metrics =
    [NodeOwnedShards, NodeSubmitted, NodeMatched, NodeMissed, NodeOnlineRiders
     , ShardCheckpointOffset, ShardEventLogOffset, ShardLag, ShardEpoch, EventApplies
     , EventApplyErrors, FencingRejects, ControllerLeader, ControllerSweeps, ControllerSweepErrors
     , Failovers, AliveNodes, OwnedShards, ShardsWithoutOwner, ProducerEvents, ProducerErrors]"

datatype sample_op = SetTo int | Incr

fun op_kind :: "sample_op \<Rightarrow> metric_kind" where
  "op_kind (SetTo v) = Gauge"
| "op_kind Incr = Counter"

text \<open>Each method: its vector, the label values, and \<open>Set\<close> or \<open>Inc\<close>.\<close>

fun prometheus_call :: "measurement \<Rightarrow> metric \<times> string list \<times> sample_op" where
  "prometheus_call (SetNodeOwnedShards n amount) = (NodeOwnedShards, [itoa n], SetTo (f64_of_int amount))"
| "prometheus_call (SetNodeSubmitted n value) = (NodeSubmitted, [itoa n], SetTo (f64_of_int value))"
| "prometheus_call (SetNodeMatched n value) = (NodeMatched, [itoa n], SetTo (f64_of_int value))"
| "prometheus_call (SetNodeMissed n value) = (NodeMissed, [itoa n], SetTo (f64_of_int value))"
| "prometheus_call (SetNodeOnlineRiders n value) = (NodeOnlineRiders, [itoa n], SetTo (f64_of_int value))"
| "prometheus_call (SetShardCheckpointOffset n k offset) = (ShardCheckpointOffset, [itoa n, itoa k], SetTo (f64_of_int offset))"
| "prometheus_call (SetShardEventLogOffset n k offset) = (ShardEventLogOffset, [itoa n, itoa k], SetTo (f64_of_int offset))"
| "prometheus_call (SetShardLag n k lag) = (ShardLag, [itoa n, itoa k], SetTo (f64_of_int lag))"
| "prometheus_call (SetShardEpoch n k epoch) = (ShardEpoch, [itoa n, itoa k], SetTo (f64_of_int epoch))"
| "prometheus_call (IncEventApply n k t) = (EventApplies, [itoa n, itoa k, t], Incr)"
| "prometheus_call (IncEventApplyError n k t) = (EventApplyErrors, [itoa n, itoa k, t], Incr)"
| "prometheus_call (IncFencingReject n k) = (FencingRejects, [itoa n, itoa k], Incr)"
| "prometheus_call (SetControllerLeader c leader) = (ControllerLeader, [c], SetTo (if leader then 1 else 0))"
| "prometheus_call (IncControllerSweep c) = (ControllerSweeps, [c], Incr)"
| "prometheus_call (IncControllerSweepError c reason) = (ControllerSweepErrors, [c, reason], Incr)"
| "prometheus_call (IncFailover c d) = (Failovers, [c, itoa d], Incr)"
| "prometheus_call (SetAliveNodes c amount) = (AliveNodes, [c], SetTo (f64_of_int amount))"
| "prometheus_call (SetOwnedShards c amount) = (OwnedShards, [c], SetTo (f64_of_int amount))"
| "prometheus_call (SetShardsWithoutOwner c amount) = (ShardsWithoutOwner, [c], SetTo (f64_of_int amount))"
| "prometheus_call (IncProducerEvent t k) = (ProducerEvents, [t, itoa k], Incr)"
| "prometheus_call (IncProducerError reason) = (ProducerErrors, [reason], Incr)"

text \<open>The client: registering and sampling may panic (\<open>None\<close>).\<close>

record 'p prom_client =
  pm_register :: "metric_desc \<Rightarrow> 'p \<Rightarrow> 'p option"
  pm_sample :: "string \<Rightarrow> string list \<Rightarrow> sample_op \<Rightarrow> 'p \<Rightarrow> 'p option"

fun must_register :: "'p prom_client \<Rightarrow> metric list \<Rightarrow> 'p \<Rightarrow> 'p option" where
  "must_register cl [] p = Some p"
| "must_register cl (m # ms) p = (case pm_register cl (desc_of m) p of None \<Rightarrow> None | Some p1 \<Rightarrow> must_register cl ms p1)"

definition new_prometheus_recorder :: "'p prom_client \<Rightarrow> 'p \<Rightarrow> 'p option" where
  "new_prometheus_recorder cl = must_register cl all_metrics"

definition prometheus_record :: "'p prom_client \<Rightarrow> measurement \<Rightarrow> 'p \<Rightarrow> 'p option" where
  "prometheus_record cl x p =
     (case prometheus_call x of (m, labels, op) \<Rightarrow> pm_sample cl (md_name (desc_of m)) labels op p)"

fun record_all :: "'p prom_client \<Rightarrow> measurement list \<Rightarrow> 'p \<Rightarrow> 'p option" where
  "record_all cl [] p = Some p"
| "record_all cl (x # xs) p = (case prometheus_record cl x p of None \<Rightarrow> None | Some p1 \<Rightarrow> record_all cl xs p1)"

section \<open>Types of the samples\<close>

lemma all_metrics_complete: "set all_metrics = UNIV"
  unfolding all_metrics_def by (rule set_eqI) (case_tac x; simp)

lemma metric_names_distinct: "distinct (map (\<lambda>m. md_name (desc_of m)) all_metrics)"
  by (simp add: all_metrics_def)

lemma metric_name_inj: "md_name (desc_of m) = md_name (desc_of m') \<Longrightarrow> m = m'"
  using metric_names_distinct all_metrics_complete by (metis UNIV_I distinct_map inj_onD)

lemma itoa_eq [simp]: "itoa i = itoa j \<longleftrightarrow> i = j"
  using itoa_inj by blast

lemma counter_calls_inj:
  assumes "prometheus_call x = (m, labels, Incr)" "prometheus_call y = (m, labels, op)"
  shows "y = x"
  using assms(1)
proof (cases x)
  case (IncEventApply n k t)
  then have "m = fst (prometheus_call x)" "labels = fst (snd (prometheus_call x))" using assms(1) by simp_all
  then show ?thesis using assms(2) IncEventApply by (cases y) simp_all
next
  case (IncEventApplyError n k t)
  then have "m = fst (prometheus_call x)" "labels = fst (snd (prometheus_call x))" using assms(1) by simp_all
  then show ?thesis using assms(2) IncEventApplyError by (cases y) simp_all
next
  case (IncFencingReject n k)
  then have "m = fst (prometheus_call x)" "labels = fst (snd (prometheus_call x))" using assms(1) by simp_all
  then show ?thesis using assms(2) IncFencingReject by (cases y) simp_all
next
  case (IncControllerSweep c)
  then have "m = fst (prometheus_call x)" "labels = fst (snd (prometheus_call x))" using assms(1) by simp_all
  then show ?thesis using assms(2) IncControllerSweep by (cases y) simp_all
next
  case (IncControllerSweepError c t)
  then have "m = fst (prometheus_call x)" "labels = fst (snd (prometheus_call x))" using assms(1) by simp_all
  then show ?thesis using assms(2) IncControllerSweepError by (cases y) simp_all
next
  case (IncFailover c d)
  then have "m = fst (prometheus_call x)" "labels = fst (snd (prometheus_call x))" using assms(1) by simp_all
  then show ?thesis using assms(2) IncFailover by (cases y) simp_all
next
  case (IncProducerEvent t k)
  then have "m = fst (prometheus_call x)" "labels = fst (snd (prometheus_call x))" using assms(1) by simp_all
  then show ?thesis using assms(2) IncProducerEvent by (cases y) simp_all
next
  case (IncProducerError t)
  then have "m = fst (prometheus_call x)" "labels = fst (snd (prometheus_call x))" using assms(1) by simp_all
  then show ?thesis using assms(2) IncProducerError by (cases y) simp_all
qed simp_all

lemma recorder_call_typed:
  "prometheus_call x = (m, labels, op) \<Longrightarrow> length labels = length (md_labels (desc_of m)) \<and> op_kind op = md_kind (desc_of m) \<and>
     distinct (md_labels (desc_of m))"
  by (cases x) auto

text \<open>
  Property C31: every method of the recorder goes to a registered vector of the kind of its operation
  with as many label values as the vector has labels, the names and the labels of each vector are
  distinct, and two calls that increase the same counter sample are the same call.
\<close>

theorem recorder_calls_typed:
  "case prometheus_call x of (m, labels, op) \<Rightarrow>
     m \<in> set all_metrics \<and> md_kind (desc_of m) = op_kind op \<and> length labels = length (md_labels (desc_of m)) \<and>
     distinct (md_labels (desc_of m)) \<and> distinct (map (\<lambda>m. md_name (desc_of m)) all_metrics) \<and>
     (\<forall>y op'. prometheus_call y = (m, labels, op') \<and> op = Incr \<longrightarrow> y = x)"
proof -
  obtain m labels op where c: "prometheus_call x = (m, labels, op)" by (cases "prometheus_call x")
  have "md_kind (desc_of m) = op_kind op \<and> length labels = length (md_labels (desc_of m)) \<and> distinct (md_labels (desc_of m))"
    using recorder_call_typed [OF c] by simp
  moreover have "y = x" if "prometheus_call y = (m, labels, op')" "op = Incr" for y op'
    using counter_calls_inj [of x m labels y op'] c that by simp
  ultimately show ?thesis unfolding c prod.case using all_metrics_complete metric_names_distinct by blast
qed

theorem recorder_calls_typed_witness:
  "{y. \<exists>op. prometheus_call y = (Failovers, [''c'', itoa 2], op)} = {IncFailover ''c'' 2}"
proof -
  have c: "prometheus_call (IncFailover ''c'' 2) = (Failovers, [''c'', itoa 2], Incr)" by simp
  show ?thesis using recorder_calls_typed [of "IncFailover ''c'' 2", unfolded c prod.case] c by blast
qed

section \<open>What the client shows\<close>

fun apply_op :: "sample_op \<Rightarrow> int option \<Rightarrow> int" where
  "apply_op (SetTo v) old = v"
| "apply_op Incr old = (case old of None \<Rightarrow> 1 | Some v \<Rightarrow> v + 1)"

text \<open>
  The laws of the client: a new name registers; a sample of a registered vector with the right number
  of valid label values and the right operation changes that sample and nothing else. Counters are
  exact up to \<open>2 ^ 53\<close>. \<open>valid\<close> is \<open>utf8.ValidString\<close>.
\<close>

locale prom_vectors =
  fixes cl :: "'p prom_client" and descs :: "'p \<Rightarrow> metric_desc list"
    and shown :: "'p \<Rightarrow> string \<Rightarrow> string list \<Rightarrow> int option" and valid :: "string \<Rightarrow> bool"
  assumes register: "md_name d \<notin> md_name ` set (descs p) \<Longrightarrow> distinct (md_labels d) \<Longrightarrow>
      \<exists>p'. pm_register cl d p = Some p' \<and> descs p' = descs p @ [d] \<and> shown p' = shown p"
    and sample: "d \<in> set (descs p) \<Longrightarrow> length labels = length (md_labels d) \<Longrightarrow> \<forall>l \<in> set labels. valid l \<Longrightarrow> op_kind op = md_kind d \<Longrightarrow>
      apply_op op (shown p (md_name d) labels) \<le> 2 ^ 53 \<or> op \<noteq> Incr \<Longrightarrow>
      \<exists>p'. pm_sample cl (md_name d) labels op p = Some p' \<and> descs p' = descs p \<and>
        shown p' = (shown p)(md_name d := (shown p (md_name d))(labels \<mapsto> apply_op op (shown p (md_name d) labels)))"
begin

lemma must_register_ok:
  "distinct (map (\<lambda>m. md_name (desc_of m)) ms) \<Longrightarrow> \<forall>m \<in> set ms. md_name (desc_of m) \<notin> md_name ` set (descs p) \<Longrightarrow>
   \<exists>p'. must_register cl ms p = Some p' \<and> descs p' = descs p @ map desc_of ms \<and> shown p' = shown p"
proof (induction ms arbitrary: p)
  case (Cons m ms)
  have d: "distinct (md_labels (desc_of m))" by (cases m) simp_all
  obtain p1 where 1: "pm_register cl (desc_of m) p = Some p1" "descs p1 = descs p @ [desc_of m]" "shown p1 = shown p"
    using register [of "desc_of m" p] Cons.prems(2) d by auto
  have "\<forall>m \<in> set ms. md_name (desc_of m) \<notin> md_name ` set (descs p1)" using Cons.prems 1(2) by (auto simp: image_iff)
  then show ?case using Cons.IH [of p1] Cons.prems(1) 1 by auto
qed simp

end

definition sampled :: "(string \<Rightarrow> string list \<Rightarrow> int option) \<Rightarrow> measurement \<Rightarrow> string \<Rightarrow> string list \<Rightarrow> int option" where
  "sampled v x = (case prometheus_call x of (m, labels, op) \<Rightarrow>
     v(md_name (desc_of m) := (v (md_name (desc_of m)))(labels \<mapsto> apply_op op (v (md_name (desc_of m)) labels))))"

abbreviation samples :: "measurement list \<Rightarrow> string \<Rightarrow> string list \<Rightarrow> int option" where
  "samples xs \<equiv> foldl sampled (\<lambda>_ _. None) xs"

lemma sampled_at:
  assumes "prometheus_call x = (m, labels, op)" "prometheus_call y = (m', labels', op')"
  shows "sampled v y (md_name (desc_of m)) labels =
    (if m' = m \<and> labels' = labels then Some (apply_op op' (v (md_name (desc_of m)) labels)) else v (md_name (desc_of m)) labels)"
  using assms metric_name_inj [of m m'] by (auto simp: sampled_def)

lemma samples_counter:
  assumes "prometheus_call x = (m, labels, Incr)"
  shows "samples xs (md_name (desc_of m)) labels = (if x \<in> set xs then Some (int (count_list xs x)) else None)"
proof (induction xs rule: rev_induct)
  case (snoc y ys)
  obtain m' labels' op' where c: "prometheus_call y = (m', labels', op')" by (cases "prometheus_call y")
  have e: "samples (ys @ [y]) (md_name (desc_of m)) labels =
      (if m' = m \<and> labels' = labels then Some (apply_op op' (samples ys (md_name (desc_of m)) labels)) else samples ys (md_name (desc_of m)) labels)"
    using sampled_at [OF assms c] by simp
  show ?case
  proof (cases "y = x")
    case True
    then show ?thesis using e c assms snoc by (auto simp: count_notin)
  next
    case False
    then have ne: "\<not> (m' = m \<and> labels' = labels)" using counter_calls_inj [OF assms] c by blast
    then show ?thesis using e [unfolded if_not_P [OF ne]] snoc False by simp
  qed
qed simp

lemma samples_gauge:
  assumes "prometheus_call x = (m, labels, SetTo v)" "\<forall>y \<in> set ys. \<forall>op. prometheus_call y \<noteq> (m, labels, op)"
  shows "samples (xs @ x # ys) (md_name (desc_of m)) labels = Some v"
  using assms(2)
proof (induction ys rule: rev_induct)
  case Nil
  then show ?case using sampled_at [OF assms(1,1)] by simp
next
  case (snoc y ys)
  obtain m' labels' op' where c: "prometheus_call y = (m', labels', op')" by (cases "prometheus_call y")
  then have "\<not> (m' = m \<and> labels' = labels)" using snoc.prems by auto
  then show ?case using snoc sampled_at [OF assms(1) c, of "samples (xs @ x # ys)"] by (simp only: if_not_P) simp
qed

lemma samples_le: "prometheus_call x = (m, labels, Incr) \<Longrightarrow> apply_op Incr (samples xs (md_name (desc_of m)) labels) \<le> int (length xs) + 1"
  by (simp add: samples_counter count_le_length)

lemma record_all_append:
  "record_all cl (xs @ ys) p = (case record_all cl xs p of None \<Rightarrow> None | Some p1 \<Rightarrow> record_all cl ys p1)"
  by (induction xs arbitrary: p) (auto split: option.split)

definition labels_valid :: "(string \<Rightarrow> bool) \<Rightarrow> measurement \<Rightarrow> bool" where
  "labels_valid valid x \<longleftrightarrow> (\<forall>l \<in> set (fst (snd (prometheus_call x))). valid l)"

context prom_vectors
begin

lemma record_all_ok:
  assumes "set (descs p) = range desc_of" "shown p = (\<lambda>_ _. None)"
  shows "\<forall>x \<in> set xs. labels_valid valid x \<Longrightarrow> int (length xs) \<le> 2 ^ 53 \<Longrightarrow>
    \<exists>p'. record_all cl xs p = Some p' \<and> set (descs p') = range desc_of \<and> shown p' = samples xs"
proof (induction xs rule: rev_induct)
  case Nil
  then show ?case using assms by simp
next
  case (snoc x xs)
  obtain p1 where 1: "record_all cl xs p = Some p1" "set (descs p1) = range desc_of" "shown p1 = samples xs"
    using snoc.IH snoc.prems by auto
  obtain m labels op where c: "prometheus_call x = (m, labels, op)" by (cases "prometheus_call x")
  have t: "length labels = length (md_labels (desc_of m))" "op_kind op = md_kind (desc_of m)"
    using recorder_call_typed [OF c] by simp_all
  have v: "\<forall>l \<in> set labels. valid l" using snoc.prems(1) c by (simp add: labels_valid_def)
  have b: "apply_op op (shown p1 (md_name (desc_of m)) labels) \<le> 2 ^ 53 \<or> op \<noteq> Incr"
    using samples_le [of x m labels xs] c 1(3) snoc.prems(2) by auto
  obtain p2 where 2: "pm_sample cl (md_name (desc_of m)) labels op p1 = Some p2" "descs p2 = descs p1"
    "shown p2 = (shown p1)(md_name (desc_of m) := (shown p1 (md_name (desc_of m)))(labels \<mapsto> apply_op op (shown p1 (md_name (desc_of m)) labels)))"
    using sample [OF _ t(1) v t(2) b] 1(2) by blast
  have "shown p2 = samples (xs @ [x])" using 1(3) 2(3) c by (simp add: sampled_def)
  then show ?case using 1 2 c by (simp add: record_all_append prometheus_record_def)
qed

end

text \<open>
  on a fresh registry no call panics, whatever is recorded; a counter then shows how often
  exactly its method was called with exactly these arguments, and a gauge the value it was last set to.
\<close>

theorem recorder_shows_calls:
  assumes "prom_vectors cl descs shown valid" "descs p = []" "shown p = (\<lambda>_ _. None)"
    and "\<forall>x \<in> set xs. labels_valid valid x" "int (length xs) \<le> 2 ^ 53"
  shows "\<exists>p0 p'. new_prometheus_recorder cl p = Some p0 \<and> record_all cl xs p0 = Some p' \<and>
    (\<forall>x m labels. prometheus_call x = (m, labels, Incr) \<longrightarrow>
       shown p' (md_name (desc_of m)) labels = (if x \<in> set xs then Some (int (count_list xs x)) else None)) \<and>
    (\<forall>ys x zs m labels v. xs = ys @ x # zs \<and> prometheus_call x = (m, labels, SetTo v) \<and>
       (\<forall>y \<in> set zs. \<forall>op. prometheus_call y \<noteq> (m, labels, op)) \<longrightarrow> shown p' (md_name (desc_of m)) labels = Some v)"
proof -
  obtain p0 where 0: "new_prometheus_recorder cl p = Some p0" "descs p0 = map desc_of all_metrics" "shown p0 = shown p"
    using prom_vectors.must_register_ok [OF assms(1) metric_names_distinct, of p] assms(2)
    by (auto simp: new_prometheus_recorder_def)
  then have "set (descs p0) = range desc_of" using all_metrics_complete by simp
  then obtain p' where 1: "record_all cl xs p0 = Some p'" "shown p' = samples xs"
    using prom_vectors.record_all_ok [OF assms(1) _ _ assms(4,5), of p0] 0(3) assms(3) by auto
  then show ?thesis using 0(1) samples_counter samples_gauge by auto
qed

section \<open>A client\<close>

definition ref_prom :: "(metric_desc list \<times> (string \<Rightarrow> string list \<Rightarrow> int option)) prom_client" where
  "ref_prom = \<lparr>
     pm_register = (\<lambda>d (ds, v). if md_name d \<in> md_name ` set ds then None else Some (ds @ [d], v)),
     pm_sample = (\<lambda>n labels op (ds, v).
       if \<exists>d \<in> set ds. md_name d = n \<and> length labels = length (md_labels d) \<and> op_kind op = md_kind d
       then Some (ds, v(n := (v n)(labels \<mapsto> apply_op op (v n labels)))) else None)\<rparr>"

interpretation ref_prom: prom_vectors ref_prom fst snd "\<lambda>_. True"
  by unfold_locales (auto simp: ref_prom_def)

theorem recorder_shows_calls_witness:
  "\<exists>p0 p'. new_prometheus_recorder ref_prom ([], \<lambda>_ _. None) = Some p0 \<and>
     record_all ref_prom [IncFailover ''c'' 2, SetAliveNodes ''c'' 3, IncFailover ''c'' 2] p0 = Some p' \<and>
     snd p' ''testp_failover_total'' [''c'', itoa 2] = Some 2 \<and> snd p' ''testp_alive_nodes'' [''c''] = Some 3"
    (is "\<exists>p0 p'. ?r p0 \<and> ?a p0 p' \<and> ?f p' \<and> ?g p'")
proof -
  let ?xs = "[IncFailover ''c'' 2, SetAliveNodes ''c'' 3, IncFailover ''c'' 2]"
  obtain p0 p' where p: "new_prometheus_recorder ref_prom ([], \<lambda>_ _. None) = Some p0" "record_all ref_prom ?xs p0 = Some p'"
    "\<And>x m labels. prometheus_call x = (m, labels, Incr) \<Longrightarrow>
       snd p' (md_name (desc_of m)) labels = (if x \<in> set ?xs then Some (int (count_list ?xs x)) else None)"
    "\<And>ys x zs m labels v. ?xs = ys @ x # zs \<Longrightarrow> prometheus_call x = (m, labels, SetTo v) \<Longrightarrow>
       \<forall>y \<in> set zs. \<forall>op. prometheus_call y \<noteq> (m, labels, op) \<Longrightarrow> snd p' (md_name (desc_of m)) labels = Some v"
    using recorder_shows_calls [OF ref_prom.prom_vectors_axioms, of "([], \<lambda>_ _. None)" ?xs] by (auto simp: labels_valid_def)
  have "f64_of_int 3 = 3" by simp
  then have "?f p' \<and> ?g p'"
    using p(3) [of "IncFailover ''c'' 2" Failovers] p(4) [of "[IncFailover ''c'' 2]" "SetAliveNodes ''c'' 3" "[IncFailover ''c'' 2]" AliveNodes]
    by simp
  then show ?thesis using p(1,2) by blast
qed

end
