(* ===== verification/ShardLog.thy ===== *)
theory ShardLog
  imports Kafka
begin

text \<open>
  What the programs that feed the event log rely on: each shard's log grows by the events appended to
  it, in order. The contract is a locale, with the in-memory log and Kafka with an exact writer (which
  the code's configuration does not give) as its instances. An append that reports an error may have
  appended some of its events.
\<close>

definition of_shard :: "int \<Rightarrow> event list \<Rightarrow> event list" where
  "of_shard k es = filter (\<lambda>e. ev_shard_id e = k) es"

lemma of_shard_simps [simp]: "of_shard k [] = []" "of_shard k (es @ fs) = of_shard k es @ of_shard k fs"
    "of_shard k (e # es) = (if ev_shard_id e = k then e # of_shard k es else of_shard k es)"
  by (simp_all add: of_shard_def)

text \<open>\<open>good\<close> are the events the log has a shard for.\<close>

locale shard_log =
  fixes ap :: "'s appender" and log :: "'s \<Rightarrow> int \<Rightarrow> event list" and ok :: "'s \<Rightarrow> bool" and good :: "event \<Rightarrow> bool"
  assumes append: "ok s \<Longrightarrow> good e \<Longrightarrow> ap_append ap e s = (Inr p, s') \<Longrightarrow> ok s' \<and> log s' k = log s k @ of_shard k [e]"
    and append_err: "ok s \<Longrightarrow> good e \<Longrightarrow> ap_append ap e s = (Inl err, s') \<Longrightarrow>
      ok s' \<and> (\<exists>zs. log s' k = log s k @ zs \<and> set zs \<subseteq> {e})"
    and batch: "ap_batch ap = Some b \<Longrightarrow> ok s \<Longrightarrow> \<forall>e \<in> set es. good e \<Longrightarrow> b es s = (Inr ps, s') \<Longrightarrow>
      ok s' \<and> log s' k = log s k @ of_shard k es"
    and batch_err: "ap_batch ap = Some b \<Longrightarrow> ok s \<Longrightarrow> \<forall>e \<in> set es. good e \<Longrightarrow> b es s = (Inl err, s') \<Longrightarrow>
      ok s' \<and> (\<exists>zs. log s' k = log s k @ zs \<and> set zs \<subseteq> set es)"
begin

text \<open>Appending one by one and stopping at the first error.\<close>

lemma append_all:
  assumes "ok s" "\<forall>e \<in> set es. good e" "efor es (\<lambda>e. ebind (wrap_err msg (ap_append ap e)) (\<lambda>_. ret ())) s = (r, s')"
  shows "ok s' \<and> (case r of Inr u \<Rightarrow> log s' k = log s k @ of_shard k es
     | Inl err \<Rightarrow> \<exists>zs. log s' k = log s k @ zs \<and> set zs \<subseteq> set es)"
  using assms
proof (induction es arbitrary: s)
  case (Cons e es)
  obtain q s1 where q: "ap_append ap e s = (q, s1)" by fastforce
  show ?case
  proof (cases q)
    case (Inl err)
    then have "r = Inl (ErrWrap msg err)" "s' = s1" using Cons.prems(3) q by (auto simp: ebind_def wrap_err_def)
    then show ?thesis using append_err [of s e err s1 k] Cons.prems(1,2) q Inl by auto
  next
    case (Inr p)
    then have n: "efor es (\<lambda>e. ebind (wrap_err msg (ap_append ap e)) (\<lambda>_. ret ())) s1 = (r, s')"
      using Cons.prems(3) q by (simp add: ebind_def wrap_err_def ret_def)
    have a: "ok s1" "log s1 k = log s k @ of_shard k [e]" using append [of s e p s1 k] Cons.prems(1,2) q Inr by auto
    note I = Cons.IH [OF a(1) _ n]
    show ?thesis
    proof (cases r)
      case (Inl err)
      then obtain zs where "ok s'" "log s' k = log s1 k @ zs" "set zs \<subseteq> set es" using I Cons.prems(2) by auto
      then have "log s' k = log s k @ (of_shard k [e] @ zs)" "set (of_shard k [e] @ zs) \<subseteq> set (e # es)" using a(2) by auto
      then show ?thesis using \<open>ok s'\<close> unfolding Inl sum.case by blast
    qed (use I a(2) Cons.prems(2) in auto)
  qed
qed auto

end

section \<open>The in-memory log\<close>

definition memory_shard :: "memory_log \<Rightarrow> int \<Rightarrow> event list" where
  "memory_shard s k = (case s k of None \<Rightarrow> [] | Some rs \<Rightarrow> map lr_event rs)"

lemma memory_append_shard:
  "memory_append_events es s = (r, s') \<Longrightarrow>
   \<exists>n. memory_shard s' k = memory_shard s k @ of_shard k (take n es) \<and> ((\<exists>ps. r = Inr ps) \<longrightarrow> length es \<le> n)"
proof (induction es arbitrary: s r)
  case Nil
  then show ?case by simp
next
  case (Cons e es)
  show ?case
  proof (cases "s (ev_shard_id e)")
    case None
    then have "memory_shard s' k = memory_shard s k @ of_shard k (take 0 (e # es))" "\<not> (\<exists>ps. r = Inr ps)" using Cons.prems by auto
    then show ?thesis by blast
  next
    case (Some rs)
    let ?s1 = "s(ev_shard_id e \<mapsto> rs @ [\<lparr>lr_position = \<lparr>ps_shard_id = ev_shard_id e, ps_offset = int (length rs)\<rparr>, lr_event = e\<rparr>])"
    obtain q where q: "memory_append_events es ?s1 = (q, s')"
      "r = (case q of Inl err \<Rightarrow> Inl err | Inr ps \<Rightarrow> Inr (\<lparr>ps_shard_id = ev_shard_id e, ps_offset = int (length rs)\<rparr> # ps))"
      using memory_append_step [OF Some Cons.prems] by blast
    obtain n where n: "memory_shard s' k = memory_shard ?s1 k @ of_shard k (take n es)" "(\<exists>ps. q = Inr ps) \<longrightarrow> length es \<le> n"
      using Cons.IH [OF q(1)] by blast
    have "memory_shard ?s1 k = memory_shard s k @ of_shard k [e]" using Some by (auto simp: memory_shard_def)
    then have "memory_shard s' k = memory_shard s k @ of_shard k (take (Suc n) (e # es))" using n(1) by simp
    moreover have "(\<exists>ps. r = Inr ps) \<longrightarrow> length (e # es) \<le> Suc n" using n(2) q(2) by (auto split: sum.splits)
    ultimately show ?thesis by blast
  qed
qed

lemma memory_batch_shard:
  assumes "memory_append_batch ctx es s = (r, s')"
  shows "case r of Inr ps \<Rightarrow> memory_shard s' k = memory_shard s k @ of_shard k es
    | Inl err \<Rightarrow> \<exists>zs. memory_shard s' k = memory_shard s k @ zs \<and> set zs \<subseteq> set es"
proof (cases ctx)
  case None
  then have "memory_append_events es s = (r, s')" using assms by (simp add: memory_append_batch_def)
  from memory_append_shard [OF this, of k] obtain n where
    n: "memory_shard s' k = memory_shard s k @ of_shard k (take n es)" "(\<exists>ps. r = Inr ps) \<longrightarrow> length es \<le> n" by blast
  have "set (of_shard k (take n es)) \<subseteq> set es" by (auto simp: of_shard_def dest: in_set_takeD)
  then show ?thesis using n by (cases r) auto
qed (use assms in \<open>auto simp: memory_append_batch_def\<close>)

interpretation memshard: shard_log "memory_appender ctx" memory_shard "\<lambda>_. True" "\<lambda>_. True" for ctx
proof (unfold_locales, goal_cases)
  case (1 s e p s' k)
  then obtain ps where "memory_append_batch ctx [e] s = (Inr ps, s')"
    by (auto simp: memory_appender_def memory_append_def ebind_def split: prod.splits sum.splits)
  then show ?case using memory_batch_shard [of ctx "[e]" s "Inr ps" s' k] by simp
next
  case (2 s e err s' k)
  then have "memory_append_batch ctx [e] s = (Inl err, s')"
    by (auto simp: memory_appender_def memory_append_def ebind_def split: prod.splits sum.splits)
  then show ?case using memory_batch_shard [of ctx "[e]" s "Inl err" s' k] by simp
next
  case (3 b s es ps s' k)
  then show ?case using memory_batch_shard [of ctx es s "Inr ps" s' k] by (simp add: memory_appender_def)
next
  case (4 b s es err s' k)
  then show ?case using memory_batch_shard [of ctx es s "Inl err" s' k] by (simp add: memory_appender_def)
qed

section \<open>Kafka\<close>

text \<open>The events of a partition, for the shards that are partitions.\<close>

definition kafka_shard :: "event_json \<Rightarrow> ('s \<Rightarrow> int \<Rightarrow> message list) \<Rightarrow> 's kafka_log \<Rightarrow> int \<Rightarrow> event list" where
  "kafka_shard js logs s k = map (\<lambda>m. projr (decode_event js (Some (snd m)))) (logs (kl_net s) k)"

definition on_partition :: "int list \<Rightarrow> event \<Rightarrow> bool" where
  "on_partition partitions e \<longleftrightarrow> ev_shard_id e \<in> set partitions \<and> in64 (ev_shard_id e)"

lemma decoded_messages:
  "event_json_exact js \<Longrightarrow> list_all2 (\<lambda>e m. encode_message js e = Inr m) es ms \<Longrightarrow>
   map (\<lambda>m. projr (decode_event js (Some (snd m)))) ms = es"
proof (induction es ms rule: list_induct2')
  case (4 e es m ms)
  then have "decode_event js (Some (snd m)) = Inr e" using decode_encode_exact encode_message_key by auto
  then show ?case using 4 by simp
qed simp_all

lemma kafka_batch_shard:
  assumes j: "event_json_exact js" and W: "exact_writer kk partitions logs" and e: "kafka_append_batch kk js ctx es s = (r, s')"
    and g: "\<forall>e \<in> set es. on_partition partitions e"
  shows "case r of
      Inr ps \<Rightarrow> kafka_shard js logs s' k = kafka_shard js logs s k @ of_shard k es
    | Inl err \<Rightarrow> \<exists>zs. kafka_shard js logs s' k = kafka_shard js logs s k @ zs \<and> set zs \<subseteq> set es"
proof (cases "\<exists>ms ps. ctx = None \<and> es \<noteq> [] \<and> encode_messages js es = Inr (ms, ps) \<and> kl_open s")
  case False
  then show ?thesis using e by (auto simp: kafka_append_batch_def split: option.splits if_splits sum.splits prod.splits)
next
  case True
  then obtain ms ps where m: "ctx = None" "es \<noteq> []" "encode_messages js es = Inr (ms, ps)" "kl_open s" by blast
  note E = encode_messages_ok [OF m(3), THEN conjunct1]
  obtain q n where q: "kk_write kk ms (kl_net s) = (q, n)" by fastforce
  have dec: "(\<lambda>m. projr (decode_event js (Some (snd m)))) ` set ms \<subseteq> set es"
    using decoded_messages [OF j E] by (metis list.set_map subset_refl)
  show ?thesis
  proof (cases q)
    case (Inl err)
    then obtain ms' where "logs n k = logs (kl_net s) k @ ms'" "set ms' \<subseteq> set ms" using exact_writerD(3) [OF W] q by blast
    moreover have "r = Inl (ErrWrap ''write kafka messages: %w'' err)" "kl_net s' = n" using e m q Inl by (auto simp: kafka_append_batch_def)
    ultimately show ?thesis using dec by (auto simp: kafka_shard_def)
  next
    case (Inr u)
    then have l: "logs n p = logs (kl_net s) p @ filter (\<lambda>m. balance (fst m) partitions = p) ms" for p
      using exact_writerD(2) [OF W] q by blast
    have r: "r = Inr ps" "kl_net s' = n" using e m q Inr by (auto simp: kafka_append_batch_def)
    have "list_all2 (\<lambda>e m. encode_message js e = Inr m) (of_shard p es) (filter (\<lambda>m. balance (fst m) partitions = p) ms)" for p
      unfolding of_shard_def
    proof (rule list_all2_filter [OF E])
      fix e m assume em: "encode_message js e = Inr m" "e \<in> set es"
      then have "balance (fst m) partitions = ev_shard_id e" using g encode_message_key [OF em(1)] balance_key [of "ev_shard_id e" partitions]
        by (auto simp: on_partition_def route_def)
      then show "(ev_shard_id e = p) = (balance (fst m) partitions = p)" by simp
    qed
    from decoded_messages [OF j this] show ?thesis using l r by (simp add: kafka_shard_def)
  qed
qed

lemma kafka_shard_log:
  assumes j: "event_json_exact js" and W: "exact_writer kk partitions logs"
  shows "shard_log (kafka_appender kk js ctx) (kafka_shard js logs) (\<lambda>_. True) (on_partition partitions)"
proof (unfold_locales, goal_cases)
  case (1 s e p s' k)
  then obtain ps where "kafka_append_batch kk js ctx [e] s = (Inr ps, s')"
    by (auto simp: kafka_appender_def kafka_append_def ebind_def split: prod.splits sum.splits)
  then show ?case using kafka_batch_shard [OF j W, of ctx "[e]" s "Inr ps" s' k] 1(2) by simp
next
  case (2 s e err s' k)
  then have "kafka_append_batch kk js ctx [e] s = (Inl err, s')"
    by (auto simp: kafka_appender_def kafka_append_def ebind_def split: prod.splits sum.splits)
  then show ?case using kafka_batch_shard [OF j W, of ctx "[e]" s "Inl err" s' k] 2(2) by simp
next
  case (3 b s es ps s' k)
  then show ?case using kafka_batch_shard [OF j W, of ctx es s "Inr ps" s' k] by (simp add: kafka_appender_def)
next
  case (4 b s es err s' k)
  then show ?case using kafka_batch_shard [OF j W, of ctx es s "Inl err" s' k] by (simp add: kafka_appender_def)
qed

interpretation kafkashard: shard_log "kafka_appender (ref_kafka partitions) ref_event_json ctx"
    "kafka_shard ref_event_json (\<lambda>s. s)" "\<lambda>_. True" "on_partition partitions" for partitions ctx
  by (rule kafka_shard_log [OF ref_event_json_exact ref_kafka_exact])

end
