(* ===== verification/Producer.thy ===== *)
theory Producer
  imports ShardLog Layout Metrics OrderStore
begin

text \<open>
  The programs that write order events: the producer (\<open>internal/producerapp/app.go\<close>) and the retry
  producer (\<open>cmd/retry-producer/main.go\<close>). \<open>math/rand\<close> is a parameter that gives the value of each
  call for a seed, JSON encoding of payloads too. Output and exit codes are in \<open>Mains\<close>.
\<close>

section \<open>Configuration\<close>

record ('l, 'p) producer_config =
  pr_data_dir :: string
  pr_event_log :: "'l appender option"
  pr_orders :: int
  pr_seed :: int
  pr_start_id :: int
  pr_area_size :: int
  pr_cell_size :: int
  pr_shards :: int
  pr_batch_size :: int
  pr_metrics :: "'p recorder option"

record producer_result =
  prr_orders :: int
  prr_first_id :: int
  prr_last_id :: int

definition producer_defaults :: "('l, 'p) producer_config \<Rightarrow> ('l, 'p) producer_config" where
  "producer_defaults c = c\<lparr>
     pr_data_dir := (if pr_data_dir c = [] then ''./data'' else pr_data_dir c),
     pr_seed := (if pr_seed c = 0 then 1 else pr_seed c),
     pr_start_id := (if pr_start_id c = 0 then 1 else pr_start_id c),
     pr_area_size := (if pr_area_size c \<le> 0 then 100000 else pr_area_size c),
     pr_cell_size := (if pr_cell_size c \<le> 0 then 10000 else pr_cell_size c),
     pr_shards := (if pr_shards c \<le> 0 then 64 else pr_shards c),
     pr_batch_size := (if pr_batch_size c \<le> 0 then 100 else pr_batch_size c)\<rparr>"

definition validate_producer :: "('l, 'p) producer_config \<Rightarrow> go_error option" where
  "validate_producer c =
     (if pr_event_log c = None then Some (ErrMsg ''eventlog is required'' [])
      else if pr_orders c < 0 then Some (ErrMsg ''orders must be >= 0'' [])
      else if pr_start_id c \<le> 0 then Some (ErrMsg ''start id must be > 0'' [])
      else None)"

section \<open>Appending and metrics\<close>

text \<open>The state is the event log and the metrics.\<close>

definition at_log :: "('l, 'a) eff \<Rightarrow> ('l \<times> 'p, 'a) eff" where
  "at_log m = (\<lambda>(l, p). case m l of (r, l') \<Rightarrow> (r, (l', p)))"

definition append_order_events :: "'l appender \<Rightarrow> event list \<Rightarrow> ('l, unit) eff" where
  "append_order_events ap es =
     (case ap_batch ap of
        Some b \<Rightarrow> ebind (wrap_err ''append order event batch: %w'' (b es)) (\<lambda>_. ret ())
      | None \<Rightarrow> efor es (\<lambda>e. ebind (wrap_err ''append order event: %w'' (ap_append ap e)) (\<lambda>_. ret ())))"

definition record_producer_event :: "'p recorder option \<Rightarrow> event \<Rightarrow> 'p \<Rightarrow> 'p" where
  "record_producer_event rec e p = (case rec of None \<Rightarrow> p | Some f \<Rightarrow> f (IncProducerEvent (ev_type e) (ev_shard_id e)) p)"

definition record_producer_events :: "'p recorder option \<Rightarrow> event list \<Rightarrow> 'l \<times> 'p \<Rightarrow> 'l \<times> 'p" where
  "record_producer_events rec es = (\<lambda>(l, p). (l, foldl (\<lambda>p e. record_producer_event rec e p) p es))"

definition record_producer_error :: "'p recorder option \<Rightarrow> string \<Rightarrow> 'l \<times> 'p \<Rightarrow> 'l \<times> 'p" where
  "record_producer_error rec reason = (\<lambda>(l, p). (l, case rec of None \<Rightarrow> p | Some f \<Rightarrow> f (IncProducerError reason) p))"

section \<open>The events\<close>

text \<open>
  \<open>rng seed n bound\<close> is what call number \<open>n\<close> of \<open>Intn(bound)\<close> returns; order \<open>i\<close> makes the calls \<open>2 i\<close>
  and \<open>2 i + 1\<close>.
\<close>

definition created_event ::
  "(order_created \<Rightarrow> go_error + string) \<Rightarrow> (int \<Rightarrow> nat \<Rightarrow> int \<Rightarrow> int) \<Rightarrow> ('l, 'p) producer_config \<Rightarrow> int \<Rightarrow> go_error + event" where
  "created_event enc rng c i =
     (let order_id = wrap64 (pr_start_id c + i);
          x = rng (pr_seed c) (2 * nat i) (pr_area_size c);
          y = rng (pr_seed c) (2 * nat i + 1) (pr_area_size c)
      in case enc \<lparr>oc_order_id = order_id, oc_x = x, oc_y = y\<rparr> of
           Inl err \<Rightarrow> Inl (ErrWrap ''encode order payload: %w'' err)
         | Inr payload \<Rightarrow> Inr \<lparr>ev_id = ''order-'' @ itoa order_id @ ''-created'', ev_type = EventOrderCreated,
             ev_aggregate_type = ''order'', ev_aggregate_id = itoa order_id,
             ev_shard_id = shard_id (new_layout (pr_area_size c) (pr_cell_size c) (pr_shards c)) x y,
             ev_occurred_at = wrap64 (i + 1), ev_payload = payload\<rparr>)"

text \<open>The loop, with \<open>ctx.Err()\<close> at each of its turns; the result is the batch that is left over.\<close>

fun produce_orders ::
  "(order_created \<Rightarrow> go_error + string) \<Rightarrow> (int \<Rightarrow> nat \<Rightarrow> int \<Rightarrow> int) \<Rightarrow> (int \<Rightarrow> go_error option) \<Rightarrow> 'l appender \<Rightarrow>
   ('l, 'p) producer_config \<Rightarrow> int list \<Rightarrow> event list \<Rightarrow> ('l \<times> 'p, event list) eff" where
  "produce_orders enc rng ctx ap c [] batch s = (Inr batch, s)"
| "produce_orders enc rng ctx ap c (i # is) batch s =
     (case ctx i of
        Some err \<Rightarrow> (Inl err, record_producer_error (pr_metrics c) ''context'' s)
      | None \<Rightarrow>
          (case created_event enc rng c i of
             Inl err \<Rightarrow> (Inl err, record_producer_error (pr_metrics c) ''encode'' s)
           | Inr e \<Rightarrow>
               (let b = batch @ [e] in
                if int (length b) \<ge> pr_batch_size c
                then (case at_log (append_order_events ap b) s of
                        (Inl err, s1) \<Rightarrow> (Inl err, record_producer_error (pr_metrics c) ''append'' s1)
                      | (Inr _, s1) \<Rightarrow> produce_orders enc rng ctx ap c is [] (record_producer_events (pr_metrics c) b s1))
                else produce_orders enc rng ctx ap c is b s)))"

definition producer_run ::
  "(order_created \<Rightarrow> go_error + string) \<Rightarrow> (int \<Rightarrow> nat \<Rightarrow> int \<Rightarrow> int) \<Rightarrow> (int \<Rightarrow> go_error option) \<Rightarrow>
   ('l, 'p) producer_config \<Rightarrow> ('l \<times> 'p, producer_result) eff" where
  "producer_run enc rng ctx cfg s =
     (let c = producer_defaults cfg in
      case validate_producer c of
        Some err \<Rightarrow> (Inl err, s)
      | None \<Rightarrow>
          (case produce_orders enc rng ctx (the (pr_event_log c)) c [0..pr_orders c - 1] [] s of
             (Inl err, s1) \<Rightarrow> (Inl err, s1)
           | (Inr batch, s1) \<Rightarrow>
               (let res = \<lparr>prr_orders = pr_orders c, prr_first_id = pr_start_id c,
                           prr_last_id = (if pr_orders c = 0 then 0 else wrap64 (wrap64 (pr_start_id c + pr_orders c) - 1))\<rparr>
                in if batch = [] then (Inr res, s1)
                   else (case at_log (append_order_events (the (pr_event_log c)) batch) s1 of
                           (Inl err, s2) \<Rightarrow> (Inl err, record_producer_error (pr_metrics c) ''append'' s2)
                         | (Inr _, s2) \<Rightarrow> (Inr res, record_producer_events (pr_metrics c) batch s2)))))"

section \<open>The retry producer\<close>

record retry_config =
  rt_start_id :: int
  rt_end_id :: int
  rt_attempt :: int
  rt_reason :: string
  rt_batch_size :: int

definition validate_arguments :: "retry_config \<Rightarrow> go_error option" where
  "validate_arguments c =
     (if rt_start_id c \<le> 0 \<or> rt_end_id c < rt_start_id c
      then Some (ErrMsg ''invalid order id range: %d..%d'' [FInt (rt_start_id c), FInt (rt_end_id c)])
      else if rt_attempt c \<le> 0 then Some (ErrMsg ''attempt must be > 0'' [])
      else if rt_batch_size c \<le> 0 then Some (ErrMsg ''batch size must be > 0'' [])
      else None)"

definition build_retry_event ::
  "(order_retry_request \<Rightarrow> go_error + string) \<Rightarrow> retry_config \<Rightarrow> int \<Rightarrow> int \<times> int \<Rightarrow> go_error + event" where
  "build_retry_event enc c now = (\<lambda>(order_id, sid).
     case enc \<lparr>orr_order_id = order_id, orr_attempt = rt_attempt c, orr_reason = rt_reason c\<rparr> of
       Inl err \<Rightarrow> Inl (ErrWrap ''encode retry for order %d: %w'' err)
     | Inr payload \<Rightarrow> Inr \<lparr>ev_id = ''order-'' @ itoa order_id @ ''-retry-'' @ itoa (rt_attempt c), ev_type = EventOrderRetryRequest,
         ev_aggregate_type = ''order'', ev_aggregate_id = itoa order_id, ev_shard_id = sid, ev_occurred_at = now, ev_payload = payload\<rparr>)"

fun build_retry_events ::
  "(order_retry_request \<Rightarrow> go_error + string) \<Rightarrow> retry_config \<Rightarrow> (int \<Rightarrow> int) \<Rightarrow> (int \<times> int) list \<Rightarrow> go_error + event list" where
  "build_retry_events enc c now [] = Inr []"
| "build_retry_events enc c now (o1 # os) =
     (case build_retry_event enc c (now (fst o1)) o1 of
        Inl err \<Rightarrow> Inl err
      | Inr e \<Rightarrow> (case build_retry_events enc c now os of Inl err \<Rightarrow> Inl err | Inr es \<Rightarrow> Inr (e # es)))"

text \<open>
  The loop over the batches, from \<open>start\<close>: it gives what \<open>sendRetryEvents\<close> returns, the number and the
  error. With a batch size of zero it would never end; a negative one panics (\<open>None\<close>).
\<close>

partial_function (option) send_batches ::
  "(order_retry_request \<Rightarrow> go_error + string) \<Rightarrow> retry_config \<Rightarrow> (int \<Rightarrow> int) \<Rightarrow> (event list \<Rightarrow> ('l, position list) eff) \<Rightarrow>
   (int \<times> int) list \<Rightarrow> int \<Rightarrow> 'l \<Rightarrow> ((int \<times> go_error option) \<times> 'l) option" where
  "send_batches enc c now append_batch orders start l =
     (if start \<ge> int (length orders) then Some ((int (length orders), None), l)
      else let stop = min (start + rt_batch_size c) (int (length orders)) in
           if stop < start then None
           else (case build_retry_events enc c now (take (nat (stop - start)) (drop (nat start) orders)) of
                   Inl err \<Rightarrow> Some ((0, Some err), l)
                 | Inr es \<Rightarrow> (case append_batch es l of
                     (Inl err, l1) \<Rightarrow> Some ((start, Some (ErrWrap ''append retry batch: %w'' err)), l1)
                   | (Inr _, l1) \<Rightarrow> send_batches enc c now append_batch orders (start + rt_batch_size c) l1)))"

text \<open>\<open>pool\<close> and \<open>made\<close> are the results of \<open>pgxpool.New\<close> and \<open>NewKafkaEventLog\<close>. The log is closed at the end.\<close>

definition send_retry_events ::
  "env \<Rightarrow> (order_retry_request \<Rightarrow> go_error + string) \<Rightarrow> (int \<Rightarrow> int) \<Rightarrow> go_error option \<Rightarrow>
   go_error + (event list \<Rightarrow> ('l, position list) eff) \<times> ('l \<Rightarrow> 'l) \<Rightarrow> retry_config \<Rightarrow>
   world \<times> 'l \<Rightarrow> ((int \<times> go_error option) \<times> world \<times> 'l) option" where
  "send_retry_events en enc now pool made c = (\<lambda>(w, l).
     case pool of
       Some err \<Rightarrow> Some ((0, Some (ErrWrap ''open postgres: %w'' err)), w, l)
     | None \<Rightarrow>
         (case auto_commit en (list_missed_orders_for_retry (rt_start_id c) (rt_end_id c) (wrap32 (rt_attempt c))) w of
            (Inl err, w1) \<Rightarrow> Some ((0, Some (ErrWrap ''list missed orders: %w'' err)), w1, l)
          | (Inr orders, w1) \<Rightarrow>
              (case made of
                 Inl err \<Rightarrow> Some ((0, Some err), w1, l)
               | Inr (append_batch, close) \<Rightarrow>
                   (case send_batches enc c now append_batch orders 0 l of
                      None \<Rightarrow> None
                    | Some (r, l1) \<Rightarrow> Some (r, w1, close l1)))))"

section \<open>What a run appends\<close>

definition orders_of :: "(order_created \<Rightarrow> go_error + string) \<Rightarrow> (int \<Rightarrow> nat \<Rightarrow> int \<Rightarrow> int) \<Rightarrow> ('l, 'p) producer_config \<Rightarrow> event list" where
  "orders_of enc rng c = map (\<lambda>i. projr (created_event enc rng c i)) [0..pr_orders c - 1]"

text \<open>What the log holds after an attempt to append \<open>es\<close>: all of them, or some first part and pieces of the rest.\<close>

definition appended :: "(int \<Rightarrow> event list) \<Rightarrow> (int \<Rightarrow> event list) \<Rightarrow> event list \<Rightarrow> event list \<Rightarrow> bool" where
  "appended before after sent rest \<longleftrightarrow> (\<forall>k. \<exists>zs. after k = before k @ of_shard k sent @ zs \<and> set zs \<subseteq> set rest)"

lemma appended_none [simp]: "appended f f [] rest"
  by (simp add: appended_def)

lemma appended_all: "appended f g es [] \<longleftrightarrow> (\<forall>k. g k = f k @ of_shard k es)"
  by (auto simp: appended_def)

lemma appended_trans: "(\<And>k. g k = f k @ of_shard k es) \<Longrightarrow> appended g h fs rest \<Longrightarrow> appended f h (es @ fs) rest"
  by (simp add: appended_def)

text \<open>
  What a run that stops with an error has done: it has appended and counted whole batches, then
  appended at most pieces of one more batch and nothing behind it, and counted one error.
\<close>

definition cut_short ::
  "'p recorder option \<Rightarrow> int \<Rightarrow> event list \<Rightarrow> (int \<Rightarrow> event list) \<Rightarrow> (int \<Rightarrow> event list) \<Rightarrow> 'p \<Rightarrow> 'p \<Rightarrow> bool" where
  "cut_short rec bs es before after p p' \<longleftrightarrow> (\<exists>sent part rest reason.
     es = sent @ part @ rest \<and> bs dvd int (length sent) \<and> int (length part) \<le> bs \<and> (reason \<noteq> ''append'' \<longrightarrow> part = []) \<and>
     appended before after sent part \<and>
     p' = snd (record_producer_error rec reason ((), foldl (\<lambda>p e. record_producer_event rec e p) p sent)))"

lemma cut_shortI:
  assumes "es = sent @ part @ rest" "bs dvd int (length sent)" "int (length part) \<le> bs" "reason \<noteq> ''append'' \<longrightarrow> part = []"
    and "appended before after sent part"
    and "p' = snd (record_producer_error rec reason ((), foldl (\<lambda>p e. record_producer_event rec e p) p sent))"
  shows "cut_short rec bs es before after p p'"
  using assms unfolding cut_short_def by blast

lemma cut_short_after:
  assumes "\<And>k. g k = f k @ of_shard k b" "int (length b) = bs"
    and "cut_short rec bs es g h (foldl (\<lambda>p e. record_producer_event rec e p) p b) p'"
  shows "cut_short rec bs (b @ es) f h p p'"
proof -
  obtain sent part rest reason where c: "es = sent @ part @ rest" "bs dvd int (length sent)" "int (length part) \<le> bs"
      "reason \<noteq> ''append'' \<longrightarrow> part = []" "appended g h sent part"
      "p' = snd (record_producer_error rec reason ((), foldl (\<lambda>p e. record_producer_event rec e p) (foldl (\<lambda>p e. record_producer_event rec e p) p b) sent))"
    using assms(3) unfolding cut_short_def by blast
  show ?thesis
    by (rule cut_shortI [of _ "b @ sent" part rest bs reason])
      (use c assms(2) appended_trans [OF assms(1) c(5)] in simp_all)
qed

lemma created_event_total:
  assumes "\<forall>x. \<exists>v. enc x = Inr v"
  obtains e where "created_event enc rng c i = Inr e" "projr (created_event enc rng c i) = e"
proof -
  obtain v where "enc \<lparr>oc_order_id = wrap64 (pr_start_id c + i), oc_x = rng (pr_seed c) (2 * nat i) (pr_area_size c),
      oc_y = rng (pr_seed c) (2 * nat i + 1) (pr_area_size c)\<rparr> = Inr v" using assms by blast
  then show thesis using that by (simp add: created_event_def Let_def)
qed

context shard_log
begin

lemma append_events_ok:
  assumes "ok l" "\<forall>e \<in> set es. good e" "append_order_events ap es l = (r, l')"
  shows "ok l'" "case r of Inr u \<Rightarrow> \<forall>k. log l' k = log l k @ of_shard k es | Inl err \<Rightarrow> appended (log l) (log l') [] es"
proof -
  have "ok l' \<and> (case r of Inr u \<Rightarrow> log l' k = log l k @ of_shard k es | Inl err \<Rightarrow> \<exists>zs. log l' k = log l k @ zs \<and> set zs \<subseteq> set es)" for k
  proof (cases "ap_batch ap")
    case None
    then show ?thesis using append_all [OF assms(1,2)] assms(3) by (simp add: append_order_events_def)
  next
    case (Some b)
    obtain q l1 where q: "b es l = (q, l1)" by fastforce
    then have "l' = l1" "r = (case q of Inl err \<Rightarrow> Inl (ErrWrap ''append order event batch: %w'' err) | Inr ps \<Rightarrow> Inr ())"
      using assms(3) Some by (auto simp: append_order_events_def ebind_def wrap_err_def split: sum.splits)
    then show ?thesis using batch [OF Some assms(1,2), of _ l1 k] batch_err [OF Some assms(1,2), of _ l1 k] q by (cases q) auto
  qed
  then show "ok l'" "case r of Inr u \<Rightarrow> \<forall>k. log l' k = log l k @ of_shard k es | Inl err \<Rightarrow> appended (log l) (log l') [] es"
    by (auto simp: appended_def split: sum.splits)
qed

lemma produce_orders_ok:
  assumes "\<forall>x. \<exists>v. enc x = Inr v"
  shows "ok l \<Longrightarrow> int (length batch) < pr_batch_size c \<Longrightarrow> \<forall>e \<in> set (batch @ map (\<lambda>i. projr (created_event enc rng c i)) is). good e \<Longrightarrow>
    produce_orders enc rng ctx ap c is batch (l, p) = (r, (l', p')) \<Longrightarrow>
    ok l' \<and> (let es = batch @ map (\<lambda>i. projr (created_event enc rng c i)) is in
      case r of
         Inr b \<Rightarrow> (\<exists>sent. es = sent @ b \<and> pr_batch_size c dvd int (length sent) \<and> int (length b) < pr_batch_size c \<and>
           (\<forall>k. log l' k = log l k @ of_shard k sent) \<and> p' = foldl (\<lambda>p e. record_producer_event (pr_metrics c) e p) p sent)
       | Inl err \<Rightarrow> cut_short (pr_metrics c) (pr_batch_size c) es (log l) (log l') p p')"
proof (induction "is" arbitrary: batch l p)
  case Nil
  then show ?case by (auto intro!: exI [of _ "[]"])
next
  case (Cons i "is")
  let ?ev = "\<lambda>i. projr (created_event enc rng c i)"
  obtain e where ev: "created_event enc rng c i = Inr e" "?ev i = e" by (rule created_event_total [OF assms])
  show ?case
  proof (cases "ctx i")
    case (Some err)
    then have r: "r = Inl err" "l' = l" "p' = snd (record_producer_error (pr_metrics c) ''context'' ((), p))"
      using Cons.prems(4) by (auto simp: record_producer_error_def)
    have "cut_short (pr_metrics c) (pr_batch_size c) (batch @ map ?ev (i # is)) (log l) (log l') p p'"
      by (rule cut_shortI [of _ "[]" "[]" "batch @ map ?ev (i # is)" _ "''context''"]) (use r Cons.prems(2) in simp_all)
    then show ?thesis using Cons.prems(1) r by (simp add: Let_def)
  next
    case None
    let ?b = "batch @ [e]"
    show ?thesis
    proof (cases "int (length ?b) \<ge> pr_batch_size c")
      case False
      then have "produce_orders enc rng ctx ap c is ?b (l, p) = (r, (l', p'))" using Cons.prems(4) None ev by (simp add: Let_def)
      from Cons.IH [OF Cons.prems(1) _ _ this] show ?thesis using Cons.prems(3) False ev(2) by (simp add: not_le)
    next
      case True
      have len: "int (length ?b) = pr_batch_size c" using True Cons.prems(2) by simp
      obtain q l1 where q: "append_order_events ap ?b l = (q, l1)" by fastforce
      have gb: "\<forall>e \<in> set ?b. good e" using Cons.prems(3) ev(2) by simp
      note A = append_events_ok [OF Cons.prems(1) gb q]
      show ?thesis
      proof (cases q)
        case (Inl err)
        then have r: "r = Inl err" "l' = l1" "p' = snd (record_producer_error (pr_metrics c) ''append'' ((), p))"
          using Cons.prems(4) None ev True q by (simp_all add: Let_def at_log_def record_producer_error_def)
        have "cut_short (pr_metrics c) (pr_batch_size c) (?b @ map ?ev is) (log l) (log l1) p p'"
          by (rule cut_shortI [of _ "[]" ?b "map ?ev is" _ "''append''"]) (use r len A(2) Inl in simp_all)
        then show ?thesis using A(1) ev(2) r by (simp add: Let_def)
      next
        case (Inr u)
        let ?p1 = "foldl (\<lambda>p e. record_producer_event (pr_metrics c) e p) p ?b"
        have "produce_orders enc rng ctx ap c is [] (l1, ?p1) = (r, (l', p'))" using Cons.prems(4) None ev True q Inr
          by (simp add: Let_def at_log_def record_producer_events_def)
        note I = Cons.IH [OF A(1) _ _ this, unfolded Let_def append_Nil]
        have pos: "int (length ([] :: event list)) < pr_batch_size c" using Cons.prems(2) by simp
        have g2: "\<forall>e \<in> set (map ?ev is). good e" using Cons.prems(3) by simp
        have a: "log l1 k = log l k @ of_shard k ?b" for k using A(2) Inr by simp
        have all: "batch @ map ?ev (i # is) = ?b @ map ?ev is" using ev(2) by simp
        show ?thesis
        proof (cases r)
          case (Inl err)
          have "cut_short (pr_metrics c) (pr_batch_size c) (?b @ map ?ev is) (log l) (log l') p p'"
            by (rule cut_short_after [OF a len]) (use I [OF pos] g2 Inl in simp)
          then show ?thesis using I [OF pos] g2 Inl unfolding all by (simp add: Let_def)
        next
          case (Inr b)
          then obtain sent where s: "map ?ev is = sent @ b" "pr_batch_size c dvd int (length sent)" "int (length b) < pr_batch_size c"
            "\<And>k. log l' k = log l1 k @ of_shard k sent" "p' = foldl (\<lambda>p e. record_producer_event (pr_metrics c) e p) ?p1 sent" "ok l'"
            using I [OF pos] g2 by auto
          have "pr_batch_size c dvd int (length (?b @ sent))" using s(2) len by (metis dvd_add dvd_refl length_append of_nat_add)
          then show ?thesis using s a Inr unfolding all Let_def
            by (intro conjI) (auto intro!: exI [of _ "?b @ sent"])
        qed
      qed
    qed
  qed
qed

end

lemma producer_run_ok:
  fixes cfg :: "('l, 'p) producer_config"
  assumes L: "shard_log ap logged ok good" "pr_event_log cfg = Some ap" "ok l" "\<forall>x. \<exists>v. enc x = Inr v"
    and good: "\<forall>e \<in> set (orders_of enc rng (producer_defaults cfg)). good e"
    and run: "producer_run enc rng ctx cfg (l, p) = (r, (l', p'))"
  shows "let c = producer_defaults cfg; es = orders_of enc rng c in
    case validate_producer c of
      Some err \<Rightarrow> r = Inl err \<and> l' = l \<and> p' = p
    | None \<Rightarrow> (case r of
       Inr res \<Rightarrow> (\<forall>k. logged l' k = logged l k @ of_shard k es) \<and>
         p' = foldl (\<lambda>p e. record_producer_event (pr_metrics c) e p) p es \<and>
         prr_orders res = int (length es) \<and> prr_first_id res = pr_start_id c
     | Inl err \<Rightarrow> cut_short (pr_metrics c) (pr_batch_size c) es (logged l) (logged l') p p')"
proof -
  define c where "c = producer_defaults cfg"
  define es where "es = orders_of enc rng c"
  have ap: "pr_event_log c = Some ap" using L(2) by (simp add: c_def producer_defaults_def)
  have size: "0 < pr_batch_size c" by (simp add: c_def producer_defaults_def)
  note run' = run [unfolded producer_run_def Let_def, folded c_def]
  show ?thesis
  proof (cases "validate_producer c")
    case (Some err)
    then show ?thesis using run' unfolding c_def by (simp add: Let_def)
  next
    case None
    then have n: "0 \<le> pr_orders c" by (simp add: validate_producer_def split: if_splits)
    have len: "int (length es) = pr_orders c" using n by (simp add: es_def orders_of_def)
    obtain q l1 p1 where q: "produce_orders enc rng ctx ap c [0..pr_orders c - 1] [] (l, p) = (q, (l1, p1))" by (metis prod.exhaust)
    have s: "ok l1 \<and> (case q of
         Inr b \<Rightarrow> (\<exists>sent. es = sent @ b \<and> pr_batch_size c dvd int (length sent) \<and> int (length b) < pr_batch_size c \<and>
           (\<forall>k. logged l1 k = logged l k @ of_shard k sent) \<and> p1 = foldl (\<lambda>p e. record_producer_event (pr_metrics c) e p) p sent)
       | Inl err \<Rightarrow> cut_short (pr_metrics c) (pr_batch_size c) es (logged l) (logged l1) p p1)"
      using shard_log.produce_orders_ok [OF L(1) L(4) L(3) _ _ q] good size unfolding es_def orders_of_def c_def by (simp add: Let_def)
    have fin: "case r of
       Inr res \<Rightarrow> (\<forall>k. logged l' k = logged l k @ of_shard k es) \<and>
         p' = foldl (\<lambda>p e. record_producer_event (pr_metrics c) e p) p es \<and>
         prr_orders res = int (length es) \<and> prr_first_id res = pr_start_id c
     | Inl err \<Rightarrow> cut_short (pr_metrics c) (pr_batch_size c) es (logged l) (logged l') p p'"
    proof (cases q)
      case (Inl err)
      then have "r = Inl err" "l' = l1" "p' = p1" using run' None ap q by simp_all
      then show ?thesis using s Inl by simp
    next
      case (Inr rest)
      then obtain sent where S: "es = sent @ rest" "pr_batch_size c dvd int (length sent)" "int (length rest) < pr_batch_size c"
        and l1: "\<And>k. logged l1 k = logged l k @ of_shard k sent" and p1: "p1 = foldl (\<lambda>p e. record_producer_event (pr_metrics c) e p) p sent"
        using s by auto
      show ?thesis
      proof (cases "rest = []")
        case True
        then show ?thesis using run' None ap q Inr l1 p1 S(1) len by auto
      next
        case False
        obtain t l2 where t: "append_order_events ap rest l1 = (t, l2)" by fastforce
        have "\<forall>e \<in> set rest. good e" using good S(1) unfolding es_def c_def by auto
        note A = shard_log.append_events_ok [OF L(1) conjunct1 [OF s] this t]
        show ?thesis
        proof (cases t)
          case (Inl err)
          then have r: "r = Inl err" "l' = l2" "p' = snd (record_producer_error (pr_metrics c) ''append'' ((), p1))"
            using run' None ap q Inr False t by (simp_all add: at_log_def record_producer_error_def)
          have "appended (logged l) (logged l2) sent rest"
            using A(2) Inl appended_trans [of "logged l1" "logged l" sent "logged l2" "[]" rest] l1 by simp
          then have "cut_short (pr_metrics c) (pr_batch_size c) es (logged l) (logged l2) p p'"
            by (intro cut_shortI [of _ sent rest "[]" _ "''append''"]) (use S r p1 in simp_all)
          then show ?thesis using r by simp
        next
          case t2: (Inr u)
          then have "l' = l2" "p' = foldl (\<lambda>p e. record_producer_event (pr_metrics c) e p) p1 rest"
            "\<exists>res. r = Inr res \<and> prr_orders res = pr_orders c \<and> prr_first_id res = pr_start_id c"
            using run' None ap q Inr False t by (auto simp: at_log_def record_producer_events_def)
          then show ?thesis using A(2) t2 S(1) l1 p1 len by auto
        qed
      qed
    qed
    then show ?thesis using None unfolding es_def c_def by (simp add: Let_def)
  qed
qed

lemma created_event_shard:
  assumes "pr_area_size c \<le> 2 ^ 62" "pr_cell_size c \<le> 2 ^ 62" "0 < pr_shards c" "pr_shards c \<le> 2 ^ 52" "created_event enc rng c i = Inr e"
  shows "0 \<le> ev_shard_id e \<and> ev_shard_id e < pr_shards c"
proof -
  let ?l = "new_layout (pr_area_size c) (pr_cell_size c) (pr_shards c)"
  have "layout_ok ?l" using assms by (intro new_layout_ok) simp_all
  moreover have "l_shard_count ?l = pr_shards c" using assms(3) by (simp add: new_layout_def Let_def)
  ultimately have "0 \<le> shard_id ?l x y \<and> shard_id ?l x y < pr_shards c" for x y using shard_id_range [of ?l x y] by simp
  then show ?thesis using assms(5) by (auto simp: created_event_def Let_def split: sum.splits)
qed

lemma created_event_id:
  "created_event enc rng c i = Inr e \<Longrightarrow> ev_id e = ''order-'' @ itoa (wrap64 (pr_start_id c + i)) @ ''-created''"
  by (auto simp: created_event_def Let_def split: sum.splits)

lemma producer_defaults_ranges:
  "0 < pr_shards (producer_defaults c)" "0 < pr_batch_size (producer_defaults c)" "0 < pr_area_size (producer_defaults c)"
  "0 < pr_cell_size (producer_defaults c)" "pr_event_log (producer_defaults c) = pr_event_log c"
  by (auto simp: producer_defaults_def)

lemma orders_of_shard:
  assumes "\<forall>x. \<exists>v. enc x = Inr v" "pr_area_size c \<le> 2 ^ 62" "pr_cell_size c \<le> 2 ^ 62" "0 < pr_shards c" "pr_shards c \<le> 2 ^ 52"
    "e \<in> set (orders_of enc rng c)"
  shows "0 \<le> ev_shard_id e \<and> ev_shard_id e < pr_shards c"
proof -
  obtain i where e: "e = projr (created_event enc rng c i)" using assms(6) by (auto simp: orders_of_def)
  obtain e' where "created_event enc rng c i = Inr e'" "projr (created_event enc rng c i) = e'" by (rule created_event_total [OF assms(1)])
  then show ?thesis using created_event_shard [OF assms(2-5), of enc rng i e'] e by simp
qed

lemma orders_of_ids:
  assumes "\<forall>x. \<exists>v. enc x = Inr v" "0 < pr_start_id c" "pr_start_id c + pr_orders c \<le> 2 ^ 63"
  shows "distinct (map ev_id (orders_of enc rng c))"
proof -
  have "map ev_id (orders_of enc rng c) = map (\<lambda>i. ''order-'' @ itoa (pr_start_id c + i) @ ''-created'') [0..pr_orders c - 1]"
    unfolding orders_of_def map_map comp_def
  proof (rule map_cong [OF refl])
    fix i assume "i \<in> set [0..pr_orders c - 1]"
    then have "wrap64 (pr_start_id c + i) = pr_start_id c + i" using assms(2,3) by (intro wrap64_id) (simp add: in64_def)
    moreover obtain e where "created_event enc rng c i = Inr e" by (rule created_event_total [OF assms(1)])
    ultimately show "ev_id (projr (created_event enc rng c i)) = ''order-'' @ itoa (pr_start_id c + i) @ ''-created''"
      using created_event_id [of enc rng c i e] by simp
  qed
  moreover have "inj_on (\<lambda>i. ''order-'' @ itoa (pr_start_id c + i) @ ''-created'') A" for A
    by (rule inj_onI) (auto dest: itoa_inj)
  ultimately show ?thesis by (simp add: distinct_map)
qed

text \<open>
  Property C30: a run of the producer that succeeds has appended to every shard's log exactly the
  events of its orders, in order, and counted each of them, whatever the batch size; they are
  determined by the configuration, have distinct identifiers and shards of the layout. A run that fails
  over its configuration has done nothing. A run that fails later has appended and counted, in order, the
  events of a number of whole batches; at most pieces of the next batch are in the logs, and only if it is
  an append that failed; none of the later events is; and the failure is counted once.
\<close>

theorem producer_appends_all_orders:
  fixes cfg :: "('l, 'p) producer_config"
  assumes "shard_log ap logged ok good" "pr_event_log cfg = Some ap" "ok l" "\<forall>x. \<exists>v. enc x = Inr v"
    and "pr_area_size cfg \<le> 2 ^ 62" "pr_cell_size cfg \<le> 2 ^ 62" "pr_shards cfg \<le> 2 ^ 52"
    and "\<forall>e. 0 \<le> ev_shard_id e \<and> ev_shard_id e < pr_shards (producer_defaults cfg) \<longrightarrow> good e"
    and "producer_run enc rng ctx cfg (l, p) = (r, (l', p'))"
  shows "let c = producer_defaults cfg; es = orders_of enc rng c in
    (case validate_producer c of
       Some err \<Rightarrow> r = Inl err \<and> l' = l \<and> p' = p
     | None \<Rightarrow> (case r of
         Inr res \<Rightarrow> (\<forall>k. logged l' k = logged l k @ of_shard k es) \<and>
           p' = foldl (\<lambda>p e. record_producer_event (pr_metrics c) e p) p es \<and>
           prr_orders res = int (length es) \<and> prr_first_id res = pr_start_id c
       | Inl err \<Rightarrow> (\<exists>sent part rest reason. es = sent @ part @ rest \<and>
           pr_batch_size c dvd int (length sent) \<and> int (length part) \<le> pr_batch_size c \<and> (reason \<noteq> ''append'' \<longrightarrow> part = []) \<and>
           (\<forall>k. \<exists>zs. logged l' k = logged l k @ of_shard k sent @ zs \<and> set zs \<subseteq> set part) \<and>
           p' = snd (record_producer_error (pr_metrics c) reason (l', foldl (\<lambda>p e. record_producer_event (pr_metrics c) e p) p sent))))) \<and>
    (\<forall>e \<in> set es. 0 \<le> ev_shard_id e \<and> ev_shard_id e < pr_shards c) \<and>
    (0 < pr_start_id c \<and> pr_start_id c + pr_orders c \<le> 2 ^ 63 \<longrightarrow> distinct (map ev_id es))"
proof -
  define c where "c = producer_defaults cfg"
  define es where "es = orders_of enc rng c"
  have b: "pr_area_size c \<le> 2 ^ 62" "pr_cell_size c \<le> 2 ^ 62" "0 < pr_shards c" "pr_shards c \<le> 2 ^ 52"
    using assms(5-7) unfolding c_def by (auto simp: producer_defaults_def)
  have shards: "\<forall>e \<in> set es. 0 \<le> ev_shard_id e \<and> ev_shard_id e < pr_shards c"
    using orders_of_shard [OF assms(4) b] unfolding es_def by blast
  then have good: "\<forall>e \<in> set es. good e" using assms(8) unfolding c_def by blast
  have snd: "snd (record_producer_error rec reason ((), q)) = snd (record_producer_error rec reason (l', q))" for rec :: "'p recorder option" and reason q
    by (simp add: record_producer_error_def)
  note run = producer_run_ok [OF assms(1,2,3,4) _ assms(9), folded c_def, folded es_def, unfolded Let_def cut_short_def appended_def snd, OF good]
  show ?thesis using run shards orders_of_ids [OF assms(4)] unfolding Let_def c_def es_def by blast
qed

section \<open>What the retry producer sends\<close>

definition retries_of :: "(order_retry_request \<Rightarrow> go_error + string) \<Rightarrow> retry_config \<Rightarrow> (int \<Rightarrow> int) \<Rightarrow> (int \<times> int) list \<Rightarrow> event list" where
  "retries_of enc c now orders = map (\<lambda>x. projr (build_retry_event enc c (now (fst x)) x)) orders"

lemma build_retry_event_ok:
  assumes "\<forall>x. \<exists>v. enc x = Inr v"
  shows "\<exists>e. build_retry_event enc c t x = Inr e \<and> ev_shard_id e = snd x \<and> ev_id e = ''order-'' @ itoa (fst x) @ ''-retry-'' @ itoa (rt_attempt c)"
proof -
  obtain v where "enc \<lparr>orr_order_id = fst x, orr_attempt = rt_attempt c, orr_reason = rt_reason c\<rparr> = Inr v" using assms by blast
  then show ?thesis by (simp add: build_retry_event_def split_def)
qed

lemma build_retry_events_ok:
  assumes "\<forall>x. \<exists>v. enc x = Inr v"
  shows "build_retry_events enc c now orders = Inr (retries_of enc c now orders)"
proof (induction orders)
  case (Cons x xs)
  then show ?case using build_retry_event_ok [OF assms, of c "now (fst x)" x] by (auto simp: retries_of_def)
qed (simp add: retries_of_def)

lemma retries_take_drop: "retries_of enc c now (take n (drop m xs)) = take n (drop m (retries_of enc c now xs))"
  by (simp add: retries_of_def take_map drop_map)

lemma split_slice:
  assumes "0 \<le> start" "0 < b"
  shows "take (nat (min (start + b) (int (length es)) - start)) (drop (nat start) es) @ drop (nat (start + b)) es = drop (nat start) es"
proof -
  have "take (nat (min (start + b) (int (length es)) - start)) (drop (nat start) es) = take (nat b) (drop (nat start) es)"
  proof (cases "start + b \<le> int (length es)")
    case False
    then have "length (drop (nat start) es) \<le> nat (int (length es) - start)" "length (drop (nat start) es) \<le> nat b" by simp_all
    then show ?thesis using False by simp
  qed simp
  moreover have "nat (start + b) = nat b + nat start" using assms by simp
  ultimately show ?thesis by (simp flip: drop_drop)
qed

lemma split_take:
  assumes "0 \<le> start" "0 < b" "start + b \<le> n" "n < int (length es)"
  shows "take (nat (min (start + b) (int (length es)) - start)) (drop (nat start) es) @ take (nat (n - (start + b))) (drop (nat (start + b)) es) =
    take (nat (n - start)) (drop (nat start) es)"
proof -
  have "nat (n - start) = nat b + nat (n - (start + b))" "nat (start + b) = nat b + nat start" "start + b \<le> int (length es)" using assms by simp_all
  then show ?thesis by (simp add: take_add flip: drop_drop)
qed

lemma send_batches_ok:
  assumes L: "shard_log ap logged ok good" "ap_batch ap = Some b" "\<forall>x. \<exists>v. enc x = Inr v" "0 < rt_batch_size c"
    and good: "\<forall>e \<in> set (retries_of enc c now orders). good e"
  shows "ok l \<Longrightarrow> 0 \<le> start \<Longrightarrow> start \<le> int (length orders) + rt_batch_size c \<Longrightarrow>
    \<exists>n err l'. send_batches enc c now b orders start l = Some ((n, err), l') \<and> ok l' \<and>
      (case err of
         None \<Rightarrow> n = int (length orders) \<and> (\<forall>k. logged l' k = logged l k @ of_shard k (drop (nat start) (retries_of enc c now orders)))
       | Some er \<Rightarrow> start \<le> n \<and> n < int (length orders) \<and>
           appended (logged l) (logged l') (take (nat (n - start)) (drop (nat start) (retries_of enc c now orders)))
             (drop (nat n) (retries_of enc c now orders)))"
proof (induction "nat (int (length orders) - start)" arbitrary: start l rule: less_induct)
  case less
  let ?es = "retries_of enc c now orders"
  have len: "length ?es = length orders" by (simp add: retries_of_def)
  show ?case
  proof (cases "start \<ge> int (length orders)")
    case True
    then have "send_batches enc c now b orders start l = Some ((int (length orders), None), l)" by (simp add: send_batches.simps)
    then show ?thesis using less.prems(1) True len by simp
  next
    case False
    let ?stop = "min (start + rt_batch_size c) (int (length orders))"
    let ?sl = "take (nat (?stop - start)) (drop (nat start) ?es)"
    obtain q l1 where q: "b ?sl l = (q, l1)" by fastforce
    have gs: "\<forall>e \<in> set ?sl. good e" using good by (meson in_set_dropD in_set_takeD)
    have ns: "\<not> ?stop < start" using False L(4) by simp
    have step: "send_batches enc c now b orders start l = (case q of
        Inl err \<Rightarrow> Some ((start, Some (ErrWrap ''append retry batch: %w'' err)), l1)
      | Inr _ \<Rightarrow> send_batches enc c now b orders (start + rt_batch_size c) l1)"
      using False ns q by (simp add: send_batches.simps [of enc c now b orders start l] Let_def build_retry_events_ok [OF L(3)] retries_take_drop)
    show ?thesis
    proof (cases q)
      case (Inl err)
      have g: "ok l1 \<and> (\<exists>zs. logged l1 k = logged l k @ zs \<and> set zs \<subseteq> set ?sl)" for k
        using shard_log.batch_err [OF L(1,2) less.prems(1) gs] q Inl by blast
      have "set ?sl \<subseteq> set (drop (nat start) ?es)" by (auto dest: in_set_takeD)
      then have "appended (logged l) (logged l1) [] (drop (nat start) ?es)" using g unfolding appended_def by fastforce
      then show ?thesis using step Inl g False by simp
    next
      case (Inr ps)
      have g: "ok l1" "\<And>k. logged l1 k = logged l k @ of_shard k ?sl"
        using shard_log.batch [OF L(1,2) less.prems(1) gs] q Inr by blast+
      have lt: "nat (int (length orders) - (start + rt_batch_size c)) < nat (int (length orders) - start)" using False L(4) by simp
      obtain n err l' where I: "send_batches enc c now b orders (start + rt_batch_size c) l1 = Some ((n, err), l')" "ok l'"
        "case err of
         None \<Rightarrow> n = int (length orders) \<and> (\<forall>k. logged l' k = logged l1 k @ of_shard k (drop (nat (start + rt_batch_size c)) ?es))
       | Some er \<Rightarrow> start + rt_batch_size c \<le> n \<and> n < int (length orders) \<and>
           appended (logged l1) (logged l') (take (nat (n - (start + rt_batch_size c))) (drop (nat (start + rt_batch_size c)) ?es)) (drop (nat n) ?es)"
        using less.hyps [OF lt g(1)] less.prems(2) L(4) False by fastforce
      have sl: "?sl @ drop (nat (start + rt_batch_size c)) ?es = drop (nat start) ?es"
        using split_slice [of start "rt_batch_size c" ?es] less.prems(2) L(4) len by simp
      show ?thesis
      proof (cases err)
        case None
        then show ?thesis using step Inr I g(2) sl by (auto simp flip: of_shard_simps(2))
      next
        case (Some er)
        then have n: "start + rt_batch_size c \<le> n" "n < int (length orders)" using I(3) by simp_all
        have "?sl @ take (nat (n - (start + rt_batch_size c))) (drop (nat (start + rt_batch_size c)) ?es) = take (nat (n - start)) (drop (nat start) ?es)"
          using split_take [of start "rt_batch_size c" n ?es] less.prems(2) L(4) n len by simp
        then have "appended (logged l) (logged l') (take (nat (n - start)) (drop (nat start) ?es)) (drop (nat n) ?es)"
          using appended_trans [OF g(2)] I(3) Some by fastforce
        then show ?thesis using step Inr I(1,2) Some n L(4) by simp
      qed
    qed
  qed
qed

definition missed_for_retry :: "database \<Rightarrow> retry_config \<Rightarrow> (int \<times> int) list" where
  "missed_for_retry db c = map (\<lambda>i. (i, or_shard_id (the (tb_orders db i))))
     (filter (\<lambda>i. case tb_orders db i of None \<Rightarrow> False
        | Some r \<Rightarrow> or_status r = StatusMissed \<and> or_attempt r < wrap32 (rt_attempt c)) [rt_start_id c..rt_end_id c])"

lemma missed_for_retry_eq: "list_missed_orders_for_retry (rt_start_id c) (rt_end_id c) (wrap32 (rt_attempt c)) db = (Inr (missed_for_retry db c), db)"
  unfolding list_missed_orders_for_retry_def missed_for_retry_def StatusMissed_def ..

lemma retry_ids_distinct:
  assumes "\<forall>x. \<exists>v. enc x = Inr v"
  shows "distinct (map ev_id (retries_of enc c now (missed_for_retry db c)))"
proof -
  have "ev_id (projr (build_retry_event enc c t x)) = ''order-'' @ itoa (fst x) @ ''-retry-'' @ itoa (rt_attempt c)" for t x
    using build_retry_event_ok [OF assms, of c t x] by auto
  then have "map ev_id (retries_of enc c now (missed_for_retry db c)) =
      map (\<lambda>i. ''order-'' @ itoa i @ ''-retry-'' @ itoa (rt_attempt c)) (map fst (missed_for_retry db c))"
    by (simp add: retries_of_def)
  moreover have "distinct (map fst (missed_for_retry db c))" by (simp add: missed_for_retry_def comp_def)
  moreover have "inj_on (\<lambda>i. ''order-'' @ itoa i @ ''-retry-'' @ itoa (rt_attempt c)) A" for A
    by (rule inj_onI) (auto dest: itoa_inj)
  ultimately show ?thesis by (simp only: distinct_map [of "\<lambda>i. ''order-'' @ itoa i @ ''-retry-'' @ itoa (rt_attempt c)"] simp_thms)
qed

text \<open>
  Property C35: with valid arguments the retry producer comes to an end. If it reports no error, it has
  appended one event for every missed order of the range with a lower attempt, each to its order's
  shard and in the order of the identifiers, and the number it reports is theirs; if an append fails,
  the number it reports is that of the events before the failed batch, all of which are appended. The
  event identifiers are distinct and do not depend on the run, so that a second run sends no new event.
\<close>

theorem retry_producer_sends_missed_orders:
  assumes "shard_log ap logged ok good" "ap_batch ap = Some b" "ok l" "\<forall>x. \<exists>v. enc x = Inr v" "validate_arguments c = None"
    and "\<forall>i row e. tb_orders (w_db w) i = Some row \<and> ev_shard_id e = or_shard_id row \<longrightarrow> good e"
    and "en_fault en (w_tick w) = None" "\<forall>l. logged (close l) = logged l"
  shows "let es = retries_of enc c now (missed_for_retry (w_db w) c) in
    \<exists>n err w' l'. send_retry_events en enc now None (Inr (b, close)) c (w, l) = Some ((n, err), w', l') \<and> w_db w' = w_db w \<and>
      distinct (map ev_id es) \<and>
      (case err of
         None \<Rightarrow> n = int (length es) \<and> (\<forall>k. logged l' k = logged l k @ of_shard k es)
       | Some er \<Rightarrow> 0 \<le> n \<and> n < int (length es) \<and> appended (logged l) (logged l') (take (nat n) es) (drop (nat n) es))"
proof -
  let ?os = "missed_for_retry (w_db w) c"
  let ?es = "retries_of enc c now ?os"
  have bs: "0 < rt_batch_size c" using assms(5) by (auto simp: validate_arguments_def split: if_splits)
  have len: "length ?es = length ?os" by (simp add: retries_of_def)
  have "good e" if e: "e \<in> set ?es" for e
  proof -
    obtain x where x: "x \<in> set ?os" "e = projr (build_retry_event enc c (now (fst x)) x)" using e by (auto simp: retries_of_def)
    then obtain row where "tb_orders (w_db w) (fst x) = Some row" "snd x = or_shard_id row"
      by (auto simp: missed_for_retry_def split: option.splits)
    moreover have "ev_shard_id e = snd x" using build_retry_event_ok [OF assms(4), of c "now (fst x)" x] x(2) by auto
    ultimately show "good e" using assms(6) by metis
  qed
  then have "\<exists>n err l1. send_batches enc c now b ?os 0 l = Some ((n, err), l1) \<and> ok l1 \<and>
      (case err of
         None \<Rightarrow> n = int (length ?os) \<and> (\<forall>k. logged l1 k = logged l k @ of_shard k (drop (nat 0) ?es))
       | Some er \<Rightarrow> 0 \<le> n \<and> n < int (length ?os) \<and> appended (logged l) (logged l1) (take (nat (n - 0)) (drop (nat 0) ?es)) (drop (nat n) ?es))"
    using bs by (intro send_batches_ok [OF assms(1,2,4) bs _ assms(3)]) simp_all
  then obtain n err l1 where s: "send_batches enc c now b ?os 0 l = Some ((n, err), l1)"
    "case err of
       None \<Rightarrow> n = int (length ?os) \<and> (\<forall>k. logged l1 k = logged l k @ of_shard k ?es)
     | Some er \<Rightarrow> 0 \<le> n \<and> n < int (length ?os) \<and> appended (logged l) (logged l1) (take (nat n) ?es) (drop (nat n) ?es)"
    unfolding nat_zero_as_int [symmetric] drop_0 diff_0_right by auto
  obtain w1 where w1: "auto_commit en (list_missed_orders_for_retry (rt_start_id c) (rt_end_id c) (wrap32 (rt_attempt c))) w = (Inr ?os, w1)"
    "w_db w1 = w_db w"
    using assms(7) by (simp add: auto_commit_def missed_for_retry_eq)
  have "send_retry_events en enc now None (Inr (b, close)) c (w, l) = Some ((n, err), w1, close l1)"
    using s(1) w1(1) by (simp add: send_retry_events_def)
  moreover have cl: "logged (close l1) = logged l1" using assms(8) by simp
  have "case err of
       None \<Rightarrow> n = int (length ?es) \<and> (\<forall>k. logged (close l1) k = logged l k @ of_shard k ?es)
     | Some er \<Rightarrow> 0 \<le> n \<and> n < int (length ?es) \<and> appended (logged l) (logged (close l1)) (take (nat n) ?es) (drop (nat n) ?es)"
    unfolding len cl by (rule s(2))
  ultimately show ?thesis using w1(2) retry_ids_distinct [OF assms(4)] unfolding Let_def by blast
qed

section \<open>Witnesses\<close>

definition ref_log :: memory_log where
  "ref_log = (\<lambda>k. if 0 \<le> k \<and> k < 64 then Some [] else None)"

definition ref_producer :: "(memory_log, measurement list) producer_config" where
  "ref_producer = \<lparr>pr_data_dir = [], pr_event_log = Some (memory_appender None), pr_orders = 3, pr_seed = 0, pr_start_id = 0, pr_area_size = 0,
     pr_cell_size = 0, pr_shards = 0, pr_batch_size = 2, pr_metrics = Some (\<lambda>x xs. xs @ [x])\<rparr>"

abbreviation fixed_rng :: "int \<Rightarrow> nat \<Rightarrow> int \<Rightarrow> int" where
  "fixed_rng \<equiv> \<lambda>seed n bound. 40000"

lemma ref_shard: "shard_id (new_layout 100000 10000 64) 40000 40000 = 18"
  by (simp add: shard_id_default)

lemma ref_defaults: "producer_defaults ref_producer = ref_producer\<lparr>pr_data_dir := ''./data'', pr_seed := 1, pr_start_id := 1,
    pr_area_size := 100000, pr_cell_size := 10000, pr_shards := 64\<rparr>"
  by (simp add: producer_defaults_def ref_producer_def)

lemma ref_run: "\<exists>res s. producer_run (\<lambda>x. Inr ''{}'') fixed_rng (\<lambda>_. None) ref_producer (ref_log, []) = (Inr res, s)"
proof -
  have i: "[0..2::int] = [0, 1, 2]" by (simp add: upto.simps)
  show ?thesis
    unfolding producer_run_def ref_defaults Let_def
    by (simp add: ref_producer_def validate_producer_def i created_event_def ref_shard Let_def at_log_def append_order_events_def
        memory_appender_def memory_append_batch_def ref_log_def ebind_def wrap_err_def ret_def record_producer_events_def)
qed

theorem producer_appends_all_orders_witness:
  "\<exists>res l' p'. producer_run (\<lambda>x. Inr ''{}'') fixed_rng (\<lambda>_. None) ref_producer (ref_log, []) = (Inr res, (l', p')) \<and> prr_orders res = 3"
proof -
  obtain res l' p' where run: "producer_run (\<lambda>x. Inr ''{}'') fixed_rng (\<lambda>_. None) ref_producer (ref_log, []) = (Inr res, (l', p'))"
    using ref_run by (metis prod.exhaust)
  have v: "validate_producer (producer_defaults ref_producer) = None"
    unfolding ref_defaults by (simp add: validate_producer_def ref_producer_def)
  have "pr_event_log ref_producer = Some (memory_appender None)" "pr_area_size ref_producer \<le> 2 ^ 62"
    "pr_cell_size ref_producer \<le> 2 ^ 62" "pr_shards ref_producer \<le> 2 ^ 52" by (simp_all add: ref_producer_def)
  from producer_appends_all_orders [OF memshard.shard_log_axioms this(1) _ _ this(2-4) _ run]
  have "prr_orders res = int (length (orders_of (\<lambda>x. Inr ''{}'') fixed_rng (producer_defaults ref_producer)))"
    using v by (simp add: Let_def)
  moreover have "pr_orders (producer_defaults ref_producer) = 3" unfolding ref_defaults by (simp add: ref_producer_def)
  ultimately show ?thesis using run by (simp add: orders_of_def)
qed

definition ref_retry :: retry_config where
  "ref_retry = \<lparr>rt_start_id = 1, rt_end_id = 9, rt_attempt = 1, rt_reason = ''again'', rt_batch_size = 2\<rparr>"

definition ref_missed :: database where
  "ref_missed = empty_database\<lparr>tb_orders := [5 \<mapsto> row_of_state (zero_order\<lparr>os_order_id := 5, os_shard_id := 3, os_status := StatusMissed\<rparr>)]\<rparr>"

theorem retry_producer_sends_missed_orders_witness:
  "\<exists>n err w' l'. send_retry_events (calm \<lparr>ow_shard_id = 0, ow_node_id = 0, ow_epoch = 0\<rparr>) (\<lambda>x. Inr ''{}'') (\<lambda>i. 0) None (Inr (memory_append_batch None, \<lambda>l. l)) ref_retry
     (\<lparr>w_db = ref_missed, w_tx = ref_missed, w_tick = 0\<rparr>, ref_log) = Some ((n, err), w', l') \<and> w_db w' = ref_missed"
proof -
  let ?en = "calm \<lparr>ow_shard_id = 0, ow_node_id = 0, ow_epoch = 0\<rparr>"
  have "ap_batch (memory_appender None) = Some (memory_append_batch None)" by (simp add: memory_appender_def)
  moreover have "validate_arguments ref_retry = None" by (simp add: validate_arguments_def ref_retry_def)
  moreover have "en_fault ?en (w_tick \<lparr>w_db = ref_missed, w_tx = ref_missed, w_tick = 0\<rparr>) = None" by (simp add: calm_def)
  ultimately show ?thesis
    using retry_producer_sends_missed_orders [OF memshard.shard_log_axioms [of None], where b = "memory_append_batch None" and l = ref_log
        and enc = "\<lambda>x. Inr ''{}''" and c = ref_retry and w = "\<lparr>w_db = ref_missed, w_tx = ref_missed, w_tick = 0\<rparr>" and en = ?en
        and close = "\<lambda>l. l" and now = "\<lambda>i. 0"]
    by (auto simp: Let_def)
qed

end
