(* ===== verification/GoText.thy ===== *)
theory GoText
  imports Model "HOL-Library.Sublist"
begin

text \<open>
  The text handling of the program: comma separated lists of addresses (\<open>parseBrokerList\<close>,
  \<open>splitValues\<close>, \<open>splitNonEmpty\<close>, \<open>ParseEtcdEndpoints\<close>) and the prefix of the etcd keys
  (\<open>internal/tools/etcd.go\<close>), with what they use of \<open>strings\<close> and \<open>path\<close>. White space is ASCII white space.
\<close>

section \<open>\<open>strings\<close>\<close>

definition is_space :: "char \<Rightarrow> bool" where
  "is_space c \<longleftrightarrow> c \<in> {CHR 0x09, CHR 0x0A, CHR 0x0B, CHR 0x0C, CHR 0x0D, CHR '' ''}"

definition trim_space :: "string \<Rightarrow> string" where
  "trim_space s = rev (dropWhile is_space (rev (dropWhile is_space s)))"

fun split_char :: "char \<Rightarrow> string \<Rightarrow> string list" where
  "split_char c [] = [[]]"
| "split_char c (x # xs) =
     (if x = c then [] # split_char c xs
      else case split_char c xs of [] \<Rightarrow> [[x]] | p # ps \<Rightarrow> (x # p) # ps)"

fun join_char :: "char \<Rightarrow> string list \<Rightarrow> string" where
  "join_char c [] = []"
| "join_char c [p] = p"
| "join_char c (p # q # ps) = p @ c # join_char c (q # ps)"

lemma trim_space_id: "s \<noteq> [] \<Longrightarrow> \<not> is_space (hd s) \<Longrightarrow> \<not> is_space (last s) \<Longrightarrow> trim_space s = s"
proof -
  assume s: "s \<noteq> []" "\<not> is_space (hd s)" "\<not> is_space (last s)"
  have 1: "dropWhile is_space s = s" using s by (simp add: dropWhile_eq_self_iff)
  have "dropWhile is_space (rev s) = rev s" using s by (simp add: dropWhile_eq_self_iff hd_rev)
  then show "trim_space s = s" by (simp add: trim_space_def 1)
qed

lemma trim_space_ends: "trim_space s \<noteq> [] \<Longrightarrow> \<not> is_space (hd (trim_space s)) \<and> \<not> is_space (last (trim_space s))"
proof -
  let ?a = "dropWhile is_space s"
  let ?b = "dropWhile is_space (rev ?a)"
  assume "trim_space s \<noteq> []"
  then have b: "?b \<noteq> []" by (simp add: trim_space_def)
  then have a: "?a \<noteq> []" by (metis dropWhile.simps(1) rev.simps(1))
  have l: "\<not> is_space (hd ?b)" using b by (rule hd_dropWhile)
  have f: "\<not> is_space (hd ?a)" using a by (rule hd_dropWhile)
  obtain ys where ys: "rev ?a = ys @ ?b" by (metis takeWhile_dropWhile_id)
  then have "last ?b = last (rev ?a)" using b by (metis last_appendR)
  then have "last ?b = hd ?a" using a by (simp add: last_rev)
  then have "hd (trim_space s) = hd ?a" "last (trim_space s) = hd ?b" using b by (simp_all add: trim_space_def hd_rev last_rev)
  then show ?thesis using l f by simp
qed

lemma trim_space_trim [simp]: "trim_space (trim_space s) = trim_space s"
proof (cases "trim_space s = []")
  case True
  then show ?thesis unfolding True by (simp add: trim_space_def)
next
  case False
  then show ?thesis using trim_space_id trim_space_ends by blast
qed

lemma split_char_nonempty [simp]: "split_char c s \<noteq> []"
  by (induction s) (auto split: list.splits)

lemma split_char_parts: "p \<in> set (split_char c s) \<Longrightarrow> c \<notin> set p"
proof (induction s arbitrary: p)
  case (Cons x xs)
  then show ?case by (cases "split_char c xs") (auto split: if_splits)
qed simp

lemma join_split: "join_char c (split_char c s) = s"
proof (induction s)
  case (Cons x xs)
  obtain p ps where p: "split_char c xs = p # ps" by (cases "split_char c xs") auto
  then show ?case using Cons by (cases ps) auto
qed simp

lemma split_append: "c \<notin> set p \<Longrightarrow> split_char c (p @ c # s) = p # split_char c s"
  by (induction p) auto

lemma split_plain: "c \<notin> set p \<Longrightarrow> split_char c p = [p]"
  by (induction p) auto

lemma split_join: "ps \<noteq> [] \<Longrightarrow> \<forall>p \<in> set ps. c \<notin> set p \<Longrightarrow> split_char c (join_char c ps) = ps"
  by (induction c ps rule: join_char.induct) (auto simp: split_append split_plain)

section \<open>Lists of addresses\<close>

definition parse_broker_list :: "string \<Rightarrow> string list" where
  "parse_broker_list text = filter (\<lambda>p. p \<noteq> []) (map trim_space (split_char (CHR '','') text))"

definition split_values :: "string \<Rightarrow> string list" where
  "split_values text = filter (\<lambda>p. p \<noteq> []) (map trim_space (split_char (CHR '','') text))"

definition split_non_empty :: "string \<Rightarrow> string list" where
  "split_non_empty text = filter (\<lambda>p. p \<noteq> []) (map trim_space (split_char (CHR '','') text))"

definition parse_etcd_endpoints :: "string \<Rightarrow> go_error + string list" where
  "parse_etcd_endpoints text =
     (let endpoints = filter (\<lambda>p. p \<noteq> []) (map trim_space (split_char (CHR '','') text))
      in if endpoints = [] then Inl (ErrMsg ''etcd endpoints must not be empty'' []) else Inr endpoints)"

text \<open>What the four parsers have in common.\<close>

lemma address_list:
  assumes "p \<in> set (filter (\<lambda>p. p \<noteq> []) (map trim_space (split_char c s)))"
  shows "p \<noteq> [] \<and> trim_space p = p \<and> c \<notin> set p"
proof -
  obtain q where q: "q \<in> set (split_char c s)" "p = trim_space q" "p \<noteq> []" using assms by auto
  have "set (trim_space q) \<subseteq> set q" by (auto simp: trim_space_def dest!: set_dropWhileD)
  then show ?thesis using q split_char_parts by auto
qed

text \<open>Writing the addresses separated by commas, with any white space around them, and parsing them.\<close>

lemma parse_joined:
  assumes "ps \<noteq> []" "\<forall>p \<in> set ps. c \<notin> set p"
  shows "filter (\<lambda>p. p \<noteq> []) (map trim_space (split_char c (join_char c ps))) = filter (\<lambda>p. p \<noteq> []) (map trim_space ps)"
  using split_join [OF assms] by simp

section \<open>\<open>path.Clean\<close> and the etcd prefix\<close>

definition clean_step :: "bool \<Rightarrow> string list \<Rightarrow> string \<Rightarrow> string list" where
  "clean_step rooted acc part =
     (if part = [] \<or> part = ''.'' then acc
      else if part = ''..''
      then (case acc of
              [] \<Rightarrow> if rooted then [] else [part]
            | a # acc' \<Rightarrow> if a = ''..'' then part # acc else acc')
      else part # acc)"

definition path_clean :: "string \<Rightarrow> string" where
  "path_clean s =
     (if s = [] then ''.''
      else let rooted = (hd s = CHR ''/'');
               body = join_char (CHR ''/'') (rev (foldl (clean_step rooted) [] (split_char (CHR ''/'') s)))
           in if rooted then CHR ''/'' # body else if body = [] then ''.'' else body)"

definition filepath_join :: "string \<Rightarrow> string \<Rightarrow> string" where
  "filepath_join a b = (if a = [] \<and> b = [] then [] else if a = [] then path_clean b
     else if b = [] then path_clean a else path_clean (a @ CHR ''/'' # b))"

definition clean_etcd_prefix :: "string \<Rightarrow> string" where
  "clean_etcd_prefix p =
     (let p1 = trim_space p in
      if p1 = [] then ''/testp''
      else path_clean (if hd p1 = CHR ''/'' then p1 else CHR ''/'' # p1))"

definition plain_component :: "string \<Rightarrow> bool" where
  "plain_component q \<longleftrightarrow> q \<noteq> [] \<and> q \<noteq> ''.'' \<and> q \<noteq> ''..'' \<and> CHR ''/'' \<notin> set q"

lemma clean_step_plain: "plain_component q \<Longrightarrow> clean_step r acc q = q # acc"
  by (simp add: clean_step_def plain_component_def)

lemma clean_steps_plain: "\<forall>q \<in> set qs. plain_component q \<Longrightarrow> foldl (clean_step r) acc qs = rev qs @ acc"
  by (induction qs arbitrary: acc) (simp_all add: clean_step_plain)

lemma clean_steps_rooted:
  "\<forall>q \<in> set qs. CHR ''/'' \<notin> set q \<Longrightarrow> \<forall>q \<in> set acc. plain_component q \<Longrightarrow>
   \<forall>q \<in> set (foldl (clean_step True) acc qs). plain_component q"
proof (induction qs arbitrary: acc)
  case (Cons q qs)
  have "\<forall>q \<in> set (clean_step True acc q). plain_component q"
    using Cons.prems by (cases acc) (auto simp: clean_step_def plain_component_def)
  then show ?case using Cons by simp
qed simp

lemma path_clean_rooted:
  assumes "\<forall>q \<in> set qs. plain_component q"
  shows "path_clean (CHR ''/'' # join_char (CHR ''/'') qs) = CHR ''/'' # join_char (CHR ''/'') qs"
proof (cases "qs = []")
  case True
  then show ?thesis by (simp add: path_clean_def clean_step_def)
next
  case False
  have "split_char (CHR ''/'') (join_char (CHR ''/'') qs) = qs"
    by (rule split_join [OF False]) (use assms in \<open>simp add: plain_component_def\<close>)
  then show ?thesis using assms by (simp add: path_clean_def clean_steps_plain clean_step_def)
qed

text \<open>
  whatever prefix is configured, the etcd keys live under a rooted path of plain components
  (none of them empty, \<open>.\<close>, \<open>..\<close> or with a slash) that \<open>path.Clean\<close> leaves as it is; a prefix that
  has this form already is used unchanged.
\<close>

theorem clean_etcd_prefix_normal:
  "\<exists>qs. (\<forall>q \<in> set qs. plain_component q) \<and> clean_etcd_prefix p = CHR ''/'' # join_char (CHR ''/'') qs \<and>
     path_clean (clean_etcd_prefix p) = clean_etcd_prefix p \<and>
     (\<forall>ps. (\<forall>q \<in> set ps. plain_component q) \<and> trim_space (CHR ''/'' # join_char (CHR ''/'') ps) = CHR ''/'' # join_char (CHR ''/'') ps \<longrightarrow>
        clean_etcd_prefix (CHR ''/'' # join_char (CHR ''/'') ps) = CHR ''/'' # join_char (CHR ''/'') ps)"
proof -
  have "\<exists>qs. (\<forall>q \<in> set qs. plain_component q) \<and> clean_etcd_prefix p = CHR ''/'' # join_char (CHR ''/'') qs"
  proof (cases "trim_space p = []")
    case True
    have "plain_component ''testp''" by (simp add: plain_component_def)
    then show ?thesis using True by (intro exI [of _ "[''testp'']"]) (simp add: clean_etcd_prefix_def)
  next
    case False
    define s where "s = (if hd (trim_space p) = CHR ''/'' then trim_space p else CHR ''/'' # trim_space p)"
    have s: "s \<noteq> []" "hd s = CHR ''/''" using False by (simp_all add: s_def)
    let ?qs = "rev (foldl (clean_step True) [] (split_char (CHR ''/'') s))"
    have "\<forall>q \<in> set ?qs. plain_component q" using clean_steps_rooted [of "split_char (CHR ''/'') s" "[]"] split_char_parts by auto
    moreover have "clean_etcd_prefix p = CHR ''/'' # join_char (CHR ''/'') ?qs"
      using False s unfolding clean_etcd_prefix_def Let_def s_def [symmetric] by (simp add: path_clean_def Let_def)
    ultimately show ?thesis by blast
  qed
  then obtain qs where qs: "\<forall>q \<in> set qs. plain_component q" "clean_etcd_prefix p = CHR ''/'' # join_char (CHR ''/'') qs" by blast
  moreover have "clean_etcd_prefix (CHR ''/'' # join_char (CHR ''/'') ps) = CHR ''/'' # join_char (CHR ''/'') ps"
    if "\<forall>q \<in> set ps. plain_component q" "trim_space (CHR ''/'' # join_char (CHR ''/'') ps) = CHR ''/'' # join_char (CHR ''/'') ps" for ps
    unfolding clean_etcd_prefix_def Let_def that(2) using path_clean_rooted [OF that(1)] by simp
  ultimately show ?thesis using path_clean_rooted [OF qs(1)] by auto
qed

theorem clean_etcd_prefix_normal_witness:
  "trim_space ''/testp/a'' = ''/testp/a'' \<and> clean_etcd_prefix ''/testp/a'' = ''/testp/a''"
proof -
  have t: "trim_space ''/testp/a'' = ''/testp/a''" by (simp add: trim_space_def is_space_def)
  have "\<forall>q \<in> set [''testp'', ''a'']. plain_component q" by (simp add: plain_component_def)
  moreover have "CHR ''/'' # join_char (CHR ''/'') [''testp'', ''a''] = ''/testp/a''" by simp
  ultimately show ?thesis using clean_etcd_prefix_normal [of "[]"] t by metis
qed

end
