(* ===== verification/NodeApp.thy ===== *)
theory NodeApp
  imports Runner Metrics GoText
begin

text \<open>
  The node program (\<open>internal/nodeapp/app.go\<close>): it puts the runner together with the appliers, the
  stores and the metrics, and reports the offsets and the lag of its shards. The state is the database
  world and the rest (event log, ownership store, metrics) as a parameter. Worker counts
  (\<open>GOMAXPROCS\<close>) and nil-interface details are not modelled. The last part composes the layers: what
  a node does to the database over the life of a shard's goroutine, in batches or record by record.
\<close>

section \<open>Configuration\<close>

type_synonym 'x node_world = "world \<times> 'x"

definition at_world :: "(world, 'a) eff \<Rightarrow> ('x node_world, 'a) eff" where
  "at_world m = (\<lambda>(w, x). case m w of (r, w') \<Rightarrow> (r, (w', x)))"

definition at_rest :: "('x, 'a) eff \<Rightarrow> ('x node_world, 'a) eff" where
  "at_rest m = (\<lambda>(w, x). case m x of (r, x') \<Rightarrow> (r, (w, x')))"

text \<open>\<open>EventLog\<close>; \<open>nl_end_offset\<close> is there when it is also an \<open>OffsetReader\<close>.\<close>

record 'x node_log =
  nl_tail_from :: "position \<Rightarrow> ('x, unit) eff"
  nl_end_offset :: "(int \<Rightarrow> ('x, int) eff) option"

record shard_metric =
  sm_shard_id :: int
  sm_node_id :: int
  sm_epoch :: int
  sm_checkpoint_offset :: int
  sm_event_log_offset :: int
  sm_lag :: int

record node_result =
  nr_node_id :: int
  nr_shard_ids :: "int list"
  nr_event_log_dir :: string
  nr_checkpoint_dir :: string
  nr_order_state_dir :: string
  nr_submitted :: int
  nr_matched :: int
  nr_missed :: int
  nr_online_riders :: int
  nr_shard_metrics :: "shard_metric list"

text \<open>
  \<open>None\<close> is nil. \<open>nc_owner_of\<close> is there when the provider is also an \<open>OwnershipReader\<close>; \<open>nc_pool\<close> is
  the environment of the connection pool.
\<close>

record 'x node_config =
  nc_node_id :: int
  nc_shards_for_node :: "(int \<Rightarrow> ('x, ownership list) eff) option"
  nc_owner_of :: "(int \<Rightarrow> (world, ownership option) eff) option"
  nc_data_dir :: string
  nc_event_log :: "'x node_log option"
  nc_checkpoints :: "world cp_ops option"
  nc_orders :: "'x node_world order_ops option"
  nc_metrics_interval :: int
  nc_sink :: "(go_error + node_result \<Rightarrow> 'x \<Rightarrow> 'x) option"
  nc_recorder :: "'x recorder option"
  nc_workers :: int
  nc_refresh_interval :: int
  nc_batch_size :: int
  nc_batch_wait :: int
  nc_pool :: "env option"

definition node_defaults :: "'x node_config \<Rightarrow> 'x node_config" where
  "node_defaults c = c\<lparr>
     nc_node_id := (if nc_node_id c = 0 then 1 else nc_node_id c),
     nc_data_dir := (if nc_data_dir c = [] then ''./data'' else nc_data_dir c),
     nc_workers := (if nc_workers c \<le> 0 then 2 else nc_workers c),
     nc_batch_size := (if nc_batch_size c \<le> 0 then 100 else nc_batch_size c),
     nc_batch_wait := (if nc_batch_wait c \<le> 0 then 10000000 else nc_batch_wait c)\<rparr>"

definition validate_node :: "'x node_config \<Rightarrow> go_error option" where
  "validate_node c =
     (if nc_shards_for_node c = None then Some (ErrMsg ''shard provider is required'' [])
      else if nc_checkpoints c = None then Some (ErrMsg ''checkpoint store is required'' [])
      else None)"

section \<open>Putting the node together\<close>

text \<open>What it is built from when the configuration leaves it out: \<open>NewFileEventLog\<close> and \<open>NewFileStore\<close>, by directory.\<close>

record 'x node_parts =
  np_codec :: codec
  np_file_log :: "string \<Rightarrow> 'x node_log"
  np_file_orders :: "string \<Rightarrow> 'x node_world order_ops"
  np_now :: "'x node_world \<Rightarrow> int"
  np_order :: "int list \<Rightarrow> int list"

definition event_log_dir :: "'x node_config \<Rightarrow> string" where
  "event_log_dir c = filepath_join (nc_data_dir c) ''events''"

definition checkpoint_dir :: "'x node_config \<Rightarrow> string" where
  "checkpoint_dir c = filepath_join (nc_data_dir c) ''checkpoints''"

definition order_state_dir :: "'x node_config \<Rightarrow> string" where
  "order_state_dir c = filepath_join (nc_data_dir c) ''orders''"

definition active_event_log :: "'x node_parts \<Rightarrow> 'x node_config \<Rightarrow> 'x node_log" where
  "active_event_log np c = (case nc_event_log c of None \<Rightarrow> np_file_log np (event_log_dir c) | Some l \<Rightarrow> l)"

definition order_state_store :: "'x node_parts \<Rightarrow> 'x node_config \<Rightarrow> 'x node_world order_ops" where
  "order_state_store np c = (case nc_orders c of None \<Rightarrow> np_file_orders np (order_state_dir c) | Some s \<Rightarrow> s)"

text \<open>The node id of the applier with the fence; without an ownership reader it is not set.\<close>

definition base_node :: "'x node_config \<Rightarrow> int" where
  "base_node c = (case nc_owner_of c of None \<Rightarrow> 0 | Some _ \<Rightarrow> nc_node_id c)"

definition fenced_event_applier :: "'x node_parts \<Rightarrow> 'x node_config \<Rightarrow> 'x node_world record_applier" where
  "fenced_event_applier np c =
     \<lparr>ra_apply = apply_event (np_codec np) (Some (order_state_store np c)),
      ra_fenced = Some (apply_with_fence (np_codec np) (base_node c) (map_option (\<lambda>owner k. at_world (owner k)) (nc_owner_of c))
        (Some (order_state_store np c))),
      ra_record = None, ra_batch = None\<rparr>"

definition postgres_applier :: "'x node_parts \<Rightarrow> 'x node_config \<Rightarrow> env \<Rightarrow> 'x node_world record_applier" where
  "postgres_applier np c en =
     \<lparr>ra_apply = apply_event (np_codec np) (Some (order_state_store np c)),
      ra_fenced = None,
      ra_record = Some (\<lambda>r own. at_world (apply_record_with_fence en (np_codec np) (base_node c) (nc_owner_of c) (nc_node_id c) r own)),
      ra_batch = Some (\<lambda>rs own. at_world (apply_records_with_fence en (np_codec np) (base_node c) (nc_owner_of c) (nc_node_id c) rs own))\<rparr>"

definition active_applier :: "'x node_parts \<Rightarrow> 'x node_config \<Rightarrow> 'x node_world record_applier" where
  "active_applier np c = (case nc_pool c of None \<Rightarrow> fenced_event_applier np c | Some en \<Rightarrow> postgres_applier np c en)"

definition store_of_node :: "world cp_ops \<Rightarrow> 'x node_world cp_ops" where
  "store_of_node st = \<lparr>cs_save = (\<lambda>c. at_world (cs_save st c)), cs_load = (\<lambda>k. at_world (cs_load st k))\<rparr>"

definition metrics_of_node :: "'x recorder \<Rightarrow> 'x node_world event_metrics" where
  "metrics_of_node rec =
     \<lparr>me_event_apply = (\<lambda>n k t (w, x). (w, rec (IncEventApply n k t) x)),
      me_event_apply_error = (\<lambda>n k t (w, x). (w, rec (IncEventApplyError n k t) x)),
      me_fencing_reject = (\<lambda>n k (w, x). (w, rec (IncFencingReject n k) x))\<rparr>"

definition build_node :: "'x node_parts \<Rightarrow> 'x node_config \<Rightarrow> 'x node_world runner" where
  "build_node np c =
     set_metrics_recorder (map_option metrics_of_node (nc_recorder c))
       (set_batch_options (nc_batch_size c) (nc_batch_wait c)
         (set_refresh_interval (nc_refresh_interval c)
           (runner_defaults
             \<lparr>rn_id = nc_node_id c, rn_shards_for_node = (\<lambda>n. at_rest (the (nc_shards_for_node c) n)),
              rn_owner_of = map_option (\<lambda>owner k. at_world (owner k)) (nc_owner_of c),
              rn_tail_from = (\<lambda>p. at_rest (nl_tail_from (active_event_log np c) p)),
              rn_applier = Some (active_applier np c),
              rn_store = map_option store_of_node (nc_checkpoints c),
              rn_metrics = None, rn_on_start = None, rn_on_stop = None,
              rn_refresh_interval = 0, rn_batch_size = 0, rn_batch_wait = 0, rn_now = np_now np, rn_order = np_order np\<rparr>)))"

section \<open>Reporting\<close>

definition ownerships_to_shard_ids :: "ownership list \<Rightarrow> int list" where
  "ownerships_to_shard_ids owns = map ow_shard_id owns"

fun shard_metrics_of ::
  "int \<Rightarrow> (int \<times> int) list \<Rightarrow> world cp_ops \<Rightarrow> (int \<Rightarrow> ('x, int) eff) \<Rightarrow> int list \<Rightarrow> ('x node_world, shard_metric list) eff" where
  "shard_metrics_of n epochs st end_offset [] = ret []"
| "shard_metrics_of n epochs st end_offset (k # ks) =
     ebind (at_world (cs_load st k)) (\<lambda>loaded.
       let checkpoint_offset = (case loaded of None \<Rightarrow> 0 | Some c \<Rightarrow> sc_offset c) in
       ebind (at_rest (end_offset k)) (\<lambda>log_offset.
         let lag = wrap64 (log_offset - checkpoint_offset);
             m = \<lparr>sm_shard_id = k, sm_node_id = n, sm_epoch = (case map_of epochs k of None \<Rightarrow> 0 | Some e \<Rightarrow> e),
                  sm_checkpoint_offset = checkpoint_offset, sm_event_log_offset = log_offset, sm_lag = (if lag < 0 then 0 else lag)\<rparr>
         in ebind (shard_metrics_of n epochs st end_offset ks) (\<lambda>ms. ret (m # ms))))"

definition build_shard_metrics ::
  "int \<Rightarrow> int list \<Rightarrow> (int \<Rightarrow> ('x, int) eff) \<Rightarrow> world cp_ops \<Rightarrow> (int \<Rightarrow> ('x, ownership list) eff) \<Rightarrow> ('x node_world, shard_metric list) eff" where
  "build_shard_metrics n ks end_offset st shards_for_node =
     ebind (at_rest (shards_for_node n)) (\<lambda>owns.
       shard_metrics_of n (foldl (\<lambda>m own. AList.update (ow_shard_id own) (ow_epoch own) m) [] owns) st end_offset ks)"

definition result_measurements :: "node_result \<Rightarrow> measurement list" where
  "result_measurements r =
     [SetNodeOwnedShards (nr_node_id r) (int (length (nr_shard_ids r))), SetNodeSubmitted (nr_node_id r) (nr_submitted r),
      SetNodeMatched (nr_node_id r) (nr_matched r), SetNodeMissed (nr_node_id r) (nr_missed r),
      SetNodeOnlineRiders (nr_node_id r) (nr_online_riders r)] @
     concat (map (\<lambda>m. [SetShardCheckpointOffset (nr_node_id r) (sm_shard_id m) (sm_checkpoint_offset m),
        SetShardEventLogOffset (nr_node_id r) (sm_shard_id m) (sm_event_log_offset m),
        SetShardLag (nr_node_id r) (sm_shard_id m) (sm_lag m), SetShardEpoch (nr_node_id r) (sm_shard_id m) (sm_epoch m)]) (nr_shard_metrics r))"

definition record_result_metrics :: "'x recorder option \<Rightarrow> node_result \<Rightarrow> 'x \<Rightarrow> 'x" where
  "record_result_metrics rec r x = (case rec of None \<Rightarrow> x | Some f \<Rightarrow> foldl (\<lambda>x m. f m x) x (result_measurements r))"

definition collect_result :: "'x node_config \<Rightarrow> 'x node_log \<Rightarrow> ('x node_world, node_result) eff" where
  "collect_result c l =
     ebind (at_rest (the (nc_shards_for_node c) (nc_node_id c))) (\<lambda>owns.
       let ks = ownerships_to_shard_ids owns in
       case nl_end_offset l of
         None \<Rightarrow> throw (ErrMsg ''eventlog does not support end offset metrics'' [])
       | Some end_offset \<Rightarrow>
           ebind (build_shard_metrics (nc_node_id c) ks end_offset (the (nc_checkpoints c)) (the (nc_shards_for_node c))) (\<lambda>ms.
             let r = \<lparr>nr_node_id = nc_node_id c, nr_shard_ids = ks, nr_event_log_dir = event_log_dir c,
                      nr_checkpoint_dir = checkpoint_dir c, nr_order_state_dir = order_state_dir c,
                      nr_submitted = 0, nr_matched = 0, nr_missed = 0, nr_online_riders = 0, nr_shard_metrics = ms\<rparr>
             in (\<lambda>(w, x). (Inr r, (w, record_result_metrics (nc_recorder c) r x)))))"

text \<open>\<open>reportMetrics\<close>: once at the start and at every tick until the context is done.\<close>

definition emit_result :: "'x node_config \<Rightarrow> 'x node_log \<Rightarrow> 'x node_world \<Rightarrow> 'x node_world" where
  "emit_result c l s = (case collect_result c l s of (r, (w, x)) \<Rightarrow> (case nc_sink c of None \<Rightarrow> (w, x) | Some f \<Rightarrow> (w, f r x)))"

definition report_metrics :: "'x node_config \<Rightarrow> 'x node_log \<Rightarrow> nat \<Rightarrow> 'x node_world \<Rightarrow> 'x node_world" where
  "report_metrics c l ticks s = (emit_result c l ^^ Suc ticks) s"

text \<open>
  \<open>RunWithResult\<close>, for what the main loop of the runner finds; \<open>None\<close> while it runs. The reporting
  goroutine is started when there is a sink and an interval.
\<close>

definition reports :: "'x node_config \<Rightarrow> bool" where
  "reports c \<longleftrightarrow> nc_sink c \<noteq> None \<and> 0 < nc_metrics_interval c"

definition run_with_result ::
  "'x node_parts \<Rightarrow> 'x node_config \<Rightarrow> loop_event list \<Rightarrow> 'x node_world \<Rightarrow> (go_error + node_result) option \<times> 'x node_world" where
  "run_with_result np cfg es s =
     (let c = node_defaults cfg in
      case validate_node c of
        Some err \<Rightarrow> (Some (Inl err), s)
      | None \<Rightarrow>
          (case node_run (build_node np c) es (new_node s) of
             (None, nd) \<Rightarrow> (None, nd_env nd)
           | (Some err, nd) \<Rightarrow>
               if errors_is err ContextCanceled
               then (case collect_result c (active_event_log np c) (nd_env nd) of (r, s') \<Rightarrow> (Some r, s'))
               else (Some (Inl err), nd_env nd)))"

section \<open>Batches one after the other\<close>

text \<open>The work of a record does not look at the checkpoints.\<close>

abbreviation with_checkpoints :: "(string \<times> string \<times> int \<rightharpoonup> checkpoint_row) \<Rightarrow> database \<Rightarrow> database" where
  "with_checkpoints f db \<equiv> db\<lparr>tb_checkpoints := f\<rparr>"

lemma event_db_checkpoints: "event_db cd ev (with_checkpoints f db) = map_sum id (with_checkpoints f) (event_db cd ev db)"
  by (auto simp: event_db_def order_view_def put_order_def split: sum.split option.split)

lemma queue_db_checkpoints: "queue_db cd ev (with_checkpoints f db) = map_sum id (with_checkpoints f) (queue_db cd ev db)"
  by (auto simp: queue_db_def order_view_def put_order_def create_outbox_event_def split: sum.split option.split prod.split)

lemma record_db_checkpoints: "record_db cd r (with_checkpoints f db) = map_sum id (with_checkpoints f) (record_db cd r db)"
proof -
  have i: "snd (record_inbox_event c e row (with_checkpoints f db)) = with_checkpoints f (snd (record_inbox_event c e row db))" for c e row
    by (simp add: record_inbox_event_def)
  show ?thesis unfolding record_db_def i event_db_checkpoints
    by (cases "event_db cd (lr_event r) (snd (record_inbox_event ConsumerOrderWorker (ev_id (lr_event r)) (inbox_of_record r) db))")
       (simp_all add: queue_db_checkpoints)
qed

lemma records_db_checkpoints: "records_db cd rs (with_checkpoints f db) = map_sum id (with_checkpoints f) (records_db cd rs db)"
proof (induction rs arbitrary: db)
  case (Cons r rs)
  then show ?case by (cases "record_db cd r db") (simp_all add: record_db_checkpoints)
qed simp

lemma records_db_append: "records_db cd (rs @ qs) db = (case records_db cd rs db of Inl e \<Rightarrow> Inl e | Inr db1 \<Rightarrow> records_db cd qs db1)"
  by (induction rs arbitrary: db) (auto split: sum.split)

lemma checkpoint_only: "\<exists>f. snd (batch_checkpoint node rs own db) = with_checkpoints f db"
  by (auto simp: batch_checkpoint_def upsert_shard_checkpoint_def Let_def split: option.split)
     (metis database.surjective database.update_convs(5))+

lemma checkpoint_over:
  assumes "snd (batch_checkpoint node rs own d1) = with_checkpoints f d1" "tb_checkpoints d2 = tb_checkpoints d1"
    and "ps_shard_id (lr_position (last rs)) = ps_shard_id (lr_position (last qs))"
  shows "snd (batch_checkpoint node qs own (with_checkpoints f d2)) = snd (batch_checkpoint node qs own d2)"
proof -
  have f: "f = tb_checkpoints (snd (batch_checkpoint node rs own d1))" using assms(1) by simp
  show ?thesis unfolding f using assms(2,3)
    by (auto simp: batch_checkpoint_def upsert_shard_checkpoint_def Let_def split: option.splits)
qed

lemma batch_db_append:
  assumes "batch_db cd node rs own db = Inr db1" "batch_db cd node qs own db1 = Inr db2" "rs \<noteq> []" "qs \<noteq> []"
    and "\<forall>r \<in> set (rs @ qs). ps_shard_id (lr_position r) = k"
  shows "batch_db cd node (rs @ qs) own db = Inr db2"
proof -
  obtain d1 where d1: "records_db cd rs db = Inr d1" "db1 = snd (batch_checkpoint node rs own d1)"
    using assms(1) by (auto simp: batch_db_def split: sum.splits)
  obtain f where f: "snd (batch_checkpoint node rs own d1) = with_checkpoints f d1" using checkpoint_only by blast
  obtain d2' where d2': "records_db cd qs db1 = Inr d2'" "db2 = snd (batch_checkpoint node qs own d2')"
    using assms(2) by (auto simp: batch_db_def split: sum.splits)
  then obtain d2 where d2: "records_db cd qs d1 = Inr d2" "d2' = with_checkpoints f d2"
    using d1(2) f records_db_checkpoints [of cd qs f d1] by (cases "records_db cd qs d1") auto
  have "ps_shard_id (lr_position (last rs)) = ps_shard_id (lr_position (last qs))" using assms(3-5) by simp
  from checkpoint_over [OF f records_db_frame(2) [OF d2(1)] this] have "db2 = snd (batch_checkpoint node qs own d2)"
    using d2'(2) d2(2) by simp
  moreover have "batch_checkpoint node (rs @ qs) own = batch_checkpoint node qs own" using assms(4) by (simp add: batch_checkpoint_def)
  ultimately show ?thesis using d1(1) d2(1) by (simp add: batch_db_def records_db_append)
qed

section \<open>The database over the life of a goroutine\<close>

definition node_db :: "'x node_world node \<Rightarrow> database" where
  "node_db s = w_db (fst (nd_env s))"

text \<open>\<open>n\<close> of the records have taken effect, each once.\<close>

definition taken :: "codec \<Rightarrow> int \<Rightarrow> ownership \<Rightarrow> log_record list \<Rightarrow> nat \<Rightarrow> database \<Rightarrow> database \<Rightarrow> bool" where
  "taken cd node own rs n db db' \<longleftrightarrow> n \<le> length rs \<and>
     (if n = 0 then db' = db else batch_db cd node (take n rs) own db = Inr db')"

lemma taken_zero [simp]: "taken cd node own rs 0 db db"
  by (simp add: taken_def)

lemma taken_batch: "batch_db cd node rs own db = Inr db' \<Longrightarrow> rs \<noteq> [] \<Longrightarrow> taken cd node own (rs @ qs) (length rs) db db'"
  by (simp add: taken_def)

lemma taken_trans:
  assumes "batch_db cd node rs own db = Inr db1" "rs \<noteq> []" "taken cd node own qs n db1 db2"
    and "\<forall>r \<in> set (rs @ qs). ps_shard_id (lr_position r) = k"
  shows "taken cd node own (rs @ qs) (length rs + n) db db2"
proof (cases "n = 0")
  case True
  then show ?thesis using assms(1-3) by (simp add: taken_def)
next
  case False
  then have n: "n \<le> length qs" "batch_db cd node (take n qs) own db1 = Inr db2" using assms(3) by (simp_all add: taken_def)
  have ne: "take n qs \<noteq> []" using False n(1) by auto
  have k: "\<forall>r \<in> set (rs @ take n qs). ps_shard_id (lr_position r) = k" using assms(4) by (auto dest: in_set_takeD)
  have "batch_db cd node (rs @ take n qs) own db = Inr db2" by (rule batch_db_append [OF assms(1) n(2) assms(2) ne k])
  then show ?thesis using n(1) assms(2) by (simp add: taken_def)
qed

definition keeps_db :: "'x node_world runner \<Rightarrow> bool" where
  "keeps_db rn \<longleftrightarrow> (\<forall>ev s. node_db (record_event_apply rn ev s) = node_db s \<and> node_db (record_event_apply_error rn ev s) = node_db s)"

lemma metrics_fold_db: "keeps_db rn \<Longrightarrow> node_db (foldl (\<lambda>s r. record_event_apply rn (lr_event r) s) s rs) = node_db s"
  by (induction rs arbitrary: s) (simp_all add: keeps_db_def)

lemma remember_db [simp]: "node_db (remember_checkpoint p s) = node_db s"
  by (simp add: node_db_def)

lemma apply_batch_db:
  assumes "honest en" "quiet_reader reader"
    and "at_env (at_world (apply_records_with_fence en cd base reader node rs own)) s = (r, s')"
  shows "(r = Inr () \<and> batch_db cd node rs own (node_db s) = Inr (node_db s')) \<or>
    (\<exists>err. r = Inl err \<and> (node_db s' = node_db s \<or> batch_db cd node rs own (node_db s) = Inr (node_db s')))"
proof -
  obtain w x where e: "nd_env s = (w, x)" by fastforce
  obtain q w' where q: "apply_records_with_fence en cd base reader node rs own w = (q, w')" by fastforce
  have "r = q" "node_db s' = w_db w'" "node_db s = w_db w" using assms(3) e q by (auto simp: at_env_def at_world_def node_db_def)
  then show ?thesis using apply_records_outcome [OF assms(1,2) q] by simp
qed

lemma run_batched_db:
  fixes rn :: "'x node_world runner"
  assumes h: "honest en" and q: "quiet_reader reader" and m: "keeps_db rn" and b: "0 < rn_batch_size rn"
  shows "\<forall>r \<in> set (received es). ps_shard_id (lr_position r) = k \<Longrightarrow>
    run_batched_shard rn (\<lambda>rs own. at_world (apply_records_with_fence en cd base reader node rs own)) own es s = (res, s') \<Longrightarrow>
    \<exists>n. taken cd node own (received es) n (node_db s) (node_db s') \<and> (closes es \<and> res = Some None \<longrightarrow> n = length (received es))"
proof (induction es arbitrary: s rule: measure_induct_rule [of length])
  case (less es)
  let ?ap = "\<lambda>rs own. at_world (apply_records_with_fence en cd base reader node rs own) :: ('x node_world, unit) eff"
  obtain c es' where c: "collect_record_batch (rn_batch_size rn) es = (c, es')" by fastforce
  note run = less.prems(2) [unfolded run_batched_shard.simps [of rn ?ap own es s] c prod.case]
  show ?case
  proof (cases "\<exists>bs. c = Batch bs")
    case False
    then have "s' = s" "c \<noteq> NotOpen \<longrightarrow> res \<noteq> Some None" using run by (cases c; auto)+
    moreover have "closes es \<and> c = NotOpen \<longrightarrow> received es = []" using collect_batch_closed [OF c] by auto
    moreover have "closes es \<longrightarrow> c = NotOpen" using collect_batch_closed [OF c] False by auto
    ultimately show ?thesis by (intro exI [of _ 0]) auto
  next
    case True
    then obtain rs where rs: "c = Batch rs" by blast
    have cb: "received es = rs @ received es'" "rs \<noteq> []" using collect_batch [OF c [unfolded rs] b] by simp_all
    have lt: "length es' < length es" using collect_batch_length c rs by blast
    obtain r1 s1 where 1: "at_env (?ap rs own) s = (r1, s1)" by fastforce
    note A = apply_batch_db [OF h q 1]
    show ?thesis
    proof (cases r1)
      case (Inl err)
      have "s' = record_event_apply_error rn (lr_event (hd rs)) s1" "res = Some (Some err)" using run rs 1 Inl by simp_all
      then have d: "node_db s' = node_db s1" "res \<noteq> Some None" using m by (simp_all add: keeps_db_def)
      consider "node_db s1 = node_db s" | "batch_db cd node rs own (node_db s) = Inr (node_db s1)" using A Inl by auto
      then show ?thesis
      proof cases
        case 1
        then show ?thesis using d by (intro exI [of _ 0]) simp
      next
        case 2
        then show ?thesis using d taken_batch [OF 2 cb(2), of "received es'"] cb(1) by auto
      qed
    next
      case (Inr u)
      let ?s2 = "remember_checkpoint (lr_position (last rs)) (foldl (\<lambda>s r. record_event_apply rn (lr_event r) s) s1 rs)"
      have bd: "batch_db cd node rs own (node_db s) = Inr (node_db s1)" using A Inr by simp
      have d2: "node_db ?s2 = node_db s1" using metrics_fold_db [OF m] by simp
      have run2: "run_batched_shard rn ?ap own es' ?s2 = (res, s')" using run rs 1 Inr by simp
      have k: "\<forall>r \<in> set (received es'). ps_shard_id (lr_position r) = k" using less.prems(1) cb(1) by simp
      obtain n where n: "taken cd node own (received es') n (node_db s1) (node_db s')" "closes es' \<and> res = Some None \<longrightarrow> n = length (received es')"
        using less.IH [OF lt k run2] d2 by auto
      have "closes es \<longrightarrow> closes es'" using collect_batch_closed [OF c] rs by auto
      then show ?thesis using taken_trans [OF bd cb(2) n(1)] n(2) less.prems(1) cb(1)
        by (intro exI [of _ "length rs + n"]) auto
    qed
  qed
qed

lemma build_node_fields:
  "rn_applier (build_node np c) = Some (active_applier np c)" "0 < rn_batch_size (build_node np c)"
  "rn_store (build_node np c) = map_option store_of_node (nc_checkpoints c)"
  "rn_metrics (build_node np c) = map_option metrics_of_node (nc_recorder c)"
  by (simp_all add: build_node_def set_metrics_recorder_def set_batch_options_def set_refresh_interval_def runner_defaults_def Let_def)

lemma build_node_keeps_db: "keeps_db (build_node np c)"
  by (auto simp: keeps_db_def node_db_def record_event_apply_def record_event_apply_error_def build_node_fields(4) metrics_of_node_def
      split: option.split prod.split)

abbreviation order_checkpoint :: "database \<Rightarrow> int \<Rightarrow> checkpoint_row option" where
  "order_checkpoint db k \<equiv> tb_checkpoints db (ConsumerOrderWorker, TopicOrderEvents, k)"

lemma batch_checkpoint_at:
  assumes "batch_db cd node rs own db = Inr db'" "ps_shard_id (lr_position (last rs)) = k" "in32 k"
  shows "\<exists>row. order_checkpoint db' k = Some row \<and>
    (cr_offset_value row = wrap64 (ps_offset (lr_position (last rs)) + 1) \<or> ow_epoch own < cr_epoch row)"
proof -
  obtain d1 where "db' = snd (batch_checkpoint node rs own d1)" using assms(1) by (auto simp: batch_db_def split: sum.splits)
  then show ?thesis using assms(2,3)
    by (auto simp: batch_checkpoint_def upsert_shard_checkpoint_def Let_def split: option.splits)
qed

lemma start_offset_db:
  assumes "honest en" "rn_store rn = Some (store_of_node (postgres_cp_ops en ConsumerOrderWorker TopicOrderEvents))" "in32 (ow_shard_id own)"
    and "start_shard rn own s = (Inr (), s')" "order_checkpoint (node_db s) (ow_shard_id own) = Some row"
  shows "go_offset (last (nd_started s')) = cr_offset_value row"
proof -
  let ?k = "ow_shard_id own" and ?st = "postgres_cp_ops en ConsumerOrderWorker TopicOrderEvents"
  obtain w x where e: "nd_env s = (w, x)" by fastforce
  obtain s1 where l: "load_shard_checkpoint rn ?k s = (Inr (go_offset (last (nd_started s'))), s1)" using start_shard_offset [OF assms(4)] by blast
  obtain y w' where ld: "cs_load ?st ?k w = (y, w')" by fastforce
  then obtain z where z: "y = Inr z"
    using l assms(2) e by (cases y) (simp_all add: load_shard_checkpoint_def Let_def at_env_def store_of_node_def at_world_def ebind_def)
  have "z = table_view ConsumerOrderWorker TopicOrderEvents (w_db w) ?k"
    using checkpoint_store.load [OF postgres_checkpoint_contract [OF assms(1)] TrueI assms(3)] ld z by blast
  then have "z = Some (checkpoint_of_row ?k row)" using assms(3,5) e by (simp add: table_view_def node_db_def)
  then show ?thesis using l ld z assms(2) e
    by (simp add: load_shard_checkpoint_def Let_def at_env_def store_of_node_def at_world_def ebind_def checkpoint_of_row_def)
qed

text \<open>
  Property C1: over the whole life of a shard's goroutine on a node with the Postgres applier, whatever
  the batches, timers and faults, and whether or not the reply to a commit was lost, the database is
  what the first \<open>n\<close> of the received records make of it, each applied once; without an error and with the
  channel closed these are all of them. Any node that then starts the shard begins right after the
  \<open>n\<close>-th record, unless an owner of a newer epoch has moved the checkpoint since.
\<close>

theorem node_stream_exactly_once:
  fixes np :: "'x node_parts"
  assumes "nc_pool c = Some en" "honest en" "quiet_reader (nc_owner_of c)"
    and "\<forall>r \<in> set (received es). ps_shard_id (lr_position r) = ow_shard_id own" "in32 (ow_shard_id own)"
    and "run_dynamic_shard (build_node np c) own es s = (res, s')"
  shows "\<exists>n. taken (np_codec np) (nc_node_id c) own (received es) n (node_db s) (node_db s') \<and>
    (closes es \<and> res = Some None \<longrightarrow> n = length (received es)) \<and>
    (\<forall>(np2 :: 'x node_parts) c2 en2 own2 s2 s3.
       0 < n \<and> honest en2 \<and> nc_checkpoints c2 = Some (postgres_cp_ops en2 ConsumerOrderWorker TopicOrderEvents) \<and>
       ow_shard_id own2 = ow_shard_id own \<and> node_db s2 = node_db s' \<and> start_shard (build_node np2 c2) own2 s2 = (Inr (), s3) \<longrightarrow>
       go_offset (last (nd_started s3)) = wrap64 (ps_offset (lr_position (received es ! (n - 1))) + 1) \<or>
       (\<exists>row. order_checkpoint (node_db s') (ow_shard_id own) = Some row \<and> ow_epoch own < cr_epoch row \<and>
          go_offset (last (nd_started s3)) = cr_offset_value row))"
proof -
  let ?k = "ow_shard_id own"
  have ap: "active_applier np c = postgres_applier np c en" using assms(1) by (simp add: active_applier_def)
  have "run_batched_shard (build_node np c)
      (\<lambda>rs own. at_world (apply_records_with_fence en (np_codec np) (base_node c) (nc_owner_of c) (nc_node_id c) rs own)) own es s = (res, s')"
    using assms(6) by (simp add: run_dynamic_shard_def build_node_fields ap postgres_applier_def)
  from run_batched_db [OF assms(2,3) build_node_keeps_db build_node_fields(2) assms(4) this] obtain n where
    n: "taken (np_codec np) (nc_node_id c) own (received es) n (node_db s) (node_db s')" "closes es \<and> res = Some None \<longrightarrow> n = length (received es)"
    by blast
  have next_start: "go_offset (last (nd_started s3)) = wrap64 (ps_offset (lr_position (received es ! (n - 1))) + 1) \<or>
       (\<exists>row. order_checkpoint (node_db s') ?k = Some row \<and> ow_epoch own < cr_epoch row \<and> go_offset (last (nd_started s3)) = cr_offset_value row)"
    if a: "0 < n" "honest en2" "nc_checkpoints c2 = Some (postgres_cp_ops en2 ConsumerOrderWorker TopicOrderEvents)"
      "ow_shard_id own2 = ?k" "node_db s2 = node_db s'" "start_shard (build_node np2 c2) own2 s2 = (Inr (), s3)"
    for np2 :: "'x node_parts" and c2 en2 own2 s2 s3
  proof -
    let ?rs = "take n (received es)"
    have b: "n \<le> length (received es)" "batch_db (np_codec np) (nc_node_id c) ?rs own (node_db s) = Inr (node_db s')"
      using n(1) a(1) by (simp_all add: taken_def)
    have "?rs \<noteq> []" using a(1) b(1) by auto
    then have l: "last ?rs = received es ! (n - 1)" using a(1) b(1) by (simp add: last_conv_nth)
    have "ps_shard_id (lr_position (last ?rs)) = ?k" using assms(4) a(1) b(1) l by simp
    from batch_checkpoint_at [OF b(2) this assms(5)] obtain row where row: "order_checkpoint (node_db s') ?k = Some row"
      "cr_offset_value row = wrap64 (ps_offset (lr_position (last ?rs)) + 1) \<or> ow_epoch own < cr_epoch row" by blast
    have st: "rn_store (build_node np2 c2) = Some (store_of_node (postgres_cp_ops en2 ConsumerOrderWorker TopicOrderEvents))"
      using a(3) by (simp add: build_node_fields)
    have "go_offset (last (nd_started s3)) = cr_offset_value row"
      by (rule start_offset_db [OF a(2) st _ a(6)]) (use assms(5) a(4,5) row(1) in simp_all)
    then show ?thesis using row l by auto
  qed
  then show ?thesis using n by blast
qed

definition seven_parts :: "unit node_parts" where
  "seven_parts = \<lparr>np_codec = seven_codec, np_file_log = (\<lambda>d. \<lparr>nl_tail_from = (\<lambda>p. ret ()), nl_end_offset = None\<rparr>),
     np_file_orders = (\<lambda>d. \<lparr>oo_load = (\<lambda>i. ret None), oo_save = (\<lambda>x. ret ())\<rparr>), np_now = (\<lambda>_. 0), np_order = (\<lambda>ks. ks)\<rparr>"

definition seven_node :: "unit node_config" where
  "seven_node = \<lparr>nc_node_id = 1, nc_shards_for_node = Some (\<lambda>n. ret [five_owned]), nc_owner_of = Some (owner_of (calm five_owned)),
     nc_data_dir = [], nc_event_log = None, nc_checkpoints = Some (postgres_cp_ops (calm five_owned) ConsumerOrderWorker TopicOrderEvents),
     nc_orders = None, nc_metrics_interval = 0, nc_sink = None, nc_recorder = None, nc_workers = 0, nc_refresh_interval = 0,
     nc_batch_size = 0, nc_batch_wait = 0, nc_pool = Some (calm five_owned)\<rparr>"

theorem node_stream_exactly_once_witness:
  "\<exists>res s' n. run_dynamic_shard (build_node seven_parts seven_node) five_owned [Received (seven_record 0 ''e1'' EventOrderCreated), TimerFired, ChanClosed]
       (new_node (start_world empty_database, ())) = (res, s') \<and>
     taken seven_codec 1 five_owned [seven_record 0 ''e1'' EventOrderCreated] n empty_database (node_db s')"
proof -
  let ?es = "[Received (seven_record 0 ''e1'' EventOrderCreated), TimerFired, ChanClosed]"
  obtain res s' where r: "run_dynamic_shard (build_node seven_parts seven_node) five_owned ?es (new_node (start_world empty_database, ())) = (res, s')"
    by fastforce
  have c: "nc_pool seven_node = Some (calm five_owned)" "quiet_reader (nc_owner_of seven_node)" "nc_node_id seven_node = 1"
    by (simp_all add: seven_node_def quiet_owner_of)
  have k: "\<forall>r \<in> set (received ?es). ps_shard_id (lr_position r) = ow_shard_id five_owned" "in32 (ow_shard_id five_owned)"
    by (simp_all add: seven_record_def five_owned_def in32_def)
  have "node_db (new_node (start_world empty_database, ())) = empty_database" by (simp add: node_db_def new_node_def start_world_def)
  then show ?thesis using node_stream_exactly_once [OF c(1) calm_honest c(2) k r] r c(3) by (auto simp: seven_parts_def)
qed

section \<open>Batches and single records\<close>

text \<open>The records \<open>rs\<close> of shard \<open>k\<close> have been consumed: they are in the tables, and the next offset is known.\<close>

definition consumed :: "codec \<Rightarrow> int \<Rightarrow> ownership \<Rightarrow> int \<Rightarrow> log_record list \<Rightarrow> 'x node_world node \<Rightarrow> 'x node_world node \<Rightarrow> bool" where
  "consumed cd node own k rs s s' \<longleftrightarrow>
     (if rs = [] then node_db s' = node_db s \<and> nd_next s' = nd_next s
      else batch_db cd node rs own (node_db s) = Inr (node_db s') \<and>
        nd_next s' = (nd_next s)(k := wrap64 (ps_offset (lr_position (last rs)) + 1)))"

lemma consumed_append:
  assumes "consumed cd node own k rs s s1" "consumed cd node own k qs s1 s2" "\<forall>r \<in> set (rs @ qs). ps_shard_id (lr_position r) = k"
  shows "consumed cd node own k (rs @ qs) s s2"
proof (cases "rs = [] \<or> qs = []")
  case True
  then show ?thesis using assms(1,2) by (auto simp: consumed_def)
next
  case False
  then show ?thesis using assms(1,2) batch_db_append [OF _ _ _ _ assms(3), of cd node own "node_db s" "node_db s1" "node_db s2"]
    by (simp add: consumed_def)
qed

lemma consumed_same:
  "consumed cd node own k rs s s1 \<Longrightarrow> consumed cd node own k rs t t1 \<Longrightarrow> node_db t = node_db s \<Longrightarrow> nd_next t = nd_next s \<Longrightarrow>
   node_db t1 = node_db s1 \<and> nd_next t1 = nd_next s1"
  by (auto simp: consumed_def split: if_splits)

lemma metrics_fold_next: "nd_next (foldl (\<lambda>s r. record_event_apply rn (lr_event r) s) s rs) = nd_next s"
  by (induction rs arbitrary: s) simp_all

lemma collect_not_open: "collect_record_batch limit es = (NotOpen, es') \<Longrightarrow> received es = []"
proof (induction limit es rule: collect_record_batch.induct)
  case (5 limit r es)
  have "collect_more limit es rs \<noteq> (NotOpen, es')" for rs
    by (induction limit es rs rule: collect_more.induct) (auto split: if_splits chan_event.splits)
  then show ?case using 5 by simp
qed auto

lemma run_batched_all:
  fixes rn :: "'x node_world runner"
  assumes h: "honest en" and q: "quiet_reader reader" and m: "keeps_db rn" and b: "0 < rn_batch_size rn"
  shows "\<forall>r \<in> set (received es). ps_shard_id (lr_position r) = k \<Longrightarrow>
    run_batched_shard rn (\<lambda>rs own. at_world (apply_records_with_fence en cd base reader node rs own)) own es s = (Some None, s') \<Longrightarrow>
    consumed cd node own k (received es) s s'"
proof (induction es arbitrary: s rule: measure_induct_rule [of length])
  case (less es)
  let ?ap = "\<lambda>rs own. at_world (apply_records_with_fence en cd base reader node rs own) :: ('x node_world, unit) eff"
  obtain c es' where c: "collect_record_batch (rn_batch_size rn) es = (c, es')" by fastforce
  note run = less.prems(2) [unfolded run_batched_shard.simps [of rn ?ap own es s] c prod.case]
  show ?case
  proof (cases "\<exists>bs. c = Batch bs")
    case False
    then have "s' = s \<and> c = NotOpen" using run by (cases c) auto
    then show ?thesis using collect_not_open c by (auto simp: consumed_def)
  next
    case True
    then obtain rs where rs: "c = Batch rs" by blast
    have cb: "received es = rs @ received es'" "rs \<noteq> []" using collect_batch [OF c [unfolded rs] b] by simp_all
    have lt: "length es' < length es" using collect_batch_length c rs by blast
    obtain r1 s1 where 1: "at_env (?ap rs own) s = (r1, s1)" by fastforce
    then obtain u where r1: "r1 = Inr u" using run rs by (cases r1) simp_all
    let ?s2 = "remember_checkpoint (lr_position (last rs)) (foldl (\<lambda>s r. record_event_apply rn (lr_event r) s) s1 rs)"
    have "batch_db cd node rs own (node_db s) = Inr (node_db s1)" using apply_batch_db [OF h q 1] r1 by simp
    moreover have "nd_next s1 = nd_next s" using at_env_same [OF 1] by simp
    moreover have "ps_shard_id (lr_position (last rs)) = k" using less.prems(1) cb by simp
    moreover have "node_db ?s2 = node_db s1" using metrics_fold_db [OF m, of s1 rs] by simp
    moreover have "nd_next ?s2 = (nd_next s1)(ps_shard_id (lr_position (last rs)) := wrap64 (ps_offset (lr_position (last rs)) + 1))"
      by (simp add: remember_checkpoint_def metrics_fold_next)
    ultimately have "consumed cd node own k rs s ?s2" using cb(2) by (simp add: consumed_def)
    moreover have "consumed cd node own k (received es') ?s2 s'"
      using less.IH [OF lt, of ?s2] run rs 1 r1 less.prems(1) cb(1) by simp
    ultimately show ?thesis using consumed_append less.prems(1) cb(1) by metis
  qed
qed

lemma run_single_all:
  fixes rn :: "'x node_world runner"
  assumes h: "honest en" and q: "quiet_reader reader" and m: "keeps_db rn"
    and ap: "rn_applier rn = Some ap" "ra_record ap = Some (\<lambda>r own. at_world (apply_record_with_fence en cd base reader node r own))"
  shows "\<forall>r \<in> set (received es). ps_shard_id (lr_position r) = k \<Longrightarrow>
    run_single_record_shard rn own es s = (Some None, s') \<Longrightarrow> consumed cd node own k (received es) s s'"
proof (induction es arbitrary: s)
  case (Cons e es)
  show ?case
  proof (cases e)
    case (Received r)
    let ?f = "at_world (apply_records_with_fence en cd base reader node [r] own) :: ('x node_world, unit) eff"
    obtain x s1 where 1: "at_env ?f s = (x, s1)" by fastforce
    have rec: "at_env (runner_apply_record rn ap r own) s = (map_sum id (\<lambda>_. True) x, s1)"
      using 1 by (cases x) (auto simp: runner_apply_record_def ap(2) apply_record_with_fence_def at_env_def ebind_def ret_def split: prod.splits sum.splits)
    let ?s2 = "remember_checkpoint (lr_position r) (record_event_apply rn (lr_event r) s1)"
    obtain u where x: "x = Inr u" using Cons.prems(2) Received rec ap(1) by (cases x) (simp_all add: run_record_def)
    then have run: "run_record rn own r s = (Inr (), ?s2)" using rec ap(1) by (simp add: run_record_def)
    have "batch_db cd node [r] own (node_db s) = Inr (node_db s1)" using apply_batch_db [OF h q 1] x by simp
    moreover have "nd_next s1 = nd_next s" using at_env_same [OF 1] by simp
    ultimately have "consumed cd node own k [r] s ?s2"
      using m Cons.prems(1) Received by (simp add: consumed_def keeps_db_def) (simp add: remember_checkpoint_def)
    moreover have "consumed cd node own k (received es) ?s2 s'"
      using Cons.IH [of ?s2] Cons.prems Received run by simp
    ultimately show ?thesis using consumed_append [of cd node own k "[r]" s ?s2 "received es" s'] Cons.prems(1) Received by simp
  qed (use Cons in \<open>simp_all add: consumed_def\<close>)
qed simp

text \<open>
  Property C14: batching is transparent. Take two nodes with the Postgres applier, with any batch limits
  and waits, any metrics, event logs and honest databases, that run the goroutine of a shard from the
  same tables and the same next offsets and receive the same records until the channel is closed: the
  first in batches, each in one transaction between one pair of fence checks with one checkpoint, the
  second in other batches, with the timers firing elsewhere, or in the loop that takes every record in
  a transaction of its own. When both end without an error they leave the same tables (orders, outbox,
  inbox and checkpoint) and the same next offsets.
\<close>

theorem batching_is_transparent:
  fixes s1 s2 :: "'x node_world node"
  assumes "nc_pool c1 = Some en1" "honest en1" "quiet_reader (nc_owner_of c1)" "nc_pool c2 = Some en2" "honest en2" "quiet_reader (nc_owner_of c2)"
    and "np_codec np2 = np_codec np1" "nc_node_id c2 = nc_node_id c1"
    and "\<forall>r \<in> set (received es1). ps_shard_id (lr_position r) = ow_shard_id own" "received es2 = received es1"
    and "run_dynamic_shard (build_node np1 c1) own es1 s1 = (Some None, s1')"
    and "run_dynamic_shard (build_node np2 c2) own es2 s2 = (Some None, s2') \<or> run_single_record_shard (build_node np2 c2) own es2 s2 = (Some None, s2')"
    and "node_db s2 = node_db s1" "nd_next s2 = nd_next s1"
  shows "node_db s2' = node_db s1' \<and> nd_next s2' = nd_next s1'"
proof -
  let ?k = "ow_shard_id own"
  have batched: "consumed (np_codec np) (nc_node_id c) own ?k (received es) s s'"
    if "nc_pool c = Some en" "honest en" "quiet_reader (nc_owner_of c)" "\<forall>r \<in> set (received es). ps_shard_id (lr_position r) = ?k"
      "run_dynamic_shard (build_node np c) own es s = (Some None, s')" for np c en es and s s' :: "'x node_world node"
  proof -
    have "run_batched_shard (build_node np c)
        (\<lambda>rs own. at_world (apply_records_with_fence en (np_codec np) (base_node c) (nc_owner_of c) (nc_node_id c) rs own)) own es s = (Some None, s')"
      using that(1,5) by (simp add: run_dynamic_shard_def build_node_fields active_applier_def postgres_applier_def)
    then show ?thesis by (rule run_batched_all [OF that(2,3) build_node_keeps_db build_node_fields(2) that(4)])
  qed
  have 1: "consumed (np_codec np1) (nc_node_id c1) own ?k (received es1) s1 s1'"
    by (rule batched [OF assms(1,2,3,9,11)])
  have "consumed (np_codec np1) (nc_node_id c1) own ?k (received es1) s2 s2'"
    using assms(12)
  proof
    assume "run_dynamic_shard (build_node np2 c2) own es2 s2 = (Some None, s2')"
    then show ?thesis using batched [OF assms(4,5,6), of es2 np2 s2 s2'] assms(7-10) by simp
  next
    assume r: "run_single_record_shard (build_node np2 c2) own es2 s2 = (Some None, s2')"
    have a: "rn_applier (build_node np2 c2) = Some (postgres_applier np2 c2 en2)"
      "ra_record (postgres_applier np2 c2 en2) =
        Some (\<lambda>r own. at_world (apply_record_with_fence en2 (np_codec np2) (base_node c2) (nc_owner_of c2) (nc_node_id c2) r own))"
      using assms(4) by (simp_all add: build_node_fields active_applier_def postgres_applier_def)
    show ?thesis using run_single_all [OF assms(5,6) build_node_keeps_db a _ r] assms(7-10) by simp
  qed
  from consumed_same [OF 1 this assms(13,14)] show ?thesis .
qed

text \<open>Two records in one batch, and one by one.\<close>

definition two_events :: "chan_event list" where
  "two_events = [Received (seven_record 0 ''e1'' EventOrderCreated), Received (seven_record 1 ''e2'' EventOrderCancelled), ChanClosed]"

lemma two_events_runs:
  "fst (run_dynamic_shard (build_node seven_parts seven_node) five_owned two_events (new_node (start_world empty_database, ()))) = Some None"
  "fst (run_single_record_shard (build_node seven_parts seven_node) five_owned two_events (new_node (start_world empty_database, ()))) = Some None"
  by code_simp+

theorem batching_is_transparent_witness:
  "node_db (snd (run_single_record_shard (build_node seven_parts seven_node) five_owned two_events (new_node (start_world empty_database, ())))) =
   node_db (snd (run_dynamic_shard (build_node seven_parts seven_node) five_owned two_events (new_node (start_world empty_database, ()))))"
proof -
  have c: "nc_pool seven_node = Some (calm five_owned)" "quiet_reader (nc_owner_of seven_node)"
    by (simp_all add: seven_node_def quiet_owner_of)
  have k: "\<forall>r \<in> set (received two_events). ps_shard_id (lr_position r) = ow_shard_id five_owned"
    by (simp add: two_events_def seven_record_def five_owned_def)
  have runs: "run_dynamic_shard (build_node seven_parts seven_node) five_owned two_events (new_node (start_world empty_database, ())) =
      (Some None, snd (run_dynamic_shard (build_node seven_parts seven_node) five_owned two_events (new_node (start_world empty_database, ()))))"
    "run_single_record_shard (build_node seven_parts seven_node) five_owned two_events (new_node (start_world empty_database, ())) =
      (Some None, snd (run_single_record_shard (build_node seven_parts seven_node) five_owned two_events (new_node (start_world empty_database, ()))))"
    using two_events_runs by (metis prod.collapse)+
  show ?thesis
    by (rule conjunct1 [OF batching_is_transparent [OF c(1) calm_honest c(2) c(1) calm_honest c(2) refl refl k refl runs(1) disjI2 [OF runs(2)] refl refl]])
qed

end
