(* ===== verification/Controller.thy ===== *)
theory Controller
  imports Cluster Election Metrics GoText
begin

text \<open>
  The controller program (\<open>internal/controllerapp/app.go\<close>): its configuration, the stores it puts
  together, the sweep with everything it records, and the loop of sweeps. \<open>Cluster\<close> has the three
  steps of a sweep; here they run on the election and the metrics as well. The output is the list of
  what the sweeps ended with. The last part shows that the sweeps come to rest with every shard where
  the ring puts it. Also here are the heartbeats by which a node stays alive
  (\<open>cmd/node/main.go\<close>, \<open>cmd/matcher-worker/main.go\<close>).
\<close>

section \<open>Configuration\<close>

record controller_config =
  cc_controller_id :: string
  cc_etcd_endpoints :: string
  cc_etcd_prefix :: string
  cc_election_ttl :: int
  cc_membership_ttl :: int
  cc_sweep_interval :: int
  cc_shard_count :: int
  cc_metrics_addr :: string

definition controller_defaults :: "controller_config \<Rightarrow> controller_config" where
  "controller_defaults c = c\<lparr>
     cc_controller_id := (if trim_space (cc_controller_id c) = [] then ''controller'' else cc_controller_id c),
     cc_etcd_endpoints := (if trim_space (cc_etcd_endpoints c) = [] then ''127.0.0.1:2379'' else cc_etcd_endpoints c),
     cc_etcd_prefix := (if trim_space (cc_etcd_prefix c) = [] then ''/testp'' else cc_etcd_prefix c),
     cc_election_ttl := (if cc_election_ttl c \<le> 0 then 5 * second else cc_election_ttl c),
     cc_membership_ttl := (if cc_membership_ttl c \<le> 0 then 5 * second else cc_membership_ttl c),
     cc_sweep_interval := (if cc_sweep_interval c \<le> 0 then second else cc_sweep_interval c),
     cc_shard_count := (if cc_shard_count c \<le> 0 then 64 else cc_shard_count c)\<rparr>"

text \<open>The recorder there is when a metrics address is configured.\<close>

definition start_metrics :: "controller_config \<Rightarrow> 'p recorder \<Rightarrow> 'p recorder option" where
  "start_metrics c f = (if trim_space (cc_metrics_addr c) = [] then None else Some f)"

section \<open>The stores\<close>

text \<open>
  The controller's state is its election and what the etcd requests work on. \<open>NewEtcdElection\<close> gives
  the leader key, the value put under it and the time to live of its lease.
\<close>

definition at_etcd :: "('s, 'a) eff \<Rightarrow> (elect \<times> 's, 'a) eff" where
  "at_etcd m = (\<lambda>(e, s). case m s of (r, s') \<Rightarrow> (r, (e, s')))"

definition new_etcd_election :: "string \<Rightarrow> string \<Rightarrow> int \<Rightarrow> go_error + string \<times> string \<times> int" where
  "new_etcd_election pre controller_id ttl =
     (if trim_space controller_id = [] then Inl (ErrMsg ''controller id is required'' [])
      else Inr (path_clean (clean_etcd_prefix pre @ ''/controller/leader''), trim_space controller_id,
                if ttl \<le> 0 then 5 * second else ttl))"

record 's controller_stores =
  st_ownership :: "(elect \<times> 's) store_ops"
  st_alive_nodes :: "(elect \<times> 's, int list) eff"
  st_election :: "(elect \<times> 's, bool) eff"
  st_close :: "elect \<times> 's \<Rightarrow> elect \<times> 's"

definition at_etcd_ops :: "'s store_ops \<Rightarrow> (elect \<times> 's) store_ops" where
  "at_etcd_ops ops =
     \<lparr>so_owner_of = (\<lambda>k. at_etcd (so_owner_of ops k)), so_shards_for_node = (\<lambda>n. at_etcd (so_shards_for_node ops n)),
      so_assign = (\<lambda>k n. at_etcd (so_assign ops k n)), so_all_ownerships = at_etcd (so_all_ownerships ops)\<rparr>"

text \<open>
  The client: the parts the stores and the election call, the parsers of the stored values, and
  whether \<open>clientv3.New\<close> succeeds. Closing resigns, whatever comes of it.
\<close>

record 's controller_client =
  ct_kv :: "'s etcd_client"
  ct_election :: "'s election_client"
  ct_parse :: ownership_parser
  ct_parse_node :: node_parser
  ct_dial :: "string list \<Rightarrow> go_error option"

definition new_stores :: "'s controller_client \<Rightarrow> string \<Rightarrow> string \<Rightarrow> string \<Rightarrow> int \<Rightarrow> go_error + 's controller_stores" where
  "new_stores ct endpoints_text pre controller_id election_ttl =
     (case parse_etcd_endpoints endpoints_text of
        Inl err \<Rightarrow> Inl err
      | Inr endpoints \<Rightarrow>
          (case ct_dial ct endpoints of
             Some err \<Rightarrow> Inl (ErrWrap ''connect etcd: %w'' err)
           | None \<Rightarrow>
               (case new_etcd_election pre controller_id election_ttl of
                  Inl err \<Rightarrow> Inl err
                | Inr (key, val, ttl) \<Rightarrow> Inr
                    \<lparr>st_ownership = at_etcd_ops (etcd_ops (ct_kv ct) (ct_parse ct) (clean_etcd_prefix pre)),
                     st_alive_nodes = at_etcd (etcd_alive_nodes (ct_kv ct) (ct_parse_node ct) (clean_etcd_prefix pre)),
                     st_election = try_acquire (ct_election ct) key val ttl,
                     st_close = (\<lambda>s. snd (resign (ct_election ct) s))\<rparr>)))"

section \<open>The sweep and what it records\<close>

definition record_one :: "'p recorder option \<Rightarrow> measurement \<Rightarrow> 'p \<Rightarrow> 'p" where
  "record_one rec m p = (case rec of None \<Rightarrow> p | Some f \<Rightarrow> f m p)"

definition record_sweep_error :: "'p recorder option \<Rightarrow> string \<Rightarrow> string \<Rightarrow> 'p \<Rightarrow> 'p" where
  "record_sweep_error rec controller_id reason = record_one rec (IncControllerSweepError controller_id reason)"

text \<open>The shards below the shard count that have an owner, each once.\<close>

definition owned_shard_count :: "int \<Rightarrow> ownership list \<Rightarrow> int" where
  "owned_shard_count shard_count xs =
     int (length (remdups (filter (\<lambda>k. 0 \<le> k \<and> k < shard_count) (map ow_shard_id xs))))"

definition record_cluster_metrics ::
  "'p recorder option \<Rightarrow> string \<Rightarrow> 's store_ops \<Rightarrow> ('s, int list) eff \<Rightarrow> int \<Rightarrow> 's \<times> 'p \<Rightarrow> 's \<times> 'p" where
  "record_cluster_metrics rec controller_id ops alive_nodes shard_count = (\<lambda>(s, p).
     case rec of
       None \<Rightarrow> (s, p)
     | Some f \<Rightarrow>
         (case alive_nodes s of (alive, s1) \<Rightarrow>
            let p1 = (case alive of
                        Inr nodes \<Rightarrow> f (SetAliveNodes controller_id (int (length nodes))) p
                      | Inl err \<Rightarrow> f (IncControllerSweepError controller_id ''metrics_alive_nodes'') p)
            in case so_all_ownerships ops s1 of
                 (Inl err, s2) \<Rightarrow> (s2, f (IncControllerSweepError controller_id ''metrics_ownership'') p1)
               | (Inr xs, s2) \<Rightarrow>
                   (let owned = owned_shard_count shard_count xs;
                        missing = wrap64 (shard_count - owned)
                    in (s2, f (SetShardsWithoutOwner controller_id (if missing < 0 then 0 else missing))
                              (f (SetOwnedShards controller_id owned) p1)))))"

text \<open>\<open>None\<close> as the report: there is no election.\<close>

definition controller_sweep ::
  "'s store_ops \<Rightarrow> ('s, int list) eff \<Rightarrow> ('s, bool) eff option \<Rightarrow> int \<Rightarrow> string \<Rightarrow> 'p recorder option \<Rightarrow>
   's \<times> 'p \<Rightarrow> sweep_report option \<times> 's \<times> 'p" where
  "controller_sweep ops alive_nodes election shard_count controller_id rec = (\<lambda>(s, p).
     let p1 = record_one rec (IncControllerSweep controller_id) p in
     case election of
       None \<Rightarrow> (None, s, record_sweep_error rec controller_id ''missing_election'' p1)
     | Some acquire \<Rightarrow>
         (case acquire s of
            (Inl err, s1) \<Rightarrow> (Some (ElectionFailed err), s1, record_sweep_error rec controller_id ''election'' p1)
          | (Inr leader, s1) \<Rightarrow>
              (let p2 = record_one rec (SetControllerLeader controller_id leader) p1 in
               if \<not> leader then (Some NotLeader, s1, p2)
               else case ensure_initial_ownership ops alive_nodes shard_count s1 of
                 (Inl err, s2) \<Rightarrow> (Some (InitialOwnershipFailed err), s2, record_sweep_error rec controller_id ''initial_ownership'' p2)
               | (Inr _, s2) \<Rightarrow>
                   (case failover_missing_owners ops alive_nodes s2 of
                      (Inl err, s3) \<Rightarrow> (Some (FailoverFailed err), s3, record_sweep_error rec controller_id ''failover'' p2)
                    | (Inr dead, s3) \<Rightarrow>
                        (let p3 = foldl (\<lambda>p n. record_one rec (IncFailover controller_id n) p) p2 dead in
                         case rebalance_once ops alive_nodes default_plan s3 of
                           (Inl err, s4) \<Rightarrow> (Some (RebalanceFailed dead err), s4, record_sweep_error rec controller_id ''rebalance'' p3)
                         | (Inr mv, s4) \<Rightarrow>
                             (Some (Swept dead mv),
                              record_cluster_metrics rec controller_id ops alive_nodes shard_count (s4, p3)))))))"

text \<open>The loop: what the \<open>select\<close> finds, and in between what the other processes do to the stores.\<close>

datatype 's controller_event = SweepTick | ContextDone go_error | Elsewhere "'s \<Rightarrow> 's"

fun controller_loop ::
  "('s \<times> 'p \<Rightarrow> sweep_report option \<times> 's \<times> 'p) \<Rightarrow> 's controller_event list \<Rightarrow> 's \<times> 'p \<Rightarrow>
   go_error option \<times> sweep_report option list \<times> 's \<times> 'p" where
  "controller_loop sw [] t = (None, [], t)"
| "controller_loop sw (ContextDone err # es) t = (Some err, [], t)"
| "controller_loop sw (Elsewhere f # es) t = controller_loop sw es (f (fst t), snd t)"
| "controller_loop sw (SweepTick # es) t =
     (case sw t of (rep, t1) \<Rightarrow> case controller_loop sw es t1 of (r, reps, t2) \<Rightarrow> (r, rep # reps, t2))"

definition controller_run ::
  "'s controller_client \<Rightarrow> 'p recorder \<Rightarrow> controller_config \<Rightarrow> (elect \<times> 's) controller_event list \<Rightarrow> 's \<times> 'p \<Rightarrow>
   go_error option \<times> sweep_report option list \<times> (elect \<times> 's) \<times> 'p" where
  "controller_run ct f cfg es = (\<lambda>(s, p).
     let c = controller_defaults cfg in
     case new_stores ct (cc_etcd_endpoints c) (cc_etcd_prefix c) (cc_controller_id c) (cc_election_ttl c) of
       Inl err \<Rightarrow> (Some (ErrWrap ''create controller stores: %w'' err), [], (new_elect, s), p)
     | Inr st \<Rightarrow>
         (case controller_loop
                 (controller_sweep (st_ownership st) (st_alive_nodes st) (Some (st_election st)) (cc_shard_count c)
                    (cc_controller_id c) (start_metrics c f)) es ((new_elect, s), p) of
            (None, reps, t) \<Rightarrow> (None, reps, t)
          | (Some err, reps, (t, q)) \<Rightarrow> (Some err, reps, st_close st t, q)))"

section \<open>Heartbeats\<close>

text \<open>
  \<open>mark\<close> is \<open>MarkAlive\<close> of the node. The result is what the function returns, \<open>None\<close> while it runs;
  the heartbeat of the matcher worker returns nothing.
\<close>

datatype beat = BeatDone go_error | BeatTick

fun beats :: "('s, unit) eff \<Rightarrow> beat list \<Rightarrow> 's \<Rightarrow> go_error option \<times> 's" where
  "beats mark [] s = (None, s)"
| "beats mark (BeatDone err # bs) s = (Some err, s)"
| "beats mark (BeatTick # bs) s =
     (case mark s of (Inl err, s1) \<Rightarrow> (Some err, s1) | (Inr _, s1) \<Rightarrow> beats mark bs s1)"

definition run_membership_heartbeat :: "(int \<Rightarrow> ('s, unit) eff) option \<Rightarrow> int \<Rightarrow> beat list \<Rightarrow> 's \<Rightarrow> go_error option \<times> 's" where
  "run_membership_heartbeat store node_id bs s =
     (case store of
        None \<Rightarrow> (Some (ErrMsg ''membership store is required'' []), s)
      | Some mark \<Rightarrow>
          (case mark node_id s of
             (Inl err, s1) \<Rightarrow> (Some err, s1)
           | (Inr _, s1) \<Rightarrow> beats (mark node_id) bs s1))"

text \<open>The matcher worker's loop marks at its head and then waits.\<close>

fun worker_heartbeat :: "(int \<Rightarrow> ('s, unit) eff) \<Rightarrow> int \<Rightarrow> beat list \<Rightarrow> 's \<Rightarrow> bool \<times> 's" where
  "worker_heartbeat mark node_id bs s =
     (case mark node_id s of
        (Inl err, s1) \<Rightarrow> (True, s1)
      | (Inr _, s1) \<Rightarrow>
          (case bs of
             [] \<Rightarrow> (False, s1)
           | BeatDone err # bs' \<Rightarrow> (True, s1)
           | BeatTick # bs' \<Rightarrow> worker_heartbeat mark node_id bs' s1))"

section \<open>What a sweep records\<close>

fun sweep_measurements :: "string \<Rightarrow> sweep_report \<Rightarrow> measurement list" where
  "sweep_measurements c (ElectionFailed e) = [IncControllerSweep c, IncControllerSweepError c ''election'']"
| "sweep_measurements c NotLeader = [IncControllerSweep c, SetControllerLeader c False]"
| "sweep_measurements c (InitialOwnershipFailed e) =
     [IncControllerSweep c, SetControllerLeader c True, IncControllerSweepError c ''initial_ownership'']"
| "sweep_measurements c (FailoverFailed e) =
     [IncControllerSweep c, SetControllerLeader c True, IncControllerSweepError c ''failover'']"
| "sweep_measurements c (RebalanceFailed dead e) =
     [IncControllerSweep c, SetControllerLeader c True] @ map (IncFailover c) dead @ [IncControllerSweepError c ''rebalance'']"
| "sweep_measurements c (Swept dead mv) = [IncControllerSweep c, SetControllerLeader c True] @ map (IncFailover c) dead"

abbreviation record_list :: "'p recorder option \<Rightarrow> measurement list \<Rightarrow> 'p \<Rightarrow> 'p" where
  "record_list rec ms p \<equiv> foldl (\<lambda>p m. record_one rec m p) p ms"

lemma record_list_map: "foldl (\<lambda>p n. record_one rec (g n) p) p ns = record_list rec (map g ns) p"
  by (induction ns arbitrary: p) simp_all

lemma record_list_some: "record_list (Some f) ms p = foldl (\<lambda>p m. f m p) p ms"
  by (simp add: record_one_def)

text \<open>On the stores it is the sweep of \<open>Cluster\<close>, followed, when it gets through, by reads for the metrics.\<close>

lemma controller_sweep_eq:
  obtains rep s1 where "sweep ops alive_nodes acquire n s = (Inr rep, s1)"
    "controller_sweep ops alive_nodes (Some acquire) n c rec (s, p) =
      (let p1 = record_list rec (sweep_measurements c rep) p in
       (Some rep, if \<exists>dead mv. rep = Swept dead mv then record_cluster_metrics rec c ops alive_nodes n (s1, p1) else (s1, p1)))"
proof (cases "acquire s")
  case a: (Pair t s1)
  obtain r2 s2 where 2: "ensure_initial_ownership ops alive_nodes n s1 = (r2, s2)" by fastforce
  obtain r3 s3 where 3: "failover_missing_owners ops alive_nodes s2 = (r3, s3)" by fastforce
  obtain r4 s4 where 4: "rebalance_once ops alive_nodes default_plan s3 = (r4, s4)" by fastforce
  note run = controller_sweep_def sweep_def catch_into_def record_sweep_error_def record_list_map [of rec "IncFailover c"] a 2 3 4
  show ?thesis
  proof (cases t)
    case (Inl e)
    show ?thesis by (rule that [of "ElectionFailed e" s1]) (simp_all add: run Inl)
  next
    case (Inr leader)
    show ?thesis
    proof (cases leader)
      case False
      show ?thesis by (rule that [of NotLeader s1]) (simp_all add: run Inr False)
    next
      case True
      show ?thesis
      proof (cases r2)
        case (Inl e2)
        show ?thesis by (rule that [of "InitialOwnershipFailed e2" s2]) (simp_all add: run Inr True Inl)
      next
        case i: (Inr u)
        show ?thesis
        proof (cases r3)
          case (Inl e3)
          show ?thesis by (rule that [of "FailoverFailed e3" s3]) (simp_all add: run Inr True i Inl)
        next
          case f: (Inr dead)
          show ?thesis
          proof (cases r4)
            case (Inl e4)
            show ?thesis by (rule that [of "RebalanceFailed dead e4" s4]) (simp_all add: run Inr True i f Inl)
          next
            case r: (Inr m)
            show ?thesis by (rule that [of "Swept dead m" s4]) (simp_all add: run Inr True i f r)
          qed
        qed
      qed
    qed
  qed
qed

text \<open>
  The gauges of a sweep that got through, over any cluster: what they are set to is what the stores
  hold, and reading it changes nothing.
\<close>

definition cluster_measurements :: "string \<Rightarrow> int list \<Rightarrow> (int \<rightharpoonup> ownership) \<Rightarrow> int \<Rightarrow> measurement list \<Rightarrow> bool" where
  "cluster_measurements c ns v n ms \<longleftrightarrow>
     (\<exists>a bs. ms = a # bs \<and> a \<in> {SetAliveNodes c (int (length ns)), IncControllerSweepError c ''metrics_alive_nodes''} \<and>
        bs \<in> {[SetOwnedShards c (int (card ({0..<n} \<inter> dom v))), SetShardsWithoutOwner c (n - int (card ({0..<n} \<inter> dom v)))],
               [IncControllerSweepError c ''metrics_ownership'']})"

lemma owned_shard_count_eq:
  assumes "set xs = ran v" "\<And>k x. v k = Some x \<Longrightarrow> ow_shard_id x = k"
  shows "owned_shard_count n xs = int (card ({0..<n} \<inter> dom v))"
proof -
  have "ow_shard_id ` set xs = dom v" unfolding assms(1) ran_def using assms(2) by force
  then have "set (filter (\<lambda>k. 0 \<le> k \<and> k < n) (map ow_shard_id xs)) = {0..<n} \<inter> dom v" by auto
  then show ?thesis unfolding owned_shard_count_def by (metis length_remdups_card_conv)
qed

context cluster
begin

lemma record_cluster_metrics_ok:
  assumes o: "ok s" and n: "0 < n" "in64 n" and e: "record_cluster_metrics rec c ops alive_nodes n (s, p) = (s', p')"
  shows "same s s'" "view s' = view s"
    "rec \<noteq> None \<Longrightarrow> \<exists>ms. cluster_measurements c (members s) (view s) n ms \<and> p' = record_list rec ms p"
proof -
  obtain r1 s1 where 1: "alive_nodes s = (r1, s1)" by fastforce
  note A = same_view_alive [OF o 1]
  have s1: "ok s1" "members s1 = members s" "view s1 = view s" using A by (simp_all add: same_def)
  obtain r2 s2 where 2: "so_all_ownerships ops s1 = (r2, s2)" by fastforce
  note B = same_view_all [OF s1(1) 2]
  have s2: "same s s2" "view s2 = view s" using A B s1 by (simp_all add: same_def)
  have "s' = s \<or> s' = s2"
    using e unfolding record_cluster_metrics_def prod.case 1 2 by (auto simp: Let_def split: option.splits sum.splits)
  then show "same s s'" "view s' = view s" using s2 o by (auto simp: same_def)
  assume "rec \<noteq> None"
  then obtain f where f: "rec = Some f" by blast
  let ?own = "int (card ({0..<n} \<inter> dom (view s)))"
  define a where "a = (case r1 of Inr nodes \<Rightarrow> SetAliveNodes c (int (length nodes)) | Inl err \<Rightarrow> IncControllerSweepError c ''metrics_alive_nodes'')"
  have a: "a \<in> {SetAliveNodes c (int (length (members s))), IncControllerSweepError c ''metrics_alive_nodes''}"
    using A by (cases r1) (simp_all add: a_def)
  show "\<exists>ms. cluster_measurements c (members s) (view s) n ms \<and> p' = record_list rec ms p"
  proof (cases r2)
    case (Inl err)
    have "p' = record_list rec [a, IncControllerSweepError c ''metrics_ownership''] p"
      using e unfolding record_cluster_metrics_def prod.case f option.case 1 2 Inl sum.case Let_def a_def
      by (cases r1) (simp_all add: record_one_def)
    moreover have "cluster_measurements c (members s) (view s) n [a, IncControllerSweepError c ''metrics_ownership'']"
      unfolding cluster_measurements_def using a by blast
    ultimately show ?thesis by blast
  next
    case (Inr xs)
    have own: "owned_shard_count n xs = ?own"
      using B Inr s1(3) view_shard [OF o] by (intro owned_shard_count_eq) simp_all
    have "card ({0..<n} \<inter> dom (view s)) \<le> card {0..<n}" by (rule card_mono) simp_all
    then have le: "0 \<le> ?own" "?own \<le> n" using n(1) by simp_all
    then have "wrap64 (n - ?own) = n - ?own" using n(2) by (intro wrap64_id) (simp add: in64_def)
    then have "p' = record_list rec [a, SetOwnedShards c ?own, SetShardsWithoutOwner c (n - ?own)] p"
      using e le unfolding record_cluster_metrics_def prod.case f option.case 1 2 Inr sum.case Let_def own a_def
      by (cases r1) (simp_all add: record_one_def)
    moreover have "cluster_measurements c (members s) (view s) n [a, SetOwnedShards c ?own, SetShardsWithoutOwner c (n - ?own)]"
      unfolding cluster_measurements_def using a by blast
    ultimately show ?thesis by blast
  qed
qed

end

context cluster
begin

text \<open>The nodes a sweep reports dead owned a shard before it and are not alive.\<close>

lemma sweep_dead:
  assumes o: "ok s" and n: "0 < n" "in64 n" and e: "sweep ops alive_nodes (ret True) n s = (Inr rep, s')"
    and d: "rep = Swept dead mv \<or> rep = RebalanceFailed dead err"
  shows "distinct dead \<and> set dead = {d. d \<notin> set (members s) \<and> owned_by (view s) {d} \<noteq> {}}"
proof -
  let ?ms = "members s"
  obtain r1 s1 where 1: "ensure_initial_ownership ops alive_nodes n s = (r1, s1)" by fastforce
  obtain r2 s2 where 2: "failover_missing_owners ops alive_nodes s1 = (r2, s2)" by fastforce
  have r: "r1 = Inr ()" "r2 = Inr dead"
    using e d 1 2 by (cases r1; cases r2; auto simp: sweep_def catch_into_def split: sum.splits prod.splits)+
  note E = ensure_ok [OF o n 1]
  have s1: "ok s1" "members s1 = ?ms" using E(1) by (simp_all add: same_def)
  note F = failover_ok(3) [OF s1(1) 2 r(2), unfolded s1(2)]
  have "owned_by (view s1) {d} = owned_by (view s) {d}" if "d \<notin> set ?ms" for d
  proof -
    have "(\<exists>x. view s1 k = Some x \<and> ow_node_id x = d) \<longleftrightarrow> (\<exists>x. view s k = Some x \<and> ow_node_id x = d)" for k
    proof (cases "view s1 k = view s k")
      case False
      then have k: "k \<in> {0..<n}" "view s k = None" using E(2) by (auto simp: moved_def)
      show ?thesis
      proof (cases "?ms = []")
        case True
        have "k \<in> owned_by (view s1) UNIV" using False k(2) by (cases "view s1 k") (auto simp: owned_by_def)
        then show ?thesis using failover_needs_alive [OF s1(1), of dead s2 k UNIV] True s1(2) 2 r(2) by simp
      next
        case ne: False
        have "shard_target ?ms k \<in> set ?ms" using shard_target_ok(2) [OF ne members_ok [OF o]] k(1) by simp
        moreover have "\<exists>x. view s1 k = Some x \<and> ow_node_id x = shard_target ?ms k"
          using E(2) False k unfolding moved_def by blast
        ultimately show ?thesis using k(2) that by auto
      qed
    qed simp
    then show ?thesis by (simp add: owned_by_def)
  qed
  then show ?thesis using F by auto
qed

end

lemma count_failovers: "distinct dead \<Longrightarrow> count_list (map (IncFailover c) dead) (IncFailover c d) = (if d \<in> set dead then 1 else 0)"
  by (induction dead) auto

lemma count_no_sweeps: "count_list (map (IncFailover c) dead) (IncControllerSweep c) = 0"
  by (induction dead) auto

text \<open>What the measurements of one sweep say, for the owners \<open>v\<close> before and \<open>v'\<close> after it and the alive nodes \<open>ns\<close>.\<close>

definition sweep_truth ::
  "string \<Rightarrow> go_error + bool \<Rightarrow> int list \<Rightarrow> (int \<rightharpoonup> ownership) \<Rightarrow> (int \<rightharpoonup> ownership) \<Rightarrow> int \<Rightarrow> sweep_report option \<Rightarrow> measurement list \<Rightarrow> bool" where
  "sweep_truth c t ns v v' n rep ms \<longleftrightarrow>
     count_list ms (IncControllerSweep c) = 1 \<and>
     (\<forall>b. SetControllerLeader c b \<in> set ms \<longleftrightarrow> t = Inr b) \<and>
     (\<forall>d. count_list ms (IncFailover c d) \<le> 1) \<and>
     (\<forall>d. IncFailover c d \<in> set ms \<longrightarrow> d \<notin> set ns \<and> owned_by v {d} \<noteq> {}) \<and>
     (\<forall>dead mv d. rep = Some (Swept dead mv) \<and> d \<notin> set ns \<and> owned_by v {d} \<noteq> {} \<longrightarrow> IncFailover c d \<in> set ms) \<and>
     (\<forall>a. SetAliveNodes c a \<in> set ms \<longrightarrow> a = int (length ns)) \<and>
     (\<forall>a. SetOwnedShards c a \<in> set ms \<longrightarrow> a = int (card ({0..<n} \<inter> dom v'))) \<and>
     (\<forall>a. SetShardsWithoutOwner c a \<in> set ms \<longrightarrow> a = n - int (card ({0..<n} \<inter> dom v')) \<and> (ns \<noteq> [] \<longrightarrow> a = 0)) \<and>
     ((\<forall>reason. IncControllerSweepError c reason \<notin> set ms) \<longrightarrow>
        rep = Some NotLeader \<or>
        ((\<exists>a. SetAliveNodes c a \<in> set ms) \<and> (\<exists>a. SetOwnedShards c a \<in> set ms) \<and> (\<exists>a. SetShardsWithoutOwner c a \<in> set ms)))"

context cluster
begin

lemma controller_sweep_measured:
  assumes o: "ok s" and n: "0 < n" "in64 n" and t: "acquire s = (t, s1)" "same s s1" "view s1 = view s"
    and e: "controller_sweep ops alive_nodes (Some acquire) n c (Some f) (s, p) = (rep, (s', p'))"
  shows "same s s' \<and> (\<exists>ms. p' = record_list (Some f) ms p \<and> sweep_truth c t (members s) (view s) (view s') n rep ms)"
proof -
  let ?rl = "record_list (Some f)"
  obtain rp sA where sw: "sweep ops alive_nodes acquire n s = (Inr rp, sA)"
    "controller_sweep ops alive_nodes (Some acquire) n c (Some f) (s, p) =
      (let p1 = ?rl (sweep_measurements c rp) p in
       (Some rp, if \<exists>dead mv. rp = Swept dead mv then record_cluster_metrics (Some f) c ops alive_nodes n (sA, p1) else (sA, p1)))"
    by (rule controller_sweep_eq [of ops alive_nodes acquire n s c "Some f" p])
  have rep: "rep = Some rp" using e sw(2) by (simp add: Let_def)
  show ?thesis
  proof (cases "t = Inr True")
    case False
    then consider (err) err where "t = Inl err" "rp = ElectionFailed err" "sA = s1" | (no) "t = Inr False" "rp = NotLeader" "sA = s1"
      using sw(1) t(1) by (cases t) (auto simp: sweep_def catch_into_def)
    then have "s' = s1 \<and> p' = ?rl (sweep_measurements c rp) p \<and>
        sweep_truth c t (members s) (view s) (view s1) n rep (sweep_measurements c rp)"
      using e sw(2) rep by cases (auto simp: sweep_truth_def Let_def)
    then show ?thesis using t(2,3) by auto
  next
    case True
    have s1: "ok s1" "members s1 = members s" using t(2) by (simp_all add: same_def)
    have lead: "sweep ops alive_nodes (ret True) n s1 = (Inr rp, sA)"
      using sw(1) t(1) True by (simp add: sweep_def catch_into_def)
    note S = sweep_leads [OF s1(1) n lead, unfolded s1(2) t(3)]
    note D = sweep_dead [OF s1(1) n lead, unfolded s1(2) t(3)]
    have sA: "ok sA" "members sA = members s" using S(1) s1 by (simp_all add: same_def)
    show ?thesis
    proof (cases "\<exists>dead mv. rp = Swept dead mv")
      case False
      then have eq: "s' = sA" "p' = ?rl (sweep_measurements c rp) p" using e sw(2) by (simp_all add: Let_def)
      have "rp \<noteq> ElectionFailed x" "rp \<noteq> NotLeader" for x
        using lead by (auto simp: sweep_def catch_into_def split: sum.splits prod.splits)
      then have "sweep_truth c t (members s) (view s) (view s') n rep (sweep_measurements c rp)"
        using False True rep D by (cases rp) (auto simp: sweep_truth_def count_failovers count_no_sweeps)
      then show ?thesis using eq sA by (auto simp: same_def)
    next
      case sp: True
      then obtain dead mv where rp: "rp = Swept dead mv" by blast
      have m: "record_cluster_metrics (Some f) c ops alive_nodes n (sA, ?rl (sweep_measurements c rp) p) = (s', p')"
        using e sw(2) sp by (simp add: Let_def)
      note R = record_cluster_metrics_ok [OF sA(1) n m]
      obtain ms where ms: "cluster_measurements c (members s) (view s') n ms" "p' = ?rl (sweep_measurements c rp @ ms) p"
        using R(2,3) sA(2) by auto
      have full: "{0..<n} \<inter> dom (view s') = {0..<n}" if "members s \<noteq> []"
        using S(3) [of dead mv] rp R(2) that by auto
      have z: "int (card ({0..<n} \<inter> dom (view s'))) = n" if "members s \<noteq> []" using full [OF that] n(1) by simp
      have "sweep_truth c t (members s) (view s) (view s') n rep (sweep_measurements c rp @ ms)"
        using ms(1) True rep rp D [of dead mv] z unfolding sweep_truth_def cluster_measurements_def
        by (auto simp: count_failovers count_no_sweeps)
      moreover have "same s s'" using R(1) sA by (simp add: same_def)
      ultimately show ?thesis using ms(2) by (intro conjI exI [of _ "sweep_measurements c rp @ ms"])
    qed
  qed
qed

end

text \<open>
  what a sweep tells the metrics is true. It counts itself once and says that it leads
  exactly when the election said so; it counts a failover once for each node that owned a shard and is
  not alive, and for no other; what it sets the numbers of alive nodes, owned shards and shards
  without owner to is what the stores hold afterwards, the last one zero as soon as a node is alive;
  and a sweep that leads and counts no error has set all three. Reading for the metrics changes nothing.
\<close>

theorem sweep_metrics_truthful:
  assumes "etcd_laws cl kv" "parser_ok parse" "node_parser_ok nparse" "controller_ok pre (kv s)"
    and "0 < n" "in64 n" and "acquire s = (t, s1)" "kv s1 = kv s"
    and "controller_sweep (etcd_ops cl parse pre) (etcd_alive_nodes cl nparse pre) (Some acquire) n c (Some f) (s, p) = (rep, (s', p'))"
  shows "\<exists>ms. p' = foldl (\<lambda>p m. f m p) p ms \<and>
    sweep_truth c t (etcd_members pre (kv s)) (etcd_view parse pre (kv s)) (etcd_view parse pre (kv s')) n rep ms \<and>
    controller_ok pre (kv s') \<and> etcd_members pre (kv s') = etcd_members pre (kv s)"
proof -
  note C = etcd_cluster_contract [OF assms(1-3)]
  have "cluster.same (\<lambda>s. controller_ok pre (kv s)) (\<lambda>s. etcd_members pre (kv s)) s s1"
    unfolding cluster.same_def [OF C] using assms(4,8) by simp
  from cluster.controller_sweep_measured [OF C assms(4-7) this _ assms(9)] assms(8)
  show ?thesis unfolding cluster.same_def [OF C] record_list_some by auto
qed

theorem sweep_metrics_truthful_witness:
  "SetControllerLeader ''c'' True \<in> set (snd (snd (controller_sweep (etcd_ops ref_client ref_parse ''/testp'')
     (etcd_alive_nodes ref_client ref_parse_node ''/testp'') (Some (ret True)) 64 ''c'' (Some (\<lambda>m ms. ms @ [m])) (ref_two_nodes, []))))"
proof -
  let ?r = "controller_sweep (etcd_ops ref_client ref_parse ''/testp'') (etcd_alive_nodes ref_client ref_parse_node ''/testp'')
     (Some (ret True)) 64 ''c'' (Some (\<lambda>m ms. ms @ [m])) (ref_two_nodes, [])"
  obtain rep s' p' where r: "?r = (rep, (s', p'))" by (cases ?r) auto
  have ok: "controller_ok ''/testp'' (ref_view ref_two_nodes)" using ref_two_nodes_ok by (simp add: controller_ok_def)
  have 64: "0 < (64 :: int)" "in64 64" by (simp_all add: in64_def)
  from sweep_metrics_truthful [OF ref_laws ref_parser_ok ref_parse_node_ok ok 64 ret_apply refl r]
  obtain ms where ms: "p' = foldl (\<lambda>p m. p @ [m]) [] ms" "SetControllerLeader ''c'' True \<in> set ms"
    unfolding sweep_truth_def by blast
  have "foldl (\<lambda>p m. p @ [m]) xs ms = xs @ ms" for xs :: "measurement list" by (induction ms arbitrary: xs) simp_all
  then show ?thesis unfolding r using ms by simp
qed

section \<open>The sweeps come to rest\<close>

text \<open>A cluster whose store requests do not fail.\<close>

locale reliable_cluster = cluster ops view ok alive_nodes members
  for ops :: "'s store_ops" and view :: "'s \<Rightarrow> int \<rightharpoonup> ownership" and ok :: "'s \<Rightarrow> bool"
    and alive_nodes :: "('s, int list) eff" and members :: "'s \<Rightarrow> int list" +
  assumes alive_up: "ok s \<Longrightarrow> \<exists>ns s'. alive_nodes s = (Inr ns, s')"
    and all_up: "ok s \<Longrightarrow> \<exists>os s'. so_all_ownerships ops s = (Inr os, s')"
    and shards_up: "ok s \<Longrightarrow> 0 < n \<Longrightarrow> \<exists>os s'. so_shards_for_node ops n s = (Inr os, s')"
    and assign_up: "ok s \<Longrightarrow> 0 \<le> k \<Longrightarrow> in64 k \<Longrightarrow> 0 < n \<Longrightarrow> in64 n \<Longrightarrow> \<exists>s'. so_assign ops k n s = (Inr (), s')"
begin

definition steady :: "int list \<Rightarrow> 's \<Rightarrow> bool" where
  "steady ms s \<longleftrightarrow> ok s \<and> members s = ms \<and> ms \<noteq> []"

lemma steady_reads:
  assumes "steady ms s"
  obtains s1 s2 s3 os1 os2 where "alive_nodes s = (Inr ms, s1)" "steady ms s1" "view s1 = view s"
    "so_all_ownerships ops s = (Inr os1, s2)" "steady ms s2" "view s2 = view s" "set os1 = ran (view s)" "distinct (map ow_shard_id os1)"
proof -
  have s: "ok s" "members s = ms" using assms by (simp_all add: steady_def)
  obtain ns s1 where 1: "alive_nodes s = (Inr ns, s1)" using alive_up [OF s(1)] by blast
  obtain os1 s2 where 2: "so_all_ownerships ops s = (Inr os1, s2)" using all_up [OF s(1)] by blast
  show thesis
    using that [of s1 os1 s2] 1 2 same_view_alive [OF s(1) 1] same_view_all [OF s(1) 2] assms
    by (simp add: steady_def same_def)
qed

text \<open>A loop over assignments to the ring's choice goes through.\<close>

lemma assign_target_up:
  assumes "steady ms s" "0 \<le> k" "in64 k" "tgt = Inr (shard_target ms k)"
  shows "\<exists>s'. ebind (lift_res tgt) (\<lambda>n. so_assign ops k n) s = (Inr (), s') \<and> steady ms s'"
proof -
  have s: "ok s" "members s = ms" "ms \<noteq> []" using assms(1) by (simp_all add: steady_def)
  have t: "0 < shard_target ms k" "in64 (shard_target ms k)"
    using shard_target_ok(2) [OF s(3) _ assms(2)] members_ok [OF s(1)] s(2) by (auto simp: nodes_ok_def)
  obtain s' where a: "so_assign ops k (shard_target ms k) s = (Inr (), s')" using assign_up [OF s(1) assms(2,3) t] by blast
  have "same s s'" using assign_moved [OF s(1) assms(3) t(2) a] by blast
  then show ?thesis using a s assms(4) by (simp add: ebind_def steady_def same_def)
qed

lemma efor_up:
  "\<forall>x \<in> set xs. \<forall>s. steady ms s \<longrightarrow> (\<exists>s'. f x s = (Inr (), s') \<and> steady ms s') \<Longrightarrow> steady ms s \<Longrightarrow>
   \<exists>s'. efor xs f s = (Inr (), s') \<and> steady ms s'"
proof (induction xs arbitrary: s)
  case (Cons x xs)
  obtain s1 where 1: "f x s = (Inr (), s1)" "steady ms s1" using Cons.prems by auto
  then show ?case using Cons.IH [OF _ 1(2)] Cons.prems(1) by simp
qed simp

lemma ensure_up:
  assumes s: "steady ms s" and n: "0 < n" "in64 n"
  shows "\<exists>s'. ensure_initial_ownership ops alive_nodes n s = (Inr (), s') \<and> steady ms s'"
proof -
  obtain os1 s1 where 1: "so_all_ownerships ops s = (Inr os1, s1)" "steady ms s1" by (rule steady_reads [OF s])
  obtain s2 where 2: "alive_nodes s1 = (Inr ms, s2)" "steady ms s2" by (rule steady_reads [OF 1(2)])
  have ms: "ms \<noteq> []" "nodes_ok ms" using s members_ok by (auto simp: steady_def)
  have "\<exists>s'. assign_if_unowned ops ms X k t = (Inr (), s') \<and> steady ms s'" if "k \<in> set [0..n - 1]" "steady ms t" for k t X
  proof -
    have k: "0 \<le> k" "in64 k" using that(1) n by (auto simp: in64_def)
    show ?thesis using assign_target_up [OF that(2) k shard_target_ok(1) [OF ms k(1)]] that(2)
      unfolding assign_if_unowned_def by (cases "k \<in> X") simp_all
  qed
  then show ?thesis using efor_up [of "[0..n - 1]" ms "assign_if_unowned ops ms (set (map ow_shard_id os1))" s2] 1 2 ms n
    by (simp add: ensure_initial_ownership_def ebind_def)
qed

lemma dead_node_up:
  assumes s: "steady ms s" and d: "0 < d" "d \<notin> set ms"
  shows "\<exists>s'. failover_dead_node ops alive_nodes d s = (Inr (), s') \<and> steady ms s'"
proof -
  have o: "ok s" "members s = ms" using s by (simp_all add: steady_def)
  obtain xs s1 where 1: "so_shards_for_node ops d s = (Inr xs, s1)" using shards_up [OF o(1) d(1)] by blast
  note A = same_view_shards [OF o(1) 1]
  have s1: "steady ms s1" using A s by (simp add: steady_def same_def)
  obtain s2 where 2: "alive_nodes s1 = (Inr ms, s2)" "steady ms s2" by (rule steady_reads [OF s1])
  have ms: "ms \<noteq> []" "nodes_ok ms" using s members_ok by (auto simp: steady_def)
  have rem: "remove_node_id ms d = ms" using d by (auto simp: remove_node_id_def filter_id_conv)
  have "\<exists>t'. ebind (lift_res (choose_failover_target ms (ow_shard_id x))) (\<lambda>target. so_assign ops (ow_shard_id x) target) t = (Inr (), t') \<and> steady ms t'"
    if "x \<in> set xs" "steady ms t" for x t
  proof -
    have "ow_shard_id x \<in> owned_by (view s) {d}" using A that(1) by auto
    then have k: "0 \<le> ow_shard_id x" "in64 (ow_shard_id x)" using owned_by_bounds [OF o(1)] by blast+
    show ?thesis by (rule assign_target_up [OF that(2) k failover_target_eq [OF ms k(1)]])
  qed
  then show ?thesis using efor_up [of xs ms "\<lambda>x. ebind (lift_res (choose_failover_target ms (ow_shard_id x))) (\<lambda>target. so_assign ops (ow_shard_id x) target)" s2]
      1 2 s1 ms d rem by (cases "xs = []") (auto simp: failover_dead_node_def ebind_def Let_def)
qed

lemma failover_up:
  assumes s: "steady ms s" and p: "\<forall>k x. view s k = Some x \<longrightarrow> 0 < ow_node_id x"
  shows "\<exists>dead s'. failover_missing_owners ops alive_nodes s = (Inr dead, s') \<and> steady ms s'"
proof -
  obtain os1 s1 where 1: "so_all_ownerships ops s = (Inr os1, s1)" "steady ms s1" "set os1 = ran (view s)" by (rule steady_reads [OF s])
  obtain s2 where 2: "alive_nodes s1 = (Inr ms, s2)" "steady ms s2" by (rule steady_reads [OF 1(2)])
  have "0 < d \<and> d \<notin> set ms" if "d \<in> set (dead_node_ids os1 ms)" for d
    using that 1(3) p by (auto simp: dead_node_ids_def ran_def)
  then have "\<exists>s'. efor (dead_node_ids os1 ms) (failover_dead_node ops alive_nodes) s2 = (Inr (), s') \<and> steady ms s'"
    using dead_node_up by (intro efor_up [OF _ 2(2)]) blast
  then show ?thesis using 1 2 by (cases "os1 = []") (auto simp: failover_missing_owners_def ebind_def Let_def)
qed

end

lemma find_move_source_ok:
  "distinct (map ow_shard_id xs) \<Longrightarrow> x \<in> set xs \<Longrightarrow> mv_shard_id m = ow_shard_id x \<Longrightarrow> mv_from_node_id m = ow_node_id x \<Longrightarrow>
   find_move_source m xs = Inr ()"
  by (induction xs) (auto simp: rev_image_eqI)

lemma moved_owners:
  assumes "moved full T K v v'" "v' k = Some x"
  shows "v k = Some x \<or> ow_node_id x = T k"
  using assms by (cases "k \<in> K") (auto simp: moved_def)

lemma moved_misplaced: "moved full (shard_target ns) K v v' \<Longrightarrow> misplaced ns v' \<subseteq> misplaced ns v"
  using moved_owners [of full "shard_target ns" K v v'] by (fastforce simp: misplaced_def)

context reliable_cluster
begin

lemma rebalance_up:
  assumes s: "steady ms s" and alive: "owned_by (view s) (- set ms) = {}"
  shows "\<exists>mv s'. rebalance_once ops alive_nodes default_plan s = (Inr mv, s') \<and> steady ms s'"
proof -
  have o: "ok s" "members s = ms" using s by (simp_all add: steady_def)
  obtain s1 where 1: "alive_nodes s = (Inr ms, s1)" "steady ms s1" "view s1 = view s" by (rule steady_reads [OF s])
  obtain os1 s2 where 2: "so_all_ownerships ops s1 = (Inr os1, s2)" "steady ms s2" "set os1 = ran (view s)" "distinct (map ow_shard_id os1)"
    using steady_reads [OF 1(2)] 1(3) by metis
  have ms: "ms \<noteq> []" "nodes_ok ms" using s members_ok by (auto simp: steady_def)
  have sh: "view s (ow_shard_id x) = Some x \<and> 0 \<le> ow_shard_id x \<and> in64 (ow_shard_id x)" if "x \<in> set os1" for x
    using that 2(3) view_shard [OF o(1)] view_range [OF o(1)] by (fastforce simp: ran_def)
  then have nonneg: "\<forall>x \<in> set os1. 0 \<le> ow_shard_id x" by blast
  let ?sn = "\<lparr>sn_alive_node_ids = sort ms, sn_ownerships = os1\<rparr>"
  have srt: "sort ms = ms" using ms(2) by (simp add: nodes_ok_def sorted_sort_id)
  show ?thesis
  proof (cases "os1 = []")
    case True
    then show ?thesis using 1 2 ms by (simp add: rebalance_once_def ebind_def)
  next
    case ne: False
    obtain plan where plan: "plan_first ms os1 = Inr plan" using plan_first_ok [OF ms nonneg] by (cases "plan_first ms os1") auto
    show ?thesis
    proof (cases plan)
      case None
      then show ?thesis using 1 2 ms ne plan srt by (simp add: rebalance_once_def ebind_def Let_def default_plan_def)
    next
      case (Some m)
      then obtain x where x: "x \<in> set os1" "m = \<lparr>mv_shard_id = ow_shard_id x, mv_from_node_id = ow_node_id x,
          mv_to_node_id = shard_target ms (ow_shard_id x)\<rparr>" "ow_node_id x \<noteq> shard_target ms (ow_shard_id x)"
        using plan_first_Some [OF ms nonneg] plan by blast
      note k = sh [OF x(1)]
      have from_ms: "ow_node_id x \<in> set ms" using alive k by (auto simp: owned_by_def)
      have to: "shard_target ms (ow_shard_id x) \<in> set ms" using shard_target_ok(2) [OF ms] k by simp
      have pos: "\<forall>n \<in> set ms. 0 < n \<and> in64 n" using ms(2) by (simp add: nodes_ok_def)
      have v: "validate_move m ?sn = Inr ()"
        using from_ms to pos k x find_move_source_ok [OF 2(4) x(1), of m] by (auto simp: validate_move_def)
      obtain s3 where a: "so_assign ops (ow_shard_id x) (shard_target ms (ow_shard_id x)) s2 = (Inr (), s3)" "steady ms s3"
        using assign_target_up [OF 2(2), of "ow_shard_id x" "Inr (shard_target ms (ow_shard_id x))"] k by (auto simp: ebind_def)
      have "rebalance_once ops alive_nodes default_plan s = (Inr (Some m), s3)"
        using 1 2 ms ne plan srt Some v a x(2) unfolding rebalance_once_def by (simp add: ebind_def Let_def default_plan_def)
      then show ?thesis using a(2) by blast
    qed
  qed
qed

text \<open>A sweep of the leader gets through and, unless every shard is in place, puts one more there.\<close>

definition fit :: "int list \<Rightarrow> 's \<Rightarrow> bool" where
  "fit ms s \<longleftrightarrow> steady ms s \<and> (\<forall>k x. view s k = Some x \<longrightarrow> 0 < ow_node_id x)"

lemma fit_moved:
  assumes "fit ms s" "steady ms s'" "moved full (shard_target ms) K (view s) (view s')"
  shows "fit ms s'"
proof -
  have "0 < ow_node_id x" if v: "view s' k = Some x" for k x
  proof -
    have s': "ok s'" "members s' = ms" "ms \<noteq> []" using assms(2) by (simp_all add: steady_def)
    have "shard_target ms k \<in> set ms" using shard_target_ok(2) [OF s'(3)] members_ok [OF s'(1)] s'(2) view_range [OF s'(1) v] by simp
    then have "0 < shard_target ms k" using members_ok [OF s'(1)] s'(2) by (simp add: nodes_ok_def)
    then show ?thesis using moved_owners [OF assms(3) v] assms(1) by (auto simp: fit_def)
  qed
  then show ?thesis using assms(2) by (simp add: fit_def)
qed

lemma sweep_round:
  assumes f: "fit ms s" and n: "0 < n" "in64 n"
  obtains dead mv s' where "sweep ops alive_nodes (ret True) n s = (Inr (Swept dead mv), s')" "fit ms s'"
    "dom (view s') = {0..<n} \<union> dom (view s)" "owned_by (view s') (- set ms) = {}"
    "misplaced ms (view s') = {} \<or> misplaced ms (view s') \<subset> misplaced ms (view s)"
    "{0..<n} \<subseteq> dom (view s) \<Longrightarrow> owned_by (view s) (- set ms) = {} \<Longrightarrow> misplaced ms (view s) = {} \<Longrightarrow> view s' = view s"
proof -
  have s: "steady ms s" "ok s" "members s = ms" "ms \<noteq> []" using f by (simp_all add: fit_def steady_def)
  obtain s1 where 1: "ensure_initial_ownership ops alive_nodes n s = (Inr (), s1)" "steady ms s1" using ensure_up [OF s(1) n] by blast
  note E = ensure_ok(2) [OF s(2) n 1(1), unfolded s(3)]
  have f1: "fit ms s1" by (rule fit_moved [OF f 1(2) E])
  have p1: "\<forall>k x. view s1 k = Some x \<longrightarrow> 0 < ow_node_id x" using f1 unfolding fit_def by blast
  obtain dead s2 where 2: "failover_missing_owners ops alive_nodes s1 = (Inr dead, s2)" "steady ms s2"
    using failover_up [OF 1(2) p1] by blast
  have o1: "ok s1" "members s1 = ms" using 1(2) by (simp_all add: steady_def)
  note F = failover_ok(2) [OF o1(1) 2(1), unfolded o1(2)]
  have f2: "fit ms s2" by (rule fit_moved [OF f1 2(2) F])
  have al: "owned_by (view s2) (- set ms) = {}" using failover_all_alive(1) [OF o1(1) 2(1)] o1(2) by simp
  obtain mv s3 where 3: "rebalance_once ops alive_nodes default_plan s2 = (Inr mv, s3)" "steady ms s3"
    using rebalance_up [OF 2(2) al] by blast
  have o2: "ok s2" "members s2 = ms" using 2(2) by (simp_all add: steady_def)
  note R = rebalance_ok(2,3) [OF o2(1) 3(1), unfolded o2(2)]
  have sw: "sweep ops alive_nodes (ret True) n s = (Inr (Swept dead mv), s3)" using 1 2 3 by (simp add: sweep_def catch_into_def)
  note S = sweep_leads [OF s(2) n sw, unfolded s(3)]
  have f3: "fit ms s3" by (rule fit_moved [OF f 3(2) S(2)])
  have sub: "misplaced ms (view s2) \<subseteq> misplaced ms (view s)" using moved_misplaced [OF E] moved_misplaced [OF F] by blast
  have "misplaced ms (view s3) = {} \<or> misplaced ms (view s3) \<subset> misplaced ms (view s)"
  proof (cases mv)
    case None
    then show ?thesis using R(1) s(4) by simp
  next
    case (Some m)
    then have m: "mv_shard_id m \<in> misplaced ms (view s2)" "moved True (shard_target ms) {mv_shard_id m} (view s2) (view s3)"
      using R(2) [of m] by (simp_all add: move_of_def)
    show ?thesis using misplaced_moved(1) [OF m(2,1)] m(1) sub by blast
  qed
  moreover have "view s3 = view s"
    if fine: "{0..<n} \<subseteq> dom (view s)" "owned_by (view s) (- set ms) = {}" "misplaced ms (view s) = {}"
  proof -
    have none: "{0..<n} - dom (view s) = {}" using fine(1) by blast
    have v1: "view s1 = view s" using E [unfolded none] by simp
    have v2: "view s2 = view s" using F [unfolded v1 fine(2)] by simp
    have "mv = None" using R(2) fine(3) v2 by (cases mv) (auto simp: move_of_def)
    then show ?thesis using R(1) v2 by simp
  qed
  ultimately show thesis using that [OF sw f3] S(3) [of dead mv] s(4) by simp
qed

end

lemma controller_loop_append:
  "controller_loop sw (es @ fs) t =
     (case controller_loop sw es t of
        (Some err, reps, t1) \<Rightarrow> (Some err, reps, t1)
      | (None, reps, t1) \<Rightarrow> (case controller_loop sw fs t1 of (r, reps2, t2) \<Rightarrow> (r, reps @ reps2, t2)))"
  by (induction sw es t rule: controller_loop.induct) (auto split: prod.splits option.splits)

context reliable_cluster
begin

text \<open>Every owned shard is where the ring puts it, the first \<open>n\<close> shards are owned, and no owner is dead.\<close>

definition in_place :: "int list \<Rightarrow> int \<Rightarrow> 's \<Rightarrow> bool" where
  "in_place ms n s \<longleftrightarrow> {0..<n} \<subseteq> dom (view s) \<and> owned_by (view s) (- set ms) = {} \<and> misplaced ms (view s) = {}"

lemma finite_owned: "ok s \<Longrightarrow> finite (dom (view s))"
proof -
  assume o: "ok s"
  obtain os s' where a: "so_all_ownerships ops s = (Inr os, s')" using all_up [OF o] by blast
  have "dom (view s) \<subseteq> ow_shard_id ` set os"
    using same_view_all [OF o a] view_shard [OF o] by (force simp: ran_def)
  then show ?thesis by (rule finite_subset) simp
qed

lemma loop_round:
  assumes lead: "\<forall>s. ok s \<longrightarrow> acquire s = (Inr True, s)" and f: "fit ms s" and n: "0 < n" "in64 n"
  obtains dead mv s' p' where
    "controller_sweep ops alive_nodes (Some acquire) n c rec (s, p) = (Some (Swept dead mv), (s', p'))" "fit ms s'"
    "dom (view s') = {0..<n} \<union> dom (view s)" "owned_by (view s') (- set ms) = {}"
    "misplaced ms (view s') = {} \<or> misplaced ms (view s') \<subset> misplaced ms (view s)" "in_place ms n s \<Longrightarrow> view s' = view s"
proof -
  obtain dead mv s1 where 1: "sweep ops alive_nodes (ret True) n s = (Inr (Swept dead mv), s1)" "fit ms s1"
    "dom (view s1) = {0..<n} \<union> dom (view s)" "owned_by (view s1) (- set ms) = {}"
    "misplaced ms (view s1) = {} \<or> misplaced ms (view s1) \<subset> misplaced ms (view s)" "in_place ms n s \<Longrightarrow> view s1 = view s"
    by (rule sweep_round [OF f n]) (auto simp: in_place_def)
  have "ok s" using f by (simp add: fit_def steady_def)
  then have sw: "sweep ops alive_nodes acquire n s = (Inr (Swept dead mv), s1)"
    using 1(1) lead by (simp add: sweep_def catch_into_def)
  obtain s' p' where m: "record_cluster_metrics rec c ops alive_nodes n (s1, record_list rec (sweep_measurements c (Swept dead mv)) p) = (s', p')"
    by fastforce
  have o1: "ok s1" using 1(2) by (simp add: fit_def steady_def)
  note R = record_cluster_metrics_ok [OF o1 n m]
  have f': "fit ms s'" using 1(2) R(1,2) by (simp add: fit_def steady_def same_def)
  obtain rep s2 where 2: "sweep ops alive_nodes acquire n s = (Inr rep, s2)"
    "controller_sweep ops alive_nodes (Some acquire) n c rec (s, p) =
      (let p1 = record_list rec (sweep_measurements c rep) p in
       (Some rep, if \<exists>dead mv. rep = Swept dead mv then record_cluster_metrics rec c ops alive_nodes n (s2, p1) else (s2, p1)))"
    by (rule controller_sweep_eq [of ops alive_nodes acquire n s c rec p])
  have rep: "rep = Swept dead mv" "s2 = s1" using 2(1) sw by simp_all
  have "controller_sweep ops alive_nodes (Some acquire) n c rec (s, p) = (Some (Swept dead mv), (s', p'))"
    using 2(2) m unfolding rep by (simp add: Let_def)
  then show thesis using that f' 1(3-6) R(2) by simp
qed

lemma loop_rest:
  assumes lead: "\<forall>s. ok s \<longrightarrow> acquire s = (Inr True, s)" and n: "0 < n" "in64 n"
  shows "fit ms s \<Longrightarrow> (card (misplaced ms (view s)) < k \<or> in_place ms n s) \<Longrightarrow>
    \<exists>reps s' p'. controller_loop (controller_sweep ops alive_nodes (Some acquire) n c rec) (replicate k SweepTick) (s, p) = (None, reps, (s', p')) \<and>
      length reps = k \<and> (\<forall>r \<in> set reps. \<exists>dead mv. r = Some (Swept dead mv)) \<and>
      fit ms s' \<and> in_place ms n s' \<and> dom (view s') = {0..<n} \<union> dom (view s) \<and> (in_place ms n s \<longrightarrow> view s' = view s)"
proof (induction k arbitrary: s p)
  case 0
  then show ?case by (auto simp: in_place_def)
next
  case (Suc k)
  obtain dead mv s1 p1 where 1: "controller_sweep ops alive_nodes (Some acquire) n c rec (s, p) = (Some (Swept dead mv), (s1, p1))" "fit ms s1"
    "dom (view s1) = {0..<n} \<union> dom (view s)" "owned_by (view s1) (- set ms) = {}"
    "misplaced ms (view s1) = {} \<or> misplaced ms (view s1) \<subset> misplaced ms (view s)" "in_place ms n s \<Longrightarrow> view s1 = view s"
    using loop_round [OF lead Suc.prems(1) n, of c rec p] by metis
  have "finite (dom (view s))" using Suc.prems(1) finite_owned by (simp add: fit_def steady_def)
  moreover have "misplaced ms (view s) \<subseteq> dom (view s)" by (auto simp: misplaced_def)
  ultimately have fin: "finite (misplaced ms (view s))" by (rule rev_finite_subset)
  have next1: "card (misplaced ms (view s1)) < k \<or> in_place ms n s1"
  proof (cases "misplaced ms (view s1) = {}")
    case True
    then show ?thesis using 1(3,4) by (simp add: in_place_def)
  next
    case False
    then have "misplaced ms (view s1) \<subset> misplaced ms (view s)" using 1(5) by blast
    then have "card (misplaced ms (view s1)) < card (misplaced ms (view s))" "\<not> in_place ms n s"
      using psubset_card_mono [OF fin] by (auto simp: in_place_def)
    then show ?thesis using Suc.prems(2) by linarith
  qed
  obtain reps s' p' where 2: "controller_loop (controller_sweep ops alive_nodes (Some acquire) n c rec) (replicate k SweepTick) (s1, p1) = (None, reps, (s', p'))"
    "length reps = k" "\<forall>r \<in> set reps. \<exists>dead mv. r = Some (Swept dead mv)" "fit ms s'" "in_place ms n s'"
    "dom (view s') = {0..<n} \<union> dom (view s1)" "in_place ms n s1 \<longrightarrow> view s' = view s1"
    using Suc.IH [OF 1(2) next1, of p1] by blast
  have "view s' = view s" if ip: "in_place ms n s"
  proof -
    have "in_place ms n s1" using ip 1(6) [OF ip] by (simp add: in_place_def)
    then show ?thesis using 1(6) [OF ip] 2(7) by simp
  qed
  then show ?case using 1(1,3) 2 by auto
qed

end

section \<open>The controller over an etcd that answers\<close>

definition etcd_up :: "'s etcd_client \<Rightarrow> bool" where
  "etcd_up cl \<longleftrightarrow> (\<forall>s k. \<exists>r s'. kv_get cl k s = (Inr r, s')) \<and> (\<forall>s p. \<exists>vs s'. kv_get_prefix cl p s = (Inr vs, s')) \<and>
     (\<forall>s k cmp v. \<exists>won s'. kv_txn_put cl k cmp v s = (Inr won, s'))"

lemma etcd_alive_up:
  assumes L: "etcd_laws cl kv" and u: "etcd_up cl" and p: "node_parser_ok parse" and w: "members_wf pre (kv s)"
  shows "\<exists>ns s'. etcd_alive_nodes cl parse pre s = (Inr ns, s')"
proof -
  obtain vs s1 where g: "kv_get_prefix cl (nodes_prefix pre) s = (Inr vs, s1)" using u unfolding etcd_up_def by blast
  obtain ks where k: "distinct ks" "set ks = {k \<in> dom (kv s). prefix (nodes_prefix pre) k}" "vs = map (\<lambda>k. fst (the (kv s k))) ks"
    using etcd_lawsD(3) [OF L, of "nodes_prefix pre" s vs s1] g by auto
  obtain ns where "decode_node_ids parse vs = Inr ns" using decode_node_ids_keys [OF w p k(1)] k(2,3) by auto
  then show ?thesis using g by (simp add: etcd_alive_nodes_def ebind_def wrap_err_def)
qed

lemma etcd_list_up:
  assumes L: "etcd_laws cl kv" and u: "etcd_up cl" and p: "parser_ok parse" and w: "owners_wf pre (kv s)"
  shows "\<exists>xs s'. ebind (wrap_err msg (kv_get_prefix cl (shards_prefix pre)))
              (\<lambda>vs. ebind (lift_res (decode_all parse vs)) (\<lambda>xs. ret (f xs))) s = (Inr xs, s')"
proof -
  obtain vs s1 where g: "kv_get_prefix cl (shards_prefix pre) s = (Inr vs, s1)" using u unfolding etcd_up_def by blast
  obtain ks where k: "distinct ks" "set ks = {k \<in> dom (kv s). prefix (shards_prefix pre) k}" "vs = map (\<lambda>k. fst (the (kv s k))) ks"
    using etcd_lawsD(3) [OF L, of "shards_prefix pre" s vs s1] g by auto
  obtain xs where "decode_all parse vs = Inr xs" by (rule etcd_list_ok [OF w p k])
  then show ?thesis using g by (simp add: ebind_def wrap_err_def)
qed

lemma try_assign_up:
  assumes L: "etcd_laws cl kv" and u: "etcd_up cl" and p: "parser_ok parse" and w: "owners_wf pre (kv s)"
    and k: "0 \<le> k" "in64 k" "in64 n"
  shows "\<exists>s'. try_assign cl parse (shard_key pre k) k n s = (Inr True, s')"
proof -
  obtain cur s1 where g: "kv_get cl (shard_key pre k) s = (Inr cur, s1)" using u unfolding etcd_up_def by blast
  have cur: "cur = kv s (shard_key pre k)" using etcd_lawsD(1) [OF L g] by simp
  have put: "\<exists>won s'. kv_txn_put cl key cmp v s1 = (Inr won, s')" for key cmp v using u unfolding etcd_up_def by blast
  have "\<exists>won s'. try_assign cl parse (shard_key pre k) k n s = (Inr won, s')"
  proof (cases cur)
    case None
    then show ?thesis using g put by (simp add: try_assign_def ebind_def wrap_err_def split: prod.split sum.split) (metis Inr_not_Inl prod.inject)
  next
    case (Some z)
    obtain v r where z: "z = (v, r)" by fastforce
    obtain n' e' where X: "v = marshal_ownership \<lparr>ow_shard_id = k, ow_node_id = n', ow_epoch = e'\<rparr>" "in64 n'" "in64 e'"
      using owners_wf_key [OF w] Some z cur by metis
    then have "parse v = Inr \<lparr>ow_shard_id = k, ow_node_id = n', ow_epoch = e'\<rparr>" using p k(2) by (simp add: parser_ok_def)
    then show ?thesis using g put Some z
      by (simp add: try_assign_def ebind_def wrap_err_def decode_ownership_def split: prod.split sum.split) (metis Inr_not_Inl prod.inject)
  qed
  then obtain won s' where t: "try_assign cl parse (shard_key pre k) k n s = (Inr won, s')" by blast
  then show ?thesis using try_assign_ok(2) [OF L w p k t, of won] by simp
qed

lemma etcd_reliable:
  assumes L: "etcd_laws cl kv" and u: "etcd_up cl" and p: "parser_ok parse" "node_parser_ok nparse"
  shows "reliable_cluster (etcd_ops cl parse pre) (\<lambda>s. etcd_view parse pre (kv s)) (\<lambda>s. controller_ok pre (kv s))
           (etcd_alive_nodes cl nparse pre) (\<lambda>s. etcd_members pre (kv s))"
proof (rule reliable_cluster.intro [OF etcd_cluster_contract [OF L p]], unfold_locales)
  fix s assume "controller_ok pre (kv s)"
  then have w: "owners_wf pre (kv s)" "members_wf pre (kv s)" by (simp_all add: controller_ok_def)
  show "\<exists>ns s'. etcd_alive_nodes cl nparse pre s = (Inr ns, s')" by (rule etcd_alive_up [OF L u p(2) w(2)])
  show "\<exists>os s'. so_all_ownerships (etcd_ops cl parse pre) s = (Inr os, s')"
    using etcd_list_up [OF L u p(1) w(1)] by (simp add: etcd_ops_def etcd_all_ownerships_def)
  show "0 < n \<Longrightarrow> \<exists>os s'. so_shards_for_node (etcd_ops cl parse pre) n s = (Inr os, s')" for n
    using etcd_list_up [OF L u p(1) w(1)] by (simp add: etcd_ops_def etcd_shards_for_node_def)
  show "\<exists>s'. so_assign (etcd_ops cl parse pre) k n s = (Inr (), s')" if k: "0 \<le> k" "in64 k" "0 < n" "in64 n" for k n
  proof -
    obtain s' where "try_assign cl parse (shard_key pre k) k n s = (Inr True, s')"
      using try_assign_up [OF L u p(1) w(1) k(1,2,4)] by blast
    then have "assign_attempts cl parse (shard_key pre k) k n (Suc 7) s = (Inr (), s')"
      by (simp only: assign_attempts.simps) (simp add: ebind_def)
    moreover have "maxEtcdAssignRetries = Suc 7" by (simp add: maxEtcdAssignRetries_def)
    ultimately show ?thesis using k by (simp only: etcd_ops_def etcd_assign_def store_ops.simps) auto
  qed
qed

text \<open>The controller's own state beside etcd does not matter to the stores; a leader stays one.\<close>

lemma cluster_at_etcd:
  assumes C: "cluster ops view ok alive_nodes members"
  shows "cluster (at_etcd_ops ops) (\<lambda>(e, s). view s) (\<lambda>(e, s). ok s \<and> el_leader e) (at_etcd alive_nodes) (\<lambda>(e, s). members s)"
proof -
  note B = cluster.axioms(1) [OF C] ownership_lister.axioms(1) [OF cluster.axioms(1) [OF C]]
  note laws = ownership_store.owner_of [OF B(2)] ownership_store.owner_of_err [OF B(2)] ownership_store.shards_for_node [OF B(2)]
    ownership_store.shards_for_node_err [OF B(2)] ownership_store.assign [OF B(2)] ownership_store.assign_err [OF B(2)]
    ownership_lister.all_ownerships [OF B(1)] ownership_lister.all_ownerships_err [OF B(1)]
    cluster.alive [OF C] cluster.alive_err [OF C]
  show ?thesis
    apply unfold_locales
    apply (auto simp: at_etcd_ops_def at_etcd_def split: prod.splits dest: laws ownership_store.view_shard [OF B(2)] cluster.view_range [OF C]
        cluster.members_ok [OF C])
    using cluster.members_assign [OF C] cluster.members_shards [OF C] cluster.members_all [OF C]
    by (metis snd_conv)+
qed

lemma reliable_at_etcd:
  fixes ops :: "'s store_ops"
  assumes R: "reliable_cluster ops view ok alive_nodes members"
  shows "reliable_cluster (at_etcd_ops ops) (\<lambda>(e, s). view s) (\<lambda>(e, s). ok s \<and> el_leader e) (at_etcd alive_nodes) (\<lambda>(e, s). members s)"
proof (rule reliable_cluster.intro [OF cluster_at_etcd [OF reliable_cluster.axioms(1) [OF R]]], unfold_locales)
  fix t :: "elect \<times> 's" assume o: "case t of (e, s) \<Rightarrow> ok s \<and> el_leader e"
  obtain e :: elect and s where t: "t = (e, s)" by (cases t)
  have s: "ok s" using o t by simp
  show "\<exists>ns t'. at_etcd alive_nodes t = (Inr ns, t')"
    using reliable_cluster.alive_up [OF R s] t by (auto simp: at_etcd_def)
  show "\<exists>os t'. so_all_ownerships (at_etcd_ops ops) t = (Inr os, t')"
    using reliable_cluster.all_up [OF R s] t by (auto simp: at_etcd_def at_etcd_ops_def)
  show "0 < n \<Longrightarrow> \<exists>os t'. so_shards_for_node (at_etcd_ops ops) n t = (Inr os, t')" for n
    using reliable_cluster.shards_up [OF R s, of n] t by (auto simp: at_etcd_def at_etcd_ops_def)
  show "0 \<le> k \<Longrightarrow> in64 k \<Longrightarrow> 0 < n \<Longrightarrow> in64 n \<Longrightarrow> \<exists>t'. so_assign (at_etcd_ops ops) k n t = (Inr (), t')" for k n
    using reliable_cluster.assign_up [OF R s, of k n] t by (auto simp: at_etcd_def at_etcd_ops_def)
qed

lemma controller_run_append:
  assumes "controller_run ct f cfg es (s0, p0) = (None, reps0, (t, p))"
  obtains st where "new_stores ct (cc_etcd_endpoints (controller_defaults cfg)) (cc_etcd_prefix (controller_defaults cfg))
      (cc_controller_id (controller_defaults cfg)) (cc_election_ttl (controller_defaults cfg)) = Inr st"
    "\<forall>fs reps t' p'. controller_loop (controller_sweep (st_ownership st) (st_alive_nodes st) (Some (st_election st))
        (cc_shard_count (controller_defaults cfg)) (cc_controller_id (controller_defaults cfg)) (start_metrics (controller_defaults cfg) f)) fs (t, p)
        = (None, reps, (t', p')) \<longrightarrow> controller_run ct f cfg (es @ fs) (s0, p0) = (None, reps0 @ reps, (t', p'))"
proof (cases "new_stores ct (cc_etcd_endpoints (controller_defaults cfg)) (cc_etcd_prefix (controller_defaults cfg))
      (cc_controller_id (controller_defaults cfg)) (cc_election_ttl (controller_defaults cfg))")
  case (Inl err)
  then show ?thesis using assms by (simp add: controller_run_def Let_def)
next
  case (Inr st)
  let ?sw = "controller_sweep (st_ownership st) (st_alive_nodes st) (Some (st_election st))
        (cc_shard_count (controller_defaults cfg)) (cc_controller_id (controller_defaults cfg)) (start_metrics (controller_defaults cfg) f)"
  have "controller_loop ?sw es ((new_elect, s0), p0) = (None, reps0, (t, p))"
    using assms Inr by (auto simp: controller_run_def Let_def split: prod.splits option.splits)
  then show ?thesis using that [OF Inr] Inr by (simp add: controller_run_def Let_def controller_loop_append)
qed

text \<open>
  Property C10: once a controller leads and nothing else changes the stores, its sweeps come to rest.
  Each gets through; after as many as there were misplaced shards, and one more, every shard below the
  shard count has an owner, every owned shard is with the alive node the ring chooses for it, and from
  then on no sweep changes an owner or an epoch any more.
\<close>

theorem controller_comes_to_rest:
  fixes cfg :: controller_config
  defines "pre \<equiv> clean_etcd_prefix (cc_etcd_prefix (controller_defaults cfg))"
    and "n \<equiv> cc_shard_count (controller_defaults cfg)"
  assumes "etcd_laws (ct_kv ct) kv" "etcd_up (ct_kv ct)" "parser_ok (ct_parse ct)" "node_parser_ok (ct_parse_node ct)"
    and run: "controller_run ct f cfg es (s0, p0) = (None, reps0, ((e, s), p))" and "el_leader e"
    and "in64 n" "controller_ok pre (kv s)" "etcd_members pre (kv s) \<noteq> []"
    and "\<forall>k x. etcd_view (ct_parse ct) pre (kv s) k = Some x \<longrightarrow> 0 < ow_node_id x"
    and "card (misplaced (etcd_members pre (kv s)) (etcd_view (ct_parse ct) pre (kv s))) < m"
  shows "\<exists>v'. dom v' = {0..<n} \<union> dom (etcd_view (ct_parse ct) pre (kv s)) \<and>
    (\<forall>k x. v' k = Some x \<longrightarrow> ow_node_id x = shard_target (etcd_members pre (kv s)) k \<and> ow_node_id x \<in> set (etcd_members pre (kv s))) \<and>
    (\<forall>j \<ge> m. \<exists>reps e' s' p'. controller_run ct f cfg (es @ replicate j SweepTick) (s0, p0) = (None, reps0 @ reps, ((e', s'), p')) \<and>
       length reps = j \<and> (\<forall>r \<in> set reps. \<exists>dead mv. r = Some (Swept dead mv)) \<and>
       etcd_members pre (kv s') = etcd_members pre (kv s) \<and> etcd_view (ct_parse ct) pre (kv s') = v')"
proof -
  let ?ms = "etcd_members pre (kv s)" and ?view = "\<lambda>(e :: elect, s). etcd_view (ct_parse ct) pre (kv s)"
  let ?ok = "\<lambda>(e, s). controller_ok pre (kv s) \<and> el_leader e" and ?mem = "\<lambda>(e :: elect, s). etcd_members pre (kv s)"
  note R = reliable_at_etcd [OF etcd_reliable [OF assms(3-6), of pre]]
  obtain st where st: "new_stores ct (cc_etcd_endpoints (controller_defaults cfg)) (cc_etcd_prefix (controller_defaults cfg))
      (cc_controller_id (controller_defaults cfg)) (cc_election_ttl (controller_defaults cfg)) = Inr st"
    and app: "\<forall>fs reps t' p'. controller_loop (controller_sweep (st_ownership st) (st_alive_nodes st) (Some (st_election st))
        n (cc_controller_id (controller_defaults cfg)) (start_metrics (controller_defaults cfg) f)) fs ((e, s), p)
        = (None, reps, (t', p')) \<longrightarrow> controller_run ct f cfg (es @ fs) (s0, p0) = (None, reps0 @ reps, (t', p'))"
    unfolding n_def by (rule controller_run_append [OF run])
  let ?sw = "controller_sweep (st_ownership st) (st_alive_nodes st) (Some (st_election st))
        n (cc_controller_id (controller_defaults cfg)) (start_metrics (controller_defaults cfg) f)"
  have ops: "st_ownership st = at_etcd_ops (etcd_ops (ct_kv ct) (ct_parse ct) pre)"
    "st_alive_nodes st = at_etcd (etcd_alive_nodes (ct_kv ct) (ct_parse_node ct) pre)"
    using st by (auto simp: new_stores_def pre_def split: sum.splits option.splits prod.splits)
  have lead: "\<forall>t. ?ok t \<longrightarrow> st_election st t = (Inr True, t)"
    using st by (auto simp: new_stores_def try_acquire_def split: sum.splits option.splits prod.splits)
  have n: "0 < n" by (simp add: n_def controller_defaults_def)
  have fit: "reliable_cluster.fit ?view ?ok ?mem ?ms (e, s)"
    using assms(8,10-12) by (simp add: reliable_cluster.fit_def [OF R] reliable_cluster.steady_def [OF R])
  note rest = reliable_cluster.loop_rest [OF R lead n assms(9), folded ops]
  obtain reps1 e1 s1 p1 where 1: "controller_loop ?sw (replicate m SweepTick) ((e, s), p) = (None, reps1, ((e1, s1), p1))"
    "length reps1 = m" "\<forall>r \<in> set reps1. \<exists>dead mv. r = Some (Swept dead mv)"
    "reliable_cluster.fit ?view ?ok ?mem ?ms (e1, s1)" "reliable_cluster.in_place ?view ?ms n (e1, s1)"
    "dom (?view (e1, s1)) = {0..<n} \<union> dom (?view (e, s))"
    using rest [OF fit, of m "cc_controller_id (controller_defaults cfg)" "start_metrics (controller_defaults cfg) f" p] assms(13)
    by fastforce
  let ?v = "etcd_view (ct_parse ct) pre (kv s1)"
  have rest_j: "\<exists>reps e' s' p'. controller_run ct f cfg (es @ replicate j SweepTick) (s0, p0) = (None, reps0 @ reps, ((e', s'), p')) \<and>
       length reps = j \<and> (\<forall>r \<in> set reps. \<exists>dead mv. r = Some (Swept dead mv)) \<and>
       etcd_members pre (kv s') = ?ms \<and> etcd_view (ct_parse ct) pre (kv s') = ?v" if "m \<le> j" for j
  proof -
    obtain reps2 e2 s2 p2 where 2: "controller_loop ?sw (replicate (j - m) SweepTick) ((e1, s1), p1) = (None, reps2, ((e2, s2), p2))"
      "length reps2 = j - m" "\<forall>r \<in> set reps2. \<exists>dead mv. r = Some (Swept dead mv)"
      "reliable_cluster.fit ?view ?ok ?mem ?ms (e2, s2)" "?view (e2, s2) = ?view (e1, s1)"
      using rest [OF 1(4), of "j - m" "cc_controller_id (controller_defaults cfg)" "start_metrics (controller_defaults cfg) f" p1] 1(5)
      by fastforce
    have r: "replicate j SweepTick = replicate m SweepTick @ replicate (j - m) SweepTick"
      using that by (simp flip: replicate_add)
    have "controller_loop ?sw (replicate j SweepTick) ((e, s), p) = (None, reps1 @ reps2, ((e2, s2), p2))"
      unfolding r controller_loop_append using 1(1) 2(1) by simp
    then have "controller_run ct f cfg (es @ replicate j SweepTick) (s0, p0) = (None, reps0 @ reps1 @ reps2, ((e2, s2), p2))"
      using app by blast
    moreover have "etcd_members pre (kv s2) = ?ms"
      using 2(4) by (simp add: reliable_cluster.fit_def [OF R] reliable_cluster.steady_def [OF R])
    ultimately show ?thesis using 1(2,3) 2(2,3,5) that by (intro exI [of _ "reps1 @ reps2"] exI) auto
  qed
  have right: "ow_node_id x = shard_target ?ms k \<and> ow_node_id x \<in> set ?ms" if v: "?v k = Some x" for k x
  proof -
    have "misplaced ?ms ?v = {}" "owned_by ?v (- set ?ms) = {}" using 1(5) by (simp_all add: reliable_cluster.in_place_def [OF R])
    then show ?thesis using v unfolding misplaced_def owned_by_def by blast
  qed
  show ?thesis
  proof (intro exI [of _ ?v] conjI)
    show "dom ?v = {0..<n} \<union> dom (etcd_view (ct_parse ct) pre (kv s))" using 1(6) by simp
    show "\<forall>k x. ?v k = Some x \<longrightarrow> ow_node_id x = shard_target ?ms k \<and> ow_node_id x \<in> set ?ms" using right by blast
  qed (use rest_j in blast)
qed

text \<open>A controller of two shards over the reference etcd: its first sweep finds no node, then two nodes join.\<close>

definition ref_controller_client :: "etcd_db controller_client" where
  "ref_controller_client =
     \<lparr>ct_kv = ref_client,
      ct_election = \<lparr>ec_grant = (\<lambda>ttl s. (Inr 1, s)), ec_campaign = (\<lambda>key val l s. (Inr True, s)),
                     ec_keep_alive = (\<lambda>l s. (Inr (), s)), ec_revoke = (\<lambda>l s. (Inr (), s))\<rparr>,
      ct_parse = ref_parse, ct_parse_node = ref_parse_node, ct_dial = (\<lambda>_. None)\<rparr>"

definition ref_controller :: controller_config where
  "ref_controller =
     \<lparr>cc_controller_id = ''c1'', cc_etcd_endpoints = ''a,b'', cc_etcd_prefix = ''/testp'', cc_election_ttl = 0, cc_membership_ttl = 0,
      cc_sweep_interval = 0, cc_shard_count = 2, cc_metrics_addr = []\<rparr>"

abbreviation two_nodes_join :: "(elect \<times> etcd_db) controller_event list" where
  "two_nodes_join \<equiv> [SweepTick, Elsewhere (\<lambda>(e, s). (e, ref_two_nodes))]"

lemma ref_etcd_up: "etcd_up ref_client"
proof -
  have "\<exists>won s'. ref_txn_put k cmp v s = (Inr won, s')" for k cmp v s by (simp add: ref_txn_put_def) blast
  then show ?thesis by (simp add: etcd_up_def ref_client_def ref_get_def ref_get_prefix_def)
qed

interpretation ctl_up: reliable_cluster "etcd_ops ref_client ref_parse pre" "\<lambda>s. etcd_view ref_parse pre (ref_view s)"
    "\<lambda>s. controller_ok pre (ref_view s)" "etcd_alive_nodes ref_client ref_parse_node pre"
    "\<lambda>s. etcd_members pre (ref_view s)" for pre
  by (rule etcd_reliable [OF ref_laws ref_etcd_up ref_parser_ok ref_parse_node_ok])

lemma ref_controller_prefix: "clean_etcd_prefix ''/testp'' = ''/testp''"
  by (simp add: clean_etcd_prefix_def path_clean_def trim_space_def is_space_def clean_step_def)

lemma ref_controller_defaults:
  "cc_etcd_endpoints (controller_defaults ref_controller) = ''a,b''" "cc_etcd_prefix (controller_defaults ref_controller) = ''/testp''"
  "cc_controller_id (controller_defaults ref_controller) = ''c1''" "cc_shard_count (controller_defaults ref_controller) = 2"
  "start_metrics (controller_defaults ref_controller) (f :: unit recorder) = None"
  by (simp_all add: controller_defaults_def ref_controller_def trim_space_def is_space_def start_metrics_def)

text \<open>A leading sweep that finds no node and no owner does nothing.\<close>

lemma sweep_of_nothing:
  assumes "so_all_ownerships ops s = (Inr [], s)" "alive_nodes s = (Inr [], s)" "acquire s0 = (Inr True, s)" "0 < n"
  shows "controller_sweep ops alive_nodes (Some acquire) n c None (s0, p) = (Some (Swept [] None), (s, p))"
  using assms by (simp add: controller_sweep_def ensure_initial_ownership_def failover_missing_owners_def rebalance_once_def
      record_cluster_metrics_def record_one_def ebind_def)

lemma ref_controller_starts:
  "controller_run ref_controller_client noop_recorder ref_controller two_nodes_join (ref_empty, ()) =
     (None, [Some (Swept [] None)], ((become_leader 1 new_elect, ref_two_nodes), ()))"
proof -
  obtain ttl where n: "new_stores ref_controller_client ''a,b'' ''/testp'' ''c1'' (cc_election_ttl (controller_defaults ref_controller)) = Inr
      \<lparr>st_ownership = at_etcd_ops (etcd_ops ref_client ref_parse ''/testp''),
       st_alive_nodes = at_etcd (etcd_alive_nodes ref_client ref_parse_node ''/testp''),
       st_election = try_acquire (ct_election ref_controller_client) (path_clean (''/testp'' @ ''/controller/leader'')) ''c1'' ttl,
       st_close = (\<lambda>s. snd (resign (ct_election ref_controller_client) s))\<rparr>"
    by (simp add: new_stores_def parse_etcd_endpoints_def new_etcd_election_def ref_controller_prefix
        ref_controller_client_def trim_space_def is_space_def)
  have a: "at_etcd (etcd_alive_nodes ref_client ref_parse_node ''/testp'') (e, ref_empty) = (Inr [], (e, ref_empty))" for e
    by (simp add: at_etcd_def etcd_alive_nodes_def ref_client_def ref_get_prefix_def ref_empty_def ebind_def wrap_err_def)
  have b: "so_all_ownerships (at_etcd_ops (etcd_ops ref_client ref_parse ''/testp'')) (e, ref_empty) = (Inr [], (e, ref_empty))" for e
    by (simp add: at_etcd_ops_def etcd_ops_def at_etcd_def etcd_all_ownerships_def ref_client_def ref_get_prefix_def ref_empty_def ebind_def wrap_err_def)
  have t: "try_acquire (ct_election ref_controller_client) key val ttl (new_elect, ref_empty) = (Inr True, (become_leader 1 new_elect, ref_empty))" for key val ttl
    by (simp add: try_acquire_def new_elect_def ref_controller_client_def grant_lease_def put_leader_key_def wrap_err_def)
  have s: "controller_sweep (at_etcd_ops (etcd_ops ref_client ref_parse ''/testp'')) (at_etcd (etcd_alive_nodes ref_client ref_parse_node ''/testp''))
      (Some (try_acquire (ct_election ref_controller_client) key val ttl)) 2 ''c1'' None ((new_elect, ref_empty), ()) =
      (Some (Swept [] None), ((become_leader 1 new_elect, ref_empty), ()))" for key val ttl
    by (rule sweep_of_nothing) (simp_all add: a b t)
  show ?thesis unfolding controller_run_def prod.case ref_controller_defaults Let_def n by (simp add: s)
qed

theorem controller_comes_to_rest_witness:
  "\<exists>reps t. controller_run ref_controller_client noop_recorder ref_controller (two_nodes_join @ [SweepTick]) (ref_empty, ()) = (None, reps, (t, ())) \<and>
     dom (etcd_view ref_parse ''/testp'' (ref_view (snd t))) = {0, 1}"
proof -
  let ?v = "etcd_view ref_parse ''/testp'' (ref_view ref_two_nodes)"
  have c: "ct_kv ref_controller_client = ref_client" "ct_parse ref_controller_client = ref_parse"
    "ct_parse_node ref_controller_client = ref_parse_node" by (simp_all add: ref_controller_client_def)
  have ok: "controller_ok ''/testp'' (ref_view ref_two_nodes)" using ref_two_nodes_ok by (simp add: controller_ok_def)
  have none: "ref_view ref_two_nodes (shard_key ''/testp'' k) = None" for k
    by (simp add: ref_view_def ref_two_nodes_def shard_key_def node_key_def shards_prefix_def nodes_prefix_def)
  have v: "?v = Map.empty" by (rule ext) (simp add: etcd_view_def none)
  have "1 \<in> alive_set ''/testp'' (ref_view ref_two_nodes)" by (simp add: alive_set_def ref_view_def ref_two_nodes_def in64_def)
  moreover have "finite (alive_set ''/testp'' (ref_view ref_two_nodes))"
  proof -
    obtain ns s' where "etcd_alive_nodes ref_client ref_parse_node ''/testp'' ref_two_nodes = (Inr ns, s')"
      using etcd_alive_up [OF ref_laws ref_etcd_up ref_parse_node_ok ref_two_nodes_ok(1)] by blast
    then show ?thesis using alive_nodes_ok(2) [OF ref_laws ref_parse_node_ok ref_two_nodes_ok(1)] by blast
  qed
  ultimately have m: "etcd_members ''/testp'' (ref_view ref_two_nodes) \<noteq> []" by (auto simp: etcd_members_def)
  have card: "card (misplaced ns Map.empty) < 1" for ns by (simp add: misplaced_def)
  have lead: "el_leader (become_leader 1 new_elect)" by (simp add: become_leader_def)
  have pos: "\<forall>k x. Map.empty k = Some x \<longrightarrow> 0 < ow_node_id x" by simp
  have 2: "in64 2" by (simp add: in64_def)
  obtain v' where v': "dom v' = {0..<2} \<union> dom (Map.empty :: int \<rightharpoonup> ownership)"
    "\<forall>j \<ge> 1. \<exists>reps e' s' p'. controller_run ref_controller_client noop_recorder ref_controller (two_nodes_join @ replicate j SweepTick) (ref_empty, ()) =
         (None, [Some (Swept [] None)] @ reps, ((e', s'), p')) \<and> length reps = j \<and> (\<forall>r \<in> set reps. \<exists>dead mv. r = Some (Swept dead mv)) \<and>
         etcd_members ''/testp'' (ref_view s') = etcd_members ''/testp'' (ref_view ref_two_nodes) \<and> etcd_view ref_parse ''/testp'' (ref_view s') = v'"
    using controller_comes_to_rest [where cfg = ref_controller and ct = ref_controller_client and kv = ref_view and m = 1,
      unfolded c ref_controller_defaults ref_controller_prefix, OF ref_laws ref_etcd_up ref_parser_ok ref_parse_node_ok
      ref_controller_starts lead 2 ok m, unfolded v, OF pos card] by blast
  obtain reps e' s' p' where "controller_run ref_controller_client noop_recorder ref_controller (two_nodes_join @ replicate 1 SweepTick) (ref_empty, ()) =
         (None, [Some (Swept [] None)] @ reps, ((e', s'), p'))" "etcd_view ref_parse ''/testp'' (ref_view s') = v'"
    using v'(2) by blast
  moreover have "{0..<2} = {0, 1 :: int}" by auto
  ultimately show ?thesis using v'(1) by (intro exI [of _ "[Some (Swept [] None)] @ reps"] exI [of _ "(e', s')"]) simp
qed

section \<open>The heartbeats end with the first error\<close>

declare worker_heartbeat.simps [simp del]

text \<open>The two loops do the same.\<close>

lemma worker_heartbeat_eq:
  "worker_heartbeat mark n bs s = (case run_membership_heartbeat (Some mark) n bs s of (r, s') \<Rightarrow> (r \<noteq> None, s'))"
proof (induction bs arbitrary: s)
  case Nil
  show ?case by (subst worker_heartbeat.simps) (simp add: run_membership_heartbeat_def split: prod.split sum.split)
next
  case (Cons b bs)
  show ?case
    by (subst worker_heartbeat.simps) (cases b; simp add: Cons.IH run_membership_heartbeat_def split: prod.split sum.split)
qed

lemma heartbeat_fails:
  "efor (replicate j n) mark s = (Inr u, s1) \<Longrightarrow> mark n s1 = (Inl err, s') \<Longrightarrow>
   worker_heartbeat mark n (replicate j BeatTick @ cs) s = (True, s') \<and>
   run_membership_heartbeat (Some mark) n (replicate j BeatTick @ cs) s = (Some err, s')"
proof (induction j arbitrary: s)
  case 0
  then show ?case by (subst worker_heartbeat.simps) (simp add: run_membership_heartbeat_def)
next
  case (Suc j)
  obtain u1 s0 where 0: "mark n s = (Inr u1, s0)" "efor (replicate j n) mark s0 = (Inr u, s1)"
    using Suc.prems(1) by (auto simp: ebind_def split: prod.splits sum.splits)
  have "run_membership_heartbeat (Some mark) n (replicate (Suc j) BeatTick @ cs) s =
      run_membership_heartbeat (Some mark) n (replicate j BeatTick @ cs) s0"
    by (simp add: run_membership_heartbeat_def 0(1))
  moreover have "worker_heartbeat mark n (replicate (Suc j) BeatTick @ cs) s = worker_heartbeat mark n (replicate j BeatTick @ cs) s0"
    by (subst worker_heartbeat.simps) (simp add: 0(1))
  ultimately show ?case using Suc.IH [OF 0(2) Suc.prems(2)] by simp
qed

text \<open>
  Property C36: both heartbeats end with the first request that fails. If a node's first \<open>j\<close> calls of
  \<open>MarkAlive\<close> succeed and the next one fails, then however long the program runs on, with any number of
  further ticks, the heartbeat returns at that failure (with its error, in the node's program) and the
  store is left as that call left it: neither program retries, nor marks itself alive ever again.
\<close>

theorem heartbeat_ends_with_first_error:
  assumes "efor (replicate j n) mark s = (Inr (), s1)" "mark n s1 = (Inl err, s')"
  shows "run_membership_heartbeat (Some mark) n (replicate j BeatTick @ cs) s = (Some err, s') \<and>
    worker_heartbeat mark n (replicate j BeatTick @ cs) s = (True, s')"
  using heartbeat_fails [OF assms] by blast

text \<open>A store that counts the requests and fails the third one only.\<close>

theorem heartbeat_ends_with_first_error_witness:
  "worker_heartbeat (\<lambda>n s. if s = 2 then (Inl (ErrExternal ''timeout''), 3) else (Inr (), s + 1)) 7 (replicate 9 BeatTick) (0 :: nat) = (True, 3)"
proof -
  let ?mark = "\<lambda>n :: int. \<lambda>s :: nat. if s = 2 then (Inl (ErrExternal ''timeout''), 3) else (Inr (), s + 1)"
  have "efor (replicate 2 7) ?mark 0 = (Inr (), 2)" "?mark 7 2 = (Inl (ErrExternal ''timeout''), 3)"
    by (simp_all add: numeral_2_eq_2 ebind_def ret_def)
  from heartbeat_ends_with_first_error [OF this, of "replicate 7 BeatTick"] show ?thesis by (simp add: numeral_eq_Suc)
qed

end
