(* ===== verification/MatcherMain.thy ===== *)
theory MatcherMain
  imports MatchWorker Metrics
begin

text \<open>
  The start and stop hooks of the matcher worker program (\<open>cmd/matcher-worker/main.go\<close>): when a node
  starts a shard it makes up the shard's riders from the seed, puts them into the index and writes
  them to the database. The state is the database world and the index. The runner calls the hooks
  (\<open>Runner\<close>), the worker uses the index (\<open>MatchWorker\<close>). Also here is the cell size of the index, which the
  program computes with floating-point numbers.
\<close>

section \<open>The hooks\<close>

definition areaSize :: int where "areaSize = 100000"
definition shardCount :: int where "shardCount = 64"
definition loadWeight :: int where "loadWeight = 10000"

text \<open>
  \<open>rng seed n bound\<close> is what call number \<open>n\<close> of \<open>Intn(bound)\<close> returns; rider \<open>i\<close> makes the calls \<open>2 i\<close>
  and \<open>2 i + 1\<close>, whatever shard is asked for.
\<close>

definition rider_at :: "(int \<Rightarrow> nat \<Rightarrow> int \<Rightarrow> int) \<Rightarrow> int \<Rightarrow> int \<Rightarrow> int \<Rightarrow> rider" where
  "rider_at rng seed area i =
     \<lparr>r_uid = i + 1, r_x = rng seed (2 * nat i) area, r_y = rng seed (2 * nat i + 1) area, r_online = False, r_cell_id = 0, r_count = 0\<rparr>"

fun riders_for_shard :: "(int \<Rightarrow> nat \<Rightarrow> int \<Rightarrow> int) \<Rightarrow> int \<Rightarrow> int list \<Rightarrow> int \<Rightarrow> layout \<Rightarrow> int \<Rightarrow> rider list" where
  "riders_for_shard rng seed [] area l k = []"
| "riders_for_shard rng seed (i # is) area l k =
     (let r = rider_at rng seed area i in
      if shard_id l (r_x r) (r_y r) = k then r # riders_for_shard rng seed is area l k else riders_for_shard rng seed is area l k)"

definition row_of_rider :: "rider \<Rightarrow> rider_row" where
  "row_of_rider r = \<lparr>rr_uid = r_uid r, rr_x = wrap32 (r_x r), rr_y = wrap32 (r_y r), rr_online = True,
     rr_cell_id = r_cell_id r, rr_count = r_count r\<rparr>"

text \<open>The new riders are allocated at the end of the heap.\<close>

definition matcher_start_hook ::
  "env \<Rightarrow> (int \<Rightarrow> nat \<Rightarrow> int \<Rightarrow> int) \<Rightarrow> int \<Rightarrow> int \<Rightarrow> int \<Rightarrow> (world \<times> istate, unit) eff" where
  "matcher_start_hook en rng seed rider_count k = (\<lambda>(w, (h, i)).
     let riders = riders_for_shard rng seed [0..rider_count - 1] areaSize (ix_layout i) k;
         ps = [length h..<length h + length riders];
         st = replace_shard k ps (h @ riders, i)
     in case efor ps (\<lambda>p. auto_commit en (upsert_rider (row_of_rider (fst st ! p)))) w of (r, w') \<Rightarrow> (r, (w', st)))"

definition matcher_stop_hook :: "int \<Rightarrow> world \<times> istate \<Rightarrow> world \<times> istate" where
  "matcher_stop_hook k = (\<lambda>(w, st). (w, remove_shard k st))"

text \<open>The index of the program.\<close>

definition matcher_index :: "int \<Rightarrow> index" where
  "matcher_index cell = new_index shardCount cell areaSize loadWeight"

section \<open>The cell size\<close>

text \<open>
  A positive \<open>float64\<close> is a mantissa of 53 bits (or \<open>2 ^ 53\<close> itself) and the exponent of its last place;
  the numbers here are far from the ends of the exponent's range. A quotient is rounded to the nearest,
  ties to even. For the root the mantissa is shifted by 54 bits, or 55 to make the exponent even: the
  integer root has one bit more than the result, and a tie would make an odd number's square even.
\<close>

definition f53_quotient :: "nat \<Rightarrow> nat \<Rightarrow> nat \<times> int" where
  "f53_quotient a b =
     (let e0 = bitlen (int a) - bitlen (int b) - 53;
          num = (\<lambda>e. a * 2 ^ nat (- e)); den = (\<lambda>e. b * 2 ^ nat e);
          e = (if 2 ^ 53 \<le> num e0 div den e0 then e0 + 1 else e0);
          q = num e div den e; r = num e mod den e
      in (if 2 * r < den e \<or> (2 * r = den e \<and> even q) then q else q + 1, e))"

definition f53_sqrt :: "nat \<times> int \<Rightarrow> nat \<times> int" where
  "f53_sqrt x = (let k = (if even (snd x) then 54 else 55); r = isqrt (fst x * 2 ^ k)
     in ((r + 1) div 2, (snd x - int k) div 2 + 1))"

text \<open>
  \<open>automaticCellSize\<close>: about 20 riders in a cell. The quotient of \<open>float64(areaSize)\<close> and the root is
  the fraction \<open>num / den\<close> when it is compared and cut off.
\<close>

definition cell_within :: "int \<Rightarrow> int \<Rightarrow> int \<Rightarrow> int" where
  "cell_within area num den =
     (if num < den then 1 else if num > f64_of_int area * den then area else int64_of_f64 (num div den))"

definition automatic_cell_size :: "int \<Rightarrow> int \<Rightarrow> int" where
  "automatic_cell_size area riders =
     (if riders \<le> 0 then area
      else if area \<le> 0 then 1
      else let root = f53_sqrt (f53_quotient (nat (f64_of_int riders)) 20);
               cell = f53_quotient (nat (f64_of_int area)) (fst root);
               e = snd cell - snd root
           in cell_within area (int (fst cell) * 2 ^ nat e) (2 ^ nat (- e)))"

text \<open>The cells are never empty and never larger than the area, whatever the floating-point steps give.\<close>

lemma cell_within_bounds:
  assumes "1 \<le> area" "area < 2 ^ 53" "0 < den"
  shows "1 \<le> cell_within area num den \<and> cell_within area num den \<le> area"
proof (cases "num < den \<or> num > area * den")
  case True
  then show ?thesis using assms(1,2) by (auto simp: cell_within_def)
next
  case False
  have "den div den \<le> num div den" using False assms(3) by (intro zdiv_mono1) simp_all
  moreover have "num div den \<le> area * den div den" using False assms(3) by (intro zdiv_mono1) simp_all
  ultimately have "1 \<le> num div den" "num div den \<le> area" using assms(3) by simp_all
  then show ?thesis using False assms(1,2) by (simp add: cell_within_def int64_of_f64_def in64_def)
qed

lemma automatic_cell_size_bounds:
  assumes "1 \<le> area" "area < 2 ^ 53"
  shows "1 \<le> automatic_cell_size area riders \<and> automatic_cell_size area riders \<le> area"
proof -
  have "1 \<le> cell_within area num (2 ^ k) \<and> cell_within area num (2 ^ k) \<le> area" for num :: int and k
    by (rule cell_within_bounds [OF assms]) simp
  then show ?thesis using assms(1) by (simp add: automatic_cell_size_def Let_def)
qed

lemma cell_size_fits: "automatic_cell_size areaSize riders \<le> 2 ^ 62"
  using automatic_cell_size_bounds [of areaSize riders] by (simp add: areaSize_def)

text \<open>2000 riders: the square root of 100 is 10, the cell 10000.\<close>

lemma isqrt_unique: "k * k \<le> n \<Longrightarrow> n < (k + 1) * (k + 1) \<Longrightarrow> isqrt n = k"
  by (metis antisym_conv isqrt_le_iff le_less_trans linorder_not_le not_less_eq_eq Suc_eq_plus1)

lemma bitlen_unique: "2 ^ k \<le> n \<Longrightarrow> n < 2 ^ Suc k \<Longrightarrow> bitlen n = int (Suc k)"
  using bitlen_le_iff_power [of n "int (Suc k)"] bitlen_le_iff_power [of n "int k"] by (simp add: nat_add_distrib)

lemma cell_size_2000: "automatic_cell_size areaSize 2000 = 10000"
proof -
  have b: "bitlen 2000 = 11" "bitlen 20 = 5" "bitlen 100000 = 17" "bitlen 5629499534213120 = 53"
    using bitlen_unique [of 10 2000] bitlen_unique [of 4 20] bitlen_unique [of 16 100000] bitlen_unique [of 52 5629499534213120] by simp_all
  have q: "f53_quotient 2000 20 = (7036874417766400, -46)" by (simp add: f53_quotient_def Let_def b)
  have "isqrt (7036874417766400 * 2 ^ 54) = 11258999068426240" by (rule isqrt_unique) simp_all
  then have r: "f53_sqrt (7036874417766400, -46) = (5629499534213120, -49)" by (simp add: f53_sqrt_def Let_def)
  have c: "f53_quotient 100000 5629499534213120 = (5497558138880000, -88)" by (simp add: f53_quotient_def Let_def b)
  show ?thesis by (simp add: automatic_cell_size_def areaSize_def q r c cell_within_def int64_of_f64_def in64_def)
qed

section \<open>The riders of a shard\<close>

definition home :: "(int \<Rightarrow> nat \<Rightarrow> int \<Rightarrow> int) \<Rightarrow> int \<Rightarrow> layout \<Rightarrow> int \<Rightarrow> int" where
  "home rng seed l u = (let r = rider_at rng seed areaSize (u - 1) in shard_id l (r_x r) (r_y r))"

lemma riders_for_shard_eq:
  "riders_for_shard rng seed is areaSize l k = map (rider_at rng seed areaSize) (filter (\<lambda>i. home rng seed l (i + 1) = k) is)"
  by (induction "is") (simp_all add: home_def Let_def)

lemma rider_at_uid [simp]: "r_uid (rider_at rng seed area i) = i + 1" "r_count (rider_at rng seed area i) = 0"
  by (simp_all add: rider_at_def)

lemma riders_uids:
  "map r_uid (riders_for_shard rng seed [0..n - 1] areaSize l k) = filter (\<lambda>u. home rng seed l u = k) [1..n]"
proof -
  have "map (\<lambda>i. i + 1) [0..n - 1] = [1..n]" by (rule nth_equalityI) auto
  then have "filter (\<lambda>u. home rng seed l u = k) [1..n] = map (\<lambda>i. i + 1) (filter (\<lambda>i. home rng seed l (i + 1) = k) [0..n - 1])"
    by (metis (no_types, lifting) comp_apply filter_cong filter_map)
  then show ?thesis by (simp add: riders_for_shard_eq comp_def)
qed

section \<open>What the index and the database hold\<close>

lemma replace_shard_heap:
  assumes "\<forall>p \<in> set ps. p < length h" "distinct (map (\<lambda>p. r_uid (h ! p)) ps)" "p \<in> set ps"
  shows "r_uid (fst (replace_shard s ps (h, i)) ! p) = r_uid (h ! p)" "r_count (fst (replace_shard s ps (h, i)) ! p) = r_count (h ! p)"
    "r_x (fst (replace_shard s ps (h, i)) ! p) = r_x (h ! p)" "r_y (fst (replace_shard s ps (h, i)) ! p) = r_y (h ! p)"
proof -
  let ?g0 = "\<lparr>g_cell_size = (if ix_cell_size i \<le> 0 then 1 else ix_cell_size i), g_riders = [], g_cells = Map.empty\<rparr>"
  obtain h' g' where n: "new_grid_index ps (ix_cell_size i) h = (h', g')" by fastforce
  have e: "fst (replace_shard s ps (h, i)) = (if valid_shard i s then h' else h)"
    using n by (simp add: replace_shard_def new_matcher_def Let_def)
  have a: "add_riders ps h ?g0 = (h', g')" using n by (simp add: new_grid_index_def)
  have g0: "grid_wf h ?g0" by (rule empty_grid_wf) simp
  note A = add_riders_distinct [OF g0 assms(1,2) _ a, simplified, unfolded empty_grid_wf(2), simplified]
  have T: "touches_only (set ps) h h'" using A by simp
  have m: "map_of (map (\<lambda>p. (r_uid (h ! p), p)) ps) (r_uid (h ! p)) = Some p"
    using assms(2,3) by (auto simp: map_of_eq_Some_iff comp_def)
  then have "positions h' g' (r_uid (h ! p)) = Some (r_x (h ! p), r_y (h ! p))" "map_of (g_riders g') (r_uid (h ! p)) = Some p"
    using A map_of_by_uid [of h "\<lambda>p. (r_x (h ! p), r_y (h ! p))" ps] by simp_all
  then have "r_x (h' ! p) = r_x (h ! p) \<and> r_y (h' ! p) = r_y (h ! p)" unfolding positions_def by (simp split: if_splits)
  then show "r_uid (fst (replace_shard s ps (h, i)) ! p) = r_uid (h ! p)" "r_count (fst (replace_shard s ps (h, i)) ! p) = r_count (h ! p)"
    "r_x (fst (replace_shard s ps (h, i)) ! p) = r_x (h ! p)" "r_y (fst (replace_shard s ps (h, i)) ! p) = r_y (h ! p)"
    using touches_onlyD(3,4) [OF T, of p] assms(1,3) e by simp_all
qed

lemma efor_upserts:
  "distinct (map (\<lambda>p. rr_uid (f p)) ps) \<Longrightarrow> efor ps (\<lambda>p. auto_commit en (upsert_rider (f p))) w = (r, w') \<Longrightarrow>
   (\<forall>u. u \<notin> (\<lambda>p. rr_uid (f p)) ` set ps \<longrightarrow> tb_riders (w_db w') u = tb_riders (w_db w) u) \<and>
   (\<forall>p \<in> set ps. tb_riders (w_db w') (rr_uid (f p)) = Some (f p) \<or> isl r \<and> tb_riders (w_db w') (rr_uid (f p)) = tb_riders (w_db w) (rr_uid (f p)))"
proof (induction ps arbitrary: w)
  case (Cons p ps)
  show ?case
  proof (cases "en_fault en (w_tick w)")
    case (Some e)
    then have "r = Inl e" "w_db w' = w_db w" using Cons.prems(2) by (auto simp: ebind_def auto_commit_def tick_def)
    then show ?thesis by simp
  next
    case None
    define w1 where "w1 = (tick w)\<lparr>w_db := (w_db w)\<lparr>tb_riders := (tb_riders (w_db w))(rr_uid (f p) \<mapsto> f p)\<rparr>\<rparr>"
    have 0: "auto_commit en (upsert_rider (f p)) w = (Inr (), w1)" using None by (simp add: auto_commit_def upsert_rider_def w1_def)
    have e: "efor ps (\<lambda>p. auto_commit en (upsert_rider (f p))) w1 = (r, w')" using Cons.prems(2) 0 by simp
    have d: "distinct (map (\<lambda>p. rr_uid (f p)) ps)" "rr_uid (f p) \<notin> (\<lambda>p. rr_uid (f p)) ` set ps" using Cons.prems(1) by simp_all
    note IH = Cons.IH [OF d(1) e]
    have 1: "tb_riders (w_db w1) = (tb_riders (w_db w))(rr_uid (f p) \<mapsto> f p)" by (simp add: w1_def)
    have "tb_riders (w_db w') (rr_uid (f p)) = Some (f p)" using IH d(2) 1 by simp
    moreover have "rr_uid (f q) \<noteq> rr_uid (f p)" if "q \<in> set ps" for q using d(2) that by (metis imageI)
    ultimately show ?thesis using IH 1 by auto
  qed
qed simp

definition homed :: "(int \<Rightarrow> nat \<Rightarrow> int \<Rightarrow> int) \<Rightarrow> int \<Rightarrow> int \<Rightarrow> index \<Rightarrow> bool" where
  "homed rng seed n i \<longleftrightarrow> (\<forall>u s. ix_rider_shards i u = Some s \<longrightarrow> 1 \<le> u \<and> u \<le> n \<and> home rng seed (ix_layout i) u = s)"

lemma view_shard_of: "idx_wf st \<Longrightarrow> ix_rider_shards (snd st) u = map_option fst (idx_view st u)"
  by (cases st) (auto simp: idx_wf_def idx_view_def split: option.split)

lemma homed_view:
  "idx_wf st \<Longrightarrow> homed rng seed n (snd st) \<longleftrightarrow>
     (\<forall>u s y. idx_view st u = Some (s, y) \<longrightarrow> 1 \<le> u \<and> u \<le> n \<and> home rng seed (ix_layout (snd st)) u = s)"
  by (auto simp: homed_def view_shard_of)

lemma replace_shard_layout: "ix_layout (snd (replace_shard k ps st)) = ix_layout (snd st)"
  by (cases st) (simp add: replace_shard_def new_matcher_def Let_def register_riders_maps split: prod.split)

text \<open>Allocating riders changes nothing in the index.\<close>

lemma idx_grow:
  assumes w: "idx_wf (h, i)"
  shows "idx_wf (h @ rs, i)" "idx_view (h @ rs, i) = idx_view (h, i)"
proof -
  note W = idx_wfD [OF w]
  have same: "(h @ rs) ! p = h ! p" if "ix_riders i u = Some p" for u p
    using W(2) [OF that] by (simp add: nth_append)
  have g: "grid_wf (h @ rs) (shard_grid i s)" if "valid_shard i s" for s
  proof (rule grid_frame(3) [OF _ _ W(7) [OF that]])
    show "(h @ rs) ! p = h ! p" if "map_of (g_riders (shard_grid i s)) u = Some p" for u p
      using that W(8) [OF \<open>valid_shard i s\<close>, of u] same by (simp split: if_splits)
  qed simp
  have r: "p < length (h @ rs) \<and> r_uid ((h @ rs) ! p) = u \<and> r_online ((h @ rs) ! p)" if "ix_riders i u = Some p" for u p
    using W(2,3,4) [OF that] same [OF that] by simp
  show "idx_wf (h @ rs, i)" using w g r unfolding idx_wf_def prod.case by blast
  show "idx_view (h @ rs, i) = idx_view (h, i)"
    using same by (auto simp: idx_view_def fun_eq_iff split: option.split)
qed

lemma home_filter: "set (filter (\<lambda>u. home rng seed l u = k) [1..n]) = {u. 1 \<le> u \<and> u \<le> n \<and> home rng seed l u = k}"
  by auto

lemma start_hook_effect:
  assumes "idx_wf (h, i)" "valid_shard i k" "homed rng seed n i"
    and "matcher_start_hook en rng seed n k (w, (h, i)) = (r, (w', st'))"
  shows "let born = (\<lambda>u. rider_at rng seed areaSize (u - 1)); mine = {u. 1 \<le> u \<and> u \<le> n \<and> home rng seed (ix_layout i) u = k} in
    idx_wf st' \<and> homed rng seed n (snd st') \<and> active_shard (snd st') k \<and>
    (\<forall>u. idx_view st' u = (if u \<in> mine then Some (k, r_x (born u), r_y (born u), 0) else idx_view (h, i) u)) \<and>
    (\<forall>u. u \<notin> mine \<longrightarrow> tb_riders (w_db w') u = tb_riders (w_db w) u) \<and>
    (\<forall>u \<in> mine. (\<exists>cell. tb_riders (w_db w') u =
         Some \<lparr>rr_uid = u, rr_x = wrap32 (r_x (born u)), rr_y = wrap32 (r_y (born u)), rr_online = True, rr_cell_id = cell, rr_count = 0\<rparr>) \<or>
       isl r \<and> tb_riders (w_db w') u = tb_riders (w_db w) u)"
proof -
  define born where "born = (\<lambda>u. rider_at rng seed areaSize (u - 1))"
  define mine where "mine = {u. 1 \<le> u \<and> u \<le> n \<and> home rng seed (ix_layout i) u = k}"
  let ?rs = "riders_for_shard rng seed [0..n - 1] areaSize (ix_layout i) k"
  let ?h = "h @ ?rs" and ?ps = "[length h..<length h + length ?rs]"
  have st': "st' = replace_shard k ?ps (?h, i)"
    and W: "efor ?ps (\<lambda>p. auto_commit en (upsert_rider (row_of_rider (fst st' ! p)))) w = (r, w')"
    using assms(4) by (auto simp: matcher_start_hook_def Let_def split: prod.splits)
  have rs: "?rs = map born (filter (\<lambda>u. home rng seed (ix_layout i) u = k) [1..n])"
  proof -
    have "?rs = map (\<lambda>r. born (r_uid r)) ?rs" by (simp add: riders_for_shard_eq born_def)
    also have "\<dots> = map born (map r_uid ?rs)" by simp
    finally show ?thesis unfolding riders_uids .
  qed
  have fresh: "map (\<lambda>p. f (?h ! p)) ?ps = map f ?rs" for f :: "rider \<Rightarrow> 'a" by (rule nth_equalityI) auto
  have uids: "map (\<lambda>p. r_uid (?h ! p)) ?ps = filter (\<lambda>u. home rng seed (ix_layout i) u = k) [1..n]"
    unfolding fresh riders_uids ..
  have d: "distinct (map (\<lambda>p. r_uid (?h ! p)) ?ps)" unfolding uids by simp
  have len: "\<forall>p \<in> set ?ps. p < length ?h" by simp
  have mem: "(\<lambda>p. r_uid (?h ! p)) ` set ?ps = mine" using arg_cong [OF uids, of set] home_filter unfolding mine_def by simp
  have in_fleet: "u \<in> mine" if "ix_rider_shards i u = Some k" for u
    using assms(3) that by (auto simp: homed_def mine_def)
  have free: "\<forall>p \<in> set ?ps. ix_rider_shards i (r_uid (?h ! p)) \<in> {None, Some k}"
  proof
    fix p assume "p \<in> set ?ps"
    then have "r_uid (?h ! p) \<in> mine" using mem by blast
    then show "ix_rider_shards i (r_uid (?h ! p)) \<in> {None, Some k}"
      using assms(3) by (cases "ix_rider_shards i (r_uid (?h ! p))") (auto simp: homed_def mine_def)
  qed
  note R = replace_shard_ok [OF idx_grow(1) [OF assms(1)] assms(2) len d free, folded st']
  note H = replace_shard_heap [OF len d, of _ k i, folded st']
  have born: "r_uid (born u) = u" "r_count (born u) = 0" for u by (simp_all add: born_def)
  have pos: "?h ! p = born (r_uid (?h ! p))" if p: "p \<in> set ?ps" for p
  proof -
    have "?h ! p \<in> set ?rs" using p by (auto simp: nth_append)
    then show ?thesis unfolding rs using born by auto
  qed
  have "map (\<lambda>p. (r_uid (?h ! p), (k, r_x (?h ! p), r_y (?h ! p), r_count (?h ! p)))) ?ps =
      map (\<lambda>u. (u, (k, r_x (born u), r_y (born u), 0))) (filter (\<lambda>u. home rng seed (ix_layout i) u = k) [1..n])"
    using fresh [of "\<lambda>r. (r_uid r, (k, r_x r, r_y r, r_count r))"] unfolding rs by (simp add: born comp_def)
  then have view: "idx_view st' u = (if u \<in> mine then Some (k, r_x (born u), r_y (born u), 0) else idx_view (h, i) u)" for u
    using R(2) in_fleet [of u] home_filter [of rng seed "ix_layout i" k n]
    by (auto simp: idx_grow(2) [OF assms(1)] map_of_map_restrict map_add_def restrict_map_def mine_def)
  have "ix_layout (snd st') = ix_layout i" by (simp add: st' replace_shard_layout)
  then have homed: "homed rng seed n (snd st')"
    using assms(3) homed_view [OF assms(1), of rng seed n] view by (auto simp: homed_view [OF R(1)] mine_def split: if_splits)
  let ?f = "\<lambda>p. row_of_rider (fst st' ! p)"
  have row: "?f p = \<lparr>rr_uid = u, rr_x = wrap32 (r_x (born u)), rr_y = wrap32 (r_y (born u)), rr_online = True,
      rr_cell_id = r_cell_id (fst st' ! p), rr_count = 0\<rparr>" if "p \<in> set ?ps" "r_uid (?h ! p) = u" for p u
    using H [OF that(1)] pos [OF that(1)] that(2) born by (simp add: row_of_rider_def)
  have m: "map (\<lambda>p. rr_uid (?f p)) ?ps = map (\<lambda>p. r_uid (?h ! p)) ?ps" using row by (intro map_cong) simp_all
  have "distinct (map (\<lambda>p. rr_uid (?f p)) ?ps)" using d unfolding m .
  moreover have "(\<lambda>p. rr_uid (?f p)) ` set ?ps = mine" using arg_cong [OF m, of set] mem by (simp only: list.set_map)
  ultimately have "distinct (map (\<lambda>p. rr_uid (?f p)) ?ps)" "(\<lambda>p. rr_uid (?f p)) ` set ?ps = mine" .
  note U = efor_upserts [OF this(1) W, unfolded this(2)]
  have "(\<exists>cell. tb_riders (w_db w') u =
         Some \<lparr>rr_uid = u, rr_x = wrap32 (r_x (born u)), rr_y = wrap32 (r_y (born u)), rr_online = True, rr_cell_id = cell, rr_count = 0\<rparr>) \<or>
       isl r \<and> tb_riders (w_db w') u = tb_riders (w_db w) u" if u: "u \<in> mine" for u
  proof -
    obtain p where p: "p \<in> set ?ps" "r_uid (?h ! p) = u" using u unfolding mem [symmetric] by blast
    then have "rr_uid (?f p) = u" using row by simp
    then show ?thesis using U p(1) row [OF p] by metis
  qed
  then show ?thesis
    using R(1,3) homed view U unfolding Let_def born_def [symmetric] mine_def [symmetric] by blast
qed

text \<open>
  Property C28: the start hook of a shard loads the riders that live there, those of the fleet whose
  position falls into the shard, and no others. Whether or not the database writes go through, the
  index is consistent and active for the shard, holds these riders at their positions with no order,
  and the riders of the other shards are as they were. Of the database only the rows of these riders
  change; when the hook reports no error each is the rider's row, on line and with a count of 0,
  whatever the orders were that had been reserved on it.
\<close>

theorem start_hook_loads_shard:
  assumes "idx_wf (h, i)" "valid_shard i k" "homed rng seed n i"
    and "matcher_start_hook en rng seed n k (w, (h, i)) = (r, (w', st'))"
  shows "let born = (\<lambda>u. rider_at rng seed areaSize (u - 1)); mine = {u. 1 \<le> u \<and> u \<le> n \<and> home rng seed (ix_layout i) u = k} in
    idx_wf st' \<and> homed rng seed n (snd st') \<and> active_shard (snd st') k \<and>
    (\<forall>u. idx_view st' u = (if u \<in> mine then Some (k, r_x (born u), r_y (born u), 0) else idx_view (h, i) u)) \<and>
    (\<forall>u. u \<notin> mine \<longrightarrow> tb_riders (w_db w') u = tb_riders (w_db w) u) \<and>
    (\<forall>u \<in> mine. (\<exists>cell. tb_riders (w_db w') u =
         Some \<lparr>rr_uid = u, rr_x = wrap32 (r_x (born u)), rr_y = wrap32 (r_y (born u)), rr_online = True, rr_cell_id = cell, rr_count = 0\<rparr>) \<or>
       isl r \<and> tb_riders (w_db w') u = tb_riders (w_db w) u)"
  using assms by (rule start_hook_effect)

text \<open>The program starts with an empty fleet, and the stop hook takes exactly the shard's riders out again.\<close>

lemma matcher_index_ok: "cell \<le> 2 ^ 62 \<Longrightarrow> idx_wf (h, matcher_index cell) \<and> homed rng seed n (matcher_index cell)"
  using new_index_wf [of shardCount cell areaSize h loadWeight]
  by (auto simp: matcher_index_def shardCount_def areaSize_def homed_def new_index_def Let_def)

lemma stop_hook_ok:
  assumes "idx_wf st" "valid_shard (snd st) k" "homed rng seed n (snd st)" "matcher_stop_hook k (w, st) = (w', st')"
  shows "idx_wf st' \<and> homed rng seed n (snd st') \<and> \<not> active_shard (snd st') k \<and> w' = w \<and>
    (\<forall>u. idx_view st' u = (if \<exists>y. idx_view st u = Some (k, y) then None else idx_view st u))"
proof -
  obtain h i where st: "st = (h, i)" by fastforce
  have e: "st' = remove_shard k (h, i)" "w' = w" using assms(4) by (simp_all add: matcher_stop_hook_def st)
  note R = remove_shard_ok [OF assms(1,2) [unfolded st snd_conv], folded e(1)]
  have v: "idx_view st' u = (if \<exists>y. idx_view st u = Some (k, y) then None else idx_view st u)" for u
    using R(2) [of u] view_shard_of [OF assms(1), of u] by (auto simp: st split: if_splits)
  have l: "ix_layout (snd st') = ix_layout (snd st)" by (simp add: e remove_shard_def st)
  have "homed rng seed n (snd st')"
    using assms(3) unfolding homed_view [OF R(1)] homed_view [OF assms(1)] l v by (auto split: if_splits)
  then show ?thesis using R(1,3) v e(2) by simp
qed

lemma efor_upserts_calm: "\<not> isl (fst (efor ps (\<lambda>p. auto_commit (calm own) (upsert_rider (f p))) w))"
  by (induction ps arbitrary: w) (simp_all add: ebind_def auto_commit_def calm_def upsert_rider_def)

lemma start_hook_calm: "matcher_start_hook (calm own) rng seed n k (w, (h, i)) = (r, t) \<Longrightarrow> \<not> isl r"
proof -
  assume e: "matcher_start_hook (calm own) rng seed n k (w, (h, i)) = (r, t)"
  let ?rs = "riders_for_shard rng seed [0..n - 1] areaSize (ix_layout i) k"
  let ?ps = "[length h..<length h + length ?rs]"
  obtain x w' where x: "efor ?ps (\<lambda>p. auto_commit (calm own) (upsert_rider (row_of_rider (fst (replace_shard k ?ps (h @ ?rs, i)) ! p)))) w = (x, w')"
    by fastforce
  have "r = x" using e unfolding matcher_start_hook_def prod.case Let_def x by simp
  moreover have "\<not> isl x" using efor_upserts_calm x by (metis fst_conv)
  ultimately show ?thesis by simp
qed

text \<open>A fleet of four riders; a world in which rider 2 has a count of 3 when its shard starts.\<close>

definition ref_busy :: world where
  "ref_busy = \<lparr>w_db = empty_database\<lparr>tb_riders := [2 \<mapsto> \<lparr>rr_uid = 2, rr_x = 20, rr_y = 30, rr_online = True, rr_cell_id = 0, rr_count = 3\<rparr>]\<rparr>,
     w_tx = empty_database, w_tick = 0\<rparr>"

abbreviation tens :: "int \<Rightarrow> nat \<Rightarrow> int \<Rightarrow> int" where
  "tens \<equiv> \<lambda>seed m bound. 10 * int m"

theorem start_hook_loads_shard_witness:
  "case matcher_start_hook (calm \<lparr>ow_shard_id = 0, ow_node_id = 0, ow_epoch = 0\<rparr>) tens 1 4 0 (ref_busy, example_empty) of (r, (w', st')) \<Rightarrow>
     idx_view st' 2 = Some (0, 20, 30, 0) \<and> idx_view st' 3 = None \<and>
     map_option rr_count (tb_riders (w_db w') 2) = Some 0"
proof -
  let ?en = "calm \<lparr>ow_shard_id = 0, ow_node_id = 0, ow_epoch = 0\<rparr>"
  obtain r w' st' where e: "matcher_start_hook ?en tens 1 4 0 (ref_busy, example_empty) = (r, (w', st'))"
    by (metis prod.exhaust)
  let ?i = "new_index 4 10 100 1000"
  have l: "ix_layout (snd example_index) = ix_layout ?i"
    by (simp add: example_index_def example_empty_def replace_shard_layout)
  have home: "home tens 1 (ix_layout ?i) 2 = 0" "home tens 1 (ix_layout ?i) 3 = 2"
    using example_shard_id [of 20 30] example_shard_id [of 40 50] by (simp_all add: home_def rider_at_def l)
  have at2: "rider_at tens 1 areaSize 1 = \<lparr>r_uid = 2, r_x = 20, r_y = 30, r_online = False, r_cell_id = 0, r_count = 0\<rparr>"
    by (simp add: rider_at_def)
  have h: "homed tens 1 4 ?i" by (simp add: homed_def example_empty_ok(3))
  define mine where "mine = {u. 1 \<le> u \<and> u \<le> 4 \<and> home tens 1 (ix_layout ?i) u = 0}"
  have mine: "2 \<in> mine" "3 \<notin> mine" using home by (simp_all add: mine_def)
  note R = start_hook_loads_shard [OF example_empty_ok(1,2) h e [unfolded example_empty_def], unfolded Let_def, folded mine_def]
  have view: "idx_view st' u = (if u \<in> mine then Some (0, r_x (rider_at tens 1 areaSize (u - 1)), r_y (rider_at tens 1 areaSize (u - 1)), 0)
      else idx_view (example_riders, ?i) u)" for u using R by blast
  have "idx_view st' 2 = Some (0, 20, 30, 0)" "idx_view st' 3 = None"
    unfolding view using mine at2 by (simp_all add: example_empty_ok(4))
  moreover have "map_option rr_count (tb_riders (w_db w') 2) = Some 0"
  proof -
    have "\<not> isl r" using start_hook_calm e unfolding example_empty_def .
    moreover
    have "(\<exists>row. tb_riders (w_db w') 2 = Some row \<and> rr_count row = 0) \<or> isl r"
      using R mine(1) by (metis rider_row.select_convs(6))
    ultimately show ?thesis by auto
  qed
  ultimately show ?thesis unfolding e prod.case by blast
qed

end
