(* ===== verification/Commands.thy ===== *)
theory Commands
  imports Outbox GoText
begin

text \<open>
  What the command-line programs build before they start (\<open>cmd/*/main.go\<close>): the Kafka logs of the
  node and the producer, the targets of the outbox publisher, the identifier of a controller. What the
  programs then do, with what they print and their exit codes, is in \<open>Mains\<close>.
\<close>

section \<open>Event logs\<close>

definition build_node_event_log :: "string \<Rightarrow> string \<Rightarrow> go_error + kafka_config" where
  "build_node_event_log brokers_text topic =
     new_kafka_event_log \<lparr>kc_brokers = parse_broker_list brokers_text, kc_topic = trim_space topic, kc_max_bytes = 0, kc_max_wait = 0\<rparr>"

definition build_producer_event_log :: "string \<Rightarrow> string \<Rightarrow> go_error + kafka_config" where
  "build_producer_event_log brokers_text topic =
     new_kafka_event_log \<lparr>kc_brokers = parse_broker_list brokers_text, kc_topic = trim_space topic, kc_max_bytes = 0, kc_max_wait = 0\<rparr>"

section \<open>The targets of the publisher\<close>

text \<open>
  The loop over the physical topics, with the logs opened so far: the targets, or the error and the
  logs that are closed. \<open>order\<close> is the order in which Go ranges over the map.
\<close>

fun open_targets ::
  "string list \<Rightarrow> (string \<times> string) list \<Rightarrow> kafka_config list \<Rightarrow> (string \<rightharpoonup> kafka_config) \<Rightarrow>
   (go_error \<times> kafka_config list) + (string \<rightharpoonup> kafka_config) \<times> kafka_config list" where
  "open_targets brokers [] logs targets = Inr (targets, logs)"
| "open_targets brokers ((logical, physical) # ts) logs targets =
     (case new_kafka_event_log \<lparr>kc_brokers = brokers, kc_topic = physical, kc_max_bytes = 0, kc_max_wait = 0\<rparr> of
        Inl err \<Rightarrow> Inl (err, logs)
      | Inr l \<Rightarrow> open_targets brokers ts (logs @ [l]) (targets(logical \<mapsto> l)))"

definition new_kafka_targets ::
  "((string \<times> string) list \<Rightarrow> (string \<times> string) list) \<Rightarrow> string list \<Rightarrow> string \<Rightarrow> string \<Rightarrow>
   (go_error \<times> kafka_config list) + (string \<rightharpoonup> kafka_config) \<times> kafka_config list" where
  "new_kafka_targets order brokers order_topic match_topic =
     open_targets brokers (order [(''order-events'', order_topic), (''match-requests'', match_topic)]) [] Map.empty"

section \<open>The controller's identifier\<close>

text \<open>\<open>host\<close> is the result of \<open>os.Hostname\<close>.\<close>

definition default_controller_id :: "go_error + string \<Rightarrow> int \<Rightarrow> string" where
  "default_controller_id host pid =
     (case host of
        Inl err \<Rightarrow> ''controller''
      | Inr name \<Rightarrow> if trim_space name = [] then ''controller'' else name) @ ''-'' @ itoa pid"

section \<open>What comes of them\<close>

definition default_log :: "string list \<Rightarrow> string \<Rightarrow> kafka_config" where
  "default_log bs t = \<lparr>kc_brokers = bs, kc_topic = t, kc_max_bytes = 10000000, kc_max_wait = 1000000000\<rparr>"

lemma default_log_fields [simp]: "kc_brokers (default_log bs t) = bs" "kc_topic (default_log bs t) = t"
  by (simp_all add: default_log_def)

lemma log_config_ok:
  "new_kafka_event_log \<lparr>kc_brokers = bs, kc_topic = t, kc_max_bytes = 0, kc_max_wait = 0\<rparr> =
     (if bs = [] then Inl (ErrMsg ''kafka brokers must not be empty'' [])
      else if t = [] then Inl (ErrMsg ''kafka topic must not be empty'' [])
      else Inr (default_log bs t))"
  by (simp add: new_kafka_event_log_def default_log_def)

text \<open>The node and the producer read the same flags the same way.\<close>

lemma build_logs_agree: "build_producer_event_log = build_node_event_log"
  by (simp add: fun_eq_iff build_node_event_log_def build_producer_event_log_def)

lemma build_node_event_log_ok:
  assumes "build_node_event_log bs t = Inr c"
  shows "kc_brokers c \<noteq> [] \<and> (\<forall>b \<in> set (kc_brokers c). b \<noteq> [] \<and> trim_space b = b \<and> CHR '','' \<notin> set b) \<and>
     kc_topic c \<noteq> [] \<and> trim_space (kc_topic c) = kc_topic c"
proof -
  have c: "c = default_log (parse_broker_list bs) (trim_space t)" "parse_broker_list bs \<noteq> []" "trim_space t \<noteq> []"
    using assms by (auto simp only: build_node_event_log_def log_config_ok sum.simps split: if_splits)
  have "b \<noteq> [] \<and> trim_space b = b \<and> CHR '','' \<notin> set b" if "b \<in> set (parse_broker_list bs)" for b
    using address_list [of b "CHR '',''" bs] that unfolding parse_broker_list_def by blast
  then show ?thesis using c by simp
qed

lemma open_targets_ok:
  "brokers \<noteq> [] \<Longrightarrow> distinct (map fst ts) \<Longrightarrow> \<forall>t \<in> snd ` set ts. t \<noteq> [] \<Longrightarrow>
     \<exists>logs'. open_targets brokers ts logs m = Inr (m ++ map_of (map (\<lambda>(l, t). (l, default_log brokers t)) ts), logs @ logs') \<and>
       length logs' = length ts"
proof (induction ts arbitrary: logs m)
  case (Cons a ts)
  obtain l t where a: "a = (l, t)" by fastforce
  have t: "t \<noteq> []" using Cons.prems(3) a by simp
  let ?M = "map_of (map (\<lambda>(l, t). (l, default_log brokers t)) ts)"
  have "?M l = None" using Cons.prems(2) a by (force simp: map_of_eq_None_iff)
  then have M: "m(l \<mapsto> default_log brokers t) ++ ?M = m ++ map_of (map (\<lambda>(l, t). (l, default_log brokers t)) (a # ts))"
    by (auto simp: a map_add_def fun_eq_iff split: option.split)
  obtain logs' where ih: "open_targets brokers ts (logs @ [default_log brokers t]) (m(l \<mapsto> default_log brokers t)) =
      Inr (m(l \<mapsto> default_log brokers t) ++ ?M, (logs @ [default_log brokers t]) @ logs')" "length logs' = length ts"
    using Cons.IH [OF Cons.prems(1), of "logs @ [default_log brokers t]" "m(l \<mapsto> default_log brokers t)"] Cons.prems(2,3)
    unfolding a by (simp del: fun_upd_apply append_assoc) blast
  have "open_targets brokers (a # ts) logs m = Inr (m(l \<mapsto> default_log brokers t) ++ ?M, (logs @ [default_log brokers t]) @ logs')"
    unfolding a open_targets.simps log_config_ok using Cons.prems(1) t ih(1) by (simp del: fun_upd_apply append_assoc)
  then show ?case unfolding M using ih(2) by (intro exI [of _ "default_log brokers t # logs'"]) (simp del: list.map map_of.simps)
qed simp

text \<open>
  Whatever the order of the map, the publisher gets a target for each of the two topics, on the
  physical topic configured for it, when both names are not empty. The broker list that
  \<open>strings.Split\<close> gives never is empty, not even for an empty flag.
\<close>

lemma new_kafka_targets_ok:
  assumes "set (order [(''order-events'', o1), (''match-requests'', m1)]) = {(''order-events'', o1), (''match-requests'', m1)}"
    and "distinct (order [(''order-events'', o1), (''match-requests'', m1)])" "o1 \<noteq> []" "m1 \<noteq> []"
  shows "\<exists>targets logs. new_kafka_targets order (split_char (CHR '','') text) o1 m1 = Inr (targets, logs) \<and> length logs = 2 \<and>
     dom targets = {''order-events'', ''match-requests''} \<and>
     map_option kc_topic (targets ''order-events'') = Some o1 \<and> map_option kc_topic (targets ''match-requests'') = Some m1"
proof -
  define ts where "ts = order [(''order-events'', o1), (''match-requests'', m1)]"
  note a = assms(1,2) [folded ts_def]
  define bs where "bs = split_char (CHR '','') text"
  have bs: "bs \<noteq> []" by (simp add: bs_def)
  have "length ts = card (set ts)" using a(2) by (simp add: distinct_card)
  then have len: "length ts = 2" unfolding a(1) by simp
  have d: "distinct (map fst ts)" using a by (auto simp: distinct_map inj_on_def)
  let ?m = "map_of (map (\<lambda>(l, t). (l, default_log bs t)) ts)"
  have "map fst (map (\<lambda>(l, t). (l, default_log bs t)) ts) = map fst ts" by (induction ts) auto
  then have dm: "distinct (map fst (map (\<lambda>(l, t). (l, default_log bs t)) ts))" by (simp only: d)
  have s: "set (map (\<lambda>(l, t). (l, default_log bs t)) ts) = {(''order-events'', default_log bs o1), (''match-requests'', default_log bs m1)}"
    unfolding set_map a(1) by simp
  have m: "?m ''order-events'' = Some (default_log bs o1)" "?m ''match-requests'' = Some (default_log bs m1)"
    unfolding map_of_eq_Some_iff [OF dm] s by simp_all
  have dom: "dom ?m = {''order-events'', ''match-requests''}" unfolding dom_map_of_conv_image_fst s by simp
  have ne: "\<forall>t \<in> snd ` set ts. t \<noteq> []" unfolding a(1) using assms(3,4) by simp
  obtain logs where "open_targets bs ts [] Map.empty = Inr (?m, logs)" "length logs = 2"
    using open_targets_ok [OF bs d ne, of "[]" Map.empty] len by auto
  then show ?thesis using m dom unfolding new_kafka_targets_def ts_def [symmetric] bs_def [symmetric] by auto
qed

end
