(* ===== verification/Pipeline.thy ===== *)
theory Pipeline
  imports Outbox Producer MatcherMain
begin

text \<open>
  The pipeline of an order through the programs: the producers append the clients' events to the order
  topic; the nodes apply them and put match requests into the outbox; the publisher appends the rows
  to the topics; the matcher workers answer the requests through the outbox again. The programs share
  the database, the index of a worker and the logs, and take turns in any order, each step one of the
  operations of the other theories with its faults and retries. The invariant traces every message
  back to the event that caused it.
\<close>

section \<open>Logs to which nothing else is appended\<close>

text \<open>An appender of one topic that adds no other event than the ones it was given, and to no other topic.\<close>

locale exact_appender =
  fixes ap :: "'l appender" and t :: string and entries :: "'l \<Rightarrow> string \<Rightarrow> event set"
  assumes append_exact: "ap_append ap e l = (r, l') \<Longrightarrow>
      entries l u \<subseteq> entries l' u \<and> entries l' u \<subseteq> entries l u \<union> (if u = t then {e} else {}) \<and> ((\<exists>p. r = Inr p) \<longrightarrow> e \<in> entries l' t)"
    and batch_exact: "ap_batch ap = Some b \<Longrightarrow> b es l = (rb, l') \<Longrightarrow>
      entries l u \<subseteq> entries l' u \<and> entries l' u \<subseteq> entries l u \<union> (if u = t then set es else {}) \<and>
      ((\<exists>ps. rb = Inr ps) \<longrightarrow> set es \<subseteq> entries l' t)"
begin

lemma efor_exact:
  "efor es (\<lambda>e. ebind (wrap_err msg (ap_append ap e)) (\<lambda>_. ret ())) l = (r, l') \<Longrightarrow>
   entries l u \<subseteq> entries l' u \<and> entries l' u \<subseteq> entries l u \<union> (if u = t then set es else {})"
proof (induction es arbitrary: l)
  case (Cons e es)
  obtain q l1 where q: "ap_append ap e l = (q, l1)" by fastforce
  note A = append_exact [OF q, of u]
  show ?case
  proof (cases q)
    case (Inl err)
    then have "l' = l1" using Cons.prems q by (auto simp: ebind_def wrap_err_def)
    then show ?thesis using A by (auto split: if_splits)
  next
    case (Inr p)
    then have "efor es (\<lambda>e. ebind (wrap_err msg (ap_append ap e)) (\<lambda>_. ret ())) l1 = (r, l')"
      using Cons.prems q by (auto simp: ebind_def wrap_err_def ret_def)
    from Cons.IH [OF this] A show ?thesis by (auto split: if_splits)
  qed
qed simp

lemma append_order_events_exact:
  "append_order_events ap es l = (r, l') \<Longrightarrow>
   entries l u \<subseteq> entries l' u \<and> entries l' u \<subseteq> entries l u \<union> (if u = t then set es else {})"
proof (cases "ap_batch ap")
  case None
  assume "append_order_events ap es l = (r, l')"
  then show ?thesis using efor_exact None by (simp add: append_order_events_def)
next
  case (Some b)
  assume e: "append_order_events ap es l = (r, l')"
  obtain q l1 where q: "b es l = (q, l1)" by fastforce
  then have "l' = l1" using e Some by (cases q) (auto simp: append_order_events_def ebind_def wrap_err_def ret_def)
  then show ?thesis using batch_exact [OF Some q, of u] by simp
qed

end

definition exact_targets :: "(string \<Rightarrow> 'l appender option) \<Rightarrow> ('l \<Rightarrow> string \<Rightarrow> event set) \<Rightarrow> bool" where
  "exact_targets targets entries \<longleftrightarrow> (\<forall>t ap. targets t = Some ap \<longrightarrow> exact_appender ap t entries)"

lemma exact_targets_ok: "exact_targets targets entries \<Longrightarrow> targets_ok targets entries"
  unfolding targets_ok_def
proof (intro allI impI conjI, goal_cases)
  case (1 t ap)
  then have E: "exact_appender ap t entries" by (simp add: exact_targets_def)
  show ?case
    by unfold_locales (use exact_appender.append_exact [OF E, where u = t] exact_appender.batch_exact [OF E, where u = t] in auto)
next
  case (2 t ap e l u)
  then show ?case unfolding exact_targets_def by (metis exact_appender.append_exact prod.collapse)
next
  case (3 t ap b es l u)
  then show ?case unfolding exact_targets_def by (metis exact_appender.batch_exact prod.collapse)
qed

section \<open>Where the rows of the outbox come from\<close>

text \<open>The row is the match request that the order event \<open>ev\<close> asks for.\<close>

definition asked_by :: "codec \<Rightarrow> event \<Rightarrow> outbox_row \<Rightarrow> bool" where
  "asked_by cd ev b \<longleftrightarrow> queues_match_request (ev_type ev) \<and>
     (\<exists>i attempt x y payload. match_request_identity cd ev = Inr (i, attempt) \<and>
        cd_enc_match_requested cd \<lparr>mr_order_id = i, mr_x = x, mr_y = y, mr_attempt = attempt\<rparr> = Inr payload \<and>
        same_content b (outbox_of_event (match_request_event ev i payload) TopicMatchRequests))"

text \<open>The row is an answer, of type \<open>t\<close>, to the match request \<open>ev\<close>: about the order that was asked for.\<close>

definition answers :: "codec \<Rightarrow> event \<Rightarrow> string \<Rightarrow> outbox_row \<Rightarrow> bool" where
  "answers cd ev t b \<longleftrightarrow>
     (\<exists>req payload now. cd_match_requested cd (ev_payload ev) = Inr req \<and>
        (t = EventOrderMatched \<and> (\<exists>u score. cd_enc_matched cd \<lparr>om_order_id = mr_order_id req, om_rider_id = u, om_score = score\<rparr> = Inr payload) \<or>
         t = EventOrderMissed \<and> cd_enc_missed cd \<lparr>oms_order_id = mr_order_id req, oms_reason = ''no_available_rider''\<rparr> = Inr payload) \<and>
        same_content b (outbox_of_event (result_event ev t payload now) TopicOrderEvents))"

text \<open>
  The tables against the events \<open>E\<close> of the order topic and \<open>M\<close> of the match topic: every handled event
  is one of \<open>E\<close>, every row of the outbox was asked for by a handled event or answers a handled
  request, and no request is answered twice.
\<close>

definition tables_traced :: "codec \<Rightarrow> event set \<Rightarrow> event set \<Rightarrow> database \<Rightarrow> bool" where
  "tables_traced cd E M db \<longleftrightarrow> outbox_wf db \<and>
     (\<forall>b \<in> set (tb_outbox db).
        (\<exists>e \<in> E. asked_by cd e b \<and> tb_inbox db (ConsumerOrderWorker, ev_id e) \<noteq> None) \<or>
        (\<exists>m \<in> M. \<exists>t. answers cd m t b \<and> tb_inbox db (ConsumerMatcherWorker, ev_id m) \<noteq> None)) \<and>
     (\<forall>i. i @ ''-'' @ EventOrderMatched \<in> ob_event_id ` set (tb_outbox db) \<longrightarrow>
          i @ ''-'' @ EventOrderMissed \<notin> ob_event_id ` set (tb_outbox db))"

definition event_traced :: "database \<Rightarrow> string \<Rightarrow> event \<Rightarrow> bool" where
  "event_traced db t e \<longleftrightarrow> (\<exists>b \<in> set (tb_outbox db). ob_topic b = t \<and> outbox_to_event b = e)"

text \<open>The events that clients may append to the order topic.\<close>

definition client_event :: "event \<Rightarrow> bool" where
  "client_event e \<longleftrightarrow> ev_type e \<in> {EventOrderCreated, EventOrderCancelled, EventOrderRetryRequest}"

text \<open>A record carries its partition as the shard of its event.\<close>

definition as_read :: "event set \<Rightarrow> event set" where
  "as_read S = {e\<lparr>ev_shard_id := k\<rparr> | e k. e \<in> S}"

lemma as_read_mono: "S \<subseteq> S' \<Longrightarrow> as_read S \<subseteq> as_read S'"
  unfolding as_read_def by blast

definition logs_traced :: "event set \<Rightarrow> event set \<Rightarrow> database \<Rightarrow> bool" where
  "logs_traced E M db \<longleftrightarrow> (\<forall>e \<in> E. client_event e \<or> event_traced db TopicOrderEvents e) \<and>
     (\<forall>m \<in> M. event_traced db TopicMatchRequests m)"

section \<open>The tables stay traced\<close>

lemma asked_by_id: "asked_by cd e b \<Longrightarrow> ob_event_id b = ev_id e @ ''-match-requested'' \<and> ob_topic b = TopicMatchRequests"
  by (auto simp: asked_by_def same_content_def outbox_to_event_def outbox_of_event_def match_request_event_def)

lemma answers_id: "answers cd m t b \<Longrightarrow> ob_event_id b = ev_id m @ ''-'' @ t \<and> ob_topic b = TopicOrderEvents \<and>
    t \<in> {EventOrderMatched, EventOrderMissed}"
  by (auto simp: answers_def same_content_def outbox_to_event_def outbox_of_event_def result_event_def)

lemma topics_neq: "TopicMatchRequests \<noteq> TopicOrderEvents" "TopicOrderEvents \<noteq> TopicMatchRequests"
  by (simp_all add: TopicMatchRequests_def TopicOrderEvents_def)

text \<open>The endings of the identifiers tell the three kinds of messages apart.\<close>

lemma id_kinds:
  "i @ ''-'' @ EventOrderMatched \<noteq> j @ ''-'' @ EventOrderMissed"
  "i @ ''-match-requested'' \<noteq> j @ ''-'' @ EventOrderMatched"
  "i @ ''-match-requested'' \<noteq> j @ ''-'' @ EventOrderMissed"
proof -
  have r: "xs = ys \<Longrightarrow> rev xs = rev ys" for xs ys :: string by simp
  show "i @ ''-'' @ EventOrderMatched \<noteq> j @ ''-'' @ EventOrderMissed"
    "i @ ''-match-requested'' \<noteq> j @ ''-'' @ EventOrderMatched"
    "i @ ''-match-requested'' \<noteq> j @ ''-'' @ EventOrderMissed"
    by (auto simp: EventOrderMatched_def EventOrderMissed_def dest: r)
qed

lemmas ids_apart = id_kinds id_kinds [THEN not_sym]

lemma same_content_iff: "same_content a b \<Longrightarrow> same_content a c \<longleftrightarrow> same_content b c"
  by (auto simp: same_content_def)

lemma traced_content:
  assumes "same_content a b"
  shows "asked_by cd e a \<longleftrightarrow> asked_by cd e b" "answers cd m t a \<longleftrightarrow> answers cd m t b"
  unfolding asked_by_def answers_def same_content_iff [OF assms] by (rule refl)+

text \<open>Steps that keep the inbox and the contents of the rows.\<close>

definition rows_kept :: "database \<Rightarrow> database \<Rightarrow> bool" where
  "rows_kept db db' \<longleftrightarrow> tb_inbox db' = tb_inbox db \<and> list_all2 same_content (tb_outbox db) (tb_outbox db')"

lemma rows_kept_refl: "rows_kept db db"
  by (simp add: rows_kept_def list_all2_refl same_content_refl)

lemma rows_kept_trans: "rows_kept a b \<Longrightarrow> rows_kept b c \<Longrightarrow> rows_kept a c"
  unfolding rows_kept_def using list_all2_trans [of same_content same_content same_content] same_content_trans by metis

lemma rows_kept_row: "rows_kept db db' \<Longrightarrow> b \<in> set (tb_outbox db') \<Longrightarrow> \<exists>a \<in> set (tb_outbox db). same_content a b"
  unfolding rows_kept_def list_all2_conv_all_nth by (metis in_set_conv_nth)

lemma rows_kept_row2: "rows_kept db db' \<Longrightarrow> a \<in> set (tb_outbox db) \<Longrightarrow> \<exists>b \<in> set (tb_outbox db'). same_content a b"
  unfolding rows_kept_def list_all2_conv_all_nth by (metis in_set_conv_nth)

lemma rows_kept_ids: "rows_kept db db' \<Longrightarrow> map ob_event_id (tb_outbox db') = map ob_event_id (tb_outbox db)"
  unfolding rows_kept_def by (auto simp: list_all2_conv_all_nth same_content_id intro!: nth_equalityI)

lemma tables_traced_kept:
  assumes "tables_traced cd E M db" "rows_kept db db'"
  shows "tables_traced cd E M db'"
proof -
  note k = rows_kept_ids [OF assms(2)]
  have i: "ob_event_id ` set (tb_outbox db') = ob_event_id ` set (tb_outbox db)" by (metis k set_map)
  have in_eq: "tb_inbox db' = tb_inbox db" using assms(2) by (simp add: rows_kept_def)
  have "(\<exists>e \<in> E. asked_by cd e b \<and> tb_inbox db' (ConsumerOrderWorker, ev_id e) \<noteq> None) \<or>
        (\<exists>m \<in> M. \<exists>t. answers cd m t b \<and> tb_inbox db' (ConsumerMatcherWorker, ev_id m) \<noteq> None)"
    if b: "b \<in> set (tb_outbox db')" for b
  proof -
    obtain a where a: "a \<in> set (tb_outbox db)" "same_content a b" using rows_kept_row [OF assms(2) b] by blast
    show ?thesis using assms(1) a(1) unfolding tables_traced_def in_eq traced_content [OF a(2), symmetric] by blast
  qed
  then show ?thesis using assms(1) unfolding tables_traced_def i outbox_wf_def k by blast
qed

lemma tables_traced_mono: "tables_traced cd E M db \<Longrightarrow> E \<subseteq> O' \<Longrightarrow> M \<subseteq> M' \<Longrightarrow> tables_traced cd O' M' db"
  unfolding tables_traced_def by blast

text \<open>A new key in the inbox.\<close>

lemma tables_traced_inbox:
  assumes "tables_traced cd E M db" "tb_outbox db' = tb_outbox db" "\<And>k. tb_inbox db k \<noteq> None \<Longrightarrow> tb_inbox db' k \<noteq> None"
  shows "tables_traced cd E M db'"
  using assms(1,3) unfolding tables_traced_def outbox_wf_def assms(2) by blast

text \<open>A new row.\<close>

lemma tables_traced_row:
  assumes T: "tables_traced cd E M db"
    and new: "(\<exists>e \<in> E. asked_by cd e b \<and> tb_inbox db (ConsumerOrderWorker, ev_id e) \<noteq> None) \<or>
      (\<exists>m \<in> M. \<exists>t. answers cd m t b \<and> tb_inbox db (ConsumerMatcherWorker, ev_id m) \<noteq> None \<and>
         (\<forall>t' \<in> {EventOrderMatched, EventOrderMissed}. ev_id m @ ''-'' @ t' \<notin> ob_event_id ` set (tb_outbox db)))"
  shows "tables_traced cd E M (snd (create_outbox_event b db))"
proof (cases "ob_event_id b \<in> ob_event_id ` set (tb_outbox db)")
  case True
  then show ?thesis using T by (simp add: create_outbox_event_def)
next
  case False
  let ?b = "b\<lparr>ob_published_at := None, ob_claimed_by := [], ob_claimed_until := 0, ob_attempts := 0, ob_last_error := []\<rparr>"
  let ?db = "snd (create_outbox_event b db)"
  have c: "same_content b ?b" by (simp add: same_content_def outbox_to_event_def)
  have rows: "tb_outbox ?db = tb_outbox db @ [?b]" and inb: "tb_inbox ?db = tb_inbox db" using False by (auto simp: create_outbox_event_def)
  have kind: "t' \<in> {EventOrderMatched, EventOrderMissed} \<Longrightarrow> i @ ''-'' @ t' \<notin> ob_event_id ` set (tb_outbox db)"
    if i: "ob_event_id b = i @ ''-'' @ t" "t \<in> {EventOrderMatched, EventOrderMissed}" for i t t'
  proof -
    assume t': "t' \<in> {EventOrderMatched, EventOrderMissed}"
    have "\<not> asked_by cd e b" for e using asked_by_id [of cd e b] i ids_apart by auto
    then obtain m u where m: "answers cd m u b" "\<forall>t' \<in> {EventOrderMatched, EventOrderMissed}. ev_id m @ ''-'' @ t' \<notin> ob_event_id ` set (tb_outbox db)"
      using new by blast
    have "u = t" using answers_id [OF m(1)] i ids_apart by auto
    then have "ev_id m = i" using answers_id [OF m(1)] i(1) by simp
    then show ?thesis using m(2) t' by blast
  qed
  have wf: "outbox_wf ?db" using T False unfolding tables_traced_def outbox_wf_def rows by simp
  have rows_ok: "(\<exists>e \<in> E. asked_by cd e a \<and> tb_inbox db (ConsumerOrderWorker, ev_id e) \<noteq> None) \<or>
        (\<exists>m \<in> M. \<exists>t. answers cd m t a \<and> tb_inbox db (ConsumerMatcherWorker, ev_id m) \<noteq> None)"
    if a: "a \<in> set (tb_outbox ?db)" for a
  proof (cases "a = ?b")
    case True
    show ?thesis using new unfolding True traced_content [OF c, symmetric] by blast
  next
    case False
    then have "a \<in> set (tb_outbox db)" using a unfolding rows by simp
    then show ?thesis using T unfolding tables_traced_def by blast
  qed
  have one: "i @ ''-'' @ EventOrderMissed \<notin> ob_event_id ` set (tb_outbox ?db)"
    if m: "i @ ''-'' @ EventOrderMatched \<in> ob_event_id ` set (tb_outbox ?db)" for i
  proof
    assume n: "i @ ''-'' @ EventOrderMissed \<in> ob_event_id ` set (tb_outbox ?db)"
    have old: "\<not> (i @ ''-'' @ EventOrderMatched \<in> ob_event_id ` set (tb_outbox db) \<and> i @ ''-'' @ EventOrderMissed \<in> ob_event_id ` set (tb_outbox db))"
      using T unfolding tables_traced_def by blast
    have ids: "ob_event_id ` set (tb_outbox ?db) = insert (ob_event_id b) (ob_event_id ` set (tb_outbox db))" unfolding rows by simp
    consider "ob_event_id b = i @ ''-'' @ EventOrderMatched" | "ob_event_id b = i @ ''-'' @ EventOrderMissed"
      using m n old unfolding ids insert_iff by argo
    then show False
    proof cases
      case 1
      then show False using n kind [OF 1, of EventOrderMissed] id_kinds(1) [of i i] unfolding ids by simp
    next
      case 2
      then show False using m kind [OF 2, of EventOrderMatched] id_kinds(1) [of i i] unfolding ids by simp
    qed
  qed
  show ?thesis unfolding tables_traced_def inb using wf rows_ok one by simp
qed

text \<open>A request that the inbox of the matchers does not hold has no answer yet.\<close>

lemma unanswered:
  assumes T: "tables_traced cd E M db" and k: "tb_inbox db (ConsumerMatcherWorker, j) = None" and t: "t \<in> {EventOrderMatched, EventOrderMissed}"
  shows "j @ ''-'' @ t \<notin> ob_event_id ` set (tb_outbox db)"
proof
  assume "j @ ''-'' @ t \<in> ob_event_id ` set (tb_outbox db)"
  then obtain b where b: "b \<in> set (tb_outbox db)" "ob_event_id b = j @ ''-'' @ t" by auto
  consider (asked) e where "asked_by cd e b"
    | (answer) m t' where "answers cd m t' b" "tb_inbox db (ConsumerMatcherWorker, ev_id m) \<noteq> None"
    using T b(1) unfolding tables_traced_def by blast
  then show False
  proof cases
    case asked
    then show False using asked_by_id [OF asked] b(2) t ids_apart by auto
  next
    case answer
    have "t' = t" using answers_id [OF answer(1)] b(2) t ids_apart by auto
    then have "ev_id m = j" using answers_id [OF answer(1)] b(2) by simp
    then show False using answer(2) k by simp
  qed
qed

lemma traced_record:
  assumes T: "tables_traced cd E M db" and E: "lr_event r \<in> E" and e: "record_db cd r db = Inr db'"
  shows "tables_traced cd E M db'"
proof (cases "tb_inbox db (ConsumerOrderWorker, ev_id (lr_event r)) = None")
  case False
  then show ?thesis using e T by (simp add: record_db_def)
next
  case True
  let ?ev = "lr_event r"
  let ?db0 = "snd (record_inbox_event ConsumerOrderWorker (ev_id ?ev) (inbox_of_record r) db)"
  obtain db1 where 1: "event_db cd ?ev ?db0 = Inr db1" using e True by (auto simp: record_db_def split: sum.splits)
  have f: "tb_inbox db1 = tb_inbox ?db0" "tb_outbox db1 = tb_outbox ?db0" using event_db_frame [OF 1] by simp_all
  have seen: "tb_inbox db1 (ConsumerOrderWorker, ev_id ?ev) \<noteq> None" unfolding f(1) using True by (simp add: record_inbox_event_def)
  have T1: "tables_traced cd E M db1"
    by (rule tables_traced_inbox [OF T]) (auto simp: f record_inbox_event_def)
  show ?thesis
  proof (cases "queues_match_request (ev_type ?ev)")
    case False
    then show ?thesis using e True 1 T1 by (simp add: record_db_def)
  next
    case q: True
    then have "queue_db cd ?ev db1 = Inr db'" using e True 1 by (simp add: record_db_def)
    then obtain i attempt x payload where Q: "match_request_identity cd ?ev = Inr (i, attempt)"
      "cd_enc_match_requested cd \<lparr>mr_order_id = i, mr_x = os_x x, mr_y = os_y x, mr_attempt = attempt\<rparr> = Inr payload"
      "db' = snd (create_outbox_event (outbox_of_event (match_request_event ?ev i payload) TopicMatchRequests)
         (put_order (x\<lparr>os_status := StatusMatchPending\<rparr>) db1))"
      by (auto simp: queue_db_def split: sum.splits option.splits prod.splits)
    have a: "asked_by cd ?ev (outbox_of_event (match_request_event ?ev i payload) TopicMatchRequests)"
      using q Q(1,2) same_content_refl unfolding asked_by_def by blast
    have T2: "tables_traced cd E M (put_order (x\<lparr>os_status := StatusMatchPending\<rparr>) db1)"
      by (rule tables_traced_inbox [OF T1]) (simp_all add: put_order_def)
    show ?thesis unfolding Q(3)
      by (rule tables_traced_row [OF T2]) (use a E seen in \<open>auto simp: put_order_def\<close>)
  qed
qed

lemma traced_records:
  "tables_traced cd E M db \<Longrightarrow> \<forall>r \<in> set rs. lr_event r \<in> E \<Longrightarrow> records_db cd rs db = Inr db' \<Longrightarrow> tables_traced cd E M db'"
proof (induction rs arbitrary: db)
  case (Cons r rs)
  then obtain db1 where 1: "record_db cd r db = Inr db1" "records_db cd rs db1 = Inr db'" by (auto split: sum.splits)
  show ?case by (rule Cons.IH [OF traced_record [OF Cons.prems(1) _ 1(1)] _ 1(2)]) (use Cons.prems(2) in simp_all)
qed simp

lemma traced_batch:
  assumes "tables_traced cd E M db" "\<forall>r \<in> set rs. lr_event r \<in> E" "batch_db cd node rs own db = Inr db'"
  shows "tables_traced cd E M db'"
proof -
  obtain db1 where 1: "records_db cd rs db = Inr db1" "db' = snd (batch_checkpoint node rs own db1)"
    using assms(3) by (auto simp: batch_db_def split: sum.splits)
  show ?thesis unfolding 1(2)
    by (rule tables_traced_inbox [OF traced_records [OF assms(1,2) 1(1)]]) (simp_all add: checkpoint_frame)
qed

lemma traced_answer:
  assumes T: "tables_traced cd E M db" and m: "m \<in> M" and k: "tb_inbox db (ConsumerMatcherWorker, ev_id m) = None"
    and req: "cd_match_requested cd (ev_payload m) = Inr req"
    and e: "match_db cd cfg m req cands now (snd (record_inbox_event ConsumerMatcherWorker (ev_id m) row db)) = Inr (x, db')"
  shows "tables_traced cd E M db'"
proof -
  let ?db1 = "snd (record_inbox_event ConsumerMatcherWorker (ev_id m) row db)"
  have T1: "tables_traced cd E M ?db1" by (rule tables_traced_inbox [OF T]) (auto simp: record_inbox_event_def)
  have seen: "tb_inbox ?db1 (ConsumerMatcherWorker, ev_id m) \<noteq> None" using k by (simp add: record_inbox_event_def)
  have fresh: "\<forall>t' \<in> {EventOrderMatched, EventOrderMissed}. ev_id m @ ''-'' @ t' \<notin> ob_event_id ` set (tb_outbox ?db1)"
    using unanswered [OF T k] by simp
  obtain t payload db2 where A: "db' = add_outbox (outbox_of_event (result_event m t payload now) TopicOrderEvents) db2"
    "tb_inbox db2 = tb_inbox ?db1" "tb_outbox db2 = tb_outbox ?db1"
    "answers cd m t (outbox_of_event (result_event m t payload now) TopicOrderEvents)"
  proof (cases "filter (can_take ?db1 (wc_max_rider_orders cfg)) cands")
    case Nil
    then have "missed_db cd m req now ?db1 = Inr (x, db')" using e by (simp add: match_db_def)
    then obtain o1 payload where P: "cd_enc_missed cd \<lparr>oms_order_id = mr_order_id req, oms_reason = ''no_available_rider''\<rparr> = Inr payload"
      "db' = add_outbox (outbox_of_event (result_event m EventOrderMissed payload now) TopicOrderEvents) (?db1\<lparr>tb_orders := (tb_orders ?db1)(mr_order_id req \<mapsto> o1)\<rparr>)"
      by (auto simp: missed_db_def Let_def split: option.splits sum.splits)
    show ?thesis by (rule that [OF P(2)]) (use P(1) req same_content_refl in \<open>auto simp: answers_def\<close>)
  next
    case (Cons c rest)
    then have "matched_db cd cfg m req c now ?db1 = Inr (x, db')" using e by (simp add: match_db_def)
    then obtain r o1 payload where P: "cd_enc_matched cd \<lparr>om_order_id = mr_order_id req, om_rider_id = rr_uid r, om_score = score_int32 (cd_score c)\<rparr> = Inr payload"
      "db' = add_outbox (outbox_of_event (result_event m EventOrderMatched payload now) TopicOrderEvents)
         (?db1\<lparr>tb_riders := (tb_riders ?db1)(cd_rider_id c \<mapsto> r\<lparr>rr_count := rr_count r + 1\<rparr>), tb_orders := (tb_orders ?db1)(mr_order_id req \<mapsto> o1)\<rparr>)"
      by (auto simp: matched_db_def Let_def split: option.splits sum.splits)
    show ?thesis by (rule that [OF P(2)]) (use P(1) req same_content_refl in \<open>auto simp: answers_def\<close>)
  qed
  have T2: "tables_traced cd E M db2" by (rule tables_traced_inbox [OF T1]) (simp_all add: A)
  show ?thesis unfolding A(1) add_outbox_def
    by (rule tables_traced_row [OF T2]) (use A m seen fresh in auto)
qed

lemma traced_request:
  assumes T: "tables_traced cd E M db" and m: "lr_event r \<in> M" and q: "cd_match_requested cd (ev_payload (lr_event r)) = Inr req"
    and e: "request_db cd cfg r own req cands ts db = Inr (x, db')"
  shows "tables_traced cd E M db'"
proof -
  obtain t1 t2 t3 where ts: "ts = (t1, t2, t3)" by (cases ts)
  let ?k = "(ConsumerMatcherWorker, ev_id (lr_event r))"
  let ?db1 = "snd (record_inbox_event ConsumerMatcherWorker (ev_id (lr_event r)) (worker_inbox_row r t1) db)"
  obtain db2 where 2: "db' = snd (worker_checkpoint cfg r own t3 db2)"
    "db2 = ?db1 \<or> tb_inbox db ?k = None \<and> match_db cd cfg (lr_event r) req cands t2 ?db1 = Inr (x, db2)"
    using e unfolding ts request_db_def by (auto simp: Let_def split: option.splits if_splits sum.splits)
  have "tables_traced cd E M ?db1" by (rule tables_traced_inbox [OF T]) (auto simp: record_inbox_event_def)
  then have "tables_traced cd E M db2" using 2(2) traced_answer [OF T m _ q] by blast
  then show ?thesis unfolding 2(1) by (rule tables_traced_inbox) simp_all
qed

section \<open>What the publisher appends\<close>

lemma outbox_step_kept: "outbox_step P db db' \<Longrightarrow> tb_inbox db' = tb_inbox db \<Longrightarrow> rows_kept db db'"
  unfolding outbox_step_def rows_kept_def by (auto elim: list_all2_mono)

lemma mark_failed_kept: "rows_kept (w_db w) (w_db (mark_failed en text cfg i err w))"
  by (rule outbox_step_kept [OF failed_step])
     (auto simp: mark_failed_def auto_commit_def mark_outbox_event_failed_def split: option.split)

lemma mark_failed_all_kept: "rows_kept (w_db w) (w_db (foldl (\<lambda>w r. mark_failed en text cfg (ob_event_id r) (f r) w) w rs))"
  by (induction rs arbitrary: w) (auto intro: rows_kept_refl rows_kept_trans [OF mark_failed_kept])

lemma mark_published_kept: "mark_published en cfg ids w = (r, w') \<Longrightarrow> rows_kept (w_db w) (w_db w')"
  by (rule outbox_step_kept [OF published_mark_step], assumption)
     (auto simp: mark_published_def ebind_def wrap_err_def time_now_def auto_commit_def mark_outbox_events_published_def Let_def
        split: option.splits prod.splits sum.splits if_splits)

lemma claim_kept:
  assumes "fair_orders en rng" "claim en nanos cfg w = (x, w')"
  shows "rows_kept (w_db w) (w_db w')" "x = Inr evs \<Longrightarrow> known (w_db w') evs"
proof -
  have "tb_inbox (w_db w') = tb_inbox (w_db w)"
  proof (cases "en_fault en (w_tick w)")
    case (Some e)
    then show ?thesis using assms(2) by (auto simp: claim_def ebind_def begin_tx_def wrap_err_def)
  next
    case None
    define w1 where "w1 = tick ((tick w)\<lparr>w_tx := w_db w\<rparr>)"
    define q where "q = claim_outbox_events (en_scan en (w_tick w1)) (en_back en (w_tick w1)) (pc_worker_id cfg)
      (lease_until (en_now en (Suc (w_tick w))) (nanos (Suc (w_tick w))) (pc_lease cfg)) (en_now en (Suc (w_tick w))) (pc_batch_size cfg)"
    have w1: "w_db w1 = w_db w" "w_tx w1 = w_db w" by (simp_all add: w1_def)
    have q: "tb_inbox (snd (q db)) = tb_inbox db" for db unfolding q_def by (simp add: claim_outbox_events_def Let_def)
    have run: "claim en nanos cfg w =
        ebind (wrap_err ''claim outbox events: %w'' (in_tx en q)) (\<lambda>evs. ebind (wrap_err ''commit outbox claim: %w'' (commit_tx en)) (\<lambda>_. ret evs)) w1"
      using None by (simp add: claim_def ebind_def begin_tx_def wrap_err_def time_now_def w1_def q_def)
    obtain y w2 where i: "in_tx en q w1 = (y, w2)" by fastforce
    have 2: "w_db w2 = w_db w" "tb_inbox (w_tx w2) = tb_inbox (w_db w)"
      using i w1 q [of "w_tx w1"] by (auto simp: in_tx_def split: option.splits prod.splits)
    show ?thesis using assms(2) run i 2
      by (cases y) (auto simp: ebind_def wrap_err_def commit_tx_def ret_def split: commit_result.splits)
  qed
  then show "rows_kept (w_db w) (w_db w')" by (rule outbox_step_kept [OF conjunct1 [OF claim_known [OF assms]]])
  show "x = Inr evs \<Longrightarrow> known (w_db w') evs" using claim_known [OF assms] by blast
qed

text \<open>New events are those of given rows, each in the log of its row's topic.\<close>

definition appends_rows :: "('l \<Rightarrow> string \<Rightarrow> event set) \<Rightarrow> outbox_row set \<Rightarrow> 'l \<Rightarrow> 'l \<Rightarrow> bool" where
  "appends_rows entries R l l' \<longleftrightarrow>
     (\<forall>u. entries l u \<subseteq> entries l' u \<and> entries l' u \<subseteq> entries l u \<union> {outbox_to_event r | r. r \<in> R \<and> ob_topic r = u})"

lemma appends_rows_refl [simp]: "appends_rows entries R l l"
  by (simp add: appends_rows_def)

lemma appends_rows_trans: "appends_rows entries R l l1 \<Longrightarrow> appends_rows entries R l1 l2 \<Longrightarrow> appends_rows entries R l l2"
  unfolding appends_rows_def by blast

lemma appends_rows_mono: "appends_rows entries R l l' \<Longrightarrow> R \<subseteq> R' \<Longrightarrow> appends_rows entries R' l l'"
  unfolding appends_rows_def by blast

lemma publish_each_rows:
  assumes X: "exact_appender ap t entries"
  shows "publish_each en text cfg ap rs (l, w) = (ids, l', w') \<Longrightarrow> \<forall>r \<in> set rs. ob_topic r = t \<Longrightarrow>
    appends_rows entries (set rs) l l' \<and> rows_kept (w_db w) (w_db w')"
proof (induction rs arbitrary: l w ids)
  case Nil then show ?case by (simp add: rows_kept_refl)
next
  case (Cons r rs)
  obtain x l1 where a: "ap_append ap (outbox_to_event r) l = (x, l1)" by fastforce
  have g: "appends_rows entries (set (r # rs)) l l1"
    using exact_appender.append_exact [OF X a] Cons.prems(2) unfolding appends_rows_def by (force split: if_splits)
  have "\<exists>w1 ids1. publish_each en text cfg ap rs (l1, w1) = (ids1, l', w') \<and> rows_kept (w_db w) (w_db w1)"
    using Cons.prems(1) a mark_failed_kept rows_kept_refl by (cases x) (auto split: prod.splits)
  then obtain w1 ids1 where 1: "publish_each en text cfg ap rs (l1, w1) = (ids1, l', w')" "rows_kept (w_db w) (w_db w1)" by blast
  have "appends_rows entries (set rs) l1 l' \<and> rows_kept (w_db w1) (w_db w')" by (rule Cons.IH [OF 1(1)]) (use Cons.prems(2) in simp)
  then show ?case using g 1(2) appends_rows_trans appends_rows_mono [of entries "set rs" l1 l' "set (r # rs)"] rows_kept_trans
    by (metis set_subset_Cons)
qed

lemma publish_topic_rows:
  assumes X: "exact_appender ap t entries" and e: "publish_topic en text cfg ap rs (l, w) = (ids, l', w')" and t: "\<forall>r \<in> set rs. ob_topic r = t"
  shows "appends_rows entries (set rs) l l' \<and> rows_kept (w_db w) (w_db w')"
proof (cases "ap_batch ap")
  case None
  then show ?thesis using publish_each_rows [OF X _ t] e by (simp add: publish_topic_def)
next
  case (Some b)
  obtain x l1 where a: "b (map outbox_to_event rs) l = (x, l1)" by fastforce
  have "appends_rows entries (set rs) l l1"
    using exact_appender.batch_exact [OF X Some a] t unfolding appends_rows_def by (force split: if_splits)
  then show ?thesis using e Some a mark_failed_all_kept rows_kept_refl by (cases x) (auto simp: publish_topic_def)
qed

lemma publish_groups_rows:
  assumes X: "exact_targets targets entries"
  shows "publish_groups en text cfg targets gs n (l, w) = (x, l', w') \<Longrightarrow> \<forall>(t, rs) \<in> set gs. \<forall>r \<in> set rs. ob_topic r = t \<Longrightarrow>
    appends_rows entries (\<Union>(t, rs) \<in> set gs. set rs) l l' \<and> rows_kept (w_db w) (w_db w')"
proof (induction gs arbitrary: n l w)
  case Nil then show ?case by (simp add: rows_kept_refl)
next
  case (Cons g gs)
  obtain t rs where g: "g = (t, rs)" by fastforce
  let ?R = "\<Union>(t, rs) \<in> set (g # gs). set rs"
  have sub: "set rs \<subseteq> ?R" "(\<Union>(t, rs) \<in> set gs. set rs) \<subseteq> ?R" using g by auto
  have t: "\<forall>r \<in> set rs. ob_topic r = t" and gs: "\<forall>(t, rs) \<in> set gs. \<forall>r \<in> set rs. ob_topic r = t" using Cons.prems(2) g by auto
  have rest: ?case if "publish_groups en text cfg targets gs n1 (l1, w1) = (x, l', w')" "appends_rows entries ?R l l1" "rows_kept (w_db w) (w_db w1)" for n1 l1 w1
  proof -
    note IH = Cons.IH [OF that(1) gs]
    show ?thesis
      using appends_rows_trans [OF that(2) appends_rows_mono [OF conjunct1 [OF IH] sub(2)]] rows_kept_trans [OF that(3) conjunct2 [OF IH]] by blast
  qed
  show ?case
  proof (cases "targets t")
    case None
    show ?thesis
      by (rule rest [OF _ appends_rows_refl mark_failed_all_kept
            [of w en "text" cfg "\<lambda>r. ErrMsg ''outbox topic %q is not configured'' [FStr (ob_topic r)]" rs]])
         (use Cons.prems(1) g None in simp)
  next
    case (Some ap)
    obtain ids l1 w1 where p: "publish_topic en text cfg ap rs (l, w) = (ids, l1, w1)" by (metis prod_cases3)
    have "exact_appender ap t entries" using X Some by (simp add: exact_targets_def)
    note P = publish_topic_rows [OF this p t]
    note 1 = appends_rows_mono [OF conjunct1 [OF P] sub(1)] conjunct2 [OF P]
    show ?thesis
    proof (cases "ids = []")
      case True
      show ?thesis by (rule rest [OF _ 1]) (use Cons.prems(1) g Some p True in simp)
    next
      case False
      obtain y w2 where m: "mark_published en cfg ids w1 = (y, w2)" by fastforce
      have 2: "rows_kept (w_db w) (w_db w2)" by (rule rows_kept_trans [OF 1(2) mark_published_kept [OF m]])
      show ?thesis
      proof (cases y)
        case (Inl err)
        then have "l' = l1 \<and> w' = w2" using Cons.prems(1) g Some p False m by simp
        then show ?thesis using 1(1) 2 by simp
      next
        case (Inr u)
        show ?thesis by (rule rest [OF _ 1(1) 2]) (use Cons.prems(1) g Some p False m Inr in simp)
      qed
    qed
  qed
qed

lemma publish_once_rows:
  assumes X: "exact_targets targets entries" and f: "fair_orders en rng"
    and e: "publish_once en nanos text rng cfg targets (l, w) = (x, l', w')"
  shows "rows_kept (w_db w) (w_db w')"
    and "\<exists>R. appends_rows entries R l l' \<and> (\<forall>r \<in> R. \<exists>a \<in> set (tb_outbox (w_db w)). same_content a r)"
proof -
  obtain y w1 where c: "claim en nanos cfg w = (y, w1)" by fastforce
  note k = claim_kept [OF f c]
  have "rows_kept (w_db w) (w_db w') \<and> (\<exists>R. appends_rows entries R l l' \<and> (\<forall>r \<in> R. \<exists>a \<in> set (tb_outbox (w_db w)). same_content a r))"
  proof (cases y)
    case (Inl err)
    then show ?thesis using e c k(1) by (auto simp: publish_once_def intro!: exI [of _ "{}"])
  next
    case (Inr evs)
    have m: "set (rng gs) = set gs" for gs using f by (metis fair_orders_def mset_eq_setD)
    let ?R = "\<Union>(t, rs) \<in> set (rng (group_by_topic evs)). set rs"
    have p: "publish_groups en text cfg targets (rng (group_by_topic evs)) 0 (l, w1) = (x, l', w')" using e c Inr by (simp add: publish_once_def)
    have t: "\<forall>(t, rs) \<in> set (rng (group_by_topic evs)). \<forall>r \<in> set rs. ob_topic r = t" unfolding m using group_by_topic_topics by fastforce
    note P = publish_groups_rows [OF X p t]
    have "\<exists>a \<in> set (tb_outbox (w_db w)). same_content a r" if r: "r \<in> ?R" for r
    proof -
      have "r \<in> set evs" using r group_by_topic_set unfolding m by fastforce
      then obtain a where a: "a \<in> set (tb_outbox (w_db w1))" "same_content a r" using k(2) [OF Inr] unfolding known_def by blast
      obtain b where "b \<in> set (tb_outbox (w_db w))" "same_content b a" using rows_kept_row [OF k(1) a(1)] by blast
      then show ?thesis using a(2) same_content_trans by blast
    qed
    then show ?thesis using P rows_kept_trans [OF k(1)] by blast
  qed
  then show "rows_kept (w_db w) (w_db w')"
    "\<exists>R. appends_rows entries R l l' \<and> (\<forall>r \<in> R. \<exists>a \<in> set (tb_outbox (w_db w)). same_content a r)" by blast+
qed

section \<open>The programs together\<close>

text \<open>
  A state: the database, the index of a matcher worker, the logs. A step is one operation of one of the
  programs; the environment, the configuration and the outcome of the step are arbitrary. Nodes and
  workers are given records whose events are in the log of their topic, in any order and as often as
  the log or a restart delivers them.
\<close>

type_synonym 'l pipeline = "world \<times> istate \<times> 'l"

inductive pipeline_step ::
  "codec \<Rightarrow> (string \<Rightarrow> 'l appender option) \<Rightarrow> ('l \<Rightarrow> string \<Rightarrow> event set) \<Rightarrow> 'l pipeline \<Rightarrow> 'l pipeline \<Rightarrow> bool"
  for cd targets entries where
  Produce: "targets TopicOrderEvents = Some ap \<Longrightarrow> \<forall>e \<in> set es. client_event e \<Longrightarrow> append_order_events ap es l = (r, l') \<Longrightarrow>
    pipeline_step cd targets entries (w, st, l) (w, st, l')"
| Handle: "honest en \<Longrightarrow> \<forall>r \<in> set rs. lr_event r \<in> as_read (entries l TopicOrderEvents) \<Longrightarrow>
    apply_records_with_fence en cd base (Some (owner_of en)) node rs own w = (r, w') \<Longrightarrow>
    pipeline_step cd targets entries (w, st, l) (w', st, l)"
| Publish: "fair_orders en rng \<Longrightarrow> publish_once en nanos text rng cfg targets (l, w) = (x, l', w') \<Longrightarrow>
    pipeline_step cd targets entries (w, st, l) (w', st, l')"
| Match: "honest en \<Longrightarrow> lr_event r \<in> as_read (entries l TopicMatchRequests) \<Longrightarrow>
    worker_apply_record en it cd wcfg r own (st, w) = (res, (st', w')) \<Longrightarrow>
    pipeline_step cd targets entries (w, st, l) (w', st', l)"
| StartShard: "matcher_start_hook en rng' seed n k (w, st) = (r, (w', st')) \<Longrightarrow>
    pipeline_step cd targets entries (w, st, l) (w', st', l)"
| StopShard: "matcher_stop_hook k (w, st) = (w', st') \<Longrightarrow> pipeline_step cd targets entries (w, st, l) (w', st', l)"

inductive_cases pipeline_stepE: "pipeline_step cd targets entries s s'"

text \<open>At the start nothing has been handled and the match topic is empty.\<close>

inductive pipeline_reachable ::
  "codec \<Rightarrow> (string \<Rightarrow> 'l appender option) \<Rightarrow> ('l \<Rightarrow> string \<Rightarrow> event set) \<Rightarrow> 'l pipeline \<Rightarrow> bool"
  for cd targets entries where
  start: "tb_outbox (w_db w) = [] \<Longrightarrow> tb_inbox (w_db w) = Map.empty \<Longrightarrow> \<forall>e \<in> entries l TopicOrderEvents. client_event e \<Longrightarrow>
    entries l TopicMatchRequests = {} \<Longrightarrow> pipeline_reachable cd targets entries (w, st, l)"
| step: "pipeline_reachable cd targets entries s \<Longrightarrow> pipeline_step cd targets entries s s' \<Longrightarrow> pipeline_reachable cd targets entries s'"

definition pipeline_inv :: "codec \<Rightarrow> ('l \<Rightarrow> string \<Rightarrow> event set) \<Rightarrow> 'l pipeline \<Rightarrow> bool" where
  "pipeline_inv cd entries = (\<lambda>(w, st, l).
     tables_traced cd (as_read (entries l TopicOrderEvents)) (as_read (entries l TopicMatchRequests)) (w_db w) \<and>
     logs_traced (entries l TopicOrderEvents) (entries l TopicMatchRequests) (w_db w))"

lemma event_traced_kept: "rows_kept db db' \<Longrightarrow> event_traced db t e \<Longrightarrow> event_traced db' t e"
  unfolding event_traced_def using rows_kept_row2 unfolding same_content_def by metis

lemma logs_traced_more: "logs_traced E M db \<Longrightarrow> set (tb_outbox db) \<subseteq> set (tb_outbox db') \<Longrightarrow> logs_traced E M db'"
  unfolding logs_traced_def event_traced_def by blast

lemma logs_traced_kept: "logs_traced E M db \<Longrightarrow> rows_kept db db' \<Longrightarrow> logs_traced E M db'"
  unfolding logs_traced_def using event_traced_kept by blast

lemma request_db_outbox_sub:
  assumes "request_db cd cfg r own req cands ts db = Inr (x, db')"
  shows "set (tb_outbox db) \<subseteq> set (tb_outbox db')"
proof -
  obtain t1 t2 t3 where ts: "ts = (t1, t2, t3)" by (cases ts)
  have a: "set (tb_outbox db) \<subseteq> set (tb_outbox (add_outbox b db))" for b db by (auto simp: add_outbox_def create_outbox_event_def)
  have m: "set (tb_outbox db1) \<subseteq> set (tb_outbox db2)" if "match_db cd cfg (lr_event r) req cands t2 db1 = Inr (x, db2)" for db1 db2
    using that by (auto simp: match_db_def missed_db_def matched_db_def Let_def add_outbox_def create_outbox_event_def
        split: list.splits option.splits sum.splits if_splits)
  show ?thesis
    using assms m unfolding ts request_db_def by (fastforce simp: Let_def split: option.splits if_splits sum.splits)
qed

text \<open>Statements of the hooks leave the inbox and the outbox alone.\<close>

lemma upserts_keep:
  "efor ps (\<lambda>p. auto_commit en (upsert_rider (f p))) w = (r, w') \<Longrightarrow> tb_inbox (w_db w') = tb_inbox (w_db w) \<and> tb_outbox (w_db w') = tb_outbox (w_db w)"
proof (induction ps arbitrary: w)
  case (Cons p ps)
  obtain q w1 where q: "auto_commit en (upsert_rider (f p)) w = (q, w1)" by fastforce
  have 1: "tb_inbox (w_db w1) = tb_inbox (w_db w) \<and> tb_outbox (w_db w1) = tb_outbox (w_db w)"
    using q by (auto simp: auto_commit_def upsert_rider_def split: option.splits)
  show ?case using Cons q 1 by (cases q) (auto simp: ebind_def)
qed simp

lemma start_hook_kept: "matcher_start_hook en rng seed n k (w, st) = (r, (w', st')) \<Longrightarrow> rows_kept (w_db w) (w_db w')"
  by (cases st) (auto simp: matcher_start_hook_def Let_def rows_kept_def list_all2_refl same_content_refl split: prod.splits dest!: upserts_keep)

lemma pipeline_inv_step:
  assumes X: "exact_targets targets entries" and I: "pipeline_inv cd entries s" and S: "pipeline_step cd targets entries s s'"
  shows "pipeline_inv cd entries s'"
  using S
proof (cases rule: pipeline_step.cases)
  case (Produce ap es l r l' w st)
  then have "exact_appender ap TopicOrderEvents entries" using X by (simp add: exact_targets_def)
  note A = exact_appender.append_order_events_exact [OF this Produce(5)]
  have m: "entries l' TopicMatchRequests = entries l TopicMatchRequests" using A [of TopicMatchRequests] topics_neq by auto
  have o: "entries l TopicOrderEvents \<subseteq> entries l' TopicOrderEvents" "\<forall>e \<in> entries l' TopicOrderEvents. e \<in> entries l TopicOrderEvents \<or> client_event e"
    using A [of TopicOrderEvents] Produce(4) by auto
  show ?thesis
    using I tables_traced_mono [of cd _ _ "w_db w", OF _ as_read_mono [OF o(1)] order_refl] o(2)
    unfolding Produce(1,2) pipeline_inv_def prod.case m logs_traced_def by blast
next
  case (Handle en rs l base node own w r w' st)
  have I': "tables_traced cd (as_read (entries l TopicOrderEvents)) (as_read (entries l TopicMatchRequests)) (w_db w)"
    "logs_traced (entries l TopicOrderEvents) (entries l TopicMatchRequests) (w_db w)"
    using I unfolding Handle(1) pipeline_inv_def by simp_all
  have "w_db w' = w_db w \<or> batch_db cd node rs own (w_db w) = Inr (w_db w')"
    using apply_records_outcome [OF Handle(3) quiet_owner_of Handle(5)] by blast
  then show ?thesis
  proof
    assume b: "batch_db cd node rs own (w_db w) = Inr (w_db w')"
    obtain db1 where "records_db cd rs (w_db w) = Inr db1" "w_db w' = snd (batch_checkpoint node rs own db1)"
      using b by (auto simp: batch_db_def split: sum.splits)
    then have "set (tb_outbox (w_db w)) \<subseteq> set (tb_outbox (w_db w'))" using records_db_outbox_sub by (simp add: checkpoint_frame)
    then show ?thesis unfolding Handle(2) pipeline_inv_def prod.case
      using traced_batch [OF I'(1) Handle(4) b] logs_traced_more [OF I'(2)] by blast
  qed (use I' in \<open>simp add: Handle(2) pipeline_inv_def\<close>)
next
  case (Publish en rng nanos "text" cfg l w x l' w' st)
  let ?E = "entries l TopicOrderEvents" and ?M = "entries l TopicMatchRequests"
  have I': "tables_traced cd (as_read ?E) (as_read ?M) (w_db w)" "logs_traced ?E ?M (w_db w)" using I unfolding Publish(1) pipeline_inv_def by simp_all
  note P = publish_once_rows [OF X Publish(3,4)]
  obtain R where R: "appends_rows entries R l l'" "\<forall>r \<in> R. \<exists>a \<in> set (tb_outbox (w_db w)). same_content a r" using P(2) by blast
  have new: "e \<in> entries l u \<or> event_traced (w_db w) u e" if "e \<in> entries l' u" for e u
    using that R unfolding appends_rows_def event_traced_def same_content_def by fastforce
  have sub: "?E \<subseteq> entries l' TopicOrderEvents" "?M \<subseteq> entries l' TopicMatchRequests" using R(1) unfolding appends_rows_def by blast+
  have "logs_traced (entries l' TopicOrderEvents) (entries l' TopicMatchRequests) (w_db w)"
    using I'(2) new unfolding logs_traced_def by blast
  then show ?thesis unfolding Publish(2) pipeline_inv_def prod.case
    using tables_traced_kept [OF tables_traced_mono [OF I'(1) sub [THEN as_read_mono]] P(1)] logs_traced_kept [OF _ P(1)] by blast
next
  case (Match en r l it wcfg own st w res st' w')
  have I': "tables_traced cd (as_read (entries l TopicOrderEvents)) (as_read (entries l TopicMatchRequests)) (w_db w)"
    "logs_traced (entries l TopicOrderEvents) (entries l TopicMatchRequests) (w_db w)"
    using I unfolding Match(1) pipeline_inv_def by simp_all
  have "w_db w' = w_db w \<or> (\<exists>req cands x ts. request_of it cd wcfg r st = Some (req, cands) \<and>
      request_db cd wcfg r own req cands ts (w_db w) = Inr (x, w_db w'))"
    using worker_outcome [OF Match(3,5)] by blast
  then show ?thesis
  proof
    assume "\<exists>req cands x ts. request_of it cd wcfg r st = Some (req, cands) \<and> request_db cd wcfg r own req cands ts (w_db w) = Inr (x, w_db w')"
    then obtain req cands x ts where q: "request_of it cd wcfg r st = Some (req, cands)" "request_db cd wcfg r own req cands ts (w_db w) = Inr (x, w_db w')"
      by blast
    have "cd_match_requested cd (ev_payload (lr_event r)) = Inr req" using q(1) by (auto simp: request_of_def split: sum.splits)
    then show ?thesis unfolding Match(2) pipeline_inv_def prod.case
      using traced_request [OF I'(1) Match(4) _ q(2)] logs_traced_more [OF I'(2) request_db_outbox_sub [OF q(2)]] by blast
  qed (use I' in \<open>simp add: Match(2) pipeline_inv_def\<close>)
next
  case (StartShard en rng' seed n k w st r w' st' l)
  note K = start_hook_kept [OF StartShard(3)]
  show ?thesis using I tables_traced_kept [OF _ K] logs_traced_kept [OF _ K]
    unfolding StartShard(1,2) pipeline_inv_def prod.case by blast
next
  case (StopShard k w st w' st' l)
  then show ?thesis using I by (simp add: pipeline_inv_def matcher_stop_hook_def)
qed

lemma pipeline_reachable_inv:
  assumes X: "exact_targets targets entries"
  shows "pipeline_reachable cd targets entries s \<Longrightarrow> pipeline_inv cd entries s"
proof (induction rule: pipeline_reachable.induct)
  case (start w l st)
  then show ?case by (simp add: pipeline_inv_def tables_traced_def logs_traced_def outbox_wf_def)
qed (rule pipeline_inv_step [OF X])

section \<open>Every answer has its cause\<close>

lemma traced_same_id:
  assumes "outbox_wf db" "event_traced db t e" "event_traced db t' e'" "ev_id e = ev_id e'"
  shows "e' = e"
proof -
  obtain b b' where b: "b \<in> set (tb_outbox db)" "outbox_to_event b = e" "b' \<in> set (tb_outbox db)" "outbox_to_event b' = e'"
    using assms(2,3) unfolding event_traced_def by blast
  then have "ob_event_id b = ob_event_id b'" using assms(4) by (auto simp: outbox_to_event_def)
  then have "b = b'" using assms(1) b(1,3) by (auto simp: outbox_wf_def distinct_map dest: inj_onD)
  then show ?thesis using b by simp
qed

lemma traced_id: "event_traced db t e \<Longrightarrow> ev_id e \<in> ob_event_id ` set (tb_outbox db)"
  by (auto simp: event_traced_def outbox_to_event_def)

lemma same_content_event: "same_content b (outbox_of_event x t) \<Longrightarrow>
    ev_id (outbox_to_event b) = ev_id x \<and> ev_type (outbox_to_event b) = ev_type x \<and> ev_payload (outbox_to_event b) = ev_payload x \<and> ob_topic b = t"
  by (simp add: same_content_def outbox_to_event_def outbox_of_event_def)

text \<open>
  Property C2: in the running system, whatever the order of the steps, the faults and the repeated
  deliveries, every result in the order topic that no client put there answers exactly one request of
  the match topic, which was asked for by exactly one handled creation or retry of the order topic,
  and the result is about the order of that event; nothing else in the order topic answers the request.
\<close>

theorem answers_have_causes:
  assumes "exact_targets targets entries" "pipeline_reachable cd targets entries (w, st, l)"
    and codec: "\<forall>q v. cd_enc_match_requested cd q = Inr v \<longrightarrow> cd_match_requested cd v = Inr q"
    and e: "e \<in> entries l TopicOrderEvents" "\<not> client_event e"
  shows "\<exists>m \<in> entries l TopicMatchRequests. \<exists>c \<in> entries l TopicOrderEvents. \<exists>i attempt.
    match_request_identity cd c = Inr (i, attempt) \<and> ev_id m = ev_id c @ ''-match-requested'' \<and> ev_id e = ev_id m @ ''-'' @ ev_type e \<and>
    (ev_type e = EventOrderMatched \<and> (\<exists>u score. cd_enc_matched cd \<lparr>om_order_id = i, om_rider_id = u, om_score = score\<rparr> = Inr (ev_payload e)) \<or>
     ev_type e = EventOrderMissed \<and> cd_enc_missed cd \<lparr>oms_order_id = i, oms_reason = ''no_available_rider''\<rparr> = Inr (ev_payload e)) \<and>
    tb_inbox (w_db w) (ConsumerOrderWorker, ev_id c) \<noteq> None \<and> tb_inbox (w_db w) (ConsumerMatcherWorker, ev_id m) \<noteq> None \<and>
    (\<forall>e' \<in> entries l TopicOrderEvents. \<not> client_event e' \<and>
       ev_id e' \<in> {ev_id m @ ''-'' @ EventOrderMatched, ev_id m @ ''-'' @ EventOrderMissed} \<longrightarrow> e' = e) \<and>
    (\<forall>m' \<in> entries l TopicMatchRequests. ev_id m' = ev_id m \<longrightarrow> m' = m)"
proof -
  let ?E = "entries l TopicOrderEvents" and ?M = "entries l TopicMatchRequests" and ?db = "w_db w"
  have T: "tables_traced cd (as_read ?E) (as_read ?M) ?db" and L: "logs_traced ?E ?M ?db"
    using pipeline_reachable_inv [OF assms(1,2)] by (simp_all add: pipeline_inv_def)
  have wf: "outbox_wf ?db" using T by (simp add: tables_traced_def)
  have tr: "event_traced ?db TopicOrderEvents x" if "x \<in> ?E" "\<not> client_event x" for x
    using L that unfolding logs_traced_def by blast
  obtain b where b: "b \<in> set (tb_outbox ?db)" "ob_topic b = TopicOrderEvents" "outbox_to_event b = e"
    using tr [OF e] unfolding event_traced_def by blast
  have "\<not> asked_by cd c b" for c using asked_by_id [of cd c b] b(2) topics_neq by auto
  then obtain m1 t where m1: "m1 \<in> as_read ?M" "answers cd m1 t b" "tb_inbox ?db (ConsumerMatcherWorker, ev_id m1) \<noteq> None"
    using T b(1) unfolding tables_traced_def by blast
  obtain m k where m: "m \<in> ?M" "m1 = m\<lparr>ev_shard_id := k\<rparr>" using m1(1) unfolding as_read_def by blast
  obtain req payload now where a: "cd_match_requested cd (ev_payload m1) = Inr req"
    "t = EventOrderMatched \<and> (\<exists>u score. cd_enc_matched cd \<lparr>om_order_id = mr_order_id req, om_rider_id = u, om_score = score\<rparr> = Inr payload) \<or>
     t = EventOrderMissed \<and> cd_enc_missed cd \<lparr>oms_order_id = mr_order_id req, oms_reason = ''no_available_rider''\<rparr> = Inr payload"
    "same_content b (outbox_of_event (result_event m1 t payload now) TopicOrderEvents)"
    using m1(2) unfolding answers_def by blast
  have e_is: "ev_id e = ev_id m @ ''-'' @ t" "ev_type e = t" "ev_payload e = payload"
    using same_content_event [OF a(3)] unfolding b(3) m(2) by (simp_all add: result_event_def)
  have mt: "event_traced ?db TopicMatchRequests x" if "x \<in> ?M" for x using L that unfolding logs_traced_def by blast
  obtain d where d: "d \<in> set (tb_outbox ?db)" "ob_topic d = TopicMatchRequests" "outbox_to_event d = m"
    using mt [OF m(1)] unfolding event_traced_def by blast
  have "\<not> answers cd x u d" for x u using answers_id [of cd x u d] d(2) topics_neq by auto
  then obtain c1 where c1: "c1 \<in> as_read ?E" "asked_by cd c1 d" "tb_inbox ?db (ConsumerOrderWorker, ev_id c1) \<noteq> None"
    using T d(1) unfolding tables_traced_def by blast
  obtain c k2 where c: "c \<in> ?E" "c1 = c\<lparr>ev_shard_id := k2\<rparr>" using c1(1) unfolding as_read_def by blast
  obtain i attempt x y p where q: "match_request_identity cd c1 = Inr (i, attempt)"
    "cd_enc_match_requested cd \<lparr>mr_order_id = i, mr_x = x, mr_y = y, mr_attempt = attempt\<rparr> = Inr p"
    "same_content d (outbox_of_event (match_request_event c1 i p) TopicMatchRequests)"
    using c1(2) unfolding asked_by_def by blast
  have m_is: "ev_id m = ev_id c @ ''-match-requested''" "ev_payload m = p"
    using same_content_event [OF q(3)] unfolding d(3) c(2) by (simp_all add: match_request_event_def)
  have q1: "match_request_identity cd c = Inr (i, attempt)" using q(1) by (simp add: c(2) match_request_identity_def split: if_splits)
  have i: "mr_order_id req = i" using codec q(2) a(1) m_is(2) m(2) by fastforce
  have one: "e' = e" if e': "e' \<in> ?E" "\<not> client_event e'" "ev_id e' \<in> {ev_id m @ ''-'' @ EventOrderMatched, ev_id m @ ''-'' @ EventOrderMissed}" for e'
  proof (rule traced_same_id [OF wf tr [OF e] tr [OF e'(1,2)]])
    have "\<not> (ev_id m @ ''-'' @ EventOrderMatched \<in> ob_event_id ` set (tb_outbox ?db) \<and> ev_id m @ ''-'' @ EventOrderMissed \<in> ob_event_id ` set (tb_outbox ?db))"
      using T unfolding tables_traced_def by blast
    then show "ev_id e = ev_id e'"
      using traced_id [OF tr [OF e]] traced_id [OF tr [OF e'(1,2)]] e'(3) e_is(1) a(2) by auto
  qed
  have only: "\<forall>m' \<in> ?M. ev_id m' = ev_id m \<longrightarrow> m' = m" using traced_same_id [OF wf mt [OF m(1)] mt] by metis
  show ?thesis
  proof (rule bexI [OF _ m(1)], rule bexI [OF _ c(1)], rule exI [of _ i], rule exI [of _ attempt], intro conjI)
    show "ev_id e = ev_id m @ ''-'' @ ev_type e" using e_is by simp
    show "ev_type e = EventOrderMatched \<and> (\<exists>u score. cd_enc_matched cd \<lparr>om_order_id = i, om_rider_id = u, om_score = score\<rparr> = Inr (ev_payload e)) \<or>
       ev_type e = EventOrderMissed \<and> cd_enc_missed cd \<lparr>oms_order_id = i, oms_reason = ''no_available_rider''\<rparr> = Inr (ev_payload e)"
      using a(2) unfolding e_is(2,3) i .
  qed (use q1 m_is(1) c1(3) m1(3) one only in \<open>simp_all add: c(2) m(2)\<close>)
qed

section \<open>Kafka topics\<close>

text \<open>With an exact writer and an encoding that loses nothing.\<close>

lemma encode_message_inj: "event_json_exact js \<Longrightarrow> encode_message js e = Inr m \<Longrightarrow> encode_message js e' = Inr m \<Longrightarrow> e' = e"
  using decode_encode_exact [of js e "snd m"] decode_encode_exact [of js e' "snd m"] by (auto simp: encode_message_def split: sum.splits)

lemma kafka_batch_exact:
  assumes W: "exact_writer kk partitions logs" and j: "event_json_exact js" and e: "kafka_append_batch kk js ctx es s = (r, s')"
  shows "kafka_entries js logs s \<subseteq> kafka_entries js logs s' \<and> kafka_entries js logs s' \<subseteq> kafka_entries js logs s \<union> set es \<and>
    ((\<exists>ps. r = Inr ps) \<longrightarrow> set es \<subseteq> kafka_entries js logs s')"
proof -
  have "kafka_entries js logs s' \<subseteq> kafka_entries js logs s \<union> set es"
  proof (cases "\<exists>ms ps. ctx = None \<and> es \<noteq> [] \<and> encode_messages js es = Inr (ms, ps) \<and> kl_open s")
    case False
    then show ?thesis using e by (auto simp: kafka_append_batch_def split: option.splits if_splits sum.splits prod.splits)
  next
    case True
    then obtain ms ps where m: "encode_messages js es = Inr (ms, ps)" by blast
    obtain q n where q: "kk_write kk ms (kl_net s) = (q, n)" by fastforce
    have s': "kl_net s' = n" using e True q m by (cases q; auto simp: kafka_append_batch_def)+
    have grow: "set (logs n p) \<subseteq> set (logs (kl_net s) p) \<union> set ms" for p
      using writer_lawsD [OF exact_writerD(1) [OF W] q, of p] by auto
    show ?thesis
    proof
      fix x assume "x \<in> kafka_entries js logs s'"
      then obtain p m1 where m1: "encode_message js x = Inr m1" "m1 \<in> set (logs n p)" unfolding kafka_entries_def s' by blast
      show "x \<in> kafka_entries js logs s \<union> set es"
      proof (cases "m1 \<in> set (logs (kl_net s) p)")
        case True
        then show ?thesis using m1(1) unfolding kafka_entries_def by blast
      next
        case False
        then have "m1 \<in> set ms" using m1(2) grow by blast
        then obtain y where "y \<in> set es" "encode_message js y = Inr m1"
          using encode_messages_ok [OF m, THEN conjunct1] unfolding list_all2_conv_all_nth by (metis in_set_conv_nth)
        then show ?thesis using encode_message_inj [OF j m1(1)] by blast
      qed
    qed
  qed
  then show ?thesis using kafka_batch_ok [OF W e] by blast
qed

lemma topic_exact:
  assumes a: "\<And>e s r s'. ap_append ap e s = (r, s') \<Longrightarrow> ent s \<subseteq> ent s' \<and> ent s' \<subseteq> ent s \<union> {e} \<and> ((\<exists>p. r = Inr p) \<longrightarrow> e \<in> ent s')"
    and b: "\<And>f es s r s'. ap_batch ap = Some f \<Longrightarrow> f es s = (r, s') \<Longrightarrow> ent s \<subseteq> ent s' \<and> ent s' \<subseteq> ent s \<union> set es \<and> ((\<exists>ps. r = Inr ps) \<longrightarrow> set es \<subseteq> ent s')"
  shows "exact_appender (topic_appender t ap) t (\<lambda>l t. ent (l t))"
proof (unfold_locales, goal_cases)
  case (1 e l r l' u)
  obtain x s where x: "ap_append ap e (l t) = (x, s)" by fastforce
  then have "r = x" "l' = l(t := s)" using 1 by (simp_all add: topic_appender_def)
  then show ?case using a [OF x] by simp
next
  case (2 f es l r l' u)
  obtain g where g: "ap_batch ap = Some g" "f = (\<lambda>es l. case g es (l t) of (x, s) \<Rightarrow> (x, l(t := s)))"
    using 2(1) by (auto simp: topic_appender_def split: option.splits)
  obtain x s where x: "g es (l t) = (x, s)" by fastforce
  then have "r = x" "l' = l(t := s)" using 2(2) g(2) by simp_all
  then show ?case using b [OF g(1) x] by simp
qed

lemma kafka_exact:
  assumes W: "exact_writer kk partitions logs" and j: "event_json_exact js"
  shows "exact_appender (topic_appender t (kafka_appender kk js ctx)) t (\<lambda>l t. kafka_entries js logs (l t))"
proof (rule topic_exact, goal_cases)
  case (1 e s r s')
  obtain q s1 where q: "kafka_append_batch kk js ctx [e] s = (q, s1)" by fastforce
  have "s' = s1 \<and> ((\<exists>p. r = Inr p) \<longrightarrow> (\<exists>ps. q = Inr ps))"
    using 1 q by (cases q) (auto simp: kafka_appender_def kafka_append_def ebind_def)
  then show ?case using kafka_batch_exact [OF W j q] by auto
next
  case (2 f es s r s')
  then show ?case using kafka_batch_exact [OF W j, of ctx es s r s'] by (simp add: kafka_appender_def)
qed

interpretation kafka_topic: exact_appender "topic_appender t (kafka_appender (ref_kafka partitions) ref_event_json ctx)" t
    "\<lambda>l t. kafka_entries ref_event_json (\<lambda>s. s) (l t)" for t partitions ctx
  by (rule kafka_exact [OF ref_kafka_exact ref_event_json_exact])

lemma memory_append_exact: "memory_append_events es s = (r, s') \<Longrightarrow> memory_entries s' \<subseteq> memory_entries s \<union> set es"
proof (induction es arbitrary: s r)
  case (Cons e es)
  show ?case
  proof (cases "s (ev_shard_id e)")
    case None
    then show ?thesis using Cons.prems by auto
  next
    case (Some rs)
    let ?s1 = "s(ev_shard_id e \<mapsto> rs @ [\<lparr>lr_position = \<lparr>ps_shard_id = ev_shard_id e, ps_offset = int (length rs)\<rparr>, lr_event = e\<rparr>])"
    obtain q where q: "memory_append_events es ?s1 = (q, s')" using memory_append_step [OF Some Cons.prems] by blast
    have "memory_entries ?s1 \<subseteq> insert e (memory_entries s)"
      using Some by (fastforce simp: memory_entries_def split: if_splits)
    then show ?thesis using Cons.IH [OF q] by (auto simp del: fun_upd_apply)
  qed
qed simp

lemma memory_batch_exact:
  assumes "memory_append_batch ctx es s = (r, s')"
  shows "memory_entries s \<subseteq> memory_entries s' \<and> memory_entries s' \<subseteq> memory_entries s \<union> set es \<and>
    ((\<exists>ps. r = Inr ps) \<longrightarrow> set es \<subseteq> memory_entries s')"
  using memory_append_batch_ok [OF assms] assms memory_append_exact
  by (cases ctx) (auto simp: memory_append_batch_def)

interpretation memory_topic: exact_appender "topic_appender t (memory_appender ctx)" t "\<lambda>l t. memory_entries (l t)" for t ctx
proof (rule topic_exact, goal_cases)
  case (1 e s r s')
  obtain q s1 where q: "memory_append_batch ctx [e] s = (q, s1)" by fastforce
  have "s' = s1 \<and> ((\<exists>p. r = Inr p) \<longrightarrow> (\<exists>ps. q = Inr ps))"
    using 1 q by (cases q) (auto simp: memory_appender_def memory_append_def ebind_def)
  then show ?case using memory_batch_exact [OF q] by auto
next
  case (2 f es s r s')
  then show ?case using memory_batch_exact [of ctx es s r s'] by (simp add: memory_appender_def)
qed

text \<open>The two topics, as \<open>newKafkaTargets\<close> sets them up, over logs in memory.\<close>

definition ref_topics :: "string \<Rightarrow> (string \<Rightarrow> memory_log) appender option" where
  "ref_topics = (\<lambda>t. if t \<in> {TopicOrderEvents, TopicMatchRequests} then Some (topic_appender t (memory_appender None)) else None)"

definition topic_entries :: "(string \<Rightarrow> memory_log) \<Rightarrow> string \<Rightarrow> event set" where
  "topic_entries l t = memory_entries (l t)"

lemma ref_topics_exact: "exact_targets ref_topics topic_entries"
  using memory_topic.exact_appender_axioms unfolding topic_entries_def [abs_def] by (auto simp: exact_targets_def ref_topics_def)

section \<open>A run of the pipeline\<close>

text \<open>Order 7 from its creation to the answer, with the rider of \<open>tiny_index\<close>.\<close>

definition pipe_codec :: codec where
  "pipe_codec = seven_codec\<lparr>cd_enc_match_requested := (\<lambda>q. if q = \<lparr>mr_order_id = 7, mr_x = 1, mr_y = 2, mr_attempt = 0\<rparr> then Inr ''request'' else Inl ErrNoRows)\<rparr>"

definition pipe_env :: env where
  "pipe_env = (calm five_owned)\<lparr>en_now := (\<lambda>n. 100)\<rparr>"

definition pipe_start :: world where
  "pipe_start = start_world (empty_database\<lparr>tb_riders := [3 \<mapsto> tiny_rider]\<rparr>)"

definition pipe_produce :: "string \<Rightarrow> memory_log" where
  "pipe_produce = snd (append_order_events (the (ref_topics TopicOrderEvents)) [seven_event ''e1'' EventOrderCreated] (\<lambda>_. [5 \<mapsto> []]))"

definition pipe_handle :: world where
  "pipe_handle = snd (apply_records_with_fence pipe_env pipe_codec 1 (Some (owner_of pipe_env)) 1
     [seven_record 0 ''e1'' EventOrderCreated] five_owned pipe_start)"

definition pipe_publish :: "(string \<Rightarrow> memory_log) \<times> world" where
  "pipe_publish = snd (publish_once pipe_env (\<lambda>_. 0) (\<lambda>_. []) (\<lambda>gs. gs) ref_config ref_topics (pipe_produce, pipe_handle))"

definition pipe_request :: event where
  "pipe_request = match_request_event (seven_event ''e1'' EventOrderCreated) 7 ''request''"

definition pipe_match :: "istate \<times> world" where
  "pipe_match = snd (worker_apply_record pipe_env rev pipe_codec tiny_config
     \<lparr>lr_position = \<lparr>ps_shard_id = 5, ps_offset = 0\<rparr>, lr_event = pipe_request\<rparr> five_owned (tiny_index, snd pipe_publish))"

definition pipe_answer :: "(string \<Rightarrow> memory_log) \<times> world" where
  "pipe_answer = snd (publish_once pipe_env (\<lambda>_. 0) (\<lambda>_. []) (\<lambda>gs. gs) ref_config ref_topics (fst pipe_publish, snd pipe_match))"

definition pipe_result :: event where
  "pipe_result = result_event pipe_request EventOrderMatched ''matched'' 100"

definition in_log :: "(string \<Rightarrow> memory_log) \<Rightarrow> string \<Rightarrow> event \<Rightarrow> bool" where
  "in_log l t e = (case l t 5 of None \<Rightarrow> False | Some rs \<Rightarrow> e \<in> lr_event ` set rs)"

lemma pipe_created: "in_log pipe_produce TopicOrderEvents (seven_event ''e1'' EventOrderCreated)" by code_simp
lemma pipe_requested: "in_log (fst pipe_publish) TopicMatchRequests pipe_request" by code_simp
lemma pipe_answered: "in_log (fst pipe_answer) TopicOrderEvents pipe_result" by code_simp

lemma in_log_entries: "in_log l t e \<Longrightarrow> e \<in> topic_entries l t"
  unfolding in_log_def topic_entries_def memory_entries_def by (auto split: option.splits)

lemma in_log_read: "in_log l t e \<Longrightarrow> e \<in> as_read (topic_entries l t)"
  using in_log_entries [of l t e] unfolding as_read_def by (intro CollectI exI [of _ e] exI [of _ "ev_shard_id e"]) simp

lemma pipe_env_ok: "honest pipe_env" "fair_orders pipe_env (\<lambda>gs. gs)"
  by (simp_all add: pipe_env_def honest_def fair_orders_def calm_def)

lemma pipe_reached: "pipeline_reachable pipe_codec ref_topics topic_entries (snd pipe_answer, fst pipe_match, fst pipe_answer)"
proof -
  let ?step = "pipeline_step pipe_codec ref_topics topic_entries" and ?reached = "pipeline_reachable pipe_codec ref_topics topic_entries"
  obtain r1 where 1: "append_order_events (the (ref_topics TopicOrderEvents)) [seven_event ''e1'' EventOrderCreated] (\<lambda>_. [5 \<mapsto> []]) = (r1, pipe_produce)"
    unfolding pipe_produce_def by (metis prod.collapse)
  obtain r2 where 2: "apply_records_with_fence pipe_env pipe_codec 1 (Some (owner_of pipe_env)) 1
      [seven_record 0 ''e1'' EventOrderCreated] five_owned pipe_start = (r2, pipe_handle)"
    unfolding pipe_handle_def by (metis prod.collapse)
  obtain r3 where 3: "publish_once pipe_env (\<lambda>_. 0) (\<lambda>_. []) (\<lambda>gs. gs) ref_config ref_topics (pipe_produce, pipe_handle) = (r3, fst pipe_publish, snd pipe_publish)"
    unfolding pipe_publish_def by (metis prod.collapse)
  obtain r4 where 4: "worker_apply_record pipe_env rev pipe_codec tiny_config
      \<lparr>lr_position = \<lparr>ps_shard_id = 5, ps_offset = 0\<rparr>, lr_event = pipe_request\<rparr> five_owned (tiny_index, snd pipe_publish) =
      (r4, (fst pipe_match, snd pipe_match))"
    unfolding pipe_match_def by (metis prod.collapse)
  obtain r5 where 5: "publish_once pipe_env (\<lambda>_. 0) (\<lambda>_. []) (\<lambda>gs. gs) ref_config ref_topics (fst pipe_publish, snd pipe_match) = (r5, fst pipe_answer, snd pipe_answer)"
    unfolding pipe_answer_def by (metis prod.collapse)
  have t: "ref_topics TopicOrderEvents = Some (the (ref_topics TopicOrderEvents))" by (simp add: ref_topics_def)
  have e: "\<forall>e \<in> set [seven_event ''e1'' EventOrderCreated]. client_event e" by (simp add: client_event_def seven_event_def)
  have h: "\<forall>r \<in> set [seven_record 0 ''e1'' EventOrderCreated]. lr_event r \<in> as_read (topic_entries pipe_produce TopicOrderEvents)"
    using in_log_read [OF pipe_created] by (simp add: seven_record_def)
  have m: "lr_event \<lparr>lr_position = \<lparr>ps_shard_id = 5, ps_offset = 0\<rparr>, lr_event = pipe_request\<rparr> \<in> as_read (topic_entries (fst pipe_publish) TopicMatchRequests)"
    using in_log_read [OF pipe_requested] by simp
  have "?reached (pipe_start, tiny_index, \<lambda>_. [5 \<mapsto> []])"
    by (rule pipeline_reachable.start) (simp_all add: pipe_start_def start_world_def empty_database_def topic_entries_def memory_entries_def)
  then have "?reached (pipe_start, tiny_index, pipe_produce)" by (rule pipeline_reachable.step) (rule pipeline_step.Produce [where targets = ref_topics, OF t e 1])
  then have "?reached (pipe_handle, tiny_index, pipe_produce)" by (rule pipeline_reachable.step) (rule pipeline_step.Handle [where entries = topic_entries and l = pipe_produce, OF pipe_env_ok(1) h 2])
  then have "?reached (snd pipe_publish, tiny_index, fst pipe_publish)" by (rule pipeline_reachable.step) (rule pipeline_step.Publish [OF pipe_env_ok(2) 3])
  then have "?reached (snd pipe_match, fst pipe_match, fst pipe_publish)" by (rule pipeline_reachable.step) (rule pipeline_step.Match [where entries = topic_entries and l = "fst pipe_publish", OF pipe_env_ok(1) m 4])
  then show ?thesis by (rule pipeline_reachable.step) (rule pipeline_step.Publish [OF pipe_env_ok(2) 5])
qed

theorem answers_have_causes_witness:
  "\<exists>m \<in> topic_entries (fst pipe_answer) TopicMatchRequests. ev_id m = ''e1-match-requested'' \<and>
     (\<forall>e' \<in> topic_entries (fst pipe_answer) TopicOrderEvents. ev_id e' = ''e1-match-requested-order_missed'' \<longrightarrow> client_event e')"
proof -
  have c: "\<forall>q v. cd_enc_match_requested pipe_codec q = Inr v \<longrightarrow> cd_match_requested pipe_codec v = Inr q"
    by (simp add: pipe_codec_def seven_codec_def)
  have r: "\<not> client_event pipe_result" by code_simp
  have i: "ev_id pipe_result = ''e1-match-requested'' @ ''-'' @ EventOrderMatched" "ev_type pipe_result = EventOrderMatched" by code_simp+
  have n: "ev_id pipe_result \<noteq> ''e1-match-requested-order_missed''" by code_simp
  have missed: "''e1-match-requested'' @ ''-'' @ EventOrderMissed = ''e1-match-requested-order_missed''" by code_simp
  obtain m where m: "m \<in> topic_entries (fst pipe_answer) TopicMatchRequests" "ev_id pipe_result = ev_id m @ ''-'' @ EventOrderMatched"
    "\<forall>e' \<in> topic_entries (fst pipe_answer) TopicOrderEvents. \<not> client_event e' \<and>
       ev_id e' \<in> {ev_id m @ ''-'' @ EventOrderMatched, ev_id m @ ''-'' @ EventOrderMissed} \<longrightarrow> e' = pipe_result"
    using answers_have_causes [OF ref_topics_exact pipe_reached c, of pipe_result] in_log_entries [OF pipe_answered] r unfolding i(2) by blast
  then have id: "ev_id m = ''e1-match-requested''" using i(1) by simp
  show ?thesis
    by (rule bexI [OF _ m(1)]) (use m(3) n id missed in auto)
qed


end
