(* ===== verification/MatcherNode.thy ===== *)
theory MatcherNode
  imports NodeApp MatcherMain
begin

text \<open>
  The matcher worker program (\<open>cmd/matcher-worker/main.go\<close>) as the runner it builds: the worker as the
  applier of single records, the checkpoints of its consumer in Postgres, and the hooks that load and
  remove the riders of a shard. A shard that the runner works on is one whose riders are loaded, unless it
  was started again before a late call of its stop hook.
\<close>

section \<open>The lifecycle of a shard\<close>

text \<open>
  Calls that keep a property of the environment and what holds in it of each shard.
\<close>

definition kept :: "('e \<Rightarrow> bool) \<Rightarrow> (int \<Rightarrow> 'e \<Rightarrow> bool) \<Rightarrow> 'e \<Rightarrow> 'e \<Rightarrow> bool" where
  "kept good ready e e' \<longleftrightarrow> (good e \<longrightarrow> good e' \<and> (\<forall>k. ready k e \<longrightarrow> ready k e'))"

definition keeping :: "('e \<Rightarrow> bool) \<Rightarrow> (int \<Rightarrow> 'e \<Rightarrow> bool) \<Rightarrow> ('e, 'a) eff \<Rightarrow> bool" where
  "keeping good ready m \<longleftrightarrow> (\<forall>e. kept good ready e (snd (m e)))"

lemma kept_refl [simp]: "kept good ready e e"
  by (simp add: kept_def)

lemma kept_trans: "kept good ready a b \<Longrightarrow> kept good ready b c \<Longrightarrow> kept good ready a c"
  by (simp add: kept_def)

lemma keepingD: "keeping good ready m \<Longrightarrow> m e = (r, e') \<Longrightarrow> kept good ready e e'"
  unfolding keeping_def by (metis snd_conv)

lemma keeping_ret [simp]: "keeping good ready (ret x)" "keeping good ready (throw err)"
  by (simp_all add: keeping_def)

lemma keeping_ebind: "keeping good ready m \<Longrightarrow> (\<And>x. keeping good ready (f x)) \<Longrightarrow> keeping good ready (ebind m f)"
  unfolding keeping_def ebind_def by (auto split: prod.split sum.split) (metis kept_trans snd_conv)+

text \<open>
  A step of the node that does not leave shard \<open>k\<close> active while a stop hook for \<open>k\<close> is still to come:
  no refresh has started the shard again in the gap between its removal from \<open>active\<close> and the call.
\<close>

definition calm_step :: "'e runner \<Rightarrow> int \<Rightarrow> 'e node \<Rightarrow> 'e node \<Rightarrow> bool" where
  "calm_step rn k s s' \<longleftrightarrow> node_step rn s s' \<and> (k \<in> set (nd_hooks s') \<longrightarrow> map_of (nd_active s') k = None)"

text \<open>
  What a runner asks of its hooks: the start hook makes a shard ready when it reports no error, the
  stop hook of a shard leaves the others ready, and nothing else the runner calls takes a shard away.
\<close>

locale shard_lifecycle =
  fixes rn :: "'e runner" and good :: "'e \<Rightarrow> bool" and ready :: "int \<Rightarrow> 'e \<Rightarrow> bool"
  assumes lists_keep: "keeping good ready (rn_shards_for_node rn n)"
    and tails_keep: "keeping good ready (rn_tail_from rn p)"
    and loads_keep: "rn_store rn = Some st \<Longrightarrow> keeping good ready (cs_load st k)"
    and saves_keep: "rn_store rn = Some st \<Longrightarrow> keeping good ready (cs_save st c)"
    and records_keep: "rn_applier rn = Some ap \<Longrightarrow> keeping good ready (runner_apply_record rn ap r own)"
    and batches_keep: "rn_applier rn = Some ap \<Longrightarrow> ra_batch ap = Some f \<Longrightarrow> keeping good ready (f rs own)"
    and metrics_keep: "rn_metrics rn = Some m \<Longrightarrow> kept good ready e (me_event_apply m n k t e) \<and>
      kept good ready e (me_event_apply_error m n k t e) \<and> kept good ready e (me_fencing_reject m n k e)"
    and start_loads: "good e \<Longrightarrow> \<exists>h. rn_on_start rn = Some h \<and>
      (case h k e of (r, e') \<Rightarrow> good e' \<and> (\<forall>j. j \<noteq> k \<longrightarrow> ready j e \<longrightarrow> ready j e') \<and> (r = Inr () \<longrightarrow> ready k e'))"
    and stop_keeps_others: "rn_on_stop rn = Some g \<Longrightarrow> good e \<Longrightarrow> good (g k e) \<and> (\<forall>j. j \<noteq> k \<longrightarrow> ready j e \<longrightarrow> ready j (g k e))"

text \<open>Every active shard is ready.\<close>

definition active_ready :: "('e \<Rightarrow> bool) \<Rightarrow> (int \<Rightarrow> 'e \<Rightarrow> bool) \<Rightarrow> 'e node \<Rightarrow> bool" where
  "active_ready good ready s \<longleftrightarrow> good (nd_env s) \<and> (\<forall>k. map_of (nd_active s) k \<noteq> None \<longrightarrow> ready k (nd_env s))"

lemma active_ready_kept:
  "active_ready good ready s \<Longrightarrow> kept good ready (nd_env s) (nd_env s') \<Longrightarrow> nd_active s' = nd_active s \<Longrightarrow> active_ready good ready s'"
  by (simp add: active_ready_def kept_def)

lemma active_ready_at_env:
  assumes "at_env m s = (r, s')" "keeping good ready m" "active_ready good ready s"
  shows "active_ready good ready s' \<and> nd_active s' = nd_active s"
proof -
  obtain e where e: "m (nd_env s) = (r, e)" "s' = s\<lparr>nd_env := e\<rparr>" using assms(1) by (auto simp: at_env_def split: prod.splits)
  then show ?thesis using active_ready_kept [OF assms(3), of s'] keepingD [OF assms(2) e(1)] by simp
qed

context shard_lifecycle begin

lemma stop_shard_ready: "active_ready good ready s \<Longrightarrow> active_ready good ready (stop_shard rn k s)"
  by (cases "map_of (nd_active s) k"; cases "rn_on_stop rn")
    (auto simp: stop_shard_def stop_hook_def cancel_goroutine_def active_ready_def gomap_simps split: if_splits dest: stop_keeps_others)

lemma record_metrics_ready:
  "active_ready good ready s \<Longrightarrow> active_ready good ready (record_event_apply rn ev s) \<and> active_ready good ready (record_event_apply_error rn ev s) \<and>
   active_ready good ready (record_fencing_reject rn k s)"
proof (cases "rn_metrics rn")
  case (Some m)
  assume "active_ready good ready s"
  then have "kept good ready (nd_env s) e \<Longrightarrow> active_ready good ready (s\<lparr>nd_env := e\<rparr>)" for e
    by (simp add: active_ready_def kept_def)
  then show ?thesis using metrics_keep [OF Some]
    by (simp add: record_event_apply_def record_event_apply_error_def record_fencing_reject_def Some)
qed (simp add: record_event_apply_def record_event_apply_error_def record_fencing_reject_def)

lemma start_shard_ready:
  assumes "active_ready good ready s" "map_of (nd_active s) (ow_shard_id own) = None" "start_shard rn own s = (r, s')"
  shows "active_ready good ready s'"
proof -
  let ?k = "ow_shard_id own"
  obtain q s1 where 1: "load_shard_checkpoint rn ?k s = (q, s1)" by fastforce
  have s1: "active_ready good ready s1 \<and> nd_active s1 = nd_active s"
  proof (cases "rn_store rn")
    case None
    then show ?thesis using 1 assms(1) by (simp add: load_shard_checkpoint_def Let_def)
  next
    case (Some st)
    obtain c s0 where c: "at_env (cs_load st ?k) s = (c, s0)" by fastforce
    have "s1 = s0" using 1 Some c by (cases c) (simp_all add: load_shard_checkpoint_def Let_def ebind_def ret_def)
    then show ?thesis using active_ready_at_env [OF c loads_keep [OF Some] assms(1)] by simp
  qed
  show ?thesis
  proof (cases q)
    case (Inl err)
    then have "s' = s1" using assms(3) 1 by (simp add: start_shard_def Let_def)
    then show ?thesis using s1 by simp
  next
    case (Inr offset)
    have g: "good (nd_env s1)" using s1 by (simp add: active_ready_def)
    obtain h where h: "rn_on_start rn = Some h" using start_loads [OF g, of ?k] by blast
    obtain q2 e2 where 2: "h ?k (nd_env s1) = (q2, e2)" by fastforce
    have H: "good e2" "\<And>j. j \<noteq> ?k \<Longrightarrow> ready j (nd_env s1) \<Longrightarrow> ready j e2" "q2 = Inr () \<Longrightarrow> ready ?k e2"
      using start_loads [OF g, of ?k] h 2 by auto
    let ?s2 = "s1\<lparr>nd_env := e2\<rparr>"
    have s2: "start_hook rn ?k s1 = (q2, ?s2)" by (simp add: start_hook_def h at_env_def 2)
    have "map_of (nd_active s1) j \<noteq> None \<Longrightarrow> j \<noteq> ?k" for j using s1 assms(2) by auto
    then have r2: "active_ready good ready ?s2" using s1 H(1,2) by (simp add: active_ready_def)
    show ?thesis
    proof (cases q2)
      case (Inl err)
      then have "s' = ?s2" using assms(3) 1 Inr s2 by (simp add: start_shard_def Let_def)
      then show ?thesis using r2 by simp
    next
      case (Inr u)
      let ?s3 = "?s2\<lparr>nd_next := (nd_next ?s2)(?k := offset)\<rparr>"
      have r3: "active_ready good ready ?s3" using r2 by (simp add: active_ready_def)
      obtain q4 s4 where 4: "at_env (rn_tail_from rn \<lparr>ps_shard_id = ?k, ps_offset = offset\<rparr>) ?s3 = (q4, s4)" by fastforce
      have e4: "s4 = ?s3\<lparr>nd_env := nd_env s4\<rparr>" "kept good ready e2 (nd_env s4)"
        using 4 keepingD [OF tails_keep] by (auto simp: at_env_def split: prod.splits)
      note r4 = active_ready_at_env [OF 4 tails_keep r3]
      have k: "ready ?k (nd_env s4)" "good (nd_env s4)" using e4(2) H(1,3) Inr by (simp_all add: kept_def)
      note run = assms(3) [unfolded start_shard_def Let_def ebind_def 1 \<open>q = Inr offset\<close> prod.case sum.case s2 Inr 4]
      show ?thesis
      proof (cases q4)
        case (Inl err)
        then have "s' = stop_hook rn ?k s4" using run by simp
        moreover have "map_of (nd_active s4) j \<noteq> None \<Longrightarrow> j \<noteq> ?k \<and> ready j (nd_env s4)" for j
          using r4 s1 assms(2) by (auto simp: active_ready_def)
        ultimately show ?thesis using r4 stop_keeps_others [of _ "nd_env s4" ?k] k(2)
          by (cases "rn_on_stop rn") (simp_all add: stop_hook_def active_ready_def)
      next
        case (Inr u)
        then show ?thesis using run r4 k by (auto simp: active_ready_def map_of_AList_update split: if_splits)
      qed
    qed
  qed
qed

lemma refresh_shard_ready:
  assumes "active_ready good ready s" "ow_shard_id own = k" "refresh_shard rn (k, own) s = (r, s')"
  shows "active_ready good ready s'"
proof (cases "map_of (nd_active s) k")
  case None
  then show ?thesis using start_shard_ready [OF assms(1), of own r s'] assms by (simp add: refresh_shard_def)
next
  case (Some w)
  show ?thesis
  proof (cases "sw_epoch w = ow_epoch own")
    case True
    then show ?thesis using assms Some by (simp add: refresh_shard_def)
  next
    case False
    then show ?thesis using start_shard_ready [OF stop_shard_ready [OF assms(1), of k], of own r s'] assms(2,3) Some
      by (simp add: refresh_shard_def stop_shard_active)
  qed
qed

lemma refresh_entries_ready:
  "active_ready good ready s \<Longrightarrow> \<forall>(k, own) \<in> set es. ow_shard_id own = k \<Longrightarrow> efor es (refresh_shard rn) s = (r, s') \<Longrightarrow>
   active_ready good ready s'"
proof (induction es arbitrary: s)
  case (Cons e es)
  obtain k own where e: "e = (k, own)" by fastforce
  obtain q s1 where 1: "refresh_shard rn (k, own) s = (q, s1)" by fastforce
  have "active_ready good ready s1" using refresh_shard_ready [OF Cons.prems(1) _ 1] Cons.prems(2) e by simp
  then show ?case using Cons.IH [of s1] Cons.prems(2,3) 1 e by (cases q) auto
qed simp

lemma refresh_once_ready:
  assumes "fair_order rn" "active_ready good ready s" "refresh_once rn s = (r, s')"
  shows "active_ready good ready s'"
proof -
  obtain q s1 where 1: "at_env (rn_shards_for_node rn (rn_id rn)) s = (q, s1)" by fastforce
  note s1 = conjunct1 [OF active_ready_at_env [OF 1 lists_keep assms(2)]]
  show ?thesis
  proof (cases q)
    case (Inl err)
    then show ?thesis using assms(3) 1 s1 by (simp add: refresh_once_def)
  next
    case (Inr owns)
    let ?d = "desired_shards owns"
    let ?es = "map (\<lambda>k. (k, the (map_of ?d k))) (rn_order rn (map fst ?d))"
    have "set (rn_order rn (map fst ?d)) = fst ` set ?d" using assms(1) by (metis fair_order_def mset_eq_setD list.set_map)
    then have es: "\<forall>(k, own) \<in> set ?es. ow_shard_id own = k"
      using desired_shards_ok(2) by (fastforce dest: weak_map_of_SomeI)
    obtain q2 s2 where 2: "efor ?es (refresh_shard rn) s1 = (q2, s2)" by fastforce
    have s2: "active_ready good ready s2" by (rule refresh_entries_ready [OF s1 es 2])
    have "active_ready good ready (foldl (\<lambda>s k. if D k then stop_shard rn k s else s) s2 ks)" for D ks
      using s2 by (induction ks arbitrary: s2) (simp_all add: stop_shard_ready)
    then show ?thesis using assms(3) 1 Inr 2 s2 by (cases q2) (auto simp: refresh_once_def Let_def)
  qed
qed


lemma run_record_ready:
  assumes "active_ready good ready s" "run_record rn own r s = (x, s')"
  shows "active_ready good ready s'"
proof (cases "rn_applier rn")
  case None
  then show ?thesis using assms by (simp add: run_record_def)
next
  case (Some ap)
  obtain q s1 where 1: "at_env (runner_apply_record rn ap r own) s = (q, s1)" by fastforce
  have s1: "active_ready good ready s1" using active_ready_at_env [OF 1 records_keep [OF Some] assms(1)] by simp
  show ?thesis
  proof (cases q)
    case (Inl err)
    then show ?thesis using assms(2) Some 1 record_metrics_ready [OF s1] by (auto simp: run_record_def)
  next
    case (Inr handled)
    let ?s2 = "record_event_apply rn (lr_event r) s1"
    have s2: "active_ready good ready ?s2" using record_metrics_ready [OF s1] by simp
    have next_kept: "active_ready good ready (t\<lparr>nd_next := f\<rparr>)" if "active_ready good ready t" for t f
      using that by (simp add: active_ready_def)
    have a: "active_ready good ready t" if "advance_checkpoint rn (lr_position r) own ?s2 = (y, t)" for y t
    proof (cases "rn_store rn")
      case None
      then show ?thesis using that next_kept [OF s2] by (auto simp: advance_checkpoint_def Let_def)
    next
      case (Some st)
      then show ?thesis using that active_ready_at_env [OF _ saves_keep [OF Some] next_kept [OF s2]]
        by (auto simp: advance_checkpoint_def Let_def)
    qed
    show ?thesis using assms(2) Some 1 Inr a next_kept [OF s2]
      by (auto simp: run_record_def Let_def remember_checkpoint_def split: if_splits)
  qed
qed

lemma run_single_ready:
  "active_ready good ready s \<Longrightarrow> run_single_record_shard rn own es s = (x, s') \<Longrightarrow> active_ready good ready s'"
proof (induction es arbitrary: s)
  case (Cons e es)
  show ?case
  proof (cases e)
    case (Received r)
    obtain y s1 where 1: "run_record rn own r s = (y, s1)" by fastforce
    have "active_ready good ready s1" by (rule run_record_ready [OF Cons.prems(1) 1])
    then show ?thesis using Cons.IH Cons.prems(2) Received 1 by (cases y) auto
  qed (use Cons in auto)
qed simp

lemma metrics_fold_ready:
  "active_ready good ready s \<Longrightarrow> active_ready good ready (foldl (\<lambda>s r. record_event_apply rn (lr_event r) s) s rs)"
  by (induction rs arbitrary: s) (simp_all add: record_metrics_ready)

lemma run_batched_ready:
  assumes "rn_applier rn = Some ap" "ra_batch ap = Some f"
  shows "active_ready good ready s \<Longrightarrow> run_batched_shard rn f own es s = (x, s') \<Longrightarrow> active_ready good ready s'"
proof (induction es arbitrary: s rule: measure_induct_rule [of length])
  case (less es)
  obtain c es' where c: "collect_record_batch (rn_batch_size rn) es = (c, es')" by fastforce
  note run = less.prems(2) [unfolded run_batched_shard.simps [of rn f own es s] c prod.case]
  show ?case
  proof (cases "\<exists>rs. c = Batch rs")
    case False
    then show ?thesis using run less.prems(1) by (cases c) auto
  next
    case True
    then obtain rs where rs: "c = Batch rs" by blast
    obtain y s1 where 1: "at_env (f rs own) s = (y, s1)" by fastforce
    have s1: "active_ready good ready s1" using active_ready_at_env [OF 1 batches_keep [OF assms] less.prems(1)] by simp
    let ?s2 = "remember_checkpoint (lr_position (last rs)) (foldl (\<lambda>s r. record_event_apply rn (lr_event r) s) s1 rs)"
    have s2: "active_ready good ready ?s2"
      using metrics_fold_ready [OF s1, of rs] by (simp add: active_ready_def remember_checkpoint_def)
    have lt: "length es' < length es" using collect_batch_length c rs by blast
    show ?thesis using run rs 1 record_metrics_ready [OF s1] less.IH [OF lt s2] by (cases y) auto
  qed
qed

lemma end_goroutine_ready:
  assumes "active_ready good ready s"
  shows "active_ready good ready (end_goroutine rn i err s)"
proof -
  let ?own = "go_ownership (nd_started s ! i)"
  let ?s0 = "s\<lparr>nd_started := (nd_started s)[i := (nd_started s ! i)\<lparr>go_ended := True\<rparr>]\<rparr>"
  have s0: "active_ready good ready ?s0" using assms by (simp add: active_ready_def)
  let ?s1 = "record_fencing_reject rn (ow_shard_id ?own) ?s0"
  have s1: "active_ready good ready ?s1" using record_metrics_ready [OF s0] by simp
  obtain b s2 where r: "remove_active_shard (ow_shard_id ?own) (ow_epoch ?own) ?s1 = (b, s2)" by fastforce
  have "map_of (nd_active s2) j \<noteq> None \<Longrightarrow> map_of (nd_active ?s1) j \<noteq> None" "nd_env s2 = nd_env ?s1" for j
    using r by (auto simp: remove_active_shard_def gomap_simps split: option.splits if_splits)
  then have s2: "active_ready good ready s2" using s1 by (simp add: active_ready_def)
  have "active_ready good ready (?s0\<lparr>nd_err_ch := x\<rparr>)" "active_ready good ready (s2\<lparr>nd_hooks := y\<rparr>)" for x y
    using s0 s2 by (simp_all add: active_ready_def)
  then show ?thesis using s0 s2 r by (cases err) (simp_all add: end_goroutine_def Let_def)
qed

text \<open>A late stop hook is harmless to every shard but its own.\<close>

lemma late_stop_hook_ready:
  assumes "active_ready good ready s" "map_of (nd_active s) k = None \<or> (\<forall>e. ready k e)"
  shows "active_ready good ready (late_stop_hook rn k s)"
proof -
  have "map_of (nd_active s) j \<noteq> None \<Longrightarrow> j \<noteq> k \<or> (\<forall>e. ready j e)" for j using assms(2) by auto
  then show ?thesis using assms(1) stop_keeps_others [of _ "nd_env s" k]
    by (cases "rn_on_stop rn") (fastforce simp: late_stop_hook_def stop_hook_def active_ready_def)+
qed

lemma node_step_ready:
  assumes "node_step rn s s'" "fair_order rn" "active_ready good ready s"
    and "\<forall>k \<in> set (nd_hooks s). map_of (nd_active s) k = None \<or> (\<forall>e. ready k e)"
  shows "active_ready good ready s'"
  using assms(1)
proof cases
  case (refresh r)
  then show ?thesis using refresh_once_ready assms(2,3) by blast
next
  case stop_all
  have "active_ready good ready (foldl (\<lambda>s k. stop_shard rn k s) s ks)" for ks
    using assms(3) by (induction ks arbitrary: s) (simp_all add: stop_shard_ready)
  then show ?thesis using stop_all by (simp add: stop_all_shards_def)
next
  case (works i es x)
  show ?thesis
  proof (cases "Option.bind (rn_applier rn) ra_batch")
    case None
    then show ?thesis using works(3) run_single_ready assms(3) by (simp add: run_dynamic_shard_def)
  next
    case (Some f)
    then obtain ap where "rn_applier rn = Some ap" "ra_batch ap = Some f" by (cases "rn_applier rn") auto
    then show ?thesis using works(3) Some run_batched_ready assms(3) by (simp add: run_dynamic_shard_def)
  qed
next
  case (returns i err)
  then show ?thesis using end_goroutine_ready assms(3) by simp
next
  case (late_stop k)
  then show ?thesis using late_stop_hook_ready assms(3,4) by simp
qed

lemma running_node_ready:
  assumes "(calm_step rn k)\<^sup>*\<^sup>* (new_node e) s" "fair_order rn" "good e" "\<And>j e. j \<noteq> k \<Longrightarrow> ready j e"
  shows "active_ready good ready s"
proof -
  have "active_ready good ready s \<and> (k \<in> set (nd_hooks s) \<longrightarrow> map_of (nd_active s) k = None)"
    using assms(1)
  proof (induction rule: rtranclp_induct)
    case base
    then show ?case using assms(3) by (simp add: active_ready_def new_node_def)
  next
    case (step s t)
    have "map_of (nd_active s) j = None \<or> (\<forall>e. ready j e)" if "j \<in> set (nd_hooks s)" for j
      using that step.IH assms(4) [of j] by (cases "j = k") simp_all
    then show ?case using node_step_ready [of s t] step assms(2) unfolding calm_step_def by blast
  qed
  then show ?thesis by blast
qed

end

section \<open>The node of the matcher worker\<close>

text \<open>The state is the database world with the index, and the rest (Kafka and etcd) as a parameter.\<close>

type_synonym 'x matcher_world = "(world \<times> istate) \<times> 'x"

definition at_db :: "(world, 'a) eff \<Rightarrow> ('x matcher_world, 'a) eff" where
  "at_db m = (\<lambda>((w, st), x). case m w of (r, w') \<Rightarrow> (r, ((w', st), x)))"

definition at_hook :: "(world \<times> istate, 'a) eff \<Rightarrow> ('x matcher_world, 'a) eff" where
  "at_hook m = (\<lambda>(p, x). case m p of (r, p') \<Rightarrow> (r, (p', x)))"

definition at_worker :: "(istate \<times> world, 'a) eff \<Rightarrow> ('x matcher_world, 'a) eff" where
  "at_worker m = (\<lambda>((w, st), x). case m (st, w) of (r, (st', w')) \<Rightarrow> (r, ((w', st'), x)))"

definition at_others :: "('x, 'a) eff \<Rightarrow> ('x matcher_world, 'a) eff" where
  "at_others m = (\<lambda>(p, x). case m x of (r, x') \<Rightarrow> (r, (p, x')))"

record matcher_flags =
  mf_node_id :: int
  mf_riders :: int
  mf_seed :: int
  mf_refresh_interval :: int
  mf_membership_ttl :: int
  mf_etcd_endpoints :: string
  mf_etcd_prefix :: string
  mf_kafka_brokers :: string
  mf_match_topic :: string
  mf_postgres_url :: string
  mf_candidate_limit :: int
  mf_max_rider_orders :: int

text \<open>
  What is not of this code: the JSON codec, the random source, the orders in which maps are ranged
  over, and the clock.
\<close>

record 'x matcher_parts =
  mo_codec :: codec
  mo_rng :: "int \<Rightarrow> nat \<Rightarrow> int \<Rightarrow> int"
  mo_ranging :: ranging
  mo_now :: "'x matcher_world \<Rightarrow> int"
  mo_order :: "int list \<Rightarrow> int list"

definition matcher_worker_config :: "matcher_flags \<Rightarrow> worker_config" where
  "matcher_worker_config f = worker_defaults
     \<lparr>wc_node_id = mf_node_id f, wc_candidate_limit = mf_candidate_limit f, wc_max_rider_orders = mf_max_rider_orders f, wc_topic = mf_match_topic f\<rparr>"

text \<open>The worker handles records with their position and nothing else.\<close>

definition matcher_applier :: "'x matcher_parts \<Rightarrow> matcher_flags \<Rightarrow> env \<Rightarrow> 'x matcher_world record_applier" where
  "matcher_applier mp f en =
     \<lparr>ra_apply = (\<lambda>ev. throw (ErrMsg ''matcher worker requires a record with Kafka position'' [])), ra_fenced = None,
      ra_record = Some (\<lambda>r own. at_worker (worker_apply_record en (mo_ranging mp) (mo_codec mp) (matcher_worker_config f) r own)),
      ra_batch = None\<rparr>"

definition matcher_checkpoints :: "env \<Rightarrow> matcher_flags \<Rightarrow> 'x matcher_world cp_ops" where
  "matcher_checkpoints en f =
     (let st = postgres_cp_ops en ConsumerMatcherWorker (mf_match_topic f)
      in \<lparr>cs_save = (\<lambda>c. at_db (cs_save st c)), cs_load = (\<lambda>k. at_db (cs_load st k))\<rparr>)"

definition matcher_runner ::
  "'x matcher_parts \<Rightarrow> matcher_flags \<Rightarrow> 'x store_ops \<Rightarrow> env \<Rightarrow> (position \<Rightarrow> ('x, unit) eff) \<Rightarrow> 'x matcher_world runner" where
  "matcher_runner mp f ops en tail_from =
     set_shard_lifecycle_hooks
       (Some (\<lambda>k. at_hook (matcher_start_hook en (mo_rng mp) (mf_seed f) (mf_riders f) k)))
       (Some (\<lambda>k (p, x). (matcher_stop_hook k p, x)))
       (set_refresh_interval (mf_refresh_interval f)
         (runner_defaults
           \<lparr>rn_id = mf_node_id f, rn_shards_for_node = (\<lambda>n. at_others (so_shards_for_node ops n)),
            rn_owner_of = Some (\<lambda>k. at_others (so_owner_of ops k)), rn_tail_from = (\<lambda>p. at_others (tail_from p)),
            rn_applier = Some (matcher_applier mp f en), rn_store = Some (matcher_checkpoints en f), rn_metrics = None,
            rn_on_start = None, rn_on_stop = None, rn_refresh_interval = 0, rn_batch_size = 0, rn_batch_wait = 0,
            rn_now = mo_now mp, rn_order = mo_order mp\<rparr>))"

lemma matcher_runner_fields:
  "rn_shards_for_node (matcher_runner mp f ops en tail_from) n = at_others (so_shards_for_node ops n)"
  "rn_tail_from (matcher_runner mp f ops en tail_from) p = at_others (tail_from p)"
  "rn_applier (matcher_runner mp f ops en tail_from) = Some (matcher_applier mp f en)"
  "rn_store (matcher_runner mp f ops en tail_from) = Some (matcher_checkpoints en f)"
  "rn_metrics (matcher_runner mp f ops en tail_from) = None"
  "rn_on_start (matcher_runner mp f ops en tail_from) = Some (\<lambda>k. at_hook (matcher_start_hook en (mo_rng mp) (mf_seed f) (mf_riders f) k))"
  "rn_on_stop (matcher_runner mp f ops en tail_from) = Some (\<lambda>k (p, x). (matcher_stop_hook k p, x))"
  "rn_id (matcher_runner mp f ops en tail_from) = mf_node_id f" "rn_order (matcher_runner mp f ops en tail_from) = mo_order mp"
  by (simp_all add: matcher_runner_def set_shard_lifecycle_hooks_def set_refresh_interval_def runner_defaults_def)

section \<open>The riders of the shards it works on\<close>

definition fleet_ok :: "'x matcher_parts \<Rightarrow> matcher_flags \<Rightarrow> 'x matcher_world \<Rightarrow> bool" where
  "fleet_ok mp f = (\<lambda>((w, st), x). idx_wf st \<and> homed (mo_rng mp) (mf_seed f) (mf_riders f) (snd st) \<and>
     ix_layout (snd st) = ix_layout (matcher_index (automatic_cell_size areaSize (mf_riders f))))"

definition lives :: "'x matcher_parts \<Rightarrow> matcher_flags \<Rightarrow> int \<Rightarrow> int \<Rightarrow> bool" where
  "lives mp f k u \<longleftrightarrow> 1 \<le> u \<and> u \<le> mf_riders f \<and>
     home (mo_rng mp) (mf_seed f) (ix_layout (matcher_index (automatic_cell_size areaSize (mf_riders f)))) u = k"

definition shard_loaded :: "'x matcher_parts \<Rightarrow> matcher_flags \<Rightarrow> int \<Rightarrow> 'x matcher_world \<Rightarrow> bool" where
  "shard_loaded mp f k = (\<lambda>((w, st), x). valid_shard (snd st) k \<longrightarrow> active_shard (snd st) k \<and>
     (\<forall>u. lives mp f k u \<longrightarrow> (let r = rider_at (mo_rng mp) (mf_seed f) areaSize (u - 1)
        in \<exists>c. idx_view st u = Some (k, r_x r, r_y r, c))))"

text \<open>Only the index matters.\<close>

lemma fleet_of_index: "kept (fleet_ok mp f) (shard_loaded mp f) ((w, st), x) ((w', st), x')"
  by (simp add: kept_def fleet_ok_def shard_loaded_def)

lemma keeping_at_others: "keeping (fleet_ok mp f) (shard_loaded mp f) (at_others m)"
  by (auto simp: keeping_def at_others_def split: prod.split intro: fleet_of_index)

lemma keeping_at_db: "keeping (fleet_ok mp f) (shard_loaded mp f) (at_db m)"
  by (auto simp: keeping_def at_db_def split: prod.split intro: fleet_of_index)

text \<open>A new count changes no position.\<close>

lemma set_count_index:
  assumes "idx_wf st"
  shows "idx_wf (set_rider_count u n st)" "snd (set_rider_count u n st) = snd st"
    "idx_view (set_rider_count u n st) v = (case idx_view st v of None \<Rightarrow> None | Some (k, a, b, c) \<Rightarrow> Some (k, a, b, if v = u then n else c))"
proof -
  obtain h i where st: "st = (h, i)" by fastforce
  note W = idx_wfD [OF assms [unfolded st]]
  show "snd (set_rider_count u n st) = snd st" by (simp add: set_rider_count_def st split: option.split)
  define bump where "bump p = h[p := (h ! p)\<lparr>r_count := n\<rparr>]" for p
  have upd: "h[p := x] ! q = (if q = p \<and> p < length h then x else h ! q)" for p q x
    by (cases "p < length h") (simp_all add: nth_list_update list_update_beyond)
  have same: "r_uid (bump p ! q) = r_uid (h ! q)" "r_x (bump p ! q) = r_x (h ! q)" "r_y (bump p ! q) = r_y (h ! q)"
    "r_online (bump p ! q) = r_online (h ! q)" "r_cell_id (bump p ! q) = r_cell_id (h ! q)" "length (bump p) = length h" for p q
    unfolding bump_def by (simp_all add: upd)
  have g: "grid_wf (bump p) g = grid_wf h g" for p g
    unfolding grid_wf_def grid_struct_def grid_coherent_def same ..
  have S: "set_rider_count u n st = (case ix_riders i u of None \<Rightarrow> st | Some p \<Rightarrow> (bump p, i))"
    by (simp add: set_rider_count_def st bump_def split: option.split)
  have "idx_wf (bump p, i) = idx_wf (h, i)" for p unfolding idx_wf_def prod.case same g ..
  then show "idx_wf (set_rider_count u n st)" using assms unfolding S unfolding st by (simp split: option.split)
  show "idx_view (set_rider_count u n st) v = (case idx_view st v of None \<Rightarrow> None | Some (k, a, b, c) \<Rightarrow> Some (k, a, b, if v = u then n else c))"
  proof (cases "ix_rider_shards i v")
    case None
    then show ?thesis unfolding S unfolding st idx_view_def by (simp split: option.split)
  next
    case (Some k)
    obtain q where q: "ix_riders i v = Some q" using W(5) [of v] Some by auto
    have v: "idx_view (g, i) v = Some (k, r_x (g ! q), r_y (g ! q), r_count (g ! q))" for g by (simp add: idx_view_def Some q)
    show ?thesis
    proof (cases "ix_riders i u")
      case None
      then have "v \<noteq> u" using q by auto
      then show ?thesis unfolding S None option.case unfolding st v prod.case by simp
    next
      case u: (Some p)
      have c: "r_count (bump p ! q) = (if v = u then n else r_count (h ! q))"
      proof (cases "v = u")
        case True
        then show ?thesis using u q W(2) [OF q] by (simp add: bump_def)
      next
        case False
        then have "q \<noteq> p" using W(3) [OF q] W(3) [OF u] by auto
        then show ?thesis using False by (simp add: bump_def)
      qed
      show ?thesis unfolding S u option.case unfolding st v prod.case option.case same c ..
    qed
  qed
qed

lemma worker_index:
  "fst (snd (worker_apply_record en it cd cfg r own (st, w))) = st \<or>
   (\<exists>u n. fst (snd (worker_apply_record en it cd cfg r own (st, w))) = set_rider_count u n st)"
proof -
  obtain q w1 where 1: "worker_check_fence en cfg (ev_shard_id (lr_event r)) own w = (q, w1)" by fastforce
  show ?thesis
  proof (cases "ev_type (lr_event r) = EventMatchRequested \<and> q = Inr () \<and> request_of it cd cfg r st \<noteq> None")
    case False
    then show ?thesis using 1 unfolding worker_apply_record_def request_of_def
      by (cases q) (auto split: sum.splits option.splits)
  next
    case True
    then obtain req cands where rq: "request_of it cd cfg r st = Some (req, cands)" by auto
    obtain q2 w2 where 2: "match_transaction en cd cfg r own req cands w1 = (q2, w2)" by fastforce
    show ?thesis
    proof (cases q2)
      case (Inl err)
      then show ?thesis using 1 2 True rq unfolding worker_apply_record_def request_of_def by (simp split: sum.splits option.splits)
    next
      case (Inr x)
      then show ?thesis using 1 2 True rq unfolding worker_apply_record_def request_of_def
        by (cases x) (simp split: sum.splits option.splits, blast)
    qed
  qed
qed

lemma keeping_worker:
  "keeping (fleet_ok mp f) (shard_loaded mp f) (at_worker (worker_apply_record en it cd cfg r own) :: ('x matcher_world, unit) eff)"
  unfolding keeping_def
proof
  fix e :: "'x matcher_world"
  obtain w st x where e: "e = ((w, st), x)" by (metis prod.exhaust)
  obtain q st' w' where q: "worker_apply_record en it cd cfg r own (st, w) = (q, (st', w'))" by (metis prod.exhaust)
  have "st' = st \<or> (\<exists>u n. st' = set_rider_count u n st)"
    using worker_index [of en it cd cfg r own st w] unfolding q by simp
  then show "kept (fleet_ok mp f) (shard_loaded mp f) e (snd (at_worker (worker_apply_record en it cd cfg r own) e))"
  proof
    assume "st' = st"
    then show ?thesis by (simp add: e at_worker_def q fleet_of_index)
  next
    assume "\<exists>u n. st' = set_rider_count u n st"
    then obtain u n where st': "st' = set_rider_count u n st" by blast
    show ?thesis unfolding kept_def
    proof
      assume g: "fleet_ok mp f e"
      then have wf: "idx_wf st" by (simp add: fleet_ok_def e)
      note S = set_count_index [OF wf, of u n, folded st']
      have "homed rng seed m (snd st') \<longleftrightarrow> homed rng seed m (snd st)" for rng seed m by (simp add: S(2))
      moreover have "shard_loaded mp f k ((w, st), x) \<longrightarrow> shard_loaded mp f k ((w', st'), x)" for k
        by (auto simp: shard_loaded_def S(2,3) Let_def)
      ultimately show "fleet_ok mp f (snd (at_worker (worker_apply_record en it cd cfg r own) e)) \<and>
          (\<forall>k. shard_loaded mp f k e \<longrightarrow> shard_loaded mp f k (snd (at_worker (worker_apply_record en it cd cfg r own) e)))"
        using g S(1,2) by (simp add: e at_worker_def q fleet_ok_def)
    qed
  qed
qed

text \<open>The hooks.\<close>

lemma replace_shard_active:
  "j \<noteq> k \<Longrightarrow> 0 \<le> j \<Longrightarrow> active_shard (snd (replace_shard k ps (h, i))) j = active_shard i j"
  "valid_shard (snd (replace_shard k ps (h, i))) j = valid_shard i j"
  by (auto simp: replace_shard_def new_matcher_def Let_def active_shard_def valid_shard_def register_riders_maps forget_shard_def nth_list_update split: prod.split)

lemma remove_shard_active:
  "j \<noteq> k \<Longrightarrow> 0 \<le> j \<Longrightarrow> active_shard (snd (remove_shard k (h, i))) j = active_shard i j"
  "valid_shard (snd (remove_shard k (h, i))) j = valid_shard i j" "ix_layout (snd (remove_shard k (h, i))) = ix_layout i"
  by (auto simp: remove_shard_def active_shard_def valid_shard_def forget_shard_def nth_list_update)

lemma start_hook_loads:
  fixes e :: "'x matcher_world"
  assumes g: "fleet_ok mp f e" and e': "at_hook (matcher_start_hook en (mo_rng mp) (mf_seed f) (mf_riders f) k) e = (r, e')"
  shows "fleet_ok mp f e' \<and> (\<forall>j. j \<noteq> k \<longrightarrow> shard_loaded mp f j e \<longrightarrow> shard_loaded mp f j e') \<and> shard_loaded mp f k e'"
proof -
  obtain w h i x where e: "e = ((w, (h, i)), x)" by (metis prod.exhaust)
  let ?rs = "riders_for_shard (mo_rng mp) (mf_seed f) [0..mf_riders f - 1] areaSize (ix_layout i) k"
  define st where "st = replace_shard k [length h..<length h + length ?rs] (h @ ?rs, i)"
  obtain w' where m: "matcher_start_hook en (mo_rng mp) (mf_seed f) (mf_riders f) k (w, (h, i)) = (r, (w', st))" "e' = ((w', st), x)"
    using e' by (auto simp: e st_def at_hook_def matcher_start_hook_def Let_def split: prod.splits)
  have I: "idx_wf (h, i)" "homed (mo_rng mp) (mf_seed f) (mf_riders f) i" "ix_layout i = ix_layout (matcher_index (automatic_cell_size areaSize (mf_riders f)))"
    using g by (simp_all add: fleet_ok_def e)
  have l: "ix_layout (snd st) = ix_layout i" by (simp add: st_def replace_shard_layout)
  have mine: "lives mp f j u \<longleftrightarrow> 1 \<le> u \<and> u \<le> mf_riders f \<and> home (mo_rng mp) (mf_seed f) (ix_layout i) u = j" for j u
    by (simp add: lives_def I(3))
  show ?thesis
  proof (cases "valid_shard i k")
    case False
    then have st: "st = (h @ ?rs, i)" by (simp add: st_def replace_shard_def)
    have "shard_loaded mp f j e \<longrightarrow> shard_loaded mp f j e'" for j
      unfolding shard_loaded_def e m(2) st prod.case idx_grow(2) [OF I(1)] by simp
    moreover have "fleet_ok mp f e'" using I(2,3) idx_grow(1) [OF I(1)] unfolding fleet_ok_def m(2) st prod.case by simp
    moreover have "shard_loaded mp f k e'" using False by (simp add: shard_loaded_def m(2) st)
    ultimately show ?thesis by blast
  next
    case True
    note R = start_hook_effect [OF I(1) True I(2) m(1), unfolded Let_def]
    have V: "idx_view st u = (if lives mp f k u then Some (k, r_x (rider_at (mo_rng mp) (mf_seed f) areaSize (u - 1)),
        r_y (rider_at (mo_rng mp) (mf_seed f) areaSize (u - 1)), 0) else idx_view (h, i) u)" for u
      using R unfolding mine mem_Collect_eq by blast
    have "fleet_ok mp f e'" using R I(3) by (simp add: fleet_ok_def m(2) l)
    moreover have "shard_loaded mp f k e'" using conjunct1 [OF conjunct2 [OF conjunct2 [OF R]]] V by (simp add: shard_loaded_def m(2) Let_def)
    moreover have "shard_loaded mp f j e'" if j: "j \<noteq> k" "shard_loaded mp f j e" for j
    proof -
      have "lives mp f j u \<Longrightarrow> \<not> lives mp f k u" for u using j(1) by (simp add: lives_def)
      then have "lives mp f j u \<Longrightarrow> idx_view st u = idx_view (h, i) u" for u using V by simp
      moreover have "valid_shard (snd st) j = valid_shard i j" by (simp add: st_def replace_shard_active(2))
      moreover have "valid_shard i j \<Longrightarrow> active_shard (snd st) j = active_shard i j"
        unfolding st_def by (rule replace_shard_active(1) [OF j(1)]) (simp add: valid_shard_def)
      ultimately show ?thesis using j(2) by (simp add: shard_loaded_def e m(2) Let_def)
    qed
    ultimately show ?thesis by blast
  qed
qed

lemma stop_hook_unloads:
  fixes e :: "'x matcher_world"
  assumes g: "fleet_ok mp f e" and e': "e' = (case e of (p, x) \<Rightarrow> (matcher_stop_hook k p, x))"
  shows "fleet_ok mp f e' \<and> (\<forall>j. j \<noteq> k \<longrightarrow> shard_loaded mp f j e \<longrightarrow> shard_loaded mp f j e')"
proof -
  obtain w h i x where e: "e = ((w, (h, i)), x)" by (metis prod.exhaust)
  let ?st = "remove_shard k (h, i)"
  have e': "e' = ((w, ?st), x)" by (simp add: e' e matcher_stop_hook_def)
  have I: "idx_wf (h, i)" "homed (mo_rng mp) (mf_seed f) (mf_riders f) i" "ix_layout i = ix_layout (matcher_index (automatic_cell_size areaSize (mf_riders f)))"
    using g by (simp_all add: fleet_ok_def e)
  show ?thesis
  proof (cases "valid_shard i k")
    case False
    then have "e' = e" by (simp add: e e' remove_shard_def)
    then show ?thesis using g by simp
  next
    case True
    have "matcher_stop_hook k (w, (h, i)) = (w, ?st)" by (simp add: matcher_stop_hook_def)
    note R = stop_hook_ok [OF I(1) _ _ this, unfolded snd_conv, OF True I(2)]
    have "shard_loaded mp f j e'" if j: "j \<noteq> k" "shard_loaded mp f j e" for j
    proof -
      have "idx_view ?st u = Some (j, y)" if "idx_view (h, i) u = Some (j, y)" for u y using R that j(1) by simp
      moreover have "valid_shard i j \<Longrightarrow> active_shard (snd ?st) j = active_shard i j"
        by (rule remove_shard_active(1) [OF j(1)]) (simp add: valid_shard_def)
      ultimately show ?thesis using j(2)
        by (simp add: shard_loaded_def e e' Let_def remove_shard_active(2)) blast
    qed
    then show ?thesis using R I(3) by (simp add: fleet_ok_def e' remove_shard_active(3))
  qed
qed

text \<open>The contract of the life cycle, for one shard.\<close>

definition serves :: "'x matcher_parts \<Rightarrow> matcher_flags \<Rightarrow> int \<Rightarrow> int \<Rightarrow> 'x matcher_world \<Rightarrow> bool" where
  "serves mp f k j e \<longleftrightarrow> (j = k \<longrightarrow> shard_loaded mp f j e)"

lemma keeping_serves: "keeping (fleet_ok mp f) (shard_loaded mp f) m \<Longrightarrow> keeping (fleet_ok mp f) (serves mp f k) m"
  by (auto simp: keeping_def kept_def serves_def)

interpretation mn: shard_lifecycle "matcher_runner mp f ops en tail_from" "fleet_ok mp f" "serves mp f k"
proof
  show "keeping (fleet_ok mp f) (serves mp f k) (runner_apply_record (matcher_runner mp f ops en tail_from) ap r own)"
    if "rn_applier (matcher_runner mp f ops en tail_from) = Some ap" for ap r own
    using that by (auto simp: matcher_runner_fields matcher_applier_def runner_apply_record_def intro!: keeping_serves keeping_ebind keeping_worker)
  show "\<exists>h. rn_on_start (matcher_runner mp f ops en tail_from) = Some h \<and> (case h l e of (r, e') \<Rightarrow> fleet_ok mp f e' \<and>
      (\<forall>j. j \<noteq> l \<longrightarrow> serves mp f k j e \<longrightarrow> serves mp f k j e') \<and> (r = Inr () \<longrightarrow> serves mp f k l e'))"
    if "fleet_ok mp f e" for e l
    using start_hook_loads [OF that] by (auto simp: matcher_runner_fields serves_def split: prod.split)
  show "fleet_ok mp f (g l e) \<and> (\<forall>j. j \<noteq> l \<longrightarrow> serves mp f k j e \<longrightarrow> serves mp f k j (g l e))"
    if "rn_on_stop (matcher_runner mp f ops en tail_from) = Some g" "fleet_ok mp f e" for g l e
    using that(1) stop_hook_unloads [OF that(2) refl] by (auto simp: matcher_runner_fields serves_def)
qed (auto simp: matcher_runner_fields matcher_checkpoints_def matcher_applier_def Let_def keeping_serves keeping_at_others keeping_at_db)

lemma fleet_path:
  assumes "\<And>xs. mset (mo_order mp xs) = mset xs"
    and "(calm_step (matcher_runner mp f ops en tail_from) k)\<^sup>*\<^sup>*
      (new_node ((w, (h, matcher_index (automatic_cell_size areaSize (mf_riders f)))), x)) s"
  shows "active_ready (fleet_ok mp f) (serves mp f k) s"
proof -
  have "fleet_ok mp f ((w, (h, matcher_index (automatic_cell_size areaSize (mf_riders f)))), x)"
    using matcher_index_ok [OF cell_size_fits] by (simp add: fleet_ok_def)
  moreover have "fair_order (matcher_runner mp f ops en tail_from)" using assms(1) by (simp add: fair_order_def matcher_runner_fields)
  moreover have "serves mp f k j e" if "j \<noteq> k" for j and e :: "'a matcher_world" using that by (simp add: serves_def)
  ultimately show ?thesis using mn.running_node_ready [OF assms(2)] by blast
qed

text \<open>
  Property C27: while the matcher worker program runs, whatever its main loop, its shard goroutines and the
  answers of etcd, Kafka and Postgres do and in whatever order, a shard it works on is active in the
  index, and the index holds of this shard exactly the riders of the fleet that live there, each at its
  position; a request is not matched against a shard whose riders were not loaded. This needs that no
  refresh has started the shard again between its removal from \<open>active\<close>, by a goroutine that lost its
  fence, and that goroutine's late call of the stop hook: the code releases its mutex in between, and
  \<open>late_stop_unloads_active_shard\<close> shows what happens then. The other shards may race as they like.
\<close>

theorem matcher_serves_loaded_shards:
  assumes "\<And>xs. mset (mo_order mp xs) = mset xs"
    and "(calm_step (matcher_runner mp f ops en tail_from) k)\<^sup>*\<^sup>*
      (new_node ((w, (h, matcher_index (automatic_cell_size areaSize (mf_riders f)))), x)) s"
    and "map_of (nd_active s) k = Some sw" "0 \<le> k" "k < shardCount" "nd_env s = ((w', st), x')"
  shows "active_shard (snd st) k \<and>
    (\<forall>u a b. (\<exists>c. idx_view st u = Some (k, a, b, c)) \<longleftrightarrow>
       (let r = rider_at (mo_rng mp) (mf_seed f) areaSize (u - 1)
        in 1 \<le> u \<and> u \<le> mf_riders f \<and> a = r_x r \<and> b = r_y r \<and>
           shard_id (ix_layout (matcher_index (automatic_cell_size areaSize (mf_riders f)))) a b = k))"
proof -
  let ?i = "matcher_index (automatic_cell_size areaSize (mf_riders f))"
  note R = fleet_path [OF assms(1,2)]
  have wf: "idx_wf st" "homed (mo_rng mp) (mf_seed f) (mf_riders f) (snd st)" and l: "ix_layout (snd st) = ix_layout ?i"
    using R assms(6) by (simp_all add: active_ready_def fleet_ok_def)
  obtain g i where st: "st = (g, i)" by fastforce
  have "idx_shape i" using idx_wfD(1) wf(1) st by blast
  moreover have "l_shard_count (ix_layout ?i) = shardCount" by (simp add: matcher_index_def shardCount_def new_index_def Let_def new_layout_def)
  ultimately have "valid_shard (snd st) k" using assms(4,5) l by (simp add: st idx_shape_def valid_shard_def)
  then have L: "active_shard (snd st) k" "lives mp f k u \<Longrightarrow> \<exists>c. idx_view st u = Some (k, r_x (rider_at (mo_rng mp) (mf_seed f) areaSize (u - 1)),
      r_y (rider_at (mo_rng mp) (mf_seed f) areaSize (u - 1)), c)" for u
    using R assms(3,6) by (auto simp: active_ready_def serves_def shard_loaded_def Let_def)
  have H: "lives mp f k u" if "idx_view st u = Some (k, y)" for u y
    using wf(2) that unfolding homed_view [OF wf(1)] lives_def l by (metis prod.exhaust)
  have "(\<exists>c. idx_view st u = Some (k, a, b, c)) \<longleftrightarrow> lives mp f k u \<and> a = r_x (rider_at (mo_rng mp) (mf_seed f) areaSize (u - 1)) \<and>
      b = r_y (rider_at (mo_rng mp) (mf_seed f) areaSize (u - 1))" for u a b
    using H [of u] L(2) [of u] by auto
  then show ?thesis using L(1) by (auto simp: lives_def home_def Let_def)
qed

text \<open>A node that owns shard 0, a fleet of 2000 riders, and calls that all go well.\<close>

definition ref_parts :: "unit matcher_parts" where
  "ref_parts = \<lparr>mo_codec = seven_codec, mo_rng = tens, mo_ranging = (\<lambda>cs. cs), mo_now = (\<lambda>_. 0), mo_order = (\<lambda>ks. ks)\<rparr>"

definition ref_flags :: matcher_flags where
  "ref_flags = \<lparr>mf_node_id = 1, mf_riders = 2000, mf_seed = 1, mf_refresh_interval = 1, mf_membership_ttl = 5,
     mf_etcd_endpoints = ''e:2379'', mf_etcd_prefix = ''/testp'', mf_kafka_brokers = ''k:9092'', mf_match_topic = TopicMatchRequests,
     mf_postgres_url = ''postgres'', mf_candidate_limit = 10, mf_max_rider_orders = 3\<rparr>"

definition ref_owner :: ownership where
  "ref_owner = \<lparr>ow_shard_id = 0, ow_node_id = 1, ow_epoch = 1\<rparr>"

definition ref_matcher :: "unit matcher_world runner" where
  "ref_matcher = matcher_runner ref_parts ref_flags
     \<lparr>so_owner_of = (\<lambda>k. ret (Some ref_owner)), so_shards_for_node = (\<lambda>n. ret [ref_owner]), so_assign = (\<lambda>k n. ret ()), so_all_ownerships = ret [ref_owner]\<rparr>
     (calm ref_owner) (\<lambda>p. ret ())"

definition ref_first :: "unit matcher_world node" where
  "ref_first = new_node ((ref_busy, ([], matcher_index 10000)), ())"

lemma ref_path:
  assumes "(calm_step ref_matcher k)\<^sup>*\<^sup>* ref_first s"
  shows "active_ready (fleet_ok ref_parts ref_flags) (serves ref_parts ref_flags k) s"
proof -
  have "mset (mo_order ref_parts xs) = mset xs" for xs by (simp add: ref_parts_def)
  moreover have "ref_first = new_node ((ref_busy, ([], matcher_index (automatic_cell_size areaSize (mf_riders ref_flags)))), ())"
    by (simp add: ref_first_def ref_flags_def cell_size_2000)
  ultimately show ?thesis using fleet_path [of ref_parts ref_flags] assms unfolding ref_matcher_def by metis
qed

lemma ref_order: "rn_order ref_matcher xs = xs"
  by (simp add: ref_matcher_def matcher_runner_fields ref_parts_def)

lemma ref_refresh:
  assumes "nd_active s = []"
  shows "\<exists>s' offset. refresh_once ref_matcher s = (Inr (), s') \<and>
    nd_active s' = [(0, \<lparr>sw_shard_id = 0, sw_epoch = 1, sw_cancel = length (nd_started s)\<rparr>)] \<and>
    nd_started s' = nd_started s @ [\<lparr>go_ownership = ref_owner, go_offset = offset, go_cancelled = False, go_ended = False\<rparr>] \<and>
    nd_hooks s' = nd_hooks s"
proof -
  obtain w h0 i0 where e: "nd_env s = ((w, (h0, i0)), ())" by (metis prod.exhaust old.unit.exhaust)
  have "\<exists>y. postgres_load_checkpoint (calm ref_owner) ConsumerMatcherWorker (mf_match_topic ref_flags) 0 w = (Inr y, tick w)"
    by (cases "tb_checkpoints (w_db w) (ConsumerMatcherWorker, mf_match_topic ref_flags, wrap32 0)")
      (simp_all add: postgres_load_checkpoint_def auto_commit_def calm_def get_shard_checkpoint_def tick_def)
  then obtain y where l: "postgres_load_checkpoint (calm ref_owner) ConsumerMatcherWorker (mf_match_topic ref_flags) 0 w = (Inr y, tick w)" by blast
  obtain r e' where h: "matcher_start_hook (calm ref_owner) tens 1 2000 0 (tick w, (h0, i0)) = (r, e')" by (metis prod.exhaust)
  then have "r = Inr ()" using start_hook_calm [OF h] by (cases r) simp_all
  let ?w = "\<lparr>sw_shard_id = 0, sw_epoch = 1, sw_cancel = length (nd_started s)\<rparr>"
  let ?off = "case y of None \<Rightarrow> nd_next s 0 | Some c \<Rightarrow> sc_offset c"
  let ?g = "\<lparr>go_ownership = ref_owner, go_offset = ?off, go_cancelled = False, go_ended = False\<rparr>"
  define s1 where "s1 = s\<lparr>nd_next := (nd_next s)(0 := ?off), nd_active := [(0, ?w)], nd_started := nd_started s @ [?g], nd_env := (e', ())\<rparr>"
  have load: "load_shard_checkpoint ref_matcher 0 s = (Inr ?off, s\<lparr>nd_env := ((tick w, (h0, i0)), ())\<rparr>)"
    by (cases y) (simp_all add: load_shard_checkpoint_def ref_matcher_def matcher_runner_fields matcher_checkpoints_def postgres_cp_ops_def at_db_def at_env_def
      ebind_def ret_def e l Let_def)
  have start: "start_hook ref_matcher 0 (s\<lparr>nd_env := ((tick w, (h0, i0)), ())\<rparr>) = (Inr (), s\<lparr>nd_env := (e', ())\<rparr>)"
    using h \<open>r = Inr ()\<close> by (simp add: start_hook_def ref_matcher_def matcher_runner_fields at_hook_def at_env_def ref_flags_def ref_parts_def)
  have tail: "at_env (rn_tail_from ref_matcher p) t = (Inr (), t)" for p and t :: "unit matcher_world node"
    by (cases "nd_env t") (simp add: ref_matcher_def matcher_runner_fields at_others_def at_env_def)
  have "start_shard ref_matcher ref_owner s = (Inr (), s1)"
    using assms by (simp add: start_shard_def load start tail ref_owner_def Let_def s1_def)
  moreover have "at_env (rn_shards_for_node ref_matcher (rn_id ref_matcher)) s = (Inr [ref_owner], s)"
    using e by (simp add: ref_matcher_def matcher_runner_fields at_others_def at_env_def)
  ultimately have "refresh_once ref_matcher s = (Inr (), s1)"
    using assms by (simp add: refresh_once_def desired_shards_def refresh_shard_def ref_order s1_def ref_owner_def)
  then show ?thesis by (intro exI [of _ s1] exI [of _ ?off]) (simp add: s1_def)
qed

theorem matcher_serves_loaded_shards_witness:
  "\<exists>w st. nd_env (snd (refresh_once ref_matcher ref_first)) = ((w, st), ()) \<and> active_shard (snd st) 0 \<and> (\<exists>c. idx_view st 2 = Some (0, 20, 30, c))"
proof -
  let ?s = "snd (refresh_once ref_matcher ref_first)"
  obtain w st where e: "nd_env ?s = ((w, st), ())" by (metis prod.exhaust old.unit.exhaust)
  have first: "nd_active ref_first = []" "nd_hooks ref_first = []" by (simp_all add: ref_first_def new_node_def)
  obtain sw where sw: "map_of (nd_active ?s) 0 = Some sw" and "nd_hooks ?s = []" using ref_refresh [OF first(1)] first(2) by auto
  moreover have "node_step ref_matcher ref_first ?s" by (rule node_step.refresh [OF prod.collapse [symmetric]])
  ultimately have "calm_step ref_matcher 0 ref_first ?s" by (simp add: calm_step_def)
  then have reach: "(calm_step ref_matcher 0)\<^sup>*\<^sup>* (new_node ((ref_busy, ([], matcher_index (automatic_cell_size areaSize (mf_riders ref_flags)))), ())) ?s"
    by (simp add: ref_first_def ref_flags_def cell_size_2000 r_into_rtranclp)
  have fits: "mset (mo_order ref_parts xs) = mset xs" for xs
    by (simp add: ref_parts_def)
  note M = matcher_serves_loaded_shards [OF fits reach [unfolded ref_matcher_def] sw [unfolded ref_matcher_def] _ _ e [unfolded ref_matcher_def]]
  have "ix_layout (matcher_index 10000) = new_layout 100000 10000 64"
    by (simp add: matcher_index_def new_index_def areaSize_def shardCount_def)
  then have "shard_id (ix_layout (matcher_index 10000)) 20 30 = 0" by (simp add: shard_id_default)
  then have "active_shard (snd st) 0 \<and> (\<exists>c. idx_view st 2 = Some (0, 20, 30, c))"
    using M by (simp add: shardCount_def ref_parts_def ref_flags_def cell_size_2000 rider_at_def Let_def)
  then show ?thesis using e by blast
qed

text \<open>
  A goroutine of shard 0 loses its fence and removes the shard; before it calls the stop hook, a refresh
  starts the shard again; the late call then takes the shard's riders out of the index, and the node
  works on a shard that is not active in the index.
\<close>

lemma late_stop_unloads_active_shard:
  "\<exists>s w st. (node_step ref_matcher)\<^sup>*\<^sup>* ref_first s \<and> map_of (nd_active s) 0 \<noteq> None \<and> nd_env s = ((w, st), ()) \<and> \<not> active_shard (snd st) 0"
proof -
  have f: "nd_active ref_first = []" "nd_started ref_first = []" "nd_hooks ref_first = []" by (simp_all add: ref_first_def new_node_def)
  obtain s1 offset where 1: "refresh_once ref_matcher ref_first = (Inr (), s1)"
    "nd_active s1 = [(0, \<lparr>sw_shard_id = 0, sw_epoch = 1, sw_cancel = 0\<rparr>)]"
    "nd_started s1 = [\<lparr>go_ownership = ref_owner, go_offset = offset, go_cancelled = False, go_ended = False\<rparr>]" "nd_hooks s1 = []"
    using ref_refresh [OF f(1)] f(2,3) by auto
  define s2 where "s2 = end_goroutine ref_matcher 0 (Some ErrOwnershipFenceLost) s1"
  have stop: "rn_on_stop ref_matcher \<noteq> None" and metrics: "rn_metrics ref_matcher = None" by (simp_all add: ref_matcher_def matcher_runner_fields)
  have 2: "nd_active s2 = []" "nd_hooks s2 = [0]"
    unfolding s2_def using 1(2-4) stop metrics by (simp_all add: end_goroutine_def Let_def remove_active_shard_def ref_owner_def record_fencing_reject_def split: option.splits)
  obtain s3 where 3: "refresh_once ref_matcher s2 = (Inr (), s3)" "map_of (nd_active s3) 0 \<noteq> None" "nd_hooks s3 = [0]"
    using ref_refresh [OF 2(1)] 2(2) by auto
  define s4 where "s4 = late_stop_hook ref_matcher 0 s3"
  have steps: "node_step ref_matcher ref_first s1" "node_step ref_matcher s2 s3" "node_step ref_matcher s1 s2" "node_step ref_matcher s3 s4"
  proof -
    show "node_step ref_matcher ref_first s1" "node_step ref_matcher s2 s3" by (rule node_step.refresh, fact)+
    show "node_step ref_matcher s1 s2" unfolding s2_def by (rule node_step.returns) (simp_all add: 1(3) live_def)
    show "node_step ref_matcher s3 s4" unfolding s4_def by (rule node_step.late_stop) (simp add: 3(3))
  qed
  then have "(node_step ref_matcher)\<^sup>*\<^sup>* ref_first s4" by (meson rtranclp.rtrancl_into_rtrancl rtranclp.rtrancl_refl)
  moreover have "map_of (nd_active s4) 0 \<noteq> None" using 3(2) by (simp add: s4_def late_stop_hook_def)
  moreover obtain w h i where e: "nd_env s3 = ((w, (h, i)), ())" by (metis prod.exhaust old.unit.exhaust)
  then have "nd_env s4 = ((w, remove_shard 0 (h, i)), ())"
    by (simp add: s4_def late_stop_hook_def stop_hook_def ref_matcher_def matcher_runner_fields matcher_stop_hook_def)
  moreover have "\<not> active_shard (snd (remove_shard 0 (h, i))) 0"
  proof -
    have "calm_step ref_matcher (- 1) ref_first s1" "calm_step ref_matcher (- 1) s1 s2" "calm_step ref_matcher (- 1) s2 s3"
      using steps 1(4) 2(2) 3(3) by (simp_all add: calm_step_def)
    then have "(calm_step ref_matcher (- 1))\<^sup>*\<^sup>* ref_first s3" by (meson rtranclp.rtrancl_into_rtrancl rtranclp.rtrancl_refl)
    from ref_path [OF this] have "idx_wf (h, i)" using e by (simp add: active_ready_def fleet_ok_def)
    then have "length (ix_active_shards i) = length (ix_matchers i)" using idx_wfD(1) by (auto simp: idx_shape_def)
    then show ?thesis by (auto simp: remove_shard_def active_shard_def valid_shard_def forget_shard_def)
  qed
  ultimately show ?thesis by blast
qed

end
