(* ===== verification/Mains.thy ===== *)
theory Mains
  imports NodeApp Controller Producer Commands MatcherNode
begin

text \<open>
  The \<open>main\<close> functions (\<open>cmd/*/main.go\<close>) over the programs they start: what is built in which order,
  which failure ends a program with which exit code, and the lines it prints. A program's result is
  \<open>Running\<close> as long as the given events have not ended it. Signals are the cancellation of the context
  in those events; the flags are the fields of a record. The heartbeat beside the node
  (\<open>run_membership_heartbeat\<close>) and the metrics server are goroutines of their own and not part of the
  sequence. \<open>os.Exit\<close> does not run the deferred calls, which only close connections.
\<close>

section \<open>Output and exit codes\<close>

datatype out_arg = OInt int | OStr string | OInts "int list" | OErr go_error

type_synonym out_line = "string \<times> out_arg list"

datatype 's outcome = Running 's | Exited int "out_line list" 's

fun exit_code :: "'s outcome \<Rightarrow> int option" where
  "exit_code (Running s) = None"
| "exit_code (Exited c out s) = Some c"

fun end_state :: "'s outcome \<Rightarrow> 's" where
  "end_state (Running s) = s"
| "end_state (Exited c out s) = s"

section \<open>The node\<close>

definition print_shard_metrics :: "shard_metric list \<Rightarrow> out_line list" where
  "print_shard_metrics ms = map (\<lambda>m.
     (''shard_metric: shard=%d node=%d epoch=%d checkpoint_offset=%d eventlog_offset=%d lag=%d'',
      [OInt (sm_shard_id m), OInt (sm_node_id m), OInt (sm_epoch m), OInt (sm_checkpoint_offset m),
       OInt (sm_event_log_offset m), OInt (sm_lag m)])) ms"

definition print_node_result :: "node_result \<Rightarrow> string \<Rightarrow> string \<Rightarrow> out_line list" where
  "print_node_result r endpoints pre =
     [(''node_id: %d'', [OInt (nr_node_id r)]), (''shards: %v'', [OInts (nr_shard_ids r)]),
      (''eventlog_dir: %s'', [OStr (nr_event_log_dir r)]), (''eventlog: kafka'', []),
      (''checkpoint_dir: %s'', [OStr (nr_checkpoint_dir r)]), (''order_state_dir: %s'', [OStr (nr_order_state_dir r)]),
      (''ownership_backend: etcd'', []), (''etcd_endpoints: %s'', [OStr endpoints]), (''etcd_prefix: %s'', [OStr pre]),
      (''submitted: %d'', [OInt (nr_submitted r)]), (''matched: %d'', [OInt (nr_matched r)]),
      (''missed: %d'', [OInt (nr_missed r)]), (''online_riders: %d'', [OInt (nr_online_riders r)])] @
     print_shard_metrics (nr_shard_metrics r)"

definition print_node_metrics :: "node_result \<Rightarrow> out_line list" where
  "print_node_metrics r =
     (''node_metric: node=%d shards=%v submitted=%d matched=%d missed=%d online_riders=%d'',
      [OInt (nr_node_id r), OInts (nr_shard_ids r), OInt (nr_submitted r), OInt (nr_matched r), OInt (nr_missed r), OInt (nr_online_riders r)]) #
     print_shard_metrics (nr_shard_metrics r)"

text \<open>\<open>clientv3.New\<close> is \<open>dial\<close>. The stores work on the etcd behind the client.\<close>

record 's node_etcd_runtime =
  ne_ownership :: "'s store_ops"
  ne_mark_alive :: "int \<Rightarrow> ('s, unit) eff"

definition new_node_etcd_runtime ::
  "(string list \<Rightarrow> go_error option) \<Rightarrow> 's etcd_client \<Rightarrow> 's lease_client \<Rightarrow> ownership_parser \<Rightarrow> string \<Rightarrow> string \<Rightarrow> int \<Rightarrow>
   go_error + 's node_etcd_runtime" where
  "new_node_etcd_runtime dial cl lc parse endpoints_text pre ttl =
     (case parse_etcd_endpoints endpoints_text of
        Inl err \<Rightarrow> Inl err
      | Inr endpoints \<Rightarrow>
          (case dial endpoints of
             Some err \<Rightarrow> Inl (ErrWrap ''connect etcd: %w'' err)
           | None \<Rightarrow> Inr \<lparr>ne_ownership = etcd_ops cl parse (clean_etcd_prefix pre),
                          ne_mark_alive = mark_alive lc (clean_etcd_prefix pre) ttl\<rparr>))"

text \<open>\<open>pgxpool.New\<close> and the first ping.\<close>

definition database_open :: "(string \<Rightarrow> go_error + 'pool) \<Rightarrow> ('pool \<Rightarrow> go_error option) \<Rightarrow> string \<Rightarrow> go_error + 'pool" where
  "database_open new_pool ping url =
     (case new_pool url of
        Inl err \<Rightarrow> Inl (ErrWrap ''create postgres pool: %w'' err)
      | Inr pool \<Rightarrow> (case ping pool of Some err \<Rightarrow> Inl (ErrWrap ''ping postgres: %w'' err) | None \<Rightarrow> Inr pool))"

record node_flags =
  nf_node_id :: int
  nf_data_dir :: string
  nf_workers :: int
  nf_batch_size :: int
  nf_batch_wait :: int
  nf_etcd_endpoints :: string
  nf_etcd_prefix :: string
  nf_membership_ttl :: int
  nf_metrics_interval :: int
  nf_metrics_addr :: string
  nf_kafka_brokers :: string
  nf_kafka_topic :: string
  nf_postgres_url :: string

text \<open>
  What the program gets from outside: the etcd client, the pool (its environment, which also answers
  the ownership reads of the appliers), the Kafka log for a configuration, the recorder, and what a
  line of metrics does to the rest of the state.
\<close>

record 'x node_outside =
  no_dial :: "string list \<Rightarrow> go_error option"
  no_kv :: "'x etcd_client"
  no_lease :: "'x lease_client"
  no_parse :: ownership_parser
  no_new_pool :: "string \<Rightarrow> go_error + env"
  no_ping :: "env \<Rightarrow> go_error option"
  no_kafka :: "kafka_config \<Rightarrow> 'x node_log"
  no_recorder :: "'x recorder"
  no_print :: "out_line list \<Rightarrow> 'x \<Rightarrow> 'x"

definition node_main_config ::
  "'x node_outside \<Rightarrow> node_flags \<Rightarrow> 'x node_etcd_runtime \<Rightarrow> env \<Rightarrow> kafka_config \<Rightarrow> 'x node_config" where
  "node_main_config out f rt en kc =
     \<lparr>nc_node_id = nf_node_id f, nc_shards_for_node = Some (so_shards_for_node (ne_ownership rt)), nc_owner_of = Some (owner_of en),
      nc_data_dir = nf_data_dir f, nc_event_log = Some (no_kafka out kc),
      nc_checkpoints = Some (postgres_cp_ops en ConsumerOrderWorker TopicOrderEvents),
      nc_orders = Some \<lparr>oo_load = (\<lambda>i. at_world (postgres_load en i)), oo_save = (\<lambda>x. at_world (postgres_save en x))\<rparr>,
      nc_metrics_interval = nf_metrics_interval f,
      nc_sink = Some (\<lambda>r. no_print out (case r of Inl err \<Rightarrow> [(''metrics failed: %v'', [OErr err])] | Inr res \<Rightarrow> print_node_metrics res)),
      nc_recorder = (if trim_space (nf_metrics_addr f) = [] then None else Some (no_recorder out)),
      nc_workers = nf_workers f, nc_refresh_interval = 0, nc_batch_size = nf_batch_size f, nc_batch_wait = nf_batch_wait f,
      nc_pool = Some en\<rparr>"

definition node_main ::
  "'x node_outside \<Rightarrow> 'x node_parts \<Rightarrow> node_flags \<Rightarrow> loop_event list \<Rightarrow> 'x node_world \<Rightarrow> 'x node_world outcome" where
  "node_main out np f es s =
     (case new_node_etcd_runtime (no_dial out) (no_kv out) (no_lease out) (no_parse out) (nf_etcd_endpoints f) (nf_etcd_prefix f) (nf_membership_ttl f) of
        Inl err \<Rightarrow> Exited 2 [(''invalid etcd config: %v'', [OErr err])] s
      | Inr rt \<Rightarrow>
          (case database_open (no_new_pool out) (no_ping out) (nf_postgres_url f) of
             Inl err \<Rightarrow> Exited 2 [(''connect postgres: %v'', [OErr err])] s
           | Inr en \<Rightarrow>
               (case build_node_event_log (nf_kafka_brokers f) (nf_kafka_topic f) of
                  Inl err \<Rightarrow> Exited 2 [(''invalid eventlog config: %v'', [OErr err])] s
                | Inr kc \<Rightarrow>
                    (case run_with_result np (node_main_config out f rt en kc) es s of
                       (None, s') \<Rightarrow> Running s'
                     | (Some (Inl err), s') \<Rightarrow> Exited 1 [(''node failed: %v'', [OErr err])] s'
                     | (Some (Inr res), s') \<Rightarrow> Exited 0 (print_node_result res (nf_etcd_endpoints f) (nf_etcd_prefix f)) s'))))"

section \<open>The matcher worker\<close>

record 'x matcher_outside =
  mx_dial :: "string list \<Rightarrow> go_error option"
  mx_kv :: "'x etcd_client"
  mx_parse :: ownership_parser
  mx_new_pool :: "string \<Rightarrow> go_error + env"
  mx_ping :: "env \<Rightarrow> go_error option"
  mx_kafka :: "kafka_config \<Rightarrow> position \<Rightarrow> ('x, unit) eff"

text \<open>The state is that of the database and of the rest; the index is made here.\<close>

definition matcher_main ::
  "'x matcher_outside \<Rightarrow> 'x matcher_parts \<Rightarrow> matcher_flags \<Rightarrow> loop_event list \<Rightarrow> world \<times> 'x \<Rightarrow> 'x matcher_world outcome" where
  "matcher_main out mp f es = (\<lambda>(w, x).
     let index = matcher_index (automatic_cell_size areaSize (mf_riders f)); s = ((w, ([], index)), x) in
     case mx_dial out (split_values (mf_etcd_endpoints f)) of
       Some err \<Rightarrow> Exited 1 [(''%v'', [OErr err])] s
     | None \<Rightarrow>
         (case database_open (mx_new_pool out) (mx_ping out) (mf_postgres_url f) of
            Inl err \<Rightarrow> Exited 1 [(''%v'', [OErr err])] s
          | Inr en \<Rightarrow>
              (case new_kafka_event_log \<lparr>kc_brokers = split_values (mf_kafka_brokers f), kc_topic = mf_match_topic f, kc_max_bytes = 0, kc_max_wait = 0\<rparr> of
                 Inl err \<Rightarrow> Exited 1 [(''%v'', [OErr err])] s
               | Inr kc \<Rightarrow>
                   (case node_run (matcher_runner mp f (etcd_ops (mx_kv out) (mx_parse out) (clean_etcd_prefix (mf_etcd_prefix f))) en (mx_kafka out kc))
                      es (new_node s) of
                      (None, nd) \<Rightarrow> Running (nd_env nd)
                    | (Some err, nd) \<Rightarrow>
                        if errors_is err ContextCanceled then Exited 0 [] (nd_env nd) else Exited 1 [(''%v'', [OErr err])] (nd_env nd)))))"

section \<open>The controller\<close>

text \<open>The error is compared with \<open>context.Canceled\<close> itself.\<close>

definition controller_main ::
  "'s controller_client \<Rightarrow> 'p recorder \<Rightarrow> controller_config \<Rightarrow> (elect \<times> 's) controller_event list \<Rightarrow> 's \<times> 'p \<Rightarrow>
   ((elect \<times> 's) \<times> 'p) outcome" where
  "controller_main ct rec cfg es s =
     (case controller_run ct rec cfg es s of
        (None, reps, s') \<Rightarrow> Running s'
      | (Some err, reps, s') \<Rightarrow>
          if err \<noteq> ContextCanceled then Exited 1 [(''controller failed: %v'', [OErr err])] s' else Exited 0 [] s')"

section \<open>The producers\<close>

record producer_flags =
  pf_data_dir :: string
  pf_orders :: int
  pf_batch_size :: int
  pf_seed :: int
  pf_start_id :: int
  pf_metrics_addr :: string
  pf_kafka_brokers :: string
  pf_kafka_topic :: string

definition producer_main_config :: "(kafka_config \<Rightarrow> 'l appender) \<Rightarrow> 'p recorder \<Rightarrow> producer_flags \<Rightarrow> kafka_config \<Rightarrow> ('l, 'p) producer_config" where
  "producer_main_config mk rec f kc =
     \<lparr>pr_data_dir = pf_data_dir f, pr_event_log = Some (mk kc), pr_orders = pf_orders f, pr_seed = pf_seed f, pr_start_id = pf_start_id f,
      pr_area_size = 0, pr_cell_size = 0, pr_shards = 0, pr_batch_size = pf_batch_size f,
      pr_metrics = (if trim_space (pf_metrics_addr f) = [] then None else Some rec)\<rparr>"

definition producer_main ::
  "(order_created \<Rightarrow> go_error + string) \<Rightarrow> (int \<Rightarrow> nat \<Rightarrow> int \<Rightarrow> int) \<Rightarrow> (int \<Rightarrow> go_error option) \<Rightarrow> (kafka_config \<Rightarrow> 'l appender) \<Rightarrow>
   'p recorder \<Rightarrow> producer_flags \<Rightarrow> 'l \<times> 'p \<Rightarrow> ('l \<times> 'p) outcome" where
  "producer_main enc rng ctx mk rec f s =
     (case build_producer_event_log (pf_kafka_brokers f) (pf_kafka_topic f) of
        Inl err \<Rightarrow> Exited 2 [(''invalid eventlog config: %v'', [OErr err])] s
      | Inr kc \<Rightarrow>
          (let c = producer_main_config mk rec f kc in
           case producer_run enc rng ctx c s of
             (Inl err, s') \<Rightarrow> Exited 1 [(''producer failed: %v'', [OErr err])] s'
           | (Inr res, s') \<Rightarrow> Exited 0
               [(''eventlog_dir: %s'', [OStr (filepath_join (pr_data_dir (producer_defaults c)) ''events'')]), (''eventlog: kafka'', []),
                (''orders: %d'', [OInt (prr_orders res)]), (''first_id: %d'', [OInt (prr_first_id res)]),
                (''last_id: %d'', [OInt (prr_last_id res)])] s'))"

text \<open>An error that is the cancellation of the context is no failure: the count is printed.\<close>

definition retry_main ::
  "env \<Rightarrow> (order_retry_request \<Rightarrow> go_error + string) \<Rightarrow> (int \<Rightarrow> int) \<Rightarrow> go_error option \<Rightarrow> (kafka_config \<Rightarrow> 'l appender) \<Rightarrow>
   ('l \<Rightarrow> 'l) \<Rightarrow> retry_config \<Rightarrow> string \<Rightarrow> string \<Rightarrow> world \<times> 'l \<Rightarrow> (world \<times> 'l) outcome option" where
  "retry_main en enc now pool mk close c brokers topic s =
     (case validate_arguments c of
        Some err \<Rightarrow> Some (Exited 2 [(''%v'', [OErr err])] s)
      | None \<Rightarrow>
          map_option (\<lambda>((n, err), s').
              case err of
                Some er \<Rightarrow> if errors_is er ContextCanceled
                           then Exited 0 [(''attempt: %d'', [OInt (rt_attempt c)]), (''retry_events_sent: %d'', [OInt n])] s'
                           else Exited 1 [(''retry producer failed: %v'', [OErr er])] s'
              | None \<Rightarrow> Exited 0 [(''attempt: %d'', [OInt (rt_attempt c)]), (''retry_events_sent: %d'', [OInt n])] s')
            (send_retry_events en enc now pool
               (map_sum id (\<lambda>kc. (the (ap_batch (mk kc)), close))
                  (new_kafka_event_log \<lparr>kc_brokers = split_non_empty brokers, kc_topic = trim_space topic, kc_max_bytes = 0, kc_max_wait = 0\<rparr>))
               c s))"

section \<open>The outbox publisher\<close>

record outbox_flags =
  of_postgres_url :: string
  of_kafka_brokers :: string
  of_worker_id :: string
  of_order_topic :: string
  of_match_topic :: string
  of_batch_size :: int
  of_poll_interval :: int

definition outbox_main ::
  "(string \<Rightarrow> go_error + env) \<Rightarrow> (env \<Rightarrow> go_error option) \<Rightarrow> ((string \<times> string) list \<Rightarrow> (string \<times> string) list) \<Rightarrow>
   (kafka_config \<Rightarrow> 'l appender) \<Rightarrow> (nat \<Rightarrow> int) \<Rightarrow> (go_error \<Rightarrow> string) \<Rightarrow>
   ((string \<times> outbox_row list) list \<Rightarrow> (string \<times> outbox_row list) list) \<Rightarrow> outbox_flags \<Rightarrow> bool list \<Rightarrow> 'l \<times> world \<Rightarrow> ('l \<times> world) outcome" where
  "outbox_main new_pool ping order mk nanos txt rng f rounds s =
     (case database_open new_pool ping (of_postgres_url f) of
        Inl err \<Rightarrow> Exited 1 [(''%v'', [OErr err])] s
      | Inr en \<Rightarrow>
          (case new_kafka_targets order (split_char (CHR '','') (of_kafka_brokers f)) (of_order_topic f) (of_match_topic f) of
             Inl (err, opened) \<Rightarrow> Exited 1 [(''%v'', [OErr err])] s
           | Inr (targets, logs) \<Rightarrow>
               (case publisher_run en nanos txt rng
                   (publisher_defaults \<lparr>pc_worker_id = of_worker_id f, pc_batch_size = wrap32 (of_batch_size f), pc_lease = 0, pc_poll_interval = of_poll_interval f\<rparr>)
                   (\<lambda>t. map_option mk (targets t)) rounds s of
                  (None, s') \<Rightarrow> Running s'
                | (Some err, s') \<Rightarrow> if errors_is err ContextCanceled then Exited 0 [] s' else Exited 1 [(''%v'', [OErr err])] s')))"

section \<open>What the exit codes say\<close>

text \<open>
  A node that exits with 2 has found a fault of its configuration or of a connection and has not touched
  anything; one that exits with 0 was told to stop and has printed the state of its shards.
\<close>

lemma node_main_exit:
  assumes "node_main out np f es s = Exited c lines s'"
  shows "(c = 2 \<longrightarrow> s' = s) \<and> (c = 0 \<longrightarrow> (\<exists>rt en kc res. run_with_result np (node_main_config out f rt en kc) es s = (Some (Inr res), s') \<and>
      lines = print_node_result res (nf_etcd_endpoints f) (nf_etcd_prefix f))) \<and> c \<in> {0, 1, 2}"
  using assms by (auto simp: node_main_def split: sum.splits option.splits prod.splits)

lemma run_with_result_ok:
  assumes "run_with_result np cfg es s = (Some (Inr res), s')"
  shows "\<exists>err nd. node_run (build_node np (node_defaults cfg)) es (new_node s) = (Some err, nd) \<and> errors_is err ContextCanceled \<and>
    collect_result (node_defaults cfg) (active_event_log np (node_defaults cfg)) (nd_env nd) = (Inr res, s')"
  using assms by (auto simp: run_with_result_def Let_def split: option.splits prod.splits if_splits)

text \<open>The matcher worker exits with 0 exactly when its runner was cancelled.\<close>

lemma matcher_main_exit:
  assumes "matcher_main out mp f es (w, x) = Exited c lines s'"
  shows "c = 0 \<and> lines = [] \<and> (\<exists>err ops en tail_from nd. errors_is err ContextCanceled \<and> nd_env nd = s' \<and>
      node_run (matcher_runner mp f ops en tail_from) es (new_node ((w, ([], matcher_index (automatic_cell_size areaSize (mf_riders f)))), x)) = (Some err, nd)) \<or>
    c = 1 \<and> (\<exists>err. lines = [(''%v'', [OErr err])])"
  using assms by (auto simp: matcher_main_def Let_def split: sum.splits option.splits prod.splits if_splits) blast

text \<open>An invalid list of etcd endpoints ends the node before anything else is asked for.\<close>

lemma node_main_no_endpoints:
  "parse_etcd_endpoints (nf_etcd_endpoints f) = Inl err \<Longrightarrow> node_main out np f es s = Exited 2 [(''invalid etcd config: %v'', [OErr err])] s"
  by (simp add: node_main_def new_node_etcd_runtime_def)

end
