(* ===== verification/Spec2Isabelle.thy ===== *)
theory Spec2Isabelle
  imports Prelude GoInt Layout Model Grid MatchIndex HashRing Ownership EtcdRef Epochs
    Membership Election Cluster Database OrderStore OrderFile EventLog Applier MatchWorker Kafka Checkpoint Outbox Runner
    Metrics ShardLog Producer GoText NodeApp Controller MatcherMain Commands Pipeline MatcherNode Mains
begin

text \<open>
  Verification of a distributed order-dispatch system.

  \<^bold>\<open>The program.\<close> Orders are matched with riders by programs that share Kafka, Postgres and etcd. The
  \<open>producer\<close> (and, for missed orders, the \<open>retry-producer\<close>) appends order events to the Kafka topic
  \<open>order-events\<close>, one partition per shard of a square area. A \<open>node\<close> owns shards; for each it reads the
  partition from a checkpoint and applies the events to the orders in Postgres, a batch in one transaction
  with the inbox, the match requests in the outbox and the new checkpoint. The \<open>outbox-publisher\<close> claims
  outbox rows and appends them to their topics. The \<open>matcher-worker\<close> reads \<open>match-requests\<close>, searches an index
  of riders in memory, reserves a rider and writes the answer to the outbox, in one transaction. The
  \<open>controller\<close>s elect a leader over etcd, which gives every shard an owner among the nodes that are alive;
  owners carry an epoch, and the appliers check it before and after their work (the fence).

  \<^bold>\<open>The theories\<close>, in the order they build on each other, and the files they model.

    \<^item> Shared: \<open>Prelude\<close> (errors, the effect type \<open>'s \<Rightarrow> (go_error + 'a) \<times> 's\<close>, maps as association lists),
      \<open>GoInt\<close> (the 64 and 32 bit integers and the detours over \<open>float64\<close>), \<open>Model\<close> (\<open>internal/model\<close>),
      \<open>GoText\<close> (\<open>internal/tools/etcd.go\<close>, lists of addresses).
    \<^item> Space: \<open>Layout\<close> (\<open>internal/shard\<close>), \<open>Grid\<close> (\<open>internal/matcher\<close>), \<open>MatchIndex\<close> (\<open>internal/matching\<close>). Riders
      are shared by pointer, so they live in a heap. The lemmas show that the layout maps every point to a
      valid shard, that the grid and the index implement maps from riders to positions, and that the two
      searches return exactly the riders of a ring in order.
    \<^item> Control plane: \<open>HashRing\<close> (\<open>internal/tools/consistenthash.go\<close>), \<open>Ownership\<close>, \<open>Epochs\<close>, \<open>Membership\<close>,
      \<open>Election\<close> (\<open>internal/cluster/*\<close>), \<open>Cluster\<close> (failover, rebalance, sweep), \<open>Controller\<close>
      (\<open>internal/controllerapp\<close>, heartbeats); \<open>EtcdRef\<close> is the client the witnesses run on. The stores keep the
      contracts \<open>ownership_store\<close> and \<open>ownership_lister\<close>; \<open>Epochs\<close> and \<open>Election\<close> are step relations with
      one etcd request per step. Shown are consecutive epochs, a single live leader, what a sweep does, and
      that sweeps come to rest with every shard at the node the ring gives.
    \<^item> Storage: \<open>Database\<close> (\<open>internal/database\<close>, one definition per SQL statement, transactions with faults),
      \<open>OrderStore\<close>, \<open>OrderFile\<close> (\<open>internal/orderstate\<close>), \<open>Checkpoint\<close> (\<open>internal/checkpoint\<close>), \<open>EventLog\<close>, \<open>Kafka\<close>,
      \<open>ShardLog\<close> (\<open>internal/eventlog\<close>). Each interface is a locale (\<open>order_store\<close>, \<open>checkpoint_store\<close>,
      \<open>event_appender\<close>, \<open>shard_log\<close>) interpreted on the implementations. Shown are atomic saves, checkpoints
      that never go back, a file log that delivers what was appended, once and in order, and a Kafka log that
      delivers nothing else.
    \<^item> Data plane: \<open>Applier\<close> (\<open>internal/applier\<close>), \<open>MatchWorker\<close> (\<open>internal/matchworker\<close>), \<open>Outbox\<close>
      (\<open>internal/outbox\<close>), \<open>Runner\<close> (\<open>internal/node\<close>), \<open>NodeApp\<close> (\<open>internal/nodeapp\<close>), \<open>Producer\<close>
      (\<open>internal/producerapp\<close>, \<open>cmd/retry-producer\<close>), \<open>MatcherMain\<close> and \<open>MatcherNode\<close> (\<open>cmd/matcher-worker\<close>),
      \<open>Metrics\<close> (\<open>internal/metrics\<close>). Shown are atomic batches that take effect once over retries and
      redeliveries, fenced commits, exclusive claims of outbox rows, the accounting of reservations, one
      live goroutine per shard, resumption at the checkpoint, the equivalence of batched and single
      application on Postgres, and that a matcher only works on shards whose riders it has loaded, unless a
      refresh restarts a shard before its late stop hook.
    \<^item> The whole: \<open>Pipeline\<close> composes producer, order nodes, publisher and matcher over one database and one set
      of logs and traces every answer back to a client's event; \<open>Commands\<close> and \<open>Mains\<close> (\<open>cmd/*/main.go\<close>) are
      the main functions with their connections, exit codes and printed lines.

  \<^bold>\<open>How the code is rendered.\<close> A struct is a record, an interface a record of operations, a method a
  definition of the same name in small letters with underscores. An operation that can fail has the effect
  type; early returns are its \<open>ebind\<close>. A nil pointer or a missing value is \<open>None\<close>, a panic is \<open>None\<close> or the
  error \<open>panic\<close>. A channel, a ticker or a \<open>select\<close> is the list of what it finds, so every property holds for all
  such lists; these lists are the only fuel, and a result \<open>None\<close> or \<open>Running\<close> says that the list did not end
  the loop. Loops with a fixed number of attempts keep it (\<open>maxEtcdAssignRetries\<close>). The rounds in
  \<open>outbox_drains\<close> are bounded by the pending rows, the sweeps in \<open>controller_comes_to_rest\<close> by the shards that
  are not where the ring puts them. Goroutines and processes interleave as step relations, a step being an etcd
  request, a call of \<open>refreshOnce\<close>, a record or a batch, the return of a goroutine, its late call of the stop
  hook after a lost fence (outside the mutex, so a refresh can come in between), or a locked section.

  \<^bold>\<open>Parameters.\<close> The etcd, Kafka and Postgres clients, the Prometheus library, JSON, the file system, \<open>math/rand\<close>,
  the clock and the order in which maps are ranged over are arguments. What a property needs of them is a named
  hypothesis (\<open>etcd_laws\<close>, \<open>lease_laws\<close>, \<open>writer_laws\<close>, \<open>honest\<close> and the like) that states documented behaviour, and
  its witness discharges it on a concrete instance. JSON keeps strings only when they are valid UTF-8
  (\<open>text_event\<close>). The Kafka writer is configured without acknowledgements, so \<open>writer_laws\<close> lets it lose or
  repeat messages whatever it reports; that an append which succeeds has put its events into the log, which the
  locales \<open>event_appender\<close>, \<open>shard_log\<close> and \<open>exact_appender\<close> ask for, holds of the in-memory log and of an
  \<open>exact_writer\<close>, not of the writer as configured. A write to a file that stops half way is not covered by
  \<open>tail_delivers_in_order\<close>.

  \<^bold>\<open>Not modelled.\<close> The metrics HTTP server and the parsing of flags (only library calls); signals, which are the
  cancellation in the given events; connection pools and generated glue of \<open>internal/database\<close>; \<open>GOMAXPROCS\<close>; guards
  against nil clients; mutexes, where an operation holds its lock from start to end; isolation below serial
  transactions; the loss of unsynced file data in a crash of the machine; white space that is not ASCII; of
  \<open>benchmark/distributed\<close> everything but its ownership store (it measures and starts processes).
\<close>

end
